(* ===== verification/Prelude.thy ===== *)
theory Prelude
  imports Main "HOL-Library.Word"
begin

text \<open>
  Shared vocabulary of the development: octets and Node.js \<open>Buffer\<close>s, the little- and
  big-endian integer accessors of \<open>Buffer\<close>, packing a list into fixed-size chunks, and the
  generic interface of a component with an invariant (\<open>invariant_machine\<close>).

  A \<open>Buffer\<close> is a list of octets (\<open>8 word\<close>). A JavaScript number that only ever holds a small
  non-negative integer (a length, an index, a decoded unsigned field) is a \<open>nat\<close>; a field that
  the code masks to a width is a \<open>word\<close> of that width.
\<close>

unbundle bit_operations_syntax

named_theorems buf_simps "accessors and constructors of byte buffers"

type_synonym byte = "8 word"
type_synonym buffer = "byte list"
type_synonym u16 = "16 word"


section \<open>Unsigned integers in buffers\<close>

text \<open>
  \<open>le_val bs\<close> is what \<open>readUIntLE\<close> reads from the octets \<open>bs\<close>, and \<open>le_bytes n v\<close> is what
  \<open>writeUIntLE(v, _, n)\<close> stores. The big-endian accessors reverse the octets.
\<close>

primrec le_val :: "buffer \<Rightarrow> nat" where
  "le_val [] = 0"
| "le_val (b # bs) = unat b + 256 * le_val bs"

primrec le_bytes :: "nat \<Rightarrow> nat \<Rightarrow> buffer" where
  "le_bytes 0 v = []"
| "le_bytes (Suc n) v = of_nat v # le_bytes n (v div 256)"

definition readUIntLE :: "buffer \<Rightarrow> nat \<Rightarrow> nat \<Rightarrow> nat" where
  "readUIntLE b off n = le_val (take n (drop off b))"

definition readUIntBE :: "buffer \<Rightarrow> nat \<Rightarrow> nat \<Rightarrow> nat" where
  "readUIntBE b off n = le_val (rev (take n (drop off b)))"

abbreviation readUInt16LE :: "buffer \<Rightarrow> nat \<Rightarrow> nat" where
  "readUInt16LE b off \<equiv> readUIntLE b off 2"

abbreviation readUInt32LE :: "buffer \<Rightarrow> nat \<Rightarrow> nat" where
  "readUInt32LE b off \<equiv> readUIntLE b off 4"

abbreviation readUInt16BE :: "buffer \<Rightarrow> nat \<Rightarrow> nat" where
  "readUInt16BE b off \<equiv> readUIntBE b off 2"

abbreviation writeUInt16LE :: "nat \<Rightarrow> buffer" where
  "writeUInt16LE v \<equiv> le_bytes 2 v"

abbreviation writeUInt32LE :: "nat \<Rightarrow> buffer" where
  "writeUInt32LE v \<equiv> le_bytes 4 v"

abbreviation writeUInt16BE :: "nat \<Rightarrow> buffer" where
  "writeUInt16BE v \<equiv> rev (le_bytes 2 v)"

text \<open>\<open>buf.subarray(lo, hi)\<close>: both ends are clamped to the buffer.\<close>

definition subarray :: "'a list \<Rightarrow> nat \<Rightarrow> nat \<Rightarrow> 'a list" where
  "subarray b lo hi = take (hi - lo) (drop lo b)"

text \<open>\<open>Math.ceil(a / b)\<close> for non-negative integers and positive \<open>b\<close>.\<close>

definition ceil_div :: "nat \<Rightarrow> nat \<Rightarrow> nat" where
  "ceil_div a b = (a + b - 1) div b"

lemma unat_of_nat_byte [simp]: "unat (of_nat v :: byte) = v mod 256"
  by (simp add: unat_of_nat)

lemma unat_of_nat_u16 [simp]: "unat (of_nat v :: u16) = v mod 65536"
  by (simp add: unat_of_nat)

lemma unat_byte_lt [simp]: "unat (b :: byte) < 256"
  using unsigned_less [of b] by simp

lemma unat_byte_le [simp]: "unat (b :: byte) \<le> 255"
  using unat_byte_lt [of b] by linarith

lemma unat_u16_lt [simp]: "unat (w :: u16) < 65536"
  using unsigned_less [of w] by simp

lemma byte_256 [simp]: "(256 :: byte) = 0"
  by simp

lemma and_exp_byte: "(h :: byte) AND 2 ^ n = (if bit h n then 2 ^ n else 0)"
  by (rule bit_word_eqI) (auto simp: bit_simps)

lemma byte_and_FF [simp]: "(h :: byte) AND 0xFF = h"
proof -
  have "(0xFF :: byte) = - 1" by simp
  then show ?thesis by (simp only: and.right_neutral)
qed

lemma unat_and_mask: "unat (x AND mask n) = unat x mod 2 ^ n"
proof -
  have "unat (x AND mask n) = unat (take_bit n x)" by (simp only: take_bit_eq_mask)
  also have "\<dots> = take_bit n (unat x)" by (rule unsigned_take_bit_eq)
  also have "\<dots> = unat x mod 2 ^ n" by (rule take_bit_eq_mod)
  finally show ?thesis .
qed

lemma length_le_bytes [simp]: "length (le_bytes n v) = n"
  by (induction n arbitrary: v) auto

lemma le_val_le_bytes: "le_val (le_bytes n v) = v mod 256 ^ n"
proof (induction n arbitrary: v)
  case (Suc n)
  then show ?case by (simp add: mod_mult2_eq)
qed simp

lemma le_bytes_le_val: "le_bytes (length bs) (le_val bs) = bs"
  by (induction bs) auto

lemma le_val_lt: "le_val bs < 256 ^ length bs"
proof (induction bs)
  case (Cons b bs)
  have "unat b + 256 * le_val bs < 256 + 256 * le_val bs"
    by simp
  also have "\<dots> = 256 * Suc (le_val bs)" by simp
  also have "\<dots> \<le> 256 * 256 ^ length bs"
    using Cons by (meson Suc_leI mult_le_mono2)
  finally show ?case by simp
qed simp

lemma le_val_eq_iff: "length bs = length cs \<Longrightarrow> le_val bs = le_val cs \<longleftrightarrow> bs = cs"
  by (metis le_bytes_le_val)

lemma le_bytes_inject:
  "v < 256 ^ n \<Longrightarrow> w < 256 ^ n \<Longrightarrow> le_bytes n v = le_bytes n w \<longleftrightarrow> v = w"
  by (metis le_val_le_bytes mod_less)

lemma le_bytes_neq_Nil [simp]: "0 < n \<Longrightarrow> le_bytes n v \<noteq> []"
  by (metis length_le_bytes less_numeral_extra(3) list.size(3))

lemma readUIntLE_lt: "readUIntLE b off n < 256 ^ n"
proof -
  have "readUIntLE b off n < 256 ^ length (take n (drop off b))"
    unfolding readUIntLE_def by (rule le_val_lt)
  also have "\<dots> \<le> 256 ^ n" by (rule power_increasing) auto
  finally show ?thesis .
qed

lemma readUIntBE_lt: "readUIntBE b off n < 256 ^ n"
proof -
  have "readUIntBE b off n < 256 ^ length (rev (take n (drop off b)))"
    unfolding readUIntBE_def by (rule le_val_lt)
  also have "\<dots> \<le> 256 ^ n" by (rule power_increasing) auto
  finally show ?thesis .
qed

text \<open>Reading a field that starts right after a known prefix.\<close>

lemma readUIntLE_append [buf_simps]:
  "length xs = off \<Longrightarrow> length ys = n \<Longrightarrow> readUIntLE (xs @ ys @ zs) off n = le_val ys"
  by (simp add: readUIntLE_def)

lemma readUIntBE_append [buf_simps]:
  "length xs = off \<Longrightarrow> length ys = n \<Longrightarrow> readUIntBE (xs @ ys @ zs) off n = le_val (rev ys)"
  by (simp add: readUIntBE_def)

lemma readUIntLE_prefix:
  "off + n \<le> length b \<Longrightarrow> readUIntLE (b @ c) off n = readUIntLE b off n"
  by (simp add: readUIntLE_def)

lemma subarray_append [buf_simps]:
  "length xs = lo \<Longrightarrow> length ys = hi - lo \<Longrightarrow> subarray (xs @ ys @ zs) lo hi = ys"
  by (simp add: subarray_def)

lemma length_subarray: "length (subarray b lo hi) = min (hi - lo) (length b - lo)"
  by (simp add: subarray_def min.commute)

lemma subarray_full: "hi \<le> length b \<Longrightarrow> lo \<le> hi \<Longrightarrow> length (subarray b lo hi) = hi - lo"
  by (simp add: length_subarray)

lemma ceil_div_le: "0 < b \<Longrightarrow> a \<le> ceil_div a b * b"
proof -
  assume b: "0 < b"
  have "a + b - 1 < ((a + b - 1) div b) * b + b"
    using b by (metis add.commute dividend_less_times_div mult.commute)
  then show ?thesis unfolding ceil_div_def by linarith
qed

lemma ceil_div_0 [simp]: "0 < b \<Longrightarrow> ceil_div 0 b = 0"
  by (simp add: ceil_div_def)

lemma ceil_div_pos: "0 < b \<Longrightarrow> 0 < a \<Longrightarrow> 0 < ceil_div a b"
  using ceil_div_le [of b a] by (cases "ceil_div a b") auto

lemma ceil_div_step: "0 < b \<Longrightarrow> 0 < a \<Longrightarrow> ceil_div a b = Suc (ceil_div (a - b) b)"
proof (cases "a \<le> b")
  case True
  assume "0 < b" "0 < a"
  with True have "a + b - 1 = (a - 1) + b" "(a - 1) div b = 0" by auto
  then have "(a + b - 1) div b = 1" using \<open>0 < b\<close> by (simp only: div_add_self2)
  with True \<open>0 < b\<close> show ?thesis by (simp add: ceil_div_def)
next
  case False
  assume "0 < b" "0 < a"
  with False have "a + b - 1 = (a - b + b - 1) + b" by auto
  with \<open>0 < b\<close> have "(a + b - 1) div b = (a - b + b - 1) div b + 1"
    by (metis div_add_self2 less_numeral_extra(3))
  then show ?thesis by (simp add: ceil_div_def)
qed

lemma less_ceil_div_iff: "0 < b \<Longrightarrow> i < ceil_div a b \<longleftrightarrow> i * b < a"
proof (induction i arbitrary: a)
  case 0
  then show ?case using ceil_div_pos [of b a] by (cases a) auto
next
  case (Suc i)
  show ?case
  proof (cases "a = 0")
    case False
    then have "Suc i < ceil_div a b \<longleftrightarrow> i < ceil_div (a - b) b"
      using ceil_div_step [of b a] Suc.prems by simp
    also have "\<dots> \<longleftrightarrow> i * b < a - b" using Suc by blast
    finally show ?thesis by (simp add: less_diff_conv add.commute)
  qed (use Suc.prems in simp)
qed


lemma map_determined:
  "map f xs = map f ys \<Longrightarrow> (\<And>x y. x \<in> set xs \<Longrightarrow> y \<in> set ys \<Longrightarrow> f x = f y \<Longrightarrow> g x = g y) \<Longrightarrow>
     map g xs = map g ys"
proof (induction xs arbitrary: ys)
  case (Cons x xs)
  then obtain y ys' where "ys = y # ys'" by (cases ys) auto
  with Cons.prems Cons.IH [of ys'] show ?case by auto
qed simp


text \<open>\<open>writeUInt8\<close> and \<open>writeUInt16LE\<close> throw on a value that does not fit: \<open>None\<close>.\<close>

definition write_field :: "bool \<Rightarrow> nat \<Rightarrow> buffer option" where
  "write_field two n =
     (if two then (if n > 65535 then None else Some (writeUInt16LE n))
      else (if n > 255 then None else Some [of_nat n]))"

lemma write_field_prefix:
  "n < (if two then 65536 else 256) \<Longrightarrow>
     write_field two n = Some (if two then writeUInt16LE n else [of_nat n])"
  by (cases two) (simp_all add: write_field_def)


section \<open>Chunks\<close>

text \<open>\<open>chunks n xs\<close> cuts \<open>xs\<close> into consecutive pieces of \<open>n\<close> elements, the last one shorter.\<close>

function chunks :: "nat \<Rightarrow> 'a list \<Rightarrow> 'a list list" where
  "chunks n xs = (if xs = [] \<or> n = 0 then [] else take n xs # chunks n (drop n xs))"
  by pat_completeness auto
termination
  by (relation "measure (\<lambda>(n, xs). length xs)") auto

declare chunks.simps [simp del]

lemma chunks_Nil [simp]: "chunks n [] = []"
  by (simp add: chunks.simps)

lemma chunks_step: "xs \<noteq> [] \<Longrightarrow> 0 < n \<Longrightarrow> chunks n xs = take n xs # chunks n (drop n xs)"
  by (subst chunks.simps) simp

lemma concat_chunks: "0 < n \<Longrightarrow> concat (chunks n xs) = xs"
proof (induction n xs rule: chunks.induct)
  case (1 n xs)
  then show ?case by (cases "xs = []") (simp_all add: chunks_step)
qed

lemma chunks_eq_Nil_iff: "0 < n \<Longrightarrow> chunks n xs = [] \<longleftrightarrow> xs = []"
  by (metis chunks_Nil concat.simps(1) concat_chunks)

lemma length_chunks: "0 < n \<Longrightarrow> length (chunks n xs) = ceil_div (length xs) n"
proof (induction n xs rule: chunks.induct)
  case (1 n xs)
  then show ?case
    by (cases "xs = []") (simp_all add: chunks_step ceil_div_step [of n "length xs"])
qed

lemma chunks_length_le: "c \<in> set (chunks n xs) \<Longrightarrow> length c \<le> n"
proof (induction n xs rule: chunks.induct)
  case (1 n xs)
  then show ?case by (cases "xs = [] \<or> n = 0") (auto simp: chunks.simps [of n xs])
qed

lemma chunks_nonempty: "c \<in> set (chunks n xs) \<Longrightarrow> c \<noteq> []"
proof (induction n xs rule: chunks.induct)
  case (1 n xs)
  then show ?case by (cases "xs = [] \<or> n = 0") (auto simp: chunks.simps [of n xs])
qed


section \<open>Strings\<close>

text \<open>\<open>s.split(c)\<close> for a one-character separator.\<close>

primrec split_on :: "char \<Rightarrow> string \<Rightarrow> string list" where
  "split_on c [] = [[]]"
| "split_on c (x # xs) =
     (if x = c then [] # split_on c xs
      else (case split_on c xs of [] \<Rightarrow> [[x]] | p # ps \<Rightarrow> (x # p) # ps))"

text \<open>\<open>s.trim() === ""\<close>.\<close>

definition blank :: "string \<Rightarrow> bool" where
  "blank s \<longleftrightarrow> list_all (\<lambda>c. of_char c \<in> {9, 10, 11, 12, 13, 32, 160 :: nat}) s"

lemma split_on_neq_Nil [simp]: "split_on c s \<noteq> []"
  by (induction s) (auto split: list.splits)


section \<open>Components with an invariant\<close>

text \<open>
  A component is a set of operations on a state; each operation is a value of the type \<open>'op\<close>
  and \<open>step\<close> performs it. If every operation keeps \<open>inv\<close>, so does every sequence of operations.
\<close>

locale invariant_machine =
  fixes step :: "'op \<Rightarrow> 's \<Rightarrow> 's"
    and inv :: "'s \<Rightarrow> bool"
  assumes step_inv: "inv s \<Longrightarrow> inv (step op s)"
begin

lemma run_inv: "inv s \<Longrightarrow> inv (fold step ops s)"
  by (induction ops arbitrary: s) (auto intro: step_inv)

end

end
