(* ===== verification/JS_Number.thy ===== *)
theory JS_Number
  imports Prelude
begin

text \<open>
  JavaScript numbers, where the code handles measured values and not only counts. A number is
  \<open>NaN\<close>, an infinity, or \<open>Finite s m e\<close>, the value \<open>(-1)^s * m * 2^e\<close>; the results of arithmetic
  are rounded to binary64 (53 significant bits, nearest, ties to even). The accessors
  \<open>readFloatLE\<close>, \<open>writeFloatLE\<close>, \<open>readDoubleLE\<close> and \<open>writeDoubleLE\<close> of \<open>Buffer\<close> are the IEEE 754
  interchange formats with \<open>w\<close> exponent bits and \<open>p\<close> bits of precision.
\<close>

datatype number = NaN | Infinity bool | Finite bool nat int

definition num_of_int :: "int \<Rightarrow> number" where
  "num_of_int i = Finite (i < 0) (nat \<bar>i\<bar>) 0"

definition isFinite :: "number \<Rightarrow> bool" where
  "isFinite x = (case x of Finite _ _ _ \<Rightarrow> True | _ \<Rightarrow> False)"

text \<open>\<open>x !== 0\<close>.\<close>

definition num_nonzero :: "number \<Rightarrow> bool" where
  "num_nonzero x = (case x of Finite _ m _ \<Rightarrow> m \<noteq> 0 | _ \<Rightarrow> True)"

text \<open>\<open>Math.trunc\<close> of a finite number.\<close>

definition trunc_finite :: "bool \<Rightarrow> nat \<Rightarrow> int \<Rightarrow> int" where
  "trunc_finite s m e =
     (let a = (if 0 \<le> e then m * 2 ^ nat e else m div 2 ^ nat (- e))
      in if s then - int a else int a)"

text \<open>
  \<open>clampInt(value, min, max)\<close> of \<open>app-objects.ts\<close> and \<open>controls.ts\<close>, as the integer that is stored
  by the \<open>writeInt\<close> that follows: \<open>NaN\<close> passes both comparisons and is stored as 0.
\<close>

definition clampInt :: "number \<Rightarrow> int \<Rightarrow> int \<Rightarrow> int" where
  "clampInt x lo hi =
     (case x of NaN \<Rightarrow> 0
      | Infinity s \<Rightarrow> if s then lo else hi
      | Finite s m e \<Rightarrow> (let v = trunc_finite s m e in if v < lo then lo else if v > hi then hi else v))"

section \<open>Rounding\<close>

fun bitlen :: "nat \<Rightarrow> nat" where
  "bitlen m = (if m = 0 then 0 else Suc (bitlen (m div 2)))"

declare bitlen.simps [simp del]

definition round_half_even :: "nat \<Rightarrow> nat \<Rightarrow> nat" where
  "round_half_even m d =
     (let q = m div d; r = m mod d
      in if 2 * r > d \<or> (2 * r = d \<and> odd q) then q + 1 else q)"

definition min_exp :: "nat \<Rightarrow> nat \<Rightarrow> int" where
  "min_exp p w = - (2 ^ (w - 1) - 2) - (int p - 1)"

text \<open>
  \<open>m * 2 ^ e\<close> rounded to \<open>p\<close> bits, with no exponent below \<open>min_exp p w\<close>; a zero has the smallest exponent, so its
  exponent and fraction fields are all zero bits.
\<close>

definition round_to :: "nat \<Rightarrow> nat \<Rightarrow> nat \<Rightarrow> int \<Rightarrow> nat \<times> int" where
  "round_to p w m e =
     (if m = 0 then (0, min_exp p w)
      else (let e' = max (e + int (bitlen m) - int p) (min_exp p w)
            in if e' \<le> e then (m * 2 ^ nat (e - e'), e')
               else (round_half_even m (2 ^ nat (e' - e)), e')))"

definition float_encode :: "nat \<Rightarrow> nat \<Rightarrow> number \<Rightarrow> nat" where
  "float_encode p w x =
     (let sgn_bit = (\<lambda>s. if s then 2 ^ (w + p - 1) else 0);
          inf = (2 ^ w - 1) * 2 ^ (p - 1)
      in case x of
           NaN \<Rightarrow> inf + 2 ^ (p - 2)
         | Infinity s \<Rightarrow> sgn_bit s + inf
         | Finite s m e \<Rightarrow>
             (let (n, e') = round_to p w m e
              in sgn_bit s + min inf (nat (e' - min_exp p w) * 2 ^ (p - 1) + n)))"

definition float_decode :: "nat \<Rightarrow> nat \<Rightarrow> nat \<Rightarrow> number" where
  "float_decode p w v =
     (let s = (2 ^ (w + p - 1) \<le> v);
          ex = v div 2 ^ (p - 1) mod 2 ^ w;
          fr = v mod 2 ^ (p - 1)
      in if ex = 2 ^ w - 1 then (if fr = 0 then Infinity s else NaN)
         else if ex = 0 then Finite s fr (min_exp p w)
         else Finite s (2 ^ (p - 1) + fr) (int ex - 1 + min_exp p w))"

text \<open>Rounding to binary64.\<close>

definition round64 :: "number \<Rightarrow> number" where
  "round64 x = float_decode 53 11 (float_encode 53 11 x)"

text \<open>The rounded product \<open>a * b\<close> of two binary64 numbers.\<close>

definition num_mul :: "number \<Rightarrow> number \<Rightarrow> number" where
  "num_mul a b =
     (case (a, b) of
        (Finite s m e, Finite t n f) \<Rightarrow> float_decode 53 11 (float_encode 53 11 (Finite (s \<noteq> t) (m * n) (e + f)))
      | (NaN, _) \<Rightarrow> NaN
      | (_, NaN) \<Rightarrow> NaN
      | (Infinity s, Infinity t) \<Rightarrow> Infinity (s \<noteq> t)
      | (Infinity s, Finite t n f) \<Rightarrow> if n = 0 then NaN else Infinity (s \<noteq> t)
      | (Finite s m e, Infinity t) \<Rightarrow> if m = 0 then NaN else Infinity (s \<noteq> t))"

definition readFloatLE :: "buffer \<Rightarrow> nat \<Rightarrow> number" where
  "readFloatLE b off = float_decode 24 8 (readUIntLE b off 4)"

definition readDoubleLE :: "buffer \<Rightarrow> nat \<Rightarrow> number" where
  "readDoubleLE b off = float_decode 53 11 (readUIntLE b off 8)"

definition writeFloatLE :: "number \<Rightarrow> buffer" where
  "writeFloatLE x = le_bytes 4 (float_encode 24 8 x)"

definition writeDoubleLE :: "number \<Rightarrow> buffer" where
  "writeDoubleLE x = le_bytes 8 (float_encode 53 11 x)"

section \<open>Two's complement integers in buffers\<close>

definition signed_val :: "nat \<Rightarrow> nat \<Rightarrow> int" where
  "signed_val bits v = (if v < 2 ^ (bits - 1) then int v else int v - 2 ^ bits)"

definition signed_bytes :: "nat \<Rightarrow> int \<Rightarrow> buffer" where
  "signed_bytes n i = le_bytes n (nat (i mod 2 ^ (8 * n)))"

definition readInt32LE :: "buffer \<Rightarrow> nat \<Rightarrow> int" where
  "readInt32LE b off = signed_val 32 (readUIntLE b off 4)"

definition readInt16LE :: "buffer \<Rightarrow> nat \<Rightarrow> int" where
  "readInt16LE b off = signed_val 16 (readUIntLE b off 2)"

abbreviation writeInt32LE :: "int \<Rightarrow> buffer" where "writeInt32LE i \<equiv> signed_bytes 4 i"
abbreviation writeInt16LE :: "int \<Rightarrow> buffer" where "writeInt16LE i \<equiv> signed_bytes 2 i"


section \<open>Round trips\<close>

lemma length_writeFloatLE [simp]: "length (writeFloatLE x) = 4" "length (writeDoubleLE x) = 8"
  "length (signed_bytes n i) = n"
  by (simp_all add: writeFloatLE_def writeDoubleLE_def signed_bytes_def)

lemma bitlen_range: "0 < k \<Longrightarrow> 2 ^ (k - 1) \<le> m \<Longrightarrow> m < 2 ^ k \<Longrightarrow> bitlen m = k"
proof (induction k arbitrary: m)
  case (Suc k)
  show ?case
  proof (cases "k = 0")
    case True
    with Suc.prems have "m = 1" by simp
    with True show ?thesis by (simp add: bitlen.simps)
  next
    case False
    then have "(2 :: nat) ^ k = 2 * 2 ^ (k - 1)" by (metis power_Suc Suc_pred' neq0_conv)
    then have "2 ^ (k - 1) \<le> m div 2" "m div 2 < 2 ^ k" "m \<noteq> 0"
      using Suc.prems by (auto intro: div_less_dividend)
    with False Suc.IH [of "m div 2"] show ?thesis by (subst bitlen.simps) simp
  qed
qed simp

lemma bitlen_le: "m < 2 ^ k \<Longrightarrow> bitlen m \<le> k"
proof (induction k arbitrary: m)
  case (Suc k)
  then have "bitlen (m div 2) \<le> k" by simp
  then show ?case by (subst bitlen.simps) simp
qed (simp add: bitlen.simps)

lemma float_fields:
  fixes v M E :: nat
  assumes "0 < M" "0 < E" "v < 2 * (E * M)"
  shows "v = (if E * M \<le> v then E * M else 0) + (v div M mod E) * M + v mod M"
proof -
  have "v div M div E = v div (E * M)" by (metis div_mult2_eq mult.commute)
  also have "\<dots> = (if E * M \<le> v then 1 else 0)"
    using assms by (auto simp: div_nat_eqI)
  finally have "v div M = (if E * M \<le> v then E else 0) + v div M mod E"
    using mult_div_mod_eq [of E "v div M"] by (auto split: if_splits)
  then have "v div M * M = (if E * M \<le> v then E * M else 0) + (v div M mod E) * M"
    by (metis (full_types) add_mult_distrib mult_0)
  then show ?thesis using div_mult_mod_eq [of v M] by linarith
qed

lemma float_encode_decode:
  assumes "2 \<le> p" "0 < w" "v < 2 ^ (w + p)" "float_decode p w v \<noteq> NaN"
  shows "float_encode p w (float_decode p w v) = v"
proof -
  define M E where "M = (2 :: nat) ^ (p - 1)" and "E = (2 :: nat) ^ w"
  define s ex fr where "s = (E * M \<le> v)" and "ex = v div M mod E" and "fr = v mod M"
  have ME: "(2 :: nat) ^ (w + p - 1) = E * M" "(2 :: nat) ^ (w + p) = 2 * (E * M)"
    using assms(1) by (simp_all add: M_def E_def flip: power_add power_Suc)
  have v: "v = (if s then E * M else 0) + ex * M + fr"
    unfolding s_def ex_def fr_def
    using assms(3) ME(2) by (intro float_fields) (simp_all add: M_def E_def)
  have lt: "ex < E" "fr < M" by (simp_all add: ex_def fr_def E_def M_def)
  have dec: "float_decode p w v =
      (if ex = E - 1 then (if fr = 0 then Infinity s else NaN)
       else if ex = 0 then Finite s fr (min_exp p w)
       else Finite s (M + fr) (int ex - 1 + min_exp p w))"
    unfolding float_decode_def Let_def ME(1) s_def ex_def fr_def M_def [symmetric] E_def [symmetric]
    by (rule refl)
  have enc: "float_encode p w (Finite s m e) = (let (n, e') = round_to p w m e
      in (if s then E * M else 0) + min ((E - 1) * M) (nat (e' - min_exp p w) * M + n))" for m e
    unfolding float_encode_def Let_def ME(1) M_def [symmetric] E_def [symmetric] by simp
  have encI: "float_encode p w (Infinity s) = (if s then E * M else 0) + (E - 1) * M"
    unfolding float_encode_def Let_def ME(1) M_def [symmetric] E_def [symmetric] by simp
  consider "ex = E - 1" | "ex \<noteq> E - 1" "ex = 0" | "ex \<noteq> E - 1" "0 < ex" by blast
  then show ?thesis
  proof cases
    case 1
    then have "fr = 0" using assms(4) dec by (auto split: if_splits)
    with 1 show ?thesis using dec encI v by simp
  next
    case 2
    have "bitlen fr \<le> p - 1" using lt(2) by (intro bitlen_le) (simp add: M_def)
    then have "round_to p w fr (min_exp p w) = (fr, min_exp p w)"
      using assms(1) by (auto simp: round_to_def max_def Let_def)
    moreover have "min ((E - 1) * M) fr = fr"
    proof -
      have "1 * M \<le> (E - 1) * M" using 2 lt(1) by (intro mult_le_mono1) simp
      then have "fr \<le> (E - 1) * M" using lt(2) by linarith
      then show ?thesis by (rule min.absorb2)
    qed
    moreover have "float_decode p w v = Finite s fr (min_exp p w)" using dec 2 by simp
    moreover have "v = (if s then E * M else 0) + fr" using v 2(2) by simp
    ultimately show ?thesis unfolding enc by (simp only: enc) (simp add: enc)
  next
    case 3
    have "2 ^ p = 2 * M" using assms(1) by (simp add: M_def flip: power_Suc)
    then have "bitlen (M + fr) = p"
      using lt(2) assms(1) by (intro bitlen_range) (simp_all add: M_def)
    then have "round_to p w (M + fr) (int ex - 1 + min_exp p w) = (M + fr, int ex - 1 + min_exp p w)"
      using 3 by (simp add: round_to_def Let_def M_def)
    moreover have "nat (int ex - 1) * M + (M + fr) = ex * M + fr"
      using 3 by (cases ex) auto
    moreover have "ex * M + fr \<le> (E - 1) * M"
    proof -
      have "ex * M + fr \<le> (ex + 1) * M" using lt(2) by simp
      also have "\<dots> \<le> (E - 1) * M" using 3 lt(1) by (intro mult_le_mono1) simp
      finally show ?thesis .
    qed
    ultimately show ?thesis using dec 3 v by (simp add: enc)
  qed
qed

section \<open>Rounding is to the nearest, and exact where it can be\<close>

text \<open>
  The encoding depends on the value of a number only, a zero is all zero bits, a number with at most \<open>p\<close> significant bits
  in the range of the format is kept, and the rounding of a longer one is off by at most half a unit in the last place.
\<close>

lemma float_encode_zero: "float_encode p w (Finite s 0 e) = (if s then 2 ^ (w + p - 1) else 0)"
  by (simp add: float_encode_def round_to_def)

lemma bitlen_shift: "0 < m \<Longrightarrow> bitlen (m * 2 ^ k) = bitlen m + k"
proof (induction k)
  case (Suc k)
  then show ?case by (subst bitlen.simps) simp
qed simp

lemma bitlen_bounds: "0 < m \<Longrightarrow> 0 < bitlen m \<and> 2 ^ (bitlen m - 1) \<le> m \<and> m < 2 ^ bitlen m"
proof (induction m rule: bitlen.induct)
  case (1 m)
  show ?case
  proof (cases "m = 1")
    case True
    then show ?thesis by (simp add: bitlen.simps)
  next
    case False
    with 1 have IH: "0 < bitlen (m div 2)" "2 ^ (bitlen (m div 2) - 1) \<le> m div 2" "m div 2 < 2 ^ bitlen (m div 2)"
      by auto
    have b: "bitlen m = Suc (bitlen (m div 2))" using 1(2) by (subst bitlen.simps) simp
    have "(2 :: nat) ^ bitlen (m div 2) = 2 * 2 ^ (bitlen (m div 2) - 1)"
      using IH(1) by (simp flip: power_Suc)
    with IH show ?thesis unfolding b by simp linarith
  qed
qed

lemma round_half_even_scale: "0 < c \<Longrightarrow> round_half_even (m * c) (d * c) = round_half_even m d"
  by (simp add: round_half_even_def Let_def flip: mult.assoc)

lemma round_half_even_exact: "round_half_even (m * 2 ^ k) (2 ^ k) = m"
  by (simp add: round_half_even_def Let_def)

lemma round_half_even_near:
  assumes "0 < d"
  shows "2 * \<bar>int (round_half_even m d) * int d - int m\<bar> \<le> int d"
proof -
  have "int m = int (m div d) * int d + int (m mod d)" by (metis div_mult_mod_eq of_nat_add of_nat_mult)
  moreover have "m mod d < d" using assms by simp
  ultimately show ?thesis by (auto simp: round_half_even_def Let_def algebra_simps)
qed

lemma round_to_near:
  assumes "round_to p w m e = (n, e')"
  shows "e < e' \<Longrightarrow> 2 * \<bar>int n * 2 ^ nat (e' - e) - int m\<bar> \<le> 2 ^ nat (e' - e)"
    and "e' \<le> e \<Longrightarrow> n = m * 2 ^ nat (e - e')"
  using assms round_half_even_near [of "2 ^ nat (e' - e)" m]
  by (auto simp: round_to_def Let_def split: if_splits)

lemma round_to_shift: "round_to p w (m * 2 ^ k) e = round_to p w m (e + int k)"
proof (cases "m = 0")
  case False
  define e' where "e' = max (e + int k + int (bitlen m) - int p) (min_exp p w)"
  have b: "e + int (bitlen (m * 2 ^ k)) - int p = e + int k + int (bitlen m) - int p"
    using False by (simp add: bitlen_shift)
  consider "e' \<le> e" | "e < e'" "e' \<le> e + int k" | "e + int k < e'" by linarith
  then show ?thesis
  proof cases
    case 1
    then have "nat (e + int k - e') = k + nat (e - e')" by simp
    with 1 False show ?thesis unfolding round_to_def Let_def b e'_def [symmetric] by (simp add: power_add)
  next
    case 2
    then have k: "k = nat (e + int k - e') + nat (e' - e)" by simp
    have "m * 2 ^ k = m * 2 ^ nat (e + int k - e') * 2 ^ nat (e' - e)" by (subst k) (simp add: power_add)
    then have "round_half_even (m * 2 ^ k) (2 ^ nat (e' - e)) = m * 2 ^ nat (e + int k - e')"
      by (simp only: round_half_even_exact)
    with 2 False show ?thesis unfolding round_to_def Let_def b e'_def [symmetric] by simp
  next
    case 3
    then have "(2 :: nat) ^ nat (e' - e) = 2 ^ nat (e' - (e + int k)) * 2 ^ k"
      by (simp add: flip: power_add nat_add_distrib)
    with 3 False show ?thesis
      unfolding round_to_def Let_def b e'_def [symmetric] by (simp add: round_half_even_scale)
  qed
qed (simp add: round_to_def)

lemma float_encode_shift: "float_encode p w (Finite s (m * 2 ^ k) e) = float_encode p w (Finite s m (e + int k))"
  by (simp add: float_encode_def round_to_shift)

lemma float_decode_fields:
  assumes "2 \<le> p" "ex < 2 ^ w - 1" "fr < 2 ^ (p - 1)"
  shows "float_decode p w ((if s then 2 ^ (w + p - 1) else 0) + ex * 2 ^ (p - 1) + fr) =
    (if ex = 0 then Finite s fr (min_exp p w) else Finite s (2 ^ (p - 1) + fr) (int ex - 1 + min_exp p w))"
proof -
  define M E where "M = (2 :: nat) ^ (p - 1)" and "E = (2 :: nat) ^ w"
  have ME: "(2 :: nat) ^ (w + p - 1) = E * M" using assms(1) by (simp add: M_def E_def flip: power_add)
  have lt: "fr < M" "ex < E" "ex \<noteq> E - 1" "0 < M" "0 < E" using assms by (auto simp: M_def E_def)
  have low: "ex * M + fr < E * M"
  proof -
    have "ex * M + fr < (ex + 1) * M" using lt(1) by simp
    also have "\<dots> \<le> E * M" using lt(2) by (intro mult_le_mono1) simp
    finally show ?thesis .
  qed
  define v where "v = (if s then E * M else 0) + ex * M + fr"
  have a: "(E * M \<le> v) = s" using low by (auto simp: v_def)
  have v: "v = fr + ((if s then E else 0) + ex) * M" by (auto simp: v_def algebra_simps)
  have b: "v mod M = fr" using lt(1) by (simp add: v)
  have c: "v div M mod E = ex" using lt by (simp add: v)
  show ?thesis
    unfolding float_decode_def Let_def ME M_def [symmetric] E_def [symmetric] v_def [symmetric] a b c
    using lt(3) by simp
qed

lemma float_exact:
  assumes p: "2 \<le> p" and m: "0 < m" "m < 2 ^ p" and lo: "min_exp p w \<le> e"
    and hi: "e + int (bitlen m) - int p - min_exp p w + 1 < 2 ^ w - 1" "1 < w"
  shows "\<exists>j. float_decode p w (float_encode p w (Finite s m e)) = Finite s (m * 2 ^ j) (e - int j)"
proof -
  define e' n where "e' = max (e + int (bitlen m) - int p) (min_exp p w)" and "n = m * 2 ^ nat (e - e')"
  have bl: "bitlen m \<le> p" using m(2) by (rule bitlen_le)
  then have le: "e' \<le> e" "min_exp p w \<le> e'" using lo by (auto simp: e'_def)
  have r: "round_to p w m e = (n, e')"
    using le m(1) by (simp add: round_to_def Let_def e'_def n_def)
  have bn: "bitlen n = bitlen m + nat (e - e')" using m(1) by (simp add: n_def bitlen_shift)
  have n0: "0 < n" using m(1) by (simp add: n_def)
  have np: "n < 2 ^ p"
  proof -
    have "bitlen n \<le> p" using bn bl le by (auto simp: e'_def)
    then have "(2 :: nat) ^ bitlen n \<le> 2 ^ p" by (simp add: power_increasing)
    with bitlen_bounds [OF n0] show ?thesis by linarith
  qed
  have P: "(2 :: nat) ^ p = 2 * 2 ^ (p - 1)" using p by (simp flip: power_Suc)
  define ex fr where "ex = (if n < 2 ^ (p - 1) then 0 else nat (e' - min_exp p w) + 1)"
    and "fr = (if n < 2 ^ (p - 1) then n else n - 2 ^ (p - 1))"
  have small: "e' = min_exp p w" if "n < 2 ^ (p - 1)"
  proof (rule ccontr)
    assume "e' \<noteq> min_exp p w"
    then have "bitlen n = p" using bn le by (auto simp: e'_def max_def split: if_splits)
    with bitlen_bounds [OF n0] that show False by simp
  qed
  have sum: "nat (e' - min_exp p w) * 2 ^ (p - 1) + n = ex * 2 ^ (p - 1) + fr"
    using small by (auto simp: ex_def fr_def)
  have exl: "ex < 2 ^ w - 1"
  proof -
    have "(2 :: nat) ^ 2 \<le> 2 ^ w" using hi(2) by (intro power_increasing) simp_all
    then have w: "int (2 ^ w - 1) = 2 ^ w - 1" "(3 :: int) \<le> 2 ^ w - 1" "(0 :: nat) < 2 ^ w - 1"
      using of_nat_mono [of "2 ^ 2" "2 ^ w", where 'a = int] by (simp_all add: of_nat_diff)
    have "int (nat (e' - min_exp p w) + 1) < 2 ^ w - 1"
      using hi(1) le w(2) by (simp add: e'_def max_def)
    then have "nat (e' - min_exp p w) + 1 < 2 ^ w - 1" unfolding w(1) [symmetric] by (simp only: of_nat_less_iff)
    with w(3) show ?thesis by (simp add: ex_def)
  qed
  have frl: "fr < 2 ^ (p - 1)" using np P by (auto simp: fr_def)
  have cap: "ex * 2 ^ (p - 1) + fr \<le> (2 ^ w - 1) * 2 ^ (p - 1)"
  proof -
    have "ex * 2 ^ (p - 1) + fr \<le> (ex + 1) * 2 ^ (p - 1)" using frl by simp
    also have "\<dots> \<le> (2 ^ w - 1) * 2 ^ (p - 1)" using exl by (intro mult_le_mono1) simp
    finally show ?thesis .
  qed
  have "float_encode p w (Finite s m e) = (if s then 2 ^ (w + p - 1) else 0) + ex * 2 ^ (p - 1) + fr"
    unfolding float_encode_def Let_def number.case r prod.case sum min_absorb2 [OF cap] by simp
  then have "float_decode p w (float_encode p w (Finite s m e)) =
      (if ex = 0 then Finite s fr (min_exp p w) else Finite s (2 ^ (p - 1) + fr) (int ex - 1 + min_exp p w))"
    using float_decode_fields [OF p exl frl] by simp
  also have "\<dots> = Finite s n e'" using small le by (auto simp: ex_def fr_def)
  also have "\<dots> = Finite s (m * 2 ^ nat (e - e')) (e - int (nat (e - e')))" using le by (simp add: n_def)
  finally show ?thesis by blast
qed

lemma round64_shift: "round64 (Finite s (m * 2 ^ k) e) = round64 (Finite s m (e + int k))"
  by (simp add: round64_def float_encode_shift)

lemma round64_exact:
  assumes "m < 2 ^ 53" "- 1074 \<le> e" "e \<le> 900"
  shows "\<exists>j. round64 (Finite s m e) = Finite s (m * 2 ^ j) (e - int j)"
proof (cases "m = 0")
  case True
  have "round64 (Finite s 0 e) = Finite s 0 (- 1074)"
    by (cases s) (simp_all add: round64_def float_encode_zero float_decode_def min_exp_def)
  with True assms(2) show ?thesis by (intro exI [of _ "nat (e + 1074)"]) simp
next
  case False
  have "bitlen m \<le> 53" using assms(1) by (rule bitlen_le)
  then show ?thesis
    unfolding round64_def using False assms by (intro float_exact) (simp_all add: min_exp_def)
qed

lemma writeFloatLE_readFloatLE:
  "length b = 4 \<Longrightarrow> readFloatLE b 0 \<noteq> NaN \<Longrightarrow> writeFloatLE (readFloatLE b 0) = b"
  using float_encode_decode [of 24 8 "le_val b"] le_val_lt [of b] le_bytes_le_val [of b]
  by (simp add: writeFloatLE_def readFloatLE_def readUIntLE_def)

lemma writeDoubleLE_readDoubleLE:
  "length b = 8 \<Longrightarrow> readDoubleLE b 0 \<noteq> NaN \<Longrightarrow> writeDoubleLE (readDoubleLE b 0) = b"
  using float_encode_decode [of 53 11 "le_val b"] le_val_lt [of b] le_bytes_le_val [of b]
  by (simp add: writeDoubleLE_def readDoubleLE_def readUIntLE_def)

lemma signed_val_mod: "0 < bits \<Longrightarrow> v < 2 ^ bits \<Longrightarrow> nat (signed_val bits v mod 2 ^ bits) = v"
  by (simp add: signed_val_def)

lemma signed_val_bounds:
  assumes "0 < bits" "v < 2 ^ bits"
  shows "- (2 ^ (bits - 1)) \<le> signed_val bits v" "signed_val bits v \<le> 2 ^ (bits - 1) - 1"
proof -
  have h: "(2 :: int) ^ bits = 2 * 2 ^ (bits - 1)" using assms(1) by (simp flip: power_Suc)
  have "int v < 2 ^ bits" using assms(2) by (metis of_nat_less_iff of_nat_numeral of_nat_power)
  then show "- (2 ^ (bits - 1)) \<le> signed_val bits v" "signed_val bits v \<le> 2 ^ (bits - 1) - 1"
    using h by (auto simp: signed_val_def not_less less_imp_of_nat_less)
qed

lemma clampInt_of_int: "lo \<le> i \<Longrightarrow> i \<le> hi \<Longrightarrow> clampInt (num_of_int i) lo hi = i"
  by (auto simp: clampInt_def num_of_int_def trunc_finite_def Let_def)

lemma clampInt_bounds: "lo \<le> 0 \<Longrightarrow> 0 \<le> hi \<Longrightarrow> lo \<le> clampInt x lo hi \<and> clampInt x lo hi \<le> hi"
  by (cases x) (auto simp: clampInt_def Let_def)

end
