(* ===== verification/Dnp3_Objects.thy ===== *)
theory Dnp3_Objects
  imports JS_Number
begin

text \<open>
  The leaf encodings of the DNP3 application layer (\<open>dnp3-outstation/app-objects.ts\<close>): the code
  tables of function codes, object groups, variations, flags, internal indications and command
  statuses, the 48-bit DNP3 time, the status-flag octets and the single-point value encoders.

  A constant object of the source (\<open>DNP3_GROUP.CLASS_DATA\<close>) is a datatype of its keys and a
  function from the key to the number (\<open>DNP3_GROUP CLASS_DATA\<close>). Timestamps are integral
  epoch milliseconds.
\<close>

section \<open>Code tables\<close>

datatype function_key = CONFIRM | READ | WRITE | SELECT | OPERATE | DIRECT_OPERATE
  | DIRECT_OPERATE_NR | COLD_RESTART | WARM_RESTART | ENABLE_UNSOLICITED | DISABLE_UNSOLICITED
  | AUTH_REQUEST | AUTH_REQUEST_NO_ACK | RESPONSE | UNSOLICITED_RESPONSE | AUTH_RESPONSE

primrec DNP3_FUNCTION :: "function_key \<Rightarrow> nat" where
  "DNP3_FUNCTION CONFIRM = 0x00"
| "DNP3_FUNCTION READ = 0x01"
| "DNP3_FUNCTION WRITE = 0x02"
| "DNP3_FUNCTION SELECT = 0x03"
| "DNP3_FUNCTION OPERATE = 0x04"
| "DNP3_FUNCTION DIRECT_OPERATE = 0x05"
| "DNP3_FUNCTION DIRECT_OPERATE_NR = 0x06"
| "DNP3_FUNCTION COLD_RESTART = 0x0d"
| "DNP3_FUNCTION WARM_RESTART = 0x0e"
| "DNP3_FUNCTION ENABLE_UNSOLICITED = 0x14"
| "DNP3_FUNCTION DISABLE_UNSOLICITED = 0x15"
| "DNP3_FUNCTION AUTH_REQUEST = 0x20"
| "DNP3_FUNCTION AUTH_REQUEST_NO_ACK = 0x21"
| "DNP3_FUNCTION RESPONSE = 0x81"
| "DNP3_FUNCTION UNSOLICITED_RESPONSE = 0x82"
| "DNP3_FUNCTION AUTH_RESPONSE = 0x83"

datatype group_key = BINARY_INPUT_STATIC | BINARY_INPUT_EVENT | BINARY_OUTPUT_STATIC
  | BINARY_OUTPUT_EVENT | BINARY_OUTPUT_COMMAND | COUNTER_STATIC | COUNTER_EVENT
  | ANALOG_INPUT_STATIC | ANALOG_INPUT_EVENT | ANALOG_OUTPUT_STATUS | ANALOG_OUTPUT_EVENT
  | ANALOG_OUTPUT_COMMAND | TIME_AND_DATE_CTO | CLASS_DATA | INTERNAL_INDICATIONS | SECURE_AUTH

primrec DNP3_GROUP :: "group_key \<Rightarrow> nat" where
  "DNP3_GROUP BINARY_INPUT_STATIC = 1"
| "DNP3_GROUP BINARY_INPUT_EVENT = 2"
| "DNP3_GROUP BINARY_OUTPUT_STATIC = 10"
| "DNP3_GROUP BINARY_OUTPUT_EVENT = 11"
| "DNP3_GROUP BINARY_OUTPUT_COMMAND = 12"
| "DNP3_GROUP COUNTER_STATIC = 20"
| "DNP3_GROUP COUNTER_EVENT = 22"
| "DNP3_GROUP ANALOG_INPUT_STATIC = 30"
| "DNP3_GROUP ANALOG_INPUT_EVENT = 32"
| "DNP3_GROUP ANALOG_OUTPUT_STATUS = 40"
| "DNP3_GROUP ANALOG_OUTPUT_EVENT = 42"
| "DNP3_GROUP ANALOG_OUTPUT_COMMAND = 41"
| "DNP3_GROUP TIME_AND_DATE_CTO = 51"
| "DNP3_GROUP CLASS_DATA = 60"
| "DNP3_GROUP INTERNAL_INDICATIONS = 80"
| "DNP3_GROUP SECURE_AUTH = 120"

datatype variation_key = BI_PACKED | BI_WITH_FLAGS | BI_EVENT_NO_TIME | BI_EVENT_ABS_TIME
  | BI_EVENT_REL_TIME | BO_STATUS_WITH_FLAGS | BO_EVENT_NO_TIME | BO_EVENT_ABS_TIME | CROB
  | CNT_32_WITH_FLAG | CNT_16_WITH_FLAG | CNT_EVENT_32_WITH_FLAG | CNT_EVENT_32_ABS_TIME
  | AI_32_WITH_FLAG | AI_16_WITH_FLAG | AI_FLOAT_WITH_FLAG | AI_EVENT_32_WITH_FLAG
  | AI_EVENT_32_ABS_TIME | AI_EVENT_FLOAT_WITH_FLAG | AI_EVENT_FLOAT_ABS_TIME
  | AO_STATUS_32_WITH_FLAG | AO_STATUS_FLOAT_WITH_FLAG | AO_CMD_INT32 | AO_CMD_INT16
  | AO_CMD_FLOAT32 | AO_CMD_DOUBLE64 | AO_EVENT_32_WITH_FLAG | AO_EVENT_32_ABS_TIME
  | AO_EVENT_FLOAT_WITH_FLAG | AO_EVENT_FLOAT_ABS_TIME | CTO_SYNC | CTO_UNSYNC
  | CLASS0 | CLASS1 | CLASS2 | CLASS3

primrec DNP3_VARIATION :: "variation_key \<Rightarrow> nat" where
  "DNP3_VARIATION BI_PACKED = 1"
| "DNP3_VARIATION BI_WITH_FLAGS = 2"
| "DNP3_VARIATION BI_EVENT_NO_TIME = 1"
| "DNP3_VARIATION BI_EVENT_ABS_TIME = 2"
| "DNP3_VARIATION BI_EVENT_REL_TIME = 3"
| "DNP3_VARIATION BO_STATUS_WITH_FLAGS = 2"
| "DNP3_VARIATION BO_EVENT_NO_TIME = 1"
| "DNP3_VARIATION BO_EVENT_ABS_TIME = 2"
| "DNP3_VARIATION CROB = 1"
| "DNP3_VARIATION CNT_32_WITH_FLAG = 1"
| "DNP3_VARIATION CNT_16_WITH_FLAG = 2"
| "DNP3_VARIATION CNT_EVENT_32_WITH_FLAG = 1"
| "DNP3_VARIATION CNT_EVENT_32_ABS_TIME = 5"
| "DNP3_VARIATION AI_32_WITH_FLAG = 1"
| "DNP3_VARIATION AI_16_WITH_FLAG = 2"
| "DNP3_VARIATION AI_FLOAT_WITH_FLAG = 5"
| "DNP3_VARIATION AI_EVENT_32_WITH_FLAG = 1"
| "DNP3_VARIATION AI_EVENT_32_ABS_TIME = 3"
| "DNP3_VARIATION AI_EVENT_FLOAT_WITH_FLAG = 5"
| "DNP3_VARIATION AI_EVENT_FLOAT_ABS_TIME = 7"
| "DNP3_VARIATION AO_STATUS_32_WITH_FLAG = 1"
| "DNP3_VARIATION AO_STATUS_FLOAT_WITH_FLAG = 3"
| "DNP3_VARIATION AO_CMD_INT32 = 1"
| "DNP3_VARIATION AO_CMD_INT16 = 2"
| "DNP3_VARIATION AO_CMD_FLOAT32 = 3"
| "DNP3_VARIATION AO_CMD_DOUBLE64 = 4"
| "DNP3_VARIATION AO_EVENT_32_WITH_FLAG = 1"
| "DNP3_VARIATION AO_EVENT_32_ABS_TIME = 3"
| "DNP3_VARIATION AO_EVENT_FLOAT_WITH_FLAG = 5"
| "DNP3_VARIATION AO_EVENT_FLOAT_ABS_TIME = 7"
| "DNP3_VARIATION CTO_SYNC = 1"
| "DNP3_VARIATION CTO_UNSYNC = 2"
| "DNP3_VARIATION CLASS0 = 1"
| "DNP3_VARIATION CLASS1 = 2"
| "DNP3_VARIATION CLASS2 = 3"
| "DNP3_VARIATION CLASS3 = 4"

datatype flag_key = ONLINE | RESTART | COMM_LOST | REMOTE_FORCED | LOCAL_FORCED | OVER_RANGE
  | REFERENCE_ERR | STATE | ROLLOVER | DISCONTINUITY

primrec DNP3_FLAG :: "flag_key \<Rightarrow> byte" where
  "DNP3_FLAG ONLINE = 0x01"
| "DNP3_FLAG RESTART = 0x02"
| "DNP3_FLAG COMM_LOST = 0x04"
| "DNP3_FLAG REMOTE_FORCED = 0x08"
| "DNP3_FLAG LOCAL_FORCED = 0x10"
| "DNP3_FLAG OVER_RANGE = 0x20"
| "DNP3_FLAG REFERENCE_ERR = 0x40"
| "DNP3_FLAG STATE = 0x80"
| "DNP3_FLAG ROLLOVER = 0x20"
| "DNP3_FLAG DISCONTINUITY = 0x40"

datatype iin_key = ALL_STATIONS | CLASS1_EVENTS | CLASS2_EVENTS | CLASS3_EVENTS | NEED_TIME
  | LOCAL_CONTROL | DEVICE_TROUBLE | DEVICE_RESTART | NO_FUNC_CODE_SUPPORT | OBJECT_UNKNOWN
  | PARAMETER_ERROR | EVENT_BUFFER_OVERFLOW | ALREADY_EXECUTING | CONFIG_CORRUPT

primrec DNP3_IIN :: "iin_key \<Rightarrow> u16" where
  "DNP3_IIN ALL_STATIONS = 0x0001"
| "DNP3_IIN CLASS1_EVENTS = 0x0002"
| "DNP3_IIN CLASS2_EVENTS = 0x0004"
| "DNP3_IIN CLASS3_EVENTS = 0x0008"
| "DNP3_IIN NEED_TIME = 0x0010"
| "DNP3_IIN LOCAL_CONTROL = 0x0020"
| "DNP3_IIN DEVICE_TROUBLE = 0x0040"
| "DNP3_IIN DEVICE_RESTART = 0x0080"
| "DNP3_IIN NO_FUNC_CODE_SUPPORT = 0x0100"
| "DNP3_IIN OBJECT_UNKNOWN = 0x0200"
| "DNP3_IIN PARAMETER_ERROR = 0x0400"
| "DNP3_IIN EVENT_BUFFER_OVERFLOW = 0x0800"
| "DNP3_IIN ALREADY_EXECUTING = 0x1000"
| "DNP3_IIN CONFIG_CORRUPT = 0x2000"

datatype command_status_key = SUCCESS | TIMEOUT | NO_SELECT | FORMAT_ERROR | NOT_SUPPORTED
  | ALREADY_ACTIVE | HARDWARE_ERROR | LOCAL | TOO_MANY_OBJS | NOT_AUTHORIZED
  | AUTOMATION_INHIBIT | PROCESSING_LIMITED | OUT_OF_RANGE | UNDEFINED

primrec DNP3_COMMAND_STATUS :: "command_status_key \<Rightarrow> nat" where
  "DNP3_COMMAND_STATUS SUCCESS = 0"
| "DNP3_COMMAND_STATUS TIMEOUT = 1"
| "DNP3_COMMAND_STATUS NO_SELECT = 2"
| "DNP3_COMMAND_STATUS FORMAT_ERROR = 3"
| "DNP3_COMMAND_STATUS NOT_SUPPORTED = 4"
| "DNP3_COMMAND_STATUS ALREADY_ACTIVE = 5"
| "DNP3_COMMAND_STATUS HARDWARE_ERROR = 6"
| "DNP3_COMMAND_STATUS LOCAL = 7"
| "DNP3_COMMAND_STATUS TOO_MANY_OBJS = 8"
| "DNP3_COMMAND_STATUS NOT_AUTHORIZED = 9"
| "DNP3_COMMAND_STATUS AUTOMATION_INHIBIT = 10"
| "DNP3_COMMAND_STATUS PROCESSING_LIMITED = 11"
| "DNP3_COMMAND_STATUS OUT_OF_RANGE = 12"
| "DNP3_COMMAND_STATUS UNDEFINED = 127"

datatype op_type_key = OP_NUL | PULSE_ON | PULSE_OFF | LATCH_ON | LATCH_OFF

primrec DNP3_CONTROL_OP_TYPE :: "op_type_key \<Rightarrow> nat" where
  "DNP3_CONTROL_OP_TYPE OP_NUL = 0"
| "DNP3_CONTROL_OP_TYPE PULSE_ON = 1"
| "DNP3_CONTROL_OP_TYPE PULSE_OFF = 2"
| "DNP3_CONTROL_OP_TYPE LATCH_ON = 3"
| "DNP3_CONTROL_OP_TYPE LATCH_OFF = 4"

datatype tcc_key = TCC_NUL | CLOSE | TRIP

primrec DNP3_CONTROL_TCC :: "tcc_key \<Rightarrow> nat" where
  "DNP3_CONTROL_TCC TCC_NUL = 0"
| "DNP3_CONTROL_TCC CLOSE = 1"
| "DNP3_CONTROL_TCC TRIP = 2"

definition CROB_OP_TYPE_MASK :: byte where "CROB_OP_TYPE_MASK = 0x0f"
definition CROB_QUEUE_MASK :: byte where "CROB_QUEUE_MASK = 0x10"
definition CROB_CLEAR_MASK :: byte where "CROB_CLEAR_MASK = 0x20"
definition CROB_TCC_MASK :: byte where "CROB_TCC_MASK = 0xc0"
definition CROB_TCC_SHIFT :: nat where "CROB_TCC_SHIFT = 6"

section \<open>DNP3 time\<close>

definition DNP3_TIME_MAX :: int where "DNP3_TIME_MAX = 0xffffffffffff"

definition encodeDnp3Time :: "int \<Rightarrow> buffer" where
  "encodeDnp3Time epochMs = le_bytes 6 (nat (if epochMs < 0 then 0 else min epochMs DNP3_TIME_MAX))"

text \<open>\<open>None\<close>: the field is truncated and the function throws.\<close>

definition decodeDnp3Time :: "buffer \<Rightarrow> nat \<Rightarrow> int option" where
  "decodeDnp3Time buf off =
     (if length buf < off + 6 then None else Some (int (readUIntLE buf off 6)))"

section \<open>Flags\<close>

datatype quality = good | bad | uncertain

text \<open>An absent optional field is falsy; only \<open>online\<close> distinguishes absent from \<open>false\<close>.\<close>

record flag_options =
  online :: "bool option"
  restart :: bool
  commLost :: bool
  remoteForced :: bool
  localForced :: bool
  overRange :: bool
  referenceErr :: bool
  state :: bool
  rollover :: bool

definition no_flags :: flag_options where
  "no_flags = \<lparr> online = None, restart = False, commLost = False, remoteForced = False,
     localForced = False, overRange = False, referenceErr = False, state = False, rollover = False \<rparr>"

definition flag_if :: "bool \<Rightarrow> byte \<Rightarrow> byte \<Rightarrow> byte" where
  "flag_if c f flags = (if c then flags OR f else flags)"

definition buildAnalogFlags :: "flag_options \<Rightarrow> byte" where
  "buildAnalogFlags opts =
     (let flags = 0;
          flags = flag_if (case online opts of None \<Rightarrow> True | Some b \<Rightarrow> b) (DNP3_FLAG ONLINE) flags;
          flags = flag_if (restart opts) (DNP3_FLAG RESTART) flags;
          flags = flag_if (commLost opts) (DNP3_FLAG COMM_LOST) flags;
          flags = flag_if (remoteForced opts) (DNP3_FLAG REMOTE_FORCED) flags;
          flags = flag_if (localForced opts) (DNP3_FLAG LOCAL_FORCED) flags;
          flags = flag_if (overRange opts \<or> rollover opts) (DNP3_FLAG OVER_RANGE) flags;
          flags = flag_if (referenceErr opts) (DNP3_FLAG REFERENCE_ERR) flags
      in flags AND 0xff)"

definition buildBinaryFlags :: "flag_options \<Rightarrow> byte" where
  "buildBinaryFlags opts =
     (let flags = buildAnalogFlags opts AND 0x7f;
          flags = flag_if (state opts) (DNP3_FLAG STATE) flags
      in flags AND 0xff)"

definition qualityToFlags :: "quality \<Rightarrow> bool \<Rightarrow> flag_options" where
  "qualityToFlags q st =
     (case q of
        good \<Rightarrow> no_flags \<lparr> online := Some True, state := st \<rparr>
      | uncertain \<Rightarrow> no_flags \<lparr> online := Some True, localForced := True, state := st \<rparr>
      | bad \<Rightarrow> no_flags \<lparr> online := Some False, commLost := True, state := st \<rparr>)"

section \<open>Value encoders\<close>

text \<open>\<open>clampInt\<close> is in \<open>JS_Number\<close>, where \<open>controls.ts\<close> finds it too.\<close>

definition clampUint :: "number \<Rightarrow> int \<Rightarrow> int" where
  "clampUint x hi = clampInt x 0 hi"

definition encodeAnalog16WithFlag :: "number \<Rightarrow> byte \<Rightarrow> buffer" where
  "encodeAnalog16WithFlag v flags = flags # writeInt16LE (clampInt v (-32768) 32767)"

definition encodeAnalog32WithFlag :: "number \<Rightarrow> byte \<Rightarrow> buffer" where
  "encodeAnalog32WithFlag v flags = flags # writeInt32LE (clampInt v (-2147483648) 2147483647)"

definition encodeAnalogFloatWithFlag :: "number \<Rightarrow> byte \<Rightarrow> buffer" where
  "encodeAnalogFloatWithFlag v flags = flags # writeFloatLE v"

definition encodeCounter32WithFlag :: "number \<Rightarrow> byte \<Rightarrow> buffer" where
  "encodeCounter32WithFlag v flags = flags # writeUInt32LE (nat (clampUint v 0xffffffff))"

definition encodeBinaryWithFlag :: "byte \<Rightarrow> buffer" where
  "encodeBinaryWithFlag flags = [flags AND 0xff]"


section \<open>Laws\<close>

lemma length_encodeDnp3Time [simp]: "length (encodeDnp3Time t) = 6"
  by (simp add: encodeDnp3Time_def)

lemma decodeDnp3Time_encode:
  "decodeDnp3Time (pre @ encodeDnp3Time t @ post) (length pre) = Some (max 0 (min t DNP3_TIME_MAX))"
  by (simp add: decodeDnp3Time_def encodeDnp3Time_def readUIntLE_append le_val_le_bytes
      DNP3_TIME_MAX_def min_def max_def)

lemma length_encoders [simp]:
  "length (encodeAnalog16WithFlag v f) = 3" "length (encodeAnalog32WithFlag v f) = 5"
  "length (encodeAnalogFloatWithFlag v f) = 5" "length (encodeCounter32WithFlag v f) = 5"
  "length (encodeBinaryWithFlag f) = 1"
  by (simp_all add: encodeAnalog16WithFlag_def encodeAnalog32WithFlag_def
      encodeAnalogFloatWithFlag_def encodeCounter32WithFlag_def encodeBinaryWithFlag_def)

text \<open>
  The flag octet decodes: bit 7 is the state of a binary point, bit 0 is set exactly for data that
  is not bad, bit 2 exactly for bad data and bit 4 exactly for uncertain data.
\<close>

lemma binary_flags_bits:
  "bit (buildBinaryFlags (qualityToFlags q st)) 7 = st"
  "bit (buildBinaryFlags (qualityToFlags q st)) 0 = (q \<noteq> bad)"
  "bit (buildBinaryFlags (qualityToFlags q st)) 2 = (q = bad)"
  "bit (buildBinaryFlags (qualityToFlags q st)) 4 = (q = uncertain)"
  by (cases q; cases st; simp add: buildBinaryFlags_def buildAnalogFlags_def qualityToFlags_def
      no_flags_def flag_if_def; code_simp)+

lemma analog_flags_bits:
  "bit (buildAnalogFlags (qualityToFlags q st)) 7 = False"
  "bit (buildAnalogFlags (qualityToFlags q st)) 0 = (q \<noteq> bad)"
  "bit (buildAnalogFlags (qualityToFlags q st)) 2 = (q = bad)"
  "bit (buildAnalogFlags (qualityToFlags q st)) 4 = (q = uncertain)"
  by (cases q; simp add: buildAnalogFlags_def qualityToFlags_def no_flags_def flag_if_def; code_simp)+

end
