(* ===== verification/Dnp3_Commands.thy ===== *)
theory Dnp3_Commands
  imports Dnp3_Objects
begin

text \<open>
  The command object codecs of \<open>dnp3-outstation/controls.ts\<close>: the Control Relay Output Block
  (g12v1) and the Analog Output Blocks (g41v1 to v4), with the size table the request parser uses.
\<close>

section \<open>Definitions\<close>

record crob_fields =
  opType :: nat
  tcc :: nat
  clear :: bool
  queue :: bool
  crob_count :: nat
  onTimeMs :: nat
  offTimeMs :: nat

definition CROB_OBJECT_SIZE :: nat where "CROB_OBJECT_SIZE = 11"

definition analogOutputObjectSize :: "nat \<Rightarrow> nat option" where
  "analogOutputObjectSize variation =
     (if variation = DNP3_VARIATION AO_CMD_INT32 then Some 5
      else if variation = DNP3_VARIATION AO_CMD_INT16 then Some 3
      else if variation = DNP3_VARIATION AO_CMD_FLOAT32 then Some 5
      else if variation = DNP3_VARIATION AO_CMD_DOUBLE64 then Some 9
      else None)"

definition commandObjectSize :: "nat \<Rightarrow> nat \<Rightarrow> nat option" where
  "commandObjectSize g variation =
     (if g = DNP3_GROUP BINARY_OUTPUT_COMMAND \<and> variation = DNP3_VARIATION CROB
      then Some CROB_OBJECT_SIZE
      else if g = DNP3_GROUP ANALOG_OUTPUT_COMMAND then analogOutputObjectSize variation
      else None)"

definition isControlGroup :: "nat \<Rightarrow> bool" where
  "isControlGroup g =
     (g = DNP3_GROUP BINARY_OUTPUT_COMMAND \<or> g = DNP3_GROUP ANALOG_OUTPUT_COMMAND)"

definition decodeCrob :: "buffer \<Rightarrow> crob_fields option" where
  "decodeCrob data =
     (if length data \<noteq> CROB_OBJECT_SIZE then None
      else (let controlCode = data ! 0
            in Some \<lparr> opType = unat (controlCode AND CROB_OP_TYPE_MASK),
                      tcc = unat (drop_bit CROB_TCC_SHIFT (controlCode AND CROB_TCC_MASK)),
                      clear = (controlCode AND CROB_CLEAR_MASK \<noteq> 0),
                      queue = (controlCode AND CROB_QUEUE_MASK \<noteq> 0),
                      crob_count = unat (data ! 1),
                      onTimeMs = readUInt32LE data 2,
                      offTimeMs = readUInt32LE data 6 \<rparr>))"

definition encodeCrob :: "crob_fields \<Rightarrow> nat \<Rightarrow> buffer" where
  "encodeCrob f status =
     (let controlCode = of_nat (opType f) AND CROB_OP_TYPE_MASK;
          controlCode = controlCode OR (push_bit CROB_TCC_SHIFT (of_nat (tcc f)) AND CROB_TCC_MASK);
          controlCode = (if clear f then controlCode OR CROB_CLEAR_MASK else controlCode);
          controlCode = (if queue f then controlCode OR CROB_QUEUE_MASK else controlCode)
      in [controlCode, of_nat (crob_count f)] @ writeUInt32LE (onTimeMs f)
           @ writeUInt32LE (offTimeMs f) @ [of_nat status])"

definition decodeAnalogOutput :: "nat \<Rightarrow> buffer \<Rightarrow> number option" where
  "decodeAnalogOutput variation data =
     (case analogOutputObjectSize variation of
        None \<Rightarrow> None
      | Some sz \<Rightarrow>
          if length data \<noteq> sz then None
          else if variation = DNP3_VARIATION AO_CMD_INT32 then Some (num_of_int (readInt32LE data 0))
          else if variation = DNP3_VARIATION AO_CMD_INT16 then Some (num_of_int (readInt16LE data 0))
          else if variation = DNP3_VARIATION AO_CMD_FLOAT32 then Some (readFloatLE data 0)
          else if variation = DNP3_VARIATION AO_CMD_DOUBLE64 then Some (readDoubleLE data 0)
          else None)"

text \<open>\<open>None\<close>: the variation has no size and the function throws.\<close>

definition encodeAnalogOutput :: "nat \<Rightarrow> number \<Rightarrow> nat \<Rightarrow> buffer option" where
  "encodeAnalogOutput variation v status =
     (case analogOutputObjectSize variation of
        None \<Rightarrow> None
      | Some sz \<Rightarrow> Some
          ((if variation = DNP3_VARIATION AO_CMD_INT32
            then writeInt32LE (clampInt v (-2147483648) 2147483647)
            else if variation = DNP3_VARIATION AO_CMD_INT16
            then writeInt16LE (clampInt v (-32768) 32767)
            else if variation = DNP3_VARIATION AO_CMD_FLOAT32 then writeFloatLE v
            else writeDoubleLE v) @ [of_nat status]))"

definition crobValue :: "crob_fields \<Rightarrow> bool option" where
  "crobValue crob =
     (if opType crob = DNP3_CONTROL_OP_TYPE LATCH_ON \<or> opType crob = DNP3_CONTROL_OP_TYPE PULSE_ON
      then Some (if tcc crob = DNP3_CONTROL_TCC TRIP then False
                 else if tcc crob = DNP3_CONTROL_TCC CLOSE then True else True)
      else if opType crob = DNP3_CONTROL_OP_TYPE LATCH_OFF \<or> opType crob = DNP3_CONTROL_OP_TYPE PULSE_OFF
      then Some (if tcc crob = DNP3_CONTROL_TCC TRIP then False
                 else if tcc crob = DNP3_CONTROL_TCC CLOSE then True else False)
      else None)"

definition pulseDurationMs :: "crob_fields \<Rightarrow> nat" where
  "pulseDurationMs crob =
     (if opType crob \<noteq> DNP3_CONTROL_OP_TYPE PULSE_ON \<and> opType crob \<noteq> DNP3_CONTROL_OP_TYPE PULSE_OFF
      then 0
      else if crob_count crob = 0 then 0
      else crob_count crob * onTimeMs crob + (crob_count crob - 1) * offTimeMs crob)"

lemmas crob_masks = CROB_OP_TYPE_MASK_def CROB_QUEUE_MASK_def CROB_CLEAR_MASK_def CROB_TCC_MASK_def
  CROB_TCC_SHIFT_def


section \<open>Round trips\<close>

lemma control_code_bits:
  fixes b :: byte
  shows "(((b AND 0x0f) OR (b AND 0xc0)) OR (b AND 0x20)) OR (b AND 0x10) = b"
proof -
  have "(((b AND 0x0f) OR (b AND 0xc0)) OR (b AND 0x20)) OR (b AND 0x10)
      = b AND (((0x0f OR 0xc0) OR 0x20) OR 0x10)"
    by (simp only: bit.conj_disj_distrib)
  also have "(((0x0f OR 0xc0) OR 0x20) OR 0x10 :: byte) = 0xFF" by simp
  finally show ?thesis by simp
qed

lemma tcc_reencode: "push_bit 6 (drop_bit 6 (b AND 0xc0)) AND 0xc0 = (b :: byte) AND 0xc0"
proof (rule bit_word_eqI)
  fix n
  assume n: "n < LENGTH(8)"
  have c0: "bit (0xc0 :: byte) n \<longleftrightarrow> n = 6 \<or> n = 7"
  proof -
    have "n \<in> {0, 1, 2, 3, 4, 5, 6, 7}" using n by auto
    then show ?thesis by (elim insertE emptyE; hypsubst; code_simp)
  qed
  show "bit (push_bit 6 (drop_bit 6 (b AND 0xc0)) AND 0xc0) n = bit (b AND 0xc0) n"
    using n c0 by (auto simp: bit_simps)
qed

lemma single_bit_and:
  "(if b AND 0x20 \<noteq> 0 then (x :: byte) OR 0x20 else x) = x OR (b AND 0x20)"
  "(if b AND 0x10 \<noteq> 0 then (x :: byte) OR 0x10 else x) = x OR (b AND 0x10)"
  using and_exp_byte [of b 5] and_exp_byte [of b 4] by auto

lemma word_of_nat_unat: "of_nat (unat x) = x"
  by simp

lemma and_15_idem: "((b :: byte) AND 0x0f) AND 0x0f = b AND 0x0f"
  by (simp only: and.assoc and.idem)

lemma list_11:
  "length d = 11 \<Longrightarrow> d = [d ! 0, d ! 1] @ take 4 (drop 2 d) @ take 4 (drop 6 d) @ [d ! 10]"
  by (simp add: numeral_eq_Suc length_Suc_conv) auto

lemma encodeCrob_decode:
  assumes "decodeCrob d = Some f"
  shows "encodeCrob f status = butlast d @ [of_nat status]"
proof -
  have len: "length d = 11" using assms by (auto simp: decodeCrob_def CROB_OBJECT_SIZE_def split: if_splits)
  have f: "f = \<lparr> opType = unat (d ! 0 AND 0x0f), tcc = unat (drop_bit 6 (d ! 0 AND 0xc0)),
      clear = (d ! 0 AND 0x20 \<noteq> 0), queue = (d ! 0 AND 0x10 \<noteq> 0), crob_count = unat (d ! 1),
      onTimeMs = readUInt32LE d 2, offTimeMs = readUInt32LE d 6 \<rparr>"
    using assms len by (simp add: decodeCrob_def CROB_OBJECT_SIZE_def Let_def crob_masks)
  have enc: "encodeCrob f status = [d ! 0, d ! 1] @ le_bytes 4 (readUIntLE d 2 4)
      @ le_bytes 4 (readUIntLE d 6 4) @ [of_nat status]"
    unfolding encodeCrob_def f crob_masks Let_def
    by (simp only: crob_fields.simps word_of_nat_unat tcc_reencode single_bit_and and_15_idem
        control_code_bits)
  have "le_bytes 4 (readUIntLE d i 4) = take 4 (drop i d)" if "i + 4 \<le> 11" for i
  proof -
    have "length (take 4 (drop i d)) = 4" using that len by simp
    then show ?thesis unfolding readUIntLE_def by (metis le_bytes_le_val)
  qed
  with enc have "encodeCrob f status = ([d ! 0, d ! 1] @ take 4 (drop 2 d) @ take 4 (drop 6 d)) @ [of_nat status]"
    by simp
  also have "[d ! 0, d ! 1] @ take 4 (drop 2 d) @ take 4 (drop 6 d) = butlast d"
    using list_11 [OF len] by (metis append.assoc butlast_snoc)
  finally show ?thesis .
qed

lemma encodeAnalogOutput_decode:
  assumes "decodeAnalogOutput variation d = Some v" "v \<noteq> NaN"
  shows "encodeAnalogOutput variation v status = Some (butlast d @ [of_nat status])"
proof -
  obtain sz where sz: "analogOutputObjectSize variation = Some sz" "length d = sz"
    using assms(1) by (auto simp: decodeAnalogOutput_def split: option.splits if_splits)
  then have bl: "butlast d = take (sz - 1) d" by (simp add: butlast_conv_take)
  consider "variation = 1" "sz = 5" | "variation = 2" "sz = 3" | "variation = 3" "sz = 5"
    | "variation = 4" "sz = 9"
    using sz(1) by (auto simp: analogOutputObjectSize_def split: if_splits)
  then show ?thesis
  proof cases
    case 1
    then have v: "v = num_of_int (readInt32LE d 0)" using assms(1) sz by (simp add: decodeAnalogOutput_def)
    have "le_val (take 4 d) < 2 ^ 32" using le_val_lt [of "take 4 d"] 1 sz by simp
    then show ?thesis
      using signed_val_bounds [of 32 "le_val (take 4 d)"] signed_val_mod [of 32 "le_val (take 4 d)"]
        le_bytes_le_val [of "take 4 d"] 1 sz bl
      by (simp add: encodeAnalogOutput_def v readInt32LE_def readUIntLE_def clampInt_of_int signed_bytes_def)
  next
    case 2
    then have v: "v = num_of_int (readInt16LE d 0)" using assms(1) sz by (simp add: decodeAnalogOutput_def)
    have "le_val (take 2 d) < 2 ^ 16" using le_val_lt [of "take 2 d"] 2 sz by simp
    then show ?thesis
      using signed_val_bounds [of 16 "le_val (take 2 d)"] signed_val_mod [of 16 "le_val (take 2 d)"]
        le_bytes_le_val [of "take 2 d"] 2 sz bl
      by (simp add: encodeAnalogOutput_def v readInt16LE_def readUIntLE_def clampInt_of_int signed_bytes_def)
  next
    case 3
    then have v: "v = readFloatLE d 0" using assms(1) sz by (simp add: decodeAnalogOutput_def)
    moreover have "readFloatLE d 0 = readFloatLE (take 4 d) 0" by (simp add: readFloatLE_def readUIntLE_def)
    ultimately show ?thesis
      using writeFloatLE_readFloatLE [of "take 4 d"] assms(2) 3 sz bl by (simp add: encodeAnalogOutput_def)
  next
    case 4
    then have v: "v = readDoubleLE d 0" using assms(1) sz by (simp add: decodeAnalogOutput_def)
    moreover have "readDoubleLE d 0 = readDoubleLE (take 8 d) 0" by (simp add: readDoubleLE_def readUIntLE_def)
    ultimately show ?thesis
      using writeDoubleLE_readDoubleLE [of "take 8 d"] assms(2) 4 sz bl by (simp add: encodeAnalogOutput_def)
  qed
qed

lemma length_encodeCrob [simp]: "length (encodeCrob f s) = 11"
  by (simp add: encodeCrob_def Let_def)

lemma length_encodeAnalogOutput:
  "encodeAnalogOutput variation v s = Some b \<Longrightarrow> analogOutputObjectSize variation = Some (length b)"
  by (auto simp: encodeAnalogOutput_def analogOutputObjectSize_def split: if_splits)

end
