(* ===== verification/Dnp3_PointMap.thy ===== *)
theory Dnp3_PointMap
  imports Dnp3_Objects
begin

text \<open>
  The tag to DNP3 point map (\<open>dnp3-outstation/point-map.ts\<close>): point definitions, the registry
  with its reverse index from tags and its current samples, value normalisation, and the
  serialisation of a static point. The key string of a point, its type and its index joined by a
  colon, is the pair of its type and its index. An exception of \<open>addPoint\<close> is a left value, raised before anything changes.
\<close>

section \<open>Points\<close>

datatype point_type = binaryInput | analogInput | counter | binaryOutput | analogOutput

datatype analog_encoding = int32 | float32

type_synonym tag_id = string

record point_def =
  tagId :: tag_id
  ptype :: point_type
  index :: nat
  description :: "string option"
  eventClass :: "nat option"
  encoding :: "analog_encoding option"
  deadband :: "number option"
  scale :: "number option"
  writable :: bool

datatype point_value = Num number | Bool bool

record point_sample =
  sample_value :: point_value
  sample_quality :: quality
  sample_timestamp :: int

record resolved_point =
  def :: point_def
  sample :: point_sample

type_synonym point_key = "point_type \<times> nat"

text \<open>JavaScript's \<open>Number(value)\<close> and \<open>Boolean(value)\<close>.\<close>

fun js_Number :: "point_value \<Rightarrow> number" where
  "js_Number (Num x) = x"
| "js_Number (Bool b) = num_of_int (if b then 1 else 0)"

fun js_Boolean :: "point_value \<Rightarrow> bool" where
  "js_Boolean (Num x) = (x \<noteq> NaN \<and> num_nonzero x)"
| "js_Boolean (Bool b) = b"

text \<open>
  The checks of the schema that the types do not make: a non-empty tag, an event class between 0
  and 3, a deadband that is a number and not negative, a scale that is a number.
\<close>

fun num_negative :: "number \<Rightarrow> bool" where
  "num_negative NaN = False"
| "num_negative (Infinity s) = s"
| "num_negative (Finite s m e) = (s \<and> m \<noteq> 0)"

definition Dnp3PointDefSchema :: "point_def \<Rightarrow> bool" where
  "Dnp3PointDefSchema d =
     (tagId d \<noteq> []
      \<and> (case eventClass d of None \<Rightarrow> True | Some c \<Rightarrow> c \<in> {0, 1, 2, 3})
      \<and> (case deadband d of None \<Rightarrow> True | Some x \<Rightarrow> x \<noteq> NaN \<and> \<not> num_negative x)
      \<and> (case scale d of None \<Rightarrow> True | Some x \<Rightarrow> x \<noteq> NaN))"

section \<open>The registry\<close>

record point_map =
  points :: "(point_key \<times> point_def) list"
  byTag :: "tag_id \<rightharpoonup> point_key list"
  point_values :: "point_key \<rightharpoonup> point_sample"

definition empty_point_map :: point_map where
  "empty_point_map = \<lparr> points = [], byTag = Map.empty, point_values = Map.empty \<rparr>"

datatype point_map_error = SchemaError | AlreadyMapped point_key

definition is_binary :: "point_type \<Rightarrow> bool" where
  "is_binary t = (t = binaryInput \<or> t = binaryOutput)"

definition point_key :: "point_def \<Rightarrow> point_key" where
  "point_key d = (ptype d, index d)"

definition seed_sample :: "point_def \<Rightarrow> point_sample" where
  "seed_sample d = \<lparr> sample_value = (if is_binary (ptype d) then Bool False else Num (num_of_int 0)),
     sample_quality = bad, sample_timestamp = 0 \<rparr>"

definition addPoint :: "point_def \<Rightarrow> point_map \<Rightarrow> point_map_error + point_map" where
  "addPoint d m =
     (if \<not> Dnp3PointDefSchema d then Inl SchemaError
      else (let key = point_key d
            in if map_of (points m) key \<noteq> None then Inl (AlreadyMapped key)
               else (let list = (case byTag m (tagId d) of None \<Rightarrow> [] | Some l \<Rightarrow> l)
                     in Inr (m \<lparr> points := points m @ [(key, d)],
                                 byTag := (byTag m)(tagId d \<mapsto> list @ [key]),
                                 point_values := (point_values m)(key \<mapsto> seed_sample d) \<rparr>))))"

text \<open>The constructor adds the configured points in order; the first error is the constructor's.\<close>

primrec new_point_map :: "point_def list \<Rightarrow> point_map \<Rightarrow> point_map_error + point_map" where
  "new_point_map [] m = Inr m"
| "new_point_map (d # ds) m =
     (case addPoint d m of Inl e \<Rightarrow> Inl e | Inr m' \<Rightarrow> new_point_map ds m')"

definition pointsOfType :: "point_type \<Rightarrow> point_map \<Rightarrow> point_def list" where
  "pointsOfType t m = sort_key index (filter (\<lambda>p. ptype p = t) (map snd (points m)))"

definition count_points :: "point_type \<Rightarrow> point_map \<Rightarrow> nat" where
  "count_points t m = length (pointsOfType t m)"

definition getPoint :: "point_type \<Rightarrow> nat \<Rightarrow> point_map \<Rightarrow> point_def option" where
  "getPoint t i m = map_of (points m) (t, i)"

definition normalise :: "point_def \<Rightarrow> point_sample \<Rightarrow> point_sample" where
  "normalise d s =
     (let sc = (case scale d of None \<Rightarrow> num_of_int 1 | Some x \<Rightarrow> x);
          v = (if is_binary (ptype d)
               then Bool (case sample_value s of Bool b \<Rightarrow> b | Num x \<Rightarrow> num_nonzero x)
               else (let num = js_Number (sample_value s)
                     in Num (num_mul (if isFinite num then num else num_of_int 0) sc)))
      in \<lparr> sample_value = v, sample_quality = sample_quality s,
           sample_timestamp = sample_timestamp s \<rparr>)"

text \<open>One turn of the loop of \<open>applyTagUpdate\<close>: \<open>this.points.get(key)!\<close> is present for every
  registered key; an absent one would throw in \<open>normalise\<close>.\<close>

definition update_key :: "point_sample \<Rightarrow> point_map \<Rightarrow> point_key \<Rightarrow> (point_key \<rightharpoonup> point_sample)
    \<Rightarrow> (point_key \<rightharpoonup> point_sample)" where
  "update_key s m key vals =
     (case map_of (points m) key of None \<Rightarrow> vals | Some d \<Rightarrow> vals(key \<mapsto> normalise d s))"

definition applyTagUpdate :: "tag_id \<Rightarrow> point_sample \<Rightarrow> point_map \<Rightarrow> point_key list \<times> point_map" where
  "applyTagUpdate tag s m =
     (case byTag m tag of
        None \<Rightarrow> ([], m)
      | Some keys \<Rightarrow> (keys, m \<lparr> point_values := fold (update_key s m) keys (point_values m) \<rparr>))"

definition getSample :: "point_key \<Rightarrow> point_map \<Rightarrow> point_sample option" where
  "getSample key m = point_values m key"

definition resolve :: "point_type \<Rightarrow> nat \<Rightarrow> point_map \<Rightarrow> resolved_point option" where
  "resolve t i m =
     (case (map_of (points m) (t, i), point_values m (t, i)) of
        (Some d, Some s) \<Rightarrow> Some \<lparr> def = d, sample = s \<rparr>
      | _ \<Rightarrow> None)"

section \<open>Serialisation\<close>

definition defaultGroupVariation :: "point_def \<Rightarrow> nat \<times> nat" where
  "defaultGroupVariation d =
     (case ptype d of
        binaryInput \<Rightarrow> (DNP3_GROUP BINARY_INPUT_STATIC, DNP3_VARIATION BI_WITH_FLAGS)
      | binaryOutput \<Rightarrow> (DNP3_GROUP BINARY_OUTPUT_STATIC, DNP3_VARIATION BO_STATUS_WITH_FLAGS)
      | counter \<Rightarrow> (DNP3_GROUP COUNTER_STATIC, DNP3_VARIATION CNT_32_WITH_FLAG)
      | analogInput \<Rightarrow>
          if encoding d = Some int32 then (DNP3_GROUP ANALOG_INPUT_STATIC, DNP3_VARIATION AI_32_WITH_FLAG)
          else (DNP3_GROUP ANALOG_INPUT_STATIC, DNP3_VARIATION AI_FLOAT_WITH_FLAG)
      | analogOutput \<Rightarrow>
          if encoding d = Some int32
          then (DNP3_GROUP ANALOG_OUTPUT_STATUS, DNP3_VARIATION AO_STATUS_32_WITH_FLAG)
          else (DNP3_GROUP ANALOG_OUTPUT_STATUS, DNP3_VARIATION AO_STATUS_FLOAT_WITH_FLAG))"

definition deriveFlags :: "resolved_point \<Rightarrow> byte" where
  "deriveFlags p =
     (let isBinary = is_binary (ptype (def p));
          st = (if isBinary then js_Boolean (sample_value (sample p)) else False);
          opts = qualityToFlags (sample_quality (sample p)) st
      in if isBinary then buildBinaryFlags opts else buildAnalogFlags opts)"

definition serializeStaticPoint :: "resolved_point \<Rightarrow> (nat \<times> nat) \<times> buffer" where
  "serializeStaticPoint p =
     (let gv = defaultGroupVariation (def p);
          flags = deriveFlags p;
          v = js_Number (sample_value (sample p));
          data = (case ptype (def p) of
                    binaryInput \<Rightarrow> encodeBinaryWithFlag flags
                  | binaryOutput \<Rightarrow> encodeBinaryWithFlag flags
                  | counter \<Rightarrow> encodeCounter32WithFlag v flags
                  | _ \<Rightarrow> if encoding (def p) = Some int32 then encodeAnalog32WithFlag v flags
                        else encodeAnalogFloatWithFlag v flags)
      in (gv, data))"


section \<open>Invariant\<close>

text \<open>
  Keys are distinct and agree with the definitions they carry, every definition passed the
  schema, the reverse index holds exactly the registered keys under their own tag, and every
  registered point, and nothing else, has a sample of its kind.
\<close>

definition value_ok :: "point_def \<Rightarrow> point_sample \<Rightarrow> bool" where
  "value_ok d s = (case sample_value s of Bool _ \<Rightarrow> is_binary (ptype d) | Num _ \<Rightarrow> \<not> is_binary (ptype d))"

definition point_map_inv :: "point_map \<Rightarrow> bool" where
  "point_map_inv m \<longleftrightarrow>
     distinct (map fst (points m))
     \<and> (\<forall>(k, d) \<in> set (points m). k = point_key d \<and> Dnp3PointDefSchema d)
     \<and> (\<forall>tag keys k. byTag m tag = Some keys \<longrightarrow> k \<in> set keys \<longrightarrow>
          (\<exists>d. map_of (points m) k = Some d \<and> tagId d = tag))
     \<and> (\<forall>k d. map_of (points m) k = Some d \<longrightarrow>
          (\<exists>keys s. byTag m (tagId d) = Some keys \<and> k \<in> set keys
             \<and> point_values m k = Some s \<and> value_ok d s))
     \<and> (\<forall>k. map_of (points m) k = None \<longrightarrow> point_values m k = None)"

lemma point_map_invD:
  assumes "point_map_inv m"
  shows "distinct (map fst (points m))"
    and "\<And>k d. map_of (points m) k = Some d \<Longrightarrow> k = point_key d \<and> Dnp3PointDefSchema d"
    and "\<And>tag keys k. byTag m tag = Some keys \<Longrightarrow> k \<in> set keys \<Longrightarrow>
           \<exists>d. map_of (points m) k = Some d \<and> tagId d = tag"
    and "\<And>k d. map_of (points m) k = Some d \<Longrightarrow>
           \<exists>keys s. byTag m (tagId d) = Some keys \<and> k \<in> set keys \<and> point_values m k = Some s \<and> value_ok d s"
    and "\<And>k. map_of (points m) k = None \<Longrightarrow> point_values m k = None"
  using assms unfolding point_map_inv_def by (blast dest: map_of_SomeD)+

lemma empty_point_map_inv [simp]: "point_map_inv empty_point_map"
  by (simp add: point_map_inv_def empty_point_map_def)

lemma map_of_snoc: "k \<notin> fst ` set xs \<Longrightarrow> map_of (xs @ [(k, v)]) = (map_of xs)(k \<mapsto> v)"
  by (auto simp: map_add_def fun_eq_iff map_of_eq_None_iff [symmetric] split: option.splits)

lemma addPoint_inv:
  assumes "point_map_inv m" "addPoint d m = Inr m'"
  shows "point_map_inv m'"
proof -
  note I = point_map_invD [OF assms(1)]
  from assms(2) have new: "map_of (points m) (point_key d) = None" and ok: "Dnp3PointDefSchema d"
    by (auto simp: addPoint_def Let_def split: if_splits)
  then have fresh: "point_key d \<notin> fst ` set (points m)" by (simp add: map_of_eq_None_iff)
  define l where "l = (case byTag m (tagId d) of None \<Rightarrow> [] | Some l \<Rightarrow> l)"
  from assms(2) new ok have m': "m' = m \<lparr> points := points m @ [(point_key d, d)],
      byTag := (byTag m)(tagId d \<mapsto> l @ [point_key d]),
      point_values := (point_values m)(point_key d \<mapsto> seed_sample d) \<rparr>"
    by (simp add: addPoint_def Let_def l_def)
  have mo: "map_of (points m') = (map_of (points m))(point_key d \<mapsto> d)"
    using fresh by (simp add: m' map_of_snoc del: map_of_append)
  have bt: "byTag m' = (byTag m)(tagId d \<mapsto> l @ [point_key d])"
    and pv: "point_values m' = (point_values m)(point_key d \<mapsto> seed_sample d)" by (simp_all add: m')
  have A: "distinct (map fst (points m'))" using I(1) fresh by (simp add: m')
  have B: "\<forall>(k, e) \<in> set (points m'). k = point_key e \<and> Dnp3PointDefSchema e"
    using assms(1) ok by (auto simp: m' point_map_inv_def)
  have L: "\<exists>e. map_of (points m) k = Some e \<and> tagId e = tagId d" if "k \<in> set l" for k
    using that I(3) [of "tagId d"] unfolding l_def by (cases "byTag m (tagId d)") auto
  have C: "\<exists>e. map_of (points m') k = Some e \<and> tagId e = tag"
    if "byTag m' tag = Some keys" "k \<in> set keys" for tag keys k
  proof (cases "k = point_key d")
    case True
    with that I(3) [of tag keys k] new show ?thesis by (auto simp: mo bt split: if_splits)
  next
    case False
    with that I(3) [of tag keys k] L [of k] show ?thesis by (auto simp: mo bt split: if_splits)
  qed
  have D: "\<exists>keys s. byTag m' (tagId e) = Some keys \<and> k \<in> set keys \<and> point_values m' k = Some s \<and> value_ok e s"
    if "map_of (points m') k = Some e" for k e
  proof (cases "k = point_key d")
    case True
    with that show ?thesis by (simp add: mo bt pv value_ok_def seed_sample_def)
  next
    case False
    with that have "map_of (points m) k = Some e" by (simp add: mo)
    with I(4) [OF this] False show ?thesis by (auto simp: bt pv l_def)
  qed
  have E: "\<forall>k. map_of (points m') k = None \<longrightarrow> point_values m' k = None"
    unfolding mo pv using I(5) by simp
  show ?thesis unfolding point_map_inv_def using A B C D E by blast
qed

lemma normalise_ok: "value_ok d (normalise d s)"
  by (simp add: value_ok_def normalise_def Let_def)

lemma fold_update_key:
  "fold (update_key s m) keys vals k =
     (case map_of (points m) k of
        Some d \<Rightarrow> if k \<in> set keys then Some (normalise d s) else vals k
      | None \<Rightarrow> vals k)"
  by (induction keys arbitrary: vals) (auto simp: update_key_def split: option.splits)

lemma applyTagUpdate_inv:
  assumes "point_map_inv m"
  shows "point_map_inv (snd (applyTagUpdate tag s m))"
proof (cases "byTag m tag")
  case (Some keys)
  then have m': "snd (applyTagUpdate tag s m) = m \<lparr> point_values := fold (update_key s m) keys (point_values m) \<rparr>"
    by (simp add: applyTagUpdate_def)
  note I = point_map_invD [OF assms]
  have "\<exists>ks s'. byTag m (tagId e) = Some ks \<and> k \<in> set ks
       \<and> fold (update_key s m) keys (point_values m) k = Some s' \<and> value_ok e s'"
    if "map_of (points m) k = Some e" for k e
    using that I(4) [OF that] by (auto simp: fold_update_key normalise_ok)
  with assms show ?thesis
    unfolding m' point_map_inv_def by (auto simp: fold_update_key)
qed (use assms in \<open>simp add: applyTagUpdate_def\<close>)

text \<open>The operations as steps of a machine; an operation that throws leaves the map as it was.\<close>

datatype point_map_op = AddPoint point_def | TagUpdate tag_id point_sample

primrec point_map_step :: "point_map_op \<Rightarrow> point_map \<Rightarrow> point_map" where
  "point_map_step (AddPoint d) m = (case addPoint d m of Inl _ \<Rightarrow> m | Inr m' \<Rightarrow> m')"
| "point_map_step (TagUpdate tag s) m = snd (applyTagUpdate tag s m)"

interpretation point_map: invariant_machine point_map_step point_map_inv
proof
  fix m op
  assume "point_map_inv m"
  then show "point_map_inv (point_map_step op m)"
    by (cases op) (auto intro: addPoint_inv applyTagUpdate_inv split: sum.splits)
qed

definition reachable_point_map :: "point_map_op list \<Rightarrow> point_map" where
  "reachable_point_map ops = fold point_map_step ops empty_point_map"

lemma reachable_point_map_inv [simp]: "point_map_inv (reachable_point_map ops)"
  unfolding reachable_point_map_def by (rule point_map.run_inv) simp


section \<open>Lookups and reads\<close>

lemma mem_points_iff:
  "point_map_inv m \<Longrightarrow> (k, d) \<in> set (points m) \<longleftrightarrow> map_of (points m) k = Some d"
  using map_of_is_SomeI [of "points m" k d] point_map_invD(1) map_of_SomeD by metis

lemma set_pointsOfType:
  assumes "point_map_inv m"
  shows "set (pointsOfType t m) = {d. getPoint t (index d) m = Some d}"
proof -
  have "d \<in> set (pointsOfType t m) \<longleftrightarrow> getPoint t (index d) m = Some d" for d
  proof
    assume "d \<in> set (pointsOfType t m)"
    then obtain k where "(k, d) \<in> set (points m)" "ptype d = t" by (auto simp: pointsOfType_def)
    with mem_points_iff [OF assms] point_map_invD(2) [OF assms, of k d]
    show "getPoint t (index d) m = Some d" by (auto simp: getPoint_def point_key_def)
  next
    assume "getPoint t (index d) m = Some d"
    with mem_points_iff [OF assms] point_map_invD(2) [OF assms, of "(t, index d)" d]
    show "d \<in> set (pointsOfType t m)" by (force simp: getPoint_def pointsOfType_def point_key_def)
  qed
  then show ?thesis by auto
qed

lemma distinct_pointsOfType:
  assumes "point_map_inv m"
  shows "distinct (map index (pointsOfType t m))"
proof -
  let ?xs = "filter (\<lambda>p. ptype p = t) (map snd (points m))"
  have "map point_key (map snd (points m)) = map fst (points m)"
    using assms by (auto simp: point_map_inv_def intro: map_cong)
  with point_map_invD(1) [OF assms] have "distinct (map point_key (map snd (points m)))"
    by (simp only:)
  then have "distinct (map point_key ?xs)" by (rule distinct_map_filter)
  moreover have "map point_key ?xs = map (\<lambda>i. (t, i)) (map index ?xs)"
    by (simp add: point_key_def)
  ultimately have "distinct (map (\<lambda>i. (t, i)) (map index ?xs))" by (simp only:)
  then have "distinct (map index ?xs)" by (simp only: distinct_map)
  then show ?thesis unfolding pointsOfType_def distinct_map by simp
qed

text \<open>After any sequence of \<open>addPoint\<close> and \<open>applyTagUpdate\<close> calls, the points of a type come
  strictly increasing in index, every one of them is the point the registry returns for its
  index, every registered point of the type is among them, and each has a sample of the kind of
  its type: a boolean exactly for binary points. So a Class 0 read visits each mapped point once,
  in order, and \<open>resolve\<close> finds it.\<close>

theorem points_of_type_complete:
  fixes ops t
  defines "m \<equiv> reachable_point_map ops"
  shows "sorted_wrt (<) (map index (pointsOfType t m))
    \<and> set (pointsOfType t m) = {d. getPoint t (index d) m = Some d}
    \<and> list_all (\<lambda>d. \<exists>s. resolve t (index d) m = Some \<lparr> def = d, sample = s \<rparr> \<and> value_ok d s)
        (pointsOfType t m)"
proof (intro conjI)
  have inv: "point_map_inv m" by (simp add: m_def)
  have "sorted (map index (pointsOfType t m))" by (simp add: pointsOfType_def)
  with distinct_pointsOfType [OF inv] show "sorted_wrt (<) (map index (pointsOfType t m))"
    by (simp add: strict_sorted_iff)
  show "set (pointsOfType t m) = {d. getPoint t (index d) m = Some d}" by (rule set_pointsOfType [OF inv])
  then show "list_all (\<lambda>d. \<exists>s. resolve t (index d) m = Some \<lparr> def = d, sample = s \<rparr> \<and> value_ok d s)
        (pointsOfType t m)"
    using point_map_invD(4) [OF inv] by (fastforce simp: list_all_iff getPoint_def resolve_def)
qed

text \<open>A tag update reaches exactly the points the tag feeds: each of them, and nothing else,
  gets the normalised sample, the keys returned are those points, and the registered points are
  untouched.\<close>

theorem applyTagUpdate_exact:
  fixes ops tag s
  defines "m \<equiv> reachable_point_map ops"
  defines "m' \<equiv> snd (applyTagUpdate tag s m)"
  shows "getPoint t i m' = getPoint t i m
    \<and> getSample (t, i) m' =
        (case getPoint t i m of
           Some d \<Rightarrow> if tagId d = tag then Some (normalise d s) else getSample (t, i) m
         | None \<Rightarrow> None)
    \<and> ((t, i) \<in> set (fst (applyTagUpdate tag s m)) \<longleftrightarrow> (\<exists>d. getPoint t i m = Some d \<and> tagId d = tag))"
proof -
  note I = point_map_invD [OF reachable_point_map_inv [of ops], folded m_def]
  have keys: "k \<in> set ks \<longleftrightarrow> (\<exists>d. map_of (points m) k = Some d \<and> tagId d = tag)"
    if "byTag m tag = Some ks" for k ks
    using that I(3) [OF that] I(4) by fastforce
  show ?thesis
  proof (cases "byTag m tag")
    case None
    then have "tagId d \<noteq> tag" if "map_of (points m) k = Some d" for k d using I(4) [OF that] by auto
    with None I(5) show ?thesis
      by (auto simp: m'_def applyTagUpdate_def getPoint_def getSample_def split: option.splits)
  next
    case (Some ks)
    show ?thesis
      by (auto simp: m'_def applyTagUpdate_def Some getPoint_def getSample_def fold_update_key
          keys [OF Some] I(5) split: option.splits)
  qed
qed

end
