(* ===== verification/Dnp3_App.thy ===== *)
theory Dnp3_App
  imports Dnp3_Commands Dnp3_PointMap
begin

text \<open>
  The application layer of the outstation (\<open>dnp3-outstation/app-layer.ts\<close>): parsing a request
  fragment into object headers, building response headers and object blocks, the Class 0 static
  read, and the internal indication word.

  The scan of \<open>parseRequest\<close> is \<open>parse_loop\<close>, one turn of it \<open>parse_turn\<close>. A turn returns
  the object header with the fields set so far, the offset reached, and whether the scan goes on;
  \<open>return finish(false)\<close> is a turn that does not.
\<close>

section \<open>Request parsing\<close>

definition APP_CTRL_FIR :: byte where "APP_CTRL_FIR = 0x80"
definition APP_CTRL_FIN :: byte where "APP_CTRL_FIN = 0x40"
definition APP_CTRL_CON :: byte where "APP_CTRL_CON = 0x20"
definition APP_CTRL_UNS :: byte where "APP_CTRL_UNS = 0x10"
definition APP_CTRL_SEQ_MASK :: byte where "APP_CTRL_SEQ_MASK = 0x0f"

record prefixed_object =
  item_index :: nat
  item_data :: buffer

record object_header =
  hdr_group :: nat
  hdr_variation :: nat
  qualifier :: byte
  range :: "(nat \<times> nat) option"
  hdr_count :: "nat option"
  items :: "prefixed_object list option"
  hdr_data :: "buffer option"
  freeFormat :: "buffer list option"

record parsed_request =
  appControl :: byte
  fir :: bool
  fin :: bool
  con :: bool
  uns :: bool
  req_seq :: nat
  func :: nat
  objects :: "object_header list"
  objectsComplete :: bool
  rawObjects :: buffer
  raw :: buffer

definition new_header :: "nat \<Rightarrow> nat \<Rightarrow> byte \<Rightarrow> object_header" where
  "new_header g v q = \<lparr> hdr_group = g, hdr_variation = v, qualifier = q, range = None,
     hdr_count = None, items = None, hdr_data = None, freeFormat = None \<rparr>"

text \<open>The inner loop of qualifier 0x5B: \<open>n\<close> bodies, each prefixed with its 16-bit length.\<close>

primrec parse_bodies :: "buffer \<Rightarrow> nat \<Rightarrow> nat \<Rightarrow> (buffer list \<times> nat) option" where
  "parse_bodies fragment 0 off = Some ([], off)"
| "parse_bodies fragment (Suc n) off =
     (if off + 2 > length fragment then None
      else (let len = readUInt16LE fragment off; off = off + 2
            in if off + len > length fragment then None
               else (case parse_bodies fragment n (off + len) of
                       None \<Rightarrow> None
                     | Some (bodies, off') \<Rightarrow> Some (subarray fragment off (off + len) # bodies, off'))))"

text \<open>The inner loop over \<open>n\<close> index-prefixed objects of known size.\<close>

primrec parse_items :: "buffer \<Rightarrow> nat \<Rightarrow> nat \<Rightarrow> nat \<Rightarrow> nat \<Rightarrow> (prefixed_object list \<times> nat) option" where
  "parse_items fragment prefixLen sz 0 off = Some ([], off)"
| "parse_items fragment prefixLen sz (Suc n) off =
     (if off + prefixLen + sz > length fragment then None
      else (let idx = (if prefixLen = 1 then unat (fragment ! off) else readUInt16LE fragment off);
                item = \<lparr> item_index = idx, item_data = subarray fragment (off + prefixLen) (off + prefixLen + sz) \<rparr>
            in case parse_items fragment prefixLen sz n (off + prefixLen + sz) of
                 None \<Rightarrow> None
               | Some (is, off') \<Rightarrow> Some (item # is, off')))"

text \<open>
  The range field: the header with its range, the count (\<open>None\<close> for \<open>null\<close>) and the new offset.
  A start above the stop gives a negative count in the code, which ends the scan.
\<close>

definition parse_range :: "buffer \<Rightarrow> nat \<Rightarrow> object_header \<Rightarrow> (object_header \<times> nat option \<times> nat) option" where
  "parse_range fragment off h =
     (let rangeCode = unat (qualifier h AND 0x0f)
      in if rangeCode = 0x00 then
           (if off + 2 > length fragment then None
            else (let start = unat (fragment ! off); stop = unat (fragment ! (off + 1))
                  in if int stop - int start + 1 < 0 then None
                     else Some (h \<lparr> range := Some (start, stop) \<rparr>, Some (nat (int stop - int start + 1)), off + 2)))
         else if rangeCode = 0x01 then
           (if off + 4 > length fragment then None
            else (let start = readUInt16LE fragment off; stop = readUInt16LE fragment (off + 2)
                  in if int stop - int start + 1 < 0 then None
                     else Some (h \<lparr> range := Some (start, stop) \<rparr>, Some (nat (int stop - int start + 1)), off + 4)))
         else if rangeCode = 0x06 then Some (h, None, off)
         else if rangeCode = 0x07 then
           (if off + 1 > length fragment then None else Some (h, Some (unat (fragment ! off)), off + 1))
         else if rangeCode = 0x08 then
           (if off + 2 > length fragment then None else Some (h, Some (readUInt16LE fragment off), off + 2))
         else None)"

text \<open>The part of a turn after the range field: index-prefixed objects or the g80v1 bit string.\<close>

definition parse_data :: "buffer \<Rightarrow> nat \<Rightarrow> nat option \<Rightarrow> object_header \<Rightarrow> object_header \<times> nat \<times> bool" where
  "parse_data fragment off cnt h =
     (let prefixCode = unat (drop_bit 4 (qualifier h AND 0xf0));
          h = (case cnt of None \<Rightarrow> h | Some n \<Rightarrow> h \<lparr> hdr_count := Some n \<rparr>)
      in if prefixCode = 1 \<or> prefixCode = 2 then
           (let prefixLen = (if prefixCode = 1 then 1 else 2)
            in case (commandObjectSize (hdr_group h) (hdr_variation h), cnt) of
                 (Some sz, Some n) \<Rightarrow>
                   (case parse_items fragment prefixLen sz n off of
                      None \<Rightarrow> (h, off, False)
                    | Some (is, off') \<Rightarrow> (h \<lparr> items := Some is \<rparr>, off', True))
               | _ \<Rightarrow> (h, off, False))
         else if prefixCode = 0 \<and> hdr_group h = DNP3_GROUP INTERNAL_INDICATIONS \<and> hdr_variation h = 1
                 \<and> cnt \<noteq> None then
           (let byteLength = ceil_div (the cnt) 8
            in if off + byteLength > length fragment then (h, off, False)
               else (h \<lparr> hdr_data := Some (subarray fragment off (off + byteLength)) \<rparr>, off + byteLength, True))
         else (h, off, prefixCode = 0))"

definition parse_turn :: "buffer \<Rightarrow> nat \<Rightarrow> object_header \<times> nat \<times> bool" where
  "parse_turn fragment off =
     (let h = new_header (unat (fragment ! off)) (unat (fragment ! (off + 1))) (fragment ! (off + 2));
          off = off + 3
      in if qualifier h = 0x5b then
           (if off + 1 > length fragment then (h, off, False)
            else (let n = unat (fragment ! off); h = h \<lparr> hdr_count := Some n \<rparr>
                  in case parse_bodies fragment n (off + 1) of
                       None \<Rightarrow> (h, off, False)
                     | Some (bodies, off') \<Rightarrow> (h \<lparr> freeFormat := Some bodies \<rparr>, off', True)))
         else (case parse_range fragment off h of
                 None \<Rightarrow> (h, off, False)
               | Some (h', cnt, off') \<Rightarrow> parse_data fragment off' cnt h'))"

lemma parse_bodies_mono: "parse_bodies fragment n off = Some (bs, off') \<Longrightarrow> off \<le> off'"
proof (induction n arbitrary: off bs)
  case (Suc n)
  then show ?case by (force simp: Let_def split: if_splits option.splits)
qed simp

lemma parse_items_mono: "parse_items fragment p sz n off = Some (is, off') \<Longrightarrow> off \<le> off'"
proof (induction n arbitrary: off "is")
  case (Suc n)
  then show ?case by (force simp: Let_def split: if_splits option.splits)
qed simp

lemma parse_range_mono: "parse_range fragment off h = Some (h', cnt, off') \<Longrightarrow> off \<le> off'"
  by (auto simp: parse_range_def Let_def split: if_splits)

lemma parse_data_mono: "parse_data fragment off cnt h = (h', off', ok) \<Longrightarrow> off \<le> off'"
  unfolding parse_data_def Let_def
  by (auto dest: parse_items_mono split: if_splits option.splits prod.splits)

lemma parse_turn_progress: "parse_turn fragment off = (h, off', ok) \<Longrightarrow> off < off'"
  unfolding parse_turn_def Let_def
  by (force dest: parse_bodies_mono parse_data_mono parse_range_mono split: if_splits option.splits prod.splits)

text \<open>The scan: the headers found, the final offset and whether no turn gave up.\<close>

function parse_loop :: "buffer \<Rightarrow> nat \<Rightarrow> object_header list \<times> nat \<times> bool" where
  "parse_loop fragment off =
     (if off + 3 \<le> length fragment then
        (case parse_turn fragment off of
           (h, off', ok) \<Rightarrow>
             if ok then (case parse_loop fragment off' of (hs, off'', ok'') \<Rightarrow> (h # hs, off'', ok''))
             else ([h], off', False))
      else ([], off, True))"
  by pat_completeness auto
termination
  by (relation "measure (\<lambda>(fragment, off). length fragment - off)")
    (auto dest: parse_turn_progress [OF sym])

declare parse_loop.simps [simp del]

text \<open>\<open>None\<close>: a fragment of fewer than two octets throws.\<close>

definition parseRequest :: "buffer \<Rightarrow> parsed_request option" where
  "parseRequest fragment =
     (if length fragment < 2 then None
      else (case parse_loop fragment 2 of
              (objs, off, parseValid) \<Rightarrow>
                (let ac = fragment ! 0
                 in Some \<lparr> appControl = ac,
                      fir = (ac AND APP_CTRL_FIR \<noteq> 0), fin = (ac AND APP_CTRL_FIN \<noteq> 0),
                      con = (ac AND APP_CTRL_CON \<noteq> 0), uns = (ac AND APP_CTRL_UNS \<noteq> 0),
                      req_seq = unat (ac AND APP_CTRL_SEQ_MASK), func = unat (fragment ! 1),
                      objects = objs,
                      objectsComplete = (parseValid \<and> off = length fragment),
                      rawObjects = drop 2 fragment, raw = fragment \<rparr>)))"

section \<open>Response building\<close>

record response_opts =
  resp_seq :: nat
  resp_fir :: "bool option"
  resp_fin :: "bool option"
  resp_con :: bool
  unsolicited :: bool
  functionCode :: "nat option"
  resp_iin :: u16

definition response_opts :: "nat \<Rightarrow> u16 \<Rightarrow> response_opts" where
  "response_opts sq iin = \<lparr> resp_seq = sq, resp_fir = None, resp_fin = None, resp_con = False,
     unsolicited = False, functionCode = None, resp_iin = iin \<rparr>"

definition buildResponseHeader :: "response_opts \<Rightarrow> buffer" where
  "buildResponseHeader opts =
     (let ac = of_nat (resp_seq opts) AND APP_CTRL_SEQ_MASK;
          ac = flag_if (case resp_fir opts of None \<Rightarrow> True | Some b \<Rightarrow> b) APP_CTRL_FIR ac;
          ac = flag_if (case resp_fin opts of None \<Rightarrow> True | Some b \<Rightarrow> b) APP_CTRL_FIN ac;
          ac = flag_if (resp_con opts) APP_CTRL_CON ac;
          ac = flag_if (unsolicited opts) APP_CTRL_UNS ac;
          fc = (case functionCode opts of
                  Some f \<Rightarrow> f
                | None \<Rightarrow> if unsolicited opts then DNP3_FUNCTION UNSOLICITED_RESPONSE
                         else DNP3_FUNCTION RESPONSE)
      in [ac, of_nat fc] @ writeUInt16LE (unat (resp_iin opts)))"

text \<open>\<open>None\<close>: a body of more than 65535 octets throws.\<close>

definition buildFreeFormat16Object :: "nat \<Rightarrow> nat \<Rightarrow> buffer \<Rightarrow> buffer option" where
  "buildFreeFormat16Object g variation body =
     (if length body > 0xffff then None
      else Some ([of_nat g, of_nat variation, 0x5b, 1] @ writeUInt16LE (length body) @ body))"

definition buildObjectHeaderRange8 :: "nat \<times> nat \<Rightarrow> nat \<Rightarrow> nat \<Rightarrow> buffer \<Rightarrow> buffer" where
  "buildObjectHeaderRange8 gv start stop data =
     [of_nat (fst gv), of_nat (snd gv), 0x00, of_nat start, of_nat stop] @ data"

definition buildObjectHeaderRange16 :: "nat \<times> nat \<Rightarrow> nat \<Rightarrow> nat \<Rightarrow> buffer \<Rightarrow> buffer" where
  "buildObjectHeaderRange16 gv start stop data =
     [of_nat (fst gv), of_nat (snd gv), 0x01] @ writeUInt16LE start @ writeUInt16LE stop @ data"

definition STATIC_READ_ORDER :: "point_type list" where
  "STATIC_READ_ORDER = [binaryInput, binaryOutput, counter, analogInput, analogOutput]"

record static_run =
  gv :: "nat \<times> nat"
  wide :: bool
  start :: nat
  stop :: nat
  run_chunks :: "buffer list"
  run_bytes :: nat

definition encodeStaticRun :: "static_run \<Rightarrow> buffer" where
  "encodeStaticRun run =
     (let data = concat (run_chunks run)
      in if wide run then buildObjectHeaderRange16 (gv run) (start run) (stop run) data
         else buildObjectHeaderRange8 (gv run) (start run) (stop run) data)"

text \<open>
  One type of \<open>buildClass0Blocks\<close>. The loop over the points of the type carries the current run;
  \<open>type_runs\<close> returns the runs that are closed, in order, the one left open at the end included.
\<close>

definition run_continues :: "nat option \<Rightarrow> static_run \<Rightarrow> nat \<Rightarrow> (nat \<times> nat) \<times> buffer \<Rightarrow> bool" where
  "run_continues maxBlockBytes cur idx ser =
     (idx = stop cur + 1
      \<and> (idx > 0xff) = wide cur
      \<and> fst (fst ser) = fst (gv cur) \<and> snd (fst ser) = snd (gv cur)
      \<and> (case maxBlockBytes of None \<Rightarrow> True
         | Some m \<Rightarrow> (if wide cur then 7 else 5) + run_bytes cur + length (snd ser) \<le> m))"

definition start_run :: "nat \<Rightarrow> (nat \<times> nat) \<times> buffer \<Rightarrow> static_run" where
  "start_run idx ser = \<lparr> gv = fst ser, wide = (idx > 0xff), start = idx, stop = idx,
     run_chunks = [snd ser], run_bytes = length (snd ser) \<rparr>"

definition extend_run :: "static_run \<Rightarrow> nat \<Rightarrow> (nat \<times> nat) \<times> buffer \<Rightarrow> static_run" where
  "extend_run cur idx ser = cur \<lparr> run_chunks := run_chunks cur @ [snd ser],
     run_bytes := run_bytes cur + length (snd ser), stop := idx \<rparr>"

primrec type_runs :: "point_map \<Rightarrow> nat option \<Rightarrow> point_def list \<Rightarrow> static_run option \<Rightarrow> static_run list" where
  "type_runs m maxB [] cur = (case cur of None \<Rightarrow> [] | Some r \<Rightarrow> [r])"
| "type_runs m maxB (d # ds) cur =
     (case resolve (ptype d) (index d) m of
        None \<Rightarrow> type_runs m maxB ds cur
      | Some p \<Rightarrow>
          (let ser = serializeStaticPoint p
           in case cur of
                None \<Rightarrow> type_runs m maxB ds (Some (start_run (index d) ser))
              | Some r \<Rightarrow>
                  if run_continues maxB r (index d) ser
                  then type_runs m maxB ds (Some (extend_run r (index d) ser))
                  else r # type_runs m maxB ds (Some (start_run (index d) ser))))"

definition class0_runs :: "point_map \<Rightarrow> nat option \<Rightarrow> static_run list" where
  "class0_runs m maxB = concat (map (\<lambda>t. type_runs m maxB (pointsOfType t m) None) STATIC_READ_ORDER)"

definition buildClass0Blocks :: "point_map \<Rightarrow> nat option \<Rightarrow> buffer list" where
  "buildClass0Blocks m maxB = map encodeStaticRun (class0_runs m maxB)"

definition buildClass0Objects :: "point_map \<Rightarrow> buffer" where
  "buildClass0Objects m = concat (buildClass0Blocks m None)"

section \<open>Indications and read targets\<close>

record iin_opts =
  deviceRestart :: bool
  needTime :: bool
  class1Events :: bool
  class2Events :: bool
  class3Events :: bool
  eventBufferOverflow :: bool
  noFuncSupport :: bool
  objectUnknown :: bool
  parameterError :: bool
  alreadyExecuting :: bool

definition no_iin :: iin_opts where
  "no_iin = \<lparr> deviceRestart = False, needTime = False, class1Events = False, class2Events = False,
     class3Events = False, eventBufferOverflow = False, noFuncSupport = False, objectUnknown = False,
     parameterError = False, alreadyExecuting = False \<rparr>"

definition iin_if :: "bool \<Rightarrow> u16 \<Rightarrow> u16 \<Rightarrow> u16" where
  "iin_if c f iin = (if c then iin OR f else iin)"

definition buildIin :: "iin_opts \<Rightarrow> u16" where
  "buildIin opts =
     (let iin = 0;
          iin = iin_if (class1Events opts) (DNP3_IIN CLASS1_EVENTS) iin;
          iin = iin_if (class2Events opts) (DNP3_IIN CLASS2_EVENTS) iin;
          iin = iin_if (class3Events opts) (DNP3_IIN CLASS3_EVENTS) iin;
          iin = iin_if (needTime opts) (DNP3_IIN NEED_TIME) iin;
          iin = iin_if (deviceRestart opts) (DNP3_IIN DEVICE_RESTART) iin;
          iin = iin_if (eventBufferOverflow opts) (DNP3_IIN EVENT_BUFFER_OVERFLOW) iin;
          iin = iin_if (noFuncSupport opts) (DNP3_IIN NO_FUNC_CODE_SUPPORT) iin;
          iin = iin_if (objectUnknown opts) (DNP3_IIN OBJECT_UNKNOWN) iin;
          iin = iin_if (parameterError opts) (DNP3_IIN PARAMETER_ERROR) iin;
          iin = iin_if (alreadyExecuting opts) (DNP3_IIN ALREADY_EXECUTING) iin
      in iin AND 0xffff)"

definition class_target :: "variation_key \<Rightarrow> parsed_request \<Rightarrow> bool" where
  "class_target v req = (func req = DNP3_FUNCTION READ \<and>
     list_ex (\<lambda>obj. hdr_group obj = DNP3_GROUP CLASS_DATA \<and> hdr_variation obj = DNP3_VARIATION v) (objects req))"

definition classReadTargets :: "parsed_request \<Rightarrow> bool \<times> bool \<times> bool \<times> bool" where
  "classReadTargets req =
     (class_target CLASS0 req, class_target CLASS1 req, class_target CLASS2 req, class_target CLASS3 req)"


section \<open>The parser accounts for every octet\<close>

text \<open>The octets a parsed object header stands for.\<close>

definition item_bytes :: "nat \<Rightarrow> prefixed_object \<Rightarrow> buffer" where
  "item_bytes p i = (if p = 1 then [of_nat (item_index i)] else writeUInt16LE (item_index i)) @ item_data i"

definition body_bytes :: "buffer \<Rightarrow> buffer" where
  "body_bytes b = writeUInt16LE (length b) @ b"

definition range_bytes :: "object_header \<Rightarrow> buffer" where
  "range_bytes h =
     (let rc = unat (qualifier h AND 0x0f)
      in if rc = 0 then [of_nat (fst (the (range h))), of_nat (snd (the (range h)))]
         else if rc = 1 then writeUInt16LE (fst (the (range h))) @ writeUInt16LE (snd (the (range h)))
         else if rc = 6 then []
         else if rc = 7 then [of_nat (the (hdr_count h))]
         else writeUInt16LE (the (hdr_count h)))"

definition prefix_len :: "object_header \<Rightarrow> nat" where
  "prefix_len h = unat (drop_bit 4 (qualifier h AND 0xf0))"

definition header_bytes :: "object_header \<Rightarrow> buffer" where
  "header_bytes h =
     [of_nat (hdr_group h), of_nat (hdr_variation h), qualifier h] @
     (if qualifier h = 0x5b
      then [of_nat (the (hdr_count h))] @ concat (map body_bytes (the (freeFormat h)))
      else range_bytes h
           @ (case items h of None \<Rightarrow> [] | Some is \<Rightarrow> concat (map (item_bytes (prefix_len h)) is))
           @ (case hdr_data h of None \<Rightarrow> [] | Some d \<Rightarrow> d))"

lemma subarray_split: "a \<le> b \<Longrightarrow> b \<le> c \<Longrightarrow> subarray f a c = subarray f a b @ subarray f b c"
proof -
  assume "a \<le> b" "b \<le> c"
  then have "c - a = (b - a) + (c - b)" "drop b f = drop (b - a) (drop a f)" by simp_all
  then show ?thesis by (simp only: subarray_def take_add)
qed

lemma subarray_split3: "a \<le> b \<Longrightarrow> b \<le> c \<Longrightarrow> c \<le> d \<Longrightarrow>
    subarray f a d = subarray f a b @ subarray f b c @ subarray f c d"
  using subarray_split [of a b d f] subarray_split [of b c d f] by simp

lemma subarray_empty [simp]: "subarray f a a = []"
  by (simp add: subarray_def)

lemma subarray_one: "off < length f \<Longrightarrow> subarray f off (Suc off) = [f ! off]"
  by (simp add: subarray_def take_Suc_conv_app_nth)

lemma subarray_u16: "off + 2 \<le> length f \<Longrightarrow> subarray f off (off + 2) = writeUInt16LE (readUInt16LE f off)"
proof -
  assume "off + 2 \<le> length f"
  then have "length (take 2 (drop off f)) = 2" by simp
  then show ?thesis unfolding readUIntLE_def subarray_def
    by (metis add_diff_cancel_left' le_bytes_le_val)
qed

lemma subarray_Suc2: "Suc (Suc off) \<le> length f \<Longrightarrow>
    subarray f off (Suc (Suc off)) = writeUInt16LE (readUInt16LE f off)"
  using subarray_u16 [of off f] by simp

lemma parse_bodies_bytes:
  "parse_bodies f n off = Some (bs, off') \<Longrightarrow> off \<le> length f \<Longrightarrow>
     off' \<le> length f \<and> subarray f off off' = concat (map body_bytes bs) \<and> length bs = n"
proof (induction n arbitrary: off bs)
  case (Suc n)
  let ?len = "readUInt16LE f off"
  from Suc.prems obtain bs' where bs: "bs = subarray f (off + 2) (off + 2 + ?len) # bs'"
    and rest: "parse_bodies f n (off + 2 + ?len) = Some (bs', off')" and fits: "off + 2 + ?len \<le> length f"
    by (auto simp: Let_def split: if_splits option.splits)
  from Suc.IH [OF rest fits] have IH: "off' \<le> length f"
    "subarray f (off + 2 + ?len) off' = concat (map body_bytes bs')" "length bs' = n" by auto
  have le: "off + 2 + ?len \<le> off'" by (rule parse_bodies_mono [OF rest])
  have "subarray f off off' = subarray f off (off + 2) @ subarray f (off + 2) (off + 2 + ?len)
      @ subarray f (off + 2 + ?len) off'"
    using le by (intro subarray_split3) simp_all
  then show ?case
    using IH fits body_bytes_def [of "subarray f (off + 2) (off + 2 + ?len)"]
    by (simp add: bs subarray_Suc2 subarray_full)
qed simp

lemma parse_items_bytes:
  "parse_items f p sz n off = Some (is, off') \<Longrightarrow> off \<le> length f \<Longrightarrow> p = 1 \<or> p = 2 \<Longrightarrow>
     off' \<le> length f \<and> subarray f off off' = concat (map (item_bytes p) is) \<and> length is = n
     \<and> list_all (\<lambda>i. length (item_data i) = sz \<and> item_index i < 65536) is"
proof (induction n arbitrary: off "is")
  case (Suc n)
  let ?b = "off + p + sz"
  let ?idx = "if p = 1 then unat (f ! off) else readUInt16LE f off"
  from Suc.prems obtain is' where is_eq: "is = \<lparr> item_index = ?idx, item_data = subarray f (off + p) ?b \<rparr> # is'"
    and rest: "parse_items f p sz n ?b = Some (is', off')" and fits: "?b \<le> length f"
    by (auto simp: Let_def split: option.splits if_split_asm)
  from Suc.IH [OF rest fits Suc.prems(3)] have IH: "off' \<le> length f"
    "subarray f ?b off' = concat (map (item_bytes p) is')" "length is' = n"
    "list_all (\<lambda>i. length (item_data i) = sz \<and> item_index i < 65536) is'" by auto
  have "?idx < 65536" using readUIntLE_lt [of f off 2] less_trans [OF unat_byte_lt [of "f ! off"], of 65536] by simp
  moreover have le: "?b \<le> off'" by (rule parse_items_mono [OF rest])
  moreover have "subarray f off off' = subarray f off (off + p) @ subarray f (off + p) ?b @ subarray f ?b off'"
    using le by (intro subarray_split3) simp_all
  moreover have "subarray f off (off + p) = (if p = 1 then [of_nat ?idx] else writeUInt16LE ?idx)"
    using Suc.prems(3) fits by (auto simp: subarray_Suc2 subarray_one)
  ultimately show ?case
    using IH fits item_bytes_def [of p "\<lparr> item_index = ?idx, item_data = subarray f (off + p) ?b \<rparr>"]
    by (auto simp: is_eq subarray_full)
qed simp

lemma parse_range_bytes:
  assumes "parse_range f off h = Some (h', cnt, off')" "off \<le> length f"
    "hdr_count h'' = (case cnt of None \<Rightarrow> hdr_count h' | Some n \<Rightarrow> Some n)"
    "range h'' = range h'" "qualifier h'' = qualifier h"
  shows "off' \<le> length f \<and> subarray f off off' = range_bytes h''"
proof -
  have two: "subarray f off (off + 2) = [f ! off, f ! Suc off]" if "off + 2 \<le> length f"
    using that subarray_split [of off "Suc off" "Suc (Suc off)" f] by (simp add: subarray_one)
  have four: "subarray f off (off + 4) = writeUInt16LE (readUInt16LE f off) @ writeUInt16LE (readUInt16LE f (off + 2))"
    if "off + 4 \<le> length f"
  proof -
    have "off + 2 + 2 = off + 4" by simp
    with that show ?thesis
      using subarray_split [of off "off + 2" "off + 4" f] subarray_u16 [of "off + 2" f] subarray_u16 [of off f]
      by (metis add_leD1 le_add1)
  qed
  show ?thesis
    using assms two four subarray_Suc2 [of off f]
    by (auto simp: parse_range_def range_bytes_def Let_def subarray_one split: if_splits)
qed


lemma parse_range_fields:
  "parse_range f off h = Some (h', cnt, off') \<Longrightarrow>
     hdr_group h' = hdr_group h \<and> hdr_variation h' = hdr_variation h \<and> qualifier h' = qualifier h
     \<and> hdr_count h' = hdr_count h \<and> items h' = items h \<and> hdr_data h' = hdr_data h"
  by (auto simp: parse_range_def Let_def split: if_splits)

text \<open>What \<open>parse_data\<close> adds to a header that has no object data yet.\<close>

lemma parse_data_bytes:
  assumes "parse_data f off cnt h = (h', off', True)" "off \<le> length f" "items h = None" "hdr_data h = None"
  shows "off' \<le> length f
    \<and> subarray f off off' = (case items h' of None \<Rightarrow> [] | Some is \<Rightarrow> concat (map (item_bytes (prefix_len h)) is))
        @ (case hdr_data h' of None \<Rightarrow> [] | Some d \<Rightarrow> d)
    \<and> hdr_count h' = (case cnt of None \<Rightarrow> hdr_count h | Some n \<Rightarrow> Some n)
    \<and> hdr_group h' = hdr_group h \<and> hdr_variation h' = hdr_variation h \<and> qualifier h' = qualifier h
    \<and> range h' = range h
    \<and> (\<forall>is. items h' = Some is \<longrightarrow> cnt = Some (length is) \<and>
         (\<exists>sz. commandObjectSize (hdr_group h) (hdr_variation h) = Some sz
            \<and> list_all (\<lambda>i. length (item_data i) = sz \<and> item_index i < 65536) is))"
proof -
  let ?h = "case cnt of None \<Rightarrow> h | Some n \<Rightarrow> h \<lparr> hdr_count := Some n \<rparr>"
  consider
      (prefixed) sz n "is" where "prefix_len h = 1 \<or> prefix_len h = 2" "cnt = Some n"
        "commandObjectSize (hdr_group h) (hdr_variation h) = Some sz"
        "parse_items f (prefix_len h) sz n off = Some (is, off')" "h' = ?h \<lparr> items := Some is \<rparr>"
    | (packed) n where "cnt = Some n" "off' = off + ceil_div n 8" "off' \<le> length f"
        "h' = ?h \<lparr> hdr_data := Some (subarray f off off') \<rparr>"
    | (none) "h' = ?h" "off' = off"
    using assms(1) unfolding parse_data_def Let_def prefix_len_def
    by (cases cnt) (auto split: if_splits option.splits prod.splits)
  then show ?thesis
  proof cases
    case prefixed
    from parse_items_bytes [OF prefixed(4) assms(2) prefixed(1)] prefixed show ?thesis
      by (auto simp: assms(3,4))
  next
    case packed
    then show ?thesis by (simp add: assms(3,4))
  next
    case none
    then show ?thesis using assms(2-4) by (auto split: option.splits)
  qed
qed

lemma subarray_three: "off + 3 \<le> length f \<Longrightarrow> subarray f off (off + 3) = [f ! off, f ! (off + 1), f ! (off + 2)]"
  using subarray_split3 [of off "Suc off" "Suc (Suc off)" "Suc (Suc (Suc off))" f]
  by (simp add: subarray_one numeral_3_eq_3)

text \<open>Objects of a header that was decoded carry the size of their group and variation.\<close>

definition items_sized :: "object_header \<Rightarrow> bool" where
  "items_sized h = (case items h of None \<Rightarrow> True
     | Some is \<Rightarrow> hdr_count h = Some (length is)
         \<and> (case commandObjectSize (hdr_group h) (hdr_variation h) of None \<Rightarrow> False
            | Some sz \<Rightarrow> list_all (\<lambda>i. length (item_data i) = sz \<and> item_index i < 65536) is))"

lemma parse_turn_bytes:
  assumes "parse_turn f off = (h, off', True)" "off + 3 \<le> length f"
  shows "off' \<le> length f \<and> subarray f off off' = header_bytes h \<and> items_sized h"
proof (cases "f ! (off + 2) = 0x5b")
  case True
  from assms obtain bs where h: "h = (new_header (unat (f ! off)) (unat (f ! (off + 1))) 0x5b)
        \<lparr> hdr_count := Some (unat (f ! (off + 3))), freeFormat := Some bs \<rparr>"
    and b: "parse_bodies f (unat (f ! (off + 3))) (off + 4) = Some (bs, off')" and len: "off + 4 \<le> length f"
    using True [simplified]
    by (auto simp: parse_turn_def Let_def new_header_def eval_nat_numeral split: if_splits option.splits prod.splits)
  from parse_bodies_bytes [OF b len] have B: "off' \<le> length f" "subarray f (off + 4) off' = concat (map body_bytes bs)"
    by auto
  have "subarray f off off' = subarray f off (off + 3) @ subarray f (off + 3) (off + 4) @ subarray f (off + 4) off'"
    using parse_bodies_mono [OF b] by (intro subarray_split3) simp_all
  moreover have "subarray f (off + 3) (off + 4) = [f ! (off + 3)]"
    using subarray_one [of "off + 3" f] len by (simp add: eval_nat_numeral)
  ultimately show ?thesis
    using B assms(2) True by (simp add: h header_bytes_def subarray_three new_header_def items_sized_def)
next
  case False
  define h0 where "h0 = new_header (unat (f ! off)) (unat (f ! (off + 1))) (f ! (off + 2))"
  have q: "qualifier h0 = f ! (off + 2)" by (simp add: h0_def new_header_def)
  have "(case parse_range f (off + 3) h0 of None \<Rightarrow> (h0, off + 3, False)
      | Some (h', cnt, off') \<Rightarrow> parse_data f off' cnt h') = (h, off', True)"
    using assms(1) False unfolding parse_turn_def Let_def h0_def [symmetric] q by simp
  then obtain h1 cnt off1 where r: "parse_range f (off + 3) h0 = Some (h1, cnt, off1)"
    and d: "parse_data f off1 cnt h1 = (h, off', True)"
    by (auto split: option.splits prod.splits)
  note F = parse_range_fields [OF r]
  have h1: "items h1 = None" "hdr_data h1 = None" using F by (simp_all add: h0_def new_header_def)
  have off1: "off1 \<le> length f"
    using parse_range_bytes [OF r assms(2), of "h1 \<lparr> hdr_count := (case cnt of None \<Rightarrow> hdr_count h1 | Some n \<Rightarrow> Some n) \<rparr>"] F
    by simp
  have pl: "prefix_len h1 = prefix_len h"
    using parse_data_bytes [OF d off1 h1] by (simp add: prefix_len_def)
  note D = parse_data_bytes [OF d off1 h1, unfolded pl]
  have R: "subarray f (off + 3) off1 = range_bytes h"
    using parse_range_bytes [OF r assms(2), of h] D F by simp
  have "subarray f off off' = subarray f off (off + 3) @ subarray f (off + 3) off1 @ subarray f off1 off'"
    using parse_range_mono [OF r] parse_data_mono [OF d] by (intro subarray_split3) simp_all
  moreover have "qualifier h = qualifier h0" "hdr_group h = hdr_group h0" "hdr_variation h = hdr_variation h0"
    using D F by simp_all
  ultimately have "subarray f off off' = header_bytes h"
    using D F R assms(2) False
    by (simp add: header_bytes_def subarray_three q h0_def new_header_def)
  moreover have "items_sized h" using D by (auto simp: items_sized_def split: option.splits)
  ultimately show ?thesis using D by simp
qed

lemma parse_loop_bytes:
  "parse_loop f off = (hs, off', True) \<Longrightarrow> off \<le> length f \<Longrightarrow>
     off \<le> off' \<and> off' \<le> length f \<and> subarray f off off' = concat (map header_bytes hs) \<and> list_all items_sized hs"
proof (induction f off arbitrary: hs rule: parse_loop.induct)
  case (1 f off)
  show ?case
  proof (cases "off + 3 \<le> length f")
    case True
    obtain h o1 ok where t: "parse_turn f off = (h, o1, ok)" using prod_cases3 by blast
    obtain hs' where ok: "ok" and rest: "parse_loop f o1 = (hs', off', True)" and hs: "hs = h # hs'"
      using 1(2) True t by (subst (asm) parse_loop.simps) (auto split: if_splits prod.splits)
    from t ok have t': "parse_turn f off = (h, o1, True)" by simp
    note T = parse_turn_bytes [OF t' True]
    have "o1 \<le> length f" using T by simp
    note IH = 1(1) [OF True t [symmetric] refl ok rest this]
    have "subarray f off off' = subarray f off o1 @ subarray f o1 off'"
      using IH parse_turn_progress [OF t'] by (intro subarray_split) simp_all
    then show ?thesis using IH T parse_turn_progress [OF t'] by (simp add: hs)
  next
    case False
    with 1(2,3) show ?thesis by (subst (asm) parse_loop.simps) simp
  qed
qed

lemma parse_complete_parts:
  assumes "parseRequest f = Some r" "objectsComplete r"
  shows "f = appControl r # of_nat (func r) # concat (map header_bytes (objects r))
    \<and> list_all items_sized (objects r)"
proof -
  obtain hs off ok where l: "parse_loop f 2 = (hs, off, ok)" using prod_cases3 by blast
  from assms l have len: "2 \<le> length f" and ok: "ok" "off = length f"
    and r: "appControl r = f ! 0" "func r = unat (f ! 1)" "objects r = hs"
    by (auto simp: parseRequest_def Let_def split: if_splits)
  with l have l': "parse_loop f 2 = (hs, length f, True)" by simp
  note P = parse_loop_bytes [OF l' len]
  have "f = f ! 0 # f ! 1 # drop 2 f"
    using len by (cases f; cases "tl f") auto
  moreover have "drop 2 f = subarray f 2 (length f)" by (simp add: subarray_def)
  ultimately show ?thesis using P r by simp
qed

lemmas parse_complete_exact_sized = parse_complete_parts [THEN conjunct2]

text \<open>A request whose scan is reported complete was understood to the last octet: the control
  octet, the function code and the octets of the parsed object headers are the fragment, none left
  over, none read twice. Every control object that was decoded has exactly the size of its group and
  variation and there are as many of them as the header announced.\<close>

theorem parse_complete_exact:
  assumes "parseRequest f = Some r" "objectsComplete r"
  shows "f = appControl r # of_nat (func r) # concat (map header_bytes (objects r))
    \<and> list_all items_sized (objects r)"
  using parse_complete_parts [OF assms] .

definition example_read :: buffer where
  "example_read = [0xC3, 0x01, 60, 2, 0x06, 60, 1, 0x06]"

lemma eval_parse_turn:
  "off + 3 \<le> length f \<Longrightarrow> parse_loop f off =
     (case parse_turn f off of (h, off', ok) \<Rightarrow>
        if ok then (case parse_loop f off' of (hs, off'', ok'') \<Rightarrow> (h # hs, off'', ok'')) else ([h], off', False))"
  "\<not> off + 3 \<le> length f \<Longrightarrow> parse_loop f off = ([], off, True)"
  by (subst parse_loop.simps; simp)+

theorem parse_complete_exact_witness:
  "\<exists>r. parseRequest example_read = Some r \<and> objectsComplete r
     \<and> example_read = appControl r # of_nat (func r) # concat (map header_bytes (objects r))"
proof -
  have 1: "parse_turn example_read 2 = (new_header 60 2 6, 5, True)"
    and 2: "parse_turn example_read 5 = (new_header 60 1 6, 8, True)"
    by (simp_all add: parse_turn_def parse_range_def parse_data_def example_read_def new_header_def Let_def)
  have "parse_loop example_read 2 = ([new_header 60 2 6, new_header 60 1 6], 8, True)"
    using 1 2 by (simp add: eval_parse_turn example_read_def)
  then obtain r where r: "parseRequest example_read = Some r" "objectsComplete r"
    by (simp add: parseRequest_def example_read_def)
  with parse_complete_exact [OF r] show ?thesis by blast
qed

section \<open>Control requests survive parsing\<close>

definition control_header :: "nat \<Rightarrow> nat \<Rightarrow> bool \<Rightarrow> prefixed_object list \<Rightarrow> object_header" where
  "control_header g v two is = (new_header g v (if two then 0x28 else 0x17))
     \<lparr> hdr_count := Some (length is), items := Some is \<rparr>"

text \<open>A header of control objects a master may send: a known command object, qualifier 0x17 or
  0x28, and indices and a count that fit the qualifier.\<close>

definition control_ok :: "object_header \<Rightarrow> bool" where
  "control_ok h \<longleftrightarrow>
     (case items h of None \<Rightarrow> False
      | Some is \<Rightarrow>
          (\<exists>two. h = control_header (hdr_group h) (hdr_variation h) two is
             \<and> length is < (if two then 65536 else 256)
             \<and> list_all (\<lambda>i. item_index i < (if two then 65536 else 256)
                  \<and> commandObjectSize (hdr_group h) (hdr_variation h) = Some (length (item_data i))) is)
          \<and> commandObjectSize (hdr_group h) (hdr_variation h) \<noteq> None)"

lemma subarray_drop: "length pre = off \<Longrightarrow> subarray (pre @ xs) (off + a) (off + b) = subarray xs a b"
  by (simp add: subarray_def)

lemma parse_items_build:
  assumes "p = 1 \<or> p = 2"
    "list_all (\<lambda>i. item_index i < 256 ^ p \<and> length (item_data i) = sz) is"
  shows "parse_items (pre @ concat (map (item_bytes p) is) @ post) p sz (length is) (length pre)
    = Some (is, length pre + length (concat (map (item_bytes p) is)))"
  using assms(2)
proof (induction "is" arbitrary: pre)
  case (Cons i "is")
  let ?rest = "concat (map (item_bytes p) is) @ post"
  define pb where "pb = (if p = 1 then [of_nat (item_index i)] else writeUInt16LE (item_index i) :: buffer)"
  have pb: "length pb = p" using assms(1) by (auto simp: pb_def)
  have ib: "item_bytes p i = pb @ item_data i" by (simp add: item_bytes_def pb_def)
  from Cons.prems have i: "item_index i < 256 ^ p" "length (item_data i) = sz" by simp_all
  let ?f = "pre @ pb @ item_data i @ ?rest"
  have idx: "(if p = 1 then unat (?f ! length pre) else readUInt16LE ?f (length pre)) = item_index i"
  proof (cases "p = 1")
    case True
    with i show ?thesis by (simp add: pb_def nth_append)
  next
    case False
    with assms(1) have "p = 2" by simp
    with i pb show ?thesis by (simp add: pb_def readUIntLE_append le_val_le_bytes)
  qed
  have sub: "subarray ?f (length pre + p) (length pre + p + sz) = item_data i"
    using i pb by (simp add: subarray_def)
  have IH: "parse_items ?f p sz (length is) (length pre + p + sz)
      = Some (is, length pre + p + sz + length (concat (map (item_bytes p) is)))"
    using Cons.IH [of "pre @ pb @ item_data i"] Cons.prems pb i by (simp add: add.assoc)
  have "\<not> length pre + p + sz > length ?f" using pb i by simp
  then show ?case
    unfolding ib using IH idx sub pb i by (simp add: Let_def ib del: length_concat)
qed simp

lemma parse_turn_control:
  assumes "control_ok h"
  shows "parse_turn (pre @ header_bytes h @ post) (length pre) = (h, length pre + length (header_bytes h), True)"
proof -
  from assms obtain "is" two sz where h: "items h = Some is" "h = control_header (hdr_group h) (hdr_variation h) two is"
    and len: "length is < (if two then 65536 else 256)"
    and ok: "list_all (\<lambda>i. item_index i < (if two then 65536 else 256)
        \<and> commandObjectSize (hdr_group h) (hdr_variation h) = Some (length (item_data i))) is"
    and sz: "commandObjectSize (hdr_group h) (hdr_variation h) = Some sz"
    unfolding control_ok_def by (auto split: option.splits)
  define p where "p = (if two then 2 else 1 :: nat)"
  define cb where "cb = (if two then writeUInt16LE (length is) else [of_nat (length is)] :: buffer)"
  define ib where "ib = concat (map (item_bytes p) is)"
  have gv: "hdr_group h < 256" "hdr_variation h < 256"
    using sz by (auto simp: commandObjectSize_def analogOutputObjectSize_def split: if_splits)
  have q: "qualifier h = (if two then 0x28 else 0x17)" and fields: "hdr_count h = Some (length is)" "hdr_data h = None"
    by (subst h(2); simp add: control_header_def new_header_def)+
  have pl: "prefix_len h = p" by (simp add: prefix_len_def q p_def)
  have hb: "header_bytes h = [of_nat (hdr_group h), of_nat (hdr_variation h), qualifier h] @ cb @ ib"
    by (simp add: header_bytes_def q h(1) fields range_bytes_def cb_def pl [unfolded prefix_len_def] pl ib_def)
  have cbl: "length cb = p" by (simp add: cb_def p_def)
  let ?f = "pre @ header_bytes h @ post"
  have f: "?f = (pre @ [of_nat (hdr_group h), of_nat (hdr_variation h), qualifier h] @ cb) @ ib @ post"
    by (simp add: hb)
  define pre' where "pre' = pre @ [of_nat (hdr_group h), of_nat (hdr_variation h), qualifier h] @ cb"
  have items: "parse_items ?f p sz (length is) (length pre + 3 + p) = Some (is, length pre + 3 + p + length ib)"
  proof -
    have "list_all (\<lambda>i. item_index i < 256 ^ p \<and> length (item_data i) = sz) is"
      using ok sz by (auto simp: list_all_iff p_def split: if_splits)
    moreover have "length pre' = length pre + 3 + p" using cbl by (simp add: pre'_def)
    moreover have "p = 1 \<or> p = 2" by (simp add: p_def)
    ultimately show ?thesis
      unfolding f pre'_def [symmetric] ib_def using parse_items_build [of p sz "is" pre' post] by metis
  qed
  have heads: "?f ! length pre = of_nat (hdr_group h)" "?f ! (length pre + 1) = of_nat (hdr_variation h)"
    "?f ! (length pre + 2) = qualifier h"
    by (simp_all add: hb nth_append)
  let ?h0 = "new_header (hdr_group h) (hdr_variation h) (qualifier h)"
  have range: "parse_range ?f (length pre + 3) ?h0 = Some (?h0, Some (length is), length pre + 3 + p)"
  proof (cases two)
    case True
    have "readUInt16LE ?f (length pre + 3) = length is"
      using len True readUIntLE_append [of "pre @ [of_nat (hdr_group h), of_nat (hdr_variation h), qualifier h]"
          "length pre + 3" cb 2 "ib @ post"]
      by (simp add: hb cb_def le_val_le_bytes)
    moreover have "\<not> length pre + 3 + 2 > length ?f" using cbl True by (simp add: hb p_def)
    ultimately show ?thesis using True by (simp add: parse_range_def new_header_def q p_def)
  next
    case False
    have "unat (?f ! (length pre + 3)) = length is"
      using len False by (simp add: hb nth_append cb_def)
    moreover have "\<not> length pre + 3 + 1 > length ?f" using cbl False by (simp add: hb p_def)
    ultimately show ?thesis using False by (simp add: parse_range_def new_header_def q p_def)
  qed
  have data: "parse_data ?f (length pre + 3 + p) (Some (length is)) ?h0
      = (?h0 \<lparr> hdr_count := Some (length is), items := Some is \<rparr>, length pre + 3 + p + length ib, True)"
    using items sz unfolding parse_data_def Let_def
    by (cases two) (simp_all add: new_header_def q p_def)
  have "?h0 \<lparr> hdr_count := Some (length is), items := Some is \<rparr> = h"
    by (subst (4) h(2)) (simp add: control_header_def q)
  moreover have "qualifier h \<noteq> 0x5b" by (simp add: q)
  moreover have "length (header_bytes h) = 3 + p + length ib" using cbl by (simp add: hb)
  ultimately show ?thesis
    unfolding parse_turn_def Let_def heads using gv range data
    by (simp add: new_header_def add.assoc)
qed

lemma parse_loop_control:
  "list_all control_ok hs \<Longrightarrow>
     parse_loop (pre @ concat (map header_bytes hs)) (length pre)
       = (hs, length pre + length (concat (map header_bytes hs)), True)"
proof (induction hs arbitrary: pre)
  case (Cons h hs)
  let ?f = "pre @ header_bytes h @ concat (map header_bytes hs)"
  have "length pre + 3 \<le> length ?f" by (simp add: header_bytes_def)
  moreover have "parse_turn ?f (length pre) = (h, length pre + length (header_bytes h), True)"
    using Cons.prems by (intro parse_turn_control) simp
  moreover have "parse_loop ?f (length pre + length (header_bytes h))
      = (hs, length pre + length (header_bytes h) + length (concat (map header_bytes hs)), True)"
    using Cons.IH [of "pre @ header_bytes h"] Cons.prems by simp
  ultimately show ?case by (simp add: eval_parse_turn(1) del: length_concat)
qed (simp add: eval_parse_turn)

lemma parse_control:
  assumes "list_all control_ok hs"
  shows "\<exists>r. parseRequest (ac # fc # concat (map header_bytes hs)) = Some r
    \<and> objects r = hs \<and> objectsComplete r \<and> func r = unat fc \<and> req_seq r = unat (ac AND APP_CTRL_SEQ_MASK)"
  using parse_loop_control [OF assms, of "[ac, fc]"]
  by (simp add: parseRequest_def Let_def numeral_2_eq_2)

lemma control_okI:
  assumes "length is < (if b then 65536 else 256)" "commandObjectSize g v \<noteq> None"
    "list_all (\<lambda>i. item_index i < (if b then 65536 else 256) \<and> commandObjectSize g v = Some (length (item_data i))) is"
  shows "control_ok (control_header g v b is)"
proof -
  have "\<exists>two. control_header g v b is = control_header g v two is \<and> length is < (if two then 65536 else 256)
      \<and> list_all (\<lambda>i. item_index i < (if two then 65536 else 256) \<and> commandObjectSize g v = Some (length (item_data i))) is"
    using assms by (intro exI [of _ b]) simp
  with assms(2) show ?thesis unfolding control_ok_def by (simp add: control_header_def new_header_def)
qed

text \<open>Control requests are parsed back exactly. Any sequence of command object headers a master may
  send, whatever control octet and function code precede it, is scanned completely and gives those
  headers, with every index and every object body.\<close>

theorem control_request_roundtrip:
  assumes "list_all control_ok hs"
  shows "\<exists>r. parseRequest (ac # fc # concat (map header_bytes hs)) = Some r
    \<and> objects r = hs \<and> objectsComplete r \<and> func r = unat fc \<and> req_seq r = unat (ac AND APP_CTRL_SEQ_MASK)"
  using parse_control [OF assms] .

definition example_controls :: "object_header list" where
  "example_controls = [control_header 12 1 False [\<lparr> item_index = 3, item_data = encodeCrob
     \<lparr> opType = 3, tcc = 0, clear = False, queue = False, crob_count = 1, onTimeMs = 100, offTimeMs = 0 \<rparr> 0 \<rparr>],
     control_header 41 2 True [\<lparr> item_index = 300, item_data = [1, 2, 0] \<rparr>]]"

theorem control_request_roundtrip_witness:
  "\<exists>r. parseRequest (0xC1 # 0x05 # concat (map header_bytes example_controls)) = Some r
     \<and> objects r = example_controls \<and> objectsComplete r \<and> func r = 5"
proof -
  have "list_all control_ok example_controls"
    unfolding example_controls_def
    by (simp, intro conjI control_okI)
      (simp_all add: commandObjectSize_def analogOutputObjectSize_def CROB_OBJECT_SIZE_def)
  from control_request_roundtrip [OF this, of "0xC1" "0x05"] show ?thesis by auto
qed

section \<open>The Class 0 read covers the static database\<close>

text \<open>What a run tells the master: group and variation, index and octets of each point.\<close>

definition run_points :: "static_run \<Rightarrow> ((nat \<times> nat) \<times> nat \<times> buffer) list" where
  "run_points r = map (\<lambda>(i, c). (gv r, i, c)) (zip [start r..<start r + length (run_chunks r)] (run_chunks r))"

definition run_ok :: "nat option \<Rightarrow> static_run \<Rightarrow> bool" where
  "run_ok maxB r \<longleftrightarrow>
     run_chunks r \<noteq> [] \<and> stop r + 1 = start r + length (run_chunks r)
     \<and> (wide r \<longleftrightarrow> start r > 255) \<and> (\<not> wide r \<longrightarrow> stop r \<le> 255)
     \<and> run_bytes r = length (concat (run_chunks r))
     \<and> (case maxB of None \<Rightarrow> True | Some m \<Rightarrow> length (encodeStaticRun r) \<le> max m 12)"

lemma length_encodeStaticRun:
  "length (encodeStaticRun r) = (if wide r then 7 else 5) + length (concat (run_chunks r))"
  by (simp add: encodeStaticRun_def buildObjectHeaderRange16_def buildObjectHeaderRange8_def Let_def del: length_concat)

lemma length_serializeStaticPoint: "length (snd (serializeStaticPoint p)) \<le> 5"
  by (auto simp: serializeStaticPoint_def Let_def split: point_type.splits)

lemma start_run_ok: "length (snd ser) \<le> 5 \<Longrightarrow> run_ok maxB (start_run i ser)"
  by (auto simp: run_ok_def start_run_def length_encodeStaticRun split: option.splits)

lemma extend_run_ok:
  "run_ok maxB r \<Longrightarrow> run_continues maxB r i ser \<Longrightarrow> run_ok maxB (extend_run r i ser)"
  by (auto simp: run_ok_def run_continues_def extend_run_def length_encodeStaticRun split: option.splits)

lemma run_points_start [simp]: "run_points (start_run i ser) = [(fst ser, i, snd ser)]"
  by (simp add: run_points_def start_run_def)

lemma run_points_extend:
  "run_ok maxB r \<Longrightarrow> run_continues maxB r i ser \<Longrightarrow> run_points (extend_run r i ser) = run_points r @ [(fst ser, i, snd ser)]"
  by (simp add: run_points_def extend_run_def run_ok_def run_continues_def prod_eq_iff)

definition static_points :: "point_map \<Rightarrow> point_def list \<Rightarrow> ((nat \<times> nat) \<times> nat \<times> buffer) list" where
  "static_points m ds = concat (map (\<lambda>d. case resolve (ptype d) (index d) m of None \<Rightarrow> []
     | Some p \<Rightarrow> [(fst (serializeStaticPoint p), index d, snd (serializeStaticPoint p))]) ds)"

lemma type_runs_points:
  "(case cur of None \<Rightarrow> True | Some r \<Rightarrow> run_ok maxB r) \<Longrightarrow>
     concat (map run_points (type_runs m maxB ds cur))
       = (case cur of None \<Rightarrow> [] | Some r \<Rightarrow> run_points r) @ static_points m ds
     \<and> list_all (run_ok maxB) (type_runs m maxB ds cur)"
proof (induction ds arbitrary: cur)
  case Nil
  then show ?case by (auto simp: static_points_def split: option.splits)
next
  case (Cons d ds)
  show ?case
  proof (cases "resolve (ptype d) (index d) m")
    case None
    with Cons show ?thesis by (simp add: static_points_def)
  next
    case (Some p)
    let ?ser = "serializeStaticPoint p"
    have new: "run_ok maxB (start_run (index d) ?ser)"
      by (rule start_run_ok) (rule length_serializeStaticPoint)
    note IH_new = Cons.IH [of "Some (start_run (index d) ?ser)"]
    show ?thesis
    proof (cases cur)
      case None
      with Some new IH_new show ?thesis by (simp add: static_points_def Let_def)
    next
      case (Some r)
      with Cons.prems have r: "run_ok maxB r" by simp
      show ?thesis
      proof (cases "run_continues maxB r (index d) ?ser")
        case True
        from extend_run_ok [OF r True] Cons.IH [of "Some (extend_run r (index d) ?ser)"]
        show ?thesis
          using True \<open>cur = Some r\<close> \<open>resolve (ptype d) (index d) m = Some p\<close> run_points_extend [OF r True]
          by (simp add: static_points_def Let_def)
      next
        case False
        then show ?thesis
          using new IH_new r \<open>cur = Some r\<close> \<open>resolve (ptype d) (index d) m = Some p\<close>
          by (simp add: static_points_def Let_def)
      qed
    qed
  qed
qed

text \<open>A Class 0 read reports the whole static database and nothing else, for every block limit. Read
  through their headers, the blocks give for each type in read order each mapped point exactly
  once, in index order, with its group, variation, index and octets; every header's range matches the
  number of points behind it, the short range form is used only for indices up to 255, and no block
  exceeds the limit unless a single point does.\<close>

theorem class0_complete:
  "concat (map run_points (class0_runs (reachable_point_map ops) maxB))
     = concat (map (\<lambda>t. map (\<lambda>d. let ser = serializeStaticPoint (the (resolve t (index d) (reachable_point_map ops)))
                              in (fst ser, index d, snd ser))
                     (pointsOfType t (reachable_point_map ops))) STATIC_READ_ORDER)
   \<and> buildClass0Blocks (reachable_point_map ops) maxB = map encodeStaticRun (class0_runs (reachable_point_map ops) maxB)
   \<and> list_all (run_ok maxB) (class0_runs (reachable_point_map ops) maxB)"
proof -
  let ?m = "reachable_point_map ops"
  have ptype: "ptype d = t" if "d \<in> set (pointsOfType t ?m)" for d t
    using that by (auto simp: pointsOfType_def)
  have res: "\<exists>s. resolve t (index d) ?m = Some \<lparr> def = d, sample = s \<rparr>" if "d \<in> set (pointsOfType t ?m)" for d t
    using that set_pointsOfType [OF reachable_point_map_inv [of ops], of t]
      point_map_invD(4) [OF reachable_point_map_inv [of ops]]
    by (fastforce simp: resolve_def getPoint_def)
  have sp: "static_points ?m (pointsOfType t ?m)
      = map (\<lambda>d. let ser = serializeStaticPoint (the (resolve t (index d) ?m)) in (fst ser, index d, snd ser))
          (pointsOfType t ?m)" for t
  proof -
    have "static_points ?m (pointsOfType t ?m) = concat (map (\<lambda>d. [let ser = serializeStaticPoint (the (resolve t (index d) ?m))
        in (fst ser, index d, snd ser)]) (pointsOfType t ?m))"
      unfolding static_points_def using ptype res
      by (intro arg_cong [where f = concat] map_cong refl) (fastforce simp: Let_def)
    then show ?thesis by simp
  qed
  have runs: "concat (map run_points (type_runs ?m maxB (pointsOfType t ?m) None)) = static_points ?m (pointsOfType t ?m)"
    "list_all (run_ok maxB) (type_runs ?m maxB (pointsOfType t ?m) None)" for t
    using type_runs_points [where cur = None and maxB = maxB and m = ?m and ds = "pointsOfType t ?m"]
    by simp_all
  show ?thesis
    unfolding class0_runs_def buildClass0Blocks_def STATIC_READ_ORDER_def
    using runs by (simp add: sp)
qed

text \<open>A block's header, read back from the wire, names the group, the variation and the index range.\<close>

lemma encodeStaticRun_wire:
  assumes "run_ok maxB r" "stop r < 65536" "fst (gv r) < 256" "snd (gv r) < 256"
  shows "let b = encodeStaticRun r; w = wide r in
    unat (b ! 0) = fst (gv r) \<and> unat (b ! 1) = snd (gv r) \<and> b ! 2 = (if w then 1 else 0)
    \<and> (if w then readUInt16LE b 3 else unat (b ! 3)) = start r
    \<and> (if w then readUInt16LE b 5 else unat (b ! 4)) = stop r
    \<and> drop (if w then 7 else 5) b = concat (run_chunks r)"
proof -
  have le: "start r \<le> stop r" using assms(1) by (cases "run_chunks r") (auto simp: run_ok_def)
  show ?thesis
  proof (cases "wide r")
    case True
    let ?h = "[of_nat (fst (gv r)), of_nat (snd (gv r)), 1] :: buffer"
    have b: "encodeStaticRun r = ?h @ le_bytes 2 (start r) @ le_bytes 2 (stop r) @ concat (run_chunks r)"
      using True by (simp add: encodeStaticRun_def buildObjectHeaderRange16_def)
    have "readUInt16LE (?h @ le_bytes 2 (start r) @ le_bytes 2 (stop r) @ concat (run_chunks r)) 3 = start r"
      using le assms(2) by (subst readUIntLE_append) (simp_all add: le_val_le_bytes)
    moreover have "readUInt16LE ((?h @ le_bytes 2 (start r)) @ le_bytes 2 (stop r) @ concat (run_chunks r)) 5 = stop r"
      using assms(2) by (subst readUIntLE_append) (simp_all add: le_val_le_bytes)
    ultimately show ?thesis using True assms(3,4) unfolding b by (simp add: Let_def numeral_3_eq_3)
  next
    case False
    then have "stop r \<le> 255" using assms(1) by (simp add: run_ok_def)
    with False le assms(3,4) show ?thesis
      by (simp add: encodeStaticRun_def buildObjectHeaderRange8_def Let_def)
  qed
qed

end
