(* ===== verification/Dnp3_Controls.thy ===== *)
theory Dnp3_Controls
  imports Dnp3_App "HOL-Library.Sublist"
begin

text \<open>
  The control processor of the outstation (\<open>Dnp3ControlProcessor\<close> of \<open>dnp3-outstation/controls.ts\<close>):
  decoding and validating command objects, select-before-operate, execution through the control
  sink and the echoed response.

  The sink is the embedder's function. It is a parameter \<open>sink\<close> acting on a plant state of any type:
  it accepts, refuses (with an optional status) or throws, and returns the plant state afterwards.
  \<open>None\<close> is the sink that was never installed. Sequence numbers and statuses are naturals, times are
  integral milliseconds.
\<close>

section \<open>Commands\<close>

datatype control_command =
    BinaryOutputCommand (cmd_group: nat) (cmd_variation: nat) (cmd_index: nat) (cmd_tagId: tag_id)
      (bin_value: bool) (cmd_crob: crob_fields)
  | AnalogOutputCommand (cmd_group: nat) (cmd_variation: nat) (cmd_index: nat) (cmd_tagId: tag_id)
      (ana_value: number)

datatype control_outcome = OutcomeOk | OutcomeRefused "nat option" | OutcomeThrows

type_synonym 'p control_sink = "'p \<Rightarrow> control_command \<Rightarrow> control_outcome \<times> 'p"

record control_config =
  enabled :: bool
  selectTimeoutMs :: int

definition DEFAULT_CONTROL_CONFIG :: control_config where
  "DEFAULT_CONTROL_CONFIG = \<lparr> enabled = False, selectTimeoutMs = 5000 \<rparr>"

record armed_select =
  armed_seq :: nat
  armedAt :: int
  digest :: buffer
  commands :: "control_command list"

record decoded_object =
  dec_header :: object_header
  dec_item :: prefixed_object
  command :: "control_command option"
  rejection :: "nat option"
  dec_iin :: u16

record control_state =
  armed :: "armed_select option"
  activeUntil :: "nat \<rightharpoonup> int"

definition new_control_state :: control_state where
  "new_control_state = \<lparr> armed = None, activeUntil = Map.empty \<rparr>"

record control_result =
  res_objects :: buffer
  res_iin :: u16
  res_statuses :: "nat list"
  executed :: "control_command list"

definition is_writable :: "control_config \<Rightarrow> 'p control_sink option \<Rightarrow> bool" where
  "is_writable cfg sink = (enabled cfg \<and> sink \<noteq> None)"

definition disarm :: "control_state \<Rightarrow> control_state" where
  "disarm st = st \<lparr> armed := None \<rparr>"

section \<open>Decoding\<close>

definition rejected :: "object_header \<Rightarrow> prefixed_object \<Rightarrow> nat \<Rightarrow> u16 \<Rightarrow> decoded_object" where
  "rejected h i status iin = \<lparr> dec_header = h, dec_item = i, command = None, rejection = Some status,
     dec_iin = iin \<rparr>"

definition accepted :: "object_header \<Rightarrow> prefixed_object \<Rightarrow> control_command \<Rightarrow> decoded_object" where
  "accepted h i c = \<lparr> dec_header = h, dec_item = i, command = Some c, rejection = None, dec_iin = 0 \<rparr>"

definition decodeObject :: "point_map \<Rightarrow> object_header \<Rightarrow> prefixed_object \<Rightarrow> decoded_object" where
  "decodeObject pm h i =
     (if hdr_group h = DNP3_GROUP BINARY_OUTPUT_COMMAND then
        (case decodeCrob (item_data i) of
           None \<Rightarrow> rejected h i (DNP3_COMMAND_STATUS FORMAT_ERROR) (DNP3_IIN PARAMETER_ERROR)
         | Some crob \<Rightarrow>
             if queue crob \<or> clear crob then rejected h i (DNP3_COMMAND_STATUS NOT_SUPPORTED) 0
             else (case crobValue crob of
                     None \<Rightarrow> rejected h i (DNP3_COMMAND_STATUS NOT_SUPPORTED) 0
                   | Some v \<Rightarrow>
                       (case getPoint binaryOutput (item_index i) pm of
                          None \<Rightarrow> rejected h i (DNP3_COMMAND_STATUS NOT_SUPPORTED) (DNP3_IIN OBJECT_UNKNOWN)
                        | Some d \<Rightarrow> accepted h i
                            (BinaryOutputCommand (hdr_group h) (hdr_variation h) (item_index i) (tagId d) v crob))))
      else
        (case decodeAnalogOutput (hdr_variation h) (item_data i) of
           None \<Rightarrow>
             (let known = (analogOutputObjectSize (hdr_variation h) \<noteq> None)
              in rejected h i
                   (if known then DNP3_COMMAND_STATUS FORMAT_ERROR else DNP3_COMMAND_STATUS NOT_SUPPORTED)
                   (if known then DNP3_IIN PARAMETER_ERROR else DNP3_IIN OBJECT_UNKNOWN))
         | Some v \<Rightarrow>
             (case getPoint analogOutput (item_index i) pm of
                None \<Rightarrow> rejected h i (DNP3_COMMAND_STATUS NOT_SUPPORTED) (DNP3_IIN OBJECT_UNKNOWN)
              | Some d \<Rightarrow> accepted h i
                  (AnalogOutputCommand (hdr_group h) (hdr_variation h) (item_index i) (tagId d) v))))"

definition zero_status :: "buffer \<Rightarrow> buffer" where
  "zero_status body = (if length body > 0 then body[length body - 1 := 0] else body)"

definition digest_part :: "decoded_object \<Rightarrow> buffer" where
  "digest_part d =
     [of_nat (hdr_group (dec_header d)), of_nat (hdr_variation (dec_header d))]
     @ writeUInt16LE (item_index (dec_item d)) @ zero_status (item_data (dec_item d))"

definition canonicalDigest :: "decoded_object list \<Rightarrow> buffer" where
  "canonicalDigest decoded = concat (map digest_part decoded)"

section \<open>Execution\<close>

text \<open>The function mapped over the decoded objects by \<open>execute\<close>, for one object. An object that is not
  rejected always has a command (\<open>decodeObject_cases\<close>), so the \<open>UNDEFINED\<close> branch is never taken.\<close>

definition busy :: "control_state \<Rightarrow> nat \<Rightarrow> int \<Rightarrow> bool" where
  "busy st idx now = (case activeUntil st idx of None \<Rightarrow> False | Some t \<Rightarrow> t > now)"

definition run_command :: "'p control_sink \<Rightarrow> int \<Rightarrow> control_command \<Rightarrow> control_state \<Rightarrow> 'p
    \<Rightarrow> nat \<times> control_state \<times> 'p" where
  "run_command sink now c st p =
     (case sink p c of
        (OutcomeThrows, p') \<Rightarrow> (DNP3_COMMAND_STATUS HARDWARE_ERROR, st, p')
      | (OutcomeRefused s, p') \<Rightarrow>
          ((case s of None \<Rightarrow> DNP3_COMMAND_STATUS HARDWARE_ERROR | Some n \<Rightarrow> n), st, p')
      | (OutcomeOk, p') \<Rightarrow>
          (DNP3_COMMAND_STATUS SUCCESS,
           (case c of
              BinaryOutputCommand _ _ idx _ _ crob \<Rightarrow>
                (let duration = pulseDurationMs crob
                 in if duration > 0 then st \<lparr> activeUntil := (activeUntil st)(idx \<mapsto> now + int duration) \<rparr>
                    else st \<lparr> activeUntil := (activeUntil st)(idx := None) \<rparr>)
            | AnalogOutputCommand _ _ _ _ _ \<Rightarrow> st),
           p'))"

definition execute_one :: "'p control_sink \<Rightarrow> int \<Rightarrow> decoded_object \<Rightarrow> control_state \<Rightarrow> 'p
    \<Rightarrow> nat \<times> control_state \<times> 'p" where
  "execute_one sink now d st p =
     (case rejection d of
        Some r \<Rightarrow> (r, st, p)
      | None \<Rightarrow>
          (case command d of
             None \<Rightarrow> (DNP3_COMMAND_STATUS UNDEFINED, st, p)
           | Some c \<Rightarrow>
               (case c of
                  BinaryOutputCommand _ _ idx _ _ crob \<Rightarrow>
                    if crob_count crob = 0 then (DNP3_COMMAND_STATUS SUCCESS, st, p)
                    else if busy st idx now then (DNP3_COMMAND_STATUS ALREADY_ACTIVE, st, p)
                    else run_command sink now c st p
                | AnalogOutputCommand _ _ _ _ _ \<Rightarrow> run_command sink now c st p)))"

primrec execute_all :: "'p control_sink \<Rightarrow> int \<Rightarrow> decoded_object list \<Rightarrow> control_state \<Rightarrow> 'p
    \<Rightarrow> nat list \<times> control_state \<times> 'p" where
  "execute_all sink now [] st p = ([], st, p)"
| "execute_all sink now (d # ds) st p =
     (case execute_one sink now d st p of
        (s, st', p') \<Rightarrow>
          (case execute_all sink now ds st' p' of (ss, st'', p'') \<Rightarrow> (s # ss, st'', p'')))"

definition execute :: "'p control_sink option \<Rightarrow> int \<Rightarrow> decoded_object list \<Rightarrow> control_state \<Rightarrow> 'p
    \<Rightarrow> nat list \<times> control_state \<times> 'p" where
  "execute sink now decoded st p =
     (case sink of
        None \<Rightarrow> (map (\<lambda>_. DNP3_COMMAND_STATUS NOT_SUPPORTED) decoded, st, p)
      | Some f \<Rightarrow> execute_all f now decoded st p)"

definition resolveStatuses :: "control_config \<Rightarrow> 'p control_sink option \<Rightarrow> parsed_request \<Rightarrow> decoded_object list
    \<Rightarrow> int \<Rightarrow> control_state \<Rightarrow> 'p \<Rightarrow> nat list \<times> control_state \<times> 'p" where
  "resolveStatuses cfg sink req decoded now st p =
     (if \<not> is_writable cfg sink then
        (map (\<lambda>_. DNP3_COMMAND_STATUS NOT_SUPPORTED) decoded, st \<lparr> armed := None \<rparr>, p)
      else if func req = DNP3_FUNCTION SELECT then
        (if list_ex (\<lambda>d. rejection d \<noteq> None) decoded then
           (map (\<lambda>d. case rejection d of None \<Rightarrow> DNP3_COMMAND_STATUS SUCCESS | Some r \<Rightarrow> r) decoded,
            st \<lparr> armed := None \<rparr>, p)
         else
           (map (\<lambda>_. DNP3_COMMAND_STATUS SUCCESS) decoded,
            st \<lparr> armed := Some \<lparr> armed_seq = req_seq req, armedAt = now, digest = canonicalDigest decoded,
                    commands = map (\<lambda>d. the (command d)) decoded \<rparr> \<rparr>, p))
      else if func req = DNP3_FUNCTION OPERATE then
        (case armed st of
           None \<Rightarrow> (map (\<lambda>_. DNP3_COMMAND_STATUS NO_SELECT) decoded, st, p)
         | Some a \<Rightarrow>
             (let st = st \<lparr> armed := None \<rparr>
              in if \<not> (armed_seq a = (req_seq req + 15) mod 16 \<and> digest a = canonicalDigest decoded)
                 then (map (\<lambda>_. DNP3_COMMAND_STATUS NO_SELECT) decoded, st, p)
                 else if now - armedAt a > selectTimeoutMs cfg
                 then (map (\<lambda>_. DNP3_COMMAND_STATUS TIMEOUT) decoded, st, p)
                 else execute sink now decoded st p))
      else execute sink now decoded (st \<lparr> armed := None \<rparr>) p)"

section \<open>The echo\<close>

definition echoBody :: "object_header \<Rightarrow> prefixed_object \<Rightarrow> decoded_object option \<Rightarrow> nat \<Rightarrow> buffer option" where
  "echoBody h i d status =
     (case (case d of None \<Rightarrow> None | Some d \<Rightarrow> command d) of
        Some (BinaryOutputCommand _ _ _ _ _ crob) \<Rightarrow> Some (encodeCrob crob status)
      | Some (AnalogOutputCommand _ _ _ _ v) \<Rightarrow> encodeAnalogOutput (hdr_variation h) v status
      | None \<Rightarrow>
          if length (item_data i) = 0 then Some []
          else Some ((item_data i)[length (item_data i) - 1 := of_nat status]))"

text \<open>The items of one header; the cursor into \<open>decoded\<close> and \<open>statuses\<close> is the remaining lists.\<close>

primrec echo_items :: "object_header \<Rightarrow> bool \<Rightarrow> prefixed_object list \<Rightarrow> decoded_object list \<Rightarrow> nat list
    \<Rightarrow> (buffer \<times> decoded_object list \<times> nat list) option" where
  "echo_items h two [] ds ss = Some ([], ds, ss)"
| "echo_items h two (i # is) ds ss =
     (let d = (case ds of [] \<Rightarrow> None | d # _ \<Rightarrow> Some d);
          status = (case ss of [] \<Rightarrow> DNP3_COMMAND_STATUS UNDEFINED | s # _ \<Rightarrow> s)
      in case (write_field two (item_index i), echoBody h i d status) of
           (Some pre, Some body) \<Rightarrow>
             (case echo_items h two is (tl ds) (tl ss) of
                None \<Rightarrow> None
              | Some (rest, ds', ss') \<Rightarrow> Some (pre @ body @ rest, ds', ss'))
         | _ \<Rightarrow> None)"

primrec echo :: "object_header list \<Rightarrow> decoded_object list \<Rightarrow> nat list \<Rightarrow> buffer option" where
  "echo [] ds ss = Some []"
| "echo (h # hs) ds ss =
     (case items h of
        None \<Rightarrow> echo hs ds ss
      | Some is \<Rightarrow>
          if is = [] then echo hs ds ss
          else (let two = (qualifier h AND 0xf0 = 0x20)
                in case write_field two (length is) of
                     None \<Rightarrow> None
                   | Some cnt \<Rightarrow>
                       (case echo_items h two is ds ss of
                          None \<Rightarrow> None
                        | Some (body, ds', ss') \<Rightarrow>
                            (case echo hs ds' ss' of
                               None \<Rightarrow> None
                             | Some rest \<Rightarrow>
                                 Some ([of_nat (hdr_group h), of_nat (hdr_variation h), qualifier h]
                                       @ cnt @ body @ rest)))))"

section \<open>Processing a request\<close>

definition decode_header :: "point_map \<Rightarrow> object_header \<Rightarrow> decoded_object list" where
  "decode_header pm h = (case items h of None \<Rightarrow> [] | Some is \<Rightarrow> map (decodeObject pm h) is)"

definition header_iin :: "point_map \<Rightarrow> object_header \<Rightarrow> u16 \<Rightarrow> u16" where
  "header_iin pm h iin =
     (case items h of None \<Rightarrow> iin OR DNP3_IIN PARAMETER_ERROR
      | Some _ \<Rightarrow> fold (\<lambda>d iin. iin OR dec_iin d) (decode_header pm h) iin)"

text \<open>The result is \<open>None\<close> when building the echo throws; the state changes made before stay.\<close>

definition process :: "point_map \<Rightarrow> control_config \<Rightarrow> 'p control_sink option \<Rightarrow> parsed_request \<Rightarrow> int
    \<Rightarrow> control_state \<Rightarrow> 'p \<Rightarrow> control_result option \<times> control_state \<times> 'p" where
  "process pm cfg sink req now st p =
     (let controlHeaders = filter (\<lambda>o'. isControlGroup (hdr_group o')) (objects req)
      in if controlHeaders = [] then
           (Some \<lparr> res_objects = [], res_iin = DNP3_IIN PARAMETER_ERROR, res_statuses = [], executed = [] \<rparr>, st, p)
         else
           (let decoded = concat (map (decode_header pm) controlHeaders);
                iin = fold (header_iin pm) controlHeaders 0
            in if decoded = [] then
                 (Some \<lparr> res_objects = [], res_iin = iin, res_statuses = [], executed = [] \<rparr>, st, p)
               else
                 (case resolveStatuses cfg sink req decoded now st p of
                    (statuses, st', p') \<Rightarrow>
                      (let exec = concat (map (\<lambda>(d, s). if s = DNP3_COMMAND_STATUS SUCCESS
                                        then (case command d of None \<Rightarrow> [] | Some c \<Rightarrow> [c]) else [])
                                      (zip decoded statuses))
                       in ((case echo controlHeaders decoded statuses of
                              None \<Rightarrow> None
                            | Some objs \<Rightarrow> Some \<lparr> res_objects = objs, res_iin = iin, res_statuses = statuses,
                                executed = (if func req = DNP3_FUNCTION SELECT then [] else exec) \<rparr>),
                           st', p')))))"


section \<open>Who may move the plant\<close>

lemma decodeObject_cases:
  "(\<exists>c. command (decodeObject pm h i) = Some c \<and> rejection (decodeObject pm h i) = None)
   \<or> (\<exists>s. command (decodeObject pm h i) = None \<and> rejection (decodeObject pm h i) = Some s)"
  by (auto simp: decodeObject_def accepted_def rejected_def Let_def split: option.splits)

lemma decodeObject_fields [simp]:
  "dec_header (decodeObject pm h i) = h" "dec_item (decodeObject pm h i) = i"
  by (auto simp: decodeObject_def accepted_def rejected_def Let_def split: option.splits)

definition apply_sink :: "'p control_sink \<Rightarrow> control_command list \<Rightarrow> 'p \<Rightarrow> 'p" where
  "apply_sink f cs p = fold (\<lambda>c p. snd (f p c)) cs p"

text \<open>A command may be handed to the sink: not a count of zero, not a point whose pulse still runs.\<close>

definition may_run :: "control_state \<Rightarrow> int \<Rightarrow> control_command \<Rightarrow> bool" where
  "may_run st now c =
     (case c of BinaryOutputCommand _ _ idx _ _ crob \<Rightarrow> crob_count crob \<noteq> 0 \<and> \<not> busy st idx now
      | AnalogOutputCommand _ _ _ _ _ \<Rightarrow> True)"

definition object_commands :: "decoded_object list \<Rightarrow> control_command list" where
  "object_commands ds = concat (map (\<lambda>d. case command d of None \<Rightarrow> [] | Some c \<Rightarrow> [c]) ds)"

lemma run_command_simps:
  "snd (snd (run_command f now c st p)) = snd (f p c)"
  "armed (fst (snd (run_command f now c st p))) = armed st"
  by (auto simp: run_command_def Let_def split: prod.splits control_outcome.splits control_command.splits)

text \<open>A point that was busy stays busy: only a command for the point itself could end its pulse.\<close>

lemma run_command_busy:
  assumes "may_run st now c" "busy st idx now"
  shows "busy (fst (snd (run_command f now c st p))) idx now"
  using assms
  by (auto simp: run_command_def may_run_def busy_def Let_def
      split: prod.splits control_outcome.splits control_command.splits)

lemma execute_one_cases:
  obtains (skip) s where "execute_one f now d st p = (s, st, p)"
  | (run) c where "command d = Some c" "rejection d = None" "may_run st now c"
      "execute_one f now d st p = run_command f now c st p"
proof (cases "rejection d")
  case None
  show ?thesis
  proof (cases "command d")
    case c: (Some c)
    show ?thesis
    proof (cases "may_run st now c")
      case True
      then have "execute_one f now d st p = run_command f now c st p"
        by (cases c) (auto simp: execute_one_def None c may_run_def)
      with None c True show ?thesis by (intro run) auto
    next
      case False
      then have "\<exists>s. execute_one f now d st p = (s, st, p)"
        by (cases c) (auto simp: execute_one_def None c may_run_def)
      then show ?thesis using skip by blast
    qed
  qed (use None skip in \<open>simp add: execute_one_def\<close>)
qed (use skip in \<open>simp add: execute_one_def\<close>)

lemma execute_all_trace:
  assumes "execute_all f now ds st p = (ss, st', p')"
  shows "(\<exists>cs. p' = apply_sink f cs p \<and> subseq cs (object_commands ds) \<and> list_all (may_run st now) cs)
    \<and> armed st' = armed st \<and> length ss = length ds"
  using assms
proof (induction ds arbitrary: st p ss)
  case Nil
  then show ?case by (auto simp: apply_sink_def intro!: exI [of _ "[]"])
next
  case (Cons d ds)
  obtain s st1 p1 where one: "execute_one f now d st p = (s, st1, p1)" using prod_cases3 by blast
  obtain ss' where rest: "execute_all f now ds st1 p1 = (ss', st', p')" and ss: "ss = s # ss'"
    using Cons.prems by (auto simp: one split: prod.splits)
  from Cons.IH [OF rest] obtain cs where cs: "p' = apply_sink f cs p1" "subseq cs (object_commands ds)"
    "list_all (may_run st1 now) cs" and st': "armed st' = armed st1" "length ss' = length ds" by blast
  have obj: "object_commands (d # ds) = (case command d of None \<Rightarrow> [] | Some c \<Rightarrow> [c]) @ object_commands ds"
    by (simp add: object_commands_def)
  show ?case
  proof (cases rule: execute_one_cases [of f now d st p])
    case (skip s')
    with one cs st' ss show ?thesis
      by (auto simp: obj intro!: exI [of _ cs] list_emb_append2)
  next
    case (run c)
    have rc: "run_command f now c st p = (s, st1, p1)" using one run(4) by simp
    have "p1 = snd (f p c)" "armed st1 = armed st"
      using run_command_simps [of f now c st p] by (simp_all add: rc)
    moreover have "list_all (may_run st now) cs"
    proof -
      have "may_run st now x" if "may_run st1 now x" for x
        using that run_command_busy [OF run(3), of _ f p] rc
        by (auto simp: may_run_def split: control_command.splits)
      with cs(3) show ?thesis by (auto simp: list_all_iff)
    qed
    ultimately show ?thesis
      using run cs st' ss by (auto simp: obj apply_sink_def intro!: exI [of _ "c # cs"])
  qed
qed

definition request_decoded :: "point_map \<Rightarrow> parsed_request \<Rightarrow> decoded_object list" where
  "request_decoded pm req =
     concat (map (decode_header pm) (filter (\<lambda>h. isControlGroup (hdr_group h)) (objects req)))"

definition request_commands :: "point_map \<Rightarrow> parsed_request \<Rightarrow> control_command list" where
  "request_commands pm req = object_commands (request_decoded pm req)"

lemma process_resolve:
  "snd (process pm cfg sink req now st p) =
     (if request_decoded pm req = [] then (st, p)
      else snd (resolveStatuses cfg sink req (request_decoded pm req) now st p))"
  by (cases "filter (\<lambda>h. isControlGroup (hdr_group h)) (objects req) = []")
    (simp_all add: process_def request_decoded_def Let_def split: prod.splits del: filter_empty_conv concat_eq_Nil_conv)

text \<open>The conditions under which a request may reach the sink.\<close>

definition authorised :: "control_config \<Rightarrow> 'p control_sink option \<Rightarrow> parsed_request \<Rightarrow> decoded_object list
    \<Rightarrow> int \<Rightarrow> control_state \<Rightarrow> bool" where
  "authorised cfg sink req ds now st \<longleftrightarrow>
     enabled cfg \<and> sink \<noteq> None \<and> func req \<noteq> DNP3_FUNCTION SELECT
     \<and> (func req = DNP3_FUNCTION OPERATE \<longrightarrow>
          (\<exists>a. armed st = Some a \<and> armed_seq a = (req_seq req + 15) mod 16
             \<and> digest a = canonicalDigest ds \<and> now - armedAt a \<le> selectTimeoutMs cfg))"

lemma resolve_trace:
  assumes "resolveStatuses cfg sink req ds now st p = (ss, st', p')"
  shows "(\<not> authorised cfg sink req ds now st \<longrightarrow> p' = p)
    \<and> (authorised cfg sink req ds now st \<longrightarrow>
         (\<exists>cs. p' = apply_sink (the sink) cs p \<and> subseq cs (object_commands ds) \<and> list_all (may_run st now) cs))
    \<and> (func req \<noteq> DNP3_FUNCTION SELECT \<longrightarrow> armed st' = None)
    \<and> length ss = length ds"
proof (cases "authorised cfg sink req ds now st")
  case False
  with assms show ?thesis
    by (auto simp: resolveStatuses_def authorised_def is_writable_def Let_def split: if_splits option.splits)
next
  case True
  then obtain f where f: "sink = Some f" and w: "is_writable cfg sink" and ns: "func req \<noteq> DNP3_FUNCTION SELECT"
    by (auto simp: authorised_def is_writable_def)
  have "execute_all f now ds (st \<lparr> armed := None \<rparr>) p = (ss, st', p')"
    using assms True w ns f
    by (auto simp: resolveStatuses_def authorised_def execute_def Let_def split: if_splits)
  from execute_all_trace [OF this] obtain cs where "p' = apply_sink f cs p" "subseq cs (object_commands ds)"
    "list_all (may_run (st \<lparr> armed := None \<rparr>) now) cs" "armed st' = None" "length ss = length ds" by auto
  moreover have "may_run (st \<lparr> armed := None \<rparr>) now = may_run st now"
    by (auto simp: may_run_def busy_def fun_eq_iff split: control_command.splits)
  ultimately show ?thesis using True f by auto
qed

lemma plant_moves:
  assumes "process pm cfg sink req now st p = (res, st', p')"
  shows "(p' \<noteq> p \<longrightarrow> authorised cfg sink req (request_decoded pm req) now st)
    \<and> (\<exists>cs. p' = apply_sink (the sink) cs p \<and> subseq cs (request_commands pm req) \<and> list_all (may_run st now) cs)
    \<and> (func req \<noteq> DNP3_FUNCTION SELECT \<and> request_decoded pm req \<noteq> [] \<longrightarrow> armed st' = None)"
proof (cases "request_decoded pm req = []")
  case True
  with assms process_resolve [of pm cfg sink req now st p] show ?thesis
    by (auto simp: apply_sink_def intro!: exI [of _ "[]"])
next
  case False
  obtain ss where r: "resolveStatuses cfg sink req (request_decoded pm req) now st p = (ss, st', p')"
    using assms process_resolve [of pm cfg sink req now st p] False
    by (cases "resolveStatuses cfg sink req (request_decoded pm req) now st p") auto
  note R = resolve_trace [OF r]
  show ?thesis
  proof (cases "authorised cfg sink req (request_decoded pm req) now st")
    case True
    with R show ?thesis by (auto simp: request_commands_def)
  next
    case nauth: False
    with R have "p' = p" by blast
    then have "p' = apply_sink (the sink) [] p" by (simp add: apply_sink_def)
    moreover have "subseq [] (request_commands pm req)" "list_all (may_run st now) []" by simp_all
    ultimately show ?thesis using R \<open>p' = p\<close> by blast
  qed
qed

text \<open>C9: The control path is fail-closed. Whatever request arrives, the plant state changes only by the
  sink being given commands of that request, in order, and only if controls are enabled, a sink is
  installed, the function is not SELECT, and an OPERATE finds an armed selection with the preceding
  sequence number, the same objects and an age within the timeout. Commands with a count of zero and
  commands for an output whose pulse is still running are not among them. After anything but a SELECT
  no selection is left armed, so one selection serves at most one OPERATE.\<close>

theorem plant_moves_only_when_authorised:
  assumes "process pm cfg sink req now st p = (res, st', p')"
  shows "(p' \<noteq> p \<longrightarrow> authorised cfg sink req (request_decoded pm req) now st)
    \<and> (\<exists>cs. p' = apply_sink (the sink) cs p \<and> subseq cs (request_commands pm req) \<and> list_all (may_run st now) cs)
    \<and> (func req \<noteq> DNP3_FUNCTION SELECT \<and> request_decoded pm req \<noteq> [] \<longrightarrow> armed st' = None)"
  using plant_moves [OF assms] .


section \<open>OPERATE performs what was SELECTed\<close>

text \<open>An object with the octets its group and variation require, as the parser delivers it.\<close>

definition sized :: "decoded_object \<Rightarrow> bool" where
  "sized d \<longleftrightarrow> commandObjectSize (hdr_group (dec_header d)) (hdr_variation (dec_header d))
       = Some (length (item_data (dec_item d)))
     \<and> item_index (dec_item d) < 65536"

definition selection_key :: "decoded_object \<Rightarrow> nat \<times> nat \<times> nat \<times> buffer" where
  "selection_key d = (hdr_group (dec_header d), hdr_variation (dec_header d), item_index (dec_item d),
     zero_status (item_data (dec_item d)))"

lemma commandObjectSize_bounds:
  "commandObjectSize g v = Some n \<Longrightarrow> g < 256 \<and> v < 256 \<and> 0 < n"
  by (auto simp: commandObjectSize_def analogOutputObjectSize_def CROB_OBJECT_SIZE_def split: if_splits)

lemma length_zero_status [simp]: "length (zero_status b) = length b"
  by (simp add: zero_status_def)

lemma of_nat_byte_eq: "a < 256 \<Longrightarrow> b < 256 \<Longrightarrow> (of_nat a :: byte) = of_nat b \<longleftrightarrow> a = b"
  by (metis mod_less unat_of_nat_byte)

lemma digest_part_inject:
  assumes "sized d" "sized e" "digest_part d @ xs = digest_part e @ ys"
  shows "selection_key d = selection_key e \<and> xs = ys"
proof -
  let ?g = "\<lambda>d. hdr_group (dec_header d)" and ?v = "\<lambda>d. hdr_variation (dec_header d)"
  have b: "?g d < 256" "?g e < 256" "?v d < 256" "?v e < 256"
    using assms(1,2) commandObjectSize_bounds by (auto simp: sized_def)
  from assms(3) b have gv: "?g d = ?g e" "?v d = ?v e"
    by (simp_all add: digest_part_def of_nat_byte_eq)
  have r: "writeUInt16LE (item_index (dec_item d)) @ zero_status (item_data (dec_item d)) @ xs
      = writeUInt16LE (item_index (dec_item e)) @ zero_status (item_data (dec_item e)) @ ys"
    using assms(3) by (simp add: digest_part_def)
  then have i: "writeUInt16LE (item_index (dec_item d)) = writeUInt16LE (item_index (dec_item e))"
    and rest: "zero_status (item_data (dec_item d)) @ xs = zero_status (item_data (dec_item e)) @ ys"
    by (simp_all del: le_bytes.simps)
  have "length (item_data (dec_item d)) = length (item_data (dec_item e))"
    using assms(1,2) gv by (simp add: sized_def)
  with rest have "zero_status (item_data (dec_item d)) = zero_status (item_data (dec_item e))" "xs = ys"
    by simp_all
  moreover have "item_index (dec_item d) = item_index (dec_item e)"
    using i assms(1,2) le_bytes_inject [of _ 2] by (simp add: sized_def)
  ultimately show ?thesis using gv by (simp add: selection_key_def)
qed

lemma canonicalDigest_inject:
  "list_all sized ds \<Longrightarrow> list_all sized es \<Longrightarrow> canonicalDigest ds = canonicalDigest es \<Longrightarrow>
     map selection_key ds = map selection_key es"
proof (induction ds arbitrary: es)
  case Nil
  then show ?case by (cases es) (auto simp: canonicalDigest_def digest_part_def)
next
  case (Cons d ds)
  then obtain e es' where es: "es = e # es'" by (cases es) (auto simp: canonicalDigest_def digest_part_def)
  with Cons.prems digest_part_inject [of d e "canonicalDigest ds" "canonicalDigest es'"]
  have "selection_key d = selection_key e" "canonicalDigest ds = canonicalDigest es'"
    by (simp_all add: canonicalDigest_def)
  with Cons es show ?case by simp
qed

lemma decodeCrob_zero: "decodeCrob (zero_status b) = decodeCrob b"
  by (auto simp: decodeCrob_def zero_status_def CROB_OBJECT_SIZE_def readUIntLE_def Let_def
      drop_update_swap take_update_cancel)

lemma decodeAnalogOutput_zero: "decodeAnalogOutput v (zero_status b) = decodeAnalogOutput v b"
  by (auto simp: decodeAnalogOutput_def analogOutputObjectSize_def zero_status_def readInt32LE_def
      readInt16LE_def readFloatLE_def readDoubleLE_def readUIntLE_def take_update_cancel)

text \<open>The command an object decodes to is a function of its selection key.\<close>

lemma decodeObject_key:
  assumes "selection_key (decodeObject pm h i) = selection_key (decodeObject pm h' i')"
  shows "command (decodeObject pm h i) = command (decodeObject pm h' i')"
proof -
  from assms have eq: "hdr_group h = hdr_group h'" "hdr_variation h = hdr_variation h'" "item_index i = item_index i'"
    "zero_status (item_data i) = zero_status (item_data i')"
    by (simp_all add: selection_key_def)
  then have "decodeCrob (item_data i) = decodeCrob (item_data i')"
    "decodeAnalogOutput (hdr_variation h) (item_data i) = decodeAnalogOutput (hdr_variation h) (item_data i')"
    by (metis decodeCrob_zero) (metis eq(4) decodeAnalogOutput_zero)
  with eq show ?thesis
    by (auto simp: decodeObject_def accepted_def rejected_def Let_def split: option.splits)
qed

lemma request_decoded_form:
  "d \<in> set (request_decoded pm req) \<Longrightarrow> \<exists>h i. d = decodeObject pm h i"
  by (auto simp: request_decoded_def decode_header_def split: option.splits)

lemma request_decoded_sized:
  assumes "parseRequest f = Some r" "objectsComplete r"
  shows "list_all sized (request_decoded pm r)"
proof -
  have "sized (decodeObject pm h i)" if "h \<in> set (objects r)" "items h = Some is" "i \<in> set is" for h i "is"
  proof -
    have "items_sized h" using parse_complete_exact_sized [OF assms] that(1) by (simp add: list_all_iff)
    with that(2,3) show ?thesis by (auto simp: items_sized_def sized_def list_all_iff split: option.splits)
  qed
  then show ?thesis
    by (auto simp: list_all_iff request_decoded_def decode_header_def split: option.splits) metis
qed

lemma same_selection_same_commands:
  assumes "map selection_key (request_decoded pm r1) = map selection_key (request_decoded pm r2)"
  shows "request_commands pm r1 = request_commands pm r2"
proof -
  have "map command (request_decoded pm r1) = map command (request_decoded pm r2)"
    using assms by (rule map_determined) (metis decodeObject_key request_decoded_form)
  then have "concat (map (case_option [] (\<lambda>c. [c])) (map command (request_decoded pm r1)))
      = concat (map (case_option [] (\<lambda>c. [c])) (map command (request_decoded pm r2)))"
    by (simp only:)
  then show ?thesis by (simp add: request_commands_def object_commands_def comp_def)
qed

text \<open>
  What happens to the control processor over time: requests are processed, and closed associations and restarts disarm it.
  A request is \<open>received\<close> when it is a parsed fragment whose objects are complete; one without decodable control objects
  leaves an armed selection in place.
\<close>

datatype control_event = Processed parsed_request int | Disarmed

primrec control_step :: "point_map \<Rightarrow> control_config \<Rightarrow> 'p control_sink option \<Rightarrow> control_event
    \<Rightarrow> control_state \<times> 'p \<Rightarrow> control_state \<times> 'p" where
  "control_step pm cfg sink (Processed r t) sp = snd (process pm cfg sink r t (fst sp) (snd sp))"
| "control_step pm cfg sink Disarmed sp = (disarm (fst sp), snd sp)"

definition control_run :: "point_map \<Rightarrow> control_config \<Rightarrow> 'p control_sink option \<Rightarrow> control_event list \<Rightarrow> 'p
    \<Rightarrow> control_state \<times> 'p" where
  "control_run pm cfg sink hist p = fold (control_step pm cfg sink) hist (new_control_state, p)"

definition received :: "parsed_request \<Rightarrow> bool" where
  "received r \<longleftrightarrow> (\<exists>f. parseRequest f = Some r) \<and> objectsComplete r"

primrec received_event :: "control_event \<Rightarrow> bool" where
  "received_event (Processed r t) = received r"
| "received_event Disarmed = True"

primrec idle_event :: "point_map \<Rightarrow> control_event \<Rightarrow> bool" where
  "idle_event pm (Processed r t) = (request_decoded pm r = [])"
| "idle_event pm Disarmed = False"

text \<open>The event \<open>(r, t)\<close> armed the selection \<open>a\<close>.\<close>

definition arms :: "point_map \<Rightarrow> parsed_request \<Rightarrow> int \<Rightarrow> armed_select \<Rightarrow> bool" where
  "arms pm r t a \<longleftrightarrow> func r = DNP3_FUNCTION SELECT \<and> request_decoded pm r \<noteq> []
     \<and> list_all (\<lambda>d. rejection d = None) (request_decoded pm r)
     \<and> armed_seq a = req_seq r \<and> armedAt a = t \<and> digest a = canonicalDigest (request_decoded pm r)"

lemma process_arms:
  assumes "armed (fst (control_step pm cfg sink ev (st, p))) = Some a"
  shows "(idle_event pm ev \<and> armed st = Some a) \<or> (\<exists>r t. ev = Processed r t \<and> arms pm r t a)"
proof (cases ev)
  case (Processed r t)
  show ?thesis
  proof (cases "request_decoded pm r = []")
    case True
    then show ?thesis using assms Processed process_resolve [of pm cfg sink r t st p] by simp
  next
    case False
    obtain res st' p' where pr: "process pm cfg sink r t st p = (res, st', p')" by (metis prod_cases3)
    then have "armed st' = Some a" using assms Processed by simp
    then have "func r = DNP3_FUNCTION SELECT" using plant_moves [OF pr] False by auto
    then show ?thesis
      using False assms Processed process_resolve [of pm cfg sink r t st p]
      by (auto simp: arms_def resolveStatuses_def list_all_iff list_ex_iff split: if_splits)
  qed
qed (use assms in \<open>simp add: disarm_def\<close>)

lemma control_run_snoc: "control_run pm cfg sink (hist @ [ev]) p = control_step pm cfg sink ev (control_run pm cfg sink hist p)"
  by (simp add: control_run_def)

lemma armed_by_select:
  assumes "armed (fst (control_run pm cfg sink hist p)) = Some a"
  obtains earlier r t quiet where "hist = earlier @ Processed r t # quiet" "arms pm r t a" "list_all (idle_event pm) quiet"
  using assms
proof (induction hist arbitrary: thesis rule: rev_induct)
  case Nil
  then show ?case by (simp add: control_run_def new_control_state_def)
next
  case (snoc ev hist)
  obtain st q where st: "control_run pm cfg sink hist p = (st, q)" by fastforce
  from snoc.prems(2) have "armed (fst (control_step pm cfg sink ev (st, q))) = Some a" by (simp add: control_run_snoc st)
  from process_arms [OF this] show ?case
  proof
    assume h: "idle_event pm ev \<and> armed st = Some a"
    then obtain earlier r t quiet where "hist = earlier @ Processed r t # quiet" "arms pm r t a" "list_all (idle_event pm) quiet"
      using snoc.IH st by (metis fst_conv)
    with h snoc.prems(1) [of earlier r t "quiet @ [ev]"] show ?thesis by simp
  next
    assume "\<exists>r t. ev = Processed r t \<and> arms pm r t a"
    with snoc.prems(1) [of hist _ _ "[]"] show ?thesis by auto
  qed
qed

lemma select_moves_nothing:
  "func r = DNP3_FUNCTION SELECT \<Longrightarrow> snd (control_step pm cfg sink (Processed r t) sp) = snd sp"
  using plant_moves [of pm cfg sink r t "fst sp" "snd sp"]
  by (cases "process pm cfg sink r t (fst sp) (snd sp)") (auto simp: authorised_def)

text \<open>C10: Select-before-operate holds end to end, from the octets on and over any history of requests and disarming events
  since the start. If an OPERATE moves the plant, then the history holds a SELECT that moved nothing and in which no object was
  rejected, the OPERATE asks for exactly the commands that were selected, each for the same group, variation, point, tag and
  value, its sequence number is the SELECT's plus one modulo 16, and no more time than the timeout has passed. Nothing came
  between them but requests without a decodable control object: every other request, a closed association and a restart end
  the selection.\<close>

theorem operate_performs_selection:
  assumes "list_all received_event hist" "control_run pm cfg sink hist p\<^sub>0 = (st, p)"
    and "received r2" "func r2 = DNP3_FUNCTION OPERATE"
    and "process pm cfg sink r2 t2 st p = (res, st', p')" "p' \<noteq> p"
  shows "\<exists>earlier r1 t1 quiet. hist = earlier @ Processed r1 t1 # quiet \<and> func r1 = DNP3_FUNCTION SELECT
    \<and> snd (control_run pm cfg sink (earlier @ [Processed r1 t1]) p\<^sub>0) = snd (control_run pm cfg sink earlier p\<^sub>0)
    \<and> list_all (\<lambda>d. rejection d = None) (request_decoded pm r1)
    \<and> request_commands pm r2 = request_commands pm r1
    \<and> req_seq r1 = (req_seq r2 + 15) mod 16 \<and> t2 - t1 \<le> selectTimeoutMs cfg
    \<and> list_all (idle_event pm) quiet"
proof -
  from plant_moves [OF assms(5)] assms(4,6)
  obtain a where a: "armed st = Some a" "armed_seq a = (req_seq r2 + 15) mod 16"
    "digest a = canonicalDigest (request_decoded pm r2)" "t2 - armedAt a \<le> selectTimeoutMs cfg"
    by (auto simp: authorised_def)
  then have "armed (fst (control_run pm cfg sink hist p\<^sub>0)) = Some a" using assms(2) by simp
  then obtain earlier r1 t1 quiet where h: "hist = earlier @ Processed r1 t1 # quiet" "arms pm r1 t1 a"
    "list_all (idle_event pm) quiet" by (rule armed_by_select)
  have "received r1" using assms(1) h(1) by simp
  then have "map selection_key (request_decoded pm r1) = map selection_key (request_decoded pm r2)"
    using canonicalDigest_inject [of "request_decoded pm r1" "request_decoded pm r2"] assms(3) a(3) h(2)
    by (auto simp: received_def arms_def dest: request_decoded_sized)
  then have "request_commands pm r2 = request_commands pm r1" using same_selection_same_commands by metis
  with h a show ?thesis
    by (intro exI [of _ earlier] exI [of _ r1] exI [of _ t1] exI [of _ quiet])
      (simp add: arms_def control_run_snoc select_moves_nothing del: control_step.simps)
qed

definition example_point :: point_def where
  "example_point = \<lparr> tagId = ''pump'', ptype = binaryOutput, index = 3, description = None,
     eventClass = None, encoding = None, deadband = None, scale = None, writable = True \<rparr>"

definition example_map :: point_map where
  "example_map = (case addPoint example_point empty_point_map of Inr m \<Rightarrow> m | Inl _ \<Rightarrow> empty_point_map)"

definition example_config :: control_config where
  "example_config = \<lparr> enabled = True, selectTimeoutMs = 5000 \<rparr>"

text \<open>A plant that records the commands it is given.\<close>

definition log_sink :: "control_command list control_sink" where
  "log_sink p c = (OutcomeOk, p @ [c])"

definition latch_on :: "object_header list" where
  "latch_on = [control_header 12 1 False [\<lparr> item_index = 3, item_data = [3, 1, 100, 0, 0, 0, 0, 0, 0, 0, 0] \<rparr>]]"

definition latch_command :: control_command where
  "latch_command = BinaryOutputCommand 12 1 3 ''pump'' True
     \<lparr> opType = 3, tcc = 0, clear = False, queue = False, crob_count = 1, onTimeMs = 100, offTimeMs = 0 \<rparr>"

lemma latch_on_ok: "list_all control_ok latch_on"
  unfolding latch_on_def
  by (simp, intro control_okI) (simp_all add: commandObjectSize_def CROB_OBJECT_SIZE_def)

lemma latch_on_decoded:
  assumes "objects r = latch_on"
  shows "request_decoded example_map r = [accepted (hd latch_on)
      \<lparr> item_index = 3, item_data = [3, 1, 100, 0, 0, 0, 0, 0, 0, 0, 0] \<rparr> latch_command]"
proof -
  have crob: "decodeCrob [3, 1, 100, 0, 0, 0, 0, 0, 0, 0, 0] = Some \<lparr> opType = 3, tcc = 0, clear = False, queue = False,
      crob_count = 1, onTimeMs = 100, offTimeMs = 0 \<rparr>"
    by (simp add: decodeCrob_def CROB_OBJECT_SIZE_def crob_masks readUIntLE_def Let_def)
  have pt: "getPoint binaryOutput 3 example_map = Some example_point"
    by (simp add: getPoint_def example_map_def addPoint_def example_point_def Dnp3PointDefSchema_def
        empty_point_map_def point_key_def Let_def)
  show ?thesis
    by (simp add: request_decoded_def assms latch_on_def control_header_def new_header_def isControlGroup_def
        decode_header_def decodeObject_def crob crobValue_def pt latch_command_def accepted_def)
      (simp add: example_point_def)
qed

lemma latch_run:
  assumes "objects r = latch_on" "func r = DNP3_FUNCTION DIRECT_OPERATE"
  shows "\<exists>res st'. process example_map example_config (Some log_sink) r 0 new_control_state []
    = (res, st', [latch_command])"
  using process_resolve [of example_map example_config "Some log_sink" r 0 new_control_state "[]"]
  by (cases "process example_map example_config (Some log_sink) r 0 new_control_state []")
    (simp add: latch_on_decoded [OF assms(1)] resolveStatuses_def assms(2) is_writable_def example_config_def
      execute_def execute_one_def accepted_def latch_command_def busy_def new_control_state_def run_command_def
      log_sink_def Let_def split: prod.splits)

theorem plant_moves_only_when_authorised_witness:
  "\<exists>r res st' p'. parseRequest (0xC1 # 0x05 # concat (map header_bytes latch_on)) = Some r
     \<and> process example_map example_config (Some log_sink) r 0 new_control_state [] = (res, st', p')
     \<and> p' = [latch_command]
     \<and> authorised example_config (Some log_sink) r (request_decoded example_map r) 0 new_control_state"
proof -
  obtain r where r: "parseRequest (0xC1 # 0x05 # concat (map header_bytes latch_on)) = Some r"
    "objects r = latch_on" "func r = unat (0x05 :: byte)" using parse_control [OF latch_on_ok] by metis
  then have "func r = DNP3_FUNCTION DIRECT_OPERATE" by simp
  with latch_run [OF r(2)] obtain res st'
    where p: "process example_map example_config (Some log_sink) r 0 new_control_state [] = (res, st', [latch_command])"
    by blast
  with r plant_moves_only_when_authorised [OF p] show ?thesis by auto
qed

lemma latch_select_operate:
  assumes "objects r1 = latch_on" "func r1 = DNP3_FUNCTION SELECT" "req_seq r1 = 1"
    and "objects r2 = latch_on" "func r2 = DNP3_FUNCTION OPERATE" "req_seq r2 = 2"
  shows "\<exists>res1 st1 res2 st2. process example_map example_config (Some log_sink) r1 0 new_control_state [] = (res1, st1, [])
    \<and> process example_map example_config (Some log_sink) r2 100 st1 [] = (res2, st2, [latch_command])"
proof -
  let ?a = "\<lparr> armed_seq = 1, armedAt = 0, digest = canonicalDigest (request_decoded example_map r1), commands = [latch_command] \<rparr>"
  let ?st1 = "new_control_state \<lparr> armed := Some ?a \<rparr>"
  note dec = latch_on_decoded [OF assms(1)] latch_on_decoded [OF assms(4)]
  have "snd (process example_map example_config (Some log_sink) r1 0 new_control_state []) = (?st1, [])"
    using process_resolve [of example_map example_config "Some log_sink" r1 0 new_control_state "[]"]
    by (simp add: dec resolveStatuses_def assms is_writable_def example_config_def accepted_def)
  moreover have "snd (snd (process example_map example_config (Some log_sink) r2 100 ?st1 [])) = [latch_command]"
    using process_resolve [of example_map example_config "Some log_sink" r2 100 ?st1 "[]"]
    by (simp add: dec resolveStatuses_def assms is_writable_def example_config_def
        execute_def execute_one_def accepted_def latch_command_def busy_def new_control_state_def run_command_def
        log_sink_def Let_def)
  ultimately show ?thesis by (metis prod.collapse)
qed

theorem operate_performs_selection_witness:
  "\<exists>r1 r2 st p'. parseRequest (0xC1 # 0x03 # concat (map header_bytes latch_on)) = Some r1
     \<and> parseRequest (0xC2 # 0x04 # concat (map header_bytes latch_on)) = Some r2
     \<and> control_run example_map example_config (Some log_sink) [Processed r1 0] [] = (st, [])
     \<and> snd (snd (process example_map example_config (Some log_sink) r2 100 st [])) = [latch_command]
     \<and> request_commands example_map r2 = request_commands example_map r1 \<and> req_seq r1 = (req_seq r2 + 15) mod 16"
proof -
  obtain r1 where r1: "parseRequest (0xC1 # 0x03 # concat (map header_bytes latch_on)) = Some r1"
    "objects r1 = latch_on" "objectsComplete r1" "func r1 = unat (0x03 :: byte)"
    "req_seq r1 = unat ((0xC1 :: byte) AND APP_CTRL_SEQ_MASK)" using parse_control [OF latch_on_ok] by metis
  obtain r2 where r2: "parseRequest (0xC2 # 0x04 # concat (map header_bytes latch_on)) = Some r2"
    "objects r2 = latch_on" "objectsComplete r2" "func r2 = unat (0x04 :: byte)"
    "req_seq r2 = unat ((0xC2 :: byte) AND APP_CTRL_SEQ_MASK)" using parse_control [OF latch_on_ok] by metis
  have f: "func r1 = DNP3_FUNCTION SELECT" "func r2 = DNP3_FUNCTION OPERATE" "req_seq r1 = 1" "req_seq r2 = 2"
    using r1 r2 by (simp_all add: APP_CTRL_SEQ_MASK_def)
  obtain res1 st1 res2 st2 where
    1: "process example_map example_config (Some log_sink) r1 0 new_control_state [] = (res1, st1, [])" and
    2: "process example_map example_config (Some log_sink) r2 100 st1 [] = (res2, st2, [latch_command])"
    using latch_select_operate [OF r1(2) f(1,3) r2(2) f(2,4)] by blast
  have run: "control_run example_map example_config (Some log_sink) [Processed r1 0] [] = (st1, [])"
    by (simp add: control_run_def 1)
  have rec: "list_all received_event [Processed r1 0]" "received r2" using r1 r2 by (auto simp: received_def)
  from operate_performs_selection [OF rec(1) run rec(2) f(2) 2]
  have "request_commands example_map r2 = request_commands example_map r1 \<and> req_seq r1 = (req_seq r2 + 15) mod 16"
    by (auto simp: Cons_eq_append_conv)
  with r1(1) r2(1) run 2 show ?thesis by (metis snd_conv)
qed


section \<open>The echo reports each object with its status\<close>

definition with_status :: "prefixed_object \<Rightarrow> nat \<Rightarrow> prefixed_object" where
  "with_status i s = i \<lparr> item_data := (item_data i)[length (item_data i) - 1 := of_nat s] \<rparr>"

text \<open>The request's headers with the status octet of each object replaced.\<close>

primrec relabel :: "object_header list \<Rightarrow> nat list \<Rightarrow> object_header list" where
  "relabel [] ss = []"
| "relabel (h # hs) ss =
     (let is = the (items h)
      in h \<lparr> items := Some (map2 with_status is ss) \<rparr> # relabel hs (drop (length is) ss))"

lemma butlast_snoc_update: "d \<noteq> [] \<Longrightarrow> butlast d @ [x] = d[length d - 1 := x]"
  by (cases d rule: rev_cases) (simp_all add: list_update_append)

definition nan_free :: "decoded_object \<Rightarrow> bool" where
  "nan_free d = (case command d of Some (AnalogOutputCommand _ _ _ _ v) \<Rightarrow> v \<noteq> NaN | _ \<Rightarrow> True)"

lemma echoBody_faithful:
  assumes "commandObjectSize (hdr_group h) (hdr_variation h) = Some (length (item_data i))"
    "nan_free (decodeObject pm h i)"
  shows "echoBody h i (Some (decodeObject pm h i)) s = Some (item_data (with_status i s))"
proof -
  have ne: "item_data i \<noteq> []" using commandObjectSize_bounds [OF assms(1)] by auto
  show ?thesis
  proof (cases "command (decodeObject pm h i)")
    case None
    with ne show ?thesis by (simp add: echoBody_def with_status_def)
  next
    case (Some c)
    show ?thesis
    proof (cases c)
      case (BinaryOutputCommand g v idx tag val crob)
      with Some have "decodeCrob (item_data i) = Some crob"
        by (auto simp: decodeObject_def accepted_def rejected_def Let_def split: option.splits if_splits)
      from encodeCrob_decode [OF this] Some BinaryOutputCommand ne show ?thesis
        by (simp add: echoBody_def with_status_def butlast_snoc_update)
    next
      case (AnalogOutputCommand g v idx tag val)
      with Some have "decodeAnalogOutput (hdr_variation h) (item_data i) = Some val"
        by (auto simp: decodeObject_def accepted_def rejected_def Let_def split: option.splits if_splits)
      moreover have "val \<noteq> NaN" using assms(2) Some AnalogOutputCommand by (simp add: nan_free_def)
      ultimately show ?thesis using Some AnalogOutputCommand ne
        by (simp add: echoBody_def with_status_def butlast_snoc_update encodeAnalogOutput_decode)
    qed
  qed
qed

lemma echo_items_faithful:
  assumes "list_all (\<lambda>i. item_index i < (if two then 65536 else 256)
      \<and> commandObjectSize (hdr_group h) (hdr_variation h) = Some (length (item_data i))
      \<and> nan_free (decodeObject pm h i)) is" "length is \<le> length ss"
  shows "echo_items h two is (map (decodeObject pm h) is @ ds) ss
    = Some (concat (map (item_bytes (if two then 2 else 1)) (map2 with_status is ss)), ds, drop (length is) ss)"
  using assms
proof (induction "is" arbitrary: ss)
  case (Cons i "is")
  then obtain s ss' where ss: "ss = s # ss'" by (cases ss) auto
  have "echoBody h i (Some (decodeObject pm h i)) s = Some (item_data (with_status i s))"
    using Cons.prems by (intro echoBody_faithful) simp_all
  moreover have "write_field two (item_index i) = Some (if two then writeUInt16LE (item_index i) else [of_nat (item_index i)])"
    using Cons.prems by (intro write_field_prefix) simp
  moreover have "item_index (with_status i s) = item_index i" by (simp add: with_status_def)
  moreover have "echo_items h two is (map (decodeObject pm h) is @ ds) ss'
      = Some (concat (map (item_bytes (if two then 2 else 1)) (map2 with_status is ss')), ds, drop (length is) ss')"
  proof (rule Cons.IH)
    show "length is \<le> length ss'" using Cons.prems(2) by (simp add: ss)
  qed (use Cons.prems(1) in \<open>unfold list.pred_inject, blast\<close>)
  ultimately show ?case
    by (simp add: ss item_bytes_def [of _ "with_status i s"])
qed simp

lemma echo_faithful_aux:
  assumes "list_all control_ok hs" "list_all (\<lambda>h. items h \<noteq> Some []) hs"
    "list_all nan_free (concat (map (decode_header pm) hs))"
    "length ss = length (concat (map (decode_header pm) hs))"
  shows "echo hs (concat (map (decode_header pm) hs)) ss = Some (concat (map header_bytes (relabel hs ss)))"
  using assms
proof (induction hs arbitrary: ss)
  case (Cons h hs)
  from Cons.prems(1) obtain "is" two where i: "items h = Some is"
    and h: "h = control_header (hdr_group h) (hdr_variation h) two is"
    and len: "length is < (if two then 65536 else 256)"
    and ok: "list_all (\<lambda>i. item_index i < (if two then 65536 else 256)
        \<and> commandObjectSize (hdr_group h) (hdr_variation h) = Some (length (item_data i))) is"
    by (auto simp: control_ok_def split: option.splits)
  have q: "qualifier h = (if two then 0x28 else 0x17)" and cnt: "hdr_count h = Some (length is)" "hdr_data h = None"
    by (subst h; simp add: control_header_def new_header_def)+
  have ne: "is \<noteq> []" using Cons.prems(2) i by auto
  have dh: "decode_header pm h = map (decodeObject pm h) is" by (simp add: decode_header_def i)
  have "list_all (\<lambda>i. item_index i < (if two then 65536 else 256)
      \<and> commandObjectSize (hdr_group h) (hdr_variation h) = Some (length (item_data i))
      \<and> nan_free (decodeObject pm h i)) is"
    using ok Cons.prems(3) by (simp add: dh list_all_iff)
  moreover have l: "length is \<le> length ss" using Cons.prems(4) by (simp add: dh)
  ultimately have it: "echo_items h two is (decode_header pm h @ concat (map (decode_header pm) hs)) ss
      = Some (concat (map (item_bytes (if two then 2 else 1)) (map2 with_status is ss)),
          concat (map (decode_header pm) hs), drop (length is) ss)"
    unfolding dh by (rule echo_items_faithful)
  have rest: "echo hs (concat (map (decode_header pm) hs)) (drop (length is) ss)
      = Some (concat (map header_bytes (relabel hs (drop (length is) ss))))"
    using Cons by (intro Cons.IH) (simp_all add: dh)
  have two: "qualifier h AND 0xf0 = 0x20 \<longleftrightarrow> two" by (simp add: q)
  let ?h' = "h \<lparr> items := Some (map2 with_status is ss) \<rparr>"
  have "header_bytes ?h' = [of_nat (hdr_group h), of_nat (hdr_variation h), qualifier h]
      @ (if two then writeUInt16LE (length is) else [of_nat (length is)])
      @ concat (map (item_bytes (if two then 2 else 1)) (map2 with_status is ss))"
    by (simp add: header_bytes_def q cnt range_bytes_def prefix_len_def)
  then show ?case
    using it rest ne write_field_prefix [OF len] by (simp add: i two)
qed simp

text \<open>The response to a control request echoes the request. For every sequence of non-empty command
  headers with qualifier 0x17 or 0x28 whose analog values are numbers, and one status per object, the
  echo never throws and is octet for octet the request's objects with the status octet of each object
  replaced, whether the object was accepted or rejected.\<close>

theorem echo_faithful:
  assumes "list_all control_ok hs" "list_all (\<lambda>h. items h \<noteq> Some []) hs"
    and "list_all nan_free (concat (map (decode_header pm) hs))"
    and "length ss = length (concat (map (decode_header pm) hs))"
  shows "echo hs (concat (map (decode_header pm) hs)) ss = Some (concat (map header_bytes (relabel hs ss)))"
  by (rule echo_faithful_aux [OF assms])

theorem echo_faithful_witness:
  "echo latch_on (concat (map (decode_header empty_point_map) latch_on)) [4]
     = Some [12, 1, 0x17, 1, 3, 3, 1, 100, 0, 0, 0, 0, 0, 0, 0, 4]"
proof -
  have nan: "list_all nan_free (concat (map (decode_header empty_point_map) latch_on))"
    by (simp add: latch_on_def decode_header_def control_header_def new_header_def nan_free_def decodeObject_def
        rejected_def getPoint_def empty_point_map_def split: option.splits)
  have "echo latch_on (concat (map (decode_header empty_point_map) latch_on)) [4]
      = Some (concat (map header_bytes (relabel latch_on [4])))"
    by (rule echo_faithful [OF latch_on_ok _ nan])
      (simp_all add: latch_on_def decode_header_def control_header_def new_header_def)
  also have "concat (map header_bytes (relabel latch_on [4])) = [12, 1, 0x17, 1, 3, 3, 1, 100, 0, 0, 0, 0, 0, 0, 0, 4]"
    by (simp add: latch_on_def control_header_def new_header_def header_bytes_def range_bytes_def item_bytes_def
        prefix_len_def with_status_def)
  finally show ?thesis .
qed

text \<open>
  The parser also accepts a one-octet index prefix with a two-octet count (qualifier 0x18). The echo
  takes the width of the count from the index prefix, so its header keeps the qualifier but has a
  one-octet count: the response cannot be read back.
\<close>

definition wide_count_request :: buffer where
  "wide_count_request = [0xC1, 0x05, 12, 1, 0x18, 1, 0, 3, 3, 1, 100, 0, 0, 0, 0, 0, 0, 0, 0]"

definition wide_count_header :: object_header where
  "wide_count_header = (new_header 12 1 0x18) \<lparr> hdr_count := Some 1,
     items := Some [\<lparr> item_index = 3, item_data = [3, 1, 100, 0, 0, 0, 0, 0, 0, 0, 0] \<rparr>] \<rparr>"

lemma wide_count_echo:
  "echo [wide_count_header] (decode_header empty_point_map wide_count_header) [4]
     = Some [12, 1, 0x18, 1, 3, 3, 1, 100, 0, 0, 0, 0, 0, 0, 0, 4]"
proof -
  have "commandObjectSize 12 1 = Some 11" by (simp add: commandObjectSize_def CROB_OBJECT_SIZE_def)
  moreover have "nan_free (decodeObject empty_point_map wide_count_header i)" for i
    by (simp add: nan_free_def decodeObject_def rejected_def getPoint_def empty_point_map_def wide_count_header_def
        new_header_def split: option.splits)
  ultimately have "echoBody wide_count_header i (Some (decodeObject empty_point_map wide_count_header i)) 4
      = Some (item_data (with_status i 4))" if "length (item_data i) = 11" for i
    using that by (intro echoBody_faithful) (simp_all add: wide_count_header_def new_header_def)
  then show ?thesis
    by (simp add: decode_header_def wide_count_header_def new_header_def write_field_def with_status_def)
qed

end
