(* ===== verification/Dnp3_Events.thy ===== *)
theory Dnp3_Events
  imports Dnp3_PointMap
begin

text \<open>
  The class 1/2/3 event buffer of the outstation (\<open>dnp3-outstation/event-buffer.ts\<close>): one FIFO
  queue per class with its set of reported but unconfirmed sequence numbers, the overflow rule,
  confirmation, and the decision to send an unsolicited response.
\<close>

section \<open>Data\<close>

datatype event_class = Class1 | Class2 | Class3

instantiation event_class :: linorder
begin

definition class_num :: "event_class \<Rightarrow> nat" where
  "class_num c = (case c of Class1 \<Rightarrow> 1 | Class2 \<Rightarrow> 2 | Class3 \<Rightarrow> 3)"

definition less_eq_event_class :: "event_class \<Rightarrow> event_class \<Rightarrow> bool" where
  "less_eq_event_class a b \<longleftrightarrow> class_num a \<le> class_num b"

definition less_event_class :: "event_class \<Rightarrow> event_class \<Rightarrow> bool" where
  "less_event_class a b \<longleftrightarrow> class_num a < class_num b"

instance
  by standard (auto simp: less_eq_event_class_def less_event_class_def class_num_def
      split: event_class.splits)

end

record event =
  seq :: nat
  pointType :: point_type
  event_index :: nat
  event_class :: event_class
  event_value :: point_value
  event_flags :: byte
  event_timestamp :: int

record class_buffer_config =
  maxEvents :: nat
  unsolicitedThreshold :: nat

record event_buffer_config =
  class1 :: class_buffer_config
  class2 :: class_buffer_config
  class3 :: class_buffer_config
  unsolicitedMaxDelayMs :: int

definition DEFAULT_EVENT_BUFFER_CONFIG :: event_buffer_config where
  "DEFAULT_EVENT_BUFFER_CONFIG =
     \<lparr> class1 = \<lparr> maxEvents = 1000, unsolicitedThreshold = 5 \<rparr>,
       class2 = \<lparr> maxEvents = 1000, unsolicitedThreshold = 5 \<rparr>,
       class3 = \<lparr> maxEvents = 1000, unsolicitedThreshold = 5 \<rparr>,
       unsolicitedMaxDelayMs = 2000 \<rparr>"

record class_queue =
  config :: class_buffer_config
  events :: "event list"
  reported :: "nat set"
  oldestUnreportedAt :: "int option"
  overflowed :: bool

record event_buffer =
  seqCounter :: nat
  queues :: "event_class \<Rightarrow> class_queue"
  overflowFlag :: bool
  maxDelayMs :: int

datatype unsolicited_reason = by_count | by_delay | by_none

record unsolicited_decision =
  shouldSend :: bool
  decision_classes :: "event_class list"
  reason :: unsolicited_reason

section \<open>Operations\<close>

definition makeQueue :: "class_buffer_config \<Rightarrow> class_queue" where
  "makeQueue cfg = \<lparr> config = cfg, events = [], reported = {}, oldestUnreportedAt = None,
     overflowed = False \<rparr>"

definition new_event_buffer :: "event_buffer_config \<Rightarrow> event_buffer" where
  "new_event_buffer cfg =
     \<lparr> seqCounter = 0,
       queues = (\<lambda>c. case c of Class1 \<Rightarrow> makeQueue (class1 cfg) | Class2 \<Rightarrow> makeQueue (class2 cfg)
                   | Class3 \<Rightarrow> makeQueue (class3 cfg)),
       overflowFlag = False,
       maxDelayMs = unsolicitedMaxDelayMs cfg \<rparr>"

definition unreportedOf :: "class_queue \<Rightarrow> event list" where
  "unreportedOf q = filter (\<lambda>e. seq e \<notin> reported q) (events q)"

text \<open>\<open>events.shift()\<close> on an empty array removes nothing, so no sequence number is forgotten.\<close>

definition drop_oldest :: "class_queue \<Rightarrow> class_queue" where
  "drop_oldest q =
     (case events q of
        [] \<Rightarrow> q \<lparr> overflowed := True \<rparr>
      | d # es \<Rightarrow> q \<lparr> events := es, reported := reported q - {seq d}, overflowed := True \<rparr>)"

definition enqueue :: "event \<Rightarrow> event_buffer \<Rightarrow> nat \<times> event_buffer" where
  "enqueue ev b =
     (let c = event_class ev;
          q = queues b c;
          n = seqCounter b + 1;
          full = ev \<lparr> seq := n \<rparr>;
          over = (length (events q) \<ge> maxEvents (config q));
          q = (if over then drop_oldest q else q);
          q = q \<lparr> events := events q @ [full] \<rparr>;
          q = (if oldestUnreportedAt q = None then q \<lparr> oldestUnreportedAt := Some (event_timestamp ev) \<rparr>
               else q)
      in (n, b \<lparr> seqCounter := n, queues := (queues b)(c := q),
                 overflowFlag := (if over then True else overflowFlag b) \<rparr>))"

definition classSize :: "event_class \<Rightarrow> event_buffer \<Rightarrow> nat" where
  "classSize c b = length (events (queues b c))"

definition size_events :: "event_buffer \<Rightarrow> nat" where
  "size_events b = length (events (queues b Class1)) + length (events (queues b Class2))
     + length (events (queues b Class3))"

definition unreportedSize :: "event_class \<Rightarrow> event_buffer \<Rightarrow> nat" where
  "unreportedSize c b = length (unreportedOf (queues b c))"

definition hasOverflow :: "event_buffer \<Rightarrow> bool" where
  "hasOverflow b = overflowFlag b"

text \<open>\<open>limit = None\<close> is the default cap, above every possible length.\<close>

definition peek :: "event_class list \<Rightarrow> nat option \<Rightarrow> event_buffer \<Rightarrow> event list" where
  "peek cs limit b =
     (let merged = sort_key seq (concat (map (\<lambda>c. events (queues b c)) cs))
      in case limit of None \<Rightarrow> merged | Some n \<Rightarrow> take n merged)"

definition refresh_timer :: "class_queue \<Rightarrow> class_queue" where
  "refresh_timer q =
     q \<lparr> oldestUnreportedAt := (case unreportedOf q of [] \<Rightarrow> None | e # _ \<Rightarrow> Some (event_timestamp e)) \<rparr>"

definition mark_queue :: "nat set \<Rightarrow> class_queue \<Rightarrow> class_queue" where
  "mark_queue S q =
     refresh_timer (q \<lparr> reported := reported q \<union> set (filter (\<lambda>n. n \<in> S) (map seq (events q))) \<rparr>)"

definition markReported :: "nat list \<Rightarrow> event_buffer \<Rightarrow> event_buffer" where
  "markReported seqs b = b \<lparr> queues := (\<lambda>c. mark_queue (set seqs) (queues b c)) \<rparr>"

definition confirm_queue :: "nat set \<Rightarrow> class_queue \<Rightarrow> class_queue" where
  "confirm_queue S q =
     (let q = q \<lparr> events := filter (\<lambda>e. seq e \<notin> S) (events q), reported := reported q - S \<rparr>;
          q = refresh_timer q
      in if events q = [] then q \<lparr> overflowed := False \<rparr> else q)"

definition confirm :: "nat list \<Rightarrow> event_buffer \<Rightarrow> event_buffer" where
  "confirm seqs b =
     (let b = b \<lparr> queues := (\<lambda>c. confirm_queue (set seqs) (queues b c)) \<rparr>
      in if \<not> overflowed (queues b Class1) \<and> \<not> overflowed (queues b Class2)
            \<and> \<not> overflowed (queues b Class3)
         then b \<lparr> overflowFlag := False \<rparr> else b)"

definition clear_events :: "event_buffer \<Rightarrow> event_buffer" where
  "clear_events b =
     b \<lparr> queues := (\<lambda>c. makeQueue (config (queues b c))), overflowFlag := False \<rparr>"

definition dedupeSorted :: "event_class list \<Rightarrow> event_class list" where
  "dedupeSorted cs = sort (remdups cs)"

definition count_due :: "event_buffer \<Rightarrow> event_class \<Rightarrow> bool" where
  "count_due b c =
     (let q = queues b c; n = length (unreportedOf q)
      in n \<noteq> 0 \<and> unsolicitedThreshold (config q) > 0 \<and> n \<ge> unsolicitedThreshold (config q))"

definition delay_due :: "int \<Rightarrow> event_buffer \<Rightarrow> event_class \<Rightarrow> bool" where
  "delay_due now b c =
     (let q = queues b c
      in length (unreportedOf q) \<noteq> 0 \<and> maxDelayMs b > 0
         \<and> (case oldestUnreportedAt q of None \<Rightarrow> False | Some t \<Rightarrow> now - t \<ge> maxDelayMs b))"

definition evaluateUnsolicited :: "int \<Rightarrow> event_buffer \<Rightarrow> unsolicited_decision" where
  "evaluateUnsolicited now b =
     (let countClasses = filter (count_due b) [Class1, Class2, Class3];
          delayClasses = filter (delay_due now b) [Class1, Class2, Class3]
      in if length countClasses > 0
         then \<lparr> shouldSend = True, decision_classes = dedupeSorted (countClasses @ delayClasses),
                reason = by_count \<rparr>
         else if length delayClasses > 0
         then \<lparr> shouldSend = True, decision_classes = dedupeSorted delayClasses, reason = by_delay \<rparr>
         else \<lparr> shouldSend = False, decision_classes = [], reason = by_none \<rparr>)"

definition classEventIinBits :: "event_buffer \<Rightarrow> bool \<times> bool \<times> bool" where
  "classEventIinBits b =
     (length (events (queues b Class1)) > 0, length (events (queues b Class2)) > 0,
      length (events (queues b Class3)) > 0)"


section \<open>Invariant\<close>

text \<open>
  In each queue the sequence numbers are positive, at most the counter and strictly increasing,
  the events are of the queue's class, the size is within the configured bound (a bound of 0
  still keeps the newest event), only buffered events are marked reported, and the timer runs
  exactly while an unreported event is pending. The global overflow flag is the disjunction of
  the classes' flags.
\<close>

definition queue_inv :: "nat \<Rightarrow> event_class \<Rightarrow> class_queue \<Rightarrow> bool" where
  "queue_inv n c q \<longleftrightarrow>
     sorted_wrt (<) (map seq (events q))
     \<and> (\<forall>e \<in> set (events q). 0 < seq e \<and> seq e \<le> n \<and> event_class e = c)
     \<and> length (events q) \<le> max 1 (maxEvents (config q))
     \<and> reported q \<subseteq> seq ` set (events q)
     \<and> (oldestUnreportedAt q = None \<longleftrightarrow> unreportedOf q = [])"

definition event_buffer_inv :: "event_buffer \<Rightarrow> bool" where
  "event_buffer_inv b \<longleftrightarrow>
     (\<forall>c. queue_inv (seqCounter b) c (queues b c))
     \<and> (overflowFlag b \<longleftrightarrow> (\<exists>c. overflowed (queues b c)))"

lemma unreportedOf_makeQueue [simp]: "unreportedOf (makeQueue cfg) = []"
  by (simp add: unreportedOf_def makeQueue_def)

lemma makeQueue_inv [simp]: "queue_inv n c (makeQueue cfg)"
  by (simp add: queue_inv_def) (simp add: makeQueue_def)

lemma queue_inv_mono: "queue_inv n c q \<Longrightarrow> n \<le> n' \<Longrightarrow> queue_inv n' c q"
  by (force simp: queue_inv_def)

lemma refresh_timer_simps [simp]:
  "events (refresh_timer q) = events q" "reported (refresh_timer q) = reported q"
  "config (refresh_timer q) = config q" "overflowed (refresh_timer q) = overflowed q"
  "unreportedOf (refresh_timer q) = unreportedOf q"
  by (simp_all add: refresh_timer_def unreportedOf_def)

lemma refresh_timer_None [simp]:
  "oldestUnreportedAt (refresh_timer q) = None \<longleftrightarrow> unreportedOf q = []"
  by (simp add: refresh_timer_def split: list.splits)

lemma mark_queue_inv: "queue_inv n c q \<Longrightarrow> queue_inv n c (mark_queue S q)"
  unfolding queue_inv_def mark_queue_def by (auto simp: unreportedOf_def)

lemma sorted_wrt_map_filter:
  "sorted_wrt (<) (map f xs) \<Longrightarrow> sorted_wrt (<) (map f (filter P xs))"
  by (induction xs) auto

lemma confirm_queue_inv: "queue_inv n c q \<Longrightarrow> queue_inv n c (confirm_queue S q)"
  unfolding queue_inv_def confirm_queue_def Let_def
  by (auto simp: sorted_wrt_map_filter unreportedOf_def filter_empty_conv le_trans [OF length_filter_le])

text \<open>The queue after the push of \<open>enqueue\<close>, for either outcome of the capacity test.\<close>

lemma enqueue_queue:
  "queues (snd (enqueue ev b)) (event_class ev) =
     (let q = queues b (event_class ev);
          q = (if length (events q) \<ge> maxEvents (config q) then drop_oldest q else q);
          q = q \<lparr> events := events q @ [ev \<lparr> seq := seqCounter b + 1 \<rparr>] \<rparr>
      in if oldestUnreportedAt q = None then q \<lparr> oldestUnreportedAt := Some (event_timestamp ev) \<rparr> else q)"
  "c \<noteq> event_class ev \<Longrightarrow> queues (snd (enqueue ev b)) c = queues b c"
  "seqCounter (snd (enqueue ev b)) = seqCounter b + 1"
  by (simp_all add: enqueue_def Let_def)

text \<open>What the queue holds before the push: a tail of the old one with room for one more.\<close>

definition queue_room :: "nat \<Rightarrow> event_class \<Rightarrow> class_queue \<Rightarrow> bool" where
  "queue_room n c q \<longleftrightarrow>
     sorted_wrt (<) (map seq (events q))
     \<and> (\<forall>e \<in> set (events q). 0 < seq e \<and> seq e \<le> n \<and> event_class e = c)
     \<and> Suc (length (events q)) \<le> max 1 (maxEvents (config q))
     \<and> reported q \<subseteq> seq ` set (events q)"

lemma drop_oldest_room: "queue_inv n c q \<Longrightarrow> queue_room n c (drop_oldest q)"
  by (cases "events q") (auto simp: queue_inv_def queue_room_def drop_oldest_def)

lemma queue_room_push:
  assumes "queue_room n (event_class ev) q"
  shows "queue_inv (n + 1) (event_class ev) (let q = q \<lparr> events := events q @ [ev \<lparr> seq := n + 1 \<rparr>] \<rparr>
      in if oldestUnreportedAt q = None then q \<lparr> oldestUnreportedAt := Some t \<rparr> else q)"
proof -
  have "Suc n \<notin> reported q" using assms by (fastforce simp: queue_room_def)
  with assms show ?thesis
    by (auto simp: queue_room_def queue_inv_def Let_def sorted_wrt_append unreportedOf_def less_Suc_eq_le)
qed

lemma enqueue_queue_inv:
  assumes "\<forall>c. queue_inv (seqCounter b) c (queues b c)"
  shows "queue_inv (seqCounter b + 1) c (queues (snd (enqueue ev b)) c)"
proof (cases "c = event_class ev")
  case False
  with assms show ?thesis by (simp add: enqueue_queue queue_inv_mono [of "seqCounter b"])
next
  case True
  let ?q = "queues b (event_class ev)"
  have "queue_room (seqCounter b) (event_class ev)
      (if length (events ?q) \<ge> maxEvents (config ?q) then drop_oldest ?q else ?q)"
    using assms drop_oldest_room [of "seqCounter b" "event_class ev" ?q]
    by (auto simp: queue_room_def queue_inv_def)
  from queue_room_push [OF this] show ?thesis
    unfolding True enqueue_queue(1) by (simp only: Let_def)
qed

lemma event_class_all: "(\<forall>c. P c) \<longleftrightarrow> P Class1 \<and> P Class2 \<and> P Class3"
  "(\<exists>c. P c) \<longleftrightarrow> P Class1 \<or> P Class2 \<or> P Class3"
  by (metis event_class.exhaust)+

lemma enqueue_overflow:
  assumes "event_buffer_inv b"
  shows "overflowFlag (snd (enqueue ev b)) \<longleftrightarrow> (\<exists>c. overflowed (queues (snd (enqueue ev b)) c))"
proof (cases "length (events (queues b (event_class ev))) \<ge> maxEvents (config (queues b (event_class ev)))")
  case True
  then have "overflowed (queues (snd (enqueue ev b)) (event_class ev))"
    by (simp add: enqueue_queue Let_def drop_oldest_def split: list.splits)
  with True show ?thesis by (auto simp: enqueue_def Let_def)
next
  case False
  then have "overflowed (queues (snd (enqueue ev b)) c) = overflowed (queues b c)" for c
    by (simp add: enqueue_def Let_def)
  with False assms show ?thesis by (auto simp: enqueue_def Let_def event_buffer_inv_def)
qed

datatype event_op = Enqueue event | MarkReported "nat list" | Confirm "nat list" | Clear

primrec event_step :: "event_op \<Rightarrow> event_buffer \<Rightarrow> event_buffer" where
  "event_step (Enqueue ev) b = snd (enqueue ev b)"
| "event_step (MarkReported seqs) b = markReported seqs b"
| "event_step (Confirm seqs) b = confirm seqs b"
| "event_step Clear b = clear_events b"

lemma mark_queue_simps [simp]: "events (mark_queue S q) = events q"
  "config (mark_queue S q) = config q" "overflowed (mark_queue S q) = overflowed q"
  by (simp_all add: mark_queue_def)

lemma confirm_queue_simps [simp]:
  "events (confirm_queue S q) = filter (\<lambda>e. seq e \<notin> S) (events q)"
  "config (confirm_queue S q) = config q"
  "overflowed (confirm_queue S q) \<longleftrightarrow> overflowed q \<and> events (confirm_queue S q) \<noteq> []"
  by (auto simp: confirm_queue_def Let_def)

lemma confirm_simps [simp]: "queues (confirm seqs b) c = confirm_queue (set seqs) (queues b c)"
  "seqCounter (confirm seqs b) = seqCounter b"
  by (simp_all add: confirm_def Let_def)

lemma confirm_overflow:
  assumes "event_buffer_inv b"
  shows "overflowFlag (confirm seqs b) \<longleftrightarrow> (\<exists>c. overflowed (queues (confirm seqs b) c))"
proof -
  have "overflowFlag (confirm seqs b) \<longleftrightarrow>
      overflowFlag b \<and> (\<exists>c. overflowed (queues (confirm seqs b) c))"
    by (simp add: confirm_def Let_def event_class_all del: confirm_queue_simps)
  also have "\<dots> \<longleftrightarrow> (\<exists>c. overflowed (queues (confirm seqs b) c))"
    using assms by (auto simp: event_buffer_inv_def)
  finally show ?thesis .
qed

interpretation event_buffer: invariant_machine event_step event_buffer_inv
proof
  fix b op
  assume inv: "event_buffer_inv b"
  show "event_buffer_inv (event_step op b)"
  proof (cases op)
    case (Enqueue ev)
    with inv enqueue_queue_inv [of b] enqueue_overflow [OF inv, of ev] show ?thesis
      by (simp add: event_buffer_inv_def enqueue_queue(3))
  next
    case (MarkReported seqs)
    with inv show ?thesis by (simp add: event_buffer_inv_def markReported_def mark_queue_inv)
  next
    case (Confirm seqs)
    with inv confirm_overflow [OF inv, of seqs] show ?thesis
      by (simp add: event_buffer_inv_def confirm_queue_inv del: confirm_queue_simps)
  next
    case Clear
    then show ?thesis by (simp add: event_buffer_inv_def clear_events_def) (simp add: makeQueue_def)
  qed
qed

definition run_events :: "event_buffer_config \<Rightarrow> event_op list \<Rightarrow> event_buffer" where
  "run_events cfg ops = fold event_step ops (new_event_buffer cfg)"

lemma new_event_buffer_inv: "event_buffer_inv (new_event_buffer cfg)"
  by (simp add: event_buffer_inv_def new_event_buffer_def event_class_all) (simp add: makeQueue_def)

lemma run_events_inv [simp]: "event_buffer_inv (run_events cfg ops)"
  unfolding run_events_def by (rule event_buffer.run_inv) (rule new_event_buffer_inv)


section \<open>What the buffer promises\<close>

primrec class_config :: "event_buffer_config \<Rightarrow> event_class \<Rightarrow> class_buffer_config" where
  "class_config cfg Class1 = class1 cfg"
| "class_config cfg Class2 = class2 cfg"
| "class_config cfg Class3 = class3 cfg"

lemma event_step_config: "config (queues (event_step op b) c) = config (queues b c)"
proof (cases op)
  case (Enqueue ev)
  have "config (drop_oldest q) = config q" for q by (simp add: drop_oldest_def split: list.splits)
  then show ?thesis by (simp add: Enqueue enqueue_def Let_def)
qed (simp_all add: markReported_def clear_events_def makeQueue_def)

lemma run_events_config: "config (queues (run_events cfg ops) c) = class_config cfg c"
proof -
  have "config (queues (fold event_step ops b) c) = config (queues b c)" for b
    by (induction ops arbitrary: b) (simp_all add: event_step_config)
  then show ?thesis
    by (cases c) (simp_all add: run_events_def new_event_buffer_def makeQueue_def)
qed

lemma inv_sorted: "event_buffer_inv b \<Longrightarrow> sorted_wrt (<) (map seq (events (queues b c)))"
  and inv_class: "event_buffer_inv b \<Longrightarrow> e \<in> set (events (queues b c)) \<Longrightarrow> event_class e = c"
  by (simp_all add: event_buffer_inv_def queue_inv_def)

text \<open>
  Sequence numbers are globally unique. This needs a little more than the per-queue invariant:
  the numbers of different classes never meet.
\<close>

definition seqs_disjoint :: "event_buffer \<Rightarrow> bool" where
  "seqs_disjoint b \<longleftrightarrow> event_buffer_inv b \<and>
     (\<forall>c d. c \<noteq> d \<longrightarrow> seq ` set (events (queues b c)) \<inter> seq ` set (events (queues b d)) = {})"

lemma enqueue_events:
  "set (events (queues (snd (enqueue ev b)) c)) \<subseteq>
     set (events (queues b c)) \<union> (if c = event_class ev then {ev \<lparr> seq := seqCounter b + 1 \<rparr>} else {})"
  by (auto simp: enqueue_def Let_def drop_oldest_def split: list.splits if_splits)

lemma seqs_disjoint_subset:
  assumes "seqs_disjoint b" "event_buffer_inv b'"
    "\<And>c. set (events (queues b' c)) \<subseteq> set (events (queues b c))"
  shows "seqs_disjoint b'"
  unfolding seqs_disjoint_def
proof (intro conjI allI impI)
  fix c d :: event_class
  assume "c \<noteq> d"
  with assms(1) have "seq ` set (events (queues b c)) \<inter> seq ` set (events (queues b d)) = {}"
    by (simp add: seqs_disjoint_def)
  with assms(3) [of c] assms(3) [of d]
  show "seq ` set (events (queues b' c)) \<inter> seq ` set (events (queues b' d)) = {}" by blast
qed (rule assms(2))

interpretation seqs: invariant_machine event_step seqs_disjoint
proof
  fix b op
  assume dis: "seqs_disjoint b"
  then have inv: "event_buffer_inv b" by (simp add: seqs_disjoint_def)
  note inv' = event_buffer.step_inv [OF inv, of op]
  show "seqs_disjoint (event_step op b)"
  proof (cases op)
    case (Enqueue ev)
    have old: "seq e \<le> seqCounter b" if "e \<in> set (events (queues b c))" for e c
      using inv that by (auto simp: event_buffer_inv_def queue_inv_def)
    show ?thesis unfolding seqs_disjoint_def
    proof (intro conjI allI impI)
      fix c d :: event_class
      assume ne: "c \<noteq> d"
      with dis have "seq ` set (events (queues b c)) \<inter> seq ` set (events (queues b d)) = {}"
        by (simp add: seqs_disjoint_def)
      with enqueue_events [of ev b c] enqueue_events [of ev b d] old ne
      show "seq ` set (events (queues (event_step op b) c)) \<inter> seq ` set (events (queues (event_step op b) d)) = {}"
        by (fastforce simp: Enqueue split: if_splits)
    qed (rule inv')
  next
    case (MarkReported seqs)
    show ?thesis by (rule seqs_disjoint_subset [OF dis inv']) (simp add: MarkReported markReported_def)
  next
    case (Confirm seqs)
    show ?thesis by (rule seqs_disjoint_subset [OF dis inv']) (auto simp: Confirm)
  next
    case Clear
    show ?thesis by (rule seqs_disjoint_subset [OF dis inv']) (simp add: Clear clear_events_def makeQueue_def)
  qed
qed

lemma run_events_disjoint [simp]: "seqs_disjoint (run_events cfg ops)"
  unfolding run_events_def
  by (rule seqs.run_inv)
    (simp add: seqs_disjoint_def new_event_buffer_inv, simp add: new_event_buffer_def makeQueue_def
      split: event_class.split)

lemma distinct_merge:
  assumes "seqs_disjoint b" "distinct cs"
  shows "distinct (map seq (concat (map (\<lambda>c. events (queues b c)) cs)))"
  using assms(2)
proof (induction cs)
  case (Cons c cs)
  have "distinct (map seq (events (queues b c)))"
    using inv_sorted [of b c] assms(1) by (simp add: seqs_disjoint_def strict_sorted_iff)
  moreover have "seq ` set (events (queues b c)) \<inter> seq ` set (events (queues b d)) = {}" if "d \<in> set cs" for d
  proof -
    have "c \<noteq> d" using that Cons.prems by auto
    with assms(1) show ?thesis by (simp add: seqs_disjoint_def)
  qed
  ultimately show ?case using Cons by (simp add: image_UN Int_UN_distrib)
qed simp

text \<open>Whatever sequence of enqueue, report, confirm and clear operations led to the buffer, a
  poll of any set of classes returns every buffered event of these classes exactly once, in strictly
  increasing sequence (chronological) order, and a capped poll returns a prefix of that.\<close>

theorem peek_chronological:
  "sorted_wrt (<) (map seq (peek (remdups cs) None (run_events cfg ops)))
   \<and> set (peek (remdups cs) None (run_events cfg ops))
       = (\<Union>c \<in> set cs. set (events (queues (run_events cfg ops) c)))
   \<and> peek (remdups cs) (Some n) (run_events cfg ops) = take n (peek (remdups cs) None (run_events cfg ops))"
proof -
  let ?b = "run_events cfg ops"
  let ?m = "concat (map (\<lambda>c. events (queues ?b c)) (remdups cs))"
  have "distinct (map seq ?m)" by (rule distinct_merge) simp_all
  then have "distinct (map seq (sort_key seq ?m))" unfolding distinct_map by simp
  moreover have "sorted (map seq (sort_key seq ?m))" by simp
  ultimately have "sorted_wrt (<) (map seq (sort_key seq ?m))" by (simp add: strict_sorted_iff)
  then show ?thesis by (simp add: peek_def)
qed

text \<open>The resource bounds and flags of the buffer hold after any sequence of operations: no class
  holds more events than configured (a limit of 0 still keeps the newest one), the delay timer of a
  class runs exactly while it has an unreported event, and the overflow indication is raised exactly
  while some class has an unacknowledged overflow.\<close>

theorem event_buffer_bounded:
  "classSize c (run_events cfg ops) \<le> max 1 (maxEvents (class_config cfg c))
   \<and> (oldestUnreportedAt (queues (run_events cfg ops) c) = None \<longleftrightarrow> unreportedSize c (run_events cfg ops) = 0)
   \<and> (hasOverflow (run_events cfg ops) \<longleftrightarrow> (\<exists>d. overflowed (queues (run_events cfg ops) d)))"
  using run_events_inv [of cfg ops]
  by (simp flip: run_events_config [of cfg ops c] add: event_buffer_inv_def queue_inv_def classSize_def unreportedSize_def hasOverflow_def)

text \<open>No event disappears silently. If a buffered event is gone after one operation then the
  operation confirmed its sequence number, or cleared the buffer, or enqueued an event of the same
  class into a full queue; in the last case the event was the oldest of its class and the overflow
  indication is set.\<close>

theorem event_loss_accounted:
  assumes "e \<in> set (events (queues b c))"
    and "e \<notin> set (events (queues (event_step op b) c))"
  shows "(\<exists>seqs. op = Confirm seqs \<and> seq e \<in> set seqs) \<or> op = Clear
    \<or> (\<exists>ev es. op = Enqueue ev \<and> event_class ev = c \<and> events (queues b c) = e # es
         \<and> length (events (queues b c)) \<ge> maxEvents (config (queues b c))
         \<and> hasOverflow (event_step op b))"
proof (cases op)
  case (Enqueue ev)
  with assms have "c = event_class ev"
    by (metis enqueue_queue(2) event_step.simps(1))
  with assms Enqueue show ?thesis
    by (cases "events (queues b c)")
      (auto simp: enqueue_def Let_def drop_oldest_def hasOverflow_def split: if_splits)
next
  case (MarkReported seqs)
  with assms show ?thesis by (simp add: markReported_def)
qed (use assms in auto)

definition example_event :: event where
  "example_event = \<lparr> seq = 0, pointType = binaryInput, event_index = 7, event_class = Class1,
     event_value = Bool True, event_flags = 0x81, event_timestamp = 1000 \<rparr>"

definition example_buffer :: event_buffer where
  "example_buffer = run_events (DEFAULT_EVENT_BUFFER_CONFIG \<lparr> class1 := \<lparr> maxEvents = 1, unsolicitedThreshold = 5 \<rparr> \<rparr>)
     [Enqueue example_event]"

theorem event_loss_accounted_witness:
  "hasOverflow (event_step (Enqueue example_event) example_buffer)"
proof -
  let ?e = "example_event \<lparr> seq := 1 \<rparr>"
  note defs = example_buffer_def run_events_def new_event_buffer_def makeQueue_def enqueue_def
    drop_oldest_def example_event_def DEFAULT_EVENT_BUFFER_CONFIG_def Let_def
  have "?e \<in> set (events (queues example_buffer Class1))" by (simp add: defs)
  moreover have "?e \<notin> set (events (queues (event_step (Enqueue example_event) example_buffer) Class1))"
    by (simp add: defs)
  ultimately show ?thesis using event_loss_accounted [of ?e example_buffer Class1 "Enqueue example_event"]
    by auto
qed

lemma unreported_mark:
  "unreportedOf (queues (markReported seqs b) c) = filter (\<lambda>e. seq e \<notin> set seqs) (unreportedOf (queues b c))"
  by (auto simp: markReported_def mark_queue_def unreportedOf_def intro!: filter_cong)

lemma set_decision_classes:
  "set (decision_classes (evaluateUnsolicited now b)) = {c. count_due b c \<or> delay_due now b c}"
  "shouldSend (evaluateUnsolicited now b) \<longleftrightarrow> (\<exists>c. count_due b c \<or> delay_due now b c)"
  by (auto simp: evaluateUnsolicited_def Let_def dedupeSorted_def event_class_all
      split: if_splits) (metis event_class.exhaust)+

text \<open>There is no unsolicited storm. Once sequence numbers have been marked reported, a class is
  selected for an unsolicited response exactly when the events it still has to report reach the
  configured count, or the first of them has waited for the configured delay; reported events never
  trigger again although they stay buffered, and a response is sent exactly when some class is
  selected.\<close>

theorem unsolicited_after_report:
  "let b' = markReported seqs b;
       rest = filter (\<lambda>e. seq e \<notin> set seqs) (unreportedOf (queues b c));
       thr = unsolicitedThreshold (config (queues b c))
   in (c \<in> set (decision_classes (evaluateUnsolicited now b')) \<longleftrightarrow>
         rest \<noteq> [] \<and> (0 < thr \<and> thr \<le> length rest
           \<or> 0 < maxDelayMs b \<and> maxDelayMs b \<le> now - event_timestamp (hd rest)))
      \<and> (shouldSend (evaluateUnsolicited now b') \<longleftrightarrow> decision_classes (evaluateUnsolicited now b') \<noteq> [])
      \<and> events (queues b' c) = events (queues b c)"
proof -
  let ?b' = "markReported seqs b"
  have t: "oldestUnreportedAt (queues ?b' c) = (case unreportedOf (queues ?b' c) of [] \<Rightarrow> None
      | e # _ \<Rightarrow> Some (event_timestamp e))"
    by (simp add: markReported_def mark_queue_def refresh_timer_def unreportedOf_def)
  have "c \<in> set (decision_classes (evaluateUnsolicited now ?b')) \<longleftrightarrow> count_due ?b' c \<or> delay_due now ?b' c"
    by (simp add: set_decision_classes)
  also have "\<dots> \<longleftrightarrow> (let rest = unreportedOf (queues ?b' c); thr = unsolicitedThreshold (config (queues b c))
     in rest \<noteq> [] \<and> (0 < thr \<and> thr \<le> length rest
           \<or> 0 < maxDelayMs b \<and> maxDelayMs b \<le> now - event_timestamp (hd rest)))"
    unfolding count_due_def delay_due_def Let_def t
    by (auto simp: markReported_def split: list.splits)
  finally have 1: "c \<in> set (decision_classes (evaluateUnsolicited now ?b')) \<longleftrightarrow> (let rest = unreportedOf (queues ?b' c);
     thr = unsolicitedThreshold (config (queues b c)) in rest \<noteq> [] \<and> (0 < thr \<and> thr \<le> length rest
           \<or> 0 < maxDelayMs b \<and> maxDelayMs b \<le> now - event_timestamp (hd rest)))" .
  have 2: "shouldSend (evaluateUnsolicited now ?b') \<longleftrightarrow> decision_classes (evaluateUnsolicited now ?b') \<noteq> []"
    unfolding set_empty [symmetric] set_decision_classes by auto
  show ?thesis unfolding Let_def using 1 [unfolded unreported_mark Let_def] 2
    by (simp add: markReported_def)
qed

end
