(* ===== verification/Dnp3_EventObjects.thy ===== *)
theory Dnp3_EventObjects
  imports Dnp3_Events Dnp3_App
begin

text \<open>
  Serialisation of buffered events (\<open>dnp3-outstation/event-objects.ts\<close>): the group and variation of
  an event, its octets, and the packing of consecutive events into index-prefixed object headers
  within a byte budget. \<open>write_field\<close> throws on an index that does not fit, so the result of the
  packing is an option.
\<close>

section \<open>Descriptors\<close>

datatype time_policy = no_time | absolute_time | relative_time

text \<open>The counter and analog modes of the source are \<open>no_time\<close> and \<open>absolute_time\<close>.\<close>

record variation_policy =
  binary_mode :: time_policy
  counter_mode :: time_policy
  analog_mode :: time_policy

definition DEFAULT_EVENT_VARIATIONS :: variation_policy where
  "DEFAULT_EVENT_VARIATIONS = \<lparr> binary_mode = absolute_time, counter_mode = absolute_time,
     analog_mode = absolute_time \<rparr>"

datatype time_mode = time_none | time_absolute | time_relative

record descriptor =
  d_seq :: nat
  d_group :: nat
  d_variation :: nat
  d_index :: nat
  d_timestamp :: int
  core :: buffer
  timeMode :: time_mode

primrec timeFieldLength :: "time_mode \<Rightarrow> nat" where
  "timeFieldLength time_absolute = 6"
| "timeFieldLength time_relative = 2"
| "timeFieldLength time_none = 0"

primrec eventGroupFor :: "point_type \<Rightarrow> nat" where
  "eventGroupFor binaryInput = DNP3_GROUP BINARY_INPUT_EVENT"
| "eventGroupFor binaryOutput = DNP3_GROUP BINARY_OUTPUT_EVENT"
| "eventGroupFor counter = DNP3_GROUP COUNTER_EVENT"
| "eventGroupFor analogInput = DNP3_GROUP ANALOG_INPUT_EVENT"
| "eventGroupFor analogOutput = DNP3_GROUP ANALOG_OUTPUT_EVENT"

definition toInt32 :: "number \<Rightarrow> int" where
  "toInt32 v = clampInt v (-2147483648) 2147483647"

definition toUint32 :: "number \<Rightarrow> int" where
  "toUint32 v = clampInt v 0 0xffffffff"

definition describe :: "event \<Rightarrow> nat \<Rightarrow> buffer \<Rightarrow> time_mode \<Rightarrow> descriptor" where
  "describe ev variation octets mode = \<lparr> d_seq = seq ev, d_group = eventGroupFor (pointType ev),
     d_variation = variation, d_index = event_index ev, d_timestamp = event_timestamp ev,
     core = octets, timeMode = mode \<rparr>"

definition describeEvent :: "event \<Rightarrow> analog_encoding \<Rightarrow> variation_policy \<Rightarrow> descriptor" where
  "describeEvent ev enc policy =
     (let flags = event_flags ev AND 0xff;
          num = js_Number (event_value ev)
      in if pointType ev = binaryInput \<or> pointType ev = binaryOutput then
           (let isInput = (pointType ev = binaryInput);
                noTime = (if isInput then DNP3_VARIATION BI_EVENT_NO_TIME else DNP3_VARIATION BO_EVENT_NO_TIME);
                absTime = (if isInput then DNP3_VARIATION BI_EVENT_ABS_TIME else DNP3_VARIATION BO_EVENT_ABS_TIME);
                mode = (if binary_mode policy = relative_time \<and> \<not> isInput then absolute_time
                        else binary_mode policy)
            in case mode of
                 no_time \<Rightarrow> describe ev noTime [flags] time_none
               | relative_time \<Rightarrow> describe ev (DNP3_VARIATION BI_EVENT_REL_TIME) [flags] time_relative
               | absolute_time \<Rightarrow> describe ev absTime [flags] time_absolute)
         else if pointType ev = counter then
           (let withTime = (counter_mode policy = absolute_time)
            in describe ev
                 (if withTime then DNP3_VARIATION CNT_EVENT_32_ABS_TIME else DNP3_VARIATION CNT_EVENT_32_WITH_FLAG)
                 (flags # writeUInt32LE (nat (toUint32 num)))
                 (if withTime then time_absolute else time_none))
         else
           (let withTime = (analog_mode policy = absolute_time);
                isInput = (pointType ev = analogInput);
                variation =
                  (if enc = int32
                   then if withTime
                        then (if isInput then DNP3_VARIATION AI_EVENT_32_ABS_TIME else DNP3_VARIATION AO_EVENT_32_ABS_TIME)
                        else (if isInput then DNP3_VARIATION AI_EVENT_32_WITH_FLAG else DNP3_VARIATION AO_EVENT_32_WITH_FLAG)
                   else if withTime
                        then (if isInput then DNP3_VARIATION AI_EVENT_FLOAT_ABS_TIME else DNP3_VARIATION AO_EVENT_FLOAT_ABS_TIME)
                        else (if isInput then DNP3_VARIATION AI_EVENT_FLOAT_WITH_FLAG else DNP3_VARIATION AO_EVENT_FLOAT_WITH_FLAG))
            in describe ev variation
                 (flags # (if enc = int32 then writeInt32LE (toInt32 num) else writeFloatLE num))
                 (if withTime then time_absolute else time_none)))"

definition buildCtoObject :: "int \<Rightarrow> buffer" where
  "buildCtoObject epochMs =
     [of_nat (DNP3_GROUP TIME_AND_DATE_CTO), of_nat (DNP3_VARIATION CTO_SYNC), 0x07, 0x01]
     @ encodeDnp3Time epochMs"

section \<open>Packing\<close>

text \<open>The loop over the events: it stops at an analog event whose point is not mapped.\<close>

primrec describe_all :: "point_map \<Rightarrow> variation_policy \<Rightarrow> event list \<Rightarrow> descriptor list" where
  "describe_all pm policy [] = []"
| "describe_all pm policy (ev # evs) =
     (let d = getPoint (pointType ev) (event_index ev) pm;
          isAnalog = (pointType ev = analogInput \<or> pointType ev = analogOutput)
      in if isAnalog \<and> d = None then []
         else (let enc = (case d of None \<Rightarrow> float32
                          | Some d \<Rightarrow> (case encoding d of None \<Rightarrow> float32 | Some e \<Rightarrow> e))
               in describeEvent ev enc policy # describe_all pm policy evs))"

definition exceeds :: "nat option \<Rightarrow> nat \<Rightarrow> bool" where
  "exceeds maxBytes n = (case maxBytes of None \<Rightarrow> False | Some m \<Rightarrow> n > m)"

text \<open>The time field of an event in a run with time base \<open>base\<close>; \<open>None\<close> closes the run.\<close>

definition time_field :: "int \<Rightarrow> descriptor \<Rightarrow> buffer option" where
  "time_field base d =
     (case timeMode d of
        time_absolute \<Rightarrow> Some (encodeDnp3Time (d_timestamp d))
      | time_relative \<Rightarrow>
          (let off = d_timestamp d - base
           in if off < 0 \<or> off > 0xffff then None else Some (writeUInt16LE (nat off)))
      | time_none \<Rightarrow> Some [])"

text \<open>
  The inner loop. \<open>used\<close> counts the octets before the items of the run, \<open>n\<close> the items and \<open>len\<close> their
  octets so far. It returns the items, the events they encode and the events left.
\<close>

primrec take_run :: "descriptor \<Rightarrow> bool \<Rightarrow> nat option \<Rightarrow> nat \<Rightarrow> nat \<Rightarrow> nat \<Rightarrow> descriptor list
    \<Rightarrow> (buffer list \<times> descriptor list \<times> descriptor list) option" where
  "take_run first two maxBytes used n len [] = Some ([], [], [])"
| "take_run first two maxBytes used n len (d # ds) =
     (if n \<ge> (if two then 0xffff else 0xff) \<or> d_group d \<noteq> d_group first \<or> d_variation d \<noteq> d_variation first
         \<or> (d_index d > 0xff) \<noteq> two then Some ([], [], d # ds)
      else (case time_field (d_timestamp first) d of
              None \<Rightarrow> Some ([], [], d # ds)
            | Some tf \<Rightarrow>
                (let itemLen = (if two then 2 else 1) + length (core d) + length tf
                 in if exceeds maxBytes (used + len + itemLen) then Some ([], [], d # ds)
                    else (case write_field two (d_index d) of
                            None \<Rightarrow> None
                          | Some pre \<Rightarrow>
                              (case take_run first two maxBytes used (n + 1) (len + itemLen) ds of
                                 None \<Rightarrow> None
                               | Some (its, taken, rest) \<Rightarrow> Some ((pre @ core d @ tf) # its, d # taken, rest))))))"

text \<open>One turn of the outer loop: \<open>None\<close> throws, \<open>Some None\<close> leaves the loop.\<close>

record event_run =
  run_cto :: buffer
  run_header :: buffer
  taken_items :: "buffer list"
  taken_events :: "descriptor list"

definition next_run :: "nat option \<Rightarrow> nat \<Rightarrow> descriptor list \<Rightarrow> (event_run \<times> descriptor list) option option" where
  "next_run maxBytes used ds =
     (case ds of [] \<Rightarrow> Some None
      | first # _ \<Rightarrow>
          (let two = (d_index first > 0xff);
               prefixLen = (if two then 2 else 1);
               countLen = (if two then 2 else 1);
               headerLen = 3 + countLen;
               cto = (if timeMode first = time_relative then buildCtoObject (d_timestamp first) else []);
               firstItemLen = prefixLen + length (core first) + timeFieldLength (timeMode first)
           in if exceeds maxBytes (used + length cto + headerLen + firstItemLen) then Some None
              else (case take_run first two maxBytes (used + length cto + headerLen) 0 0 ds of
                      None \<Rightarrow> None
                    | Some (its, taken, rest) \<Rightarrow>
                        if taken = [] then Some None
                        else (case write_field two (length taken) of
                                None \<Rightarrow> None
                              | Some cnt \<Rightarrow>
                                  Some (Some (\<lparr> run_cto = cto,
                                     run_header = [of_nat (d_group first), of_nat (d_variation first),
                                                   (if two then 0x28 else 0x17)] @ cnt,
                                     taken_items = its, taken_events = taken \<rparr>, rest))))))"

definition event_run_bytes :: "event_run \<Rightarrow> buffer" where
  "event_run_bytes r = run_cto r @ run_header r @ concat (taken_items r)"

lemma take_run_append: "take_run first two maxB used n len ds = Some (its, taken, rest) \<Longrightarrow> ds = taken @ rest"
proof (induction ds arbitrary: n len its taken)
  case (Cons d ds)
  then show ?case by (force simp: Let_def split: if_splits option.splits)
qed simp

lemma next_run_append:
  "next_run maxB used ds = Some (Some (r, rest)) \<Longrightarrow> ds = taken_events r @ rest \<and> taken_events r \<noteq> []"
  by (auto simp: next_run_def Let_def split: list.splits if_splits option.splits dest!: take_run_append)

lemma next_run_progress: "next_run maxB used ds = Some (Some (r, rest)) \<Longrightarrow> length rest < length ds"
  using next_run_append [of maxB used ds r rest] by (cases "taken_events r") auto

text \<open>The outer loop: the runs in order.\<close>

function event_runs :: "nat option \<Rightarrow> nat \<Rightarrow> descriptor list \<Rightarrow> event_run list option" where
  "event_runs maxBytes used ds =
     (case next_run maxBytes used ds of
        None \<Rightarrow> None
      | Some None \<Rightarrow> Some []
      | Some (Some (r, rest)) \<Rightarrow>
          (case event_runs maxBytes (used + length (event_run_bytes r)) rest of
             None \<Rightarrow> None
           | Some rs \<Rightarrow> Some (r # rs)))"
  by pat_completeness auto
termination
  by (relation "measure (\<lambda>(maxBytes, used, ds). length ds)") (auto dest: next_run_progress)

declare event_runs.simps [simp del]

record encode_result =
  enc_bytes :: buffer
  encodedSeqs :: "nat list"
  remaining :: nat

definition buildEventObjects :: "event list \<Rightarrow> point_map \<Rightarrow> variation_policy \<Rightarrow> nat option \<Rightarrow> encode_result option" where
  "buildEventObjects evs pm policy maxBytes =
     (case event_runs maxBytes 0 (describe_all pm policy evs) of
        None \<Rightarrow> None
      | Some rs \<Rightarrow>
          (let seqs = concat (map (\<lambda>r. map d_seq (taken_events r)) rs)
           in Some \<lparr> enc_bytes = concat (map event_run_bytes rs), encodedSeqs = seqs,
                     remaining = length evs - length seqs \<rparr>))"


section \<open>Shape of the runs\<close>

definition index_field :: "bool \<Rightarrow> nat \<Rightarrow> buffer" where
  "index_field two i = (if two then writeUInt16LE i else [of_nat i])"

definition event_item :: "bool \<Rightarrow> int \<Rightarrow> descriptor \<Rightarrow> buffer" where
  "event_item two base d = index_field two (d_index d) @ core d @ the (time_field base d)"

definition max_count :: "bool \<Rightarrow> nat" where
  "max_count two = (if two then 0xffff else 0xff)"

definition in_run :: "descriptor \<Rightarrow> bool \<Rightarrow> descriptor \<Rightarrow> bool" where
  "in_run first two d \<longleftrightarrow> d_group d = d_group first \<and> d_variation d = d_variation first
     \<and> (d_index d > 0xff) = two \<and> d_index d < 65536 \<and> time_field (d_timestamp first) d \<noteq> None"

lemma write_field_Some: "write_field two n = Some b \<longleftrightarrow> b = index_field two n \<and> n < (if two then 65536 else 256)"
  by (auto simp: write_field_def index_field_def)

lemma length_index_field [simp]: "length (index_field two n) = (if two then 2 else 1)"
  by (simp add: index_field_def)

lemma take_run_spec:
  assumes "take_run first two maxB used n len ds = Some (its, taken, rest)" "n \<le> max_count two"
    "\<not> exceeds maxB (used + len)"
  shows "its = map (event_item two (d_timestamp first)) taken \<and> list_all (in_run first two) taken
    \<and> n + length taken \<le> max_count two \<and> \<not> exceeds maxB (used + len + length (concat its))"
  using assms
proof (induction ds arbitrary: n len its taken)
  case (Cons d ds)
  show ?case
  proof (cases "taken = []")
    case True
    with Cons.prems show ?thesis by (auto simp: Let_def split: if_splits option.splits)
  next
    case False
    let ?e = "\<lambda>tf. (if two then 2 else 1) + length (core d) + length tf"
    from Cons.prems(1) False obtain tf its' taken' where tf: "time_field (d_timestamp first) d = Some tf"
      and n: "n < max_count two" and same: "d_group d = d_group first" "d_variation d = d_variation first"
        "(d_index d > 0xff) = two"
      and ex: "\<not> exceeds maxB (used + (len + ?e tf))" and idx: "d_index d < (if two then 65536 else 256)"
      and rec: "take_run first two maxB used (n + 1) (len + ?e tf) ds = Some (its', taken', rest)"
      and eqs: "its = (index_field two (d_index d) @ core d @ tf) # its'" "taken = d # taken'"
      by (auto simp: Let_def max_count_def write_field_Some add.assoc split: if_splits option.splits)
    have "n + 1 \<le> max_count two" using n by simp
    note IH = Cons.IH [OF rec this ex]
    have "in_run first two d" using same tf idx by (auto simp: in_run_def split: if_splits)
    moreover have "event_item two (d_timestamp first) d = index_field two (d_index d) @ core d @ tf"
      by (simp add: event_item_def tf)
    ultimately show ?thesis using IH by (cases two) (auto simp: eqs add_ac)
  qed
qed simp

text \<open>A run as a master reads it: an optional time base, one header, as many items as announced.\<close>

definition run_wf :: "event_run \<Rightarrow> bool" where
  "run_wf r \<longleftrightarrow> taken_events r \<noteq> [] \<and>
     (let first = hd (taken_events r); two = (d_index first > 0xff)
      in list_all (in_run first two) (taken_events r)
         \<and> length (taken_events r) \<le> max_count two
         \<and> run_cto r = (if timeMode first = time_relative then buildCtoObject (d_timestamp first) else [])
         \<and> run_header r = [of_nat (d_group first), of_nat (d_variation first), (if two then 0x28 else 0x17)]
              @ index_field two (length (taken_events r))
         \<and> taken_items r = map (event_item two (d_timestamp first)) (taken_events r))"

lemma next_run_spec:
  assumes "next_run maxB used ds = Some (Some (r, rest))"
  shows "run_wf r \<and> \<not> exceeds maxB (used + length (event_run_bytes r))"
proof -
  from assms obtain first ds' where ds: "ds = first # ds'" by (cases ds) (auto simp: next_run_def)
  let ?two = "d_index first > 0xff"
  let ?cto = "if timeMode first = time_relative then buildCtoObject (d_timestamp first) else []"
  let ?h = "3 + (if ?two then 2 else 1)"
  from assms obtain its taken cnt where
    tr: "take_run first ?two maxB (used + length ?cto + ?h) 0 0 ds = Some (its, taken, rest)"
    and ex: "\<not> exceeds maxB (used + length ?cto + ?h + ((if ?two then 2 else 1) + length (core first)
        + timeFieldLength (timeMode first)))"
    and ne: "taken \<noteq> []" and cnt: "write_field ?two (length taken) = Some cnt"
    and r: "r = \<lparr> run_cto = ?cto, run_header = [of_nat (d_group first), of_nat (d_variation first),
        (if ?two then 0x28 else 0x17)] @ cnt, taken_items = its, taken_events = taken \<rparr>"
    unfolding ds next_run_def Let_def list.case
    by (auto split: if_split_asm option.splits)
  have "\<not> exceeds maxB (used + length ?cto + ?h + 0)" using ex by (auto simp: exceeds_def split: option.splits)
  note S = take_run_spec [OF tr _ this]
  have hd: "hd taken = first" using take_run_append [OF tr] ds ne by (cases taken) auto
  have c: "cnt = index_field ?two (length taken)" using cnt by (simp add: write_field_Some)
  have len: "length (event_run_bytes r) = length ?cto + ?h + length (concat its)"
    by (simp add: event_run_bytes_def r c)
  have "\<not> exceeds maxB (used + length (event_run_bytes r))"
    using S [OF le0, THEN conjunct2, THEN conjunct2, THEN conjunct2] unfolding len
    by (simp only: add.assoc add_0_right not_False_eq_True)
  moreover have "run_wf r" using S ne hd by (simp add: run_wf_def r c Let_def)
  ultimately show ?thesis by simp
qed

lemma event_runs_spec:
  "event_runs maxB used ds = Some rs \<Longrightarrow> \<not> exceeds maxB used \<Longrightarrow>
     list_all run_wf rs \<and> (\<exists>rest. ds = concat (map taken_events rs) @ rest)
     \<and> \<not> exceeds maxB (used + length (concat (map event_run_bytes rs)))"
proof (induction maxB used ds arbitrary: rs rule: event_runs.induct)
  case (1 maxB used ds)
  show ?case
  proof (cases "next_run maxB used ds")
    case None
    with 1(2) show ?thesis by (simp add: event_runs.simps [of maxB used ds])
  next
    case (Some o')
    show ?thesis
    proof (cases o')
      case None
      with Some 1(2,3) show ?thesis by (simp add: event_runs.simps [of maxB used ds])
    next
      case o: (Some x)
      obtain r rest where x: "x = (r, rest)" by (cases x)
      have nr: "next_run maxB used ds = Some (Some (r, rest))" using Some o x by simp
      obtain rs' where rec: "event_runs maxB (used + length (event_run_bytes r)) rest = Some rs'" and rs: "rs = r # rs'"
        using 1(2) nr by (subst (asm) event_runs.simps) (auto split: option.splits)
      have S: "run_wf r" "\<not> exceeds maxB (used + length (event_run_bytes r))" using next_run_spec [OF nr] by simp_all
      from 1(1) [OF Some o x [symmetric] rec S(2)] obtain rest' where
        "list_all run_wf rs'" "rest = concat (map taken_events rs') @ rest'"
        "\<not> exceeds maxB (used + length (event_run_bytes r) + length (concat (map event_run_bytes rs')))" by blast
      then show ?thesis using S next_run_append [OF nr] by (auto simp: rs add.assoc)
    qed
  qed
qed

lemma describe_all_prefix: "\<exists>n. map d_seq (describe_all pm policy evs) = take n (map seq evs)"
proof (induction evs)
  case (Cons ev evs)
  then obtain n where n: "map d_seq (describe_all pm policy evs) = take n (map seq evs)" by blast
  have "d_seq (describeEvent ev enc policy) = seq ev" for enc
    by (simp add: describeEvent_def describe_def Let_def split: time_policy.splits)
  with n show ?case
    by (auto simp: Let_def intro: exI [of _ 0] exI [of _ "Suc n"])
qed simp

lemma build_prefix_fits:
  assumes "buildEventObjects evs pm policy maxB = Some r"
  shows "encodedSeqs r = take (length (encodedSeqs r)) (map seq evs)
    \<and> length (encodedSeqs r) + remaining r = length evs
    \<and> (case maxB of None \<Rightarrow> True | Some m \<Rightarrow> length (enc_bytes r) \<le> m)"
proof -
  from assms obtain rs where rs: "event_runs maxB 0 (describe_all pm policy evs) = Some rs"
    and r: "enc_bytes r = concat (map event_run_bytes rs)" "encodedSeqs r = map d_seq (concat (map taken_events rs))"
      "remaining r = length evs - length (encodedSeqs r)"
    by (auto simp: buildEventObjects_def Let_def map_concat comp_def split: option.splits)
  have "\<not> exceeds maxB 0" by (simp add: exceeds_def split: option.splits)
  from event_runs_spec [OF rs this] obtain rest where
    d: "describe_all pm policy evs = concat (map taken_events rs) @ rest"
    and ex: "\<not> exceeds maxB (length (concat (map event_run_bytes rs)))" by auto
  obtain n where n: "map d_seq (describe_all pm policy evs) = take n (map seq evs)" using describe_all_prefix by blast
  have "encodedSeqs r @ map d_seq rest = take n (map seq evs)" using d n r(2) by simp
  then have "take (length (encodedSeqs r)) (take n (map seq evs)) = encodedSeqs r"
    and le: "length (encodedSeqs r) \<le> length evs"
    by (metis append_eq_conv_conj) (metis \<open>encodedSeqs r @ _ = _\<close> append_eq_conv_conj length_append length_map
        length_take min.cobounded1 le_add1 le_trans)
  moreover have "length (encodedSeqs r) \<le> n"
    using \<open>encodedSeqs r @ _ = _\<close> by (metis length_append length_take le_add1 le_trans min.cobounded2)
  ultimately have "take (length (encodedSeqs r)) (map seq evs) = encodedSeqs r" by (simp add: min_def)
  then show ?thesis using le ex r by (auto simp: exceeds_def split: option.splits)
qed


section \<open>What a master reads\<close>

text \<open>
  A reference decoder for event responses, from the object definitions of IEEE 1815: the sizes of
  the supported event objects, index-prefixed headers, and the common time of occurrence that
  relative times refer to. It yields group, variation, index, flag and value octets, and time.
\<close>

definition event_layout :: "nat \<Rightarrow> nat \<Rightarrow> (nat \<times> time_mode) option" where
  "event_layout g v =
     (if g = 2 \<or> g = 11 then
        (if v = 1 then Some (1, time_none) else if v = 2 then Some (1, time_absolute)
         else if v = 3 \<and> g = 2 then Some (1, time_relative) else None)
      else if g = 22 then
        (if v = 1 then Some (5, time_none) else if v = 5 then Some (5, time_absolute) else None)
      else if g = 32 \<or> g = 42 then
        (if v = 1 \<or> v = 5 then Some (5, time_none) else if v = 3 \<or> v = 7 then Some (5, time_absolute) else None)
      else None)"

definition decode_time :: "time_mode \<Rightarrow> int option \<Rightarrow> buffer \<Rightarrow> int option option" where
  "decode_time mode cto b =
     (case mode of
        time_none \<Rightarrow> Some None
      | time_absolute \<Rightarrow> Some (Some (int (le_val b)))
      | time_relative \<Rightarrow> (case cto of None \<Rightarrow> None | Some t \<Rightarrow> Some (Some (t + int (le_val b)))))"

primrec decode_items :: "bool \<Rightarrow> nat \<Rightarrow> time_mode \<Rightarrow> int option \<Rightarrow> nat \<Rightarrow> buffer
    \<Rightarrow> ((nat \<times> buffer \<times> int option) list \<times> buffer) option" where
  "decode_items two sz mode cto 0 b = Some ([], b)"
| "decode_items two sz mode cto (Suc n) b =
     (let p = (if two then 2 else 1); tl' = timeFieldLength mode
      in if length b < p + sz + tl' then None
         else (case (decode_time mode cto (take tl' (drop (p + sz) b)),
                     decode_items two sz mode cto n (drop (p + sz + tl') b)) of
                 (Some tm, Some (xs, rest)) \<Rightarrow> Some ((le_val (take p b), take sz (drop p b), tm) # xs, rest)
               | _ \<Rightarrow> None))"

definition is_cto :: "buffer \<Rightarrow> bool" where
  "is_cto b \<longleftrightarrow> take 4 b = [51, 1, 0x07, 1] \<and> length b \<ge> 10"

definition decode_block :: "int option \<Rightarrow> buffer
    \<Rightarrow> ((nat \<times> nat \<times> nat \<times> buffer \<times> int option) list \<times> buffer) option" where
  "decode_block cto b =
     (if length b < 4 \<or> (b ! 2 \<noteq> 0x17 \<and> b ! 2 \<noteq> 0x28) then None
      else (let g = unat (b ! 0); v = unat (b ! 1); two = (b ! 2 = 0x28);
                n = le_val (take (if two then 2 else 1) (drop 3 b))
            in case event_layout g v of
                 None \<Rightarrow> None
               | Some (sz, mode) \<Rightarrow>
                   (case decode_items two sz mode cto n (drop (if two then 5 else 4) b) of
                      None \<Rightarrow> None
                    | Some (xs, rest) \<Rightarrow> Some (map (\<lambda>(i, c, tm). (g, v, i, c, tm)) xs, rest))))"

primrec decode_blocks :: "nat \<Rightarrow> int option \<Rightarrow> buffer \<Rightarrow> (nat \<times> nat \<times> nat \<times> buffer \<times> int option) list option" where
  "decode_blocks 0 cto b = None"
| "decode_blocks (Suc k) cto b =
     (if b = [] then Some []
      else if is_cto b then decode_blocks k (Some (int (le_val (take 6 (drop 4 b))))) (drop 10 b)
      else (case decode_block cto b of
              None \<Rightarrow> None
            | Some (xs, rest) \<Rightarrow>
                (case decode_blocks k None rest of None \<Rightarrow> None | Some ys \<Rightarrow> Some (xs @ ys))))"

definition decodeEvents :: "buffer \<Rightarrow> (nat \<times> nat \<times> nat \<times> buffer \<times> int option) list option" where
  "decodeEvents b = decode_blocks (Suc (length b)) None b"

definition desc_time :: "descriptor \<Rightarrow> int option" where
  "desc_time d = (if timeMode d = time_none then None else Some (d_timestamp d))"

definition desc_ok :: "descriptor \<Rightarrow> bool" where
  "desc_ok d \<longleftrightarrow> event_layout (d_group d) (d_variation d) = Some (length (core d), timeMode d)
     \<and> 0 \<le> d_timestamp d \<and> d_timestamp d \<le> DNP3_TIME_MAX"

lemma of_nat_byte_eq': "a < 256 \<Longrightarrow> b < 256 \<Longrightarrow> (of_nat a :: byte) = of_nat b \<longleftrightarrow> a = b"
  by (metis mod_less unat_of_nat_byte)

lemma le_val_time: "0 \<le> t \<Longrightarrow> t \<le> DNP3_TIME_MAX \<Longrightarrow> int (le_val (encodeDnp3Time t)) = t"
  by (simp add: encodeDnp3Time_def le_val_le_bytes DNP3_TIME_MAX_def)

lemma le_val_index: "n < (if two then 65536 else 256) \<Longrightarrow> le_val (index_field two n) = n"
  by (cases two) (simp_all add: index_field_def le_val_le_bytes)

lemma in_run_layout:
  assumes "in_run first two d" "desc_ok d" "desc_ok first"
  shows "length (core d) = length (core first)" "timeMode d = timeMode first"
  using assms by (auto simp: in_run_def desc_ok_def)

lemma in_run_time:
  assumes "in_run first two d" "desc_ok d" "desc_ok first"
  shows "\<exists>tf. time_field (d_timestamp first) d = Some tf \<and> length tf = timeFieldLength (timeMode first)
    \<and> decode_time (timeMode first) (if timeMode first = time_relative then Some (d_timestamp first) else None) tf
        = Some (desc_time d)"
proof -
  have m: "timeMode d = timeMode first" by (rule in_run_layout [OF assms])
  show ?thesis
  proof (cases "timeMode first")
    case time_none
    with m show ?thesis by (simp add: time_field_def decode_time_def desc_time_def)
  next
    case time_absolute
    with m assms(2) show ?thesis
      by (simp add: time_field_def decode_time_def desc_time_def desc_ok_def le_val_time)
  next
    case time_relative
    with m assms(1) have "0 \<le> d_timestamp d - d_timestamp first" "d_timestamp d - d_timestamp first \<le> 0xffff"
      by (auto simp: in_run_def time_field_def Let_def split: if_splits)
    with m time_relative show ?thesis
      by (simp add: time_field_def decode_time_def desc_time_def Let_def le_val_le_bytes)
  qed
qed

lemma decode_items_step:
  assumes "length ix = (if two then 2 else 1)" "length c = sz" "length tf = timeFieldLength mode"
    "decode_time mode cto tf = Some tm" "decode_items two sz mode cto n tail = Some (xs, rest)"
  shows "decode_items two sz mode cto (Suc n) (ix @ c @ tf @ tail) = Some ((le_val ix, c, tm) # xs, rest)"
  using assms by (cases two) (simp_all add: Let_def)

lemma decode_items_build:
  assumes "list_all (in_run first two) ds" "list_all desc_ok ds" "desc_ok first"
  shows "decode_items two (length (core first)) (timeMode first)
      (if timeMode first = time_relative then Some (d_timestamp first) else None) (length ds)
      (concat (map (event_item two (d_timestamp first)) ds) @ rest)
    = Some (map (\<lambda>d. (d_index d, core d, desc_time d)) ds, rest)"
  using assms(1,2)
proof (induction ds)
  case (Cons d ds)
  let ?cto = "if timeMode first = time_relative then Some (d_timestamp first) else None"
  from Cons.prems have d: "in_run first two d" "desc_ok d" by simp_all
  from in_run_time [OF d assms(3)] obtain tf where tf: "time_field (d_timestamp first) d = Some tf"
    "length tf = timeFieldLength (timeMode first)" "decode_time (timeMode first) ?cto tf = Some (desc_time d)" by blast
  have idx: "le_val (index_field two (d_index d)) = d_index d"
    using d(1) by (intro le_val_index) (auto simp: in_run_def)
  have bytes: "concat (map (event_item two (d_timestamp first)) (d # ds)) @ rest
      = index_field two (d_index d) @ core d @ tf @ concat (map (event_item two (d_timestamp first)) ds) @ rest"
    by (simp add: event_item_def [of _ _ d] tf)
  have IH: "decode_items two (length (core first)) (timeMode first) ?cto (length ds)
      (concat (map (event_item two (d_timestamp first)) ds) @ rest)
      = Some (map (\<lambda>d. (d_index d, core d, desc_time d)) ds, rest)" using Cons by simp
  show ?case unfolding bytes
    using decode_items_step [OF _ in_run_layout(1) [OF d assms(3)] tf(2,3) IH, of "index_field two (d_index d)"] idx
    by (simp del: decode_items.simps)
qed simp

lemma decode_blocks_Suc: "decode_blocks k cto b = Some ys \<Longrightarrow> decode_blocks (Suc k) cto b = Some ys"
proof (induction k arbitrary: cto b ys)
  case (Suc k)
  show ?case
  proof (cases "b = [] \<or> is_cto b")
    case True
    then consider "b = []" | "b \<noteq> []" "is_cto b" by blast
    then show ?thesis
    proof cases
      case 1
      with Suc.prems show ?thesis by simp
    next
      case 2
      then have "decode_blocks (Suc j) cto b = decode_blocks j (Some (int (le_val (take 6 (drop 4 b))))) (drop 10 b)" for j
        by simp
      with Suc.prems Suc.IH show ?thesis by (metis (no_types))
    qed
  next
    case False
    with Suc.prems obtain xs rest zs where "decode_block cto b = Some (xs, rest)" "decode_blocks k None rest = Some zs"
      "ys = xs @ zs" by (auto split: option.splits)
    with False Suc.IH [of None rest zs] show ?thesis by (simp del: decode_blocks.simps add: decode_blocks.simps(2) [of "Suc k"])
  qed
qed simp

lemma decode_blocks_mono: "decode_blocks k cto b = Some ys \<Longrightarrow> k \<le> k' \<Longrightarrow> decode_blocks k' cto b = Some ys"
proof (induction "k' - k" arbitrary: k')
  case (Suc n)
  then have "decode_blocks (k' - 1) cto b = Some ys" by simp
  then have "decode_blocks (Suc (k' - 1)) cto b = Some ys" by (rule decode_blocks_Suc)
  with Suc show ?case by (simp del: decode_blocks.simps)
qed simp

definition desc_view :: "descriptor \<Rightarrow> nat \<times> nat \<times> nat \<times> buffer \<times> int option" where
  "desc_view d = (d_group d, d_variation d, d_index d, core d, desc_time d)"

lemma decode_block_run:
  assumes "run_wf r" "list_all desc_ok (taken_events r)" "first = hd (taken_events r)"
  shows "decode_block (if timeMode first = time_relative then Some (d_timestamp first) else None)
      (run_header r @ concat (taken_items r) @ rest) = Some (map desc_view (taken_events r), rest)
    \<and> \<not> is_cto (run_header r @ concat (taken_items r) @ rest)"
proof -
  define two ds where "two = (d_index first > 0xff)" and "ds = taken_events r"
  from assms(1,3) have wf: "ds \<noteq> []" "list_all (in_run first two) ds" "length ds \<le> max_count two"
    "run_header r = [of_nat (d_group first), of_nat (d_variation first), (if two then 0x28 else 0x17)]
       @ index_field two (length ds)"
    "taken_items r = map (event_item two (d_timestamp first)) ds"
    by (simp_all add: run_wf_def Let_def two_def ds_def)
  have ok: "desc_ok first" using assms(2,3) wf(1) by (cases "taken_events r") (auto simp: ds_def)
  then have lay: "event_layout (d_group first) (d_variation first) = Some (length (core first), timeMode first)"
    by (simp add: desc_ok_def)
  then have gv: "d_group first < 256" "d_variation first < 256" "d_group first \<noteq> 51"
    by (auto simp: event_layout_def split: if_splits)
  have g51: "(of_nat (d_group first) :: byte) \<noteq> 51"
    using gv of_nat_byte_eq' [OF gv(1), of 51] by simp
  have cnt: "le_val (index_field two (length ds)) = length ds"
    using wf(3) by (intro le_val_index) (auto simp: max_count_def)
  note it = decode_items_build [OF wf(2) assms(2) [folded ds_def] ok, of rest]
  define b where "b = run_header r @ concat (taken_items r) @ rest"
  have b: "\<not> length b < 4" "b ! 2 = (if two then 0x28 else 0x17)" "unat (b ! 0) = d_group first"
    "unat (b ! 1) = d_variation first" "take (if two then 2 else 1) (drop 3 b) = index_field two (length ds)"
    "drop (if two then 5 else 4) b = concat (map (event_item two (d_timestamp first)) ds) @ rest"
    using gv by (simp_all add: b_def wf(4,5))
  have two: "(b ! 2 = 0x28) = two" "b ! 2 = 0x17 \<or> two" using b(2) by simp_all
  have same: "map (\<lambda>d. (d_group first, d_variation first, d_index d, core d, desc_time d)) ds = map desc_view ds"
    using wf(2) by (auto simp: list_all_iff in_run_def desc_view_def)
  have "decode_block (if timeMode first = time_relative then Some (d_timestamp first) else None) b
      = Some (map desc_view ds, rest)"
    unfolding decode_block_def Let_def two(1) b(3-6) cnt lay option.case prod.case it
    using b(1) two(2) same by (simp add: comp_def)
  moreover have "\<not> is_cto b" using g51 by (auto simp: is_cto_def b_def wf(4))
  ultimately show ?thesis by (simp add: b_def ds_def)
qed

lemma decode_blocks_run:
  assumes "run_wf r" "list_all desc_ok (taken_events r)" "decode_blocks k None rest = Some ys"
  shows "decode_blocks (Suc (Suc k)) None (event_run_bytes r @ rest) = Some (map desc_view (taken_events r) @ ys)"
proof -
  define first where "first = hd (taken_events r)"
  let ?cto = "if timeMode first = time_relative then Some (d_timestamp first) else None"
  let ?b = "run_header r @ concat (taken_items r) @ rest"
  have ne: "?b \<noteq> []" using assms(1) by (auto simp: run_wf_def Let_def)
  have one: "decode_blocks (Suc k) ?cto ?b = Some (map desc_view (taken_events r) @ ys)"
    unfolding decode_blocks.simps(2)
    using decode_block_run [OF assms(1,2) first_def, of rest] ne assms(3) by (auto simp only: if_False option.case prod.case)
  have ok: "desc_ok first" using assms(1,2) by (cases "taken_events r") (auto simp: first_def run_wf_def)
  show ?thesis
  proof (cases "timeMode first = time_relative")
    case True
    define c where "c = encodeDnp3Time (d_timestamp first)"
    have c: "length c = 6" "int (le_val c) = d_timestamp first"
      using ok by (simp_all add: c_def le_val_time desc_ok_def)
    have bytes: "event_run_bytes r @ rest = [51, 1, 0x07, 1] @ c @ ?b"
      using assms(1) True by (simp add: event_run_bytes_def run_wf_def Let_def first_def buildCtoObject_def c_def)
    have "decode_blocks (Suc (Suc k)) None (event_run_bytes r @ rest) = decode_blocks (Suc k) (Some (int (le_val c))) ?b"
      unfolding bytes by (subst decode_blocks.simps(2)) (simp add: is_cto_def c(1) del: decode_blocks.simps)
    with one True c(2) show ?thesis by (simp del: decode_blocks.simps)
  next
    case False
    then have "event_run_bytes r @ rest = ?b"
      using assms(1) by (simp add: event_run_bytes_def run_wf_def Let_def first_def)
    with one False decode_blocks_Suc [of "Suc k"] show ?thesis by (simp del: decode_blocks.simps)
  qed
qed

lemma decode_runs:
  "list_all run_wf rs \<Longrightarrow> list_all desc_ok (concat (map taken_events rs)) \<Longrightarrow>
     decode_blocks (Suc (2 * length rs)) None (concat (map event_run_bytes rs))
       = Some (map desc_view (concat (map taken_events rs)))"
proof (induction rs)
  case (Cons r rs)
  then have "decode_blocks (Suc (2 * length rs)) None (concat (map event_run_bytes rs))
      = Some (map desc_view (concat (map taken_events rs)))" by simp
  from decode_blocks_run [OF _ _ this, of r] Cons.prems show ?case by (simp del: decode_blocks.simps)
qed simp

text \<open>The descriptors of buffered events have the layout of their group and variation.\<close>

lemma describeEvent_fields [simp]:
  "d_timestamp (describeEvent ev enc policy) = event_timestamp ev"
  "d_index (describeEvent ev enc policy) = event_index ev"
  "d_group (describeEvent ev enc policy) = eventGroupFor (pointType ev)"
  "d_seq (describeEvent ev enc policy) = seq ev"
  by (auto simp: describeEvent_def describe_def Let_def split: time_policy.splits)

lemma describeEvent_layout:
  "event_layout (eventGroupFor (pointType ev)) (d_variation (describeEvent ev enc policy))
     = Some (length (core (describeEvent ev enc policy)), timeMode (describeEvent ev enc policy))"
  by (cases "pointType ev")
    (auto simp: describeEvent_def describe_def event_layout_def Let_def split: time_policy.splits)

definition time_ok :: "event \<Rightarrow> bool" where
  "time_ok ev \<longleftrightarrow> 0 \<le> event_timestamp ev \<and> event_timestamp ev \<le> DNP3_TIME_MAX"

lemma describe_all_ok: "list_all time_ok evs \<Longrightarrow> list_all desc_ok (describe_all pm policy evs)"
  by (induction evs) (auto simp: Let_def desc_ok_def describeEvent_layout time_ok_def)

lemma length_runs: "list_all run_wf rs \<Longrightarrow> 2 * length rs \<le> length (concat (map event_run_bytes rs))"
  by (induction rs) (auto simp: event_run_bytes_def run_wf_def Let_def)

lemma build_decodes:
  assumes "buildEventObjects evs pm policy maxB = Some r" "list_all time_ok evs"
  shows "decodeEvents (enc_bytes r)
    = Some (map desc_view (take (length (encodedSeqs r)) (describe_all pm policy evs)))"
proof -
  from assms obtain rs where rs: "event_runs maxB 0 (describe_all pm policy evs) = Some rs"
    and r: "enc_bytes r = concat (map event_run_bytes rs)" "encodedSeqs r = map d_seq (concat (map taken_events rs))"
    by (auto simp: buildEventObjects_def Let_def map_concat comp_def split: option.splits)
  have "\<not> exceeds maxB 0" by (simp add: exceeds_def split: option.splits)
  from event_runs_spec [OF rs this] obtain rest where wf: "list_all run_wf rs"
    and d: "describe_all pm policy evs = concat (map taken_events rs) @ rest" by auto
  have "list_all desc_ok (concat (map taken_events rs))"
    using describe_all_ok [OF assms(2), of pm policy] d by simp
  from decode_blocks_mono [OF decode_runs [OF wf this]] length_runs [OF wf]
  have "decodeEvents (enc_bytes r) = Some (map desc_view (concat (map taken_events rs)))"
    by (simp add: decodeEvents_def r(1) del: decode_blocks.simps)
  moreover have "take (length (encodedSeqs r)) (describe_all pm policy evs) = concat (map taken_events rs)"
    by (simp add: d r(2))
  ultimately show ?thesis by simp
qed

lemma build_length:
  assumes "buildEventObjects evs pm policy maxB = Some r"
  shows "length (encodedSeqs r) \<le> length (describe_all pm policy evs)"
proof -
  from assms obtain rs where rs: "event_runs maxB 0 (describe_all pm policy evs) = Some rs"
    and r: "encodedSeqs r = map d_seq (concat (map taken_events rs))"
    by (auto simp: buildEventObjects_def Let_def map_concat comp_def split: option.splits)
  have "\<not> exceeds maxB 0" by (simp add: exceeds_def split: option.splits)
  from event_runs_spec [OF rs this] obtain rest where "describe_all pm policy evs = concat (map taken_events rs) @ rest" by auto
  then show ?thesis by (simp add: r)
qed

section \<open>What the octets mean\<close>

text \<open>
  What the standard says a decoded object tells a master: group, variation, index, the flag octet, the value and the time. The
  state of a binary point is a bit of its flags; counters are 32 bits without sign; analog values are 32 bits with sign
  (variations 1 and 3) or binary32 (variations 5 and 7).
\<close>

datatype reading = StateInFlags | CountReading int | IntReading int | FloatReading number

definition object_reading :: "nat \<times> nat \<times> nat \<times> buffer \<times> int option \<Rightarrow> nat \<times> nat \<times> nat \<times> byte \<times> reading \<times> int option" where
  "object_reading = (\<lambda>(g, v, i, c, tm). (g, v, i, hd c,
     (if g = 2 \<or> g = 11 then StateInFlags
      else if g = 22 then CountReading (int (le_val (drop 1 c)))
      else if v = 1 \<or> v = 3 then IntReading (signed_val 32 (le_val (drop 1 c)))
      else FloatReading (float_decode 24 8 (le_val (drop 1 c)))), tm))"

text \<open>
  What a buffered event should tell it, from the event, the encoding of its point and the policy: a table of variations, the value
  cut to the range of its type, or rounded to binary32, and the time of the event where the policy asks for one (a relative time
  exists for binary inputs only).
\<close>

primrec group_number :: "point_type \<Rightarrow> nat" where
  "group_number binaryInput = 2"
| "group_number binaryOutput = 11"
| "group_number counter = 22"
| "group_number analogInput = 32"
| "group_number analogOutput = 42"

primrec policy_for :: "point_type \<Rightarrow> variation_policy \<Rightarrow> time_policy" where
  "policy_for binaryInput policy = binary_mode policy"
| "policy_for binaryOutput policy = (if binary_mode policy = no_time then no_time else absolute_time)"
| "policy_for counter policy = (if counter_mode policy = absolute_time then absolute_time else no_time)"
| "policy_for analogInput policy = (if analog_mode policy = absolute_time then absolute_time else no_time)"
| "policy_for analogOutput policy = (if analog_mode policy = absolute_time then absolute_time else no_time)"

primrec variation_number :: "point_type \<Rightarrow> analog_encoding \<Rightarrow> time_policy \<Rightarrow> nat" where
  "variation_number binaryInput enc t = (case t of no_time \<Rightarrow> 1 | absolute_time \<Rightarrow> 2 | relative_time \<Rightarrow> 3)"
| "variation_number binaryOutput enc t = (if t = no_time then 1 else 2)"
| "variation_number counter enc t = (if t = no_time then 1 else 5)"
| "variation_number analogInput enc t = (if enc = int32 then (if t = no_time then 1 else 3) else (if t = no_time then 5 else 7))"
| "variation_number analogOutput enc t = (if enc = int32 then (if t = no_time then 1 else 3) else (if t = no_time then 5 else 7))"

definition point_encoding :: "point_map \<Rightarrow> event \<Rightarrow> analog_encoding" where
  "point_encoding pm ev = (case getPoint (pointType ev) (event_index ev) pm of
     None \<Rightarrow> float32 | Some d \<Rightarrow> (case encoding d of None \<Rightarrow> float32 | Some e \<Rightarrow> e))"

definition event_number :: "event \<Rightarrow> number" where
  "event_number ev = (case event_value ev of Num x \<Rightarrow> x | Bool b \<Rightarrow> num_of_int (if b then 1 else 0))"

definition cut_to :: "int \<Rightarrow> int \<Rightarrow> number \<Rightarrow> int" where
  "cut_to lo hi x = (case x of NaN \<Rightarrow> 0 | Infinity s \<Rightarrow> (if s then lo else hi) | Finite s m e \<Rightarrow> max lo (min hi (trunc_finite s m e)))"

definition event_reading :: "point_map \<Rightarrow> variation_policy \<Rightarrow> event \<Rightarrow> nat \<times> nat \<times> nat \<times> byte \<times> reading \<times> int option" where
  "event_reading pm policy ev =
     (let t = policy_for (pointType ev) policy; enc = point_encoding pm ev
      in (group_number (pointType ev), variation_number (pointType ev) enc t, event_index ev, event_flags ev,
          (case pointType ev of
             binaryInput \<Rightarrow> StateInFlags
           | binaryOutput \<Rightarrow> StateInFlags
           | counter \<Rightarrow> CountReading (cut_to 0 (2 ^ 32 - 1) (event_number ev))
           | _ \<Rightarrow> (if enc = int32 then IntReading (cut_to (- (2 ^ 31)) (2 ^ 31 - 1) (event_number ev))
                  else FloatReading (float_decode 24 8 (float_encode 24 8 (event_number ev))))),
          (if t = no_time then None else Some (event_timestamp ev))))"

lemma clampInt_cut: "lo \<le> hi \<Longrightarrow> clampInt x lo hi = cut_to lo hi x"
  by (auto simp: clampInt_def cut_to_def Let_def split: number.split)

lemma cut_to_range: "lo \<le> 0 \<Longrightarrow> 0 \<le> hi \<Longrightarrow> lo \<le> cut_to lo hi x \<and> cut_to lo hi x \<le> hi"
  by (auto simp: cut_to_def split: number.split)

lemma js_Number_event: "js_Number (event_value ev) = event_number ev"
  by (cases "event_value ev") (simp_all add: event_number_def)

lemma signed_octets: "- (2 ^ 31) \<le> i \<Longrightarrow> i \<le> 2 ^ 31 - 1 \<Longrightarrow> signed_val 32 (le_val (signed_bytes 4 i)) = i"
proof -
  assume i: "- (2 ^ 31) \<le> i" "i \<le> 2 ^ 31 - 1"
  have "(i + 2 ^ 32) mod 2 ^ 32 = i + 2 ^ 32" if "i < 0" using i that by (intro mod_pos_pos_trivial) simp_all
  then have "i mod 2 ^ 32 = (if 0 \<le> i then i else i + 2 ^ 32)" using i by simp
  then show ?thesis using i by (auto simp: signed_bytes_def le_val_le_bytes signed_val_def nat_less_iff)
qed

lemma float_octets: "le_val (writeFloatLE x) = float_encode 24 8 x mod 2 ^ 32"
  by (simp add: writeFloatLE_def le_val_le_bytes)

lemma float_encode_32: "float_encode 24 8 x < 2 ^ 32"
  by (cases x) (auto simp: float_encode_def Let_def min_def split: prod.split)

lemma describeEvent_reading:
  "object_reading (desc_view (describeEvent ev (point_encoding pm ev) policy)) = event_reading pm policy ev"
proof -
  note range = cut_to_range [of 0 "2 ^ 32 - 1" "event_number ev"] cut_to_range [of "- (2 ^ 31)" "2 ^ 31 - 1" "event_number ev"]
  have c: "toUint32 (event_number ev) = cut_to 0 (2 ^ 32 - 1) (event_number ev)"
    "toInt32 (event_number ev) = cut_to (- (2 ^ 31)) (2 ^ 31 - 1) (event_number ev)"
    unfolding toUint32_def toInt32_def by (simp_all add: clampInt_cut)
  have u: "int (le_val (writeUInt32LE (nat (cut_to 0 (2 ^ 32 - 1) (event_number ev))))) = cut_to 0 (2 ^ 32 - 1) (event_number ev)"
    using range(1) by (simp add: le_val_le_bytes nat_less_iff)
  have i: "signed_val 32 (le_val (writeInt32LE (cut_to (- (2 ^ 31)) (2 ^ 31 - 1) (event_number ev)))) = cut_to (- (2 ^ 31)) (2 ^ 31 - 1) (event_number ev)"
    using range(2) by (intro signed_octets) simp_all
  have f: "le_val (writeFloatLE (event_number ev)) = float_encode 24 8 (event_number ev)"
    using float_encode_32 [of "event_number ev"] by (simp add: float_octets)
  show ?thesis
    by (cases "pointType ev"; cases "point_encoding pm ev"; cases "binary_mode policy"; cases "counter_mode policy"; cases "analog_mode policy")
      (simp_all add: describeEvent_def describe_def event_reading_def object_reading_def desc_view_def desc_time_def Let_def c [simplified] u [simplified] i [simplified] f js_Number_event
        del: le_bytes.simps)
qed

lemma describe_all_take:
  "n \<le> length (describe_all pm policy evs) \<Longrightarrow>
     take n (describe_all pm policy evs) = map (\<lambda>ev. describeEvent ev (point_encoding pm ev) policy) (take n evs)"
proof (induction evs arbitrary: n)
  case (Cons ev evs)
  then show ?case by (cases n) (auto simp: Let_def point_encoding_def split: if_splits)
qed simp

text \<open>C38: A master that decodes an event response by the object definitions of the standard reads exactly
  the events the outstation says it encoded: a prefix of the buffered events, in order, each with the group of its
  point type, the variation that the policy and the point's encoding ask for, its index, its flags, its value, cut to the range of
  the integer types or rounded to binary32, and, where the policy asks for a time, its exact
  timestamp, also for times relative to a common time of occurrence. The rest is counted as
  remaining, and the octets fit the budget.\<close>

theorem event_objects_decode:
  assumes "buildEventObjects evs pm policy maxB = Some r" "list_all time_ok evs"
  shows "map_option (map object_reading) (decodeEvents (enc_bytes r))
      = Some (map (event_reading pm policy) (take (length (encodedSeqs r)) evs))
    \<and> encodedSeqs r = take (length (encodedSeqs r)) (map seq evs)
    \<and> length (encodedSeqs r) + remaining r = length evs
    \<and> (case maxB of None \<Rightarrow> True | Some m \<Rightarrow> length (enc_bytes r) \<le> m)"
proof -
  have "take (length (encodedSeqs r)) (describe_all pm policy evs)
      = map (\<lambda>ev. describeEvent ev (point_encoding pm ev) policy) (take (length (encodedSeqs r)) evs)"
    by (rule describe_all_take) (rule build_length [OF assms(1)])
  with build_decodes [OF assms] have "decodeEvents (enc_bytes r)
      = Some (map desc_view (map (\<lambda>ev. describeEvent ev (point_encoding pm ev) policy) (take (length (encodedSeqs r)) evs)))" by simp
  then show ?thesis using build_prefix_fits [OF assms(1)] by (simp add: describeEvent_reading comp_def)
qed

definition example_events :: "event list" where
  "example_events =
     [\<lparr> seq = 1, pointType = binaryInput, event_index = 7, event_class = Class1, event_value = Bool True,
        event_flags = 0x81, event_timestamp = 1000 \<rparr>,
      \<lparr> seq = 2, pointType = binaryInput, event_index = 8, event_class = Class1, event_value = Bool False,
        event_flags = 0x01, event_timestamp = 1500 \<rparr>]"

definition relative_policy :: variation_policy where
  "relative_policy = DEFAULT_EVENT_VARIATIONS \<lparr> binary_mode := relative_time \<rparr>"

lemma example_build:
  "\<exists>r. buildEventObjects example_events empty_point_map relative_policy (Some 100) = Some r
     \<and> length (encodedSeqs r) = 2"
proof -
  let ?ds = "describe_all empty_point_map relative_policy example_events"
  have ds: "?ds = [\<lparr> d_seq = 1, d_group = 2, d_variation = 3, d_index = 7, d_timestamp = 1000, core = [0x81],
        timeMode = time_relative \<rparr>, \<lparr> d_seq = 2, d_group = 2, d_variation = 3, d_index = 8, d_timestamp = 1500,
        core = [0x01], timeMode = time_relative \<rparr>]"
    by (simp add: example_events_def describeEvent_def describe_def relative_policy_def getPoint_def empty_point_map_def)
  have "\<exists>r. next_run (Some 100) 0 ?ds = Some (Some (r, [])) \<and> length (taken_events r) = 2"
    unfolding ds
    by (simp add: next_run_def buildCtoObject_def exceeds_def time_field_def write_field_def Let_def)
  then obtain r where r: "next_run (Some 100) 0 ?ds = Some (Some (r, []))" "length (taken_events r) = 2" by blast
  have "event_runs (Some 100) n [] = Some []" for n by (simp add: event_runs.simps next_run_def)
  then have "event_runs (Some 100) 0 ?ds = Some [r]" using r(1) by (subst event_runs.simps) simp
  then show ?thesis using r(2) by (simp add: buildEventObjects_def)
qed

theorem event_objects_decode_witness:
  "\<exists>r. buildEventObjects example_events empty_point_map relative_policy (Some 100) = Some r
     \<and> map_option (map object_reading) (decodeEvents (enc_bytes r))
         = Some [(2, 3, 7, 0x81, StateInFlags, Some 1000), (2, 3, 8, 0x01, StateInFlags, Some 1500)]"
proof -
  obtain r where r: "buildEventObjects example_events empty_point_map relative_policy (Some 100) = Some r"
    "length (encodedSeqs r) = 2" using example_build by blast
  have "list_all time_ok example_events" by (simp add: example_events_def time_ok_def DNP3_TIME_MAX_def)
  note T = event_objects_decode [OF r(1) this]
  have "map (event_reading empty_point_map relative_policy) (take 2 example_events)
      = [(2, 3, 7, 0x81, StateInFlags, Some 1000), (2, 3, 8, 0x01, StateInFlags, Some 1500)]"
    by (simp add: example_events_def event_reading_def relative_policy_def DEFAULT_EVENT_VARIATIONS_def Let_def)
  with T r show ?thesis by auto
qed


section \<open>The packing never fails and always advances\<close>

lemma take_run_total:
  "list_all (\<lambda>d. d_index d < 65536) ds \<Longrightarrow> take_run first two maxB used n len ds \<noteq> None"
proof (induction ds arbitrary: n len)
  case (Cons d ds)
  show ?case
  proof (cases "(d_index d > 0xff) = two \<and> time_field (d_timestamp first) d \<noteq> None")
    case True
    then obtain tf where tf: "time_field (d_timestamp first) d = Some tf" by blast
    obtain pre where pre: "write_field two (d_index d) = Some pre"
      using True Cons.prems by (auto simp: write_field_def)
    obtain a b c where "take_run first two maxB used (n + 1)
        (len + ((if two then 2 else 1) + length (core d) + length tf)) ds = Some (a, b, c)"
      using Cons by (metis list.pred_inject(2) option.exhaust prod_cases3)
    then show ?thesis unfolding take_run.simps(2) Let_def tf option.case pre
      by (simp only: option.case prod.case split: if_split) simp
  qed (auto simp: Let_def)
qed simp

lemma time_field_first: "\<exists>tf. time_field (d_timestamp d) d = Some tf \<and> length tf = timeFieldLength (timeMode d)"
  by (cases "timeMode d") (auto simp: time_field_def)

text \<open>With 20 octets free the next run is never empty: the largest event takes 18 octets with its
  header, a relative one 20 with its time base.\<close>

lemma next_run_unfold:
  fixes d :: descriptor and ds' :: "descriptor list" and used :: nat
  defines "two \<equiv> d_index d > 0xff"
    and "cto \<equiv> (if timeMode d = time_relative then buildCtoObject (d_timestamp d) else [])"
  defines "u \<equiv> used + length cto + (3 + (if two then 2 else 1))"
  assumes "take_run d two maxB u 0 0 (d # ds') = Some (its, taken, rest)"
  shows "next_run maxB used (d # ds') =
     (if exceeds maxB (u + ((if two then 2 else 1) + length (core d) + timeFieldLength (timeMode d))) then Some None
      else if taken = [] then Some None
      else map_option (\<lambda>cnt. Some (\<lparr> run_cto = cto, run_header = [of_nat (d_group d), of_nat (d_variation d),
        (if two then 0x28 else 0x17)] @ cnt, taken_items = its, taken_events = taken \<rparr>, rest))
        (write_field two (length taken)))"
  unfolding next_run_def list.case Let_def two_def [symmetric] cto_def [symmetric] u_def [symmetric]
  by (simp only: assms(4) option.case prod.case if_cancel) (simp split: option.split)

lemma if_if_map_option:
  "(\<not> e \<Longrightarrow> w \<noteq> None) \<Longrightarrow> (if e then Some x else if c then Some y else map_option f w) \<noteq> None"
  by simp

lemma next_run_total:
  assumes "list_all (\<lambda>d. d_index d < 65536) ds"
  shows "next_run maxB used ds \<noteq> None"
proof (cases ds)
  case (Cons d ds')
  let ?two = "d_index d > 0xff"
  let ?u = "used + length (if timeMode d = time_relative then buildCtoObject (d_timestamp d) else [])
    + (3 + (if ?two then 2 else 1))"
  obtain its taken rest where tr: "take_run d ?two maxB ?u 0 0 (d # ds') = Some (its, taken, rest)"
    using take_run_total [OF assms [unfolded Cons]] by (metis option.exhaust prod_cases3)
  have "write_field ?two (length taken) \<noteq> None" if "\<not> exceeds maxB (?u + k)" for k
  proof -
    have "\<not> exceeds maxB (?u + 0)" using that by (auto simp: exceeds_def split: option.splits)
    then have "length taken \<le> max_count ?two" using take_run_spec [OF tr] by simp
    then show ?thesis by (auto simp: write_field_def max_count_def split: if_splits)
  qed
  then show ?thesis unfolding Cons next_run_unfold [OF tr] by (rule if_if_map_option)
qed (simp add: next_run_def)

lemma next_run_first:
  assumes "ds = d # ds'" "list_all (\<lambda>d. d_index d < 65536) ds" "desc_ok d"
    "\<not> exceeds maxB (used + 20)"
  shows "\<exists>r rest. next_run maxB used ds = Some (Some (r, rest))"
proof -
  let ?two = "d_index d > 0xff"
  let ?cto = "if timeMode d = time_relative then buildCtoObject (d_timestamp d) else []"
  let ?h = "3 + (if ?two then 2 else 1 :: nat)"
  let ?u = "used + length ?cto + ?h"
  obtain tf where tf: "time_field (d_timestamp d) d = Some tf" "length tf = timeFieldLength (timeMode d)"
    using time_field_first by blast
  have "length (core d) + length ?cto + timeFieldLength (timeMode d) \<le> 13"
    using assms(3) unfolding desc_ok_def event_layout_def buildCtoObject_def
    by (auto split: if_splits)
  then have "?u + ((if ?two then 2 else 1) + length (core d) + timeFieldLength (timeMode d)) \<le> used + 20"
    by simp
  then have ne: "\<not> exceeds maxB (?u + ((if ?two then 2 else 1) + length (core d) + timeFieldLength (timeMode d)))"
    using assms(4) by (auto simp: exceeds_def split: option.splits)
  obtain its taken rest where tr: "take_run d ?two maxB ?u 0 0 ds = Some (its, taken, rest)"
    using take_run_total [OF assms(2)] by (metis option.exhaust prod_cases3)
  moreover have "taken \<noteq> []"
    using tr tf ne unfolding assms(1)
    by (auto simp: Let_def write_field_def split: if_splits option.splits)
  ultimately have "next_run maxB used ds \<noteq> Some None"
    using ne unfolding assms(1) by (subst next_run_unfold [of d]) auto
  with next_run_total [OF assms(2), of maxB used] show ?thesis by auto
qed

lemma event_runs_total: "list_all (\<lambda>d. d_index d < 65536) ds \<Longrightarrow> event_runs maxB used ds \<noteq> None"
proof (induction maxB used ds rule: event_runs.induct)
  case (1 maxB used ds)
  note nt = next_run_total [OF 1(2), of maxB used]
  have "event_runs maxB (used + length (event_run_bytes r)) rest \<noteq> None"
    if "next_run maxB used ds = Some (Some (r, rest))" for r rest
  proof -
    have "list_all (\<lambda>d. d_index d < 65536) rest" using 1(2) next_run_append [OF that] by simp
    with 1(1) [OF that refl refl] show ?thesis by blast
  qed
  then show ?case using nt by (subst event_runs.simps) (auto split: option.splits)
qed

lemma build_progress:
  assumes "list_all (\<lambda>ev. event_index ev < 65536 \<and> time_ok ev) evs" "describe_all pm policy evs \<noteq> []"
    and "case maxB of None \<Rightarrow> True | Some m \<Rightarrow> 20 \<le> m"
  shows "\<exists>r. buildEventObjects evs pm policy maxB = Some r \<and> encodedSeqs r \<noteq> []"
proof -
  let ?ds = "describe_all pm policy evs"
  have idx: "list_all (\<lambda>d. d_index d < 65536) ?ds"
    using assms(1) by (induction evs) (auto simp: Let_def)
  have "list_all time_ok evs" using assms(1) by (simp add: list_all_iff)
  note ok = describe_all_ok [OF this, of pm policy]
  obtain d ds' where ds: "?ds = d # ds'" using assms(2) by (cases ?ds) auto
  have "\<not> exceeds maxB (0 + 20)" using assms(3) by (auto simp: exceeds_def split: option.splits)
  from next_run_first [OF ds idx _ this] ok ds obtain r rest where
    nr: "next_run maxB 0 ?ds = Some (Some (r, rest))" by auto
  obtain rs where rs: "event_runs maxB 0 ?ds = Some rs" using event_runs_total [OF idx] by auto
  then have "\<exists>rs'. rs = r # rs'"
    using nr by (subst (asm) event_runs.simps) (auto split: option.splits)
  with rs next_run_append [OF nr] show ?thesis by (auto simp: buildEventObjects_def)
qed

text \<open>Packing events always succeeds and makes progress. If every point index fits two octets,
  serialising never throws; and if the budget is unlimited or at least 20 octets and the first event can be
  described (its point is mapped, or it is not analog), at least one event is encoded. So repeated
  reads empty the buffer fragment by fragment.\<close>

theorem event_objects_progress:
  assumes "list_all (\<lambda>ev. event_index ev < 65536 \<and> time_ok ev) evs" "describe_all pm policy evs \<noteq> []"
    and "case maxB of None \<Rightarrow> True | Some m \<Rightarrow> 20 \<le> m"
  shows "\<exists>r. buildEventObjects evs pm policy maxB = Some r \<and> encodedSeqs r \<noteq> []"
  using assms by (rule build_progress)

theorem event_objects_progress_witness:
  "\<exists>r. buildEventObjects example_events empty_point_map relative_policy (Some 20) = Some r \<and> encodedSeqs r \<noteq> []"
  by (rule event_objects_progress)
    (simp_all add: example_events_def time_ok_def DNP3_TIME_MAX_def)

end
