(* ===== verification/Dnp3_SecureAuth.thy ===== *)
theory Dnp3_SecureAuth
  imports Dnp3_Objects
begin

text \<open>
  Secure Authentication v5, outstation side (\<open>dnp3-outstation/secure-auth.ts\<close>): challenges bound to an
  association, the reply MAC, and the object bodies g120v1 and g120v2.

  HMAC is Node's: a parameter \<open>hmac alg key message\<close>. The random nonce of a challenge is an argument.
  Errors that the source throws are left values.
\<close>

section \<open>Data\<close>

datatype hash_alg = sha1 | sha256

type_synonym hmac = "hash_alg \<Rightarrow> buffer \<Rightarrow> buffer \<Rightarrow> buffer"

datatype mac_key = HMAC_SHA1_TRUNC_10 | HMAC_SHA256_TRUNC_8 | HMAC_SHA256_TRUNC_16 | HMAC_SHA1_TRUNC_8

primrec SAV5_MAC_ALGORITHM :: "mac_key \<Rightarrow> nat" where
  "SAV5_MAC_ALGORITHM HMAC_SHA1_TRUNC_10 = 2"
| "SAV5_MAC_ALGORITHM HMAC_SHA256_TRUNC_8 = 3"
| "SAV5_MAC_ALGORITHM HMAC_SHA256_TRUNC_16 = 4"
| "SAV5_MAC_ALGORITHM HMAC_SHA1_TRUNC_8 = 5"

definition SAV5_CHALLENGE_REASON_CRITICAL :: nat where
  "SAV5_CHALLENGE_REASON_CRITICAL = 1"

definition ALGO_SPEC :: "nat \<Rightarrow> (hash_alg \<times> nat) option" where
  "ALGO_SPEC a =
     (if a = SAV5_MAC_ALGORITHM HMAC_SHA1_TRUNC_10 then Some (sha1, 10)
      else if a = SAV5_MAC_ALGORITHM HMAC_SHA256_TRUNC_8 then Some (sha256, 8)
      else if a = SAV5_MAC_ALGORITHM HMAC_SHA256_TRUNC_16 then Some (sha256, 16)
      else if a = SAV5_MAC_ALGORITHM HMAC_SHA1_TRUNC_8 then Some (sha1, 8)
      else None)"

record sav5_challenge =
  challengeSeq :: nat
  chal_userNumber :: nat
  macAlgorithm :: nat
  chal_reason :: nat
  challengeData :: buffer

record sav5_reply =
  reply_challengeSeq :: nat
  reply_userNumber :: nat
  mac :: buffer

record pending_challenge =
  challenge :: sav5_challenge
  expectedUserNumber :: nat
  expectedAppSeq :: nat
  challengeFragment :: "buffer option"
  criticalAsdu :: buffer
  issuedAt :: int

record sav5_state =
  controlDirectionKeys :: "nat \<rightharpoonup> buffer"
  pending :: "nat \<rightharpoonup> pending_challenge"
  csqCounter :: nat
  nonceBytes :: nat
  defaultAlgorithm :: nat
  challengeTimeoutMs :: int

datatype sav5_error = BadUserNumber | KeyTooShort | UnknownUser nat | NonceTooShort | AlreadyWaiting nat
  | NoPending nat | FragmentMismatch

datatype verify_error = no_pending_challenge | csq_mismatch | app_seq_mismatch | challenge_expired
  | challenge_fragment_not_bound | unexpected_user | unknown_user | mac_mismatch

text \<open>\<open>Unsupported\<close> is the exception of \<open>computeMac\<close> for an unknown algorithm.\<close>

datatype verify_result = Verified buffer nat | Rejected verify_error | Unsupported nat

section \<open>Operations\<close>

definition computeMac :: "hmac \<Rightarrow> buffer \<Rightarrow> sav5_challenge \<Rightarrow> buffer \<Rightarrow> buffer \<Rightarrow> buffer option" where
  "computeMac hmac key ch fragment asdu =
     (case ALGO_SPEC (macAlgorithm ch) of
        None \<Rightarrow> None
      | Some (h, n) \<Rightarrow>
          Some (take n (hmac h key
             (fragment @ (if chal_reason ch = SAV5_CHALLENGE_REASON_CRITICAL then asdu else [])))))"

definition macEquals :: "buffer \<Rightarrow> buffer \<Rightarrow> bool" where
  "macEquals a b = (if length a \<noteq> length b \<or> length a = 0 then False else a = b)"

text \<open>The constructor with its defaults; a nonce of fewer than four octets throws.\<close>

definition new_sav5 :: "nat option \<Rightarrow> nat option \<Rightarrow> int option \<Rightarrow> sav5_error + sav5_state" where
  "new_sav5 nonce alg timeout =
     (let n = (case nonce of None \<Rightarrow> 16 | Some k \<Rightarrow> k)
      in if n < 4 then Inl NonceTooShort
         else Inr \<lparr> controlDirectionKeys = Map.empty, pending = Map.empty, csqCounter = 0, nonceBytes = n,
                defaultAlgorithm = (case alg of None \<Rightarrow> SAV5_MAC_ALGORITHM HMAC_SHA256_TRUNC_16 | Some a \<Rightarrow> a),
                challengeTimeoutMs = (case timeout of None \<Rightarrow> 5000 | Some t \<Rightarrow> t) \<rparr>)"

definition setControlDirectionKey :: "nat \<Rightarrow> buffer \<Rightarrow> sav5_state \<Rightarrow> sav5_error + sav5_state" where
  "setControlDirectionKey user key s =
     (if user < 1 \<or> user > 0xffff then Inl BadUserNumber
      else if length key < 16 then Inl KeyTooShort
      else Inr (s \<lparr> controlDirectionKeys := (controlDirectionKeys s)(user \<mapsto> key) \<rparr>))"

definition hasUser :: "nat \<Rightarrow> sav5_state \<Rightarrow> bool" where
  "hasUser user s = (controlDirectionKeys s user \<noteq> None)"

definition encodeChallengeObject :: "sav5_challenge \<Rightarrow> buffer" where
  "encodeChallengeObject c =
     writeUInt32LE (challengeSeq c) @ writeUInt16LE (chal_userNumber c)
     @ [of_nat (macAlgorithm c), of_nat (chal_reason c)] @ challengeData c"

text \<open>
  \<open>issueChallenge\<close>: \<open>random\<close> is the outcome of \<open>randomBytes\<close>, used when no nonce is given. An expired
  challenge of the association is dropped, one that is not expired is an error.
\<close>

definition issueChallenge :: "buffer \<Rightarrow> nat \<Rightarrow> nat \<Rightarrow> buffer \<Rightarrow> buffer option \<Rightarrow> nat option \<Rightarrow> int \<Rightarrow> nat option
    \<Rightarrow> sav5_state \<Rightarrow> sav5_error + (sav5_challenge \<times> sav5_state)" where
  "issueChallenge random user assoc asdu nonce alg now appSeq s =
     (if controlDirectionKeys s user = None then Inl (UnknownUser user)
      else if (case nonce of None \<Rightarrow> False | Some n \<Rightarrow> length n < 4) then Inl NonceTooShort
      else if (case pending s assoc of None \<Rightarrow> False | Some e \<Rightarrow> \<not> (now - issuedAt e > challengeTimeoutMs s))
      then Inl (AlreadyWaiting assoc)
      else (let ch = \<lparr> challengeSeq = (csqCounter s + 1) mod 2 ^ 32, chal_userNumber = 0,
                       macAlgorithm = (case alg of None \<Rightarrow> defaultAlgorithm s | Some a \<Rightarrow> a),
                       chal_reason = SAV5_CHALLENGE_REASON_CRITICAL,
                       challengeData = (case nonce of None \<Rightarrow> random | Some n \<Rightarrow> n) \<rparr>
            in Inr (ch, s \<lparr> csqCounter := csqCounter s + 1,
                       pending := (pending s)(assoc \<mapsto>
                         \<lparr> challenge = ch, expectedUserNumber = user,
                           expectedAppSeq = (case appSeq of None \<Rightarrow> unat (asdu ! 0 AND 0x0f) | Some q \<Rightarrow> q),
                           challengeFragment = None, criticalAsdu = asdu, issuedAt = now \<rparr>) \<rparr>)))"

definition bindChallengeFragment :: "nat \<Rightarrow> buffer \<Rightarrow> sav5_state \<Rightarrow> sav5_error + sav5_state" where
  "bindChallengeFragment assoc fragment s =
     (case pending s assoc of
        None \<Rightarrow> Inl (NoPending assoc)
      | Some p \<Rightarrow>
          (let body = encodeChallengeObject (challenge p)
           in if length fragment < length body \<or> drop (length fragment - length body) fragment \<noteq> body
              then Inl FragmentMismatch
              else Inr (s \<lparr> pending := (pending s)(assoc \<mapsto> p \<lparr> challengeFragment := Some fragment \<rparr>) \<rparr>)))"

definition verifyReply :: "hmac \<Rightarrow> sav5_reply \<Rightarrow> nat \<Rightarrow> nat \<Rightarrow> int \<Rightarrow> sav5_state \<Rightarrow> verify_result \<times> sav5_state" where
  "verifyReply hmac reply assoc replyAppSeq now s =
     (case pending s assoc of
        None \<Rightarrow> (Rejected no_pending_challenge, s)
      | Some p \<Rightarrow>
          (let s = s \<lparr> pending := (pending s)(assoc := None) \<rparr>
           in if replyAppSeq mod 16 \<noteq> expectedAppSeq p then (Rejected app_seq_mismatch, s)
              else if challengeSeq (challenge p) \<noteq> reply_challengeSeq reply then (Rejected csq_mismatch, s)
              else if reply_userNumber reply \<noteq> expectedUserNumber p then (Rejected unexpected_user, s)
              else if now - issuedAt p > challengeTimeoutMs s then (Rejected challenge_expired, s)
              else (case challengeFragment p of
                      None \<Rightarrow> (Rejected challenge_fragment_not_bound, s)
                    | Some frag \<Rightarrow>
                        (case controlDirectionKeys s (reply_userNumber reply) of
                           None \<Rightarrow> (Rejected unknown_user, s)
                         | Some key \<Rightarrow>
                             (case computeMac hmac key (challenge p) frag (criticalAsdu p) of
                                None \<Rightarrow> (Unsupported (macAlgorithm (challenge p)), s)
                              | Some expected \<Rightarrow>
                                  if \<not> macEquals expected (mac reply) then (Rejected mac_mismatch, s)
                                  else (Verified (criticalAsdu p) (reply_userNumber reply), s))))))"

definition hasPending :: "nat \<Rightarrow> sav5_state \<Rightarrow> bool" where
  "hasPending assoc s = (pending s assoc \<noteq> None)"

definition isWaiting :: "nat \<Rightarrow> int \<Rightarrow> sav5_state \<Rightarrow> bool \<times> sav5_state" where
  "isWaiting assoc now s =
     (case pending s assoc of
        None \<Rightarrow> (False, s)
      | Some p \<Rightarrow>
          if now - issuedAt p > challengeTimeoutMs s
          then (False, s \<lparr> pending := (pending s)(assoc := None) \<rparr>)
          else (True, s))"

definition clearAssociation :: "nat \<Rightarrow> sav5_state \<Rightarrow> sav5_state" where
  "clearAssociation assoc s = s \<lparr> pending := (pending s)(assoc := None) \<rparr>"

definition SAV5_CRITICAL_FUNCTIONS :: "nat list" where
  "SAV5_CRITICAL_FUNCTIONS = [0x03, 0x04, 0x05, 0x06, 0x0d, 0x0e, 0x14, 0x15, 0x02]"

definition isCriticalFunction :: "nat \<Rightarrow> bool" where
  "isCriticalFunction fc = (fc \<in> set SAV5_CRITICAL_FUNCTIONS)"

section \<open>Object bodies\<close>

definition decodeChallengeObject :: "buffer \<Rightarrow> sav5_challenge option" where
  "decodeChallengeObject buf =
     (if length buf < 8 then None
      else Some \<lparr> challengeSeq = readUInt32LE buf 0, chal_userNumber = readUInt16LE buf 4,
                  macAlgorithm = unat (buf ! 6), chal_reason = unat (buf ! 7), challengeData = drop 8 buf \<rparr>)"

definition encodeReplyObject :: "sav5_reply \<Rightarrow> buffer" where
  "encodeReplyObject r =
     writeUInt32LE (reply_challengeSeq r) @ writeUInt16LE (reply_userNumber r) @ mac r"

definition decodeReplyObject :: "buffer \<Rightarrow> sav5_reply option" where
  "decodeReplyObject buf =
     (if length buf < 6 then None
      else Some \<lparr> reply_challengeSeq = readUInt32LE buf 0, reply_userNumber = readUInt16LE buf 4,
                  mac = drop 6 buf \<rparr>)"


section \<open>Laws\<close>

lemma decodeReplyObject_encode:
  "reply_challengeSeq r < 2 ^ 32 \<Longrightarrow> reply_userNumber r < 65536 \<Longrightarrow> decodeReplyObject (encodeReplyObject r) = Some r"
proof -
  assume b: "reply_challengeSeq r < 2 ^ 32" "reply_userNumber r < 65536"
  let ?e = "writeUInt32LE (reply_challengeSeq r) @ writeUInt16LE (reply_userNumber r) @ mac r"
  have "readUInt32LE ?e 0 = reply_challengeSeq r" "readUInt16LE ?e 4 = reply_userNumber r"
    using b readUIntLE_append [of "[]" 0 "writeUInt32LE (reply_challengeSeq r)" 4]
      readUIntLE_append [of "writeUInt32LE (reply_challengeSeq r)" 4 "writeUInt16LE (reply_userNumber r)" 2]
    by (simp_all add: le_val_le_bytes)
  then show ?thesis by (simp add: decodeReplyObject_def encodeReplyObject_def)
qed

lemma decodeChallengeObject_encode:
  assumes "challengeSeq c < 2 ^ 32" "chal_userNumber c < 65536" "macAlgorithm c < 256" "chal_reason c < 256"
  shows "decodeChallengeObject (encodeChallengeObject c) = Some c"
proof -
  let ?t = "[of_nat (macAlgorithm c), of_nat (chal_reason c)] @ challengeData c"
  let ?e = "writeUInt32LE (challengeSeq c) @ writeUInt16LE (chal_userNumber c) @ ?t"
  have "readUInt32LE ?e 0 = challengeSeq c" "readUInt16LE ?e 4 = chal_userNumber c"
    using assms readUIntLE_append [of "[]" 0 "writeUInt32LE (challengeSeq c)" 4]
      readUIntLE_append [of "writeUInt32LE (challengeSeq c)" 4 "writeUInt16LE (chal_userNumber c)" 2]
    by (simp_all add: le_val_le_bytes)
  with assms show ?thesis
    by (simp add: decodeChallengeObject_def encodeChallengeObject_def nth_append)
qed

lemma verifyReply_consumes: "\<not> hasPending assoc (snd (verifyReply hmac reply assoc q now s))"
  by (auto simp: verifyReply_def hasPending_def Let_def split: option.splits)

lemma verifyReply_keeps:
  "controlDirectionKeys (snd (verifyReply hmac reply assoc q now s)) = controlDirectionKeys s"
  "csqCounter (snd (verifyReply hmac reply assoc q now s)) = csqCounter s"
  by (auto simp: verifyReply_def Let_def split: option.splits)

text \<open>What a successful verification proves about the reply.\<close>

definition authentic :: "hmac \<Rightarrow> sav5_state \<Rightarrow> nat \<Rightarrow> sav5_reply \<Rightarrow> nat \<Rightarrow> int \<Rightarrow> buffer \<Rightarrow> bool" where
  "authentic hmac s assoc reply replyAppSeq now asdu \<longleftrightarrow>
     (\<exists>p frag key h n. pending s assoc = Some p \<and> criticalAsdu p = asdu
        \<and> expectedAppSeq p = replyAppSeq mod 16 \<and> challengeSeq (challenge p) = reply_challengeSeq reply
        \<and> expectedUserNumber p = reply_userNumber reply \<and> now - issuedAt p \<le> challengeTimeoutMs s
        \<and> challengeFragment p = Some frag \<and> controlDirectionKeys s (reply_userNumber reply) = Some key
        \<and> ALGO_SPEC (macAlgorithm (challenge p)) = Some (h, n) \<and> mac reply \<noteq> []
        \<and> mac reply = take n (hmac h key (frag @ (if chal_reason (challenge p) = 1 then asdu else []))))"

lemma verifyReply_authentic:
  assumes "verifyReply hmac reply assoc q now s = (Verified asdu user, s')"
  shows "authentic hmac s assoc reply q now asdu \<and> user = reply_userNumber reply"
proof -
  from assms obtain p frag key expected where p: "pending s assoc = Some p" "criticalAsdu p = asdu"
    "q mod 16 = expectedAppSeq p" "challengeSeq (challenge p) = reply_challengeSeq reply"
    "reply_userNumber reply = expectedUserNumber p" "\<not> now - issuedAt p > challengeTimeoutMs s"
    "challengeFragment p = Some frag" "controlDirectionKeys s (reply_userNumber reply) = Some key"
    "computeMac hmac key (challenge p) frag asdu = Some expected" "macEquals expected (mac reply)"
    "user = reply_userNumber reply"
    by (auto simp: verifyReply_def Let_def split: option.splits if_splits)
  from p(9) obtain h n where "ALGO_SPEC (macAlgorithm (challenge p)) = Some (h, n)"
    "expected = take n (hmac h key (frag @ (if chal_reason (challenge p) = 1 then asdu else [])))"
    by (auto simp: computeMac_def SAV5_CHALLENGE_REASON_CRITICAL_def split: option.splits)
  with p show ?thesis by (auto simp: authentic_def macEquals_def split: if_splits)
qed

lemma verifyReply_state: "snd (verifyReply hmac reply assoc q now s) = s \<lparr> pending := (pending s)(assoc := None) \<rparr>"
proof (cases "pending s assoc")
  case None
  then have "(pending s)(assoc := None) = pending s" by (simp add: fun_upd_idem)
  with None show ?thesis by (simp add: verifyReply_def)
qed (auto simp: verifyReply_def Let_def split: option.splits)

lemma authentic_verifies:
  "authentic hmac s assoc reply q now asdu \<Longrightarrow> fst (verifyReply hmac reply assoc q now s) = Verified asdu (reply_userNumber reply)"
  by (auto simp: authentic_def verifyReply_def Let_def computeMac_def macEquals_def SAV5_CHALLENGE_REASON_CRITICAL_def)

end
