(* ===== verification/Dnp3_Outstation.thy ===== *)
theory Dnp3_Outstation
  imports Dnp3_Controls Dnp3_EventObjects Dnp3_SecureAuth
begin

text \<open>
  The application decisions of the outstation (\<open>dnp3-outstation/index.ts\<close> and \<open>session.ts\<close>): the request
  handler with Secure Authentication, reads packed into fragments, confirmation, the restart write,
  controls, tag updates and unsolicited responses.

  A handler takes and returns the context, the session and the plant state behind the control sink.
  Its result is \<open>None\<close> when the source throws; the caller then sends nothing. The clock (\<open>now\<close>), the random
  nonce and HMAC are arguments. Logging is not modelled.
\<close>

section \<open>State\<close>

record fragment =
  frag_bytes :: buffer
  frag_seq :: nat
  frag_con :: bool
  frag_eventSeqs :: "nat list"

record session =
  sav5AssociationId :: nat
  pendingFragments :: "fragment list"
  awaitingConfirm :: "fragment option"

text \<open>\<open>createSession\<close> with the module's counter; \<open>Number.MAX_SAFE_INTEGER\<close> is \<open>2 ^ 53 - 1\<close>.\<close>

definition createSession :: "nat \<Rightarrow> session \<times> nat" where
  "createSession nextAssociationId =
     (\<lparr> sav5AssociationId = nextAssociationId, pendingFragments = [], awaitingConfirm = None \<rparr>,
      if nextAssociationId \<ge> 2 ^ 53 - 1 then 1 else nextAssociationId + 1)"

record 'p outstation_context =
  pointMap :: point_map
  eventBuffer :: event_buffer
  secureAuth :: sav5_state
  controlConfig :: control_config
  controlSink :: "'p control_sink option"
  controls :: control_state
  eventVariations :: variation_policy
  maxTxFragmentSize :: nat
  restartPending :: bool
  unsolicitedEnabled :: bool

record request_result =
  response :: buffer
  fragments :: "fragment list"
  challenged :: bool

definition NO_RESPONSE :: request_result where
  "NO_RESPONSE = \<lparr> response = [], fragments = [], challenged = False \<rparr>"

definition APP_HEADER_LEN :: nat where "APP_HEADER_LEN = 4"

section \<open>Handlers\<close>

definition currentIin :: "'p outstation_context \<Rightarrow> u16" where
  "currentIin ctx =
     (case classEventIinBits (eventBuffer ctx) of
        (c1, c2, c3) \<Rightarrow> buildIin (no_iin \<lparr> deviceRestart := restartPending ctx, class1Events := c1, class2Events := c2,
                          class3Events := c3, eventBufferOverflow := hasOverflow (eventBuffer ctx) \<rparr>))"

definition emptyResponse :: "'p outstation_context \<Rightarrow> nat \<Rightarrow> buffer" where
  "emptyResponse ctx sq = buildResponseHeader (response_opts sq (currentIin ctx))"

definition singleFragment :: "buffer \<Rightarrow> nat \<Rightarrow> request_result" where
  "singleFragment bytes sq =
     \<lparr> response = bytes,
       fragments = [\<lparr> frag_bytes = bytes, frag_seq = sq, frag_con = False, frag_eventSeqs = [] \<rparr>],
       challenged = False \<rparr>"

definition errorResponse :: "'p outstation_context \<Rightarrow> nat \<Rightarrow> iin_opts \<Rightarrow> request_result" where
  "errorResponse ctx sq opts =
     singleFragment (buildResponseHeader (response_opts sq (currentIin ctx OR buildIin opts))) sq"

definition DEVICE_RESTART_IIN_INDEX :: nat where "DEVICE_RESTART_IIN_INDEX = 7"

definition handleWrite :: "'p outstation_context \<Rightarrow> parsed_request \<Rightarrow> request_result \<times> 'p outstation_context" where
  "handleWrite ctx req =
     (if length (objects req) \<noteq> 1
         \<or> hdr_group (objects req ! 0) \<noteq> DNP3_GROUP INTERNAL_INDICATIONS
         \<or> hdr_variation (objects req ! 0) \<noteq> 1
      then (errorResponse ctx (req_seq req) (no_iin \<lparr> objectUnknown := True \<rparr>), ctx)
      else (case (range (objects req ! 0), hdr_data (objects req ! 0)) of
              (Some (lo, hi), Some data) \<Rightarrow>
                if lo \<noteq> DEVICE_RESTART_IIN_INDEX \<or> hi \<noteq> DEVICE_RESTART_IIN_INDEX
                   \<or> length data \<noteq> 1 \<or> data ! 0 AND 0x01 \<noteq> 0
                then (errorResponse ctx (req_seq req) (no_iin \<lparr> parameterError := True \<rparr>), ctx)
                else (let ctx = ctx \<lparr> restartPending := False \<rparr>
                      in (singleFragment (emptyResponse ctx (req_seq req)) (req_seq req), ctx))
            | _ \<Rightarrow> (errorResponse ctx (req_seq req) (no_iin \<lparr> parameterError := True \<rparr>), ctx)))"

definition dispatchFragments :: "fragment list \<Rightarrow> session \<Rightarrow> request_result \<times> session" where
  "dispatchFragments frags s =
     (case frags of
        [] \<Rightarrow> (NO_RESPONSE, s)
      | first # rest \<Rightarrow>
          (\<lparr> response = frag_bytes first, fragments = frags, challenged = False \<rparr>,
           s \<lparr> pendingFragments := rest, awaitingConfirm := (if frag_con first then Some first else None) \<rparr>))"

definition handleConfirm :: "'p outstation_context \<Rightarrow> parsed_request \<Rightarrow> session \<Rightarrow> request_result \<times> 'p outstation_context \<times> session" where
  "handleConfirm ctx req s =
     (case awaitingConfirm s of
        None \<Rightarrow> (NO_RESPONSE, ctx, s)
      | Some awaiting \<Rightarrow>
          if frag_seq awaiting \<noteq> req_seq req then (NO_RESPONSE, ctx, s)
          else (let ctx = (if length (frag_eventSeqs awaiting) > 0
                           then ctx \<lparr> eventBuffer := confirm (frag_eventSeqs awaiting) (eventBuffer ctx) \<rparr>
                           else ctx);
                    s = s \<lparr> awaitingConfirm := None \<rparr>
                in case pendingFragments s of
                     [] \<Rightarrow> (NO_RESPONSE, ctx, s)
                   | nxt # rest \<Rightarrow>
                       (\<lparr> response = frag_bytes nxt, fragments = [nxt], challenged = False \<rparr>, ctx,
                        s \<lparr> pendingFragments := rest,
                            awaitingConfirm := (if frag_con nxt then Some nxt else None) \<rparr>)))"

definition handleControlRequest :: "'p outstation_context \<Rightarrow> parsed_request \<Rightarrow> int \<Rightarrow> 'p
    \<Rightarrow> request_result option \<times> 'p outstation_context \<times> 'p" where
  "handleControlRequest ctx req now p =
     (case process (pointMap ctx) (controlConfig ctx) (controlSink ctx) req now (controls ctx) p of
        (res, st, p') \<Rightarrow>
          (let ctx = ctx \<lparr> controls := st \<rparr>
           in (case res of
                 None \<Rightarrow> None
               | Some r \<Rightarrow>
                   if func req = DNP3_FUNCTION DIRECT_OPERATE_NR then Some NO_RESPONSE
                   else Some (singleFragment
                          (buildResponseHeader (response_opts (req_seq req) (currentIin ctx OR res_iin r))
                           @ res_objects r) (req_seq req)),
               ctx, p')))"

section \<open>Reads\<close>

record packed_fragment =
  blocks :: "buffer list"
  eventSeqs :: "nat list"
  used :: nat

definition empty_fragment :: packed_fragment where
  "empty_fragment = \<lparr> blocks = [], eventSeqs = [], used = 0 \<rparr>"

text \<open>The loop over the static blocks: the fragments pushed so far and the current one.\<close>

primrec pack_static :: "nat \<Rightarrow> buffer list \<Rightarrow> packed_fragment list \<Rightarrow> packed_fragment
    \<Rightarrow> packed_fragment list \<times> packed_fragment" where
  "pack_static budget [] packed cur = (packed, cur)"
| "pack_static budget (b # bs) packed cur =
     (if used cur > 0 \<and> used cur + length b > budget
      then pack_static budget bs (packed @ [cur])
             \<lparr> blocks = [b], eventSeqs = [], used = length b \<rparr>
      else pack_static budget bs packed
             (cur \<lparr> blocks := blocks cur @ [b], used := used cur + length b \<rparr>))"

text \<open>The \<open>while (pending.length > 0)\<close> loop; \<open>None\<close> when serialising an event throws.\<close>

function pack_events :: "point_map \<Rightarrow> variation_policy \<Rightarrow> nat \<Rightarrow> event list \<Rightarrow> packed_fragment list \<Rightarrow> packed_fragment
    \<Rightarrow> (packed_fragment list \<times> packed_fragment) option" where
  "pack_events pm policy budget pend packed cur =
     (if pend = [] then Some (packed, cur)
      else (case buildEventObjects pend pm policy (Some (budget - used cur)) of
              None \<Rightarrow> None
            | Some encoded \<Rightarrow>
                if encodedSeqs encoded = [] then
                  (if used cur = 0 then Some (packed, cur)
                   else pack_events pm policy budget pend (packed @ [cur]) empty_fragment)
                else
                  (let cur' = \<lparr> blocks = blocks cur @ [enc_bytes encoded],
                                eventSeqs = eventSeqs cur @ encodedSeqs encoded,
                                used = used cur + length (enc_bytes encoded) \<rparr>;
                       pend' = drop (length (encodedSeqs encoded)) pend
                   in if pend' \<noteq> [] then pack_events pm policy budget pend' (packed @ [cur']) empty_fragment
                      else Some (packed, cur'))))"
  by pat_completeness auto
termination
  by (relation "measure (\<lambda>(pm, policy, budget, pend, packed, cur). 2 * length pend + (if used cur = 0 then 0 else 1))")
    (auto simp: empty_fragment_def neq_Nil_conv)

declare pack_events.simps [simp del]

definition requested_classes :: "parsed_request \<Rightarrow> event_class list" where
  "requested_classes req =
     (case classReadTargets req of
        (c0, c1, c2, c3) \<Rightarrow> (if c1 then [Class1] else []) @ (if c2 then [Class2] else []) @ (if c3 then [Class3] else []))"

definition wants_static :: "parsed_request \<Rightarrow> bool" where
  "wants_static req = (case classReadTargets req of (c0, c1, c2, c3) \<Rightarrow> c0 \<or> (\<not> c1 \<and> \<not> c2 \<and> \<not> c3))"

definition make_fragment :: "nat \<Rightarrow> u16 \<Rightarrow> nat \<Rightarrow> nat \<Rightarrow> packed_fragment \<Rightarrow> fragment" where
  "make_fragment reqSeq iin lastIndex i frag =
     (let sq = (reqSeq + i) mod 16;
          con = (length (eventSeqs frag) > 0 \<or> i < lastIndex);
          header = buildResponseHeader (response_opts sq iin
            \<lparr> resp_fir := Some (i = 0), resp_fin := Some (i = lastIndex), resp_con := con \<rparr>)
      in \<lparr> frag_bytes = header @ concat (blocks frag), frag_seq = sq, frag_con = con,
           frag_eventSeqs = eventSeqs frag \<rparr>)"

definition read_budget :: "'p outstation_context \<Rightarrow> nat" where
  "read_budget ctx = max 1 (maxTxFragmentSize ctx - APP_HEADER_LEN)"

definition handleRead :: "'p outstation_context \<Rightarrow> parsed_request \<Rightarrow> fragment list option \<times> 'p outstation_context" where
  "handleRead ctx req =
     (let iin = currentIin ctx;
          budget = read_budget ctx;
          static_blocks = (if wants_static req then buildClass0Blocks (pointMap ctx) (Some budget) else []);
          (packed, cur) = pack_static budget static_blocks [] empty_fragment;
          pend = (if requested_classes req \<noteq> [] then peek (requested_classes req) None (eventBuffer ctx) else [])
      in case pack_events (pointMap ctx) (eventVariations ctx) budget pend packed cur of
           None \<Rightarrow> (None, ctx)
         | Some (packed, cur) \<Rightarrow>
             (let packed = (if used cur > 0 \<or> packed = [] then packed @ [cur] else packed);
                  frags = map (\<lambda>(i, frag). make_fragment (req_seq req) iin (length packed - 1) i frag)
                            (List.enumerate 0 packed);
                  reported = concat (map frag_eventSeqs frags)
              in (Some frags,
                  if length reported > 0 then ctx \<lparr> eventBuffer := markReported reported (eventBuffer ctx) \<rparr>
                  else ctx)))"

section \<open>The request handler\<close>

text \<open>
  \<open>challenge_request\<close> is the branch that answers a critical request with a challenge; a left value of
  \<open>issueChallenge\<close> or \<open>bindChallengeFragment\<close> is an exception.
\<close>

definition challenge_request :: "buffer \<Rightarrow> 'p outstation_context \<Rightarrow> parsed_request \<Rightarrow> nat \<Rightarrow> int \<Rightarrow> session
    \<Rightarrow> request_result option \<times> 'p outstation_context" where
  "challenge_request random ctx req user now s =
     (case issueChallenge random user (sav5AssociationId s) (raw req) None None now (Some (req_seq req)) (secureAuth ctx) of
        Inl e \<Rightarrow> (None, ctx)
      | Inr (ch, sa) \<Rightarrow>
          (let ctx = ctx \<lparr> secureAuth := sa \<rparr>;
               header = buildResponseHeader (response_opts (req_seq req) (currentIin ctx)
                          \<lparr> functionCode := Some (DNP3_FUNCTION AUTH_RESPONSE) \<rparr>)
           in case buildFreeFormat16Object (DNP3_GROUP SECURE_AUTH) 1 (encodeChallengeObject ch) of
                None \<Rightarrow> (None, ctx)
              | Some obj \<Rightarrow>
                  (case bindChallengeFragment (sav5AssociationId s) (header @ obj) (secureAuth ctx) of
                     Inl e \<Rightarrow> (None, ctx)
                   | Inr sa' \<Rightarrow>
                       (Some \<lparr> response = header @ obj,
                          fragments = [\<lparr> frag_bytes = header @ obj, frag_seq = req_seq req, frag_con = False,
                                         frag_eventSeqs = [] \<rparr>],
                          challenged = True \<rparr>,
                        ctx \<lparr> secureAuth := sa' \<rparr>))))"

text \<open>Is the request the single well-formed g120v7 error object of AUTH_REQUEST_NO_ACK, or g120v2?\<close>

definition secure_auth_object :: "nat \<Rightarrow> parsed_request \<Rightarrow> bool" where
  "secure_auth_object variation req =
     (objectsComplete req \<and> length (objects req) = 1
      \<and> (let obj = objects req ! 0
         in hdr_group obj = DNP3_GROUP SECURE_AUTH \<and> hdr_variation obj = variation \<and> qualifier obj = 0x5b
            \<and> hdr_count obj = Some 1
            \<and> (case freeFormat obj of None \<Rightarrow> False | Some bs \<Rightarrow> length bs = 1)))"

text \<open>The \<open>switch (req.func)\<close> after authentication, for every function but CONFIRM.\<close>

definition dispatch_function :: "'p outstation_context \<Rightarrow> parsed_request \<Rightarrow> int \<Rightarrow> session \<Rightarrow> 'p
    \<Rightarrow> request_result option \<times> 'p outstation_context \<times> session \<times> 'p" where
  "dispatch_function ctx req now s p =
     (if func req = DNP3_FUNCTION READ then
        (case handleRead ctx req of
           (None, ctx') \<Rightarrow> (None, ctx', s, p)
         | (Some frags, ctx') \<Rightarrow>
             (case dispatchFragments frags s of (r, s') \<Rightarrow> (Some r, ctx', s', p)))
      else if func req = DNP3_FUNCTION WRITE then
        (case handleWrite ctx req of (r, ctx') \<Rightarrow> (Some r, ctx', s, p))
      else if func req \<in> {DNP3_FUNCTION SELECT, DNP3_FUNCTION OPERATE, DNP3_FUNCTION DIRECT_OPERATE,
                           DNP3_FUNCTION DIRECT_OPERATE_NR} then
        (case handleControlRequest ctx req now p of (r, ctx', p') \<Rightarrow> (r, ctx', s, p'))
      else if func req = DNP3_FUNCTION ENABLE_UNSOLICITED then
        (let ctx = ctx \<lparr> unsolicitedEnabled := True \<rparr>
         in (Some (singleFragment (emptyResponse ctx (req_seq req)) (req_seq req)), ctx, s, p))
      else if func req = DNP3_FUNCTION DISABLE_UNSOLICITED then
        (let ctx = ctx \<lparr> unsolicitedEnabled := False \<rparr>
         in (Some (singleFragment (emptyResponse ctx (req_seq req)) (req_seq req)), ctx, s, p))
      else if func req \<in> {DNP3_FUNCTION COLD_RESTART, DNP3_FUNCTION WARM_RESTART} then
        (let ctx = ctx \<lparr> eventBuffer := clear_events (eventBuffer ctx), controls := disarm (controls ctx),
                         restartPending := True \<rparr>
         in (Some (singleFragment (emptyResponse ctx (req_seq req)) (req_seq req)), ctx, s, p))
      else (Some (errorResponse ctx (req_seq req) (no_iin \<lparr> noFuncSupport := True \<rparr>)), ctx, s, p))"

definition handleApplicationRequest :: "buffer \<Rightarrow> 'p outstation_context \<Rightarrow> parsed_request \<Rightarrow> nat \<Rightarrow> int \<Rightarrow> bool
    \<Rightarrow> session \<Rightarrow> 'p \<Rightarrow> request_result option \<times> 'p outstation_context \<times> session \<times> 'p" where
  "handleApplicationRequest random ctx req user now skipSecureAuth s p =
     (if \<not> skipSecureAuth \<and> func req = DNP3_FUNCTION AUTH_REQUEST_NO_ACK then
        (Some NO_RESPONSE,
         (if secure_auth_object 7 req
          then ctx \<lparr> secureAuth := clearAssociation (sav5AssociationId s) (secureAuth ctx) \<rparr> else ctx), s, p)
      else
        (let (waiting, ctx) = (if skipSecureAuth then (False, ctx)
               else (case isWaiting (sav5AssociationId s) now (secureAuth ctx) of
                       (w, sa) \<Rightarrow> (w, ctx \<lparr> secureAuth := sa \<rparr>)))
         in if waiting then (Some NO_RESPONSE, ctx, s, p)
            else if isCriticalFunction (func req) \<and> \<not> objectsComplete req then
              (Some (if func req = DNP3_FUNCTION DIRECT_OPERATE_NR then NO_RESPONSE
                     else errorResponse ctx (req_seq req) (no_iin \<lparr> parameterError := True \<rparr>)), ctx, s, p)
            else if \<not> skipSecureAuth \<and> isCriticalFunction (func req) \<and> hasUser user (secureAuth ctx) then
              (case challenge_request random ctx req user now s of (r, ctx') \<Rightarrow> (r, ctx', s, p))
            else if func req = DNP3_FUNCTION CONFIRM then
              (case handleConfirm ctx req s of (r, ctx', s') \<Rightarrow> (Some r, ctx', s', p))
            else dispatch_function ctx req now (s \<lparr> pendingFragments := [], awaitingConfirm := None \<rparr>) p))"

definition handleSecureAuthReply :: "hmac \<Rightarrow> 'p outstation_context \<Rightarrow> buffer \<Rightarrow> nat \<Rightarrow> session \<Rightarrow> int
    \<Rightarrow> verify_result option \<times> 'p outstation_context" where
  "handleSecureAuthReply hmac ctx body replyAppSeq s now =
     (case decodeReplyObject body of
        None \<Rightarrow> (None, ctx)
      | Some reply \<Rightarrow>
          (case verifyReply hmac reply (sav5AssociationId s) replyAppSeq now (secureAuth ctx) of
             (v, sa) \<Rightarrow> (Some v, ctx \<lparr> secureAuth := sa \<rparr>)))"

section \<open>The outstation object\<close>

text \<open>The octets to send; a request that throws sends nothing.\<close>

definition response_of :: "request_result option \<Rightarrow> buffer" where
  "response_of r = (case r of None \<Rightarrow> [] | Some res \<Rightarrow> response res)"

definition dispatch :: "buffer \<Rightarrow> nat \<Rightarrow> 'p outstation_context \<Rightarrow> parsed_request \<Rightarrow> int \<Rightarrow> session \<Rightarrow> 'p
    \<Rightarrow> buffer \<times> 'p outstation_context \<times> session \<times> 'p" where
  "dispatch random sav5UserNumber ctx req now s p =
     (case handleApplicationRequest random ctx req sav5UserNumber now False s p of
        (r, ctx', s', p') \<Rightarrow> (response_of r, ctx', s', p'))"

definition dispatchSecureAuthReply :: "hmac \<Rightarrow> buffer \<Rightarrow> 'p outstation_context \<Rightarrow> parsed_request \<Rightarrow> int \<Rightarrow> session \<Rightarrow> 'p
    \<Rightarrow> buffer \<times> 'p outstation_context \<times> session \<times> 'p" where
  "dispatchSecureAuthReply hmac random ctx req now s p =
     (let cleared = ctx \<lparr> secureAuth := clearAssociation (sav5AssociationId s) (secureAuth ctx) \<rparr>
      in if func req \<noteq> DNP3_FUNCTION AUTH_REQUEST \<or> \<not> secure_auth_object 2 req then
           ([], if func req = DNP3_FUNCTION AUTH_REQUEST then cleared else ctx, s, p)
         else
           (case handleSecureAuthReply hmac ctx (the (freeFormat (objects req ! 0)) ! 0) (req_seq req) s now of
              (Some (Verified asdu user), ctx') \<Rightarrow>
                (case parseRequest asdu of
                   None \<Rightarrow> ([], ctx', s, p)
                 | Some areq \<Rightarrow>
                     (case handleApplicationRequest random ctx' areq user now True s p of
                        (r, ctx'', s', p') \<Rightarrow> (response_of r, ctx'', s', p')))
            | (Some (Rejected e), ctx') \<Rightarrow> ([], ctx', s, p)
            | (Some (Unsupported a), ctx') \<Rightarrow>
                ([], ctx' \<lparr> secureAuth := clearAssociation (sav5AssociationId s) (secureAuth ctx') \<rparr>, s, p)
            | (None, ctx') \<Rightarrow> ([], cleared, s, p)))"

definition onAssociationClosed :: "session \<Rightarrow> 'p outstation_context \<Rightarrow> 'p outstation_context" where
  "onAssociationClosed s ctx =
     ctx \<lparr> controls := disarm (controls ctx),
           secureAuth := clearAssociation (sav5AssociationId s) (secureAuth ctx) \<rparr>"

definition class_of_number :: "nat \<Rightarrow> event_class option" where
  "class_of_number n = (if n = 1 then Some Class1 else if n = 2 then Some Class2
     else if n = 3 then Some Class3 else None)"

text \<open>The body of the loop of \<open>updateTag\<close>: an event for a point with an event class. A timestamp of 0 is
  falsy and becomes the current time.\<close>

definition enqueue_change :: "int \<Rightarrow> point_map \<Rightarrow> point_key \<Rightarrow> event_buffer \<Rightarrow> event_buffer" where
  "enqueue_change now pm key b =
     (case getPoint (fst key) (snd key) pm of
        None \<Rightarrow> b
      | Some d \<Rightarrow>
          (case (case eventClass d of None \<Rightarrow> None | Some n \<Rightarrow> class_of_number n) of
             None \<Rightarrow> b
           | Some c \<Rightarrow>
               (case resolve (ptype d) (index d) pm of
                  None \<Rightarrow> b
                | Some r \<Rightarrow>
                    snd (enqueue \<lparr> seq = 0, pointType = ptype d, event_index = index d, event_class = c,
                           event_value = sample_value (sample r), event_flags = deriveFlags r,
                           event_timestamp = (if sample_timestamp (sample r) = 0 then now
                                              else sample_timestamp (sample r)) \<rparr> b))))"

definition apply_tag :: "tag_id \<Rightarrow> point_sample \<Rightarrow> int \<Rightarrow> 'p outstation_context \<Rightarrow> 'p outstation_context" where
  "apply_tag tag s now ctx =
     (case applyTagUpdate tag s (pointMap ctx) of
        (keys, pm) \<Rightarrow> ctx \<lparr> pointMap := pm, eventBuffer := fold (enqueue_change now pm) keys (eventBuffer ctx) \<rparr>)"

text \<open>
  \<open>maybeSendUnsolicited\<close> up to the broadcast: the fragment to send, if any, with the next unsolicited
  sequence number. \<open>None\<close> is the exception of the serialiser.
\<close>

definition unsolicited_fragment :: "int \<Rightarrow> nat \<Rightarrow> 'p outstation_context \<Rightarrow> (fragment \<times> nat) option option" where
  "unsolicited_fragment now unsolicitedSeq ctx =
     (if \<not> unsolicitedEnabled ctx then Some None
      else (let decision = evaluateUnsolicited now (eventBuffer ctx)
            in if \<not> shouldSend decision then Some None
               else (let evs = peek (decision_classes decision) None (eventBuffer ctx)
                     in if evs = [] then Some None
                        else (case buildEventObjects evs (pointMap ctx) (eventVariations ctx) (Some (read_budget ctx)) of
                                None \<Rightarrow> None
                              | Some encoded \<Rightarrow>
                                  if encodedSeqs encoded = [] then Some None
                                  else (let sq = unsolicitedSeq mod 16;
                                            header = buildResponseHeader (response_opts sq (currentIin ctx)
                                              \<lparr> unsolicited := True, resp_con := True \<rparr>)
                                        in Some (Some (\<lparr> frag_bytes = header @ enc_bytes encoded, frag_seq = sq,
                                             frag_con = True, frag_eventSeqs = encodedSeqs encoded \<rparr>,
                                             (unsolicitedSeq + 1) mod 16)))))))"



section \<open>What a handler leaves alone\<close>

definition same_config :: "'p outstation_context \<Rightarrow> 'p outstation_context \<Rightarrow> bool" where
  "same_config c d \<longleftrightarrow> pointMap d = pointMap c \<and> controlConfig d = controlConfig c \<and> controlSink d = controlSink c
     \<and> eventVariations d = eventVariations c \<and> maxTxFragmentSize d = maxTxFragmentSize c
     \<and> controlDirectionKeys (secureAuth d) = controlDirectionKeys (secureAuth c)"

lemma same_config_refl [simp]: "same_config c c"
  by (simp add: same_config_def)

lemma same_config_trans: "same_config c d \<Longrightarrow> same_config d e \<Longrightarrow> same_config c e"
  by (simp add: same_config_def)

lemma isWaiting_keeps:
  "isWaiting assoc now s = (w, s') \<Longrightarrow> controlDirectionKeys s' = controlDirectionKeys s
     \<and> (\<forall>a. a \<noteq> assoc \<longrightarrow> pending s' a = pending s a) \<and> (w \<longleftrightarrow> hasPending assoc s')"
  by (auto simp: isWaiting_def hasPending_def split: option.splits if_splits)

lemma clearAssociation_simps [simp]:
  "controlDirectionKeys (clearAssociation a s) = controlDirectionKeys s"
  "pending (clearAssociation a s) b = (if b = a then None else pending s b)"
  by (simp_all add: clearAssociation_def)

text \<open>A challenge changes the authentication state only.\<close>

lemma challenge_request_frame:
  "challenge_request random ctx req user now s = (r, ctx') \<Longrightarrow>
     \<exists>sa. ctx' = ctx \<lparr> secureAuth := sa \<rparr> \<and> controlDirectionKeys sa = controlDirectionKeys (secureAuth ctx)"
  by (auto simp: challenge_request_def Let_def issueChallenge_def bindChallengeFragment_def
      split: sum.splits option.splits if_splits intro!: exI [of _ "secureAuth ctx'"])

lemma handleConfirm_frame:
  "handleConfirm ctx req s = (r, ctx', s') \<Longrightarrow> \<exists>b. ctx' = ctx \<lparr> eventBuffer := b \<rparr>"
  by (auto simp: handleConfirm_def Let_def split: option.splits list.splits if_splits
      intro: exI [of _ "eventBuffer ctx'"])

lemma handleRead_frame:
  "handleRead ctx req = (fs, ctx') \<Longrightarrow>
     ctx' = ctx \<or> (\<exists>seqs. ctx' = ctx \<lparr> eventBuffer := markReported seqs (eventBuffer ctx) \<rparr>)"
  by (auto simp: handleRead_def Let_def split: option.splits prod.splits if_splits)

lemma handleWrite_frame:
  "handleWrite ctx req = (r, ctx') \<Longrightarrow> ctx' = ctx \<or> ctx' = ctx \<lparr> restartPending := False \<rparr>"
  by (auto simp: handleWrite_def Let_def split: option.splits if_splits)

lemma handleControlRequest_frame:
  assumes "handleControlRequest ctx req now p = (r, ctx', p')"
  obtains res st where "process (pointMap ctx) (controlConfig ctx) (controlSink ctx) req now (controls ctx) p = (res, st, p')"
    "ctx' = ctx \<lparr> controls := st \<rparr>"
  using assms by (auto simp: handleControlRequest_def Let_def split: prod.splits)


definition control_functions :: "nat set" where
  "control_functions = {DNP3_FUNCTION SELECT, DNP3_FUNCTION OPERATE, DNP3_FUNCTION DIRECT_OPERATE,
     DNP3_FUNCTION DIRECT_OPERATE_NR}"

lemma dispatch_function_frame:
  assumes "dispatch_function ctx req now s p = (r, ctx', s', p')"
  shows "same_config ctx ctx' \<and> secureAuth ctx' = secureAuth ctx
    \<and> (p' \<noteq> p \<or> armed (controls ctx') \<noteq> None \<and> controls ctx' \<noteq> controls ctx \<longrightarrow> func req \<in> control_functions)
    \<and> (\<not> isCriticalFunction (func req) \<longrightarrow>
         p' = p \<and> controls ctx' = controls ctx \<and> restartPending ctx' = restartPending ctx
         \<and> unsolicitedEnabled ctx' = unsolicitedEnabled ctx)
    \<and> (func req \<in> control_functions \<longrightarrow>
         (\<exists>res. process (pointMap ctx) (controlConfig ctx) (controlSink ctx) req now (controls ctx) p = (res, controls ctx', p')))"
proof (cases "func req \<in> control_functions")
  case True
  then have "dispatch_function ctx req now s p
      = (case handleControlRequest ctx req now p of (r, ctx', p') \<Rightarrow> (r, ctx', s, p'))"
    by (auto simp: dispatch_function_def control_functions_def)
  with assms have "handleControlRequest ctx req now p = (r, ctx', p')" by (auto split: prod.splits)
  then obtain res st where "process (pointMap ctx) (controlConfig ctx) (controlSink ctx) req now (controls ctx) p = (res, st, p')"
    "ctx' = ctx \<lparr> controls := st \<rparr>" by (rule handleControlRequest_frame)
  moreover have "isCriticalFunction (func req)"
    using True by (auto simp: control_functions_def isCriticalFunction_def SAV5_CRITICAL_FUNCTIONS_def)
  ultimately show ?thesis using True by (simp add: same_config_def)
next
  case False
  consider "func req = DNP3_FUNCTION READ" | "func req = DNP3_FUNCTION WRITE"
    | "func req = DNP3_FUNCTION ENABLE_UNSOLICITED" | "func req = DNP3_FUNCTION DISABLE_UNSOLICITED"
    | "func req = DNP3_FUNCTION COLD_RESTART \<or> func req = DNP3_FUNCTION WARM_RESTART"
    | "func req \<notin> {DNP3_FUNCTION READ, DNP3_FUNCTION WRITE, DNP3_FUNCTION ENABLE_UNSOLICITED,
        DNP3_FUNCTION DISABLE_UNSOLICITED, DNP3_FUNCTION COLD_RESTART, DNP3_FUNCTION WARM_RESTART}"
    by blast
  then show ?thesis
  proof cases
    case 1
    with assms have "\<exists>fs. handleRead ctx req = (fs, ctx')" "p' = p"
      by (auto simp: dispatch_function_def split: prod.splits option.splits)
    then show ?thesis using False handleRead_frame [of ctx req] by (fastforce simp: same_config_def)
  next
    case 2
    with assms have "\<exists>r. handleWrite ctx req = (r, ctx')" "p' = p"
      by (auto simp: dispatch_function_def split: prod.splits)
    then show ?thesis using 2 False handleWrite_frame [of ctx req]
      by (fastforce simp: same_config_def isCriticalFunction_def SAV5_CRITICAL_FUNCTIONS_def)
  qed (use False assms in \<open>auto simp: dispatch_function_def control_functions_def same_config_def disarm_def Let_def
      isCriticalFunction_def SAV5_CRITICAL_FUNCTIONS_def\<close>)
qed


text \<open>A request that skips authentication never touches the authentication state; the plant moves only by
  the control processor.\<close>

lemma handle_skip_cases:
  assumes "handleApplicationRequest random ctx req user now True s p = (r, ctx', s', p')"
  obtains (quiet) "ctx' = ctx" "s' = s" "p' = p"
    | (confirmed) r' where "handleConfirm ctx req s = (r', ctx', s')" "r = Some r'" "p' = p"
    | (dispatched) "dispatch_function ctx req now (s \<lparr> pendingFragments := [], awaitingConfirm := None \<rparr>) p = (r, ctx', s', p')"
  using assms by (auto simp: handleApplicationRequest_def split: if_splits prod.splits)

lemma handle_authorised:
  assumes "handleApplicationRequest random ctx req user now True s p = (r, ctx', s', p')"
  shows "same_config ctx ctx' \<and> secureAuth ctx' = secureAuth ctx
    \<and> (p' \<noteq> p \<longrightarrow> func req \<in> control_functions
         \<and> (\<exists>res st. process (pointMap ctx) (controlConfig ctx) (controlSink ctx) req now (controls ctx) p = (res, st, p')))"
  using assms
proof (cases rule: handle_skip_cases)
  case (confirmed r')
  then show ?thesis using handleConfirm_frame [of ctx req s] by (fastforce simp: same_config_def)
next
  case dispatched
  from dispatch_function_frame [OF this] show ?thesis by blast
qed simp

lemma handle_cases:
  assumes "handleApplicationRequest random ctx req user now False s p = (r, ctx', s', p')"
  obtains (quiet) sa where "ctx' = ctx \<lparr> secureAuth := sa \<rparr>" "s' = s" "p' = p"
      "controlDirectionKeys sa = controlDirectionKeys (secureAuth ctx)"
    | (confirmed) sa r' where "handleConfirm (ctx \<lparr> secureAuth := sa \<rparr>) req s = (r', ctx', s')" "r = Some r'" "p' = p"
      "func req = DNP3_FUNCTION CONFIRM" "controlDirectionKeys sa = controlDirectionKeys (secureAuth ctx)"
    | (dispatched) sa where
      "dispatch_function (ctx \<lparr> secureAuth := sa \<rparr>) req now (s \<lparr> pendingFragments := [], awaitingConfirm := None \<rparr>) p
         = (r, ctx', s', p')" "hasUser user (secureAuth ctx) \<longrightarrow> \<not> isCriticalFunction (func req)"
      "controlDirectionKeys sa = controlDirectionKeys (secureAuth ctx)"
proof (cases "func req = DNP3_FUNCTION AUTH_REQUEST_NO_ACK")
  case True
  with assms that(1) [of "secureAuth ctx'"] show thesis by (auto simp: handleApplicationRequest_def split: if_splits)
next
  case False
  obtain w sa where w: "isWaiting (sav5AssociationId s) now (secureAuth ctx) = (w, sa)"
    by (cases "isWaiting (sav5AssociationId s) now (secureAuth ctx)")
  define c where "c = ctx \<lparr> secureAuth := sa \<rparr>"
  have keys: "controlDirectionKeys sa = controlDirectionKeys (secureAuth ctx)" using isWaiting_keeps [OF w] by simp
  then have user: "hasUser user (secureAuth c) \<longleftrightarrow> hasUser user (secureAuth ctx)" by (simp add: c_def hasUser_def)
  let ?s = "s \<lparr> pendingFragments := [], awaitingConfirm := None \<rparr>"
  have "handleApplicationRequest random ctx req user now False s p =
      (if w then (Some NO_RESPONSE, c, s, p)
       else if isCriticalFunction (func req) \<and> \<not> objectsComplete req then
         (Some (if func req = DNP3_FUNCTION DIRECT_OPERATE_NR then NO_RESPONSE
                else errorResponse c (req_seq req) (no_iin \<lparr> parameterError := True \<rparr>)), c, s, p)
       else if isCriticalFunction (func req) \<and> hasUser user (secureAuth c) then
         (case challenge_request random c req user now s of (r, ctx') \<Rightarrow> (r, ctx', s, p))
       else if func req = DNP3_FUNCTION CONFIRM then
         (case handleConfirm c req s of (r, ctx', s') \<Rightarrow> (Some r, ctx', s', p))
       else dispatch_function c req now ?s p)"
    using False w unfolding handleApplicationRequest_def by (simp only: c_def Let_def prod.case if_False simp_thms)
  note H = this [unfolded assms]
  note quiet = that(1) [of sa, folded c_def, OF _ _ _ keys]
  show thesis
  proof (cases "w \<or> isCriticalFunction (func req) \<and> \<not> objectsComplete req")
    case True
    with H quiet show ?thesis by (auto simp only: if_True if_False simp_thms prod.inject split: if_split_asm)
  next
    case proceed: False
    show ?thesis
    proof (cases "isCriticalFunction (func req) \<and> hasUser user (secureAuth c)")
      case True
      obtain r' c' where ch: "challenge_request random c req user now s = (r', c')" by fastforce
      with H proceed True have "ctx' = c'" "s' = s" "p' = p" by simp_all
      with challenge_request_frame [OF ch] keys that(1) show ?thesis by (auto simp: c_def)
    next
      case nochallenge: False
      show ?thesis
      proof (cases "func req = DNP3_FUNCTION CONFIRM")
        case True
        obtain r' c' s'' where ch: "handleConfirm c req s = (r', c', s'')" by (metis prod_cases3)
        with H proceed nochallenge True have "r = Some r'" "ctx' = c'" "s' = s''" "p' = p" by auto
        with ch True keys that(2) show ?thesis by (simp add: c_def)
      next
        case False
        with H proceed nochallenge have "dispatch_function c req now ?s p = (r, ctx', s', p')" by auto
        with nochallenge user keys that(3) show ?thesis by (auto simp: c_def)
      qed
    qed
  qed
qed

lemma handle_challenged:
  assumes "handleApplicationRequest random ctx req user now False s p = (r, ctx', s', p')"
    and key: "hasUser user (secureAuth ctx)"
  shows "same_config ctx ctx' \<and> p' = p \<and> controls ctx' = controls ctx \<and> restartPending ctx' = restartPending ctx
    \<and> unsolicitedEnabled ctx' = unsolicitedEnabled ctx
    \<and> (isCriticalFunction (func req) \<longrightarrow> eventBuffer ctx' = eventBuffer ctx \<and> s' = s)"
  using assms(1)
proof (cases rule: handle_cases)
  case (confirmed sa r')
  then obtain b where "ctx' = ctx \<lparr> secureAuth := sa, eventBuffer := b \<rparr>"
    using handleConfirm_frame [of "ctx \<lparr> secureAuth := sa \<rparr>" req s] by blast
  with confirmed show ?thesis by (simp add: same_config_def isCriticalFunction_def SAV5_CRITICAL_FUNCTIONS_def)
next
  case (dispatched sa)
  from dispatch_function_frame [OF this(1)] dispatched(2,3) key show ?thesis by (auto simp: same_config_def)
qed (simp add: same_config_def)

lemma apply_tag_frame: "apply_tag tag smp now ctx = ctx' \<Longrightarrow>
    \<exists>pm b. ctx' = ctx \<lparr> pointMap := pm, eventBuffer := b \<rparr>"
  by (auto simp: apply_tag_def split: prod.splits)

text \<open>The commands that a verified reply releases.\<close>

definition released :: "hmac \<Rightarrow> 'p outstation_context \<Rightarrow> parsed_request \<Rightarrow> int \<Rightarrow> session \<Rightarrow> (buffer \<times> parsed_request) option" where
  "released hmac ctx req now s =
     (if func req \<noteq> DNP3_FUNCTION AUTH_REQUEST \<or> \<not> secure_auth_object 2 req then None
      else (case handleSecureAuthReply hmac ctx (the (freeFormat (objects req ! 0)) ! 0) (req_seq req) s now of
              (Some (Verified asdu user), _) \<Rightarrow> map_option (Pair asdu) (parseRequest asdu)
            | _ \<Rightarrow> None))"

lemma handleSecureAuthReply_frame:
  assumes "handleSecureAuthReply hmac ctx body q s now = (v, ctx')"
  shows "ctx' = (if v = None then ctx else ctx \<lparr> secureAuth := clearAssociation (sav5AssociationId s) (secureAuth ctx) \<rparr>)"
  using assms verifyReply_state [of hmac _ "sav5AssociationId s" q now "secureAuth ctx"]
  by (auto simp: handleSecureAuthReply_def clearAssociation_def split: option.splits prod.splits) (metis snd_conv)

lemma dispatchSecureAuthReply_cases:
  assumes "dispatchSecureAuthReply hmac random ctx req now s p = (out, ctx', s', p')"
  obtains (nothing) sa where "released hmac ctx req now s = None" "out = []" "p' = p" "s' = s" "ctx' = ctx \<lparr> secureAuth := sa \<rparr>"
      "sa = (if func req = DNP3_FUNCTION AUTH_REQUEST then clearAssociation (sav5AssociationId s) (secureAuth ctx) else secureAuth ctx)"
  | (executed) sa asdu areq user r where "released hmac ctx req now s = Some (asdu, areq)"
      "handleApplicationRequest random (ctx \<lparr> secureAuth := sa \<rparr>) areq user now True s p = (r, ctx', s', p')"
      "sa = clearAssociation (sav5AssociationId s) (secureAuth ctx)"
proof -
  consider "func req \<noteq> DNP3_FUNCTION AUTH_REQUEST \<or> \<not> secure_auth_object 2 req"
    | "func req = DNP3_FUNCTION AUTH_REQUEST" "secure_auth_object 2 req" by blast
  then show thesis
  proof cases
    case 1
    with assms show ?thesis
      by - (rule that(1) [of "secureAuth ctx'"];
          auto simp: dispatchSecureAuthReply_def released_def Let_def split: if_splits)
  next
    case 2
    obtain v c where h: "handleSecureAuthReply hmac ctx (the (freeFormat (objects req ! 0)) ! 0) (req_seq req) s now = (v, c)"
      by fastforce
    note sa = handleSecureAuthReply_frame [OF h]
    show ?thesis
    proof (cases "released hmac ctx req now s")
      case None
      with 2 h sa assms show ?thesis
        by - (rule that(1) [of "secureAuth ctx'"];
          auto simp: dispatchSecureAuthReply_def released_def clearAssociation_def
            split: option.splits verify_result.splits)
    next
      case (Some x)
      then obtain asdu areq user where "v = Some (Verified asdu user)" "parseRequest asdu = Some areq" "x = (asdu, areq)"
        using 2 h by (auto simp: released_def split: option.splits verify_result.splits)
      with 2 h sa assms Some show ?thesis
        by (cases "handleApplicationRequest random c areq user now True s p")
          (auto simp: dispatchSecureAuthReply_def intro!: that(2))
    qed
  qed
qed

lemma released_authentic:
  assumes "released hmac ctx req now s = Some (asdu, areq)"
  shows "\<exists>reply. decodeReplyObject (the (freeFormat (objects req ! 0)) ! 0) = Some reply
    \<and> authentic hmac (secureAuth ctx) (sav5AssociationId s) reply (req_seq req) now asdu \<and> parseRequest asdu = Some areq"
  using assms verifyReply_authentic [of hmac]
  by (fastforce simp: released_def handleSecureAuthReply_def split: if_splits option.splits verify_result.splits prod.splits)


text \<open>
  When the request carries a reply that verifies: the g120v2 object decodes, and its MAC is right for the challenge pending
  in this context, for this association, sequence number and time.
\<close>

definition verifies :: "hmac \<Rightarrow> 'p outstation_context \<Rightarrow> parsed_request \<Rightarrow> int \<Rightarrow> session \<Rightarrow> buffer \<Rightarrow> parsed_request \<Rightarrow> bool" where
  "verifies hmac ctx req now s asdu areq \<longleftrightarrow>
     func req = DNP3_FUNCTION AUTH_REQUEST \<and> secure_auth_object 2 req
     \<and> (\<exists>reply. decodeReplyObject (the (freeFormat (objects req ! 0)) ! 0) = Some reply
          \<and> authentic hmac (secureAuth ctx) (sav5AssociationId s) reply (req_seq req) now asdu)
     \<and> parseRequest asdu = Some areq"

lemma released_iff: "released hmac ctx req now s = Some (asdu, areq) \<longleftrightarrow> verifies hmac ctx req now s asdu areq"
proof
  assume r: "released hmac ctx req now s = Some (asdu, areq)"
  then have "func req = DNP3_FUNCTION AUTH_REQUEST" "secure_auth_object 2 req"
    by (auto simp: released_def split: if_splits)
  with released_authentic [OF r] show "verifies hmac ctx req now s asdu areq" by (auto simp: verifies_def)
next
  assume "verifies hmac ctx req now s asdu areq"
  then obtain reply where "func req = DNP3_FUNCTION AUTH_REQUEST" "secure_auth_object 2 req" "parseRequest asdu = Some areq"
    "decodeReplyObject (the (freeFormat (objects req ! 0)) ! 0) = Some reply"
    "fst (verifyReply hmac reply (sav5AssociationId s) (req_seq req) now (secureAuth ctx)) = Verified asdu (reply_userNumber reply)"
    by (auto simp: verifies_def dest: authentic_verifies)
  then show "released hmac ctx req now s = Some (asdu, areq)"
    by (auto simp: released_def handleSecureAuthReply_def split: prod.splits)
qed

lemma released_None_iff: "released hmac ctx req now s = None \<longleftrightarrow> (\<forall>asdu areq. \<not> verifies hmac ctx req now s asdu areq)"
  by (metis released_iff option.exhaust prod.exhaust not_None_eq)


text \<open>C29: A challenge serves one attempt, and a reply that does not verify has no effect. After any reply the authentication
  state differs from the one before only in that no challenge is pending for this association: the keys, the sequence
  counter and the challenges pending for other associations are as before. Only a reply with the right MAC for the pending
  challenge releases a request; after any other nothing is sent, and the plant, the session and the rest of the outstation
  are as before.\<close>

theorem reply_single_use:
  assumes "dispatchSecureAuthReply hmac random ctx req now s p = (out, ctx', s', p')" "func req = DNP3_FUNCTION AUTH_REQUEST"
  shows "secureAuth ctx' = (secureAuth ctx) \<lparr> pending := (pending (secureAuth ctx))(sav5AssociationId s := None) \<rparr>
    \<and> ((\<forall>asdu areq. \<not> verifies hmac ctx req now s asdu areq) \<longrightarrow>
         out = [] \<and> p' = p \<and> s' = s \<and> ctx' = ctx \<lparr> secureAuth := secureAuth ctx' \<rparr>)
    \<and> (\<forall>asdu areq. verifies hmac ctx req now s asdu areq \<longrightarrow> hasPending (sav5AssociationId s) (secureAuth ctx))"
  using assms(1)
proof (cases rule: dispatchSecureAuthReply_cases)
  case (nothing sa)
  then show ?thesis using assms(2) by (simp add: released_None_iff clearAssociation_def)
next
  case (executed sa asdu areq user r)
  from handle_authorised [OF executed(2)] executed(3) have
    "secureAuth ctx' = (secureAuth ctx) \<lparr> pending := (pending (secureAuth ctx))(sav5AssociationId s := None) \<rparr>"
    by (simp add: clearAssociation_def)
  moreover have "verifies hmac ctx req now s asdu areq" using executed(1) by (simp add: released_iff)
  moreover have "verifies hmac ctx req now s a b \<Longrightarrow> hasPending (sav5AssociationId s) (secureAuth ctx)" for a b
    by (auto simp: verifies_def authentic_def hasPending_def)
  ultimately show ?thesis by blast
qed

section \<open>Runs of an outstation with a provisioned key\<close>

text \<open>
  Every sequence of requests, replies, closed associations, tag updates and unsolicited reports, from any
  association and at any time. The log records each reply that released a request: the outstation it met, the request that
  carried it, the time, the session, the released fragment, and the commands in the fragment.
\<close>

record 'p release =
  rel_context :: "'p outstation_context"
  rel_request :: parsed_request
  rel_now :: int
  rel_session :: session
  rel_asdu :: buffer

inductive outstation_run :: "hmac \<Rightarrow> nat \<Rightarrow> 'p outstation_context \<Rightarrow> 'p
    \<Rightarrow> ('p release \<times> control_command list) list \<Rightarrow> 'p outstation_context \<Rightarrow> 'p \<Rightarrow> bool"
  for hmac user ctx\<^sub>0 p\<^sub>0 where
  run_start: "outstation_run hmac user ctx\<^sub>0 p\<^sub>0 [] ctx\<^sub>0 p\<^sub>0"
| run_request: "outstation_run hmac user ctx\<^sub>0 p\<^sub>0 log ctx p \<Longrightarrow>
    dispatch random user ctx req now s p = (out, ctx', s', p') \<Longrightarrow>
    outstation_run hmac user ctx\<^sub>0 p\<^sub>0 log ctx' p'"
| run_reply: "outstation_run hmac user ctx\<^sub>0 p\<^sub>0 log ctx p \<Longrightarrow>
    dispatchSecureAuthReply hmac random ctx req now s p = (out, ctx', s', p') \<Longrightarrow>
    outstation_run hmac user ctx\<^sub>0 p\<^sub>0
      (log @ (case released hmac ctx req now s of None \<Rightarrow> []
              | Some (asdu, areq) \<Rightarrow> [(\<lparr> rel_context = ctx, rel_request = req, rel_now = now, rel_session = s, rel_asdu = asdu \<rparr>,
                                     request_commands (pointMap ctx) areq)])) ctx' p'"
| run_closed: "outstation_run hmac user ctx\<^sub>0 p\<^sub>0 log ctx p \<Longrightarrow>
    outstation_run hmac user ctx\<^sub>0 p\<^sub>0 log (onAssociationClosed s ctx) p"
| run_tag: "outstation_run hmac user ctx\<^sub>0 p\<^sub>0 log ctx p \<Longrightarrow>
    outstation_run hmac user ctx\<^sub>0 p\<^sub>0 log (apply_tag tag smp now ctx) p"
| run_reported: "outstation_run hmac user ctx\<^sub>0 p\<^sub>0 log ctx p \<Longrightarrow>
    outstation_run hmac user ctx\<^sub>0 p\<^sub>0 log (ctx \<lparr> eventBuffer := markReported seqs (eventBuffer ctx) \<rparr>) p"

lemma apply_sink_append: "apply_sink snk ds (apply_sink snk cs p) = apply_sink snk (cs @ ds) p"
  by (simp add: apply_sink_def)

lemma dispatch_handle:
  "dispatch random user ctx req now s p = (out, ctx', s', p') \<Longrightarrow>
     \<exists>r. handleApplicationRequest random ctx req user now False s p = (r, ctx', s', p')"
  by (auto simp: dispatch_def split: prod.splits)

lemma outstation_run_log:
  assumes "outstation_run hmac user ctx\<^sub>0 p\<^sub>0 log ctx p" "hasUser user (secureAuth ctx\<^sub>0)"
  shows "controlDirectionKeys (secureAuth ctx) = controlDirectionKeys (secureAuth ctx\<^sub>0)
    \<and> controlSink ctx = controlSink ctx\<^sub>0
    \<and> (\<exists>cs. p = apply_sink (the (controlSink ctx\<^sub>0)) cs p\<^sub>0 \<and> subseq cs (concat (map snd log)))"
  using assms
proof (induction rule: outstation_run.induct)
  case run_start
  then show ?case by (auto simp: apply_sink_def intro!: exI [of _ "[]"])
next
  case (run_request log ctx p random req now s out ctx' s' p')
  then have key: "hasUser user (secureAuth ctx)" by (simp add: hasUser_def)
  obtain r where "handleApplicationRequest random ctx req user now False s p = (r, ctx', s', p')"
    using dispatch_handle [OF run_request.hyps(2)] by blast
  from handle_challenged [OF this key] have "same_config ctx ctx' \<and> p' = p" by simp
  with run_request show ?case by (simp add: same_config_def)
next
  case (run_reply log ctx p random req now s out ctx' s' p')
  from run_reply.hyps(2) show ?case
  proof (cases rule: dispatchSecureAuthReply_cases)
    case (nothing sa)
    with run_reply show ?thesis by simp
  next
    case (executed sa asdu areq u r)
    note H = handle_authorised [OF executed(2)]
    obtain cs where cs: "p = apply_sink (the (controlSink ctx\<^sub>0)) cs p\<^sub>0" "subseq cs (concat (map snd log))"
      using run_reply by blast
    have "\<exists>ds. p' = apply_sink (the (controlSink ctx\<^sub>0)) ds p \<and> subseq ds (request_commands (pointMap ctx) areq)"
    proof (cases "p' = p")
      case True
      then show ?thesis by (auto simp: apply_sink_def intro!: exI [of _ "[]"])
    next
      case False
      with H run_reply obtain res st where
        "process (pointMap ctx) (controlConfig ctx) (controlSink ctx\<^sub>0) areq now (controls ctx) p = (res, st, p')"
        by auto
      from plant_moves [OF this] show ?thesis by blast
    qed
    with cs have "\<exists>ds. p' = apply_sink (the (controlSink ctx\<^sub>0)) (cs @ ds) p\<^sub>0
        \<and> subseq (cs @ ds) (concat (map snd log) @ request_commands (pointMap ctx) areq)"
      by (metis apply_sink_append list_emb_append_mono)
    with H executed run_reply show ?thesis by (auto simp: same_config_def)
  qed
next
  case (run_closed log ctx p s)
  then show ?case by (simp add: onAssociationClosed_def)
next
  case (run_tag log ctx p tag smp now)
  then show ?case using apply_tag_frame [of tag smp now ctx] by fastforce
next
  case (run_reported log ctx p seqs)
  then show ?case by simp
qed


text \<open>
  What the log says of a reply is true: it met an outstation that the run had reached, and it verified there.
\<close>

definition release_ok :: "hmac \<Rightarrow> nat \<Rightarrow> 'p outstation_context \<Rightarrow> 'p \<Rightarrow> 'p release \<Rightarrow> control_command list \<Rightarrow> bool" where
  "release_ok hmac user ctx\<^sub>0 p\<^sub>0 r cs \<longleftrightarrow>
     (\<exists>earlier p. outstation_run hmac user ctx\<^sub>0 p\<^sub>0 earlier (rel_context r) p)
     \<and> (\<exists>areq. verifies hmac (rel_context r) (rel_request r) (rel_now r) (rel_session r) (rel_asdu r) areq
          \<and> cs = request_commands (pointMap (rel_context r)) areq)
     \<and> controlDirectionKeys (secureAuth (rel_context r)) = controlDirectionKeys (secureAuth ctx\<^sub>0)"

lemma outstation_run_release_ok:
  assumes "outstation_run hmac user ctx\<^sub>0 p\<^sub>0 log ctx p" "hasUser user (secureAuth ctx\<^sub>0)" "(r, cs) \<in> set log"
  shows "release_ok hmac user ctx\<^sub>0 p\<^sub>0 r cs"
  using assms
proof (induction rule: outstation_run.induct)
  case (run_reply log ctx p random req now s out ctx' s' p')
  show ?case
  proof (cases "(r, cs) \<in> set log")
    case False
    with run_reply.prems obtain asdu areq where "released hmac ctx req now s = Some (asdu, areq)"
      "r = \<lparr> rel_context = ctx, rel_request = req, rel_now = now, rel_session = s, rel_asdu = asdu \<rparr>"
      "cs = request_commands (pointMap ctx) areq" by (cases "released hmac ctx req now s") auto
    then show ?thesis
      using outstation_run_log [OF run_reply.hyps(1) run_reply.prems(1)] run_reply.hyps(1)
      by (auto simp: release_ok_def released_iff)
  qed (use run_reply in blast)
qed auto


text \<open>C4: With a key provisioned, nothing reaches the plant but authenticated commands. However requests, replies,
  closed associations and tag updates are interleaved, on whatever associations and at whatever times, the
  plant is the start plant after some of the commands of the logged fragments, in their order. Each logged fragment was
  released by a reply received in a state that this outstation reached: the MAC in the received object is the truncated keyed
  hash, under the key provisioned for the user, of the challenge pending there for this association and this very fragment,
  with its sequence numbers, and the reply came within the challenge timeout.\<close>

theorem plant_needs_authentication:
  assumes "outstation_run hmac user ctx\<^sub>0 p\<^sub>0 log ctx p" "hasUser user (secureAuth ctx\<^sub>0)"
  shows "(\<exists>cs. p = apply_sink (the (controlSink ctx\<^sub>0)) cs p\<^sub>0 \<and> subseq cs (concat (map snd log)))
    \<and> (\<forall>(r, cs) \<in> set log. release_ok hmac user ctx\<^sub>0 p\<^sub>0 r cs)"
  using outstation_run_log [OF assms] outstation_run_release_ok [OF assms] by blast

definition example_asdu :: buffer where
  "example_asdu = 0xC1 # 0x05 # concat (map header_bytes latch_on)"

definition example_sav5 :: sav5_state where
  "example_sav5 =
     \<lparr> controlDirectionKeys = [1 \<mapsto> replicate 16 0xAA],
       pending = [7 \<mapsto> \<lparr> challenge = \<lparr> challengeSeq = 1, chal_userNumber = 0, macAlgorithm = 4, chal_reason = 1,
                                       challengeData = [1, 2, 3, 4] \<rparr>,
                         expectedUserNumber = 1, expectedAppSeq = 2, challengeFragment = Some [0xC1, 0x83],
                         criticalAsdu = example_asdu, issuedAt = 0 \<rparr>],
       csqCounter = 1, nonceBytes = 16, defaultAlgorithm = 4, challengeTimeoutMs = 5000 \<rparr>"

definition example_context :: "control_command list outstation_context" where
  "example_context =
     \<lparr> pointMap = example_map, eventBuffer = new_event_buffer DEFAULT_EVENT_BUFFER_CONFIG, secureAuth = example_sav5,
       controlConfig = example_config, controlSink = Some log_sink, controls = new_control_state,
       eventVariations = relative_policy, maxTxFragmentSize = 2048, restartPending = True, unsolicitedEnabled = False \<rparr>"

text \<open>A toy keyed hash, enough to run the exchange.\<close>

definition example_hmac :: hmac where
  "example_hmac alg key msg = replicate 32 (fold (+) (key @ msg) 0)"

definition example_reply :: sav5_reply where
  "example_reply = \<lparr> reply_challengeSeq = 1, reply_userNumber = 1,
     mac = take 16 (example_hmac sha256 (replicate 16 0xAA) ([0xC1, 0x83] @ example_asdu)) \<rparr>"

definition example_reply_request :: parsed_request where
  "example_reply_request =
     \<lparr> appControl = 0xC2, fir = True, fin = True, con = False, uns = False, req_seq = 2, func = 0x20,
       objects = [(new_header 120 2 0x5b) \<lparr> hdr_count := Some 1, freeFormat := Some [encodeReplyObject example_reply] \<rparr>],
       objectsComplete = True, rawObjects = [], raw = [] \<rparr>"

definition example_session :: session where
  "example_session = \<lparr> sav5AssociationId = 7, pendingFragments = [], awaitingConfirm = None \<rparr>"

lemma example_verified:
  "\<exists>c. handleSecureAuthReply example_hmac example_context (encodeReplyObject example_reply) 2 example_session 0
    = (Some (Verified example_asdu 1), c) \<and> pointMap c = example_map \<and> controlConfig c = example_config
      \<and> controlSink c = Some log_sink \<and> controls c = new_control_state"
proof -
  have "decodeReplyObject (encodeReplyObject example_reply) = Some example_reply"
    by (rule decodeReplyObject_encode) (simp_all add: example_reply_def)
  then show ?thesis
    by (simp add: handleSecureAuthReply_def example_context_def verifyReply_def example_session_def example_sav5_def
        example_reply_def computeMac_def ALGO_SPEC_def macEquals_def example_hmac_def Let_def
        SAV5_CHALLENGE_REASON_CRITICAL_def)
qed

lemma example_exchange:
  obtains areq out c s where "parseRequest example_asdu = Some areq" "objects areq = latch_on"
    "released example_hmac example_context example_reply_request 0 example_session = Some (example_asdu, areq)"
    "dispatchSecureAuthReply example_hmac [] example_context example_reply_request 0 example_session []
       = (out, c, s, [latch_command])"
proof -
  obtain areq where a: "parseRequest example_asdu = Some areq" "objects areq = latch_on" "objectsComplete areq"
    "func areq = unat (0x05 :: byte)" using parse_control [OF latch_on_ok] unfolding example_asdu_def by metis
  then have f: "func areq = DNP3_FUNCTION DIRECT_OPERATE" by simp
  have req: "func example_reply_request = DNP3_FUNCTION AUTH_REQUEST" "secure_auth_object 2 example_reply_request"
    "the (freeFormat (objects example_reply_request ! 0)) ! 0 = encodeReplyObject example_reply"
    "req_seq example_reply_request = 2"
    by (simp_all add: example_reply_request_def secure_auth_object_def new_header_def)
  obtain c where v: "handleSecureAuthReply example_hmac example_context (encodeReplyObject example_reply) 2 example_session 0
      = (Some (Verified example_asdu 1), c)" and c: "pointMap c = example_map" "controlConfig c = example_config"
      "controlSink c = Some log_sink" "controls c = new_control_state" using example_verified by blast
  have rel: "released example_hmac example_context example_reply_request 0 example_session = Some (example_asdu, areq)"
    using req v a(1) by (simp add: released_def)
  from latch_run [OF a(2) f] obtain res st' where
    p: "process example_map example_config (Some log_sink) areq 0 new_control_state [] = (res, st', [latch_command])" by blast
  have "\<exists>r c' s'. handleApplicationRequest [] c areq 1 0 True example_session [] = (r, c', s', [latch_command])"
    using f a(3) p c
    by (simp add: handleApplicationRequest_def dispatch_function_def handleControlRequest_def Let_def)
  then obtain r c' s' where "handleApplicationRequest [] c areq 1 0 True example_session [] = (r, c', s', [latch_command])"
    by blast
  with req v a(1) have "dispatchSecureAuthReply example_hmac [] example_context example_reply_request 0 example_session []
      = (response_of r, c', s', [latch_command])"
    by (simp add: dispatchSecureAuthReply_def)
  with that a rel show thesis by blast
qed

theorem plant_needs_authentication_witness:
  "\<exists>ctx r. outstation_run example_hmac 1 example_context [] [(r, [latch_command])] ctx [latch_command]
     \<and> rel_context r = example_context \<and> rel_request r = example_reply_request \<and> rel_asdu r = example_asdu
     \<and> release_ok example_hmac 1 example_context [] r [latch_command]"
proof -
  obtain areq out c s where x: "parseRequest example_asdu = Some areq" "objects areq = latch_on"
    "released example_hmac example_context example_reply_request 0 example_session = Some (example_asdu, areq)"
    "dispatchSecureAuthReply example_hmac [] example_context example_reply_request 0 example_session []
       = (out, c, s, [latch_command])" by (rule example_exchange)
  let ?r = "\<lparr> rel_context = example_context, rel_request = example_reply_request, rel_now = 0, rel_session = example_session,
    rel_asdu = example_asdu \<rparr>"
  have "request_commands (pointMap example_context) areq = [latch_command]"
    using latch_on_decoded [OF x(2)] by (simp add: request_commands_def example_context_def object_commands_def accepted_def)
  with outstation_run.run_reply [OF outstation_run.run_start x(4)] x(3)
  have run: "outstation_run example_hmac 1 example_context [] [(?r, [latch_command])] c [latch_command]" by simp
  have "hasUser 1 (secureAuth example_context)" by (simp add: hasUser_def example_context_def example_sav5_def)
  from plant_needs_authentication [OF run this, THEN conjunct2]
  have "release_ok example_hmac 1 example_context [] ?r [latch_command]" by simp
  with run show ?thesis by (intro exI [of _ c] exI [of _ ?r]) simp
qed


theorem reply_single_use_witness:
  "\<exists>out c s. dispatchSecureAuthReply example_hmac [] example_context example_reply_request 0 example_session []
       = (out, c, s, [latch_command])
     \<and> hasPending 7 (secureAuth example_context)
     \<and> secureAuth c = example_sav5 \<lparr> pending := (pending example_sav5)(7 := None) \<rparr>"
proof -
  obtain areq out c s where x: "released example_hmac example_context example_reply_request 0 example_session = Some (example_asdu, areq)"
    "dispatchSecureAuthReply example_hmac [] example_context example_reply_request 0 example_session []
       = (out, c, s, [latch_command])" using example_exchange by metis
  have "func example_reply_request = DNP3_FUNCTION AUTH_REQUEST" by (simp add: example_reply_request_def)
  from reply_single_use [OF x(2) this] x(2) x(1) [unfolded released_iff] show ?thesis
    by (auto simp: example_session_def example_context_def)
qed

end
