(* ===== verification/Dnp3_Reporting.thy ===== *)
theory Dnp3_Reporting
  imports Dnp3_Outstation
begin

text \<open>
  How the outstation reports events: which requests remove events from the buffer, how a READ packs static
  blocks and events into fragments (\<open>handleRead\<close> of \<open>dnp3-outstation/index.ts\<close>), and what a session holds
  between a fragment and its confirmation.
\<close>

section \<open>Events leave the buffer only by confirmation\<close>

lemma confirm_removes:
  assumes "e \<in> set (events (queues b c))" "e \<notin> set (events (queues (confirm seqs b) c))"
  shows "seq e \<in> set seqs"
  using assms by auto

lemma markReported_events [simp]: "events (queues (markReported seqs b) c) = events (queues b c)"
  by (simp add: markReported_def)

text \<open>The events a request may remove: those of the fragment it confirms.\<close>

definition confirmed_by :: "parsed_request \<Rightarrow> session \<Rightarrow> nat set" where
  "confirmed_by req s =
     (case awaitingConfirm s of
        Some f \<Rightarrow> if func req = DNP3_FUNCTION CONFIRM \<and> frag_seq f = req_seq req then set (frag_eventSeqs f) else {}
      | None \<Rightarrow> {})"

lemma handleConfirm_events:
  assumes "handleConfirm ctx req s = (r, ctx', s')" "func req = DNP3_FUNCTION CONFIRM"
  shows "events (queues (eventBuffer ctx') c) = filter (\<lambda>e. seq e \<notin> confirmed_by req s) (events (queues (eventBuffer ctx) c))"
  using assms
  by (auto simp: handleConfirm_def confirmed_by_def Let_def split: option.splits if_splits list.splits)

lemma dispatch_function_events:
  assumes "dispatch_function ctx req now s p = (r, ctx', s', p')"
    "func req \<noteq> DNP3_FUNCTION COLD_RESTART" "func req \<noteq> DNP3_FUNCTION WARM_RESTART"
  shows "events (queues (eventBuffer ctx') c) = events (queues (eventBuffer ctx) c)"
proof -
  consider (reads) fs where "handleRead ctx req = (fs, ctx')" | (writes) r' where "handleWrite ctx req = (r', ctx')"
    | (control) r' where "handleControlRequest ctx req now p = (r', ctx', p')"
    | (flags) "eventBuffer ctx' = eventBuffer ctx"
    using assms by (auto simp: dispatch_function_def Let_def split: if_splits prod.splits option.splits)
  then show ?thesis
  proof cases
    case reads
    from handleRead_frame [OF this] show ?thesis by auto
  next
    case writes
    from handleWrite_frame [OF this] show ?thesis by auto
  next
    case control
    then show ?thesis by (rule handleControlRequest_frame) simp
  qed simp
qed


section \<open>Reads\<close>

text \<open>The event octets of a fragment are the serialisation of exactly the events it is charged with.\<close>

definition carries :: "buffer \<Rightarrow> nat list \<Rightarrow> bool" where
  "carries bs seqs \<longleftrightarrow> seqs = [] \<or> (\<exists>pre evs pm policy m r. bs = pre @ enc_bytes r
     \<and> buildEventObjects evs pm policy (Some m) = Some r \<and> seqs = encodedSeqs r)"

definition packed_ok :: "nat \<Rightarrow> packed_fragment \<Rightarrow> bool" where
  "packed_ok budget f \<longleftrightarrow> used f = length (concat (blocks f)) \<and> used f \<le> budget \<and> carries (concat (blocks f)) (eventSeqs f)"

lemma packed_ok_empty [simp]: "packed_ok budget empty_fragment" "eventSeqs empty_fragment = []" "used empty_fragment = 0"
  "blocks empty_fragment = []"
  by (simp_all add: packed_ok_def empty_fragment_def carries_def)

abbreviation body :: "packed_fragment \<Rightarrow> buffer" where
  "body f \<equiv> concat (blocks f)"

lemma pack_static_ok:
  assumes "pack_static budget bs packed cur = (packed', cur')" "\<forall>b \<in> set bs. length b \<le> budget"
    and "list_all (packed_ok budget) packed" "packed_ok budget cur" "\<forall>f \<in> set (packed @ [cur]). eventSeqs f = []"
  shows "list_all (packed_ok budget) packed' \<and> packed_ok budget cur' \<and> (\<forall>f \<in> set (packed' @ [cur']). eventSeqs f = [])
    \<and> concat (map body (packed' @ [cur'])) = concat (map body (packed @ [cur])) @ concat bs"
  using assms
proof (induction bs arbitrary: packed cur)
  case (Cons b bs)
  let ?new = "\<lparr> blocks = [b], eventSeqs = [], used = length b \<rparr>"
  let ?ext = "cur \<lparr> blocks := blocks cur @ [b], used := used cur + length b \<rparr>"
  show ?case
  proof (cases "used cur > 0 \<and> used cur + length b > budget")
    case True
    with Cons.prems have "pack_static budget bs (packed @ [cur]) ?new = (packed', cur')" by simp
    moreover have "packed_ok budget ?new" using Cons.prems(2) by (simp add: packed_ok_def carries_def)
    ultimately show ?thesis using Cons.IH [of "packed @ [cur]" ?new] Cons.prems(2-) by simp
  next
    case False
    with Cons.prems have "pack_static budget bs packed ?ext = (packed', cur')" by auto
    moreover have "used cur + length b \<le> budget" using False Cons.prems(2) by auto
    then have "packed_ok budget ?ext" using Cons.prems(4,5) by (simp add: packed_ok_def carries_def del: length_concat)
    ultimately show ?thesis using Cons.IH [of packed ?ext] Cons.prems by auto
  qed
qed simp

definition add_events :: "packed_fragment \<Rightarrow> encode_result \<Rightarrow> packed_fragment" where
  "add_events cur e = \<lparr> blocks = blocks cur @ [enc_bytes e], eventSeqs = eventSeqs cur @ encodedSeqs e,
     used = used cur + length (enc_bytes e) \<rparr>"

lemma add_events_seqs [simp]: "eventSeqs (add_events cur e) = eventSeqs cur @ encodedSeqs e"
  by (simp add: add_events_def)

lemma packed_ok_add:
  assumes "buildEventObjects pend pm policy (Some (budget - used cur)) = Some e" "packed_ok budget cur" "eventSeqs cur = []"
  shows "packed_ok budget (add_events cur e)"
proof -
  have "carries (concat (blocks (add_events cur e))) (eventSeqs (add_events cur e))"
    using assms unfolding carries_def add_events_def by (auto intro!: exI)
  then show ?thesis using build_prefix_fits [OF assms(1)] assms(2)
    by (auto simp: packed_ok_def add_events_def simp del: length_concat)
qed

lemma pack_events_step:
  assumes "pend \<noteq> []" "buildEventObjects pend pm policy (Some (budget - used cur)) = Some e"
  shows "pack_events pm policy budget pend packed cur =
    (if encodedSeqs e = [] then if used cur = 0 then Some (packed, cur)
                                else pack_events pm policy budget pend (packed @ [cur]) empty_fragment
     else if drop (length (encodedSeqs e)) pend \<noteq> []
     then pack_events pm policy budget (drop (length (encodedSeqs e)) pend) (packed @ [add_events cur e]) empty_fragment
     else Some (packed, add_events cur e))"
  using assms by (subst pack_events.simps) (simp add: Let_def add_events_def)

lemma pack_events_ok:
  assumes "pack_events pm policy budget pend packed cur = Some (packed', cur')"
    and "list_all (packed_ok budget) packed" "packed_ok budget cur" "eventSeqs cur = []"
  shows "list_all (packed_ok budget) packed' \<and> packed_ok budget cur'
    \<and> (\<exists>k. concat (map eventSeqs (packed' @ [cur'])) = concat (map eventSeqs packed) @ take k (map seq pend))
    \<and> prefix (concat (map body (packed @ [cur]))) (concat (map body (packed' @ [cur'])))"
  using assms
proof (induction pm policy budget pend packed cur rule: pack_events.induct)
  case (1 pm policy budget pend packed cur)
  show ?case
  proof (cases "pend = []")
    case True
    with 1(3-) show ?thesis by (auto simp: pack_events.simps)
  next
    case False
    with 1(3) obtain e where e: "buildEventObjects pend pm policy (Some (budget - used cur)) = Some e"
      by (subst (asm) pack_events.simps) (auto split: option.splits)
    note P = build_prefix_fits [OF e, simplified]
    show ?thesis
    proof (cases "encodedSeqs e = []")
      case True
      show ?thesis
      proof (cases "used cur = 0")
        case u: True
        with 1(3) False e True have "packed' = packed" "cur' = cur" by (simp_all add: pack_events_step)
        with 1(4-) show ?thesis by (auto intro!: exI [of _ 0])
      next
        case u: False
        have "pack_events pm policy budget pend (packed @ [cur]) empty_fragment = Some (packed', cur')"
          using 1(3) pack_events_step [OF False e, of packed] True u by simp
        from 1(1) [OF False e True u this] 1(4-) show ?thesis by simp
      qed
    next
      case ne: False
      let ?cur = "add_events cur e"
      let ?pend = "drop (length (encodedSeqs e)) pend"
      note cur = packed_ok_add [OF e 1(5,6)]
      note eq = pack_events_step [OF False e, of packed, simplified ne if_False]
      show ?thesis
      proof (cases "?pend = []")
        case True
        with 1(3) eq have "packed' = packed" "cur' = ?cur" by (simp_all split: if_splits)
        with cur 1(4-) P show ?thesis by (auto simp: add_events_def intro!: exI [of _ "length (encodedSeqs e)"])
      next
        case more: False
        then have rec: "pack_events pm policy budget ?pend (packed @ [?cur]) empty_fragment = Some (packed', cur')"
          using 1(3) eq by simp
        have "list_all (packed_ok budget) (packed @ [?cur])" using cur 1(4) by simp
        from 1(2) [OF False e ne refl refl more, folded add_events_def, OF rec this] obtain k where
          "list_all (packed_ok budget) packed' \<and> packed_ok budget cur'"
          "concat (map eventSeqs (packed' @ [cur'])) = concat (map eventSeqs (packed @ [?cur])) @ take k (map seq ?pend)"
          "prefix (concat (map body (packed @ [?cur, empty_fragment]))) (concat (map body (packed' @ [cur'])))"
          by auto
        moreover from calculation(3) have "prefix (concat (map body (packed @ [cur]))) (concat (map body (packed' @ [cur'])))"
          by (auto simp: add_events_def prefix_def)
        moreover have "encodedSeqs e @ take k (map seq ?pend) = take (length (encodedSeqs e) + k) (map seq pend)"
          using P by (metis take_add drop_map)
        ultimately show ?thesis using 1(6) by (auto simp del: take_map)
      qed
    qed
  qed
qed


text \<open>An event that can be serialised: its index fits the wire, its time is representable and an analog point
  is still mapped.\<close>

definition describable :: "point_map \<Rightarrow> event \<Rightarrow> bool" where
  "describable pm ev \<longleftrightarrow> event_index ev < 65536 \<and> time_ok ev
     \<and> (pointType ev = analogInput \<or> pointType ev = analogOutput \<longrightarrow> getPoint (pointType ev) (event_index ev) pm \<noteq> None)"

lemma describable_build:
  assumes "list_all (describable pm) evs" "evs \<noteq> []"
  shows "\<exists>r. buildEventObjects evs pm policy (Some m) = Some r \<and> (20 \<le> m \<longrightarrow> encodedSeqs r \<noteq> [])"
proof -
  have "list_all (\<lambda>ev. event_index ev < 65536 \<and> time_ok ev) evs"
    using assms(1) by (auto simp: describable_def list_all_iff)
  moreover have "describe_all pm policy evs \<noteq> []"
    using assms by (cases evs) (auto simp: describable_def Let_def)
  moreover have "list_all (\<lambda>d. d_index d < 65536) (describe_all pm policy evs)"
    using calculation(1) by (induction evs) (auto simp: Let_def)
  ultimately show ?thesis using build_progress [of evs pm policy "Some m"] event_runs_total [of _ "Some m" 0]
    by (cases "20 \<le> m") (auto simp: buildEventObjects_def Let_def split: option.splits)
qed

lemma pack_events_all:
  assumes "list_all (describable pm) pend" "20 \<le> budget" "list_all (packed_ok budget) packed" "packed_ok budget cur" "eventSeqs cur = []"
  shows "\<exists>packed' cur'. pack_events pm policy budget pend packed cur = Some (packed', cur')
    \<and> concat (map eventSeqs (packed' @ [cur'])) = concat (map eventSeqs packed) @ map seq pend"
  using assms
proof (induction pm policy budget pend packed cur rule: pack_events.induct)
  case (1 pm policy budget pend packed cur)
  show ?case
  proof (cases "pend = []")
    case True
    with 1(3-) show ?thesis by (auto simp: pack_events.simps)
  next
    case False
    with 1(3) describable_build [of pm pend policy "budget - used cur"] obtain e where
      e: "buildEventObjects pend pm policy (Some (budget - used cur)) = Some e"
      "20 \<le> budget - used cur \<longrightarrow> encodedSeqs e \<noteq> []" by blast
    note P = build_prefix_fits [OF e(1), simplified]
    show ?thesis
    proof (cases "encodedSeqs e = []")
      case True
      then have u: "used cur \<noteq> 0" using e(2) 1(4) by auto
      have "list_all (packed_ok budget) (packed @ [cur])" using 1(5,6) by simp
      from 1(1) [OF False e(1) True u 1(3,4) this] 1(7) show ?thesis
        using pack_events_step [OF False e(1), of packed] True u by simp
    next
      case ne: False
      let ?cur = "add_events cur e"
      let ?pend = "drop (length (encodedSeqs e)) pend"
      have cur: "list_all (packed_ok budget) (packed @ [?cur])" using packed_ok_add [OF e(1) 1(6,7)] 1(5) by simp
      note eq = pack_events_step [OF False e(1), of packed, simplified ne if_False]
      show ?thesis
      proof (cases "?pend = []")
        case True
        then have "encodedSeqs e = map seq pend" using P by (metis drop_eq_Nil length_map take_all)
        then show ?thesis using True 1(7) eq by simp
      next
        case more: False
        have "list_all (describable pm) ?pend" using 1(3) by (auto simp: list_all_iff dest: in_set_dropD)
        from 1(2) [OF False e(1) ne refl refl more this 1(4), folded add_events_def, OF cur] obtain packed' cur' where
          "pack_events pm policy budget ?pend (packed @ [?cur]) empty_fragment = Some (packed', cur')"
          "concat (map eventSeqs (packed' @ [cur'])) = concat (map eventSeqs (packed @ [?cur])) @ map seq ?pend" by auto
        moreover have "encodedSeqs e @ map seq ?pend = map seq pend" using P by (metis append_take_drop_id drop_map)
        ultimately show ?thesis using 1(7) more eq by simp
      qed
    qed
  qed
qed


lemma encoded_bytes_nonempty:
  assumes "buildEventObjects evs pm policy maxB = Some r" "encodedSeqs r \<noteq> []"
  shows "enc_bytes r \<noteq> []"
proof -
  from assms(1) obtain rs where rs: "event_runs maxB 0 (describe_all pm policy evs) = Some rs"
    "enc_bytes r = concat (map event_run_bytes rs)" "encodedSeqs r = concat (map (\<lambda>r. map d_seq (taken_events r)) rs)"
    by (auto simp: buildEventObjects_def Let_def split: option.splits)
  then have "rs \<noteq> []" using assms(2) by auto
  have "\<not> exceeds maxB 0" by (simp add: exceeds_def split: option.splits)
  from event_runs_spec [OF rs(1) this] have "list_all run_wf rs" by auto
  moreover have "0 < length rs" using \<open>rs \<noteq> []\<close> by simp
  ultimately have "0 < length (enc_bytes r)" using length_runs [of rs] unfolding rs(2) by linarith
  then show ?thesis by simp
qed

lemma packed_unused: "packed_ok budget f \<Longrightarrow> used f = 0 \<Longrightarrow> body f = [] \<and> eventSeqs f = []"
  using encoded_bytes_nonempty by (fastforce simp: packed_ok_def carries_def simp del: length_concat concat_eq_Nil_conv)

lemma class0_block_fits:
  "b \<in> set (buildClass0Blocks m (Some budget)) \<Longrightarrow> length b \<le> max budget 12"
proof -
  assume "b \<in> set (buildClass0Blocks m (Some budget))"
  moreover have "list_all (run_ok (Some budget)) (type_runs m (Some budget) (pointsOfType t m) None)" for t
    using type_runs_points [where cur = None and maxB = "Some budget" and m = m and ds = "pointsOfType t m"] by simp
  ultimately show ?thesis by (auto simp: buildClass0Blocks_def class0_runs_def list_all_iff run_ok_def)
qed

definition static_part :: "'p outstation_context \<Rightarrow> parsed_request \<Rightarrow> buffer list" where
  "static_part ctx req = (if wants_static req then buildClass0Blocks (pointMap ctx) (Some (read_budget ctx)) else [])"

definition event_part :: "'p outstation_context \<Rightarrow> parsed_request \<Rightarrow> event list" where
  "event_part ctx req = (if requested_classes req \<noteq> [] then peek (requested_classes req) None (eventBuffer ctx) else [])"

definition close_packing :: "packed_fragment list \<times> packed_fragment \<Rightarrow> packed_fragment list" where
  "close_packing pc = (case pc of (packed, cur) \<Rightarrow> if used cur > 0 \<or> packed = [] then packed @ [cur] else packed)"

definition read_packing :: "'p outstation_context \<Rightarrow> parsed_request \<Rightarrow> packed_fragment list option" where
  "read_packing ctx req =
     (case pack_static (read_budget ctx) (static_part ctx req) [] empty_fragment of
        (packed, cur) \<Rightarrow> map_option close_packing
          (pack_events (pointMap ctx) (eventVariations ctx) (read_budget ctx) (event_part ctx req) packed cur))"

definition number_fragments :: "'p outstation_context \<Rightarrow> parsed_request \<Rightarrow> packed_fragment list \<Rightarrow> fragment list" where
  "number_fragments ctx req packed = map (\<lambda>(i, frag). make_fragment (req_seq req) (currentIin ctx) (length packed - 1) i frag)
     (List.enumerate 0 packed)"

lemma handleRead_packing:
  "handleRead ctx req =
     (case read_packing ctx req of
        None \<Rightarrow> (None, ctx)
      | Some packed \<Rightarrow>
          (Some (number_fragments ctx req packed),
           if concat (map eventSeqs packed) \<noteq> []
           then ctx \<lparr> eventBuffer := markReported (concat (map eventSeqs packed)) (eventBuffer ctx) \<rparr> else ctx))"
proof -
  have seqs: "map frag_eventSeqs (number_fragments ctx req packed) = map eventSeqs packed" for packed
  proof -
    have "map frag_eventSeqs (number_fragments ctx req packed) = map eventSeqs (map snd (List.enumerate 0 packed))"
      unfolding number_fragments_def map_map
      by (rule map_cong [OF refl]) (simp add: make_fragment_def Let_def split: prod.splits)
    then show ?thesis by simp
  qed
  obtain packed cur where st: "pack_static (read_budget ctx) (static_part ctx req) [] empty_fragment = (packed, cur)"
    by fastforce
  show ?thesis
  proof (cases "pack_events (pointMap ctx) (eventVariations ctx) (read_budget ctx) (event_part ctx req) packed cur")
    case None
    with st show ?thesis by (simp add: handleRead_def read_packing_def static_part_def event_part_def Let_def)
  next
    case (Some pc)
    obtain packed' cur' where pc: "pc = (packed', cur')" by fastforce
    have rp: "read_packing ctx req = Some (close_packing pc)" using st Some by (simp add: read_packing_def)
    have "length (concat (map frag_eventSeqs (number_fragments ctx req (close_packing pc)))) > 0
        \<longleftrightarrow> concat (map eventSeqs (close_packing pc)) \<noteq> []" unfolding seqs by simp
    with st Some show ?thesis
      unfolding handleRead_def rp Let_def static_part_def [symmetric] event_part_def [symmetric] st Some pc prod.case
        option.case close_packing_def number_fragments_def [symmetric]
      by (simp only: pc prod.case close_packing_def seqs)
  qed
qed


lemma read_budget_eq: "64 \<le> maxTxFragmentSize ctx \<Longrightarrow> read_budget ctx + 4 = maxTxFragmentSize ctx \<and> 60 \<le> read_budget ctx"
  by (simp add: read_budget_def APP_HEADER_LEN_def)

lemma static_packed:
  assumes "64 \<le> maxTxFragmentSize ctx"
    and "pack_static (read_budget ctx) (static_part ctx req) [] empty_fragment = (packed, cur)"
  shows "list_all (packed_ok (read_budget ctx)) packed \<and> packed_ok (read_budget ctx) cur
    \<and> concat (map eventSeqs packed) = [] \<and> eventSeqs cur = []
    \<and> concat (map body (packed @ [cur])) = concat (static_part ctx req)"
proof -
  have "\<forall>b \<in> set (static_part ctx req). length b \<le> read_budget ctx"
    using class0_block_fits [of _ "pointMap ctx" "read_budget ctx"] read_budget_eq [OF assms(1)]
    by (fastforce simp: static_part_def)
  from pack_static_ok [OF assms(2) this] show ?thesis by auto
qed

lemma close_packing_simps:
  assumes "packed_ok budget cur"
  shows "close_packing (packed, cur) \<noteq> []"
    "concat (map eventSeqs (close_packing (packed, cur))) = concat (map eventSeqs (packed @ [cur]))"
    "concat (map body (close_packing (packed, cur))) = concat (map body (packed @ [cur]))"
    "list_all (packed_ok budget) packed \<Longrightarrow> list_all (packed_ok budget) (close_packing (packed, cur))"
  using packed_unused [OF assms] assms by (auto simp: close_packing_def)

lemma read_packing_ok:
  assumes "64 \<le> maxTxFragmentSize ctx" "read_packing ctx req = Some packed"
  shows "packed \<noteq> [] \<and> list_all (packed_ok (read_budget ctx)) packed
    \<and> prefix (concat (static_part ctx req)) (concat (map body packed))"
proof -
  obtain p0 c0 where st: "pack_static (read_budget ctx) (static_part ctx req) [] empty_fragment = (p0, c0)" by fastforce
  note S = static_packed [OF assms(1) st]
  from assms(2) st obtain p1 c1 where
    ev: "pack_events (pointMap ctx) (eventVariations ctx) (read_budget ctx) (event_part ctx req) p0 c0 = Some (p1, c1)"
    and packed: "packed = close_packing (p1, c1)" by (auto simp: read_packing_def)
  from pack_events_ok [OF ev] S have E: "list_all (packed_ok (read_budget ctx)) p1" "packed_ok (read_budget ctx) c1"
    "prefix (concat (static_part ctx req)) (concat (map body (p1 @ [c1])))" by auto
  with close_packing_simps [OF E(2)] packed show ?thesis by auto
qed

lemma read_packing_all:
  assumes "64 \<le> maxTxFragmentSize ctx" "list_all (describable (pointMap ctx)) (event_part ctx req)"
  shows "\<exists>packed. read_packing ctx req = Some packed \<and> concat (map eventSeqs packed) = map seq (event_part ctx req)"
proof -
  obtain p0 c0 where st: "pack_static (read_budget ctx) (static_part ctx req) [] empty_fragment = (p0, c0)" by fastforce
  note S = static_packed [OF assms(1) st]
  have "20 \<le> read_budget ctx" using read_budget_eq [OF assms(1)] by simp
  from pack_events_all [OF assms(2) this, of p0 c0 "eventVariations ctx"] S obtain p1 c1 where
    ev: "pack_events (pointMap ctx) (eventVariations ctx) (read_budget ctx) (event_part ctx req) p0 c0 = Some (p1, c1)"
    and sq: "concat (map eventSeqs (p1 @ [c1])) = map seq (event_part ctx req)" by auto
  from pack_events_ok [OF ev] S have "packed_ok (read_budget ctx) c1" by auto
  with close_packing_simps [OF this, of p1] st ev sq show ?thesis by (auto simp: read_packing_def)
qed

lemma length_buildResponseHeader [simp]: "length (buildResponseHeader opts) = 4"
  by (simp add: buildResponseHeader_def Let_def)

lemma length_number_fragments [simp]: "length (number_fragments ctx req packed) = length packed"
  by (simp add: number_fragments_def)

lemma nth_number_fragments:
  "i < length packed \<Longrightarrow> number_fragments ctx req packed ! i
     = make_fragment (req_seq req) (currentIin ctx) (length packed - 1) i (packed ! i)"
  by (simp add: number_fragments_def nth_enumerate_eq)

lemma make_fragment_simps [simp]:
  "frag_seq (make_fragment q iin l i f) = (q + i) mod 16"
  "frag_con (make_fragment q iin l i f) \<longleftrightarrow> eventSeqs f \<noteq> [] \<or> i < l"
  "frag_eventSeqs (make_fragment q iin l i f) = eventSeqs f"
  "drop 4 (frag_bytes (make_fragment q iin l i f)) = body f"
  "length (frag_bytes (make_fragment q iin l i f)) = 4 + length (body f)"
  by (simp_all add: make_fragment_def Let_def del: length_concat)

lemma carries_prepend: "carries bs seqs \<Longrightarrow> carries (pre @ bs) seqs"
  unfolding carries_def by (metis append_assoc)

lemma bodies_number_fragments: "map (\<lambda>f. drop 4 (frag_bytes f)) (number_fragments ctx req packed) = map body packed"
  by (rule nth_equalityI) (simp_all add: nth_number_fragments)

lemma seqs_number_fragments: "map frag_eventSeqs (number_fragments ctx req packed) = map eventSeqs packed"
  by (rule nth_equalityI) (simp_all add: nth_number_fragments)

text \<open>C14: A READ reports everything that was asked for. If every requested event can be serialised, packing
  terminates without an exception and yields at least one fragment; the fragments together carry every
  buffered event of the requested classes exactly once in chronological order, after all static blocks; no
  fragment exceeds the configured size; sequence numbers count up modulo 16; a fragment asks for confirmation
  exactly if it is not the last or carries events; and its octets are the serialisation of those events.\<close>

theorem read_reports_everything:
  assumes "64 \<le> maxTxFragmentSize ctx" "list_all (describable (pointMap ctx)) (event_part ctx req)"
  shows "\<exists>frags ctx'. handleRead ctx req = (Some frags, ctx') \<and> frags \<noteq> []
    \<and> concat (map frag_eventSeqs frags) = map seq (event_part ctx req)
    \<and> prefix (concat (static_part ctx req)) (concat (map (\<lambda>f. drop 4 (frag_bytes f)) frags))
    \<and> (\<forall>i < length frags. length (frag_bytes (frags ! i)) \<le> maxTxFragmentSize ctx
         \<and> frag_seq (frags ! i) = (req_seq req + i) mod 16
         \<and> (frag_con (frags ! i) \<longleftrightarrow> i < length frags - 1 \<or> frag_eventSeqs (frags ! i) \<noteq> [])
         \<and> carries (drop 4 (frag_bytes (frags ! i))) (frag_eventSeqs (frags ! i)))"
proof -
  obtain packed where p: "read_packing ctx req = Some packed" "concat (map eventSeqs packed) = map seq (event_part ctx req)"
    using read_packing_all [OF assms] by blast
  note ok = read_packing_ok [OF assms(1) p(1)]
  let ?fs = "number_fragments ctx req packed"
  have "length (frag_bytes (?fs ! i)) \<le> maxTxFragmentSize ctx \<and> frag_seq (?fs ! i) = (req_seq req + i) mod 16
         \<and> (frag_con (?fs ! i) \<longleftrightarrow> i < length ?fs - 1 \<or> frag_eventSeqs (?fs ! i) \<noteq> [])
         \<and> carries (drop 4 (frag_bytes (?fs ! i))) (frag_eventSeqs (?fs ! i))" if "i < length ?fs" for i
  proof -
    have "packed_ok (read_budget ctx) (packed ! i)" using that ok by (simp add: list_all_length)
    then have "4 + length (body (packed ! i)) \<le> maxTxFragmentSize ctx" "carries (body (packed ! i)) (eventSeqs (packed ! i))"
      using read_budget_eq [OF assms(1)] by (simp_all add: packed_ok_def del: length_concat)
    with that show ?thesis by (auto simp: nth_number_fragments simp del: length_concat)
  qed
  moreover have "?fs \<noteq> []" using ok by (metis length_number_fragments length_0_conv)
  ultimately show ?thesis
    using ok p bodies_number_fragments [of ctx req packed] seqs_number_fragments [of ctx req packed]
    by (simp add: handleRead_packing)
qed


section \<open>Confirmation\<close>

text \<open>Every fragment that a session holds carries the events it is charged with.\<close>

definition session_ok :: "session \<Rightarrow> bool" where
  "session_ok s \<longleftrightarrow> (\<forall>f \<in> set (pendingFragments s) \<union> set_option (awaitingConfirm s). carries (frag_bytes f) (frag_eventSeqs f))"

lemma read_fragments_carry:
  assumes "64 \<le> maxTxFragmentSize ctx" "handleRead ctx req = (Some frags, ctx')"
  shows "\<forall>f \<in> set frags. carries (frag_bytes f) (frag_eventSeqs f)"
proof -
  from assms(2) obtain packed where p: "read_packing ctx req = Some packed" and frags: "frags = number_fragments ctx req packed"
    by (auto simp: handleRead_packing split: option.splits)
  have "carries (frag_bytes (frags ! i)) (frag_eventSeqs (frags ! i))" if "i < length frags" for i
  proof -
    have "packed_ok (read_budget ctx) (packed ! i)"
      using that frags read_packing_ok [OF assms(1) p] by (simp add: list_all_length)
    then have "carries (drop 4 (frag_bytes (frags ! i))) (frag_eventSeqs (frags ! i))"
      using that by (simp add: frags nth_number_fragments packed_ok_def)
    from carries_prepend [OF this, of "take 4 (frag_bytes (frags ! i))"] show ?thesis by simp
  qed
  then show ?thesis by (auto simp: in_set_conv_nth)
qed

lemma handleConfirm_session:
  "handleConfirm ctx req s = (r, ctx', s') \<Longrightarrow> session_ok s \<Longrightarrow> session_ok s'
     \<and> (\<forall>f. awaitingConfirm s' = Some f \<longrightarrow> awaitingConfirm s' = awaitingConfirm s \<or> response r = frag_bytes f)"
  by (auto simp: handleConfirm_def session_ok_def Let_def split: option.splits if_splits list.splits)

lemma dispatch_function_session:
  assumes "dispatch_function ctx req now s p = (r, ctx', s', p')" "session_ok s" "64 \<le> maxTxFragmentSize ctx"
    and "awaitingConfirm s = None"
  shows "session_ok s' \<and> (\<forall>f. awaitingConfirm s' = Some f \<longrightarrow> response_of r = frag_bytes f)"
proof (cases "func req = DNP3_FUNCTION READ")
  case True
  show ?thesis
  proof (cases "fst (handleRead ctx req)")
    case None
    with True assms show ?thesis by (auto simp: dispatch_function_def split: prod.splits option.splits)
  next
    case (Some frags)
    then obtain c where h: "handleRead ctx req = (Some frags, c)" by (metis prod.collapse)
    with True assms(1) show ?thesis using assms(2,4) read_fragments_carry [OF assms(3) h]
      by (auto simp: dispatch_function_def dispatchFragments_def session_ok_def response_of_def NO_RESPONSE_def
          split: list.splits if_splits)
  qed
next
  case False
  with assms(1) have "s' = s" by (auto simp: dispatch_function_def Let_def split: if_splits prod.splits)
  with assms show ?thesis by simp
qed


definition restart_functions :: "nat set" where
  "restart_functions = {DNP3_FUNCTION COLD_RESTART, DNP3_FUNCTION WARM_RESTART}"

lemma restart_critical: "f \<in> restart_functions \<Longrightarrow> isCriticalFunction f"
  by (auto simp: restart_functions_def isCriticalFunction_def SAV5_CRITICAL_FUNCTIONS_def)

lemma handle_events:
  assumes "handleApplicationRequest random ctx req user now False s p = (r, ctx', s', p')"
  shows "set (events (queues (eventBuffer ctx') c)) \<subseteq> set (events (queues (eventBuffer ctx) c))
    \<and> (\<forall>e. e \<in> set (events (queues (eventBuffer ctx) c)) \<and> e \<notin> set (events (queues (eventBuffer ctx') c)) \<longrightarrow>
         func req \<in> restart_functions \<and> \<not> hasUser user (secureAuth ctx) \<or> seq e \<in> confirmed_by req s)"
  using assms
proof (cases rule: handle_cases)
  case (confirmed sa r')
  from handleConfirm_events [OF confirmed(1,4), of c] show ?thesis by auto
next
  case (dispatched sa)
  show ?thesis
  proof (cases "func req \<in> restart_functions")
    case True
    with dispatched(2) have "\<not> hasUser user (secureAuth ctx)" using restart_critical by blast
    moreover have "eventBuffer ctx' = clear_events (eventBuffer ctx)"
      using True dispatched(1) by (auto simp: dispatch_function_def restart_functions_def Let_def)
    ultimately show ?thesis using True by (simp add: clear_events_def makeQueue_def)
  next
    case False
    with dispatch_function_events [OF dispatched(1)] show ?thesis by (simp add: restart_functions_def)
  qed
qed simp

lemma handle_session:
  assumes "handleApplicationRequest random ctx req user now skip s p = (r, ctx', s', p')" "session_ok s" "64 \<le> maxTxFragmentSize ctx"
  shows "session_ok s' \<and> (\<forall>f. awaitingConfirm s' = Some f \<longrightarrow> awaitingConfirm s' = awaitingConfirm s \<or> response_of r = frag_bytes f)"
proof (cases skip)
  case True
  with assms(1) have "handleApplicationRequest random ctx req user now True s p = (r, ctx', s', p')" by simp
  then show ?thesis
  proof (cases rule: handle_skip_cases)
    case (confirmed r')
    with handleConfirm_session [OF confirmed(1) assms(2)] show ?thesis by (simp add: response_of_def)
  next
    case dispatched
    from dispatch_function_session [OF this] assms(3) show ?thesis by (simp add: session_ok_def)
  qed (simp_all add: assms(2))
next
  case False
  with assms(1) have "handleApplicationRequest random ctx req user now False s p = (r, ctx', s', p')" by simp
  then show ?thesis
  proof (cases rule: handle_cases)
    case (confirmed sa r')
    with handleConfirm_session [OF confirmed(1) assms(2)] show ?thesis by (simp add: response_of_def)
  next
    case (dispatched sa)
    from dispatch_function_session [OF dispatched(1)] assms(3) show ?thesis by (simp add: session_ok_def)
  qed (simp_all add: assms(2))
qed

text \<open>The event buffer changes only by its own operations.\<close>

definition buffer_step :: "'p outstation_context \<Rightarrow> 'p outstation_context \<Rightarrow> bool" where
  "buffer_step c d \<longleftrightarrow> eventBuffer d = eventBuffer c \<or> (\<exists>op. eventBuffer d = event_step op (eventBuffer c))"

lemma handleConfirm_buffer: "handleConfirm ctx req s = (r, ctx', s') \<Longrightarrow> buffer_step ctx ctx'"
  by (auto simp: handleConfirm_def buffer_step_def Let_def split: option.splits list.splits if_splits
      intro: exI [of _ "Confirm (frag_eventSeqs (the (awaitingConfirm s)))"])

lemma dispatch_function_buffer:
  assumes "dispatch_function ctx req now s p = (r, ctx', s', p')"
  shows "buffer_step ctx ctx'"
proof -
  consider (reads) fs where "handleRead ctx req = (fs, ctx')" | (writes) r' where "handleWrite ctx req = (r', ctx')"
    | (control) r' where "handleControlRequest ctx req now p = (r', ctx', p')"
    | (flags) "eventBuffer ctx' = eventBuffer ctx" | (restart) "eventBuffer ctx' = clear_events (eventBuffer ctx)"
    using assms by (auto simp: dispatch_function_def Let_def split: if_splits prod.splits option.splits)
  then show ?thesis
  proof cases
    case reads
    from handleRead_frame [OF this] show ?thesis
    proof
      assume "\<exists>seqs. ctx' = ctx \<lparr> eventBuffer := markReported seqs (eventBuffer ctx) \<rparr>"
      then obtain seqs where "eventBuffer ctx' = event_step (MarkReported seqs) (eventBuffer ctx)" by auto
      then show ?thesis unfolding buffer_step_def by blast
    qed (simp add: buffer_step_def)
  next
    case writes
    from handleWrite_frame [OF this] show ?thesis by (auto simp: buffer_step_def)
  next
    case control
    then show ?thesis by (rule handleControlRequest_frame) (simp add: buffer_step_def)
  next
    case restart
    then show ?thesis unfolding buffer_step_def using event_step.simps(4) by metis
  qed (simp add: buffer_step_def)
qed

lemma handle_buffer:
  assumes "handleApplicationRequest random ctx req user now skip s p = (r, ctx', s', p')"
  shows "buffer_step ctx ctx' \<and> maxTxFragmentSize ctx' = maxTxFragmentSize ctx"
proof (cases skip)
  case True
  with assms have "handleApplicationRequest random ctx req user now True s p = (r, ctx', s', p')" by simp
  then show ?thesis
  proof (cases rule: handle_skip_cases)
    case (confirmed r')
    with handleConfirm_buffer [OF confirmed(1)] handleConfirm_frame [OF confirmed(1)] show ?thesis by auto
  next
    case dispatched
    with dispatch_function_buffer [OF this] dispatch_function_frame [OF this] show ?thesis by (simp add: same_config_def)
  qed (simp_all add: buffer_step_def)
next
  case False
  with assms have "handleApplicationRequest random ctx req user now False s p = (r, ctx', s', p')" by simp
  then show ?thesis
  proof (cases rule: handle_cases)
    case (confirmed sa r')
    with handleConfirm_buffer [OF confirmed(1)] handleConfirm_frame [OF confirmed(1)] show ?thesis
      by (auto simp: buffer_step_def)
  next
    case (dispatched sa)
    with dispatch_function_buffer [OF dispatched(1)] dispatch_function_frame [OF dispatched(1)] show ?thesis
      by (simp add: same_config_def buffer_step_def)
  qed (simp_all add: buffer_step_def)
qed

text \<open>C13: No event is lost on the way to the master. A request removes an event from the buffer only if it is a
  CONFIRM with the sequence number of the fragment in flight, whose octets carry that event, or a restart
  that needs no authentication; it never adds one. A newly awaited fragment is the one that is sent. (The
  fragments of the session carry their events: an invariant that every request keeps.)\<close>

theorem events_leave_by_confirmation:
  assumes "dispatch random user ctx req now s p = (out, ctx', s', p')" "session_ok s" "64 \<le> maxTxFragmentSize ctx"
  shows "session_ok s'
    \<and> (\<forall>f. awaitingConfirm s' = Some f \<longrightarrow> awaitingConfirm s' = awaitingConfirm s \<or> out = frag_bytes f)
    \<and> (\<forall>c. set (events (queues (eventBuffer ctx') c)) \<subseteq> set (events (queues (eventBuffer ctx) c)))
    \<and> (\<forall>c e. e \<in> set (events (queues (eventBuffer ctx) c)) \<and> e \<notin> set (events (queues (eventBuffer ctx') c)) \<longrightarrow>
         func req \<in> restart_functions \<and> \<not> hasUser user (secureAuth ctx)
         \<or> (func req = DNP3_FUNCTION CONFIRM
            \<and> (\<exists>f. awaitingConfirm s = Some f \<and> frag_seq f = req_seq req \<and> seq e \<in> set (frag_eventSeqs f)
                 \<and> carries (frag_bytes f) (frag_eventSeqs f))))"
proof -
  obtain r where r: "handleApplicationRequest random ctx req user now False s p = (r, ctx', s', p')" "out = response_of r"
    using assms(1) by (auto simp: dispatch_def split: prod.splits)
  have "session_ok s' \<and> (\<forall>f. awaitingConfirm s' = Some f \<longrightarrow> awaitingConfirm s' = awaitingConfirm s \<or> out = frag_bytes f)"
    using handle_session [OF r(1) assms(2,3)] r(2) by simp
  moreover have "x \<in> confirmed_by req s \<Longrightarrow> func req = DNP3_FUNCTION CONFIRM
      \<and> (\<exists>f. awaitingConfirm s = Some f \<and> frag_seq f = req_seq req \<and> x \<in> set (frag_eventSeqs f)
           \<and> carries (frag_bytes f) (frag_eventSeqs f))" for x
    using assms(2) by (auto simp: confirmed_by_def session_ok_def split: option.splits if_splits)
  ultimately show ?thesis using handle_events [OF r(1)] by blast
qed

definition class1_event :: event where
  "class1_event = \<lparr> seq = 0, pointType = binaryInput, event_index = 7, event_class = Class1, event_value = Bool True,
     event_flags = 0x81, event_timestamp = 1000 \<rparr>"

definition event_context :: "control_command list outstation_context" where
  "event_context = example_context
     \<lparr> eventBuffer := snd (enqueue class1_event (new_event_buffer DEFAULT_EVENT_BUFFER_CONFIG)) \<rparr>"

text \<open>A read of class 1.\<close>

definition class1_read :: parsed_request where
  "class1_read = \<lparr> appControl = 0xC3, fir = True, fin = True, con = False, uns = False, req_seq = 3, func = 1,
     objects = [new_header 60 2 0x06], objectsComplete = True, rawObjects = [60, 2, 6], raw = [0xC3, 1, 60, 2, 6] \<rparr>"

lemma event_part_example: "event_part event_context class1_read = [class1_event \<lparr> seq := 1 \<rparr>]"
  by (simp add: event_part_def requested_classes_def class1_read_def classReadTargets_def class_target_def new_header_def event_context_def
      peek_def enqueue_def class1_event_def new_event_buffer_def makeQueue_def DEFAULT_EVENT_BUFFER_CONFIG_def Let_def)

theorem read_reports_everything_witness:
  "\<exists>frags ctx'. handleRead event_context class1_read = (Some frags, ctx') \<and> concat (map frag_eventSeqs frags) = [1]"
proof -
  have "64 \<le> maxTxFragmentSize event_context" by (simp add: event_context_def example_context_def)
  moreover have "list_all (describable (pointMap event_context)) (event_part event_context class1_read)"
    by (simp add: event_part_example describable_def class1_event_def time_ok_def DNP3_TIME_MAX_def)
  ultimately show ?thesis using read_reports_everything [of event_context class1_read] by (auto simp: event_part_example)
qed

definition confirm_session :: "buffer \<Rightarrow> session" where
  "confirm_session bs = \<lparr> sav5AssociationId = 9, pendingFragments = [],
     awaitingConfirm = Some \<lparr> frag_bytes = bs, frag_seq = 3, frag_con = True, frag_eventSeqs = [1] \<rparr> \<rparr>"

definition confirm_request :: parsed_request where
  "confirm_request = class1_read \<lparr> func := 0 \<rparr>"

theorem events_leave_by_confirmation_witness:
  "\<exists>bs ctx' s'. dispatch [] 1 event_context confirm_request 0 (confirm_session bs) [] = ([], ctx', s', [])
     \<and> session_ok (confirm_session bs) \<and> session_ok s' \<and> events (queues (eventBuffer ctx') Class1) = []"
proof -
  let ?e = "class1_event \<lparr> seq := 1 \<rparr>"
  have "list_all (describable example_map) [?e]"
    by (simp add: describable_def class1_event_def time_ok_def DNP3_TIME_MAX_def)
  from describable_build [OF this, of relative_policy 20] obtain r where
    r: "buildEventObjects [?e] example_map relative_policy (Some 20) = Some r" "encodedSeqs r \<noteq> []" by auto
  then have "encodedSeqs r = [1]" using build_prefix_fits [OF r(1)] by (cases "length (encodedSeqs r)") auto
  then have "carries (enc_bytes r) [1]" using r(1) unfolding carries_def by (metis append_Nil)
  then have ok: "session_ok (confirm_session (enc_bytes r))" by (simp add: session_ok_def confirm_session_def)
  have size: "64 \<le> maxTxFragmentSize event_context" by (simp add: event_context_def example_context_def)
  have "\<exists>ctx' s'. dispatch [] 1 event_context confirm_request 0 (confirm_session (enc_bytes r)) [] = ([], ctx', s', [])
      \<and> events (queues (eventBuffer ctx') Class1) = []"
    by (simp add: dispatch_def handleApplicationRequest_def isWaiting_def confirm_request_def class1_read_def event_context_def
        example_context_def example_sav5_def confirm_session_def isCriticalFunction_def SAV5_CRITICAL_FUNCTIONS_def
        handleConfirm_def response_of_def NO_RESPONSE_def Let_def)
      (simp add: enqueue_def class1_event_def new_event_buffer_def makeQueue_def DEFAULT_EVENT_BUFFER_CONFIG_def Let_def)
  with events_leave_by_confirmation [OF _ ok size] ok show ?thesis by blast
qed

end
