(* ===== verification/Dnp3_Link.thy ===== *)
theory Dnp3_Link
  imports Prelude
begin

text \<open>
  The DNP3 data link layer, \<open>server/protocols/dnp3-outstation/link-layer.ts\<close>: the table-driven
  CRC-DNP, the link header, and the frame of 16-octet blocks each followed by its CRC.

  The lemmas show that the table-driven CRC is the bit-serial CRC of polynomial \<open>0xA6BC\<close>, that
  checking a block is checking one residue of the whole block, that a frame is recovered exactly
  from its octets, and that damage within two neighbouring octets of a block is always noticed.
\<close>

section \<open>CRC-DNP\<close>

text \<open>One turn of the inner loop that fills \<open>CRC_TABLE\<close>.\<close>

definition crc_bit :: "u16 \<Rightarrow> u16" where
  "crc_bit crc = (if crc AND 1 \<noteq> 0 then drop_bit 1 crc XOR 0xA6BC else drop_bit 1 crc)"

definition CRC_TABLE :: "u16 list" where
  "CRC_TABLE = map (\<lambda>i. (crc_bit ^^ 8) (of_nat i)) [0..<256]"

fun crc_loop :: "u16 \<Rightarrow> buffer \<Rightarrow> u16" where
  "crc_loop crc [] = crc"
| "crc_loop crc (b # data) =
     (let idx = (crc XOR ucast b) AND 0xFF
      in crc_loop (drop_bit 8 crc XOR CRC_TABLE ! unat idx) data)"

definition dnp3Crc :: "buffer \<Rightarrow> u16" where
  "dnp3Crc data = NOT (crc_loop 0 data)"

definition appendCrc :: "buffer \<Rightarrow> buffer" where
  "appendCrc block = block @ writeUInt16LE (unat (dnp3Crc block))"

definition verifyBlockCrc :: "buffer \<Rightarrow> bool" where
  "verifyBlockCrc blockWithCrc =
     (if length blockWithCrc < 2 then False
      else let body = subarray blockWithCrc 0 (length blockWithCrc - 2);
               got = readUInt16LE blockWithCrc (length blockWithCrc - 2)
           in unat (dnp3Crc body) = got)"

section \<open>Link frames\<close>

definition DNP3_BLOCK_SIZE :: nat where "DNP3_BLOCK_SIZE = 16"

record link_header =
  lh_length :: nat
  lh_control :: byte
  lh_dir :: bool
  lh_prm :: bool
  lh_fcb :: bool
  lh_fcv :: bool
  lh_func :: byte
  lh_destination :: nat
  lh_source :: nat

definition parseLinkHeader :: "buffer \<Rightarrow> link_header option" where
  "parseLinkHeader buf =
     (if length buf < 10 then None
      else if buf ! 0 \<noteq> 0x05 \<or> buf ! 1 \<noteq> 0x64 then None
      else let header = subarray buf 0 8; headerCrc = readUInt16LE buf 8
           in if unat (dnp3Crc header) \<noteq> headerCrc then None
              else let control = buf ! 3
                   in Some \<lparr> lh_length = unat (buf ! 2), lh_control = control,
                        lh_dir = (control AND 0x80 \<noteq> 0), lh_prm = (control AND 0x40 \<noteq> 0),
                        lh_fcb = (control AND 0x20 \<noteq> 0), lh_fcv = (control AND 0x10 \<noteq> 0),
                        lh_func = control AND 0x0F,
                        lh_destination = readUInt16LE buf 4, lh_source = readUInt16LE buf 6 \<rparr>)"

datatype link_error = LinkFrameTooLong nat

text \<open>The loop \<open>for (off = 0; off < payload.length; off += DNP3_BLOCK_SIZE)\<close>.\<close>

function payload_blocks :: "buffer \<Rightarrow> nat \<Rightarrow> buffer list" where
  "payload_blocks payload off =
     (if off < length payload
      then appendCrc (subarray payload off (min (off + DNP3_BLOCK_SIZE) (length payload)))
             # payload_blocks payload (off + DNP3_BLOCK_SIZE)
      else [])"
  by pat_completeness auto
termination
  by (relation "measure (\<lambda>(payload, off). length payload - off)") (auto simp: DNP3_BLOCK_SIZE_def)

declare payload_blocks.simps [simp del]

definition buildLinkFrame :: "nat \<Rightarrow> nat \<Rightarrow> nat \<Rightarrow> buffer \<Rightarrow> link_error + buffer" where
  "buildLinkFrame control destination source payload =
     (let len = 5 + length payload
      in if len > 255 then Inl (LinkFrameTooLong len)
         else let header = [0x05, 0x64, of_nat len, of_nat control]
                    @ writeUInt16LE (destination mod 65536) @ writeUInt16LE (source mod 65536)
              in Inr (appendCrc header @ concat (payload_blocks payload 0)))"

text \<open>The \<open>while (remaining > 0)\<close> loop of \<open>extractPayload\<close>; it returns the collected chunks.\<close>

function extract_blocks :: "buffer \<Rightarrow> nat \<Rightarrow> nat \<Rightarrow> buffer list option" where
  "extract_blocks frame off remaining =
     (if remaining = 0 then Some []
      else let tk = min DNP3_BLOCK_SIZE remaining;
               blockWithCrc = subarray frame off (off + tk + 2)
           in if length blockWithCrc < tk + 2 then None
              else if \<not> verifyBlockCrc blockWithCrc then None
              else case extract_blocks frame (off + tk + 2) (remaining - tk) of
                     None \<Rightarrow> None
                   | Some cs \<Rightarrow> Some (subarray blockWithCrc 0 tk # cs))"
  by pat_completeness auto
termination
  by (relation "measure (\<lambda>(frame, off, remaining). remaining)") (auto simp: DNP3_BLOCK_SIZE_def)

declare extract_blocks.simps [simp del]

definition extractPayload :: "buffer \<Rightarrow> (link_header \<times> buffer) option" where
  "extractPayload frame =
     (case parseLinkHeader frame of
        None \<Rightarrow> None
      | Some header \<Rightarrow>
          (if lh_length header < 5 then None
           else case extract_blocks frame 10 (lh_length header - 5) of
                  None \<Rightarrow> None
                | Some cs \<Rightarrow> Some (header, concat cs)))"

definition buildResponseControl :: "byte \<Rightarrow> bool \<Rightarrow> bool \<Rightarrow> byte" where
  "buildResponseControl func fcb fcv =
     (let control = (func AND 0x0F) OR 0x40;
          control = (if fcb then control OR 0x20 else control);
          control = (if fcv then control OR 0x10 else control)
      in control AND 0xFF)"


section \<open>The CRC register is linear and reversible\<close>

lemma crc_bit_alt: "crc_bit c = drop_bit 1 c XOR (if odd c then 0xA6BC else 0)"
  by (simp add: crc_bit_def and_one_eq odd_iff_mod_2_eq_one)

lemma crc_bit_xor: "crc_bit (a XOR b) = crc_bit a XOR crc_bit b"
  by (auto simp: crc_bit_alt even_xor_iff drop_bit_xor ac_simps)

lemma crc_bit_0 [simp]: "crc_bit 0 = 0"
  by (simp add: crc_bit_def)

lemma crc_bits_xor: "(crc_bit ^^ n) (a XOR b) = (crc_bit ^^ n) a XOR (crc_bit ^^ n) b"
  by (induction n) (auto simp: crc_bit_xor)

lemma crc_bit_eq_0: "crc_bit x = 0 \<Longrightarrow> x = 0"
proof (cases "odd x")
  case True
  assume "crc_bit x = 0"
  with True have "bit (drop_bit 1 x XOR 0xA6BC) 15 = bit (0 :: u16) 15"
    by (simp add: crc_bit_alt)
  moreover have "\<not> bit x 16" using bit_imp_le_length [of x 16] by auto
  ultimately show ?thesis by (simp add: bit_simps)
next
  case False
  assume "crc_bit x = 0"
  with False have "drop_bit 1 x = 0" by (simp add: crc_bit_alt)
  then have "x = take_bit 1 x" by (metis bits_ident add.left_neutral push_bit_of_0)
  with False show ?thesis by (simp add: take_bit_Suc mod2_eq_if)
qed

lemma inj_crc_bits: "inj (crc_bit ^^ n)"
proof (rule inj_fn, rule injI)
  fix a b assume "crc_bit a = crc_bit b"
  then have "crc_bit (a XOR b) = 0" by (simp add: crc_bit_xor)
  then have "a XOR b = 0" by (rule crc_bit_eq_0)
  then have "(a XOR b) XOR b = b" by (simp only: xor.left_neutral)
  then show "a = b" by (simp only: xor.assoc xor_self_eq xor.right_neutral)
qed

lemma crc_bits_drop:
  assumes "\<And>i. i < n \<Longrightarrow> \<not> bit c i"
  shows "(crc_bit ^^ n) c = drop_bit n c"
  using assms
proof (induction n)
  case (Suc n)
  then have "even (drop_bit n c)" by (simp add: bit_iff_odd_drop_bit)
  with Suc show ?case by (simp add: crc_bit_alt add.commute)
qed simp

lemma CRC_TABLE_nth [simp]: "i < 256 \<Longrightarrow> CRC_TABLE ! i = (crc_bit ^^ 8) (of_nat i)"
  by (simp add: CRC_TABLE_def)

text \<open>One table lookup replaces eight turns of the bit-serial register.\<close>

lemma crc_octet: "drop_bit 8 c XOR CRC_TABLE ! unat (c AND 0xFF) = (crc_bit ^^ 8) c" for c :: u16
proof -
  have m: "(0xFF :: u16) = mask 8" by (simp add: mask_eq_exp_minus_1)
  have lt: "unat (c AND 0xFF) < 256"
    using take_bit_nat_less_exp [of 8 "unat c"]
    by (simp add: m unsigned_take_bit_eq flip: take_bit_eq_mask)
  have "c = (c AND NOT (mask 8)) XOR (c AND mask 8)"
    by (rule bit_word_eqI) (auto simp: bit_simps)
  then have "(crc_bit ^^ 8) c = (crc_bit ^^ 8) (c AND NOT (mask 8)) XOR (crc_bit ^^ 8) (c AND mask 8)"
    by (metis crc_bits_xor)
  also have "(crc_bit ^^ 8) (c AND NOT (mask 8)) = drop_bit 8 (c AND NOT (mask 8))"
    by (rule crc_bits_drop) (simp add: bit_simps)
  also have "\<dots> = drop_bit 8 c"
    by (rule bit_word_eqI) (auto simp: bit_simps dest: bit_imp_le_length)
  finally show ?thesis using lt by (simp add: m)
qed

lemma crc_loop_octet:
  "crc_loop c (b # data) = crc_loop ((crc_bit ^^ 8) (c XOR ucast b)) data"
proof -
  have "drop_bit 8 (ucast b :: u16) = 0"
    by (rule bit_word_eqI) (auto simp: bit_simps dest: bit_imp_le_length)
  then have "drop_bit 8 c = drop_bit 8 (c XOR ucast b)"
    by (simp add: drop_bit_xor)
  then show ?thesis
    by (simp only: crc_loop.simps Let_def crc_octet)
qed

declare crc_loop.simps(2) [simp del]


text \<open>
  The reference: a shift register that takes the message one bit at a time, least significant
  bit of each octet first.
\<close>

primrec crc_serial :: "u16 \<Rightarrow> bool list \<Rightarrow> u16" where
  "crc_serial c [] = c"
| "crc_serial c (x # xs) = crc_serial (crc_bit (c XOR of_bool x)) xs"

definition octet_bits :: "byte \<Rightarrow> bool list" where
  "octet_bits b = map (bit b) [0..<8]"

lemma crc_bit_double: "\<not> bit x 15 \<Longrightarrow> crc_bit (2 * x) = x"
proof -
  assume nb: "\<not> bit x 15"
  have "\<not> bit x n" if "16 \<le> Suc n" for n
    using that nb bit_imp_le_length [of x n] by (cases "n = 15") auto
  then have "drop_bit 1 (2 * x) = x"
    by (intro bit_word_eqI) (auto simp: bit_simps bit_double_iff intro: leI)
  then show ?thesis by (simp add: crc_bit_alt)
qed

lemma crc_serial_horner:
  "length xs \<le> 16 \<Longrightarrow>
     crc_serial c xs = (crc_bit ^^ length xs) (c XOR horner_sum of_bool 2 xs)"
proof (induction xs arbitrary: c)
  case (Cons x xs)
  let ?h = "horner_sum of_bool 2 xs :: u16"
  have nb: "\<not> bit ?h 15" using Cons.prems by (simp add: bit_horner_sum_bit_word_iff)
  have "horner_sum of_bool 2 (x # xs) = of_bool x XOR 2 * ?h"
    by (cases x) (simp_all add: one_xor_eq)
  then have "crc_bit (c XOR horner_sum of_bool 2 (x # xs)) = crc_bit (c XOR of_bool x) XOR ?h"
    using nb by (simp add: crc_bit_xor crc_bit_double flip: xor.assoc)
  moreover have "crc_serial c (x # xs) = (crc_bit ^^ length xs) (crc_bit (c XOR of_bool x) XOR ?h)"
    using Cons by simp
  ultimately show ?case by (simp only: list.size funpow_Suc_right comp_apply add_Suc_right add_0_right)
qed simp


lemma crc_loop_serial: "crc_loop c data = crc_serial c (concat (map octet_bits data))"
proof (induction data arbitrary: c)
  case (Cons b data)
  have app: "crc_serial c (xs @ ys) = crc_serial (crc_serial c xs) ys" for c xs ys
    by (induction xs arbitrary: c) auto
  have "octet_bits b = map (bit (ucast b :: u16)) [0..<8]"
    by (simp add: octet_bits_def bit_simps)
  then have "horner_sum of_bool 2 (octet_bits b) = take_bit 8 (ucast b :: u16)"
    by (simp only: horner_sum_bit_eq_take_bit)
  also have "\<dots> = ucast b"
    by (rule bit_word_eqI) (auto simp: bit_simps dest: bit_imp_le_length)
  finally have "horner_sum of_bool 2 (octet_bits b) = (ucast b :: u16)" .
  then have "crc_serial c (octet_bits b) = (crc_bit ^^ 8) (c XOR ucast b)"
    by (subst crc_serial_horner) (simp_all add: octet_bits_def)
  with Cons show ?case by (simp add: app crc_loop_octet)
qed simp

lemma crc_loop_append: "crc_loop c (xs @ ys) = crc_loop (crc_loop c xs) ys"
  by (induction xs arbitrary: c) (auto simp: crc_loop_octet)

lemma crc_loop_inj: "crc_loop c data = crc_loop d data \<Longrightarrow> c = d"
proof (induction data arbitrary: c d)
  case (Cons b data)
  then have "(crc_bit ^^ 8) (c XOR ucast b) = (crc_bit ^^ 8) (d XOR ucast b)"
    by (simp add: crc_loop_octet)
  then have "c XOR ucast b = d XOR ucast b"
    by (rule injD [OF inj_crc_bits])
  then have "(c XOR ucast b) XOR ucast b = (d XOR ucast b) XOR ucast b"
    by (rule arg_cong)
  then show ?case by (simp only: xor.assoc xor_self_eq xor.right_neutral)
qed simp

lemma word16_of_octets:
  "(of_nat (le_val [x, y]) :: u16) = ucast x XOR push_bit 8 (ucast y)"
proof -
  have "(of_nat (le_val [x, y]) :: u16) = ucast x + push_bit 8 (ucast y)"
    by (simp add: push_bit_eq_mult unsigned_of_nat)
  also have "\<dots> = ucast x XOR push_bit 8 (ucast y)"
    by (rule disjunctive_add_eq_xor, rule bit_word_eqI)
      (auto simp: bit_simps dest: bit_imp_le_length)
  finally show ?thesis .
qed

lemma crc_loop_two: "crc_loop c [x, y] = (crc_bit ^^ 16) (c XOR of_nat (le_val [x, y]))"
proof -
  have "(crc_bit ^^ 8) (push_bit 8 (ucast y)) = (ucast y :: u16)"
    by (subst crc_bits_drop, simp add: bit_simps, rule bit_word_eqI)
      (auto simp: bit_simps dest: bit_imp_le_length)
  then have "crc_loop c [x, y] = (crc_bit ^^ 8) ((crc_bit ^^ 8) (c XOR ucast x XOR push_bit 8 (ucast y)))"
    by (simp add: crc_loop_octet crc_bits_xor xor.assoc)
  also have "\<dots> = (crc_bit ^^ (8 + 8)) (c XOR ucast x XOR push_bit 8 (ucast y))"
    by (simp only: funpow_add comp_apply)
  finally show ?thesis
    by (simp only: word16_of_octets xor.assoc) simp
qed


text \<open>A block checks exactly when the register over the whole block ends in one fixed residue.\<close>

definition crc_residue :: u16 where
  "crc_residue = (crc_bit ^^ 16) (NOT 0)"

lemma xor_eq_minus_one_iff: "a XOR b = NOT 0 \<longleftrightarrow> b = NOT a" for a b :: u16
  by (auto simp: bit_eq_iff bit_simps)

lemma verifyBlockCrc_residue:
  "verifyBlockCrc w \<longleftrightarrow> 2 \<le> length w \<and> crc_loop 0 w = crc_residue"
proof (cases "2 \<le> length w")
  case True
  define body where "body = take (length w - 2) w"
  have "length (drop (length w - 2) w) = 2" using True by simp
  then obtain x y where xy: "drop (length w - 2) w = [x, y]"
    by (auto simp only: numeral_2_eq_2 length_Suc_conv length_0_conv)
  have w: "w = body @ [x, y]" by (simp add: body_def xy [symmetric])
  let ?r = "crc_loop 0 body" and ?v = "le_val [x, y]"
  have v: "?v < 65536" using le_val_lt [of "[x, y]"] by (simp add: power2_eq_square)
  have "crc_loop 0 w = crc_residue \<longleftrightarrow> ?r XOR of_nat ?v = NOT 0"
    using inj_eq [OF inj_crc_bits [of 16]]
    by (simp only: w crc_loop_append crc_loop_two crc_residue_def)
  also have "\<dots> \<longleftrightarrow> (of_nat ?v :: u16) = NOT ?r"
    by (rule xor_eq_minus_one_iff)
  also have "\<dots> \<longleftrightarrow> ?v = unat (NOT ?r)"
    using v by (simp only: word_unat_eq_iff unat_of_nat_u16 mod_less)
  also have "\<dots> \<longleftrightarrow> verifyBlockCrc w"
    using True by (auto simp: verifyBlockCrc_def w dnp3Crc_def subarray_def readUIntLE_def)
  finally show ?thesis using True by simp
qed (simp add: verifyBlockCrc_def)

lemma verify_appendCrc [simp]: "verifyBlockCrc (appendCrc block)"
  by (simp add: verifyBlockCrc_def appendCrc_def subarray_def readUIntLE_def le_val_le_bytes)

lemma length_appendCrc [simp]: "length (appendCrc block) = length block + 2"
  by (simp add: appendCrc_def)


section \<open>Damage within two octets\<close>

lemma crc_loop_two_inj: "crc_loop c [a, b] = crc_loop c [d, e] \<Longrightarrow> [a, b] = [d, e]"
proof -
  assume "crc_loop c [a, b] = crc_loop c [d, e]"
  then have eq: "c XOR of_nat (le_val [a, b]) = c XOR of_nat (le_val [d, e])"
    unfolding crc_loop_two by (rule injD [OF inj_crc_bits])
  have "c XOR (c XOR of_nat (le_val [a, b])) = c XOR (c XOR of_nat (le_val [d, e]))"
    by (simp only: eq)
  then have "(of_nat (le_val [a, b]) :: u16) = of_nat (le_val [d, e])"
    by (simp only: xor.assoc [symmetric] xor_self_eq xor.left_neutral)
  then have "le_val [a, b] mod 65536 = le_val [d, e] mod 65536"
    by (simp only: word_unat_eq_iff unat_of_nat_u16)
  moreover have "le_val [a, b] < 65536" "le_val [d, e] < 65536"
    using le_val_lt [of "[a, b]"] le_val_lt [of "[d, e]"] by (simp_all add: power2_eq_square)
  ultimately have "le_val [a, b] = le_val [d, e]" by simp
  then show ?thesis by (subst (asm) le_val_eq_iff) simp_all
qed

lemma crc_loop_short_inj:
  assumes "length x = length y" "length x \<le> 2" "crc_loop c x = crc_loop c y"
  shows "x = y"
proof -
  consider "x = []" "y = []" | a b where "x = [a]" "y = [b]"
    | a b d e where "x = [a, b]" "y = [d, e]"
    using assms(1,2)
    by (cases x; cases y; cases "tl x"; cases "tl y") (auto simp: numeral_2_eq_2)
  then show ?thesis
  proof cases
    case (2 a b)
    with assms(3) have "crc_loop c ([a] @ [0]) = crc_loop c ([b] @ [0])"
      by (simp only: crc_loop_append)
    then have "[a, 0] = [b, 0]" by (intro crc_loop_two_inj [of c]) simp
    with 2 show ?thesis by simp
  next
    case (3 a b d e)
    with assms(3) show ?thesis by (metis crc_loop_two_inj)
  qed simp
qed

section \<open>Frames are recovered from their octets\<close>

lemma payload_blocks_chunks:
  "payload_blocks payload off = map appendCrc (chunks 16 (drop off payload))"
proof (induction payload off rule: payload_blocks.induct)
  case (1 payload off)
  show ?case
  proof (cases "off < length payload")
    case True
    then have "subarray payload off (min (off + 16) (length payload)) = take 16 (drop off payload)"
      by (auto simp: subarray_def min_def)
    with True "1.IH" show ?thesis
      by (subst payload_blocks.simps)
        (simp add: chunks_step [of "drop off payload"] DNP3_BLOCK_SIZE_def add.commute)
  qed (simp add: payload_blocks.simps)
qed

lemma subarray_skip: "length pre = off \<Longrightarrow> subarray (pre @ xs) off (off + n) = take n xs"
  by (simp add: subarray_def)

lemma extract_blocks_chunks:
  assumes "length pre = off"
  shows "extract_blocks (pre @ concat (map appendCrc (chunks 16 payload)) @ rest) off (length payload)
    = Some (chunks 16 payload)"
  using assms
proof (induction "16 :: nat" payload arbitrary: pre off rule: chunks.induct)
  case (1 payload)
  show ?case
  proof (cases "payload = []")
    case False
    let ?n = "min 16 (length payload)"
    let ?b = "appendCrc (take 16 payload)"
    let ?t = "concat (map appendCrc (chunks 16 (drop 16 payload))) @ rest"
    have IH: "extract_blocks ((pre @ ?b) @ ?t) (off + ?n + 2) (length payload - ?n)
        = Some (chunks 16 (drop 16 payload))"
    proof -
      have "length (pre @ ?b) = off + ?n + 2" using "1.prems" by (simp add: min.commute)
      moreover have "length payload - ?n = length (drop 16 payload)" by (simp add: min_def)
      ultimately show ?thesis using "1.hyps" [of "pre @ ?b"] False by simp
    qed
    have b: "subarray (pre @ ?b @ ?t) off (off + ?n + 2) = ?b"
      using subarray_skip [OF "1.prems", of "?b @ ?t" "?n + 2"] by (simp add: add.assoc)
    have tk: "subarray ?b 0 ?n = take 16 payload"
      by (simp add: subarray_def appendCrc_def min_def)
    have c: "concat (map appendCrc (chunks 16 payload)) @ rest = ?b @ ?t"
      using False by (simp add: chunks_step)
    show ?thesis
      unfolding c using False IH b tk
      by (subst extract_blocks.simps) (simp add: chunks_step DNP3_BLOCK_SIZE_def Let_def)
  qed (simp add: extract_blocks.simps)
qed


lemma length_frame_header [simp]:
  "length ([0x05, 0x64, of_nat len, of_nat control] @ writeUInt16LE d @ writeUInt16LE src) = 8"
  by simp

lemma parseLinkHeader_build:
  assumes "header = [0x05, 0x64, of_nat len, of_nat control]
             @ writeUInt16LE (destination mod 65536) @ writeUInt16LE (source mod 65536)"
    and "len < 256"
  obtains h where "parseLinkHeader (appendCrc header @ rest) = Some h"
    "lh_length h = len" "lh_control h = of_nat control"
    "lh_destination h = destination mod 65536" "lh_source h = source mod 65536"
proof -
  let ?buf = "appendCrc header @ rest"
  have len: "length header = 8" by (simp add: assms(1))
  have crc: "readUInt16LE ?buf 8 = unat (dnp3Crc header)" "subarray ?buf 0 8 = header"
    using len by (simp_all add: appendCrc_def buf_simps le_val_le_bytes subarray_def)
  have dst: "readUInt16LE ?buf 4 = destination mod 65536"
    unfolding appendCrc_def assms(1) append_assoc
    by (subst append_assoc [symmetric]) (simp add: readUIntLE_def le_val_le_bytes)
  have src: "readUInt16LE ?buf 6 = source mod 65536"
    unfolding appendCrc_def assms(1)
    by (simp add: readUIntLE_def le_val_le_bytes)
  have "?buf ! 0 = 0x05" "?buf ! 1 = 0x64" "unat (?buf ! 2) = len" "?buf ! 3 = of_nat control"
    using assms(2) by (simp_all add: appendCrc_def assms(1) nth_append)
  then have "\<exists>h. parseLinkHeader ?buf = Some h \<and> lh_length h = len \<and> lh_control h = of_nat control
      \<and> lh_destination h = destination mod 65536 \<and> lh_source h = source mod 65536"
    using len crc dst src by (simp add: parseLinkHeader_def Let_def)
  then show ?thesis using that by blast
qed

lemma extract_build:
  assumes "buildLinkFrame control destination source payload = Inr frame"
  obtains h where "extractPayload (frame @ rest) = Some (h, payload)"
    "lh_length h = 5 + length payload" "lh_control h = of_nat control"
    "lh_destination h = destination mod 65536" "lh_source h = source mod 65536"
proof -
  define header where "header = [0x05, 0x64, of_nat (5 + length payload), of_nat control]
     @ writeUInt16LE (destination mod 65536) @ writeUInt16LE (source mod 65536)"
  have frame: "frame = appendCrc header @ concat (map appendCrc (chunks 16 payload))"
    and len: "5 + length payload < 256"
    using assms
    by (auto simp: buildLinkFrame_def Let_def payload_blocks_chunks header_def split: if_splits)
  have l10: "length (appendCrc header) = 10" by (simp add: header_def)
  obtain h where h: "parseLinkHeader (frame @ rest) = Some h" "lh_length h = 5 + length payload"
    "lh_control h = of_nat control"
    "lh_destination h = destination mod 65536" "lh_source h = source mod 65536"
    using parseLinkHeader_build [OF header_def len] unfolding frame append_assoc by metis
  have "extract_blocks (frame @ rest) 10 (length payload) = Some (chunks 16 payload)"
    using extract_blocks_chunks [OF l10, of payload rest] by (simp add: frame)
  with h show ?thesis by (intro that) (simp_all add: extractPayload_def concat_chunks)
qed

lemma length_concat_appendCrc:
  "length (concat (map appendCrc bs)) = length (concat bs) + 2 * length bs"
  by (induction bs) auto

lemma length_buildLinkFrame:
  "buildLinkFrame control destination source payload = Inr frame \<Longrightarrow>
     length frame = 10 + length payload + 2 * ceil_div (length payload) 16"
  by (auto simp: buildLinkFrame_def Let_def payload_blocks_chunks length_concat_appendCrc
      concat_chunks length_chunks split: if_splits)


lemma extract_blocks_length:
  "extract_blocks frame off remaining = Some cs \<Longrightarrow>
     length (concat cs) = remaining
     \<and> (0 < remaining \<longrightarrow> off + remaining + 2 * ceil_div remaining 16 \<le> length frame)"
proof (induction frame off remaining arbitrary: cs rule: extract_blocks.induct)
  case (1 frame off remaining)
  show ?case
  proof (cases "remaining = 0")
    case True
    with "1.prems" show ?thesis by (simp add: extract_blocks.simps)
  next
    case False
    let ?tk = "min 16 remaining"
    let ?b = "subarray frame off (off + ?tk + 2)"
    from False "1.prems" obtain cs' where b: "\<not> length ?b < ?tk + 2" "verifyBlockCrc ?b"
      and cs': "extract_blocks frame (off + ?tk + 2) (remaining - ?tk) = Some cs'"
      and cs: "cs = subarray ?b 0 ?tk # cs'"
      by (subst (asm) extract_blocks.simps)
        (auto simp: DNP3_BLOCK_SIZE_def Let_def split: if_splits option.splits)
    have IH: "length (concat cs') = remaining - ?tk \<and> (0 < remaining - ?tk \<longrightarrow>
        off + ?tk + 2 + (remaining - ?tk) + 2 * ceil_div (remaining - ?tk) 16 \<le> length frame)"
      using "1.IH" [of ?tk ?b cs'] False b cs' by (simp add: DNP3_BLOCK_SIZE_def)
    have lb: "length ?b = ?tk + 2" "off + ?tk + 2 \<le> length frame"
      using b(1) by (auto simp: length_subarray)
    have "ceil_div remaining 16 = Suc (ceil_div (remaining - ?tk) 16)"
      using False ceil_div_step [of 16 remaining] by (simp add: min_def)
    with IH lb cs False show ?thesis
      by (cases "remaining \<le> 16") (auto simp: length_subarray min_def split: if_splits)
  qed
qed


section \<open>Properties\<close>

text \<open>C40: The table-driven CRC that \<open>dnp3Crc\<close> computes octet by octet is the complement of the
  bit-serial shift register of polynomial \<open>0xA6BC\<close> started at zero and fed each octet least
  significant bit first.\<close>

theorem dnp3Crc_bit_serial:
  "dnp3Crc data = NOT (crc_serial 0 (concat (map octet_bits data)))"
  by (simp add: dnp3Crc_def crc_loop_serial)

text \<open>C39: A block that passes \<open>verifyBlockCrc\<close> no longer passes after any change confined to two
  neighbouring octets, whether they lie in the data, in the CRC or across the two.\<close>

theorem block_burst_detected:
  assumes "verifyBlockCrc (p @ x @ q)" "length y = length x" "length x \<le> 2" "y \<noteq> x"
  shows "\<not> verifyBlockCrc (p @ y @ q)"
proof
  assume "verifyBlockCrc (p @ y @ q)"
  with assms(1) have "crc_loop (crc_loop (crc_loop 0 p) x) q = crc_loop (crc_loop (crc_loop 0 p) y) q"
    by (simp add: verifyBlockCrc_residue crc_loop_append)
  then have "crc_loop (crc_loop 0 p) x = crc_loop (crc_loop 0 p) y"
    by (rule crc_loop_inj)
  then have "x = y" using assms(2,3) by (intro crc_loop_short_inj) simp_all
  with assms(4) show False by simp
qed

theorem block_burst_detected_witness:
  "verifyBlockCrc (appendCrc [0xC0, 0x01, 0x3C])
   \<and> \<not> verifyBlockCrc ([0xC0] @ [0x02, 0x3D] @ writeUInt16LE (unat (dnp3Crc [0xC0, 0x01, 0x3C])))"
proof -
  have v: "verifyBlockCrc ([0xC0] @ [0x01, 0x3C] @ writeUInt16LE (unat (dnp3Crc [0xC0, 0x01, 0x3C])))"
    using verify_appendCrc [of "[0xC0, 0x01, 0x3C]"] by (simp add: appendCrc_def)
  show ?thesis
    using block_burst_detected [OF v, of "[0x02, 0x3D]"] by simp
qed

text \<open>\<open>buildLinkFrame\<close> never refuses a payload of at most 250 octets, and \<open>extractPayload\<close> then
  returns exactly that payload with the length, control and addresses that were framed, also when
  more octets follow the frame in the buffer.\<close>

theorem link_frame_roundtrip:
  assumes "length payload \<le> 250"
  shows "\<exists>frame h. buildLinkFrame control destination source payload = Inr frame
    \<and> length frame = 10 + length payload + 2 * ceil_div (length payload) 16
    \<and> extractPayload (frame @ rest) = Some (h, payload)
    \<and> lh_length h = 5 + length payload \<and> lh_control h = of_nat control
    \<and> lh_destination h = destination mod 65536 \<and> lh_source h = source mod 65536"
proof -
  obtain frame where f: "buildLinkFrame control destination source payload = Inr frame"
    using assms by (simp add: buildLinkFrame_def Let_def)
  show ?thesis
    using f length_buildLinkFrame [OF f] extract_build [OF f, of rest] by metis
qed

theorem link_frame_roundtrip_witness:
  "\<exists>frame h. buildLinkFrame 0x44 1 10 (replicate 20 7) = Inr frame \<and> length frame = 34
    \<and> extractPayload (frame @ [5]) = Some (h, replicate 20 7) \<and> lh_source h = 10"
proof -
  have "length (replicate 20 7 :: buffer) \<le> 250" by simp
  from link_frame_roundtrip [OF this, of "0x44" 1 10 "[5]"] show ?thesis
    by (auto simp: ceil_div_def)
qed

text \<open>Whatever octets arrive, a payload that \<open>extractPayload\<close> accepts is as long as the header
  says and at most 250 octets, and every octet of it was covered by a checked CRC block, so a
  frame cut short before the last block is refused.\<close>

theorem extractPayload_bounds:
  assumes "extractPayload frame = Some (h, payload)"
  shows "length payload + 5 = lh_length h \<and> lh_length h \<le> 255
    \<and> 10 + length payload + 2 * ceil_div (length payload) 16 \<le> length frame"
proof -
  obtain cs where h: "parseLinkHeader frame = Some h" "5 \<le> lh_length h"
    and cs: "extract_blocks frame 10 (lh_length h - 5) = Some cs" "payload = concat cs"
    using assms by (auto simp: extractPayload_def not_less split: option.splits if_splits)
  have "lh_length h \<le> 255 \<and> 10 \<le> length frame"
    using h(1) by (auto simp: parseLinkHeader_def Let_def split: if_splits)
  moreover have "length payload = lh_length h - 5 \<and> (0 < lh_length h - 5 \<longrightarrow>
      10 + (lh_length h - 5) + 2 * ceil_div (lh_length h - 5) 16 \<le> length frame)"
    unfolding cs(2) by (rule extract_blocks_length [OF cs(1)])
  ultimately show ?thesis using h(2) by (cases "lh_length h = 5") auto
qed

theorem extractPayload_bounds_witness:
  "\<exists>frame h. extractPayload frame = Some (h, [0xC0, 0xC1, 0x01]) \<and> lh_length h = 8
     \<and> 15 \<le> length frame"
proof -
  obtain frame where f: "buildLinkFrame 0xC4 10 1 [0xC0, 0xC1, 0x01] = Inr frame"
    by (simp add: buildLinkFrame_def Let_def)
  obtain h where h: "extractPayload (frame @ []) = Some (h, [0xC0, 0xC1, 0x01])"
    using extract_build [OF f] by metis
  show ?thesis using h extractPayload_bounds [OF h] by (auto simp: ceil_div_def)
qed

end
