(* ===== verification/Dnp3_Transport.thy ===== *)
theory Dnp3_Transport
  imports Dnp3_Link
begin

text \<open>
  The DNP3 transport function, \<open>server/protocols/dnp3-outstation/transport.ts\<close>: \<open>segment\<close> cuts an
  application fragment into numbered segments, and \<open>TransportReassembler\<close> puts the segments of one
  fragment together again. The state of the reassembler is the value of its field \<open>state\<close>
  (\<open>None\<close> for \<open>null\<close>).

  The lemmas show that a segmented fragment is reassembled whatever the reassembler held before,
  that every segment fits into one link frame, and that a segment that is lost, repeated or
  out of order never lets an incomplete fragment through.
\<close>

section \<open>Segments\<close>

definition TRANSPORT_FIN :: byte where "TRANSPORT_FIN = 0x80"
definition TRANSPORT_FIR :: byte where "TRANSPORT_FIR = 0x40"
definition TRANSPORT_SEQ_MASK :: byte where "TRANSPORT_SEQ_MASK = 0x3F"
definition DEFAULT_MAX_SEGMENT_PAYLOAD :: nat where "DEFAULT_MAX_SEGMENT_PAYLOAD = 249"

datatype transport_error = MaxPayloadNotPositive

text \<open>The \<open>for (i = 0; i < count; i++)\<close> loop of \<open>segment\<close>.\<close>

function segment_loop :: "buffer \<Rightarrow> nat \<Rightarrow> nat \<Rightarrow> nat \<Rightarrow> byte \<Rightarrow> buffer list" where
  "segment_loop appFragment maxPayload count i seq =
     (if i < count
      then let chunk = subarray appFragment (i * maxPayload) ((i + 1) * maxPayload);
               header = seq AND TRANSPORT_SEQ_MASK;
               header = (if i = 0 then header OR TRANSPORT_FIR else header);
               header = (if i = count - 1 then header OR TRANSPORT_FIN else header)
           in (header # chunk)
                # segment_loop appFragment maxPayload count (i + 1) ((seq + 1) AND TRANSPORT_SEQ_MASK)
      else [])"
  by pat_completeness auto
termination
  by (relation "measure (\<lambda>(f, m, count, i, s). count - i)") auto

declare segment_loop.simps [simp del]

definition segment :: "buffer \<Rightarrow> byte \<Rightarrow> nat \<Rightarrow> transport_error + buffer list" where
  "segment appFragment startSeq maxPayload =
     (if maxPayload = 0 then Inl MaxPayloadNotPositive
      else let seq = startSeq AND TRANSPORT_SEQ_MASK
           in if length appFragment = 0
              then Inr [[TRANSPORT_FIR OR TRANSPORT_FIN OR seq]]
              else Inr (segment_loop appFragment maxPayload
                          (ceil_div (length appFragment) maxPayload) 0 seq))"

section \<open>The reassembler\<close>

record reassembly_state =
  rs_chunks :: "buffer list"
  rs_expectedSeq :: byte

datatype reassemble_error = UnexpectedSequence | MissingFir

record reassemble_result =
  rr_fragment :: "buffer option"
  rr_error :: "reassemble_error option"

definition parseHeader :: "buffer \<Rightarrow> bool \<times> bool \<times> byte" where
  "parseHeader seg =
     (let h = seg ! 0 in (h AND TRANSPORT_FIR \<noteq> 0, h AND TRANSPORT_FIN \<noteq> 0, h AND TRANSPORT_SEQ_MASK))"

text \<open>The part of \<open>accept\<close> after the first-segment and sequence checks.\<close>

definition accept_finish ::
    "bool \<Rightarrow> reassembly_state \<Rightarrow> reassembly_state option \<times> reassemble_result" where
  "accept_finish fin st =
     (if fin then (None, \<lparr> rr_fragment = Some (concat (rs_chunks st)), rr_error = None \<rparr>)
      else (Some st, \<lparr> rr_fragment = None, rr_error = None \<rparr>))"

definition accept ::
    "reassembly_state option \<Rightarrow> buffer \<Rightarrow> reassembly_state option \<times> reassemble_result" where
  "accept state seg =
     (if length seg < 1 then (state, \<lparr> rr_fragment = None, rr_error = Some MissingFir \<rparr>)
      else let (fir, fin, seq) = parseHeader seg; payload = drop 1 seg
           in if fir
              then accept_finish fin \<lparr> rs_chunks = [payload],
                     rs_expectedSeq = (seq + 1) AND TRANSPORT_SEQ_MASK \<rparr>
              else case state of
                     None \<Rightarrow> (None, \<lparr> rr_fragment = None, rr_error = Some MissingFir \<rparr>)
                   | Some st \<Rightarrow>
                       if seq \<noteq> rs_expectedSeq st
                       then (None, \<lparr> rr_fragment = None, rr_error = Some UnexpectedSequence \<rparr>)
                       else accept_finish fin
                              (st\<lparr> rs_chunks := rs_chunks st @ [payload],
                                  rs_expectedSeq := (seq + 1) AND TRANSPORT_SEQ_MASK \<rparr>))"

definition reset :: "reassembly_state option \<Rightarrow> reassembly_state option" where
  "reset state = None"

text \<open>Segments fed in arrival order, with the result of each.\<close>

fun accept_all ::
    "reassembly_state option \<Rightarrow> buffer list \<Rightarrow> reassembly_state option \<times> reassemble_result list" where
  "accept_all state [] = (state, [])"
| "accept_all state (seg # segs) =
     (let (state', r) = accept state seg; (state'', rs) = accept_all state' segs
      in (state'', r # rs))"



section \<open>Segmentation as numbering the chunks\<close>

definition seg_header :: "byte \<Rightarrow> bool \<Rightarrow> bool \<Rightarrow> byte" where
  "seg_header seq fir fin =
     (seq AND 0x3F) OR (if fir then 0x40 else 0) OR (if fin then 0x80 else 0)"

fun numbered :: "bool \<Rightarrow> byte \<Rightarrow> buffer list \<Rightarrow> buffer list" where
  "numbered first seq [] = []"
| "numbered first seq (c # cs) =
     (seg_header seq first (cs = []) # c) # numbered False ((seq + 1) AND 0x3F) cs"

lemmas transport_consts = TRANSPORT_FIN_def TRANSPORT_FIR_def TRANSPORT_SEQ_MASK_def

lemma seg_header_fields [simp]:
  "seg_header seq fir fin AND 0x40 \<noteq> 0 \<longleftrightarrow> fir"
  "seg_header seq fir fin AND 0x80 \<noteq> 0 \<longleftrightarrow> fin"
  "seg_header seq fir fin AND 0x3F = seq AND 0x3F"
  by (auto simp: seg_header_def bit.conj_disj_distrib2 and.assoc)

lemma seg_header_surj: "seg_header h (h AND 0x40 \<noteq> 0) (h AND 0x80 \<noteq> 0) = h"
proof -
  have "h = (h AND 0x3F) OR (h AND 0x40) OR (h AND 0x80)"
    by (simp add: bit.conj_disj_distrib [symmetric])
  then show ?thesis
    using and_exp_byte [of h 6] and_exp_byte [of h 7] by (simp add: seg_header_def split: if_splits)
qed

lemma segment_loop_numbered:
  assumes "0 < m" and "n = ceil_div (length f) m"
  shows "segment_loop f m n i seq = numbered (i = 0) seq (chunks m (drop (i * m) f))"
  using assms
proof (induction f m n i seq rule: segment_loop.induct)
  case (1 f m n i seq)
  show ?case
  proof (cases "i < n")
    case True
    then have lt: "i * m < length f" using "1.prems" less_ceil_div_iff by blast
    have "i = n - 1 \<longleftrightarrow> \<not> Suc i < n" using True by auto
    also have "\<dots> \<longleftrightarrow> chunks m (drop (Suc i * m) f) = []"
      using less_ceil_div_iff [of m "Suc i" "length f"] "1.prems"
      by (simp add: chunks_eq_Nil_iff not_less)
    finally have last: "i = n - 1 \<longleftrightarrow> chunks m (drop (Suc i * m) f) = []" .
    have ch: "chunks m (drop (i * m) f) = take m (drop (i * m) f) # chunks m (drop (Suc i * m) f)"
      using lt "1.prems"(1) by (subst chunks_step) (auto simp: add.commute)
    have "subarray f (i * m) ((i + 1) * m) = take m (drop (i * m) f)"
      by (simp add: subarray_def)
    with True last ch "1" show ?thesis
      by (subst segment_loop.simps)
        (simp add: transport_consts seg_header_def Let_def or.assoc)
  next
    case False
    then have "length f \<le> i * m" using "1.prems" less_ceil_div_iff by (meson not_le)
    with False show ?thesis by (subst segment_loop.simps) simp
  qed
qed

lemma and_3F_idem [simp]: "(x AND 0x3F) AND 0x3F = (x AND 0x3F :: byte)"
  by (simp add: and.assoc)

lemma seg_header_mask [simp]: "seg_header (seq AND 0x3F) fir fin = seg_header seq fir fin"
  by (simp add: seg_header_def)

lemma unat_and_3F: "unat (x AND 0x3F) = unat x mod 64" for x :: byte
  using unat_and_mask [of x 6] by (simp add: mask_eq_exp_minus_1)

lemma next_seq_mask: "((seq AND 0x3F) + 1) AND 0x3F = (seq + 1) AND (0x3F :: byte)"
proof (rule word_unat_eq_iff [THEN iffD2])
  have "(unat seq mod 64 + 1) mod 256 mod 64 = (unat seq + 1) mod 256 mod 64"
    by (simp add: mod_mod_cancel mod_simps)
  then show "unat (((seq AND 0x3F) + 1) AND 0x3F) = unat ((seq + 1) AND (0x3F :: byte))"
    by (simp add: unat_and_3F unat_word_ariths)
qed

lemma numbered_mask: "numbered first (seq AND 0x3F) cs = numbered first seq cs"
  by (cases cs) (simp_all add: next_seq_mask)

lemma segment_numbered:
  assumes "0 < maxPayload"
  shows "segment f startSeq maxPayload
    = Inr (numbered True startSeq (if f = [] then [[]] else chunks maxPayload f))"
  using assms segment_loop_numbered [OF assms refl, of f 0 "startSeq AND 0x3F"]
  by (auto simp: segment_def transport_consts seg_header_def numbered_mask ac_simps)



section \<open>Reassembly\<close>

abbreviation pending :: reassemble_result where
  "pending \<equiv> \<lparr> rr_fragment = None, rr_error = None \<rparr>"

abbreviation complete :: "buffer \<Rightarrow> reassemble_result" where
  "complete f \<equiv> \<lparr> rr_fragment = Some f, rr_error = None \<rparr>"

text \<open>The state after the chunks \<open>cs\<close> of a fragment whose next segment is numbered \<open>seq\<close>.\<close>

abbreviation expecting :: "buffer list \<Rightarrow> byte \<Rightarrow> reassembly_state" where
  "expecting cs seq \<equiv> \<lparr> rs_chunks = cs, rs_expectedSeq = seq \<rparr>"

lemma accept_first [simp]:
  "accept st (seg_header seq True fin # c) = accept_finish fin (expecting [c] ((seq + 1) AND 0x3F))"
  by (simp add: accept_def parseHeader_def transport_consts next_seq_mask Let_def)

lemma accept_next [simp]:
  "accept (Some (expecting cs (seq AND 0x3F))) (seg_header seq False fin # c)
    = accept_finish fin (expecting (cs @ [c]) ((seq + 1) AND 0x3F))"
  by (simp add: accept_def parseHeader_def transport_consts next_seq_mask Let_def)

lemma accept_all_append:
  "accept_all st (xs @ ys)
    = (let (st', rs) = accept_all st xs; (st'', rs') = accept_all st' ys in (st'', rs @ rs'))"
  by (induction xs arbitrary: st) (auto simp: split_def Let_def)

lemma length_accept_all [simp]: "length (snd (accept_all st segs)) = length segs"
  by (induction segs arbitrary: st) (auto simp: split_def Let_def)

lemma accept_all_numbered_rest:
  "cs \<noteq> [] \<Longrightarrow> accept_all (Some (expecting acc (seq AND 0x3F))) (numbered False seq cs)
    = (None, replicate (length cs - 1) pending @ [complete (concat acc @ concat cs)])"
proof (induction cs arbitrary: acc seq)
  case (Cons c cs)
  then show ?case
    using Cons.IH [of "acc @ [c]" "(seq + 1) AND 0x3F"]
    by (cases cs) (auto simp: accept_finish_def)
qed simp

lemma accept_all_numbered:
  "cs \<noteq> [] \<Longrightarrow> accept_all st (numbered True seq cs)
    = (None, replicate (length cs - 1) pending @ [complete (concat cs)])"
  using accept_all_numbered_rest [of "tl cs" "[hd cs]" "(seq + 1) AND 0x3F"]
  by (cases cs; cases "tl cs") (auto simp: accept_finish_def)

text \<open>
  \<open>open_run seq cs\<close>: the segments of a fragment that has begun and not ended, the first numbered
  \<open>seq\<close>; the next one will be \<open>numbered False (next_seq seq cs)\<close>.
\<close>

fun open_run :: "bool \<Rightarrow> byte \<Rightarrow> buffer list \<Rightarrow> buffer list" where
  "open_run first seq [] = []"
| "open_run first seq (c # cs) = (seg_header seq first False # c) # open_run False ((seq + 1) AND 0x3F) cs"

fun next_seq :: "byte \<Rightarrow> buffer list \<Rightarrow> byte" where
  "next_seq seq [] = seq"
| "next_seq seq (c # cs) = next_seq ((seq + 1) AND 0x3F) cs"

lemma next_seq_snoc: "next_seq seq (cs @ [c]) = (next_seq seq cs + 1) AND 0x3F"
  by (induction cs arbitrary: seq) auto

lemma open_run_snoc:
  "open_run first seq (cs @ [c])
    = open_run first seq cs @ [seg_header (next_seq seq cs) (first \<and> cs = []) False # c]"
  by (induction cs arbitrary: first seq) auto

lemma numbered_snoc:
  "numbered first seq (cs @ [c])
    = open_run first seq cs @ [seg_header (next_seq seq cs) (first \<and> cs = []) True # c]"
  by (induction cs arbitrary: first seq) auto

text \<open>What the reassembler holds after any sequence of non-empty segments.\<close>

definition holds :: "buffer list \<Rightarrow> reassembly_state option \<Rightarrow> bool" where
  "holds segs st \<longleftrightarrow> (case st of None \<Rightarrow> True | Some s \<Rightarrow>
     \<exists>pre seq cs. cs \<noteq> [] \<and> segs = pre @ open_run True seq cs
        \<and> s = expecting cs (next_seq seq cs AND 0x3F))"

lemma seg_header_cong: "h AND 0x3F = k AND 0x3F \<Longrightarrow> seg_header h fir fin = seg_header k fir fin"
  by (simp add: seg_header_def)

definition delivers :: "buffer list \<Rightarrow> buffer \<Rightarrow> bool" where
  "delivers segs f \<longleftrightarrow>
     (\<exists>pre seq cs. cs \<noteq> [] \<and> segs = pre @ numbered True seq cs \<and> f = concat cs)"

lemma deliversI: "segs = pre @ numbered True seq cs \<Longrightarrow> cs \<noteq> [] \<Longrightarrow> delivers segs (concat cs)"
  by (auto simp: delivers_def)

lemma holdsI:
  "segs = pre @ open_run True seq cs \<Longrightarrow> cs \<noteq> [] \<Longrightarrow>
     holds segs (Some (expecting cs (next_seq seq cs AND 0x3F)))"
  by (auto simp: holds_def)

lemma holds_None [simp]: "holds segs None"
  by (simp add: holds_def)

lemma accept_holds:
  assumes "holds segs st" "seg \<noteq> []"
  shows "holds (segs @ [seg]) (fst (accept st seg))"
    and "rr_fragment (snd (accept st seg)) = Some f \<Longrightarrow> delivers (segs @ [seg]) f"
proof -
  obtain h fir fin c where seg: "seg = seg_header h fir fin # c"
    using assms(2) seg_header_surj by (metis list.exhaust)
  let ?goal = "holds (segs @ [seg]) (fst (accept st seg)) \<and>
    (rr_fragment (snd (accept st seg)) = Some f \<longrightarrow> delivers (segs @ [seg]) f)"
  have ?goal
  proof (cases fir)
    case True
    have "segs @ [seg] = segs @ numbered True h [c]" if fin using that True seg by simp
    moreover have "segs @ [seg] = segs @ open_run True h [c]" if "\<not> fin" using that True seg by simp
    ultimately show ?thesis using True seg deliversI [of _ segs h "[c]"] holdsI [of _ segs h "[c]"]
      by (cases fin) (auto simp: accept_finish_def)
  next
    case False
    show ?thesis
    proof (cases st)
      case None
      with False seg show ?thesis
        by (simp add: accept_def parseHeader_def transport_consts holds_def)
    next
      case (Some s)
      then obtain pre seq cs where cs: "cs \<noteq> []" "segs = pre @ open_run True seq cs"
        and s: "s = expecting cs (next_seq seq cs AND 0x3F)"
        using assms(1) by (auto simp: holds_def)
      show ?thesis
      proof (cases "h AND 0x3F = next_seq seq cs AND 0x3F")
        case eq: True
        then have hdr: "seg_header h False b = seg_header (next_seq seq cs) False b" for b
          by (rule seg_header_cong)
        have run: "segs @ [seg] = pre @ (if fin then numbered True seq (cs @ [c])
            else open_run True seq (cs @ [c]))"
          using False cs seg hdr by (simp add: numbered_snoc open_run_snoc)
        have acc: "accept st seg
            = accept_finish fin (expecting (cs @ [c]) (next_seq seq (cs @ [c]) AND 0x3F))"
          using False seg Some s accept_next [of cs "next_seq seq cs" fin c]
          by (simp add: hdr next_seq_snoc)
        show ?thesis
          using run acc deliversI [of _ pre seq "cs @ [c]"] holdsI [of _ pre seq "cs @ [c]"]
          by (cases fin) (auto simp: accept_finish_def)
      next
        case neq: False
        with False seg Some s show ?thesis
          by (simp add: accept_def parseHeader_def transport_consts holds_def)
      qed
    qed
  qed
  then show "holds (segs @ [seg]) (fst (accept st seg))"
    and "rr_fragment (snd (accept st seg)) = Some f \<Longrightarrow> delivers (segs @ [seg]) f"
    by blast+
qed

lemma accept_all_holds:
  assumes "[] \<notin> set segs"
  shows "holds segs (fst (accept_all None segs))
    \<and> (\<forall>i f. i < length segs \<longrightarrow> rr_fragment (snd (accept_all None segs) ! i) = Some f
          \<longrightarrow> delivers (take (Suc i) segs) f)"
  using assms
proof (induction segs rule: rev_induct)
  case (snoc seg segs)
  let ?st = "fst (accept_all None segs)" and ?rs = "snd (accept_all None segs)"
  have IH: "holds segs ?st" "\<And>i f. i < length segs \<Longrightarrow> rr_fragment (?rs ! i) = Some f
      \<Longrightarrow> delivers (take (Suc i) segs) f"
    using snoc by auto
  have eq: "accept_all None (segs @ [seg]) = (fst (accept ?st seg), ?rs @ [snd (accept ?st seg)])"
    by (simp add: accept_all_append split_def Let_def)
  have "seg \<noteq> []" using snoc.prems by auto
  note ah = accept_holds [OF IH(1) this]
  have "delivers (take (Suc i) (segs @ [seg])) f"
    if "i < length (segs @ [seg])" "rr_fragment ((?rs @ [snd (accept ?st seg)]) ! i) = Some f" for i f
  proof (cases "i < length segs")
    case True
    with that IH(2) [of i f] show ?thesis by (simp add: nth_append)
  next
    case False
    with that have "i = length segs" by simp
    with that ah(2) show ?thesis by (simp add: nth_append)
  qed
  with ah(1) eq show ?case by simp
qed (simp add: holds_def)


section \<open>Properties\<close>

lemma segment_accept:
  assumes "segment f startSeq maxPayload = Inr segs"
  shows "accept_all st segs = (None, replicate (length segs - 1) pending @ [complete f])"
proof -
  have m: "0 < maxPayload" using assms by (cases maxPayload) (simp_all add: segment_def)
  define cs where "cs = (if f = [] then [[]] else chunks maxPayload f)"
  have segs: "segs = numbered True startSeq cs"
    using assms segment_numbered [OF m, of f startSeq] by (simp add: cs_def)
  have "cs \<noteq> []" "concat cs = f"
    using m by (auto simp: cs_def chunks_eq_Nil_iff concat_chunks)
  moreover have "length (numbered b q cs) = length cs" for b q
    by (induction cs arbitrary: b q) auto
  ultimately show ?thesis using accept_all_numbered [of cs st startSeq] by (simp add: segs)
qed

text \<open>Feeding the segments of a fragment to the reassembler, whatever it held before, completes
  exactly at the last segment with exactly the fragment's octets, no error on the way, and leaves
  it empty; this holds for every starting sequence number, including runs that wrap past 63.\<close>

theorem segment_reassemble:
  assumes "segment f startSeq maxPayload = Inr segs"
  shows "accept_all st segs = (None, replicate (length segs - 1) pending @ [complete f])"
  using assms by (rule segment_accept)

theorem segment_reassemble_witness:
  "\<exists>segs. segment [1, 2, 3, 4, 5] 63 2 = Inr segs
    \<and> accept_all None segs = (None, [pending, pending, complete [1, 2, 3, 4, 5]])"
proof -
  define segs where "segs = [[0x7F, 1, 2], [0x00, 3, 4], [0x81, 5 :: byte]]"
  have s: "segment [1, 2, 3, 4, 5] 63 2 = Inr segs"
    by (simp add: segment_def segs_def transport_consts ceil_div_def segment_loop.simps subarray_def)
  have "accept_all None segs = (None, replicate (length segs - 1) pending @ [complete [1, 2, 3, 4, 5]])"
    by (rule segment_reassemble [OF s])
  with s show ?thesis by (simp add: segs_def numeral_2_eq_2)
qed

text \<open>Every fragment the reassembler ever delivers is the concatenation of the payloads of segments
  that arrived one after another, the first of them marked FIR, only the last marked FIN, with
  consecutive sequence numbers modulo 64: a lost, repeated or reordered segment cannot produce one.\<close>

theorem reassembly_sound:
  assumes "[] \<notin> set segs" "i < length segs"
    "rr_fragment (snd (accept_all None segs) ! i) = Some f"
  shows "\<exists>pre seq cs. cs \<noteq> [] \<and> take (Suc i) segs = pre @ numbered True seq cs \<and> f = concat cs"
  using accept_all_holds [OF assms(1)] assms(2,3) by (auto simp: delivers_def)

theorem reassembly_sound_witness:
  "\<exists>pre seq cs. cs \<noteq> []
     \<and> [[0x40, 1], [0x42, 7], [0x83, 8 :: byte]] = pre @ numbered True seq cs \<and> [7, 8] = concat cs"
proof -
  let ?segs = "[[0x40, 1], [0x42, 7], [0x83, 8 :: byte]]"
  have "rr_fragment (snd (accept_all None ?segs) ! 2) = Some [7, 8]"
    by (simp add: accept_def parseHeader_def transport_consts accept_finish_def)
  from reassembly_sound [OF _ _ this] show ?thesis by simp
qed

lemma segment_default:
  "\<exists>segs. segment f startSeq DEFAULT_MAX_SEGMENT_PAYLOAD = Inr segs \<and> segs \<noteq> []
    \<and> list_all (\<lambda>seg. seg \<noteq> [] \<and> length seg \<le> 250
         \<and> (\<exists>frame. buildLinkFrame control destination source seg = Inr frame)) segs"
proof -
  define cs where "cs = (if f = [] then [[]] else chunks 249 f)"
  have s: "segment f startSeq DEFAULT_MAX_SEGMENT_PAYLOAD = Inr (numbered True startSeq cs)"
    by (simp add: segment_numbered DEFAULT_MAX_SEGMENT_PAYLOAD_def cs_def)
  have "c \<in> set cs \<Longrightarrow> length c \<le> 249" for c
    by (auto simp: cs_def dest: chunks_length_le split: if_splits)
  moreover have "seg \<in> set (numbered b q cs) \<Longrightarrow> seg \<noteq> [] \<and> tl seg \<in> set cs" for seg b q
    by (induction cs arbitrary: b q) auto
  ultimately have "seg \<noteq> [] \<and> length seg \<le> 250" if "seg \<in> set (numbered True startSeq cs)" for seg
    using that by (cases seg) fastforce+
  moreover have "numbered True startSeq cs \<noteq> []"
    by (cases cs) (auto simp: cs_def chunks_eq_Nil_iff split: if_splits)
  moreover have "length seg \<le> 250 \<Longrightarrow> \<exists>frame. buildLinkFrame control destination source seg = Inr frame"
    for seg by (simp add: buildLinkFrame_def Let_def)
  ultimately show ?thesis using s by (simp add: list_all_iff)
qed

text \<open>The segments that \<open>segment\<close> cuts at the default payload limit are never empty and never
  longer than 250 octets, so \<open>buildLinkFrame\<close> accepts each of them.\<close>

theorem segments_fit_link_frame:
  "\<exists>segs. segment f startSeq DEFAULT_MAX_SEGMENT_PAYLOAD = Inr segs \<and> segs \<noteq> []
    \<and> list_all (\<lambda>seg. seg \<noteq> [] \<and> length seg \<le> 250
         \<and> (\<exists>frame. buildLinkFrame control destination source seg = Inr frame)) segs"
  by (rule segment_default)

end
