(* ===== verification/Dnp3_Reader.thy ===== *)
theory Dnp3_Reader
  imports Dnp3_Transport
begin

text \<open>
  \<open>Dnp3LinkFrameReader\<close> of \<open>server/protocols/dnp3-outstation/server.ts\<close>: the reader that recovers
  complete link frames from the TCP byte stream, with its receive bound and its resynchronisation
  on the start pattern \<open>0x05 0x64\<close>.

  The lemmas show that the frames it finds do not depend on how TCP cut the stream, that it keeps
  less than one maximal frame between two reads, and that a stream of well-formed frames is
  delivered completely and in order.
\<close>

section \<open>The reader\<close>

definition DNP3_LINK_HEADER_BYTES :: nat where "DNP3_LINK_HEADER_BYTES = 10"

definition DNP3_MAX_LINK_FRAME_BYTES :: nat where
  "DNP3_MAX_LINK_FRAME_BYTES = DNP3_LINK_HEADER_BYTES + 250 + ceil_div 250 DNP3_BLOCK_SIZE * 2"

definition DEFAULT_MAX_RX_BUFFER_BYTES :: nat where "DEFAULT_MAX_RX_BUFFER_BYTES = 8192"

record frame_reader =
  fr_buffer :: buffer
  fr_discarded :: nat
  fr_rejectedHeaders :: nat
  fr_maxBufferBytes :: nat

datatype reader_error = BufferBoundTooSmall nat

definition new_reader :: "nat \<Rightarrow> reader_error + frame_reader" where
  "new_reader maxBufferBytes =
     (if maxBufferBytes < DNP3_MAX_LINK_FRAME_BYTES then Inl (BufferBoundTooSmall maxBufferBytes)
      else Inr \<lparr> fr_buffer = [], fr_discarded = 0, fr_rejectedHeaders = 0,
                 fr_maxBufferBytes = maxBufferBytes \<rparr>)"

text \<open>\<open>buffer.indexOf(DNP3_START_BYTES)\<close>, \<open>None\<close> for -1.\<close>

fun index_of_start :: "buffer \<Rightarrow> nat option" where
  "index_of_start (x # y # r) =
     (if x = 0x05 \<and> y = 0x64 then Some 0 else map_option Suc (index_of_start (y # r)))"
| "index_of_start _ = None"

text \<open>One turn of the \<open>for (;;)\<close> loop of \<open>drain\<close>: stop, or go on with an optional frame.\<close>

datatype drain_outcome = Stop frame_reader | Again frame_reader "buffer option"

definition drain_turn :: "frame_reader \<Rightarrow> drain_outcome" where
  "drain_turn r =
     (let b = fr_buffer r in
      if length b < 2
      then (if length b = 1 \<and> b ! 0 \<noteq> 0x05
            then Stop (r\<lparr> fr_discarded := fr_discarded r + 1, fr_buffer := [] \<rparr>)
            else Stop r)
      else case index_of_start b of
        None \<Rightarrow>
          let keep = (if b ! (length b - 1) = 0x05 then 1 else 0)
          in Stop (r\<lparr> fr_discarded := fr_discarded r + (length b - keep),
                      fr_buffer := (if keep = 1 then drop (length b - 1) b else []) \<rparr>)
      | Some start \<Rightarrow>
          let r = (if start > 0
                   then r\<lparr> fr_discarded := fr_discarded r + start, fr_buffer := drop start b \<rparr>
                   else r);
              b = fr_buffer r
          in if length b < DNP3_LINK_HEADER_BYTES then Stop r
             else let header = parseLinkHeader (subarray b 0 DNP3_LINK_HEADER_BYTES)
                  in if (case header of None \<Rightarrow> True | Some h \<Rightarrow> lh_length h < 5)
                     then Again (r\<lparr> fr_rejectedHeaders := fr_rejectedHeaders r + 1,
                                    fr_discarded := fr_discarded r + 2, fr_buffer := drop 2 b \<rparr>) None
                     else let userDataLen = lh_length (the header) - 5;
                              blocks = ceil_div userDataLen DNP3_BLOCK_SIZE;
                              total_len = DNP3_LINK_HEADER_BYTES + userDataLen + blocks * 2
                          in if length b < total_len then Stop r
                             else Again (r\<lparr> fr_buffer := drop total_len b \<rparr>)
                                    (Some (subarray b 0 total_len)))"

lemma drain_turn_shrinks:
  "drain_turn r = Again r' f \<Longrightarrow> length (fr_buffer r') < length (fr_buffer r)"
  by (auto simp: drain_turn_def Let_def DNP3_LINK_HEADER_BYTES_def split: if_splits option.splits)

function drain :: "frame_reader \<Rightarrow> frame_reader \<times> buffer list" where
  "drain r =
     (case drain_turn r of
        Stop r' \<Rightarrow> (r', [])
      | Again r' f \<Rightarrow>
          let (r'', fs) = drain r'
          in (r'', (case f of None \<Rightarrow> fs | Some frame \<Rightarrow> frame # fs)))"
  by pat_completeness auto
termination
  by (relation "measure (length \<circ> fr_buffer)") (auto dest: drain_turn_shrinks)

declare drain.simps [simp del]

record frame_read_result =
  frr_frames :: "buffer list"
  frr_overflow :: bool

definition push :: "frame_reader \<Rightarrow> buffer \<Rightarrow> frame_reader \<times> frame_read_result" where
  "push r chunk =
     (if length (fr_buffer r) + length chunk > fr_maxBufferBytes r
      then (r\<lparr> fr_buffer := [] \<rparr>, \<lparr> frr_frames = [], frr_overflow = True \<rparr>)
      else let (r', frames) = drain (r\<lparr> fr_buffer := fr_buffer r @ chunk \<rparr>)
           in (r', \<lparr> frr_frames = frames, frr_overflow = False \<rparr>))"

definition reader_reset :: "frame_reader \<Rightarrow> frame_reader" where
  "reader_reset r = r\<lparr> fr_buffer := [] \<rparr>"

text \<open>The chunks of a TCP stream in arrival order.\<close>

fun push_all :: "frame_reader \<Rightarrow> buffer list \<Rightarrow> frame_reader \<times> frame_read_result list" where
  "push_all r [] = (r, [])"
| "push_all r (c # cs) =
     (let (r', res) = push r c; (r'', ress) = push_all r' cs in (r'', res # ress))"


section \<open>One turn, by the shape of the buffer\<close>

text \<open>Counters and buffer updates on one name: \<open>at r d j b\<close> has buffer \<open>b\<close>, \<open>d\<close> more octets
  discarded and \<open>j\<close> more headers rejected than \<open>r\<close>.\<close>

definition at :: "frame_reader \<Rightarrow> nat \<Rightarrow> nat \<Rightarrow> buffer \<Rightarrow> frame_reader" where
  "at r d j b = r\<lparr> fr_buffer := b, fr_discarded := fr_discarded r + d,
     fr_rejectedHeaders := fr_rejectedHeaders r + j \<rparr>"

lemma at_simps [simp]:
  "fr_buffer (at r d j b) = b"
  "fr_maxBufferBytes (at r d j b) = fr_maxBufferBytes r"
  "at (at r d j b) d' j' b' = at r (d + d') (j + j') b'"
  by (simp_all add: at_def)

lemma at_0 [simp]: "at r 0 0 (fr_buffer r) = r"
  by (simp add: at_def)

text \<open>No frame can start at the first octet of \<open>b\<close>, nor with octets that are still to come.\<close>

definition no_start :: "buffer \<Rightarrow> bool" where
  "no_start b \<longleftrightarrow> (case b of [] \<Rightarrow> False | [x] \<Rightarrow> x \<noteq> 0x05 | x # y # _ \<Rightarrow> \<not> (x = 0x05 \<and> y = 0x64))"

lemma no_start_append: "no_start b \<Longrightarrow> no_start (b @ c)"
  by (auto simp: no_start_def split: list.splits)

lemma not_no_start:
  assumes "\<not> no_start b"
  obtains "b = []" | "b = [0x05]" | t where "b = 0x05 # 0x64 # t"
  using assms by (auto simp: no_start_def split: list.splits)

lemma drain_turn_skip:
  assumes "no_start (x # b)"
  shows "drain_turn (at r d j (x # b)) = drain_turn (at r (d + 1) j b)"
proof -
  consider "b = []" | y where "b = [y]" | y z t where "b = y # z # t"
    by (metis list.exhaust)
  then show ?thesis
  proof cases
    case 3
    then have "index_of_start (x # b) = map_option Suc (index_of_start b)"
      using assms by (auto simp: no_start_def)
    then show ?thesis
      by (cases "index_of_start b") (auto simp: drain_turn_def at_def 3 Let_def)
  qed (use assms in \<open>auto simp: drain_turn_def at_def no_start_def Let_def\<close>)
qed

lemma drain_skip:
  "no_start (x # b) \<Longrightarrow> drain (at r d j (x # b)) = drain (at r (d + 1) j b)"
  by (subst (1 2) drain.simps) (simp add: drain_turn_skip)

text \<open>The length of the frame whose header starts the buffer, if the header is acceptable.\<close>

definition frame_length :: "buffer \<Rightarrow> nat option" where
  "frame_length b = (case parseLinkHeader (take 10 b) of None \<Rightarrow> None
     | Some h \<Rightarrow> if lh_length h < 5 then None
               else Some (10 + (lh_length h - 5) + 2 * ceil_div (lh_length h - 5) 16))"

lemma drain_started:
  assumes "b = 0x05 # 0x64 # t"
  shows "drain (at r d j b) =
    (if length b < 10 then (at r d j b, [])
     else case frame_length b of
            None \<Rightarrow> drain (at r (d + 2) (j + 1) (drop 2 b))
          | Some n \<Rightarrow> if length b < n then (at r d j b, [])
                     else let (r', fs) = drain (at r d j (drop n b)) in (r', take n b # fs))"
proof -
  have "drain_turn (at r d j b) =
    (if length b < 10 then Stop (at r d j b)
     else case frame_length b of
            None \<Rightarrow> Again (at r (d + 2) (j + 1) (drop 2 b)) None
          | Some n \<Rightarrow> if length b < n then Stop (at r d j b)
                     else Again (at r d j (drop n b)) (Some (take n b)))"
    by (auto simp: drain_turn_def assms frame_length_def Let_def DNP3_LINK_HEADER_BYTES_def
        DNP3_BLOCK_SIZE_def subarray_def mult.commute at_def split: option.splits)
  then show ?thesis
    by (subst drain.simps) (auto split: option.splits)
qed

lemma drain_short [simp]: "drain (at r d j []) = (at r d j [], [])" "drain (at r d j [5]) = (at r d j [5], [])"
  by (subst drain.simps; simp add: drain_turn_def)+

lemma frame_length_append: "10 \<le> length b \<Longrightarrow> frame_length (b @ c) = frame_length b"
  by (simp add: frame_length_def)

lemma frame_length_bounds: "frame_length b = Some n \<Longrightarrow> 10 \<le> n \<and> n \<le> 292"
proof -
  assume "frame_length b = Some n"
  then obtain h where h: "parseLinkHeader (take 10 b) = Some h"
    and n: "n = 10 + (lh_length h - 5) + 2 * ceil_div (lh_length h - 5) 16"
    by (auto simp: frame_length_def split: option.splits if_splits)
  have "lh_length h \<le> 255"
    using h by (auto simp: parseLinkHeader_def Let_def split: if_splits)
  then have "15 + (lh_length h - 5) \<le> 265" by simp
  then have "(15 + (lh_length h - 5)) div 16 \<le> 265 div 16" by (rule div_le_mono)
  with n \<open>lh_length h \<le> 255\<close> show ?thesis by (simp add: ceil_div_def)
qed


section \<open>Draining is independent of the cuts\<close>

lemma drain_append:
  "drain (at r d j (b @ c)) =
     (let (r1, f1) = drain (at r d j b); (r2, f2) = drain (at r1 0 0 (fr_buffer r1 @ c))
      in (r2, f1 @ f2))"
proof (induction "length b" arbitrary: b d j rule: less_induct)
  case less
  show ?case
  proof (cases "no_start b")
    case True
    then obtain x t where b: "b = x # t" by (cases b) (auto simp: no_start_def)
    have "no_start (x # (t @ c))" using no_start_append [OF True, of c] by (simp add: b)
    then show ?thesis
      using True less [of t "d + 1" j] by (simp add: b drain_skip)
  next
    case False
    then show ?thesis
    proof (cases rule: not_no_start)
      case (3 t)
      then have bc: "b @ c = 0x05 # 0x64 # (t @ c)" by simp
      show ?thesis
      proof (cases "length b < 10")
        case True
        then show ?thesis by (simp add: drain_started [OF 3])
      next
        case long: False
        note st = drain_started [OF 3, of r d j] drain_started [OF bc, of r d j]
        show ?thesis
        proof (cases "frame_length b")
          case None
          then show ?thesis
            using long st less [of "drop 2 b" "d + 2" "j + 1"] by (simp add: frame_length_append)
        next
          case (Some n)
          then show ?thesis
            using long st less [of "drop n b" d j] frame_length_bounds [OF Some]
            by (auto simp: frame_length_append split_def Let_def)
        qed
      qed
    qed simp_all
  qed
qed


lemma drain_idem: "drain (fst (drain r)) = (fst (drain r), [])"
proof -
  obtain r1 f1 where d: "drain r = (r1, f1)" by (cases "drain r")
  have "drain (at r 0 0 (fr_buffer r @ [])) = (let (r2, f2) = drain r1 in (r2, f1 @ f2))"
    using drain_append [of r 0 0 "fr_buffer r" "[]"] d by simp
  with d show ?thesis by (auto split: prod.splits)
qed

lemma drain_keeps_little: "length (fr_buffer (fst (drain (at r d j b)))) < 292"
proof (induction "length b" arbitrary: b d j rule: less_induct)
  case less
  show ?case
  proof (cases "no_start b")
    case True
    then obtain x t where "b = x # t" by (cases b) (auto simp: no_start_def)
    with True less show ?thesis by (simp add: drain_skip)
  next
    case False
    then show ?thesis
    proof (cases rule: not_no_start)
      case (3 t)
      show ?thesis
      proof (cases "frame_length b")
        case None
        then show ?thesis using less [of "drop 2 b"] by (simp add: drain_started [OF 3])
      next
        case (Some n)
        then show ?thesis using less [of "drop n b"] frame_length_bounds [OF Some]
          by (auto simp: drain_started [OF 3] split_def Let_def)
      qed
    qed simp_all
  qed
qed

lemma drain_max [simp]: "fr_maxBufferBytes (fst (drain r)) = fr_maxBufferBytes r"
proof (induction r rule: drain.induct)
  case (1 r)
  have t: "drain_turn r = Stop r' \<Longrightarrow> fr_maxBufferBytes r' = fr_maxBufferBytes r"
    "drain_turn r = Again r' f \<Longrightarrow> fr_maxBufferBytes r' = fr_maxBufferBytes r" for r' f
    by (auto simp: drain_turn_def Let_def split: if_splits option.splits)
  show ?case
    using 1 t by (subst drain.simps) (auto simp: split_def Let_def split: drain_outcome.splits)
qed

text \<open>A stream read in small enough pieces is drained as if it had arrived at once.\<close>

lemma push_all_drain:
  assumes "drain r = (r, [])" "length (fr_buffer r) < 292"
    and "\<forall>c \<in> set cs. length c + 291 \<le> fr_maxBufferBytes r"
  shows "fst (push_all r cs) = fst (drain (at r 0 0 (fr_buffer r @ concat cs)))
    \<and> concat (map frr_frames (snd (push_all r cs))) = snd (drain (at r 0 0 (fr_buffer r @ concat cs)))
    \<and> list_all (\<lambda>res. \<not> frr_overflow res) (snd (push_all r cs))"
  using assms
proof (induction cs arbitrary: r)
  case (Cons c cs)
  obtain r1 f1 where d: "drain (at r 0 0 (fr_buffer r @ c)) = (r1, f1)"
    by (cases "drain (at r 0 0 (fr_buffer r @ c))")
  have p: "push r c = (r1, \<lparr> frr_frames = f1, frr_overflow = False \<rparr>)"
    using Cons.prems d by (auto simp: push_def at_def)
  have r1: "drain r1 = (r1, [])" "length (fr_buffer r1) < 292"
    "fr_maxBufferBytes r1 = fr_maxBufferBytes r"
    using d drain_idem [of "at r 0 0 (fr_buffer r @ c)"]
      drain_keeps_little [of r 0 0 "fr_buffer r @ c"] drain_max [of "at r 0 0 (fr_buffer r @ c)"]
    by auto
  have "drain (at r 0 0 (fr_buffer r @ c @ concat cs)) =
      (let (r2, f2) = drain (at r1 0 0 (fr_buffer r1 @ concat cs)) in (r2, f1 @ f2))"
    using drain_append [of r 0 0 "fr_buffer r @ c" "concat cs"] d by simp
  with Cons.IH [of r1] r1 Cons.prems p show ?case by (auto simp: split_def Let_def)
qed simp


section \<open>A stream of frames\<close>

definition is_link_frame :: "buffer \<Rightarrow> bool" where
  "is_link_frame f \<longleftrightarrow> (\<exists>control destination source payload.
     buildLinkFrame control destination source payload = Inr f)"

lemma is_link_frame_length:
  assumes "is_link_frame f"
  obtains t where "f = 0x05 # 0x64 # t" "frame_length f = Some (length f)" "10 \<le> length f"
proof -
  obtain control destination source payload
    where f: "buildLinkFrame control destination source payload = Inr f"
    using assms by (auto simp: is_link_frame_def)
  define header where "header = [0x05, 0x64, of_nat (5 + length payload), of_nat control]
     @ writeUInt16LE (destination mod 65536) @ writeUInt16LE (source mod 65536)"
  have frame: "f = appendCrc header @ concat (payload_blocks payload 0)"
    and len: "5 + length payload < 256"
    using f by (auto simp: buildLinkFrame_def Let_def header_def split: if_splits)
  have "take 10 f = appendCrc header @ []" by (simp add: frame header_def)
  moreover obtain h where "parseLinkHeader (appendCrc header @ []) = Some h"
    "lh_length h = 5 + length payload"
    using parseLinkHeader_build [OF header_def len, of "[]"] by metis
  ultimately have "frame_length f = Some (10 + length payload + 2 * ceil_div (length payload) 16)"
    by (simp add: frame_length_def)
  moreover obtain t where "f = 0x05 # 0x64 # t" by (simp add: frame appendCrc_def header_def)
  ultimately show ?thesis
    using that [of t] length_buildLinkFrame [OF f] by (metis add.assoc le_add1)
qed

lemma drain_frames:
  "list_all is_link_frame frames \<Longrightarrow> drain (at r d j (concat frames)) = (at r d j [], frames)"
proof (induction frames)
  case (Cons f frames)
  then obtain t where f: "f = 0x05 # 0x64 # t" and l: "frame_length f = Some (length f)" "10 \<le> length f"
    using is_link_frame_length by auto
  from f have "f @ concat frames = 0x05 # 0x64 # (t @ concat frames)" by simp
  from drain_started [OF this, of r d j] Cons l show ?case
    by (simp add: frame_length_append)
qed simp


section \<open>Properties\<close>

text \<open>However TCP cuts the octets of a sequence of link frames, in pieces of any sizes that stay
  291 octets below the receive bound, the reader reports no overflow, delivers exactly those frames
  in order, and ends with an empty buffer and nothing discarded or rejected.\<close>

theorem stream_of_frames_delivered:
  assumes "new_reader bound = Inr r" "list_all is_link_frame frames" "concat cs = concat frames"
    and "\<forall>c \<in> set cs. length c + 291 \<le> bound"
  shows "fst (push_all r cs) = r
    \<and> concat (map frr_frames (snd (push_all r cs))) = frames
    \<and> list_all (\<lambda>res. \<not> frr_overflow res) (snd (push_all r cs))"
proof -
  have r: "at r 0 0 [] = r" "fr_maxBufferBytes r = bound" "fr_buffer r = []"
    using assms(1) by (auto simp: new_reader_def at_def split: if_splits)
  have "drain r = (r, [])" using drain_short(1) [of r 0 0] r(1) by simp
  from push_all_drain [OF this] r assms(4) drain_frames [OF assms(2), of r 0 0] show ?thesis
    by (simp add: assms(3))
qed

theorem stream_of_frames_delivered_witness:
  "\<exists>r f. new_reader 8192 = Inr r \<and> buildLinkFrame 0xC4 10 1 [0xC0, 0xC1, 0x01] = Inr f
     \<and> concat (map frr_frames (snd (push_all r [take 4 f, drop 4 f @ take 1 f, drop 1 f]))) = [f, f]"
proof -
  obtain r where r: "new_reader 8192 = Inr r"
    by (simp add: new_reader_def DNP3_MAX_LINK_FRAME_BYTES_def DNP3_LINK_HEADER_BYTES_def
        DNP3_BLOCK_SIZE_def ceil_div_def)
  obtain f where f: "buildLinkFrame 0xC4 10 1 [0xC0, 0xC1, 0x01] = Inr f"
    by (simp add: buildLinkFrame_def Let_def)
  let ?cs = "[take 4 f, drop 4 f @ take 1 f, drop 1 f]"
  have l: "length f = 15" using length_buildLinkFrame [OF f] by (simp add: ceil_div_def)
  have fs: "list_all is_link_frame [f, f]" using f by (auto simp: is_link_frame_def)
  have cs: "concat ?cs = concat [f, f]" "\<forall>c \<in> set ?cs. length c + 291 \<le> 8192"
    using l by auto
  from stream_of_frames_delivered [OF r fs cs] r f show ?thesis by blast
qed

text \<open>The frames that the reader finds, and its final buffer and counters, do not depend on where the
  stream is cut: draining after a first part and then after the rest equals draining everything at
  once, for arbitrary octets, including garbage and damaged headers.\<close>

theorem drain_cut_independent:
  "drain (r\<lparr> fr_buffer := b @ c \<rparr>) =
     (let (r1, f1) = drain (r\<lparr> fr_buffer := b \<rparr>);
          (r2, f2) = drain (r1\<lparr> fr_buffer := fr_buffer r1 @ c \<rparr>)
      in (r2, f1 @ f2))"
  using drain_append [of r 0 0 b c] by (simp add: at_def)

text \<open>For arbitrary input, after every \<open>push\<close> the reader holds fewer octets than one maximal link
  frame (292), so no peer can make it accumulate more.\<close>

theorem push_bounded: "length (fr_buffer (fst (push r chunk))) < DNP3_MAX_LINK_FRAME_BYTES"
  using drain_keeps_little [of r 0 0 "fr_buffer r @ chunk"]
  by (auto simp: push_def at_def DNP3_MAX_LINK_FRAME_BYTES_def DNP3_LINK_HEADER_BYTES_def
      DNP3_BLOCK_SIZE_def ceil_div_def split_def Let_def)

end
