(* ===== verification/Peer_Allowlist.thy ===== *)
theory Peer_Allowlist
  imports Prelude "HOL-Library.Char_ord"
begin

text \<open>
  The peer allowlist in front of the unauthenticated TCP listeners (\<open>protocols/peer-allowlist.ts\<close>): parsing
  of IPv4 and IPv6 literals and CIDR rules, the refusal of rules that together admit everybody, and the
  admission test.

  A string is a list of characters. \<open>isIPv4\<close> and \<open>isIPv6\<close> are Node's \<open>net.isIPv4\<close> and \<open>net.isIPv6\<close>, restricted
  to literals without a zone, which the code strips first. A thrown \<open>PeerRuleError\<close> is a left value.
\<close>

section \<open>Strings\<close>

definition is_space :: "char \<Rightarrow> bool" where
  "is_space c = (let n = (of_char c :: nat) in n = 32 \<or> (9 \<le> n \<and> n \<le> 13) \<or> n = 160)"

definition trim :: "string \<Rightarrow> string" where
  "trim s = rev (dropWhile is_space (rev (dropWhile is_space s)))"

definition is_digit :: "char \<Rightarrow> bool" where
  "is_digit c = (let n = (of_char c :: nat) in 48 \<le> n \<and> n \<le> 57)"

definition digit_value :: "char \<Rightarrow> nat" where
  "digit_value c = of_char c - 48"

definition hex_value :: "char \<Rightarrow> nat option" where
  "hex_value c =
     (let n = (of_char c :: nat)
      in if 48 \<le> n \<and> n \<le> 57 then Some (n - 48)
         else if 97 \<le> n \<and> n \<le> 102 then Some (n - 87)
         else if 65 \<le> n \<and> n \<le> 70 then Some (n - 55)
         else None)"

definition decimal :: "string \<Rightarrow> nat" where
  "decimal s = fold (\<lambda>c v. 10 * v + digit_value c) s 0"

text \<open>\<open>parseInt(s, 16)\<close> reads the longest prefix of hexadecimal digits; no digit at all is \<open>NaN\<close>.\<close>

definition hexadecimal :: "string \<Rightarrow> nat" where
  "hexadecimal s = fold (\<lambda>c v. 16 * v + the (hex_value c)) (takeWhile (\<lambda>c. hex_value c \<noteq> None) s) 0"

text \<open>\<open>s.indexOf("::")\<close> with the text before and after it.\<close>

fun cut_double_colon :: "string \<Rightarrow> (string \<times> string) option" where
  "cut_double_colon (x # y # r) =
     (if x = CHR '':'' \<and> y = CHR '':'' then Some ([], r)
      else map_option (\<lambda>(h, t). (x # h, t)) (cut_double_colon (y # r)))"
| "cut_double_colon _ = None"

text \<open>The text before and after the last slash.\<close>

definition cut_last_slash :: "string \<Rightarrow> string \<times> string option" where
  "cut_last_slash s =
     (if CHR ''/'' \<in> set s
      then (rev (tl (dropWhile (\<lambda>c. c \<noteq> CHR ''/'') (rev s))),
            Some (rev (takeWhile (\<lambda>c. c \<noteq> CHR ''/'') (rev s))))
      else (s, None))"

section \<open>Node's address tests\<close>

text \<open>A decimal octet: no leading zero, at most 255.\<close>

definition v4_segment :: "string \<Rightarrow> bool" where
  "v4_segment s \<longleftrightarrow> 0 < length s \<and> length s \<le> 3 \<and> list_all is_digit s
     \<and> (1 < length s \<longrightarrow> hd s \<noteq> CHR ''0'') \<and> decimal s \<le> 255"

definition isIPv4 :: "string \<Rightarrow> bool" where
  "isIPv4 s \<longleftrightarrow> length (split_on CHR ''.'' s) = 4 \<and> list_all v4_segment (split_on CHR ''.'' s)"

definition v6_segment :: "string \<Rightarrow> bool" where
  "v6_segment s \<longleftrightarrow> 0 < length s \<and> length s \<le> 4 \<and> list_all (\<lambda>c. hex_value c \<noteq> None) s"

text \<open>The groups between colons; none in an empty text.\<close>

definition groups_of :: "string \<Rightarrow> string list" where
  "groups_of s = (if s = [] then [] else split_on CHR '':'' s)"

text \<open>Groups of hexadecimal digits, where the last may be an IPv4 literal; the number of 16-bit words.\<close>

definition v6_words :: "bool \<Rightarrow> string list \<Rightarrow> nat option" where
  "v6_words v4 gs =
     (if list_all v6_segment gs then Some (length gs)
      else if v4 \<and> gs \<noteq> [] \<and> list_all v6_segment (butlast gs) \<and> isIPv4 (last gs) then Some (length gs + 1)
      else None)"

definition isIPv6 :: "string \<Rightarrow> bool" where
  "isIPv6 s =
     (case cut_double_colon s of
        None \<Rightarrow> v6_words True (split_on CHR '':'' s) = Some 8
      | Some (h, t) \<Rightarrow>
          (case (v6_words False (groups_of h), v6_words True (groups_of t)) of
             (Some m, Some n) \<Rightarrow> m + n \<le> 7
           | _ \<Rightarrow> False))"

section \<open>Addresses\<close>

datatype ip_family = Family4 | Family6

record normalized_address =
  family :: ip_family
  addr_bytes :: buffer

record peer_rule = normalized_address +
  prefix_len :: nat
  source :: string

datatype peer_rule_error = EmptyEntry | InvalidAddress | NonNumericPrefix | MappedPrefixTooShort
  | PrefixTooLong | AllowsEveryPeer | TogetherAllowEveryPeer ip_family

definition ipv4ToBytes :: "string \<Rightarrow> buffer option" where
  "ipv4ToBytes addr =
     (if \<not> isIPv4 addr then None
      else Some (map (\<lambda>p. of_nat (decimal p)) (split_on CHR ''.'' addr)))"

text \<open>\<open>expand\<close>: a group with a dot is an embedded IPv4 literal of two words.\<close>

primrec expand :: "string list \<Rightarrow> nat list option" where
  "expand [] = Some []"
| "expand (g # gs) =
     (if CHR ''.'' \<in> set g then
        (case ipv4ToBytes g of
           None \<Rightarrow> None
         | Some v4 \<Rightarrow>
             map_option (\<lambda>ws. (256 * unat (v4 ! 0) + unat (v4 ! 1)) # (256 * unat (v4 ! 2) + unat (v4 ! 3)) # ws)
               (expand gs))
      else if g = [] \<or> hex_value (hd g) = None \<or> hexadecimal g > 0xffff then None
      else map_option (Cons (hexadecimal g)) (expand gs))"

definition ipv6ToBytes :: "string \<Rightarrow> buffer option" where
  "ipv6ToBytes addr =
     (if \<not> isIPv6 addr then None
      else (let (hd_groups, tl_groups) =
                  (case cut_double_colon addr of
                     Some (h, t) \<Rightarrow> (filter (\<lambda>g. g \<noteq> []) (split_on CHR '':'' h), filter (\<lambda>g. g \<noteq> []) (split_on CHR '':'' t))
                   | None \<Rightarrow> (split_on CHR '':'' addr, []))
            in case (expand hd_groups, expand tl_groups) of
                 (Some headWords, Some tailWords) \<Rightarrow>
                   if length headWords + length tailWords > 8 then None
                   else if cut_double_colon addr = None \<and> length headWords + length tailWords \<noteq> 8 then None
                   else (let ws = headWords @ replicate (8 - length headWords - length tailWords) 0 @ tailWords
                         in Some (concat (map (\<lambda>w. [of_nat (w div 256), of_nat w]) ws)))
               | _ \<Rightarrow> None))"

definition isV4Mapped :: "buffer \<Rightarrow> bool" where
  "isV4Mapped bs \<longleftrightarrow> length bs = 16 \<and> take 10 bs = replicate 10 0 \<and> bs ! 10 = 0xff \<and> bs ! 11 = 0xff"

definition strip_zone :: "string \<Rightarrow> string" where
  "strip_zone s = trim (takeWhile (\<lambda>c. c \<noteq> CHR ''%'') s)"

definition normalizeAddress :: "string \<Rightarrow> normalized_address option" where
  "normalizeAddress input =
     (let addr = strip_zone input
      in if addr = [] then None
         else (case ipv4ToBytes addr of
                 Some v4 \<Rightarrow> Some \<lparr> family = Family4, addr_bytes = v4 \<rparr>
               | None \<Rightarrow>
                   (case ipv6ToBytes addr of
                      None \<Rightarrow> None
                    | Some v6 \<Rightarrow>
                        if isV4Mapped v6 then Some \<lparr> family = Family4, addr_bytes = drop 12 v6 \<rparr>
                        else Some \<lparr> family = Family6, addr_bytes = v6 \<rparr>)))"

section \<open>Rules\<close>

definition family_bits :: "ip_family \<Rightarrow> nat" where
  "family_bits f = (if f = Family4 then 32 else 128)"

text \<open>The prefix length of a rule: given, rebased for a mapped address, or the whole address.\<close>

definition rule_prefix :: "string \<Rightarrow> ip_family \<Rightarrow> string option \<Rightarrow> peer_rule_error + nat" where
  "rule_prefix addrPart f prefixPart =
     (case prefixPart of
        None \<Rightarrow> Inr (family_bits f)
      | Some digits \<Rightarrow>
          if \<not> (0 < length digits \<and> length digits \<le> 3 \<and> list_all is_digit digits) then Inl NonNumericPrefix
          else (let p = decimal digits
                in if f = Family4 \<and> isIPv6 (strip_zone addrPart) then
                     (if p < 96 then Inl MappedPrefixTooShort
                      else if p - 96 > family_bits f then Inl PrefixTooLong
                      else Inr (p - 96))
                   else if p > family_bits f then Inl PrefixTooLong
                   else Inr p))"

definition parsePeerRule :: "string \<Rightarrow> peer_rule_error + peer_rule" where
  "parsePeerRule entry =
     (let src = trim entry
      in if src = [] then Inl EmptyEntry
         else (case cut_last_slash src of
                 (addrPart, prefixPart) \<Rightarrow>
                   (case normalizeAddress addrPart of
                      None \<Rightarrow> Inl InvalidAddress
                    | Some n \<Rightarrow>
                        (case rule_prefix addrPart (family n) prefixPart of
                           Inl e \<Rightarrow> Inl e
                         | Inr p \<Rightarrow>
                             if p = 0 then Inl AllowsEveryPeer
                             else Inr \<lparr> family = family n, addr_bytes = addr_bytes n, prefix_len = p, source = src \<rparr>))))"

definition toBigInt :: "buffer \<Rightarrow> int" where
  "toBigInt bs = fold (\<lambda>b v. push_bit 8 v OR uint b) bs 0"

definition rule_range :: "nat \<Rightarrow> peer_rule \<Rightarrow> int \<times> int" where
  "rule_range bits r =
     (let size = push_bit (bits - prefix_len r) 1;
          s = toBigInt (addr_bytes r) AND NOT (size - 1)
      in (s, s + size - 1))"

text \<open>The loop over the sorted ranges; \<open>None\<close> is the early \<open>return false\<close>.\<close>

primrec extend_cover :: "int \<Rightarrow> (int \<times> int) list \<Rightarrow> int option" where
  "extend_cover covered [] = Some covered"
| "extend_cover covered (r # rs) =
     (if fst r > covered + 1 then None
      else extend_cover (if snd r > covered then snd r else covered) rs)"

definition coversWholeFamily :: "peer_rule list \<Rightarrow> ip_family \<Rightarrow> bool" where
  "coversWholeFamily rules f =
     (let bits = family_bits f;
          ranges = sort_key fst (map (rule_range bits) (filter (\<lambda>r. family r = f) rules))
      in (case ranges of
            [] \<Rightarrow> False
          | r # rs \<Rightarrow>
              if fst r \<noteq> 0 then False
              else extend_cover (snd r) rs = Some (2 ^ bits - 1)))"

primrec parse_rules :: "string list \<Rightarrow> peer_rule_error + peer_rule list" where
  "parse_rules [] = Inr []"
| "parse_rules (e # es) =
     (case parsePeerRule e of
        Inl x \<Rightarrow> Inl x
      | Inr r \<Rightarrow> (case parse_rules es of Inl x \<Rightarrow> Inl x | Inr rs \<Rightarrow> Inr (r # rs)))"

definition parsePeerRules :: "string list \<Rightarrow> peer_rule_error + peer_rule list" where
  "parsePeerRules entries =
     (case parse_rules entries of
        Inl x \<Rightarrow> Inl x
      | Inr rules \<Rightarrow>
          if coversWholeFamily rules Family4 then Inl (TogetherAllowEveryPeer Family4)
          else if coversWholeFamily rules Family6 then Inl (TogetherAllowEveryPeer Family6)
          else Inr rules)"

definition matches :: "normalized_address \<Rightarrow> peer_rule \<Rightarrow> bool" where
  "matches addr rule =
     (if family addr \<noteq> family rule then False
      else (let fullBytes = prefix_len rule div 8; remainingBits = prefix_len rule mod 8
            in if take fullBytes (addr_bytes addr) \<noteq> take fullBytes (addr_bytes rule) then False
               else if remainingBits = 0 then True
               else (addr_bytes addr ! fullBytes XOR addr_bytes rule ! fullBytes)
                      AND push_bit (8 - remainingBits) 0xff = 0))"

definition isPeerAllowed :: "string option \<Rightarrow> peer_rule list \<Rightarrow> bool" where
  "isPeerAllowed remoteAddress rules =
     (case remoteAddress of
        None \<Rightarrow> False
      | Some a \<Rightarrow>
          if a = [] \<or> rules = [] then False
          else (case normalizeAddress a of
                  None \<Rightarrow> False
                | Some addr \<Rightarrow> list_ex (matches addr) rules))"

definition LOOPBACK_PEER_RULES :: "string list" where
  "LOOPBACK_PEER_RULES = [''127.0.0.0/8'', ''::1/128'']"

definition isLoopbackHost :: "string \<Rightarrow> bool" where
  "isLoopbackHost host =
     (if host = ''localhost'' then True
      else (case normalizeAddress host of
              None \<Rightarrow> False
            | Some addr \<Rightarrow>
                if family addr = Family4 then addr_bytes addr ! 0 = 127
                else addr_bytes addr = replicate 15 0 @ [1]))"


section \<open>A rule is a range of addresses\<close>

text \<open>The number that an address is in network byte order.\<close>

definition be_val :: "buffer \<Rightarrow> nat" where
  "be_val bs = le_val (rev bs)"

lemma le_val_append: "le_val (xs @ ys) = le_val xs + 256 ^ length xs * le_val ys"
  by (induction xs) (simp_all add: algebra_simps)

lemma be_val_append: "be_val (xs @ ys) = be_val xs * 256 ^ length ys + be_val ys"
  by (simp add: be_val_def le_val_append)

lemma be_val_simps [simp]: "be_val [] = 0" "be_val (b # bs) = unat b * 256 ^ length bs + be_val bs"
  by (simp_all add: be_val_def le_val_append)

lemma be_val_lt: "be_val bs < 256 ^ length bs"
  unfolding be_val_def using le_val_lt [of "rev bs"] by simp

lemma be_val_inject: "length as = length bs \<Longrightarrow> be_val as = be_val bs \<longleftrightarrow> as = bs"
  using le_val_eq_iff [of "rev as" "rev bs"] by (simp add: be_val_def)

lemma be_val_surj: "v < 256 ^ n \<Longrightarrow> \<exists>bs. length bs = n \<and> be_val bs = v"
  by (rule exI [of _ "rev (le_bytes n v)"]) (simp add: be_val_def le_val_le_bytes)

lemma shift_in_octet: "0 \<le> v \<Longrightarrow> push_bit 8 v OR uint (b :: byte) = 256 * v + uint b"
proof -
  have "push_bit 8 v AND uint b = 0"
    by (rule bit_eqI) (auto simp: bit_simps bit_uint_iff dest: bit_imp_le_length)
  then have "push_bit 8 v + uint b = push_bit 8 v OR uint b" by (rule disjunctive_add_eq_or)
  then show ?thesis by (simp add: push_bit_eq_mult)
qed

lemma toBigInt_eq: "toBigInt bs = int (be_val bs)"
proof -
  have "0 \<le> v \<Longrightarrow> fold (\<lambda>b v. push_bit 8 v OR uint b) bs v = v * 256 ^ length bs + int (be_val bs)" for v
    by (induction bs arbitrary: v) (simp_all add: shift_in_octet algebra_simps)
  then show ?thesis by (simp add: toBigInt_def)
qed

lemma clear_low_bits: "x AND NOT (2 ^ n - 1) = 2 ^ n * (x div 2 ^ n)" for x :: int
proof -
  have "x AND NOT (mask n) = push_bit n (drop_bit n x)" by (rule bit_eqI) (auto simp: bit_simps)
  then show ?thesis by (simp add: mask_eq_exp_minus_1 push_bit_eq_mult drop_bit_eq_div mult.commute)
qed

lemma in_block: "2 ^ n * q \<le> x \<and> x \<le> 2 ^ n * q + 2 ^ n - 1 \<longleftrightarrow> x div 2 ^ n = q" for x q :: int
proof
  assume "2 ^ n * q \<le> x \<and> x \<le> 2 ^ n * q + 2 ^ n - 1"
  then show "x div 2 ^ n = q" by (intro int_div_pos_eq [of x "2 ^ n" q "x - 2 ^ n * q"]) auto
next
  assume "x div 2 ^ n = q"
  then have "x = 2 ^ n * q + x mod 2 ^ n" by (metis mult_div_mod_eq)
  moreover have "0 \<le> x mod 2 ^ n" "x mod 2 ^ n < 2 ^ n" by simp_all
  ultimately show "2 ^ n * q \<le> x \<and> x \<le> 2 ^ n * q + 2 ^ n - 1" by linarith
qed

lemma rule_range_iff:
  assumes "prefix_len r \<le> bits"
  shows "fst (rule_range bits r) \<le> int x \<and> int x \<le> snd (rule_range bits r)
    \<longleftrightarrow> x div 2 ^ (bits - prefix_len r) = be_val (addr_bytes r) div 2 ^ (bits - prefix_len r)"
proof -
  let ?n = "bits - prefix_len r"
  have "rule_range bits r = (2 ^ ?n * (int (be_val (addr_bytes r)) div 2 ^ ?n),
      2 ^ ?n * (int (be_val (addr_bytes r)) div 2 ^ ?n) + 2 ^ ?n - 1)"
    by (simp add: rule_range_def Let_def push_bit_eq_mult clear_low_bits toBigInt_eq)
  then have "fst (rule_range bits r) \<le> int x \<and> int x \<le> snd (rule_range bits r)
      \<longleftrightarrow> int x div 2 ^ ?n = int (be_val (addr_bytes r)) div 2 ^ ?n"
    using in_block [of ?n "int (be_val (addr_bytes r)) div 2 ^ ?n" "int x"] by simp
  also have "\<dots> \<longleftrightarrow> int (x div 2 ^ ?n) = int (be_val (addr_bytes r) div 2 ^ ?n)"
    by (simp only: zdiv_int of_nat_power of_nat_numeral)
  finally show ?thesis by (simp only: of_nat_eq_iff)
qed

lemma masked_octets_agree:
  "m \<le> 8 \<Longrightarrow> ((x :: byte) XOR y) AND push_bit m 0xff = 0 \<longleftrightarrow> unat x div 2 ^ m = unat y div 2 ^ m"
proof -
  assume "m \<le> 8"
  have "(0xff :: byte) = - 1" by simp
  then have "(x XOR y) AND push_bit m 0xff = 0 \<longleftrightarrow> (x XOR y) AND push_bit m (- 1) = 0" by (simp only:)
  also have "\<dots> \<longleftrightarrow> drop_bit m x = drop_bit m y"
  proof
    assume A: "(x XOR y) AND push_bit m (- 1) = 0"
    show "drop_bit m x = drop_bit m y"
    proof (rule bit_word_eqI)
      fix n assume "n < LENGTH(8)"
      have "\<not> bit ((x XOR y) AND push_bit m (- 1)) (m + n)" unfolding A by simp
      then show "bit (drop_bit m x) n = bit (drop_bit m y) n"
        by (auto simp: bit_simps dest: bit_imp_le_length)
    qed
  next
    assume D: "drop_bit m x = drop_bit m y"
    show "(x XOR y) AND push_bit m (- 1) = 0"
    proof (rule bit_word_eqI)
      fix n assume "n < LENGTH(8)"
      have "bit (drop_bit m x) (n - m) = bit (drop_bit m y) (n - m)" by (simp add: D)
      then show "bit ((x XOR y) AND push_bit m (- 1)) n = bit 0 n" by (auto simp: bit_simps)
    qed
  qed
  also have "\<dots> \<longleftrightarrow> unat (drop_bit m x) = unat (drop_bit m y)" by (simp add: word_eq_iff_unsigned)
  also have "\<dots> \<longleftrightarrow> unat x div 2 ^ m = unat y div 2 ^ m" unfolding unat_drop_bit_eq by (simp only: drop_bit_eq_div)
  finally show ?thesis .
qed


lemma byte_prefix_div:
  assumes "length as = n" "k \<le> n"
  shows "be_val as div 256 ^ (n - k) = be_val (take k as)"
proof -
  have "be_val as = be_val (take k as) * 256 ^ (n - k) + be_val (drop k as)"
    using be_val_append [of "take k as" "drop k as"] assms by simp
  moreover have "be_val (drop k as) < 256 ^ (n - k)" using be_val_lt [of "drop k as"] assms by simp
  ultimately show ?thesis by simp
qed

lemma bit_prefix_div:
  assumes "length as = n" "k < n" "0 < r" "r < 8"
  shows "be_val as div 2 ^ (8 * (n - k) - r) = be_val (take k as) * 2 ^ r + unat (as ! k) div 2 ^ (8 - r)"
proof -
  have "8 * (n - k) - r = 8 * (n - Suc k) + (8 - r)" using assms by auto
  then have "(2 :: nat) ^ (8 * (n - k) - r) = 256 ^ (n - Suc k) * 2 ^ (8 - r)"
    by (simp add: power_add power_mult)
  then have "be_val as div 2 ^ (8 * (n - k) - r) = be_val (take (Suc k) as) div 2 ^ (8 - r)"
    using byte_prefix_div [OF assms(1), of "Suc k"] assms(2) by (simp add: div_mult2_eq)
  also have "be_val (take (Suc k) as) = be_val (take k as) * 256 + unat (as ! k)"
    using assms by (simp add: take_Suc_conv_app_nth be_val_append)
  also have "(256 :: nat) = 2 ^ r * 2 ^ (8 - r)" using assms by (simp add: power_add [symmetric])
  also have "(be_val (take k as) * (2 ^ r * 2 ^ (8 - r)) + unat (as ! k)) div 2 ^ (8 - r)
      = be_val (take k as) * 2 ^ r + unat (as ! k) div 2 ^ (8 - r)"
    by (simp add: mult.assoc [symmetric])
  finally show ?thesis .
qed

text \<open>The octet and mask comparison of \<open>matches\<close> decides whether the address lies in the block of the rule.\<close>

definition rule_wf :: "peer_rule \<Rightarrow> bool" where
  "rule_wf r \<longleftrightarrow> 8 * length (addr_bytes r) = family_bits (family r) \<and> 0 < prefix_len r \<and> prefix_len r \<le> family_bits (family r)"

lemma matches_block:
  assumes "rule_wf r" "family a = family r" "length (addr_bytes a) = length (addr_bytes r)"
  shows "matches a r \<longleftrightarrow> be_val (addr_bytes a) div 2 ^ (family_bits (family r) - prefix_len r)
    = be_val (addr_bytes r) div 2 ^ (family_bits (family r) - prefix_len r)"
proof -
  let ?n = "length (addr_bytes r)" and ?k = "prefix_len r div 8" and ?q = "prefix_len r mod 8"
  let ?x = "addr_bytes a" and ?y = "addr_bytes r"
  have bits: "family_bits (family r) = 8 * ?n" "prefix_len r \<le> 8 * ?n" using assms by (simp_all add: rule_wf_def)
  have lens: "length (take ?k ?x) = length (take ?k ?y)" using assms by simp
  have kq: "prefix_len r = 8 * ?k + ?q" by simp
  show ?thesis
  proof (cases "?q = 0")
    case True
    then have "8 * ?n - prefix_len r = 8 * (?n - ?k)" "?k \<le> ?n" using kq bits by auto
    moreover have "(2 :: nat) ^ (8 * (?n - ?k)) = 256 ^ (?n - ?k)" by (simp add: power_mult)
    ultimately show ?thesis
      using True assms bits byte_prefix_div [of ?x ?n ?k] byte_prefix_div [of ?y ?n ?k] be_val_inject [OF lens]
      by (simp add: matches_def Let_def)
  next
    case False
    then have q: "0 < ?q" "?q < 8" by auto
    then have "?k < ?n" using kq bits(2) by linarith
    moreover from this have "8 * ?n - prefix_len r = 8 * (?n - ?k) - ?q" using kq by (simp add: diff_mult_distrib2)
    ultimately have k: "8 * ?n - prefix_len r = 8 * (?n - ?k) - ?q" "?k < ?n" "0 < ?q" "?q < 8" using q by simp_all
    have lt: "unat (b :: byte) div 2 ^ (8 - ?q) < 2 ^ ?q" for b
    proof -
      have "(2 :: nat) ^ 8 = 2 ^ ?q * 2 ^ (8 - ?q)" using k by (simp only: power_add [symmetric]) simp
      then have "unat b < 2 ^ ?q * 2 ^ (8 - ?q)" using unat_byte_lt [of b] by simp
      then show ?thesis by (simp add: less_mult_imp_div_less)
    qed
    have digits: "u * 2 ^ ?q + i = v * 2 ^ ?q + j \<longleftrightarrow> u = v \<and> i = j" if "i < 2 ^ ?q" "j < 2 ^ ?q" for u v i j :: nat
    proof
      assume eq: "u * 2 ^ ?q + i = v * 2 ^ ?q + j"
      then have "(u * 2 ^ ?q + i) div 2 ^ ?q = (v * 2 ^ ?q + j) div 2 ^ ?q" by simp
      then have "u = v" using that by simp
      with eq show "u = v \<and> i = j" by simp
    qed simp
    have "matches a r \<longleftrightarrow> take ?k ?x = take ?k ?y \<and> (?x ! ?k XOR ?y ! ?k) AND push_bit (8 - ?q) 0xff = 0"
      using False assms(2) by (simp add: matches_def Let_def)
    also have "\<dots> \<longleftrightarrow> be_val (take ?k ?x) = be_val (take ?k ?y) \<and> unat (?x ! ?k) div 2 ^ (8 - ?q) = unat (?y ! ?k) div 2 ^ (8 - ?q)"
      unfolding be_val_inject [OF lens] masked_octets_agree [of "8 - ?q" "?x ! ?k" "?y ! ?k", OF diff_le_self] ..
    also have "\<dots> \<longleftrightarrow> be_val ?x div 2 ^ (8 * ?n - prefix_len r) = be_val ?y div 2 ^ (8 * ?n - prefix_len r)"
      unfolding k(1) bit_prefix_div [OF assms(3) k(2-4)] bit_prefix_div [OF refl k(2-4)] digits [OF lt lt] ..
    finally show ?thesis unfolding bits(1) .
  qed
qed


section \<open>The cover test is exact\<close>

definition in_range :: "int \<Rightarrow> int \<times> int \<Rightarrow> bool" where
  "in_range x r \<longleftrightarrow> fst r \<le> x \<and> x \<le> snd r"

lemma extend_cover_Some:
  assumes "extend_cover c rs = Some c'"
  shows "c \<le> c' \<and> (\<forall>x. c < x \<and> x \<le> c' \<longrightarrow> (\<exists>r \<in> set rs. in_range x r)) \<and> (\<forall>r \<in> set rs. snd r \<le> c')
    \<and> c' \<in> insert c (snd ` set rs)"
  using assms
proof (induction rs arbitrary: c)
  case (Cons r rs)
  let ?d = "if snd r > c then snd r else c"
  from Cons.prems have r: "fst r \<le> c + 1" and rec: "extend_cover ?d rs = Some c'" by (auto split: if_splits)
  note IH = Cons.IH [OF rec]
  have "\<exists>r \<in> set (r # rs). in_range x r" if "c < x" "x \<le> c'" for x
  proof (cases "x \<le> snd r")
    case True
    with r that show ?thesis by (auto simp: in_range_def)
  next
    case False
    with that have "?d < x" by simp
    with IH that show ?thesis by auto
  qed
  with IH show ?case by (auto split: if_splits)
qed simp

lemma extend_cover_None:
  assumes "extend_cover c rs = None" "sorted (map fst rs)"
  shows "\<exists>x > c. (\<forall>r \<in> set rs. \<not> in_range x r) \<and> (\<exists>r \<in> set rs. x < fst r)"
  using assms
proof (induction rs arbitrary: c)
  case (Cons r rs)
  show ?case
  proof (cases "fst r > c + 1")
    case True
    with Cons.prems(2) have "\<forall>s \<in> set (r # rs). c + 1 < fst s" by fastforce
    then show ?thesis by (intro exI [of _ "c + 1"]) (force simp: in_range_def)
  next
    case False
    let ?d = "if snd r > c then snd r else c"
    from False Cons.prems have "extend_cover ?d rs = None" "sorted (map fst rs)" by simp_all
    from Cons.IH [OF this] obtain x where x: "?d < x" "\<forall>s \<in> set rs. \<not> in_range x s" "\<exists>s \<in> set rs. x < fst s" by blast
    then have "\<not> in_range x r" "c < x" by (auto simp: in_range_def split: if_splits)
    with x show ?thesis by auto
  qed
qed simp

text \<open>Sorting and merging finds out whether the ranges cover everything up to \<open>lim\<close>.\<close>

lemma cover_exact:
  assumes "sorted (map fst (r # rs))" "\<forall>s \<in> set (r # rs). 0 \<le> fst s \<and> fst s \<le> snd s \<and> snd s \<le> lim"
  shows "fst r = 0 \<and> extend_cover (snd r) rs = Some lim \<longleftrightarrow> (\<forall>x. 0 \<le> x \<and> x \<le> lim \<longrightarrow> (\<exists>s \<in> set (r # rs). in_range x s))"
    (is "?L \<longleftrightarrow> ?R")
proof
  assume L: ?L
  show ?R
  proof (intro allI impI)
    fix x assume x: "0 \<le> x \<and> x \<le> lim"
    show "\<exists>s \<in> set (r # rs). in_range x s"
    proof (cases "x \<le> snd r")
      case True
      with x L show ?thesis by (auto simp: in_range_def)
    next
      case False
      with x L extend_cover_Some [of "snd r" rs lim] show ?thesis by auto
    qed
  qed
next
  assume R: ?R
  have lim: "0 \<le> lim" using assms(2) by force
  then obtain s where s: "s \<in> set (r # rs)" "in_range 0 s" using R [rule_format, of 0] by blast
  then have "fst s = 0" using assms(2) by (auto simp: in_range_def)
  moreover have "fst r \<le> fst s" using assms(1) s(1) by auto
  moreover have "0 \<le> fst r" using assms(2) by simp
  ultimately have zero: "fst r = 0" by linarith
  show ?L
  proof (cases "extend_cover (snd r) rs")
    case None
    from extend_cover_None [OF this] assms(1) obtain x where
      x: "snd r < x" "\<forall>s \<in> set rs. \<not> in_range x s" "\<exists>s \<in> set rs. x < fst s" by auto
    moreover from x(1) zero assms(2) have "0 \<le> x" by force
    moreover from x(3) assms(2) have "x \<le> lim" by force
    ultimately have "\<exists>s \<in> set (r # rs). in_range x s" using R by blast
    with x show ?thesis by (auto simp: in_range_def)
  next
    case (Some c)
    note E = extend_cover_Some [OF Some]
    obtain t where t: "t \<in> set (r # rs)" "in_range lim t" using R lim by blast
    then have "lim \<le> c" using E by (auto simp: in_range_def)
    moreover have "c \<le> lim" using E assms(2) by auto
    ultimately show ?thesis using zero Some by simp
  qed
qed

lemma rule_range_bounds:
  assumes "rule_wf r" "bits = family_bits (family r)"
  shows "0 \<le> fst (rule_range bits r) \<and> fst (rule_range bits r) \<le> snd (rule_range bits r) \<and> snd (rule_range bits r) \<le> 2 ^ bits - 1"
proof -
  let ?n = "bits - prefix_len r" and ?v = "int (be_val (addr_bytes r))"
  have rr: "rule_range bits r = (2 ^ ?n * (?v div 2 ^ ?n), 2 ^ ?n * (?v div 2 ^ ?n) + 2 ^ ?n - 1)"
    by (simp add: rule_range_def Let_def push_bit_eq_mult clear_low_bits toBigInt_eq)
  have bits: "bits = 8 * length (addr_bytes r)" "prefix_len r \<le> bits" using assms by (simp_all add: rule_wf_def)
  have "?v < 2 ^ bits"
  proof -
    have "(256 :: nat) ^ length (addr_bytes r) = 2 ^ bits" using bits(1) by (simp add: power_mult)
    then have "be_val (addr_bytes r) < 2 ^ bits" using be_val_lt [of "addr_bytes r"] by simp
    then show ?thesis by (metis of_nat_less_iff of_nat_numeral of_nat_power)
  qed
  also have "(2 :: int) ^ bits = 2 ^ ?n * 2 ^ prefix_len r" using bits(2) by (simp add: power_add [symmetric])
  finally have "?v < 2 ^ ?n * 2 ^ prefix_len r" .
  moreover have "?v = 2 ^ ?n * (?v div 2 ^ ?n) + ?v mod 2 ^ ?n" by simp
  moreover have "0 \<le> ?v mod 2 ^ ?n" by simp
  ultimately have "2 ^ ?n * (?v div 2 ^ ?n) < 2 ^ ?n * 2 ^ prefix_len r" by linarith
  then have "?v div 2 ^ ?n < 2 ^ prefix_len r" by simp
  then have "2 ^ ?n * (?v div 2 ^ ?n + 1) \<le> 2 ^ ?n * 2 ^ prefix_len r" by (intro mult_left_mono) auto
  also have "\<dots> = 2 ^ bits" using bits(2) by (simp add: power_add [symmetric])
  finally have "2 ^ ?n * (?v div 2 ^ ?n) + 2 ^ ?n - 1 \<le> 2 ^ bits - 1" by (simp add: distrib_left)
  moreover have "0 \<le> 2 ^ ?n * (?v div 2 ^ ?n)" by (simp add: pos_imp_zdiv_nonneg_iff)
  ultimately show ?thesis by (simp add: rr)
qed


definition address_of :: "ip_family \<Rightarrow> normalized_address \<Rightarrow> bool" where
  "address_of f a \<longleftrightarrow> family a = f \<and> 8 * length (addr_bytes a) = family_bits f"

lemma matches_range:
  assumes "rule_wf r" "family r = f" "address_of f a"
  shows "matches a r \<longleftrightarrow> in_range (int (be_val (addr_bytes a))) (rule_range (family_bits f) r)"
proof -
  have "length (addr_bytes a) = length (addr_bytes r)" "family a = family r" "prefix_len r \<le> family_bits f"
    using assms by (auto simp: rule_wf_def address_of_def)
  with matches_block [OF assms(1)] rule_range_iff show ?thesis using assms(2) by (simp add: in_range_def)
qed

lemma address_exists:
  assumes "0 \<le> x" "x \<le> 2 ^ family_bits f - 1"
  shows "\<exists>a. address_of f a \<and> int (be_val (addr_bytes a)) = x"
proof -
  have "nat x < 2 ^ family_bits f" using assms by (simp add: nat_less_iff)
  also have "(2 :: nat) ^ family_bits f = 256 ^ (family_bits f div 8)"
    by (cases f) (simp_all add: family_bits_def power_mult [symmetric])
  finally obtain bs where "length bs = family_bits f div 8" "be_val bs = nat x" using be_val_surj by blast
  then show ?thesis using assms(1)
    by (intro exI [of _ "\<lparr> family = f, addr_bytes = bs \<rparr>"]) (auto simp: address_of_def family_bits_def)
qed

lemma be_val_top: "address_of f a \<Longrightarrow> int (be_val (addr_bytes a)) \<le> 2 ^ family_bits f - 1"
proof -
  assume a: "address_of f a"
  have "(256 :: nat) ^ length (addr_bytes a) = 2 ^ (8 * length (addr_bytes a))" by (simp add: power_mult)
  with a have "(256 :: nat) ^ length (addr_bytes a) = 2 ^ family_bits f" by (simp add: address_of_def)
  then have "be_val (addr_bytes a) < 2 ^ family_bits f" using be_val_lt [of "addr_bytes a"] by simp
  then have "int (be_val (addr_bytes a)) < 2 ^ family_bits f" by (metis of_nat_less_iff of_nat_numeral of_nat_power)
  then show ?thesis by simp
qed

lemma covers_iff_all_match:
  assumes "list_all rule_wf rules"
  shows "coversWholeFamily rules f \<longleftrightarrow> (\<forall>a. address_of f a \<longrightarrow> list_ex (matches a) rules)"
proof -
  let ?bits = "family_bits f" and ?rs = "filter (\<lambda>r. family r = f) rules"
  let ?ranges = "sort_key fst (map (rule_range ?bits) ?rs)"
  have set: "set ?ranges = rule_range ?bits ` set ?rs" by simp
  have wf: "rule_wf r \<and> family r = f" if "r \<in> set ?rs" for r using that assms by (auto simp: list_all_iff)
  have bounds: "\<forall>s \<in> set ?ranges. 0 \<le> fst s \<and> fst s \<le> snd s \<and> snd s \<le> 2 ^ ?bits - 1"
    unfolding set using wf rule_range_bounds by blast
  have match: "list_ex (matches a) rules \<longleftrightarrow> (\<exists>s \<in> set ?ranges. in_range (int (be_val (addr_bytes a))) s)"
    if "address_of f a" for a
  proof -
    have "family r = f" if "matches a r" for r using that \<open>address_of f a\<close>
      by (simp add: address_of_def matches_def split: if_splits)
    then have "list_ex (matches a) rules \<longleftrightarrow> (\<exists>r \<in> set ?rs. matches a r)" by (auto simp: list_ex_iff)
    then show ?thesis unfolding set using wf matches_range that by blast
  qed
  have all: "(\<forall>a. address_of f a \<longrightarrow> list_ex (matches a) rules)
      \<longleftrightarrow> (\<forall>x. 0 \<le> x \<and> x \<le> 2 ^ ?bits - 1 \<longrightarrow> (\<exists>s \<in> set ?ranges. in_range x s))"
    using match address_exists [of _ f] be_val_top [of f] by (metis of_nat_0_le_iff)
  show ?thesis
  proof (cases ?ranges)
    case Nil
    have "\<exists>x :: int. 0 \<le> x \<and> x \<le> 2 ^ ?bits - 1" by (rule exI [of _ 0]) simp
    with Nil all show ?thesis by (auto simp: coversWholeFamily_def Let_def)
  next
    case (Cons r rs)
    have "sorted (map fst (r # rs))" unfolding Cons [symmetric] by simp
    from cover_exact [OF this bounds [unfolded Cons]]
    have "(fst r = 0 \<and> extend_cover (snd r) rs = Some (2 ^ ?bits - 1)) \<longleftrightarrow> (\<forall>a. address_of f a \<longrightarrow> list_ex (matches a) rules)"
      unfolding all [unfolded Cons] .
    moreover have "coversWholeFamily rules f \<longleftrightarrow> fst r = 0 \<and> extend_cover (snd r) rs = Some (2 ^ ?bits - 1)"
      by (simp add: coversWholeFamily_def Let_def Cons)
    ultimately show ?thesis by blast
  qed
qed


section \<open>Parsed rules\<close>

lemma ipv4ToBytes_length: "ipv4ToBytes s = Some bs \<Longrightarrow> length bs = 4"
  by (auto simp: ipv4ToBytes_def isIPv4_def split: if_splits)

lemma ipv6ToBytes_length: "ipv6ToBytes s = Some bs \<Longrightarrow> length bs = 16"
  by (auto simp: ipv6ToBytes_def Let_def length_concat comp_def sum_list_triv sum_list_replicate split: if_splits option.splits prod.splits)

lemma normalizeAddress_wf: "normalizeAddress s = Some a \<Longrightarrow> address_of (family a) a"
  by (auto simp: normalizeAddress_def address_of_def family_bits_def Let_def
      dest: ipv4ToBytes_length ipv6ToBytes_length split: if_splits option.splits)

lemma rule_prefix_le: "rule_prefix addrPart f prefixPart = Inr p \<Longrightarrow> p \<le> family_bits f"
  by (auto simp: rule_prefix_def Let_def split: option.splits if_splits)

lemma parsePeerRule_wf: "parsePeerRule e = Inr r \<Longrightarrow> rule_wf r"
  by (auto simp: parsePeerRule_def rule_wf_def Let_def address_of_def dest!: normalizeAddress_wf rule_prefix_le
      split: if_splits prod.splits option.splits sum.splits)

lemma parse_rules_wf: "parse_rules es = Inr rs \<Longrightarrow> list_all rule_wf rs"
  by (induction es arbitrary: rs) (auto split: sum.splits dest: parsePeerRule_wf)

lemma parsePeerRules_parse: "parsePeerRules es = Inr rs \<Longrightarrow> parse_rules es = Inr rs \<and> \<not> coversWholeFamily rs f"
  by (cases f) (auto simp: parsePeerRules_def split: sum.splits if_splits)

text \<open>Writing an IPv4 address, and reading it back.\<close>

definition digit :: "nat \<Rightarrow> char" where
  "digit k = char_of (48 + k)"

definition show_octet :: "nat \<Rightarrow> string" where
  "show_octet n =
     (if n < 10 then [digit n] else if n < 100 then [digit (n div 10), digit (n mod 10)]
      else [digit (n div 100), digit (n div 10 mod 10), digit (n mod 10)])"

definition show_ipv4 :: "buffer \<Rightarrow> string" where
  "show_ipv4 bs = show_octet (unat (bs ! 0)) @ CHR ''.'' # show_octet (unat (bs ! 1)) @ CHR ''.''
     # show_octet (unat (bs ! 2)) @ CHR ''.'' # show_octet (unat (bs ! 3))"

lemma digit_simps [simp]:
  assumes "k < 10"
  shows "is_digit (digit k)" "digit_value (digit k) = k" "CHR ''.'' \<noteq> digit k" "digit k = CHR ''0'' \<longleftrightarrow> k = 0"
proof -
  have n: "(of_char (digit k) :: nat) = 48 + k" using assms by (simp add: digit_def)
  then show "is_digit (digit k)" "digit_value (digit k) = k" using assms by (simp_all add: is_digit_def digit_value_def)
  show "CHR ''.'' \<noteq> digit k"
  proof
    assume "CHR ''.'' = digit k"
    then have "(of_char CHR ''.'' :: nat) = 48 + k" using n by simp
    then show False by simp
  qed
  have "digit k = CHR ''0'' \<longleftrightarrow> (of_char (digit k) :: nat) = of_char CHR ''0''" by (simp only: of_char_eq_iff)
  then show "digit k = CHR ''0'' \<longleftrightarrow> k = 0" unfolding n by simp
qed

lemma show_octet_simps:
  assumes "n < 256"
  shows "decimal (show_octet n) = n" "CHR ''.'' \<notin> set (show_octet n)" "v4_segment (show_octet n)"
proof -
  have d: "n div 10 mod 10 < 10" "n mod 10 < 10" "n div 100 < 10" using assms by auto
  consider "n < 10" | "10 \<le> n" "n < 100" | "100 \<le> n" by linarith
  then have "decimal (show_octet n) = n \<and> CHR ''.'' \<notin> set (show_octet n) \<and> v4_segment (show_octet n)"
  proof cases
    case 1
    then show ?thesis by (simp add: show_octet_def decimal_def v4_segment_def)
  next
    case 2
    then have "n div 10 < 10" "n div 10 \<noteq> 0" by auto
    with 2 d show ?thesis by (simp add: show_octet_def decimal_def v4_segment_def)
  next
    case 3
    then have "n div 100 \<noteq> 0" by auto
    moreover have "10 * (10 * (n div 100) + n div 10 mod 10) + n mod 10 = n"
    proof -
      have "n div 100 = n div 10 div 10" by (simp add: div_mult2_eq [symmetric])
      then have "10 * (n div 100) + n div 10 mod 10 = n div 10" by simp
      then show ?thesis by simp
    qed
    ultimately show ?thesis using 3 d assms by (simp add: show_octet_def decimal_def v4_segment_def)
  qed
  then show "decimal (show_octet n) = n" "CHR ''.'' \<notin> set (show_octet n)" "v4_segment (show_octet n)" by simp_all
qed

lemma split_on_step: "c \<notin> set x \<Longrightarrow> split_on c (x @ c # r) = x # split_on c r"
  by (induction x) auto

lemma split_on_last: "c \<notin> set x \<Longrightarrow> split_on c x = [x]"
  by (induction x) auto

lemma ipv4ToBytes_show:
  assumes "length bs = 4"
  shows "ipv4ToBytes (show_ipv4 bs) = Some bs"
proof -
  have "split_on CHR ''.'' (show_ipv4 bs) = map (\<lambda>b. show_octet (unat b)) [bs ! 0, bs ! 1, bs ! 2, bs ! 3]"
    by (simp add: show_ipv4_def split_on_step split_on_last show_octet_simps)
  moreover have "bs = [bs ! 0, bs ! 1, bs ! 2, bs ! 3]" using assms by (auto simp: list_eq_iff_nth_eq less_Suc_eq numeral_eq_Suc)
  ultimately show ?thesis using show_octet_simps by (simp add: ipv4ToBytes_def isIPv4_def)
qed


lemma digit_plain: "is_digit c \<Longrightarrow> c \<noteq> CHR ''%'' \<and> \<not> is_space c"
proof -
  have "(of_char CHR ''%'' :: nat) = 37" by simp
  moreover assume "is_digit c"
  ultimately show ?thesis by (auto simp: is_digit_def is_space_def Let_def)
qed

lemma trim_plain: "\<forall>c \<in> set s. \<not> is_space c \<Longrightarrow> trim s = s"
proof -
  have drop: "\<forall>c \<in> set t. \<not> is_space c \<Longrightarrow> dropWhile is_space t = t" for t by (cases t) auto
  assume "\<forall>c \<in> set s. \<not> is_space c"
  then show ?thesis using drop [of s] drop [of "rev s"] by (simp add: trim_def)
qed

lemma normalizeAddress_show:
  assumes "length bs = 4"
  shows "normalizeAddress (show_ipv4 bs) = Some \<lparr> family = Family4, addr_bytes = bs \<rparr>"
proof -
  have "is_digit c" if "c \<in> set (show_octet (unat (b :: byte)))" for b c
    using that show_octet_simps(3) [of "unat b"] by (simp add: v4_segment_def list_all_iff)
  then have "is_digit c \<or> c = CHR ''.''" if "c \<in> set (show_ipv4 bs)" for c
    using that by (auto simp: show_ipv4_def)
  moreover have dot: "CHR ''.'' \<noteq> CHR ''%'' \<and> \<not> is_space CHR ''.''" by (simp add: is_space_def Let_def)
  ultimately have plain: "\<forall>c \<in> set (show_ipv4 bs). c \<noteq> CHR ''%'' \<and> \<not> is_space c"
    using digit_plain dot by blast
  then have "strip_zone (show_ipv4 bs) = show_ipv4 bs"
    by (simp add: strip_zone_def trim_plain takeWhile_eq_all_conv [THEN iffD2])
  moreover have "show_ipv4 bs \<noteq> []" by (simp add: show_ipv4_def)
  ultimately show ?thesis by (simp add: normalizeAddress_def ipv4ToBytes_show [OF assms])
qed

lemma isPeerAllowed_show:
  "length bs = 4 \<Longrightarrow> isPeerAllowed (Some (show_ipv4 bs)) rules \<longleftrightarrow> list_ex (matches \<lparr> family = Family4, addr_bytes = bs \<rparr>) rules"
  by (auto simp: isPeerAllowed_def normalizeAddress_show) (simp_all add: show_ipv4_def)

section \<open>What the allowlist promises\<close>

text \<open>The admission test is the textbook one. For every accepted allowlist and every IPv4 peer, written in the
  usual dotted form, the peer is admitted exactly if for some IPv4 rule the address and the rule's network
  agree in the first \<open>prefix_len\<close> bits, as numbers in network byte order.\<close>

theorem peer_admitted_iff_in_block:
  assumes "parsePeerRules entries = Inr rules" "length bs = 4"
  shows "isPeerAllowed (Some (show_ipv4 bs)) rules \<longleftrightarrow>
    (\<exists>r \<in> set rules. family r = Family4 \<and> be_val bs div 2 ^ (32 - prefix_len r) = be_val (addr_bytes r) div 2 ^ (32 - prefix_len r))"
proof -
  let ?a = "\<lparr> family = Family4, addr_bytes = bs \<rparr>"
  have wf: "list_all rule_wf rules" using assms(1) parsePeerRules_parse parse_rules_wf by blast
  have "matches ?a r \<longleftrightarrow> family r = Family4 \<and> be_val bs div 2 ^ (32 - prefix_len r) = be_val (addr_bytes r) div 2 ^ (32 - prefix_len r)"
    if "r \<in> set rules" for r
  proof (cases "family r = Family4")
    case True
    have r: "rule_wf r" using that wf by (auto simp: list_all_iff)
    with True have "length (addr_bytes r) = 4" by (simp add: rule_wf_def family_bits_def)
    with matches_block [OF r, of ?a] True assms(2) show ?thesis by (simp add: family_bits_def)
  qed (auto simp: matches_def)
  then show ?thesis using isPeerAllowed_show [OF assms(2)] by (auto simp: list_ex_iff)
qed

text \<open>C28: The wildcard test is exact. For rules that parse, sorting and merging the address ranges reports a covered
  family exactly if every address of the family matches some rule.\<close>

theorem cover_test_exact:
  assumes "parse_rules entries = Inr rules"
  shows "coversWholeFamily rules f \<longleftrightarrow> (\<forall>a. address_of f a \<longrightarrow> list_ex (matches a) rules)"
  using covers_iff_all_match [OF parse_rules_wf [OF assms]] .

text \<open>C27: No accepted allowlist is a wildcard. Whatever the entries, if they are accepted then some IPv4 peer is
  refused and some IPv6 address matches no rule; a peer without a parseable address is always refused.\<close>

theorem no_wildcard_allowlist:
  assumes "parsePeerRules entries = Inr rules"
  shows "(\<exists>bs. length bs = 4 \<and> \<not> isPeerAllowed (Some (show_ipv4 bs)) rules)
    \<and> (\<exists>a. address_of Family6 a \<and> \<not> list_ex (matches a) rules)
    \<and> \<not> isPeerAllowed None rules \<and> (normalizeAddress s = None \<longrightarrow> \<not> isPeerAllowed (Some s) rules)"
proof -
  have p: "parse_rules entries = Inr rules" "\<not> coversWholeFamily rules f" for f using parsePeerRules_parse [OF assms] by blast+
  note C = covers_iff_all_match [OF parse_rules_wf [OF p(1)]]
  obtain a where a: "address_of Family4 a" "\<not> list_ex (matches a) rules" using p(2) [of Family4] C [of Family4] by blast
  then have "length (addr_bytes a) = 4" "a = \<lparr> family = Family4, addr_bytes = addr_bytes a \<rparr>"
    by (auto simp: address_of_def family_bits_def)
  with a have "length (addr_bytes a) = 4 \<and> \<not> isPeerAllowed (Some (show_ipv4 (addr_bytes a))) rules"
    by (metis isPeerAllowed_show)
  moreover have "\<exists>a. address_of Family6 a \<and> \<not> list_ex (matches a) rules" using p(2) [of Family6] C [of Family6] by blast
  ultimately show ?thesis by (auto simp: isPeerAllowed_def)
qed

lemma loopback_rules:
  "parsePeerRules LOOPBACK_PEER_RULES = Inr
     [\<lparr> family = Family4, addr_bytes = [127, 0, 0, 0], prefix_len = 8, source = ''127.0.0.0/8'' \<rparr>,
      \<lparr> family = Family6, addr_bytes = replicate 15 0 @ [1], prefix_len = 128, source = ''::1/128'' \<rparr>]"
  by code_simp

theorem peer_admitted_iff_in_block_witness:
  "\<exists>rules. parsePeerRules LOOPBACK_PEER_RULES = Inr rules \<and> isPeerAllowed (Some (show_ipv4 [127, 0, 0, 1])) rules
     \<and> \<not> isPeerAllowed (Some (show_ipv4 [10, 0, 0, 1])) rules"
  using peer_admitted_iff_in_block [OF loopback_rules, of "[127, 0, 0, 1]"]
    peer_admitted_iff_in_block [OF loopback_rules, of "[10, 0, 0, 1]"] by (simp add: loopback_rules)

theorem cover_test_exact_witness:
  "\<exists>rules. parse_rules [''0.0.0.0/1'', ''128.0.0.0/1''] = Inr rules
     \<and> (\<forall>a. address_of Family4 a \<longrightarrow> list_ex (matches a) rules)"
proof -
  have p: "parse_rules [''0.0.0.0/1'', ''128.0.0.0/1''] = Inr
      [\<lparr> family = Family4, addr_bytes = [0, 0, 0, 0], prefix_len = 1, source = ''0.0.0.0/1'' \<rparr>,
       \<lparr> family = Family4, addr_bytes = [128, 0, 0, 0], prefix_len = 1, source = ''128.0.0.0/1'' \<rparr>]" by code_simp
  moreover have "coversWholeFamily
      [\<lparr> family = Family4, addr_bytes = [0, 0, 0, 0], prefix_len = 1, source = ''0.0.0.0/1'' \<rparr>,
       \<lparr> family = Family4, addr_bytes = [128, 0, 0, 0], prefix_len = 1, source = ''128.0.0.0/1'' \<rparr>] Family4" by code_simp
  ultimately show ?thesis using cover_test_exact [OF p, of Family4] by blast
qed

theorem no_wildcard_allowlist_witness:
  "\<exists>rules bs. parsePeerRules LOOPBACK_PEER_RULES = Inr rules \<and> length bs = 4 \<and> \<not> isPeerAllowed (Some (show_ipv4 bs)) rules"
  using no_wildcard_allowlist [OF loopback_rules] loopback_rules by blast

end
