(* ===== verification/Dnp3_Server.thy ===== *)
theory Dnp3_Server
  imports Dnp3_Reporting Dnp3_Reader Dnp3_Transport Peer_Allowlist
begin

text \<open>
  The TCP front end of the outstation (\<open>dnp3-outstation/server.ts\<close>, class \<open>Dnp3TcpServer\<close>) and the methods
  of \<open>Dnp3Outstation\<close> that use it: admission, the receive path from octets to application requests, the
  transmit path from fragments to link frames, unsolicited broadcasts and tag updates.

  A socket is what the code observes of it: whether it is destroyed or paused and what has been written
  to it. Node's transmit queue is the parameter \<open>net\<close>: from everything written so far, whether the last
  write was flushed and how many octets are queued. The application behind the server is the interface
  \<open>Dnp3ApplicationDispatcher\<close>, a record of functions on an application state; each call gets an environment
  (\<open>Date.now()\<close> and the random nonce in the case of the outstation). Logging, ports and timers are not
  modelled.
\<close>

section \<open>State\<close>

datatype link_function_key = RESET_LINK | TEST_LINK | CONFIRMED_USER_DATA | UNCONFIRMED_USER_DATA
  | REQUEST_LINK_STATUS | ACK | NACK | LINK_STATUS

primrec DNP3_LINK_FUNCTION :: "link_function_key \<Rightarrow> byte" where
  "DNP3_LINK_FUNCTION RESET_LINK = 0x0"
| "DNP3_LINK_FUNCTION TEST_LINK = 0x2"
| "DNP3_LINK_FUNCTION CONFIRMED_USER_DATA = 0x3"
| "DNP3_LINK_FUNCTION UNCONFIRMED_USER_DATA = 0x4"
| "DNP3_LINK_FUNCTION REQUEST_LINK_STATUS = 0x9"
| "DNP3_LINK_FUNCTION ACK = 0x0"
| "DNP3_LINK_FUNCTION NACK = 0x1"
| "DNP3_LINK_FUNCTION LINK_STATUS = 0xb"

type_synonym network = "buffer list \<Rightarrow> bool \<times> nat"

record ('e, 'w) application_dispatcher =
  ad_dispatch :: "'e \<Rightarrow> parsed_request \<Rightarrow> session \<Rightarrow> 'w \<Rightarrow> buffer \<times> session \<times> 'w"
  ad_dispatchSecureAuthReply :: "'e \<Rightarrow> parsed_request \<Rightarrow> session \<Rightarrow> 'w \<Rightarrow> buffer \<times> session \<times> 'w"
  ad_onAssociationClosed :: "session \<Rightarrow> 'w \<Rightarrow> 'w"

record connection =
  destroyed :: bool
  written :: "buffer list"
  paused :: bool
  reader :: frame_reader
  reassembler :: "reassembly_state option"
  masterAddress :: nat
  transportSeq :: byte
  conn_session :: session

record server_config =
  localAddress :: nat
  maxConnections :: nat
  maxRxBufferBytes :: nat
  maxTxQueueBytes :: nat
  peerRules :: "peer_rule list"

record 'w server =
  connections :: "connection list"
  rejectedConnections :: nat
  nextAssociationId :: nat
  app :: 'w

definition DEFAULT_MAX_TX_QUEUE_BYTES :: nat where "DEFAULT_MAX_TX_QUEUE_BYTES = 1048576"
definition DEFAULT_MAX_CONNECTIONS :: nat where "DEFAULT_MAX_CONNECTIONS = 1"

text \<open>The constructor's configuration, with its defaults; an unusable allowlist throws.\<close>

definition new_server_config :: "nat option \<Rightarrow> nat option \<Rightarrow> nat option \<Rightarrow> nat option \<Rightarrow> string list option
    \<Rightarrow> peer_rule_error + server_config" where
  "new_server_config local maxConn maxRx maxTx peers =
     (case parsePeerRules (case peers of None \<Rightarrow> LOOPBACK_PEER_RULES | Some ps \<Rightarrow> ps) of
        Inl e \<Rightarrow> Inl e
      | Inr rules \<Rightarrow>
          Inr \<lparr> localAddress = (case local of None \<Rightarrow> 10 | Some a \<Rightarrow> a),
                maxConnections = (case maxConn of None \<Rightarrow> DEFAULT_MAX_CONNECTIONS | Some n \<Rightarrow> n),
                maxRxBufferBytes = (case maxRx of None \<Rightarrow> DEFAULT_MAX_RX_BUFFER_BYTES | Some n \<Rightarrow> n),
                maxTxQueueBytes = (case maxTx of None \<Rightarrow> DEFAULT_MAX_TX_QUEUE_BYTES | Some n \<Rightarrow> n),
                peerRules = rules \<rparr>)"

section \<open>Transmitting\<close>

definition transmit :: "network \<Rightarrow> server_config \<Rightarrow> buffer \<Rightarrow> connection \<Rightarrow> connection" where
  "transmit net cfg bytes conn =
     (if destroyed conn then conn
      else (let conn = conn \<lparr> written := written conn @ [bytes] \<rparr>
            in case net (written conn) of
                 (flushed, writableLength) \<Rightarrow>
                   if writableLength > maxTxQueueBytes cfg then conn \<lparr> destroyed := True \<rparr>
                   else if \<not> flushed \<and> \<not> paused conn then conn \<lparr> paused := True \<rparr>
                   else conn))"

text \<open>The loop over the segments; the flag is false when \<open>buildLinkFrame\<close> throws.\<close>

primrec send_segments :: "network \<Rightarrow> server_config \<Rightarrow> buffer list \<Rightarrow> connection \<Rightarrow> bool \<times> connection" where
  "send_segments net cfg [] conn = (True, conn)"
| "send_segments net cfg (seg # segs) conn =
     (case buildLinkFrame (unat (buildResponseControl (DNP3_LINK_FUNCTION UNCONFIRMED_USER_DATA) False False))
             (masterAddress conn) (localAddress cfg) seg of
        Inl e \<Rightarrow> (False, conn)
      | Inr frame \<Rightarrow> send_segments net cfg segs (transmit net cfg frame conn))"

definition sendFragment :: "network \<Rightarrow> server_config \<Rightarrow> buffer \<Rightarrow> connection \<Rightarrow> bool \<times> connection" where
  "sendFragment net cfg appFragment conn =
     (case segment appFragment (transportSeq conn) DEFAULT_MAX_SEGMENT_PAYLOAD of
        Inl e \<Rightarrow> (False, conn)
      | Inr segments \<Rightarrow>
          send_segments net cfg segments
            (conn \<lparr> transportSeq := (transportSeq conn + of_nat (length segments)) AND TRANSPORT_SEQ_MASK \<rparr>))"

definition sendLinkStatus :: "network \<Rightarrow> server_config \<Rightarrow> connection \<Rightarrow> bool \<times> connection" where
  "sendLinkStatus net cfg conn =
     (case buildLinkFrame (unat (buildResponseControl (DNP3_LINK_FUNCTION LINK_STATUS) False False))
             (masterAddress conn) (localAddress cfg) [] of
        Inl e \<Rightarrow> (False, conn)
      | Inr frame \<Rightarrow> (True, transmit net cfg frame conn))"

section \<open>Receiving\<close>

definition processFrame :: "network \<Rightarrow> server_config \<Rightarrow> ('e, 'w) application_dispatcher \<Rightarrow> 'e \<Rightarrow> buffer
    \<Rightarrow> connection \<times> 'w \<Rightarrow> bool \<times> connection \<times> 'w" where
  "processFrame net cfg disp env frame cw =
     (case cw of (conn, w) \<Rightarrow>
        (case extractPayload frame of
           None \<Rightarrow> (True, conn, w)
         | Some (header, payload) \<Rightarrow>
             (let conn = conn \<lparr> masterAddress := lh_source header \<rparr>
              in if length payload = 0 then
                   (if lh_func header = DNP3_LINK_FUNCTION REQUEST_LINK_STATUS then
                      (case sendLinkStatus net cfg conn of (ok, conn) \<Rightarrow> (ok, conn, w))
                    else (True, conn, w))
                 else
                   (case accept (reassembler conn) payload of
                      (st, result) \<Rightarrow>
                        (let conn = conn \<lparr> reassembler := st \<rparr>
                         in case (rr_error result, rr_fragment result) of
                              (None, Some frag) \<Rightarrow>
                                (case parseRequest frag of
                                   None \<Rightarrow> (True, conn, w)
                                 | Some req \<Rightarrow>
                                     (case (if func req = DNP3_FUNCTION AUTH_REQUEST
                                            then ad_dispatchSecureAuthReply disp env req (conn_session conn) w
                                            else ad_dispatch disp env req (conn_session conn) w) of
                                        (resp, s, w) \<Rightarrow>
                                          (let conn = conn \<lparr> conn_session := s \<rparr>
                                           in if length resp > 0 \<and> \<not> destroyed conn
                                              then (case sendFragment net cfg resp conn of (ok, conn) \<Rightarrow> (ok, conn, w))
                                              else (True, conn, w))))
                            | _ \<Rightarrow> (True, conn, w))))))"

text \<open>The frames of one chunk; the loop ends when the socket is destroyed. Each frame has its environment.\<close>

primrec process_frames :: "network \<Rightarrow> server_config \<Rightarrow> ('e, 'w) application_dispatcher \<Rightarrow> (nat \<Rightarrow> 'e) \<Rightarrow> nat
    \<Rightarrow> buffer list \<Rightarrow> connection \<times> 'w \<Rightarrow> bool \<times> connection \<times> 'w" where
  "process_frames net cfg disp env i [] cw = (True, cw)"
| "process_frames net cfg disp env i (f # fs) cw =
     (if destroyed (fst cw) then (True, cw)
      else (case processFrame net cfg disp (env i) f cw of
              (ok, cw) \<Rightarrow> if ok then process_frames net cfg disp env (i + 1) fs cw else (False, cw)))"

definition on_data :: "network \<Rightarrow> server_config \<Rightarrow> ('e, 'w) application_dispatcher \<Rightarrow> (nat \<Rightarrow> 'e) \<Rightarrow> buffer
    \<Rightarrow> connection \<times> 'w \<Rightarrow> bool \<times> connection \<times> 'w" where
  "on_data net cfg disp env chunk cw =
     (case cw of (conn, w) \<Rightarrow>
        (case push (reader conn) chunk of
           (r, result) \<Rightarrow>
             (let conn = conn \<lparr> reader := r \<rparr>
              in if frr_overflow result then (True, conn \<lparr> destroyed := True \<rparr>, w)
                 else process_frames net cfg disp env 0 (frr_frames result) (conn, w))))"

definition on_drain :: "connection \<Rightarrow> connection" where
  "on_drain conn = (if \<not> paused conn then conn else conn \<lparr> paused := False \<rparr>)"

section \<open>Connections\<close>

definition admit :: "server_config \<Rightarrow> string option \<Rightarrow> 'w server \<Rightarrow> bool \<times> 'w server" where
  "admit cfg peer srv =
     (if \<not> isPeerAllowed peer (peerRules cfg) then (False, srv \<lparr> rejectedConnections := rejectedConnections srv + 1 \<rparr>)
      else if length (connections srv) \<ge> maxConnections cfg
      then (False, srv \<lparr> rejectedConnections := rejectedConnections srv + 1 \<rparr>)
      else (True, srv))"

text \<open>A receive bound below one frame makes the reader's constructor throw; no connection is added then.\<close>

definition onConnection :: "server_config \<Rightarrow> string option \<Rightarrow> 'w server \<Rightarrow> 'w server" where
  "onConnection cfg peer srv =
     (case admit cfg peer srv of
        (False, srv) \<Rightarrow> srv
      | (True, srv) \<Rightarrow>
          (case new_reader (maxRxBufferBytes cfg) of
             Inl e \<Rightarrow> srv
           | Inr r \<Rightarrow>
               (case createSession (nextAssociationId srv) of
                  (s, nxt) \<Rightarrow>
                    srv \<lparr> nextAssociationId := nxt,
                          connections := connections srv @
                            [\<lparr> destroyed = False, written = [], paused = False, reader = r, reassembler = None,
                               masterAddress = 1, transportSeq = 0, conn_session = s \<rparr>] \<rparr>)))"

definition server_data :: "network \<Rightarrow> server_config \<Rightarrow> ('e, 'w) application_dispatcher \<Rightarrow> (nat \<Rightarrow> 'e) \<Rightarrow> nat \<Rightarrow> buffer
    \<Rightarrow> 'w server \<Rightarrow> bool \<times> 'w server" where
  "server_data net cfg disp env i chunk srv =
     (if i < length (connections srv) \<and> \<not> destroyed (connections srv ! i) then
        (case on_data net cfg disp env chunk (connections srv ! i, app srv) of
           (ok, conn, w) \<Rightarrow> (ok, srv \<lparr> connections := (connections srv)[i := conn], app := w \<rparr>))
      else (True, srv))"

definition server_close :: "('e, 'w) application_dispatcher \<Rightarrow> nat \<Rightarrow> 'w server \<Rightarrow> 'w server" where
  "server_close disp i srv =
     (if i < length (connections srv) then
        srv \<lparr> connections := take i (connections srv) @ drop (i + 1) (connections srv),
              app := ad_onAssociationClosed disp (conn_session (connections srv ! i)) (app srv) \<rparr>
      else srv)"

definition server_timeout :: "nat \<Rightarrow> 'w server \<Rightarrow> 'w server" where
  "server_timeout i srv =
     (if i < length (connections srv)
      then srv \<lparr> connections := (connections srv)[i := (connections srv ! i) \<lparr> destroyed := True \<rparr>] \<rparr>
      else srv)"

text \<open>The loop of \<open>broadcastUnsolicited\<close>: the connections with the fragment sent, and their number.\<close>

primrec broadcast :: "network \<Rightarrow> server_config \<Rightarrow> fragment \<Rightarrow> connection list \<Rightarrow> bool \<times> nat \<times> connection list" where
  "broadcast net cfg frag [] = (True, 0, [])"
| "broadcast net cfg frag (conn # conns) =
     (if awaitingConfirm (conn_session conn) \<noteq> None then
        (case broadcast net cfg frag conns of (ok, n, cs) \<Rightarrow> (ok, n, conn # cs))
      else
        (case sendFragment net cfg (frag_bytes frag)
                (conn \<lparr> conn_session := (conn_session conn) \<lparr> awaitingConfirm := Some frag \<rparr> \<rparr>) of
           (False, conn') \<Rightarrow> (False, 0, conn' # conns)
         | (True, conn') \<Rightarrow> (case broadcast net cfg frag conns of (ok, n, cs) \<Rightarrow> (ok, n + 1, conn' # cs))))"

definition broadcastUnsolicited :: "network \<Rightarrow> server_config \<Rightarrow> fragment \<Rightarrow> 'w server \<Rightarrow> bool \<times> nat \<times> 'w server" where
  "broadcastUnsolicited net cfg frag srv =
     (case broadcast net cfg frag (connections srv) of (ok, n, cs) \<Rightarrow> (ok, n, srv \<lparr> connections := cs \<rparr>))"

section \<open>The outstation behind the server\<close>

record 'p outstation =
  ctx :: "'p outstation_context"
  plant :: 'p
  unsolicitedSeq :: nat

type_synonym 'p system = "'p outstation server"

definition outstation_dispatcher :: "hmac \<Rightarrow> nat \<Rightarrow> (int \<times> buffer, 'p outstation) application_dispatcher" where
  "outstation_dispatcher hmac user =
     \<lparr> ad_dispatch = (\<lambda>(now, random) req s ost.
         case dispatch random user (ctx ost) req now s (plant ost) of
           (out, c, s, p) \<Rightarrow> (out, s, ost \<lparr> ctx := c, plant := p \<rparr>)),
       ad_dispatchSecureAuthReply = (\<lambda>(now, random) req s ost.
         case dispatchSecureAuthReply hmac random (ctx ost) req now s (plant ost) of
           (out, c, s, p) \<Rightarrow> (out, s, ost \<lparr> ctx := c, plant := p \<rparr>)),
       ad_onAssociationClosed = (\<lambda>s ost. ost \<lparr> ctx := onAssociationClosed s (ctx ost) \<rparr>) \<rparr>"

text \<open>The flag is false when serialising or framing throws.\<close>

definition maybeSendUnsolicited :: "network \<Rightarrow> server_config \<Rightarrow> int \<Rightarrow> 'p system \<Rightarrow> bool \<times> 'p system" where
  "maybeSendUnsolicited net cfg now sys =
     (case unsolicited_fragment now (unsolicitedSeq (app sys)) (ctx (app sys)) of
        None \<Rightarrow> (False, sys)
      | Some None \<Rightarrow> (True, sys)
      | Some (Some (frag, nxt)) \<Rightarrow>
          (let sys = sys \<lparr> app := (app sys) \<lparr> unsolicitedSeq := nxt \<rparr> \<rparr>
           in case broadcastUnsolicited net cfg frag sys of
                (False, n, sys) \<Rightarrow> (False, sys)
              | (True, n, sys) \<Rightarrow>
                  if n = 0 then (True, sys)
                  else (True, sys \<lparr> app := (app sys) \<lparr> ctx := (ctx (app sys))
                          \<lparr> eventBuffer := markReported (frag_eventSeqs frag) (eventBuffer (ctx (app sys))) \<rparr> \<rparr> \<rparr>)))"

definition updateTag :: "network \<Rightarrow> server_config \<Rightarrow> int \<Rightarrow> tag_id \<Rightarrow> point_sample \<Rightarrow> 'p system \<Rightarrow> bool \<times> 'p system" where
  "updateTag net cfg now tag smp sys =
     maybeSendUnsolicited net cfg now (sys \<lparr> app := (app sys) \<lparr> ctx := apply_tag tag smp now (ctx (app sys)) \<rparr> \<rparr>)"


section \<open>The transmit path\<close>

text \<open>What sending leaves alone: the receive path, the addresses and the session.\<close>

definition same_receive :: "connection \<Rightarrow> connection \<Rightarrow> bool" where
  "same_receive c d \<longleftrightarrow> reader d = reader c \<and> reassembler d = reassembler c \<and> masterAddress d = masterAddress c
     \<and> conn_session d = conn_session c"

definition queue_ok :: "network \<Rightarrow> server_config \<Rightarrow> connection \<Rightarrow> bool" where
  "queue_ok net cfg c \<longleftrightarrow> destroyed c \<or> written c = [] \<or> snd (net (written c)) \<le> maxTxQueueBytes cfg"

lemma transmit_frame:
  "same_receive c (transmit net cfg b c) \<and> transportSeq (transmit net cfg b c) = transportSeq c"
  by (simp add: transmit_def same_receive_def Let_def split: prod.splits)

lemma transmit_queue: "queue_ok net cfg c \<Longrightarrow> queue_ok net cfg (transmit net cfg b c)"
  by (simp add: transmit_def queue_ok_def Let_def split: prod.splits)

lemma transmit_written:
  "written (transmit net cfg b c) = (if destroyed c then written c else written c @ [b])"
  "destroyed c \<Longrightarrow> destroyed (transmit net cfg b c)"
  by (simp_all add: transmit_def Let_def split: prod.splits)

abbreviation response_control :: nat where
  "response_control \<equiv> unat (buildResponseControl (DNP3_LINK_FUNCTION UNCONFIRMED_USER_DATA) False False)"

lemma send_segments_ok:
  assumes "list_all (\<lambda>seg. \<exists>frame. buildLinkFrame response_control (masterAddress c) (localAddress cfg) seg = Inr frame) segs"
    and "queue_ok net cfg c"
  shows "\<exists>frames c'. send_segments net cfg segs c = (True, c')
    \<and> list_all2 (\<lambda>seg frame. buildLinkFrame response_control (masterAddress c) (localAddress cfg) seg = Inr frame) segs frames
    \<and> same_receive c c' \<and> transportSeq c' = transportSeq c \<and> queue_ok net cfg c' \<and> (destroyed c \<longrightarrow> destroyed c')
    \<and> (\<exists>k. written c' = written c @ take k frames) \<and> (\<not> destroyed c' \<longrightarrow> written c' = written c @ frames)"
  using assms
proof (induction segs arbitrary: c)
  case Nil
  then show ?case by (simp add: same_receive_def)
next
  case (Cons seg segs)
  then obtain frame where f: "buildLinkFrame response_control (masterAddress c) (localAddress cfg) seg = Inr frame" by auto
  let ?d = "transmit net cfg frame c"
  have d: "same_receive c ?d" "transportSeq ?d = transportSeq c" using transmit_frame by blast+
  then have m: "masterAddress ?d = masterAddress c" by (simp add: same_receive_def)
  have "list_all (\<lambda>seg. \<exists>frame. buildLinkFrame response_control (masterAddress ?d) (localAddress cfg) seg = Inr frame) segs"
    using Cons.prems(1) m by simp
  from Cons.IH [OF this transmit_queue [OF Cons.prems(2)]] obtain frames c' where
    IH: "send_segments net cfg segs ?d = (True, c')"
    "list_all2 (\<lambda>seg frame. buildLinkFrame response_control (masterAddress ?d) (localAddress cfg) seg = Inr frame) segs frames"
    "same_receive ?d c'" "transportSeq c' = transportSeq ?d" "queue_ok net cfg c'" "destroyed ?d \<longrightarrow> destroyed c'"
    "\<exists>k. written c' = written ?d @ take k frames" "\<not> destroyed c' \<longrightarrow> written c' = written ?d @ frames" by metis
  have "\<exists>k. written c' = written c @ take k (frame # frames)"
  proof (cases "destroyed c")
    case True
    then have "?d = c" by (simp add: transmit_def)
    show ?thesis
    proof (cases segs)
      case Nil
      with IH(1) \<open>?d = c\<close> show ?thesis by (auto intro: exI [of _ 0])
    next
      case Cons
      have "destroyed e \<Longrightarrow> send_segments net cfg ss e = (ok, e') \<Longrightarrow> e' = e" for ss e e' ok
        by (induction ss arbitrary: e) (auto simp: transmit_def split: sum.splits)
      with IH(1) \<open>?d = c\<close> True show ?thesis by (metis append_Nil2 take0)
    qed
  next
    case False
    then obtain k where "written c' = written c @ [frame] @ take k frames" using IH(7) transmit_written(1) [where net = net and cfg = cfg and b = frame and c = c] by auto
    then show ?thesis by (intro exI [of _ "Suc k"]) simp
  qed
  moreover have "\<not> destroyed c' \<longrightarrow> written c' = written c @ frame # frames"
    using IH(6,8) transmit_written [where net = net and cfg = cfg and b = frame and c = c] by (cases "destroyed c") auto
  moreover have "destroyed c \<longrightarrow> destroyed c'" using IH(6) transmit_written(2) by blast
  ultimately show ?case using f IH d m by (auto simp: same_receive_def)
qed

lemma sendFragment_ok:
  assumes "queue_ok net cfg c"
  obtains segs frames c' where "sendFragment net cfg f c = (True, c')"
    "segment f (transportSeq c) DEFAULT_MAX_SEGMENT_PAYLOAD = Inr segs"
    "list_all2 (\<lambda>seg frame. buildLinkFrame response_control (masterAddress c) (localAddress cfg) seg = Inr frame) segs frames"
    "same_receive c c'" "queue_ok net cfg c'" "destroyed c \<longrightarrow> destroyed c'"
    "\<not> destroyed c' \<longrightarrow> written c' = written c @ frames"
proof -
  obtain segs where segs: "segment f (transportSeq c) DEFAULT_MAX_SEGMENT_PAYLOAD = Inr segs"
    "list_all (\<lambda>seg. \<exists>frame. buildLinkFrame response_control (masterAddress c) (localAddress cfg) seg = Inr frame) segs"
    using segment_default [of f "transportSeq c" response_control "masterAddress c" "localAddress cfg"]
    by (auto simp: list_all_iff)
  let ?c = "c \<lparr> transportSeq := (transportSeq c + of_nat (length segs)) AND TRANSPORT_SEQ_MASK \<rparr>"
  have "queue_ok net cfg ?c" using assms by (simp add: queue_ok_def)
  with send_segments_ok [where c = ?c and cfg = cfg and segs = segs and net = net] segs(2) obtain frames c' where
    "send_segments net cfg segs ?c = (True, c')"
    "list_all2 (\<lambda>seg frame. buildLinkFrame response_control (masterAddress c) (localAddress cfg) seg = Inr frame) segs frames"
    "same_receive ?c c'" "queue_ok net cfg c'" "destroyed c \<longrightarrow> destroyed c'"
    "\<not> destroyed c' \<longrightarrow> written c' = written c @ frames" by auto
  then show ?thesis using segs(1) by (intro that) (simp_all add: sendFragment_def same_receive_def)
qed


text \<open>C16: What the outstation answers is what the master gets. Sending a fragment never throws and keeps the
  transmit queue within its bound (or drops the connection). While the connection stands, the octets
  written are link frames that a frame reader cuts out of the stream one by one, addressed from the
  outstation to the master, and a master's reassembler, in whatever state, completes exactly at the last
  one with exactly the fragment.\<close>

theorem fragment_reaches_master:
  assumes "queue_ok net cfg c" "sendFragment net cfg f c = (ok, c')"
  shows "ok \<and> queue_ok net cfg c' \<and> (\<not> destroyed c' \<longrightarrow>
    (\<exists>frames. written c' = written c @ frames
      \<and> snd (drain (r \<lparr> fr_buffer := concat frames \<rparr>)) = frames
      \<and> list_all (\<lambda>frame. \<exists>h seg. extractPayload frame = Some (h, seg)
           \<and> lh_destination h = masterAddress c mod 65536 \<and> lh_source h = localAddress cfg mod 65536) frames
      \<and> accept_all st (map (\<lambda>frame. snd (the (extractPayload frame))) frames)
          = (None, replicate (length frames - 1) Dnp3_Transport.pending @ [complete f])))"
proof -
  from sendFragment_ok [OF assms(1), of f] obtain segs frames where
    S: "ok" "queue_ok net cfg c'" "segment f (transportSeq c) DEFAULT_MAX_SEGMENT_PAYLOAD = Inr segs"
    "list_all2 (\<lambda>seg frame. buildLinkFrame response_control (masterAddress c) (localAddress cfg) seg = Inr frame) segs frames"
    "\<not> destroyed c' \<longrightarrow> written c' = written c @ frames" using assms(2) by (metis prod.inject)
  have ex: "\<exists>h. extractPayload frame = Some (h, seg) \<and> lh_destination h = masterAddress c mod 65536
      \<and> lh_source h = localAddress cfg mod 65536"
    if "buildLinkFrame response_control (masterAddress c) (localAddress cfg) seg = Inr frame" for seg frame
    using extract_build [OF that, of "[]"] by auto
  have payloads: "map (\<lambda>frame. snd (the (extractPayload frame))) frames = segs"
    using S(4)
  proof (induction rule: list_all2_induct)
    case (Cons seg segs frame frames)
    then show ?case using ex [OF Cons(1)] by auto
  qed simp
  have "list_all is_link_frame frames"
    using S(4) by (induction rule: list_all2_induct) (auto simp: is_link_frame_def)
  from drain_frames [OF this, of r 0 0] have "snd (drain (r \<lparr> fr_buffer := concat frames \<rparr>)) = frames"
    by (simp add: at_def)
  moreover have "list_all (\<lambda>frame. \<exists>h seg. extractPayload frame = Some (h, seg)
      \<and> lh_destination h = masterAddress c mod 65536 \<and> lh_source h = localAddress cfg mod 65536) frames"
    using S(4) ex by (fastforce simp: list_all_length list_all2_conv_all_nth)
  moreover have "length frames = length segs" using S(4) by (simp add: list_all2_lengthD)
  ultimately show ?thesis using S(1,2,5) segment_accept [OF S(3), of st] payloads by auto
qed


section \<open>The interface between the server and the application\<close>

text \<open>
  What the server relies on: an application invariant and a condition on sessions that a fresh session meets
  and that every call of the dispatcher, and every unsolicited fragment of the right kind, keep.
\<close>

definition fresh_session :: "nat \<Rightarrow> session" where
  "fresh_session a = \<lparr> sav5AssociationId = a, pendingFragments = [], awaitingConfirm = None \<rparr>"

definition conn_ok :: "network \<Rightarrow> server_config \<Rightarrow> (session \<Rightarrow> bool) \<Rightarrow> connection \<Rightarrow> bool" where
  "conn_ok net cfg sess c \<longleftrightarrow> queue_ok net cfg c \<and> length (fr_buffer (reader c)) < DNP3_MAX_LINK_FRAME_BYTES
     \<and> sess (conn_session c)"

definition server_ok :: "network \<Rightarrow> server_config \<Rightarrow> ('w \<Rightarrow> bool) \<Rightarrow> (session \<Rightarrow> bool) \<Rightarrow> 'w server \<Rightarrow> bool" where
  "server_ok net cfg winv sess srv \<longleftrightarrow> winv (app srv) \<and> length (connections srv) \<le> maxConnections cfg
     \<and> list_all (conn_ok net cfg sess) (connections srv)"

lemma push_keeps_little: "length (fr_buffer (fst (push r chunk))) < DNP3_MAX_LINK_FRAME_BYTES"
  using drain_keeps_little [of r 0 0 "fr_buffer r @ chunk"]
  by (auto simp: push_def at_def DNP3_MAX_LINK_FRAME_BYTES_def DNP3_LINK_HEADER_BYTES_def
      DNP3_BLOCK_SIZE_def ceil_div_def split_def Let_def)

lemma conn_ok_send:
  assumes "conn_ok net cfg sess c" "sendFragment net cfg f c = (ok, c')"
  shows "ok \<and> conn_ok net cfg sess c'"
proof -
  have "queue_ok net cfg c" using assms(1) by (simp add: conn_ok_def)
  from sendFragment_ok [OF this, of f] assms(2) have "ok" "same_receive c c'" "queue_ok net cfg c'" by (metis prod.inject)+
  with assms(1) show ?thesis by (simp add: conn_ok_def same_receive_def)
qed

lemma conn_ok_status:
  assumes "conn_ok net cfg sess c" "sendLinkStatus net cfg c = (ok, c')"
  shows "ok \<and> conn_ok net cfg sess c'"
proof -
  obtain frame where "buildLinkFrame (unat (buildResponseControl (DNP3_LINK_FUNCTION LINK_STATUS) False False))
      (masterAddress c) (localAddress cfg) [] = Inr frame" by (simp add: buildLinkFrame_def Let_def)
  with assms(2) have "ok" "c' = transmit net cfg frame c" by (simp_all add: sendLinkStatus_def)
  with assms(1) transmit_frame [where net = net and cfg = cfg and b = frame and c = c] transmit_queue [of net cfg c]
  show ?thesis by (simp add: conn_ok_def same_receive_def)
qed

locale application =
  fixes disp :: "('e, 'w) application_dispatcher"
    and winv :: "'w \<Rightarrow> bool"
    and sess :: "session \<Rightarrow> bool"
    and good :: "fragment \<Rightarrow> bool"
  assumes fresh: "sess (fresh_session a)"
    and dispatch_law: "winv w \<Longrightarrow> sess s \<Longrightarrow> ad_dispatch disp e req s w = (out, s', w') \<Longrightarrow> winv w' \<and> sess s'"
    and reply_law: "winv w \<Longrightarrow> sess s \<Longrightarrow> ad_dispatchSecureAuthReply disp e req s w = (out, s', w') \<Longrightarrow> winv w' \<and> sess s'"
    and closed_law: "winv w \<Longrightarrow> winv (ad_onAssociationClosed disp s w)"
    and await_law: "sess s \<Longrightarrow> good f \<Longrightarrow> sess (s \<lparr> awaitingConfirm := Some f \<rparr>)"
begin

lemma processFrame_ok:
  assumes "processFrame net cfg disp e frame (c, w) = (ok, c', w')" "winv w" "conn_ok net cfg sess c"
  shows "ok \<and> winv w' \<and> conn_ok net cfg sess c'"
proof (cases "extractPayload frame")
  case None
  with assms show ?thesis by (simp add: processFrame_def)
next
  case (Some hp)
  obtain h payload where hp: "hp = (h, payload)" by fastforce
  let ?c = "c \<lparr> masterAddress := lh_source h \<rparr>"
  have c: "conn_ok net cfg sess ?c" using assms(3) by (simp add: conn_ok_def queue_ok_def)
  show ?thesis
  proof (cases "payload = []")
    case True
    with assms Some hp c conn_ok_status [OF c] show ?thesis
      by (auto simp: processFrame_def Let_def split: if_splits prod.splits)
  next
    case False
    obtain st result where acc: "accept (reassembler ?c) payload = (st, result)" by fastforce
    let ?d = "?c \<lparr> reassembler := st \<rparr>"
    have d: "conn_ok net cfg sess ?d" using c by (simp add: conn_ok_def queue_ok_def)
    show ?thesis
    proof (cases "\<exists>frag req. rr_error result = None \<and> rr_fragment result = Some frag \<and> parseRequest frag = Some req")
      case quiet: False
      with assms Some hp False acc d show ?thesis by (auto simp: processFrame_def Let_def split: option.splits)
    next
      case True
      then obtain frag req where fr: "rr_error result = None" "rr_fragment result = Some frag" "parseRequest frag = Some req"
        by blast
      define call where "call = (if func req = DNP3_FUNCTION AUTH_REQUEST
          then ad_dispatchSecureAuthReply disp e req (conn_session ?d) w else ad_dispatch disp e req (conn_session ?d) w)"
      obtain resp s w1 where call: "call = (resp, s, w1)" by (metis prod_cases3)
      have sd: "sess (conn_session ?d)" using d by (simp add: conn_ok_def)
      have laws: "winv w1 \<and> sess s"
        using call dispatch_law [OF assms(2) sd] reply_law [OF assms(2) sd] unfolding call_def by (metis (full_types))
      let ?s = "?d \<lparr> conn_session := s \<rparr>"
      have ok: "conn_ok net cfg sess ?s" using d laws by (simp add: conn_ok_def queue_ok_def)
      have "processFrame net cfg disp e frame (c, w) = (if length resp > 0 \<and> \<not> destroyed ?s
          then (case sendFragment net cfg resp ?s of (ok, conn) \<Rightarrow> (ok, conn, w1)) else (True, ?s, w1))"
        using Some hp False acc fr call unfolding processFrame_def call_def by (simp add: Let_def)
      with assms(1) laws ok conn_ok_send [OF ok] show ?thesis by (auto split: if_splits prod.splits)
    qed
  qed
qed

lemma process_frames_ok:
  "process_frames net cfg disp env i fs (c, w) = (ok, c', w') \<Longrightarrow> winv w \<Longrightarrow> conn_ok net cfg sess c \<Longrightarrow>
     ok \<and> winv w' \<and> conn_ok net cfg sess c'"
proof (induction fs arbitrary: i c w)
  case (Cons f fs)
  obtain o1 c1 w1 where p: "processFrame net cfg disp (env i) f (c, w) = (o1, c1, w1)" by (metis prod_cases3)
  note P = processFrame_ok [OF p Cons.prems(2,3)]
  with p Cons.prems(1) Cons.IH [of "i + 1" c1 w1] show ?case using Cons.prems(2,3) by (auto split: if_splits)
qed simp

lemma on_data_ok:
  assumes "on_data net cfg disp env chunk (c, w) = (ok, c', w')" "winv w" "conn_ok net cfg sess c"
  shows "ok \<and> winv w' \<and> conn_ok net cfg sess c'"
proof -
  obtain r res where p: "push (reader c) chunk = (r, res)" by fastforce
  have "length (fr_buffer r) < DNP3_MAX_LINK_FRAME_BYTES" using push_keeps_little [of "reader c" chunk] p by simp
  then have ok: "conn_ok net cfg sess (c \<lparr> reader := r \<rparr>)" "conn_ok net cfg sess (c \<lparr> reader := r, destroyed := True \<rparr>)"
    using assms(3) by (simp_all add: conn_ok_def queue_ok_def)
  with assms p process_frames_ok [of net cfg env 0 "frr_frames res" "c \<lparr> reader := r \<rparr>" w] show ?thesis
    by (auto simp: on_data_def Let_def split: if_splits)
qed

lemma server_data_ok:
  assumes "server_data net cfg disp env i chunk srv = (ok, srv')" "server_ok net cfg winv sess srv"
  shows "ok \<and> server_ok net cfg winv sess srv'"
proof (cases "i < length (connections srv) \<and> \<not> destroyed (connections srv ! i)")
  case True
  obtain o1 c w where d: "on_data net cfg disp env chunk (connections srv ! i, app srv) = (o1, c, w)" by (metis prod_cases3)
  have "conn_ok net cfg sess (connections srv ! i)" "winv (app srv)"
    using assms(2) True by (simp_all add: server_ok_def list_all_length)
  from on_data_ok [OF d this(2,1)] True d assms show ?thesis
    by (auto simp: server_data_def server_ok_def list_all_iff dest!: set_update_subset_insert [THEN subsetD])
qed (use assms in \<open>auto simp: server_data_def\<close>)

lemma onConnection_ok:
  assumes "server_ok net cfg winv sess srv"
  shows "server_ok net cfg winv sess (onConnection cfg peer srv)"
  using assms fresh
  by (auto simp: onConnection_def admit_def server_ok_def conn_ok_def queue_ok_def createSession_def fresh_session_def
      new_reader_def DNP3_MAX_LINK_FRAME_BYTES_def DNP3_LINK_HEADER_BYTES_def split: sum.splits if_splits)

lemma server_close_ok: "server_ok net cfg winv sess srv \<Longrightarrow> server_ok net cfg winv sess (server_close disp i srv)"
  using closed_law by (auto simp: server_close_def server_ok_def list_all_iff dest: in_set_takeD in_set_dropD)

lemma server_timeout_ok: "server_ok net cfg winv sess srv \<Longrightarrow> server_ok net cfg winv sess (server_timeout i srv)"
  by (auto simp: server_timeout_def server_ok_def list_all_iff conn_ok_def queue_ok_def
      dest!: set_update_subset_insert [THEN subsetD])

lemma broadcast_ok:
  "broadcast net cfg frag conns = (ok, n, conns') \<Longrightarrow> list_all (conn_ok net cfg sess) conns \<Longrightarrow> good frag \<Longrightarrow>
     ok \<and> length conns' = length conns \<and> list_all (conn_ok net cfg sess) conns'"
proof (induction conns arbitrary: ok n conns')
  case (Cons c conns)
  obtain o1 n1 cs1 where b: "broadcast net cfg frag conns = (o1, n1, cs1)" by (metis prod_cases3)
  note IH = Cons.IH [OF b]
  let ?c = "c \<lparr> conn_session := (conn_session c) \<lparr> awaitingConfirm := Some frag \<rparr> \<rparr>"
  have "conn_ok net cfg sess ?c" using Cons.prems await_law by (simp add: conn_ok_def queue_ok_def)
  note S = conn_ok_send [OF this, of "frag_bytes frag"]
  show ?case
  proof (cases "awaitingConfirm (conn_session c) = None")
    case True
    obtain o2 c2 where s: "sendFragment net cfg (frag_bytes frag) ?c = (o2, c2)" by fastforce
    from S [OF this] b s True IH Cons.prems show ?thesis by auto
  qed (use b IH Cons.prems in auto)
qed simp

end


section \<open>Runs of the whole system\<close>

definition server_drain :: "nat \<Rightarrow> 'w server \<Rightarrow> 'w server" where
  "server_drain i srv =
     (if i < length (connections srv)
      then srv \<lparr> connections := (connections srv)[i := on_drain (connections srv ! i)] \<rparr> else srv)"

inductive system_step :: "network \<Rightarrow> server_config \<Rightarrow> hmac \<Rightarrow> nat \<Rightarrow> 'p system \<Rightarrow> 'p system \<Rightarrow> bool"
  for net cfg hmac user where
  step_connect: "system_step net cfg hmac user sys (onConnection cfg peer sys)"
| step_data: "server_data net cfg (outstation_dispatcher hmac user) env i chunk sys = (ok, sys') \<Longrightarrow>
    system_step net cfg hmac user sys sys'"
| step_drain: "system_step net cfg hmac user sys (server_drain i sys)"
| step_timeout: "system_step net cfg hmac user sys (server_timeout i sys)"
| step_close: "system_step net cfg hmac user sys (server_close (outstation_dispatcher hmac user) i sys)"
| step_tag: "updateTag net cfg now tag smp sys = (ok, sys') \<Longrightarrow> system_step net cfg hmac user sys sys'"
| step_tick: "maybeSendUnsolicited net cfg now sys = (ok, sys') \<Longrightarrow> system_step net cfg hmac user sys sys'"

text \<open>The outstation as an application of the server, with its own steps.\<close>

locale outstation_application = application "outstation_dispatcher hmac user" winv sess good
  for hmac :: hmac and user :: nat and winv :: "'p outstation \<Rightarrow> bool" and sess and good +
  assumes tag_law: "winv w \<Longrightarrow> winv (w \<lparr> ctx := apply_tag tag smp now (ctx w) \<rparr>)"
    and reported_law: "winv w \<Longrightarrow> winv (w \<lparr> ctx := (ctx w) \<lparr> eventBuffer := markReported seqs (eventBuffer (ctx w)) \<rparr> \<rparr>)"
    and counter_law: "winv w \<Longrightarrow> winv (w \<lparr> unsolicitedSeq := q \<rparr>)"
    and unsolicited_law: "unsolicited_fragment now q (ctx w) = Some (Some (frag, nxt)) \<Longrightarrow> good frag"
begin

lemma maybeSendUnsolicited_ok:
  assumes "maybeSendUnsolicited net cfg now sys = (ok, sys')" "server_ok net cfg winv sess sys"
  shows "server_ok net cfg winv sess sys'"
proof (cases "\<exists>frag nxt. unsolicited_fragment now (unsolicitedSeq (app sys)) (ctx (app sys)) = Some (Some (frag, nxt))")
  case False
  with assms show ?thesis by (auto simp: maybeSendUnsolicited_def split: option.splits)
next
  case True
  then obtain frag nxt where u: "unsolicited_fragment now (unsolicitedSeq (app sys)) (ctx (app sys)) = Some (Some (frag, nxt))"
    by blast
  let ?sys = "sys \<lparr> app := (app sys) \<lparr> unsolicitedSeq := nxt \<rparr> \<rparr>"
  obtain o1 n conns where b: "broadcast net cfg frag (connections sys) = (o1, n, conns)" by (metis prod_cases3)
  have "list_all (conn_ok net cfg sess) (connections sys)" using assms(2) by (simp add: server_ok_def)
  from broadcast_ok [OF b this unsolicited_law [OF u]] have B: "o1" "length conns = length (connections sys)"
    "list_all (conn_ok net cfg sess) conns" by simp_all
  have w: "winv (app ?sys)" using assms(2) counter_law by (simp add: server_ok_def)
  from u b B(1) assms(1) have "sys' = ?sys \<lparr> connections := conns \<rparr>
      \<or> sys' = ?sys \<lparr> connections := conns, app := (app ?sys) \<lparr> ctx := (ctx (app ?sys))
            \<lparr> eventBuffer := markReported (frag_eventSeqs frag) (eventBuffer (ctx (app ?sys))) \<rparr> \<rparr> \<rparr>"
    by (auto simp: maybeSendUnsolicited_def broadcastUnsolicited_def Let_def split: if_splits)
  with w B reported_law [OF w] assms(2) show ?thesis by (auto simp: server_ok_def)
qed

lemma updateTag_ok:
  assumes "updateTag net cfg now tag smp sys = (ok, sys')" "server_ok net cfg winv sess sys"
  shows "server_ok net cfg winv sess sys'"
proof -
  have "server_ok net cfg winv sess (sys \<lparr> app := (app sys) \<lparr> ctx := apply_tag tag smp now (ctx (app sys)) \<rparr> \<rparr>)"
    using assms(2) tag_law by (simp add: server_ok_def)
  with assms(1) maybeSendUnsolicited_ok show ?thesis unfolding updateTag_def by blast
qed

lemma server_drain_ok: "server_ok net cfg winv sess srv \<Longrightarrow> server_ok net cfg winv sess (server_drain i srv)"
  by (auto simp: server_drain_def server_ok_def list_all_iff conn_ok_def queue_ok_def on_drain_def
      dest!: set_update_subset_insert [THEN subsetD])

lemma system_step_ok:
  "system_step net cfg hmac user sys sys' \<Longrightarrow> server_ok net cfg winv sess sys \<Longrightarrow> server_ok net cfg winv sess sys'"
proof (induction rule: system_step.induct)
  case (step_data env i chunk sys ok sys')
  then show ?case using server_data_ok by blast
next
  case (step_tag now tag smp sys ok sys')
  then show ?case using updateTag_ok by blast
next
  case (step_tick now sys ok sys')
  then show ?case using maybeSendUnsolicited_ok by blast
qed (simp_all add: onConnection_ok server_drain_ok server_timeout_ok server_close_ok)

lemma system_run_ok:
  "(system_step net cfg hmac user)\<^sup>*\<^sup>* sys sys' \<Longrightarrow> server_ok net cfg winv sess sys \<Longrightarrow> server_ok net cfg winv sess sys'"
  by (induction rule: rtranclp_induct) (auto intro: system_step_ok)

end

subsection \<open>The outstation invariant\<close>

definition outstation_inv :: "'p outstation \<Rightarrow> bool" where
  "outstation_inv w \<longleftrightarrow> event_buffer_inv (eventBuffer (ctx w)) \<and> 64 \<le> maxTxFragmentSize (ctx w)"

lemma outstation_inv_step:
  "outstation_inv w \<Longrightarrow> buffer_step (ctx w) c \<Longrightarrow> maxTxFragmentSize c = maxTxFragmentSize (ctx w) \<Longrightarrow>
     outstation_inv (w \<lparr> ctx := c, plant := p \<rparr>)"
  using event_buffer.step_inv by (auto simp: outstation_inv_def buffer_step_def)

lemma fold_enqueue_change_inv: "event_buffer_inv b \<Longrightarrow> event_buffer_inv (fold (enqueue_change now pm) keys b)"
proof (induction keys arbitrary: b)
  case (Cons k keys)
  have "event_buffer_inv (enqueue_change now pm k b)"
    using Cons.prems event_buffer.step_inv [of b "Enqueue _"]
    by (auto simp: enqueue_change_def split: option.splits)
  with Cons.IH show ?case by simp
qed simp

lemma reply_inv:
  assumes "dispatchSecureAuthReply hmac random (ctx w) req now s (plant w) = (out, c, s', p)" "outstation_inv w" "session_ok s"
  shows "outstation_inv (w \<lparr> ctx := c, plant := p \<rparr>) \<and> session_ok s'"
  using assms(1)
proof (cases rule: dispatchSecureAuthReply_cases)
  case (nothing sa)
  with assms show ?thesis by (simp add: outstation_inv_def)
next
  case (executed sa asdu areq u r)
  from handle_buffer [OF executed(2)] handle_session [OF executed(2) assms(3)] assms(2) outstation_inv_step [of w c p]
  show ?thesis by (auto simp: buffer_step_def outstation_inv_def)
qed

interpretation outstation_server: outstation_application hmac user outstation_inv session_ok
    "\<lambda>f. carries (frag_bytes f) (frag_eventSeqs f)" for hmac user
proof
  show "session_ok (fresh_session a)" for a by (simp add: session_ok_def fresh_session_def)
next
  fix w :: "'p outstation" and s e req out s' w'
  assume a: "outstation_inv w" "session_ok s" "ad_dispatch (outstation_dispatcher hmac user) e req s w = (out, s', w')"
  then obtain now random c p where d: "dispatch random user (ctx w) req now s (plant w) = (out, c, s', p)"
    "w' = w \<lparr> ctx := c, plant := p \<rparr>" by (auto simp: outstation_dispatcher_def split: prod.splits)
  then obtain r where "handleApplicationRequest random (ctx w) req user now False s (plant w) = (r, c, s', p)"
    using dispatch_handle [OF d(1)] by blast
  from handle_buffer [OF this] handle_session [OF this a(2)] a(1) d(2) outstation_inv_step
  show "outstation_inv w' \<and> session_ok s'" by (auto simp: outstation_inv_def)
next
  fix w :: "'p outstation" and s e req out s' w'
  assume a: "outstation_inv w" "session_ok s"
    "ad_dispatchSecureAuthReply (outstation_dispatcher hmac user) e req s w = (out, s', w')"
  then obtain now random c p where d: "dispatchSecureAuthReply hmac random (ctx w) req now s (plant w) = (out, c, s', p)"
    "w' = w \<lparr> ctx := c, plant := p \<rparr>" by (auto simp: outstation_dispatcher_def split: prod.splits)
  from reply_inv [OF d(1) a(1,2)] d(2) show "outstation_inv w' \<and> session_ok s'" by simp
next
  show "outstation_inv w \<Longrightarrow> outstation_inv (ad_onAssociationClosed (outstation_dispatcher hmac user) s w)" for w :: "'p outstation" and s
    by (simp add: outstation_inv_def outstation_dispatcher_def onAssociationClosed_def)
next
  show "session_ok s \<Longrightarrow> carries (frag_bytes f) (frag_eventSeqs f) \<Longrightarrow> session_ok (s \<lparr> awaitingConfirm := Some f \<rparr>)" for s f
    by (auto simp: session_ok_def)
next
  show "outstation_inv w \<Longrightarrow> outstation_inv (w \<lparr> ctx := apply_tag tag smp now (ctx w) \<rparr>)" for w :: "'p outstation" and tag smp now
    using fold_enqueue_change_inv by (auto simp: outstation_inv_def apply_tag_def split: prod.splits)
next
  show "outstation_inv w \<Longrightarrow> outstation_inv (w \<lparr> ctx := (ctx w) \<lparr> eventBuffer := markReported seqs (eventBuffer (ctx w)) \<rparr> \<rparr>)"
    for w :: "'p outstation" and seqs
    using event_buffer.step_inv [of "eventBuffer (ctx w)" "MarkReported seqs"] by (simp add: outstation_inv_def)
next
  show "outstation_inv w \<Longrightarrow> outstation_inv (w \<lparr> unsolicitedSeq := q \<rparr>)" for w :: "'p outstation" and q
    by (simp add: outstation_inv_def)
next
  fix now q frag nxt and w :: "'p outstation"
  assume "unsolicited_fragment now q (ctx w) = Some (Some (frag, nxt))"
  then obtain evs r pre where "buildEventObjects evs (pointMap (ctx w)) (eventVariations (ctx w)) (Some (read_budget (ctx w))) = Some r"
    "frag_bytes frag = pre @ enc_bytes r" "frag_eventSeqs frag = encodedSeqs r"
    by (auto simp: unsolicited_fragment_def Let_def split: if_splits option.splits)
  then show "carries (frag_bytes frag) (frag_eventSeqs frag)" unfolding carries_def by blast
qed


subsection \<open>The system refines the outstation\<close>

text \<open>Every step of the system, seen on the outstation's state and the plant, is steps of \<open>outstation_run\<close>.\<close>

definition traced :: "hmac \<Rightarrow> nat \<Rightarrow> 'p outstation_context \<Rightarrow> 'p \<Rightarrow> 'p outstation \<Rightarrow> bool" where
  "traced hmac user c\<^sub>0 p\<^sub>0 w \<longleftrightarrow> (\<exists>log. outstation_run hmac user c\<^sub>0 p\<^sub>0 log (ctx w) (plant w))"

interpretation traced_server: outstation_application hmac user "traced hmac user c\<^sub>0 p\<^sub>0" "\<lambda>_. True" "\<lambda>_. True"
  for hmac user and c\<^sub>0 :: "'p outstation_context" and p\<^sub>0
proof
  fix w :: "'p outstation" and s e req out s' w'
  assume "traced hmac user c\<^sub>0 p\<^sub>0 w" "ad_dispatch (outstation_dispatcher hmac user) e req s w = (out, s', w')"
  then obtain log now random c p where "outstation_run hmac user c\<^sub>0 p\<^sub>0 log (ctx w) (plant w)"
    "dispatch random user (ctx w) req now s (plant w) = (out, c, s', p)" "w' = w \<lparr> ctx := c, plant := p \<rparr>"
    by (auto simp: traced_def outstation_dispatcher_def split: prod.splits)
  with run_request [OF this(1,2)] show "traced hmac user c\<^sub>0 p\<^sub>0 w' \<and> True" by (auto simp: traced_def)
next
  fix w :: "'p outstation" and s e req out s' w'
  assume "traced hmac user c\<^sub>0 p\<^sub>0 w"
    "ad_dispatchSecureAuthReply (outstation_dispatcher hmac user) e req s w = (out, s', w')"
  then obtain log now random c p where "outstation_run hmac user c\<^sub>0 p\<^sub>0 log (ctx w) (plant w)"
    "dispatchSecureAuthReply hmac random (ctx w) req now s (plant w) = (out, c, s', p)" "w' = w \<lparr> ctx := c, plant := p \<rparr>"
    by (auto simp: traced_def outstation_dispatcher_def split: prod.splits)
  with run_reply [OF this(1,2)] show "traced hmac user c\<^sub>0 p\<^sub>0 w' \<and> True" by (auto simp: traced_def)
qed (auto simp: traced_def outstation_dispatcher_def intro: run_closed run_tag run_reported)

section \<open>Properties\<close>

text \<open>C15: The server keeps its promises in every state it can reach, whatever peers connect, whatever octets
  arrive on whichever connection, and however tag updates, timer ticks, timeouts and closes are interleaved:
  at most the configured number of connections; each with a receive buffer below one maximal frame, a
  transmit queue within its bound unless it is dropped, and a session whose fragments carry exactly the
  events they are charged with; and an event buffer that keeps its invariant.\<close>

theorem server_invariant:
  assumes "(system_step net cfg hmac user)\<^sup>*\<^sup>* sys sys'" "server_ok net cfg outstation_inv session_ok sys"
  shows "server_ok net cfg outstation_inv session_ok sys'"
  using outstation_server.system_run_ok [OF assms] .

text \<open>C1: The whole system, octets included, refines the outstation. Every run of the server with its connections is
  a run of the outstation's own steps, so with a provisioned key the plant is the start plant after some of
  the commands of authenticated fragments, in order, whatever octets peers send.\<close>

theorem system_refines_outstation:
  assumes "(system_step net cfg hmac user)\<^sup>*\<^sup>* sys sys'" "connections sys = []"
  shows "\<exists>log. outstation_run hmac user (ctx (app sys)) (plant (app sys)) log (ctx (app sys')) (plant (app sys'))
    \<and> (hasUser user (secureAuth (ctx (app sys))) \<longrightarrow>
         (\<exists>cs. plant (app sys') = apply_sink (the (controlSink (ctx (app sys)))) cs (plant (app sys)) \<and> subseq cs (concat (map snd log))))"
proof -
  have "server_ok net cfg (traced hmac user (ctx (app sys)) (plant (app sys))) (\<lambda>_. True) sys"
    using assms(2) run_start [of hmac user "ctx (app sys)" "plant (app sys)"] by (auto simp: server_ok_def traced_def)
  from traced_server.system_run_ok [OF assms(1) this] obtain log where
    "outstation_run hmac user (ctx (app sys)) (plant (app sys)) log (ctx (app sys')) (plant (app sys'))"
    by (auto simp: server_ok_def traced_def)
  with outstation_run_log [OF this] show ?thesis by blast
qed

definition example_system :: "control_command list system" where
  "example_system = \<lparr> connections = [], rejectedConnections = 0, nextAssociationId = 1,
     app = \<lparr> ctx = example_context, plant = [], unsolicitedSeq = 0 \<rparr> \<rparr>"

definition example_server_config :: server_config where
  "example_server_config = (case new_server_config None None None None None of Inr c \<Rightarrow> c
     | Inl _ \<Rightarrow> \<lparr> localAddress = 0, maxConnections = 0, maxRxBufferBytes = 0, maxTxQueueBytes = 0, peerRules = [] \<rparr>)"

lemma example_connect:
  "(system_step net example_server_config hmac user)\<^sup>*\<^sup>* example_system
     (onConnection example_server_config (Some (show_ipv4 [127, 0, 0, 1])) example_system)"
  "length (connections (onConnection example_server_config (Some (show_ipv4 [127, 0, 0, 1])) example_system)) = 1"
proof -
  show "(system_step net example_server_config hmac user)\<^sup>*\<^sup>* example_system
     (onConnection example_server_config (Some (show_ipv4 [127, 0, 0, 1])) example_system)"
    by (intro r_into_rtranclp step_connect)
  have "isPeerAllowed (Some (show_ipv4 [127, 0, 0, 1])) (peerRules example_server_config)"
    by (simp add: example_server_config_def new_server_config_def loopback_rules) code_simp
  then show "length (connections (onConnection example_server_config (Some (show_ipv4 [127, 0, 0, 1])) example_system)) = 1"
    by (simp add: onConnection_def admit_def example_server_config_def new_server_config_def loopback_rules example_system_def
        DEFAULT_MAX_CONNECTIONS_def new_reader_def DEFAULT_MAX_RX_BUFFER_BYTES_def DNP3_MAX_LINK_FRAME_BYTES_def
        DNP3_LINK_HEADER_BYTES_def DNP3_BLOCK_SIZE_def ceil_div_def createSession_def)
qed

theorem server_invariant_witness:
  "\<exists>sys' :: control_command list system. length (connections sys') = 1 \<and> server_ok (\<lambda>_. (True, 0)) example_server_config outstation_inv session_ok sys'"
proof -
  have "server_ok (\<lambda>_. (True, 0)) example_server_config outstation_inv session_ok example_system"
    by (simp add: server_ok_def example_system_def outstation_inv_def example_context_def new_event_buffer_inv)
  from server_invariant [OF example_connect(1) [of _ example_hmac 1] this] example_connect(2) show ?thesis by blast
qed

theorem system_refines_outstation_witness:
  "\<exists>(sys' :: control_command list system) log. length (connections sys') = 1
     \<and> outstation_run example_hmac 1 example_context [] log (ctx (app sys')) (plant (app sys'))"
proof -
  have "connections example_system = []" by (simp add: example_system_def)
  from system_refines_outstation [OF example_connect(1) [of _ example_hmac 1] this] example_connect(2)
  show ?thesis by (auto simp: example_system_def)
qed

definition example_connection :: connection where
  "example_connection = \<lparr> destroyed = False, written = [], paused = False,
     reader = \<lparr> fr_buffer = [], fr_discarded = 0, fr_rejectedHeaders = 0, fr_maxBufferBytes = 8192 \<rparr>, reassembler = None,
     masterAddress = 1, transportSeq = 63, conn_session = fresh_session 1 \<rparr>"

theorem fragment_reaches_master_witness:
  "\<exists>c' frames. sendFragment (\<lambda>_. (True, 0)) example_server_config [0xC0, 0x81, 0, 0] example_connection = (True, c')
     \<and> written c' = frames \<and> frames \<noteq> []
     \<and> accept_all None (map (\<lambda>frame. snd (the (extractPayload frame))) frames)
         = (None, replicate (length frames - 1) Dnp3_Transport.pending @ [complete [0xC0, 0x81, 0, 0]])"
proof -
  have q: "queue_ok (\<lambda>_. (True, 0)) example_server_config example_connection"
    by (simp add: queue_ok_def example_connection_def)
  obtain ok c' where s: "sendFragment (\<lambda>_. (True, 0)) example_server_config [0xC0, 0x81, 0, 0] example_connection = (ok, c')"
    by fastforce
  have t: "\<not> destroyed c \<Longrightarrow> \<not> destroyed (transmit (\<lambda>_. (True, 0)) cfg b c)" for cfg b c
    by (simp add: transmit_def Let_def)
  have "send_segments (\<lambda>_. (True, 0)) cfg segs c = (o1, c1) \<Longrightarrow> \<not> destroyed c \<Longrightarrow> \<not> destroyed c1" for cfg segs c c1 o1
    by (induction segs arbitrary: c) (auto split: sum.splits dest: t)
  with s have "\<not> destroyed c'" by (auto simp: sendFragment_def example_connection_def split: sum.splits)
  with fragment_reaches_master [OF q s, of undefined None] s show ?thesis by (auto simp: example_connection_def)
qed

end
