(* ===== verification/Modbus_Codec.thy ===== *)
theory Modbus_Codec
  imports Prelude
begin

text \<open>
  The Modbus TCP wire codec (\<open>modbus-server/codec.ts\<close> with the numbers of \<open>shared/protocols/modbus-constants.ts\<close>):
  MBAP header, request framing, responses, and the packing of bits and registers. A \<open>ModbusFrameError\<close> is a
  left value.
\<close>

section \<open>Data\<close>

datatype function_code_key = READ_COILS | READ_DISCRETE_INPUTS | READ_HOLDING_REGISTERS | READ_INPUT_REGISTERS
  | WRITE_SINGLE_COIL | WRITE_SINGLE_REGISTER | WRITE_MULTIPLE_COILS | WRITE_MULTIPLE_REGISTERS

primrec FunctionCode :: "function_code_key \<Rightarrow> nat" where
  "FunctionCode READ_COILS = 0x01"
| "FunctionCode READ_DISCRETE_INPUTS = 0x02"
| "FunctionCode READ_HOLDING_REGISTERS = 0x03"
| "FunctionCode READ_INPUT_REGISTERS = 0x04"
| "FunctionCode WRITE_SINGLE_COIL = 0x05"
| "FunctionCode WRITE_SINGLE_REGISTER = 0x06"
| "FunctionCode WRITE_MULTIPLE_COILS = 0x0f"
| "FunctionCode WRITE_MULTIPLE_REGISTERS = 0x10"

datatype exception_code_key = ILLEGAL_FUNCTION | ILLEGAL_DATA_ADDRESS | ILLEGAL_DATA_VALUE | SERVER_DEVICE_FAILURE

primrec ExceptionCode :: "exception_code_key \<Rightarrow> nat" where
  "ExceptionCode ILLEGAL_FUNCTION = 0x01"
| "ExceptionCode ILLEGAL_DATA_ADDRESS = 0x02"
| "ExceptionCode ILLEGAL_DATA_VALUE = 0x03"
| "ExceptionCode SERVER_DEVICE_FAILURE = 0x04"

definition EXCEPTION_FLAG :: byte where "EXCEPTION_FLAG = 0x80"
definition MBAP_HEADER_LENGTH :: nat where "MBAP_HEADER_LENGTH = 7"
definition MODBUS_PROTOCOL_ID :: nat where "MODBUS_PROTOCOL_ID = 0x0000"
definition MAX_READ_BITS :: nat where "MAX_READ_BITS = 0x07d0"
definition MAX_READ_REGISTERS :: nat where "MAX_READ_REGISTERS = 0x007d"
definition MAX_WRITE_COILS :: nat where "MAX_WRITE_COILS = 0x07b0"
definition MAX_WRITE_REGISTERS :: nat where "MAX_WRITE_REGISTERS = 0x007b"

record mbap_header =
  transactionId :: nat
  protocolId :: nat
  mbap_length :: nat
  unitId :: nat

record modbus_request =
  header :: mbap_header
  functionCode :: nat
  data :: buffer

datatype frame_error = HeaderTooShort | UnexpectedProtocolId nat | InvalidMbapLength nat

section \<open>Framing\<close>

definition decodeMbapHeader :: "buffer \<Rightarrow> frame_error + mbap_header" where
  "decodeMbapHeader buf =
     (if length buf < MBAP_HEADER_LENGTH then Inl HeaderTooShort
      else Inr \<lparr> transactionId = readUInt16BE buf 0, protocolId = readUInt16BE buf 2,
                 mbap_length = readUInt16BE buf 4, unitId = unat (buf ! 6) \<rparr>)"

definition encodeMbapHeader :: "mbap_header \<Rightarrow> nat \<Rightarrow> buffer" where
  "encodeMbapHeader h pduLength =
     writeUInt16BE (transactionId h mod 65536) @ writeUInt16BE (protocolId h mod 65536)
     @ writeUInt16BE ((pduLength + 1) mod 65536) @ [of_nat (unitId h)]"

definition decodeRequest :: "buffer \<Rightarrow> frame_error + (modbus_request \<times> nat) option" where
  "decodeRequest buf =
     (if length buf < MBAP_HEADER_LENGTH then Inr None
      else (case decodeMbapHeader buf of
              Inl e \<Rightarrow> Inl e
            | Inr h \<Rightarrow>
                if protocolId h \<noteq> MODBUS_PROTOCOL_ID then Inl (UnexpectedProtocolId (protocolId h))
                else if mbap_length h < 2 then Inl (InvalidMbapLength (mbap_length h))
                else (let frameLength = MBAP_HEADER_LENGTH - 1 + mbap_length h
                      in if length buf < frameLength then Inr None
                         else Inr (Some (\<lparr> header = h, functionCode = unat (buf ! MBAP_HEADER_LENGTH),
                                           data = subarray buf (MBAP_HEADER_LENGTH + 1) frameLength \<rparr>, frameLength)))))"

definition encodeResponse :: "mbap_header \<Rightarrow> nat \<Rightarrow> buffer \<Rightarrow> buffer" where
  "encodeResponse h fc responsePdu = encodeMbapHeader h (1 + length responsePdu) @ [of_nat fc] @ responsePdu"

definition encodeExceptionResponse :: "mbap_header \<Rightarrow> nat \<Rightarrow> nat \<Rightarrow> buffer" where
  "encodeExceptionResponse h fc code = encodeMbapHeader h 2 @ [of_nat fc OR EXCEPTION_FLAG, of_nat code]"

section \<open>Bits and registers\<close>

definition pack_bit :: "bool list \<Rightarrow> nat \<Rightarrow> buffer \<Rightarrow> buffer" where
  "pack_bit bits i out = (if bits ! i then out[i div 8 := out ! (i div 8) OR push_bit (i mod 8) 1] else out)"

definition packBits :: "bool list \<Rightarrow> buffer" where
  "packBits bits = fold (pack_bit bits) [0..<length bits] (replicate (ceil_div (length bits) 8) 0)"

definition unpackBits :: "buffer \<Rightarrow> nat \<Rightarrow> bool list" where
  "unpackBits buf count =
     map (\<lambda>i. (if i div 8 < length buf then buf ! (i div 8) else 0) AND push_bit (i mod 8) 1 \<noteq> 0) [0..<count]"

definition packRegisters :: "nat list \<Rightarrow> buffer" where
  "packRegisters rs = concat (map (\<lambda>r. writeUInt16BE (r mod 65536)) rs)"

text \<open>\<open>None\<close>: \<open>readUInt16BE\<close> throws outside the buffer.\<close>

definition unpackRegisters :: "buffer \<Rightarrow> nat \<Rightarrow> nat list option" where
  "unpackRegisters buf count =
     (if count * 2 \<le> length buf then Some (map (\<lambda>i. readUInt16BE buf (i * 2)) [0..<count]) else None)"

section \<open>Round trips\<close>

lemmas mbap_consts = MBAP_HEADER_LENGTH_def MODBUS_PROTOCOL_ID_def EXCEPTION_FLAG_def MAX_READ_BITS_def
  MAX_READ_REGISTERS_def MAX_WRITE_COILS_def MAX_WRITE_REGISTERS_def

lemma length_encodeMbapHeader [simp]: "length (encodeMbapHeader h n) = 7"
  by (simp add: encodeMbapHeader_def)

definition header_ok :: "mbap_header \<Rightarrow> bool" where
  "header_ok h \<longleftrightarrow> transactionId h < 65536 \<and> protocolId h = MODBUS_PROTOCOL_ID \<and> unitId h < 256"

text \<open>A frame as a master sends it and as the server answers: header, function code, body.\<close>

definition modbus_frame :: "mbap_header \<Rightarrow> nat \<Rightarrow> buffer \<Rightarrow> buffer" where
  "modbus_frame h fc body = encodeMbapHeader h (1 + length body) @ [of_nat fc] @ body"

lemma decodeMbapHeader_encode:
  "transactionId h < 65536 \<Longrightarrow> protocolId h < 65536 \<Longrightarrow> unitId h < 256 \<Longrightarrow> n + 1 < 65536 \<Longrightarrow>
     decodeMbapHeader (encodeMbapHeader h n @ rest) = Inr (h \<lparr> mbap_length := n + 1 \<rparr>)"
  by (simp add: decodeMbapHeader_def encodeMbapHeader_def mbap_consts readUIntBE_def le_val_le_bytes nth_append)

lemma decodeRequest_frame:
  assumes "header_ok h" "fc < 256" "length body + 2 < 65536"
  shows "decodeRequest (modbus_frame h fc body @ rest)
    = Inr (Some (\<lparr> header = h \<lparr> mbap_length := length body + 2 \<rparr>, functionCode = fc, data = body \<rparr>, length body + 8))"
proof -
  let ?b = "modbus_frame h fc body @ rest"
  have "decodeMbapHeader ?b = Inr (h \<lparr> mbap_length := length body + 2 \<rparr>)"
    using assms decodeMbapHeader_encode [of h "1 + length body" "[of_nat fc] @ body @ rest"]
    by (simp add: modbus_frame_def header_ok_def mbap_consts)
  moreover have "subarray ?b 8 (8 + length body) = body"
    by (simp add: modbus_frame_def subarray_def)
  moreover have "?b ! 7 = of_nat fc" by (simp add: modbus_frame_def nth_append)
  moreover have "protocolId h = 0" using assms(1) by (simp add: header_ok_def mbap_consts)
  ultimately show ?thesis using assms(2)
    by (simp add: decodeRequest_def mbap_consts modbus_frame_def add.commute)
qed

lemma decodeRequest_progress: "decodeRequest b = Inr (Some (r, n)) \<Longrightarrow> 8 \<le> n \<and> n \<le> length b"
  by (auto simp: decodeRequest_def Let_def mbap_consts split: if_splits sum.splits)

text \<open>A complete frame is recognised whatever follows, and an incomplete one stays incomplete until more arrives.\<close>

lemma decodeMbapHeader_append: "7 \<le> length b \<Longrightarrow> decodeMbapHeader (b @ c) = decodeMbapHeader b"
  by (simp add: decodeMbapHeader_def mbap_consts readUIntBE_def nth_append)

lemma decodeRequest_append:
  assumes "decodeRequest b \<noteq> Inr None"
  shows "decodeRequest (b @ c) = decodeRequest b"
proof -
  have l: "7 \<le> length b" using assms by (auto simp: decodeRequest_def mbap_consts split: if_splits)
  show ?thesis
  proof (cases "decodeMbapHeader b")
    case (Inl e)
    with l show ?thesis by (simp add: decodeRequest_def decodeMbapHeader_append mbap_consts)
  next
    case (Inr h)
    with l assms have "protocolId h = MODBUS_PROTOCOL_ID \<longrightarrow> 2 \<le> mbap_length h \<longrightarrow> 6 + mbap_length h \<le> length b"
      by (auto simp: decodeRequest_def mbap_consts Let_def split: if_splits)
    with l Inr show ?thesis
      by (auto simp: decodeRequest_def decodeMbapHeader_append mbap_consts Let_def subarray_def nth_append)
  qed
qed

lemma length_packBits [simp]: "length (packBits bits) = ceil_div (length bits) 8"
proof -
  have "length (fold (pack_bit bits) is out) = length out" for "is" out
    by (induction "is" arbitrary: out) (auto simp: pack_bit_def)
  then show ?thesis by (simp add: packBits_def)
qed

lemma fold_pack_bit:
  assumes "n \<le> length bits" "n \<le> 8 * length out" "k < length out" "j < 8"
  shows "bit (fold (pack_bit bits) [0..<n] out ! k) j \<longleftrightarrow> bit (out ! k) j \<or> (8 * k + j < n \<and> bits ! (8 * k + j))"
  using assms
proof (induction n)
  case (Suc n)
  let ?o = "fold (pack_bit bits) [0..<n] out"
  have len: "length (fold (pack_bit bits) is out) = length out" for "is" out
    by (induction "is" arbitrary: out) (auto simp: pack_bit_def)
  have IH: "bit (?o ! k) j \<longleftrightarrow> bit (out ! k) j \<or> (8 * k + j < n \<and> bits ! (8 * k + j))" using Suc by simp
  have n: "n = 8 * k + j \<longleftrightarrow> n div 8 = k \<and> n mod 8 = j" using Suc.prems(4) by auto
  have "n div 8 < length out" using Suc.prems by linarith
  then have "bit (pack_bit bits n ?o ! k) j \<longleftrightarrow> bit (?o ! k) j \<or> (bits ! n \<and> n div 8 = k \<and> n mod 8 = j)"
    using Suc.prems(3,4) len [of "[0..<n]" out] by (auto simp: pack_bit_def nth_list_update bit_simps)
  with IH n show ?case by (auto simp: less_Suc_eq)
qed simp

lemma bit_packBits:
  assumes "i < length bits"
  shows "bit (packBits bits ! (i div 8)) (i mod 8) \<longleftrightarrow> bits ! i"
proof -
  have "i div 8 < ceil_div (length bits) 8"
    using assms less_ceil_div_iff [of 8 "i div 8" "length bits"] by simp
  moreover have "length bits \<le> 8 * ceil_div (length bits) 8" using ceil_div_le [of 8 "length bits"] by simp
  ultimately show ?thesis
    using fold_pack_bit [of "length bits" bits "replicate (ceil_div (length bits) 8) 0" "i div 8" "i mod 8"] assms
    by (simp add: packBits_def)
qed

lemma unpackBits_packBits: "unpackBits (packBits bits) (length bits) = bits"
proof (rule nth_equalityI)
  fix i assume i: "i < length (unpackBits (packBits bits) (length bits))"
  then have i': "i < length bits" by (simp add: unpackBits_def)
  have "i div 8 < ceil_div (length bits) 8"
    using i' less_ceil_div_iff [of 8 "i div 8" "length bits"] by simp
  moreover have "(w AND push_bit n 1 \<noteq> 0) = bit w n" if "n < 8" for w :: byte and n
    using that and_exp_byte [of w n] by (simp add: push_bit_eq_mult)
  ultimately show "unpackBits (packBits bits) (length bits) ! i = bits ! i"
    using i' bit_packBits [OF i'] by (simp add: unpackBits_def)
qed (simp add: unpackBits_def)

lemma length_packRegisters [simp]: "length (packRegisters rs) = 2 * length rs"
  by (induction rs) (simp_all add: packRegisters_def)

lemma unpackRegisters_packRegisters:
  assumes "list_all (\<lambda>r. r < 65536) rs"
  shows "unpackRegisters (packRegisters rs @ rest) (length rs) = Some rs"
proof -
  have "readUInt16BE (packRegisters rs @ rest) (i * 2) = rs ! i" if "i < length rs" for i
    using that assms
  proof (induction rs arbitrary: i)
    case (Cons r rs)
    show ?case
    proof (cases i)
      case 0
      with Cons.prems show ?thesis by (simp add: packRegisters_def readUIntBE_def le_val_le_bytes)
    next
      case (Suc j)
      then have "readUInt16BE (packRegisters (r # rs) @ rest) (i * 2) = readUInt16BE (packRegisters rs @ rest) (j * 2)"
        by (simp add: packRegisters_def readUIntBE_def)
      with Cons Suc show ?thesis by simp
    qed
  qed simp
  then show ?thesis by (auto simp: unpackRegisters_def intro: nth_equalityI)
qed

end
