(* ===== verification/Modbus_DataModel.thy ===== *)
theory Modbus_DataModel
  imports Modbus_Codec
begin

text \<open>
  The Modbus data model (\<open>modbus-server/data-model.ts\<close>): the interface \<open>ModbusDataModel\<close> as a record of
  operations over a model state \<open>'m\<close>, and \<open>InMemoryDataModel\<close>, its implementation on four arrays. A read
  returns the values or the error it throws; a write returns the error it throws, if any, and the state it
  leaves. The locale \<open>modbus_data_model\<close> states what the function-code handlers rely on;
  \<open>modbus_memory\<close> adds that a write can be read back.
\<close>

datatype register_area = Coil | DiscreteInput | HoldingRegister | InputRegister

datatype data_model_error_kind = DM_ILLEGAL_DATA_ADDRESS | DM_ILLEGAL_DATA_VALUE | DM_SERVER_FAILURE

text \<open>What a data-model call may throw: a typed \<open>DataModelError\<close> or any other exception.\<close>

datatype data_failure = DataModelError data_model_error_kind | OtherFailure

record 'm data_model =
  readCoils :: "'m \<Rightarrow> nat \<Rightarrow> nat \<Rightarrow> data_failure + bool list"
  readDiscreteInputs :: "'m \<Rightarrow> nat \<Rightarrow> nat \<Rightarrow> data_failure + bool list"
  readHoldingRegisters :: "'m \<Rightarrow> nat \<Rightarrow> nat \<Rightarrow> data_failure + nat list"
  readInputRegisters :: "'m \<Rightarrow> nat \<Rightarrow> nat \<Rightarrow> data_failure + nat list"
  writeCoils :: "nat \<Rightarrow> bool list \<Rightarrow> 'm \<Rightarrow> data_failure option \<times> 'm"
  writeHoldingRegisters :: "nat \<Rightarrow> nat list \<Rightarrow> 'm \<Rightarrow> data_failure option \<times> 'm"

section \<open>The in-memory model\<close>

record in_memory_data_model =
  coils :: "bool list"
  discreteInputs :: "bool list"
  holdingRegisters :: "nat list"
  inputRegisters :: "nat list"

record in_memory_size =
  sz_coils :: "nat option"
  sz_discreteInputs :: "nat option"
  sz_holdingRegisters :: "nat option"
  sz_inputRegisters :: "nat option"

definition area_size :: "nat option \<Rightarrow> nat" where
  "area_size s = (case s of None \<Rightarrow> 0x10000 | Some n \<Rightarrow> n)"

definition new_in_memory :: "in_memory_size \<Rightarrow> in_memory_data_model" where
  "new_in_memory s = \<lparr> coils = replicate (area_size (sz_coils s)) False,
     discreteInputs = replicate (area_size (sz_discreteInputs s)) False,
     holdingRegisters = replicate (area_size (sz_holdingRegisters s)) 0,
     inputRegisters = replicate (area_size (sz_inputRegisters s)) 0 \<rparr>"

text \<open>Addresses and quantities are decoded unsigned fields, so only the upper bound can fail.\<close>

definition assertRange :: "'v list \<Rightarrow> nat \<Rightarrow> nat \<Rightarrow> data_failure option" where
  "assertRange backing address quantity =
     (if address + quantity > length backing then Some (DataModelError DM_ILLEGAL_DATA_ADDRESS) else None)"

definition mem_read :: "'v list \<Rightarrow> nat \<Rightarrow> nat \<Rightarrow> data_failure + 'v list" where
  "mem_read backing address quantity =
     (case assertRange backing address quantity of
        Some e \<Rightarrow> Inl e
      | None \<Rightarrow> Inr (subarray backing address (address + quantity)))"

text \<open>The assignment loop of the two writes, \<open>backing[address + i] = values[i]\<close>.\<close>

fun mem_store :: "nat \<Rightarrow> 'v list \<Rightarrow> 'v list \<Rightarrow> 'v list" where
  "mem_store address [] backing = backing"
| "mem_store address (v # vs) backing = mem_store (address + 1) vs (backing[address := v])"

definition mem_writeCoils :: "nat \<Rightarrow> bool list \<Rightarrow> in_memory_data_model \<Rightarrow> data_failure option \<times> in_memory_data_model" where
  "mem_writeCoils address vals m =
     (case assertRange (coils m) address (length vals) of
        Some e \<Rightarrow> (Some e, m)
      | None \<Rightarrow> (None, m \<lparr> coils := mem_store address vals (coils m) \<rparr>))"

definition mem_writeHoldingRegisters :: "nat \<Rightarrow> nat list \<Rightarrow> in_memory_data_model
    \<Rightarrow> data_failure option \<times> in_memory_data_model" where
  "mem_writeHoldingRegisters address vals m =
     (case assertRange (holdingRegisters m) address (length vals) of
        Some e \<Rightarrow> (Some e, m)
      | None \<Rightarrow> (None, m \<lparr> holdingRegisters :=
                          mem_store address (map (\<lambda>v. v mod 65536) vals) (holdingRegisters m) \<rparr>))"

definition in_memory_model :: "in_memory_data_model data_model" where
  "in_memory_model =
     \<lparr> readCoils = (\<lambda>m. mem_read (coils m)),
       readDiscreteInputs = (\<lambda>m. mem_read (discreteInputs m)),
       readHoldingRegisters = (\<lambda>m. mem_read (holdingRegisters m)),
       readInputRegisters = (\<lambda>m. mem_read (inputRegisters m)),
       writeCoils = mem_writeCoils,
       writeHoldingRegisters = mem_writeHoldingRegisters \<rparr>"

section \<open>The contract of a data model\<close>

text \<open>
  \<open>valid\<close> is the invariant of the model's state. Reads return as many values as asked, registers are 16 bits
  wide, and a write that throws has changed nothing.
\<close>

locale modbus_data_model =
  fixes dm :: "'m data_model" and valid :: "'m \<Rightarrow> bool"
  assumes coils_length: "valid m \<Longrightarrow> readCoils dm m a q = Inr bs \<Longrightarrow> length bs = q"
    and discrete_length: "valid m \<Longrightarrow> readDiscreteInputs dm m a q = Inr bs \<Longrightarrow> length bs = q"
    and holding_length: "valid m \<Longrightarrow> readHoldingRegisters dm m a q = Inr rs \<Longrightarrow>
      length rs = q \<and> list_all (\<lambda>r. r < 65536) rs"
    and input_length: "valid m \<Longrightarrow> readInputRegisters dm m a q = Inr rs \<Longrightarrow>
      length rs = q \<and> list_all (\<lambda>r. r < 65536) rs"
    and coils_atomic: "valid m \<Longrightarrow> writeCoils dm a bs m = (Some e, m') \<Longrightarrow> m' = m"
    and holding_atomic: "valid m \<Longrightarrow> writeHoldingRegisters dm a rs m = (Some e, m') \<Longrightarrow> m' = m"
    and coils_valid: "valid m \<Longrightarrow> valid (snd (writeCoils dm a bs m))"
    and holding_valid: "valid m \<Longrightarrow> valid (snd (writeHoldingRegisters dm a rs m))"

locale modbus_memory = modbus_data_model +
  assumes coils_read_back: "valid m \<Longrightarrow> writeCoils dm a bs m = (None, m') \<Longrightarrow>
      readCoils dm m' a (length bs) = Inr bs"
    and holding_read_back: "valid m \<Longrightarrow> list_all (\<lambda>r. r < 65536) rs \<Longrightarrow>
      writeHoldingRegisters dm a rs m = (None, m') \<Longrightarrow> readHoldingRegisters dm m' a (length rs) = Inr rs"

section \<open>The in-memory model keeps the contract\<close>

definition in_memory_ok :: "in_memory_data_model \<Rightarrow> bool" where
  "in_memory_ok m \<longleftrightarrow> list_all (\<lambda>r. r < 65536) (holdingRegisters m) \<and> list_all (\<lambda>r. r < 65536) (inputRegisters m)"

lemma mem_read_length: "mem_read backing a q = Inr vs \<Longrightarrow> length vs = q"
  by (auto simp: mem_read_def assertRange_def length_subarray split: if_splits)

lemma mem_read_all: "list_all P backing \<Longrightarrow> mem_read backing a q = Inr vs \<Longrightarrow> list_all P vs"
  by (auto simp: mem_read_def assertRange_def subarray_def list_all_iff split: if_splits dest: in_set_takeD in_set_dropD)

lemma mem_store_slice:
  "a + length vs \<le> length backing \<Longrightarrow>
     mem_store a vs backing = take a backing @ vs @ drop (a + length vs) backing"
proof (induction vs arbitrary: a backing)
  case (Cons v vs)
  have "take (Suc a) (backing[a := v]) = take a backing @ [v]"
    using Cons.prems by (simp add: take_Suc_conv_app_nth)
  moreover have "mem_store (a + 1) vs (backing[a := v])
      = take (a + 1) (backing[a := v]) @ vs @ drop (a + 1 + length vs) (backing[a := v])"
    using Cons by (intro Cons.IH) simp
  ultimately show ?case by simp
qed simp

lemma mem_store_read_back:
  "a + length vs \<le> length backing \<Longrightarrow> mem_read (mem_store a vs backing) a (length vs) = Inr vs"
  by (simp add: mem_read_def assertRange_def mem_store_slice subarray_def)

lemma mem_store_all: "list_all P backing \<Longrightarrow> list_all P vs \<Longrightarrow> list_all P (mem_store a vs backing)"
  by (induction a vs backing rule: mem_store.induct) (auto simp: list_all_iff dest: set_update_subset_insert [THEN subsetD])

lemma in_memory_model_sel [simp]:
  "readCoils in_memory_model m = mem_read (coils m)"
  "readDiscreteInputs in_memory_model m = mem_read (discreteInputs m)"
  "readHoldingRegisters in_memory_model m = mem_read (holdingRegisters m)"
  "readInputRegisters in_memory_model m = mem_read (inputRegisters m)"
  "writeCoils in_memory_model = mem_writeCoils"
  "writeHoldingRegisters in_memory_model = mem_writeHoldingRegisters"
  by (simp_all add: in_memory_model_def)

lemma map_mod_register: "list_all (\<lambda>r. r < 65536) rs \<Longrightarrow> map (\<lambda>v. v mod 65536) rs = (rs :: nat list)"
  by (induction rs) auto

interpretation in_memory: modbus_memory in_memory_model in_memory_ok
proof unfold_locales
  fix m :: in_memory_data_model and a :: nat and rs :: "nat list"
  show "in_memory_ok m \<Longrightarrow> in_memory_ok (snd (writeHoldingRegisters in_memory_model a rs m))"
    using mem_store_all [of "\<lambda>r. r < 65536" "holdingRegisters m" "map (\<lambda>v. v mod 65536) rs" a]
    by (simp add: mem_writeHoldingRegisters_def in_memory_ok_def list.pred_map comp_def list.pred_True split: option.splits)
qed (auto simp: in_memory_ok_def mem_writeCoils_def mem_writeHoldingRegisters_def assertRange_def map_mod_register
       mem_store_read_back mem_read_length intro: mem_read_all split: option.splits if_splits)

end
