(* ===== verification/Modbus_Handlers.thy ===== *)
theory Modbus_Handlers
  imports Modbus_DataModel
begin

text \<open>
  The function-code handlers (\<open>modbus-server/handlers.ts\<close>): from a decoded request and a data model to the
  response frame. Everything a handler may throw is a \<open>handler_error\<close>; \<open>processRequest\<close> turns it into an
  exception response. The lemmas of the locales say what a master can rely on: every request is answered by
  one well-formed frame, an exception response means that nothing was changed, and what was written is read
  back.
\<close>

definition COIL_ON :: nat where "COIL_ON = 0xff00"
definition COIL_OFF :: nat where "COIL_OFF = 0x0000"

datatype handler_error = ModbusException exception_code_key | DataFailure data_failure

definition toExceptionCode :: "handler_error \<Rightarrow> nat" where
  "toExceptionCode err =
     (case err of
        ModbusException code \<Rightarrow> ExceptionCode code
      | DataFailure (DataModelError DM_ILLEGAL_DATA_ADDRESS) \<Rightarrow> ExceptionCode ILLEGAL_DATA_ADDRESS
      | DataFailure (DataModelError DM_ILLEGAL_DATA_VALUE) \<Rightarrow> ExceptionCode ILLEGAL_DATA_VALUE
      | DataFailure (DataModelError DM_SERVER_FAILURE) \<Rightarrow> ExceptionCode SERVER_DEVICE_FAILURE
      | DataFailure OtherFailure \<Rightarrow> ExceptionCode SERVER_DEVICE_FAILURE)"

definition requireBytes :: "buffer \<Rightarrow> nat \<Rightarrow> handler_error option" where
  "requireBytes b n = (if length b < n then Some (ModbusException ILLEGAL_DATA_VALUE) else None)"

text \<open>\<open>writeUInt8\<close> throws a \<open>RangeError\<close> on a byte count above 255.\<close>

definition counted :: "buffer \<Rightarrow> handler_error + buffer" where
  "counted packed = (if length packed > 255 then Inl (DataFailure OtherFailure) else Inr (of_nat (length packed) # packed))"

definition readBits :: "buffer \<Rightarrow> nat \<Rightarrow> (nat \<Rightarrow> nat \<Rightarrow> data_failure + bool list) \<Rightarrow> handler_error + buffer" where
  "readBits b maxQuantity read =
     (case requireBytes b 4 of
        Some e \<Rightarrow> Inl e
      | None \<Rightarrow>
          (let address = readUInt16BE b 0; quantity = readUInt16BE b 2
           in if quantity < 1 \<or> quantity > maxQuantity then Inl (ModbusException ILLEGAL_DATA_VALUE)
              else (case read address quantity of
                      Inl e \<Rightarrow> Inl (DataFailure e)
                    | Inr bits \<Rightarrow> counted (packBits bits))))"

definition readRegisters :: "buffer \<Rightarrow> (nat \<Rightarrow> nat \<Rightarrow> data_failure + nat list) \<Rightarrow> handler_error + buffer" where
  "readRegisters b read =
     (case requireBytes b 4 of
        Some e \<Rightarrow> Inl e
      | None \<Rightarrow>
          (let address = readUInt16BE b 0; quantity = readUInt16BE b 2
           in if quantity < 1 \<or> quantity > MAX_READ_REGISTERS then Inl (ModbusException ILLEGAL_DATA_VALUE)
              else (case read address quantity of
                      Inl e \<Rightarrow> Inl (DataFailure e)
                    | Inr registers \<Rightarrow> counted (packRegisters registers))))"

text \<open>The answer to a write: the data model's error, or the response body.\<close>

definition after_write :: "buffer \<Rightarrow> data_failure option \<times> 'm \<Rightarrow> (handler_error + buffer) \<times> 'm" where
  "after_write reply r = (case r of (Some e, m) \<Rightarrow> (Inl (DataFailure e), m) | (None, m) \<Rightarrow> (Inr reply, m))"

definition writeSingleCoil :: "buffer \<Rightarrow> 'm data_model \<Rightarrow> 'm \<Rightarrow> (handler_error + buffer) \<times> 'm" where
  "writeSingleCoil b dm m =
     (case requireBytes b 4 of
        Some e \<Rightarrow> (Inl e, m)
      | None \<Rightarrow>
          (let address = readUInt16BE b 0; raw = readUInt16BE b 2
           in if raw \<noteq> COIL_ON \<and> raw \<noteq> COIL_OFF then (Inl (ModbusException ILLEGAL_DATA_VALUE), m)
              else after_write (subarray b 0 4) (writeCoils dm address [raw = COIL_ON] m)))"

definition writeSingleRegister :: "buffer \<Rightarrow> 'm data_model \<Rightarrow> 'm \<Rightarrow> (handler_error + buffer) \<times> 'm" where
  "writeSingleRegister b dm m =
     (case requireBytes b 4 of
        Some e \<Rightarrow> (Inl e, m)
      | None \<Rightarrow>
          (let address = readUInt16BE b 0; v = readUInt16BE b 2
           in after_write (subarray b 0 4) (writeHoldingRegisters dm address [v] m)))"

definition writeMultipleCoils :: "buffer \<Rightarrow> 'm data_model \<Rightarrow> 'm \<Rightarrow> (handler_error + buffer) \<times> 'm" where
  "writeMultipleCoils b dm m =
     (case requireBytes b 5 of
        Some e \<Rightarrow> (Inl e, m)
      | None \<Rightarrow>
          (let address = readUInt16BE b 0; quantity = readUInt16BE b 2; byteCount = unat (b ! 4)
           in if quantity < 1 \<or> quantity > MAX_WRITE_COILS then (Inl (ModbusException ILLEGAL_DATA_VALUE), m)
              else if byteCount \<noteq> ceil_div quantity 8 \<or> length b < 5 + byteCount then (Inl (ModbusException ILLEGAL_DATA_VALUE), m)
              else after_write (writeUInt16BE address @ writeUInt16BE quantity)
                     (writeCoils dm address (unpackBits (subarray b 5 (5 + byteCount)) quantity) m)))"

definition writeMultipleRegisters :: "buffer \<Rightarrow> 'm data_model \<Rightarrow> 'm \<Rightarrow> (handler_error + buffer) \<times> 'm" where
  "writeMultipleRegisters b dm m =
     (case requireBytes b 5 of
        Some e \<Rightarrow> (Inl e, m)
      | None \<Rightarrow>
          (let address = readUInt16BE b 0; quantity = readUInt16BE b 2; byteCount = unat (b ! 4)
           in if quantity < 1 \<or> quantity > MAX_WRITE_REGISTERS then (Inl (ModbusException ILLEGAL_DATA_VALUE), m)
              else if byteCount \<noteq> quantity * 2 \<or> length b < 5 + byteCount then (Inl (ModbusException ILLEGAL_DATA_VALUE), m)
              else (case unpackRegisters (subarray b 5 (5 + byteCount)) quantity of
                      None \<Rightarrow> (Inl (DataFailure OtherFailure), m)
                    | Some vals \<Rightarrow> after_write (writeUInt16BE address @ writeUInt16BE quantity)
                                     (writeHoldingRegisters dm address vals m))))"

definition mb_dispatch :: "nat \<Rightarrow> buffer \<Rightarrow> 'm data_model \<Rightarrow> 'm \<Rightarrow> (handler_error + buffer) \<times> 'm" where
  "mb_dispatch fc b dm m =
     (if fc = FunctionCode READ_COILS then (readBits b MAX_READ_BITS (readCoils dm m), m)
      else if fc = FunctionCode READ_DISCRETE_INPUTS then (readBits b MAX_READ_BITS (readDiscreteInputs dm m), m)
      else if fc = FunctionCode READ_HOLDING_REGISTERS then (readRegisters b (readHoldingRegisters dm m), m)
      else if fc = FunctionCode READ_INPUT_REGISTERS then (readRegisters b (readInputRegisters dm m), m)
      else if fc = FunctionCode WRITE_SINGLE_COIL then writeSingleCoil b dm m
      else if fc = FunctionCode WRITE_SINGLE_REGISTER then writeSingleRegister b dm m
      else if fc = FunctionCode WRITE_MULTIPLE_COILS then writeMultipleCoils b dm m
      else if fc = FunctionCode WRITE_MULTIPLE_REGISTERS then writeMultipleRegisters b dm m
      else (Inl (ModbusException ILLEGAL_FUNCTION), m))"

definition processRequest :: "modbus_request \<Rightarrow> 'm data_model \<Rightarrow> 'm \<Rightarrow> buffer \<times> 'm" where
  "processRequest request dm m =
     (case mb_dispatch (functionCode request) (data request) dm m of
        (Inr responsePdu, m') \<Rightarrow> (encodeResponse (header request) (functionCode request) responsePdu, m')
      | (Inl err, m') \<Rightarrow> (encodeExceptionResponse (header request) (functionCode request) (toExceptionCode err), m'))"

section \<open>What a master can rely on\<close>

lemmas handler_defs = readBits_def readRegisters_def writeSingleCoil_def writeSingleRegister_def
  writeMultipleCoils_def writeMultipleRegisters_def

lemmas write_handler_defs = writeSingleCoil_def writeSingleRegister_def writeMultipleCoils_def writeMultipleRegisters_def

lemma toExceptionCode_range: "toExceptionCode e \<in> {1, 2, 3, 4}"
proof (cases e)
  case (ModbusException k)
  then show ?thesis by (cases k) (simp_all add: toExceptionCode_def)
next
  case (DataFailure f)
  then show ?thesis
    by (cases f) (auto simp: toExceptionCode_def split: data_model_error_kind.splits)
qed

lemma exception_frame: "encodeExceptionResponse h fc code = modbus_frame h (unat (of_nat fc OR EXCEPTION_FLAG)) [of_nat code]"
  by (simp add: encodeExceptionResponse_def modbus_frame_def numeral_2_eq_2)

lemma response_frame: "encodeResponse h fc body = modbus_frame h fc body"
  by (simp add: encodeResponse_def modbus_frame_def)

lemma counted_length: "counted p = Inr body \<Longrightarrow> length body \<le> 256"
  by (auto simp: counted_def split: if_splits)

lemma after_write_body: "after_write reply r = (Inr body, m') \<Longrightarrow> body = reply"
  by (auto simp: after_write_def split: prod.splits option.splits)

lemma mb_dispatch_body: "mb_dispatch fc b dm m = (Inr body, m') \<Longrightarrow> length body \<le> 256"
  by (auto simp: mb_dispatch_def handler_defs Let_def subarray_def dest: counted_length after_write_body
           split: if_splits option.splits sum.splits)

text \<open>
  A response carries the header of its request and either its function code or, in an exception, the flagged
  function code and one of the four codes.
\<close>

definition response_to :: "modbus_request \<Rightarrow> buffer \<Rightarrow> bool" where
  "response_to r w \<longleftrightarrow>
     (\<exists>body. length body \<le> 256 \<and> w = modbus_frame (header r) (functionCode r) body)
     \<or> (\<exists>code\<in>{1, 2, 3, 4}. w = modbus_frame (header r) (unat (of_nat (functionCode r) OR EXCEPTION_FLAG)) [of_nat code])"

lemma processRequest_response: "response_to r (fst (processRequest r dm m))"
proof (cases "mb_dispatch (functionCode r) (data r) dm m")
  case (Pair res m')
  show ?thesis
  proof (cases res)
    case (Inl e)
    with Pair toExceptionCode_range [of e] show ?thesis
      by (auto simp: processRequest_def response_to_def exception_frame)
  next
    case (Inr body)
    with Pair mb_dispatch_body [of "functionCode r" "data r" dm m body m'] show ?thesis
      by (auto simp: processRequest_def response_to_def response_frame)
  qed
qed

text \<open>Reads change nothing, whatever the data model.\<close>

definition WRITE_FUNCTION_CODES :: "nat set" where
  "WRITE_FUNCTION_CODES = {FunctionCode WRITE_SINGLE_COIL, FunctionCode WRITE_SINGLE_REGISTER,
     FunctionCode WRITE_MULTIPLE_COILS, FunctionCode WRITE_MULTIPLE_REGISTERS}"

lemma mb_dispatch_read_only: "fc \<notin> WRITE_FUNCTION_CODES \<Longrightarrow> snd (mb_dispatch fc b dm m) = m"
  by (auto simp: mb_dispatch_def WRITE_FUNCTION_CODES_def)

lemma processRequest_read_only: "functionCode r \<notin> WRITE_FUNCTION_CODES \<Longrightarrow> snd (processRequest r dm m) = m"
  using mb_dispatch_read_only [of "functionCode r" "data r" dm m]
  by (auto simp: processRequest_def split: prod.splits sum.splits)

definition is_exception :: "buffer \<Rightarrow> bool" where
  "is_exception w \<longleftrightarrow> 128 \<le> unat (w ! 7)"

lemma modbus_frame_fc [simp]: "modbus_frame h fc body ! 7 = of_nat fc"
  by (simp add: modbus_frame_def nth_append)

lemma unat_or_flag: "fc < 128 \<Longrightarrow> 128 \<le> unat (of_nat fc OR EXCEPTION_FLAG)"
proof -
  have "EXCEPTION_FLAG \<le> of_nat fc OR EXCEPTION_FLAG" by (metis le_word_or2 or.commute)
  then show ?thesis by (simp add: word_le_nat_alt EXCEPTION_FLAG_def)
qed

lemma is_exception_frame [simp]:
  "fc < 128 \<Longrightarrow> \<not> is_exception (modbus_frame h fc body)"
  "fc < 128 \<Longrightarrow> is_exception (modbus_frame h (unat (of_nat fc OR EXCEPTION_FLAG)) body)"
  using unat_or_flag [of fc] by (simp_all add: is_exception_def)

definition unchanged_on_error :: "('m \<Rightarrow> bool) \<Rightarrow> 'm \<Rightarrow> ('e + 'a) \<times> 'm \<Rightarrow> bool" where
  "unchanged_on_error ok m r \<longleftrightarrow> ok (snd r) \<and> (\<forall>e. fst r = Inl e \<longrightarrow> snd r = m)"

context modbus_data_model
begin

lemma after_write_coils: "valid m \<Longrightarrow> unchanged_on_error valid m (after_write reply (writeCoils dm a bs m))"
  using coils_atomic [of m a bs] coils_valid [of m a bs]
  by (cases "writeCoils dm a bs m"; cases "fst (writeCoils dm a bs m)") (auto simp: after_write_def unchanged_on_error_def)

lemma after_write_holding: "valid m \<Longrightarrow> unchanged_on_error valid m (after_write reply (writeHoldingRegisters dm a rs m))"
  using holding_atomic [of m a rs] holding_valid [of m a rs]
  by (cases "writeHoldingRegisters dm a rs m"; cases "fst (writeHoldingRegisters dm a rs m)")
    (auto simp: after_write_def unchanged_on_error_def)

lemma unchanged_refl: "valid m \<Longrightarrow> unchanged_on_error valid m (res, m)"
  by (simp add: unchanged_on_error_def)

lemmas write_outcomes = after_write_coils after_write_holding unchanged_refl

lemma mb_dispatch_atomic: "valid m \<Longrightarrow> unchanged_on_error valid m (mb_dispatch fc b dm m)"
  by (simp add: mb_dispatch_def write_handler_defs Let_def write_outcomes split: option.split)

lemma processRequest_valid: "valid m \<Longrightarrow> valid (snd (processRequest r dm m))"
  using mb_dispatch_atomic [of m "functionCode r" "data r"]
  by (auto simp: processRequest_def unchanged_on_error_def split: prod.splits sum.splits)

text \<open>An exception response says that the request changed nothing.\<close>

lemma exception_changes_nothing:
  assumes "valid m" "functionCode r < 128" "processRequest r dm m = (w, m')" "is_exception w"
  shows "m' = m"
proof (cases "mb_dispatch (functionCode r) (data r) dm m")
  case (Pair res m1)
  with assms show ?thesis
    using mb_dispatch_atomic [OF assms(1), of "functionCode r" "data r"]
    by (cases res) (auto simp: processRequest_def response_frame unchanged_on_error_def)
qed

end

section \<open>Reading back\<close>

definition write_registers :: "mbap_header \<Rightarrow> nat \<Rightarrow> nat list \<Rightarrow> modbus_request" where
  "write_registers h a rs = \<lparr> header = h, functionCode = FunctionCode WRITE_MULTIPLE_REGISTERS,
     data = writeUInt16BE a @ writeUInt16BE (length rs) @ [of_nat (2 * length rs)] @ packRegisters rs \<rparr>"

definition write_coils :: "mbap_header \<Rightarrow> nat \<Rightarrow> bool list \<Rightarrow> modbus_request" where
  "write_coils h a bs = \<lparr> header = h, functionCode = FunctionCode WRITE_MULTIPLE_COILS,
     data = writeUInt16BE a @ writeUInt16BE (length bs) @ [of_nat (ceil_div (length bs) 8)] @ packBits bs \<rparr>"

definition read_request :: "mbap_header \<Rightarrow> function_code_key \<Rightarrow> nat \<Rightarrow> nat \<Rightarrow> modbus_request" where
  "read_request h k a q = \<lparr> header = h, functionCode = FunctionCode k, data = writeUInt16BE a @ writeUInt16BE q \<rparr>"

lemma be16_fields:
  "a < 65536 \<Longrightarrow> q < 65536 \<Longrightarrow> readUInt16BE (writeUInt16BE a @ writeUInt16BE q @ rest) 0 = a"
  "a < 65536 \<Longrightarrow> q < 65536 \<Longrightarrow> readUInt16BE (writeUInt16BE a @ writeUInt16BE q @ rest) 2 = q"
  using readUIntBE_append [of "[]" 0 "writeUInt16BE a" 2 "writeUInt16BE q @ rest"]
    readUIntBE_append [of "writeUInt16BE a" 2 "writeUInt16BE q" 2 rest]
  by (simp_all add: le_val_le_bytes)

lemma writeMultipleRegisters_request:
  assumes "a < 65536" "1 \<le> length rs" "length rs \<le> 123" "list_all (\<lambda>r. r < 65536) rs"
  shows "writeMultipleRegisters (data (write_registers h a rs)) dm m
    = after_write (writeUInt16BE a @ writeUInt16BE (length rs)) (writeHoldingRegisters dm a rs m)"
proof -
  let ?b = "writeUInt16BE a @ writeUInt16BE (length rs) @ [of_nat (2 * length rs)] @ packRegisters rs"
  have f: "readUInt16BE ?b 0 = a" "readUInt16BE ?b 2 = length rs"
    using be16_fields [of a "length rs" "[of_nat (2 * length rs)] @ packRegisters rs"] assms by simp_all
  have l: "length ?b = 5 + 2 * length rs" by simp
  have c: "unat (?b ! 4) = 2 * length rs"
    using assms(3) unat_of_nat_byte [of "2 * length rs"] by (simp add: nth_append del: of_nat_mult unat_of_nat_byte)
  have p: "subarray ?b 5 (5 + 2 * length rs) = packRegisters rs" by (simp add: subarray_def)
  have u: "unpackRegisters (packRegisters rs) (length rs) = Some rs"
    using unpackRegisters_packRegisters [OF assms(4), of "[]"] by simp
  show ?thesis
    unfolding writeMultipleRegisters_def write_registers_def requireBytes_def Let_def modbus_request.simps f c l p
    using assms u by (auto simp: mbap_consts)
qed

lemma writeMultipleCoils_request:
  assumes "a < 65536" "1 \<le> length bs" "length bs \<le> 1968"
  shows "writeMultipleCoils (data (write_coils h a bs)) dm m
    = after_write (writeUInt16BE a @ writeUInt16BE (length bs)) (writeCoils dm a bs m)"
proof -
  let ?b = "writeUInt16BE a @ writeUInt16BE (length bs) @ [of_nat (ceil_div (length bs) 8)] @ packBits bs"
  have n: "ceil_div (length bs) 8 < 256" using assms(3) by (simp add: ceil_div_def)
  have f: "readUInt16BE ?b 0 = a" "readUInt16BE ?b 2 = length bs"
    using be16_fields [of a "length bs" "[of_nat (ceil_div (length bs) 8)] @ packBits bs"] assms by simp_all
  have l: "length ?b = 5 + ceil_div (length bs) 8" by simp
  have c: "unat (?b ! 4) = ceil_div (length bs) 8" using n by (simp add: nth_append)
  have p: "subarray ?b 5 (5 + ceil_div (length bs) 8) = packBits bs" by (simp add: subarray_def)
  show ?thesis
    unfolding writeMultipleCoils_def write_coils_def requireBytes_def Let_def modbus_request.simps f c l p
    using assms by (auto simp: mbap_consts unpackBits_packBits)
qed

lemma read_request_fields:
  assumes "a < 65536" "q < 65536"
  shows "readUInt16BE (data (read_request h k a q)) 0 = a" "readUInt16BE (data (read_request h k a q)) 2 = q"
    "requireBytes (data (read_request h k a q)) 4 = None"
  using be16_fields [of a q "[]"] assms by (simp_all add: read_request_def requireBytes_def)

lemma processRequest_success:
  "functionCode r < 128 \<Longrightarrow> processRequest r dm m = (w, m') \<Longrightarrow> \<not> is_exception w \<Longrightarrow>
     \<exists>body. mb_dispatch (functionCode r) (data r) dm m = (Inr body, m')"
  by (auto simp: processRequest_def exception_frame split: prod.splits sum.splits)

lemma after_write_ok: "after_write reply r = (Inr body, m') \<Longrightarrow> r = (None, m')"
  by (auto simp: after_write_def split: prod.splits option.splits)

context modbus_memory
begin

lemma registers_read_back:
  assumes "valid m" "a < 65536" "1 \<le> length rs" "length rs \<le> 123" "list_all (\<lambda>r. r < 65536) rs"
    and "processRequest (write_registers h a rs) dm m = (w, m')" "\<not> is_exception w"
  shows "processRequest (read_request h' READ_HOLDING_REGISTERS a (length rs)) dm m'
    = (modbus_frame h' (FunctionCode READ_HOLDING_REGISTERS) (of_nat (2 * length rs) # packRegisters rs), m')"
proof -
  have "writeHoldingRegisters dm a rs m = (None, m')"
    using processRequest_success [OF _ assms(6,7)] writeMultipleRegisters_request [OF assms(2-5), of h dm m]
    by (auto simp: write_registers_def mb_dispatch_def dest: after_write_ok)
  then have "readHoldingRegisters dm m' a (length rs) = Inr rs" using holding_read_back assms(1,5) by blast
  then show ?thesis
    using read_request_fields [of a "length rs" h' READ_HOLDING_REGISTERS] assms(2-4)
    by (cases rs) (simp_all add: read_request_def processRequest_def mb_dispatch_def readRegisters_def counted_def
      mbap_consts response_frame)
qed

lemma coils_read_back_frames:
  assumes "valid m" "a < 65536" "1 \<le> length bs" "length bs \<le> 1968"
    and "processRequest (write_coils h a bs) dm m = (w, m')" "\<not> is_exception w"
  shows "processRequest (read_request h' READ_COILS a (length bs)) dm m'
    = (modbus_frame h' (FunctionCode READ_COILS) (of_nat (ceil_div (length bs) 8) # packBits bs), m')"
proof -
  have "writeCoils dm a bs m = (None, m')"
    using processRequest_success [OF _ assms(5,6)] writeMultipleCoils_request [OF assms(2-4), of h dm m]
    by (auto simp: write_coils_def mb_dispatch_def dest: after_write_ok)
  then have "readCoils dm m' a (length bs) = Inr bs" using coils_read_back assms(1) by blast
  moreover have "ceil_div (length bs) 8 < 256" using assms(4) by (simp add: ceil_div_def)
  ultimately show ?thesis
    using read_request_fields [of a "length bs" h' READ_COILS] assms(2-4)
    by (cases bs) (simp_all add: read_request_def processRequest_def mb_dispatch_def readBits_def counted_def
      mbap_consts response_frame)
qed

end

end
