(* ===== verification/Modbus_Server.thy ===== *)
theory Modbus_Server
  imports Modbus_Handlers Peer_Allowlist
begin

text \<open>
  The Modbus TCP listener (\<open>modbus-server/server.ts\<close>, class \<open>ModbusTcpServer\<close>). The \<open>data\<close> callback, the
  chained drains and the awaits inside them run interleaved: a connection is a state machine whose events are
  the points at which the event loop may switch. \<open>conn_event\<close> performs one event or is undefined when the event
  is not enabled; every interleaving is a list of events. A data-model call is one event. The event
  \<open>Model_Change\<close> stands for what the other connections and the plant do to the shared model.
\<close>

section \<open>State\<close>

record modbus_config =
  mb_maxBufferBytes :: nat
  mb_maxConnections :: nat
  mb_peerRules :: "peer_rule list"
  allowWrites :: bool

text \<open>
  \<open>mc_tasks\<close>: drains chained on the promise \<open>draining\<close> and not yet started; \<open>mc_pending\<close>: the buffer of the
  running drain; \<open>mc_request\<close>: the request it awaits.
\<close>

record modbus_connection =
  mc_buffer :: buffer
  mc_tasks :: nat
  mc_pending :: "buffer option"
  mc_request :: "modbus_request option"
  mc_written :: "buffer list"
  mc_destroyed :: bool
  mc_closed :: bool

record 'm modbus_server =
  sockets :: "modbus_connection list"
  mb_rejectedConnections :: nat
  model :: 'm

definition DEFAULT_MAX_BUFFER :: nat where "DEFAULT_MAX_BUFFER = 64 * 1024"
definition MB_DEFAULT_MAX_CONNECTIONS :: nat where "MB_DEFAULT_MAX_CONNECTIONS = 4"

definition new_modbus_config :: "nat option \<Rightarrow> nat option \<Rightarrow> bool option \<Rightarrow> string list option
    \<Rightarrow> peer_rule_error + modbus_config" where
  "new_modbus_config maxBuffer maxConn writes peers =
     (case parsePeerRules (case peers of None \<Rightarrow> LOOPBACK_PEER_RULES | Some ps \<Rightarrow> ps) of
        Inl e \<Rightarrow> Inl e
      | Inr rules \<Rightarrow>
          Inr \<lparr> mb_maxBufferBytes = (case maxBuffer of None \<Rightarrow> DEFAULT_MAX_BUFFER | Some n \<Rightarrow> n),
                mb_maxConnections = (case maxConn of None \<Rightarrow> MB_DEFAULT_MAX_CONNECTIONS | Some n \<Rightarrow> n),
                mb_peerRules = rules,
                allowWrites = (case writes of None \<Rightarrow> False | Some b \<Rightarrow> b) \<rparr>)"

definition new_connection :: modbus_connection where
  "new_connection = \<lparr> mc_buffer = [], mc_tasks = 0, mc_pending = None, mc_request = None, mc_written = [],
     mc_destroyed = False, mc_closed = False \<rparr>"

section \<open>Answering\<close>

definition writeRefused :: "modbus_config \<Rightarrow> modbus_request \<Rightarrow> bool" where
  "writeRefused cfg r \<longleftrightarrow> \<not> allowWrites cfg \<and> functionCode r \<in> WRITE_FUNCTION_CODES"

definition answer :: "modbus_config \<Rightarrow> 'm data_model \<Rightarrow> modbus_request \<Rightarrow> 'm \<Rightarrow> buffer \<times> 'm" where
  "answer cfg dm r m =
     (if writeRefused cfg r
      then (encodeExceptionResponse (header r) (functionCode r) (ExceptionCode ILLEGAL_FUNCTION), m)
      else processRequest r dm m)"

text \<open>
  \<open>drain\<close> on a socket that stays open: what it writes, the remainder, whether a malformed frame made it destroy
  the socket, and the model it leaves.
\<close>

function drain_frames :: "modbus_config \<Rightarrow> 'm data_model \<Rightarrow> buffer \<Rightarrow> 'm \<Rightarrow> buffer list \<times> buffer \<times> bool \<times> 'm" where
  "drain_frames cfg dm b m =
     (case decodeRequest b of
        Inl e \<Rightarrow> ([], [], True, m)
      | Inr None \<Rightarrow> ([], b, False, m)
      | Inr (Some (r, n)) \<Rightarrow>
          (case answer cfg dm r m of
             (w, m1) \<Rightarrow> (case drain_frames cfg dm (drop n b) m1 of (ws, rest) \<Rightarrow> (w # ws, rest))))"
  by pat_completeness auto
termination
  by (relation "measure (\<lambda>(cfg, dm, b, m). length b)") (auto dest: decodeRequest_progress)

declare drain_frames.simps [simp del]

section \<open>Connections\<close>

datatype 'm conn_event_kind =
    Data buffer             \<comment> \<open>the \<open>data\<close> callback\<close>
  | Drain_Start             \<comment> \<open>a chained drain takes the buffer\<close>
  | Take_Frame              \<comment> \<open>the drain decodes its next frame\<close>
  | Respond                 \<comment> \<open>the awaited answer arrives and is written\<close>
  | Drain_End               \<comment> \<open>the drain returns its remainder\<close>
  | Destroy                 \<comment> \<open>idle timeout, reset by the peer, or \<open>stop\<close>\<close>
  | Socket_Closed           \<comment> \<open>the \<open>close\<close> event of a destroyed socket\<close>
  | Model_Change 'm

definition conn_data :: "modbus_config \<Rightarrow> buffer \<Rightarrow> modbus_connection \<Rightarrow> modbus_connection" where
  "conn_data cfg chunk c =
     (let c = c \<lparr> mc_buffer := mc_buffer c @ chunk \<rparr>
      in if length (mc_buffer c) > mb_maxBufferBytes cfg then c \<lparr> mc_destroyed := True \<rparr>
         else c \<lparr> mc_tasks := mc_tasks c + 1 \<rparr>)"

definition take_frame :: "buffer \<Rightarrow> modbus_connection \<Rightarrow> modbus_connection option" where
  "take_frame p c =
     (case decodeRequest p of
        Inl e \<Rightarrow> Some (c \<lparr> mc_destroyed := True, mc_pending := Some [] \<rparr>)
      | Inr None \<Rightarrow> None
      | Inr (Some (r, n)) \<Rightarrow> Some (c \<lparr> mc_pending := Some (drop n p), mc_request := Some r \<rparr>))"

fun conn_event :: "modbus_config \<Rightarrow> 'm data_model \<Rightarrow> 'm conn_event_kind \<Rightarrow> modbus_connection \<times> 'm
    \<Rightarrow> (modbus_connection \<times> 'm) option" where
  "conn_event cfg dm (Data chunk) (c, m) = (if mc_destroyed c then None else Some (conn_data cfg chunk c, m))"
| "conn_event cfg dm Drain_Start (c, m) =
     (if mc_pending c = None \<and> 0 < mc_tasks c
      then Some (c \<lparr> mc_tasks := mc_tasks c - 1, mc_pending := Some (mc_buffer c), mc_buffer := [] \<rparr>, m) else None)"
| "conn_event cfg dm Take_Frame (c, m) =
     (case (mc_pending c, mc_request c) of
        (Some p, None) \<Rightarrow> if p \<noteq> [] \<and> \<not> mc_destroyed c then map_option (\<lambda>c. (c, m)) (take_frame p c) else None
      | _ \<Rightarrow> None)"
| "conn_event cfg dm Respond (c, m) =
     (case mc_request c of
        None \<Rightarrow> None
      | Some r \<Rightarrow>
          (case answer cfg dm r m of
             (w, m') \<Rightarrow>
               Some (c \<lparr> mc_request := None, mc_written := (if mc_destroyed c then mc_written c else mc_written c @ [w]) \<rparr>, m')))"
| "conn_event cfg dm Drain_End (c, m) =
     (case (mc_pending c, mc_request c) of
        (Some p, None) \<Rightarrow>
          if p = [] \<or> mc_destroyed c \<or> decodeRequest p = Inr None
          then Some (c \<lparr> mc_pending := None, mc_buffer := p @ mc_buffer c \<rparr>, m) else None
      | _ \<Rightarrow> None)"
| "conn_event cfg dm Destroy (c, m) = Some (c \<lparr> mc_destroyed := True \<rparr>, m)"
| "conn_event cfg dm Socket_Closed (c, m) = (if mc_destroyed c then Some (c \<lparr> mc_closed := True \<rparr>, m) else None)"
| "conn_event cfg dm (Model_Change m') (c, m) = Some (c, m')"

fun conn_run :: "modbus_config \<Rightarrow> 'm data_model \<Rightarrow> 'm conn_event_kind list \<Rightarrow> modbus_connection \<times> 'm
    \<Rightarrow> (modbus_connection \<times> 'm) option" where
  "conn_run cfg dm [] s = Some s"
| "conn_run cfg dm (ev # evs) s = (case conn_event cfg dm ev s of None \<Rightarrow> None | Some s' \<Rightarrow> conn_run cfg dm evs s')"

fun received :: "'m conn_event_kind list \<Rightarrow> buffer" where
  "received [] = []"
| "received (Data chunk # evs) = chunk @ received evs"
| "received (ev # evs) = received evs"

section \<open>The listener\<close>

definition connectionCount :: "'m modbus_server \<Rightarrow> nat" where
  "connectionCount srv = length (filter (\<lambda>c. \<not> mc_closed c) (sockets srv))"

definition mb_admit :: "modbus_config \<Rightarrow> string option \<Rightarrow> 'm modbus_server \<Rightarrow> bool" where
  "mb_admit cfg peer srv \<longleftrightarrow> isPeerAllowed peer (mb_peerRules cfg) \<and> connectionCount srv < mb_maxConnections cfg"

datatype 'm server_event_kind =
    Connect "string option"
  | Conn nat "'m conn_event_kind"

fun server_event :: "modbus_config \<Rightarrow> 'm data_model \<Rightarrow> 'm server_event_kind \<Rightarrow> 'm modbus_server \<Rightarrow> 'm modbus_server option" where
  "server_event cfg dm (Connect peer) srv =
     Some (if mb_admit cfg peer srv then srv \<lparr> sockets := sockets srv @ [new_connection] \<rparr>
           else srv \<lparr> mb_rejectedConnections := mb_rejectedConnections srv + 1 \<rparr>)"
| "server_event cfg dm (Conn i ev) srv =
     (if i < length (sockets srv)
      then (case conn_event cfg dm ev (sockets srv ! i, model srv) of
              None \<Rightarrow> None
            | Some (c, m) \<Rightarrow> Some (srv \<lparr> sockets := (sockets srv)[i := c], model := m \<rparr>))
      else None)"

fun server_run :: "modbus_config \<Rightarrow> 'm data_model \<Rightarrow> 'm server_event_kind list \<Rightarrow> 'm modbus_server \<Rightarrow> 'm modbus_server option" where
  "server_run cfg dm [] s = Some s"
| "server_run cfg dm (ev # evs) s = (case server_event cfg dm ev s of None \<Rightarrow> None | Some s' \<Rightarrow> server_run cfg dm evs s')"

definition new_modbus_server :: "'m \<Rightarrow> 'm modbus_server" where
  "new_modbus_server m = \<lparr> sockets = [], mb_rejectedConnections = 0, model = m \<rparr>"

section \<open>The requests of a stream\<close>

text \<open>The framing of a whole stream: its requests, the octets after them, and whether a frame is malformed.\<close>

function frames :: "buffer \<Rightarrow> modbus_request list \<times> buffer \<times> bool" where
  "frames b =
     (case decodeRequest b of
        Inl e \<Rightarrow> ([], b, True)
      | Inr None \<Rightarrow> ([], b, False)
      | Inr (Some (r, n)) \<Rightarrow> (case frames (drop n b) of (rs, rest) \<Rightarrow> (r # rs, rest)))"
  by pat_completeness auto
termination
  by (relation "measure length") (auto dest: decodeRequest_progress)

declare frames.simps [simp del]

lemma frames_none: "decodeRequest b = Inr None \<Longrightarrow> frames b = ([], b, False)"
  by (simp add: frames.simps)

lemma frames_bad: "decodeRequest b = Inl e \<Longrightarrow> frames b = ([], b, True)"
  by (simp add: frames.simps)

lemma frames_some: "decodeRequest b = Inr (Some (r, n)) \<Longrightarrow> frames b = (r # fst (frames (drop n b)), snd (frames (drop n b)))"
  by (subst frames.simps) (simp split: prod.split)

lemma decodeRequest_Nil [simp]: "decodeRequest [] = Inr None"
  by (simp add: decodeRequest_def mbap_consts)

text \<open>What has been framed stays framed when more octets arrive.\<close>

lemma frames_append:
  "frames (b @ c) = (if snd (snd (frames b)) then (fst (frames b), fst (snd (frames b)) @ c, True)
     else (fst (frames b) @ fst (frames (fst (snd (frames b)) @ c)), snd (frames (fst (snd (frames b)) @ c))))"
proof (induction b rule: frames.induct)
  case (1 b)
  show ?case
  proof (cases "decodeRequest b")
    case (Inl e)
    then have "decodeRequest (b @ c) = Inl e" using decodeRequest_append [of b c] by simp
    with Inl show ?thesis by (simp add: frames_bad)
  next
    case (Inr res)
    show ?thesis
    proof (cases res)
      case None
      with Inr show ?thesis by (simp add: frames_none)
    next
      case (Some rn)
      then obtain r n where d: "decodeRequest b = Inr (Some (r, n))" using Inr by (cases rn) auto
      then have "decodeRequest (b @ c) = Inr (Some (r, n))" using decodeRequest_append [of b c] by simp
      moreover have "drop n (b @ c) = drop n b @ c" using decodeRequest_progress [OF d] by simp
      ultimately show ?thesis using 1 [of "Some (r, n)" "(r, n)" r n] d by (simp add: frames_some)
    qed
  qed
qed

lemma frames_stable: "\<not> snd (snd (frames b)) \<Longrightarrow> decodeRequest (fst (snd (frames b))) = Inr None"
proof (induction b rule: frames.induct)
  case (1 b)
  then show ?case
    by (cases "decodeRequest b"; cases "projr (decodeRequest b)") (auto simp: frames_none frames_bad frames_some)
qed

text \<open>Answering requests one after the other.\<close>

fun serve :: "modbus_config \<Rightarrow> 'm data_model \<Rightarrow> modbus_request list \<Rightarrow> 'm \<Rightarrow> buffer list \<times> 'm" where
  "serve cfg dm [] m = ([], m)"
| "serve cfg dm (r # rs) m = (let (w, m1) = answer cfg dm r m; (ws, m2) = serve cfg dm rs m1 in (w # ws, m2))"

lemma serve_append:
  "serve cfg dm (rs @ rs') m = (fst (serve cfg dm rs m) @ fst (serve cfg dm rs' (snd (serve cfg dm rs m))),
     snd (serve cfg dm rs' (snd (serve cfg dm rs m))))"
  by (induction rs arbitrary: m) (simp_all add: Let_def split: prod.splits)

lemma drain_frames_serve:
  "drain_frames cfg dm b m = (let (ws, m') = serve cfg dm (fst (frames b)) m
     in (ws, if snd (snd (frames b)) then [] else fst (snd (frames b)), snd (snd (frames b)), m'))"
proof (induction cfg dm b m rule: drain_frames.induct)
  case (1 cfg dm b m)
  show ?case
  proof (cases "decodeRequest b")
    case (Inl e)
    then show ?thesis by (simp add: drain_frames.simps frames_bad)
  next
    case (Inr res)
    show ?thesis
    proof (cases res)
      case None
      with Inr show ?thesis by (simp add: drain_frames.simps frames_none)
    next
      case (Some rn)
      then obtain r n where d: "decodeRequest b = Inr (Some (r, n))" using Inr by (cases rn) auto
      obtain w m1 where a: "answer cfg dm r m = (w, m1)" by (cases "answer cfg dm r m")
      have IH: "drain_frames cfg dm (drop n b) m1 = (let (ws, m') = serve cfg dm (fst (frames (drop n b))) m1
         in (ws, if snd (snd (frames (drop n b))) then [] else fst (snd (frames (drop n b))), snd (snd (frames (drop n b))), m'))"
        using 1 d a by simp
      show ?thesis by (subst drain_frames.simps) (simp add: d a IH frames_some Let_def split: prod.split)
    qed
  qed
qed

lemma answer_response: "response_to r (fst (answer cfg dm r m))"
  using processRequest_response [of r dm m]
  by (auto simp: answer_def response_to_def exception_frame)

section \<open>One connection under every interleaving\<close>

definition waiting :: "modbus_connection \<Rightarrow> buffer" where
  "waiting c = (case mc_pending c of None \<Rightarrow> [] | Some p \<Rightarrow> p) @ mc_buffer c"

definition in_flight :: "modbus_connection \<Rightarrow> modbus_request list" where
  "in_flight c = (case mc_request c of None \<Rightarrow> [] | Some r \<Rightarrow> [r])"

definition no_model_change :: "'m conn_event_kind list \<Rightarrow> bool" where
  "no_model_change evs \<longleftrightarrow> (\<forall>m. Model_Change m \<notin> set evs)"

text \<open>
  The invariant of an open connection: the requests of everything received are those answered, the one in
  flight, and those of the octets still held, in this order; nothing is left behind without a drain to come.
\<close>

definition conn_inv :: "modbus_config \<Rightarrow> 'm data_model \<Rightarrow> buffer \<Rightarrow> modbus_request list \<Rightarrow> modbus_connection \<Rightarrow> bool" where
  "conn_inv cfg dm stream served c \<longleftrightarrow>
     frames stream = (served @ in_flight c @ fst (frames (waiting c)), snd (frames (waiting c)))
     \<and> list_all2 response_to served (mc_written c)
     \<and> (mc_tasks c = 0 \<longrightarrow> (if mc_pending c = None then decodeRequest (mc_buffer c) = Inr None else mc_buffer c = []))
     \<and> (mc_pending c = None \<longrightarrow> mc_request c = None)"

lemma conn_inv_new: "conn_inv cfg dm [] [] new_connection"
  by (simp add: conn_inv_def new_connection_def waiting_def in_flight_def frames_none)

lemma frames_extend:
  assumes "frames s = (rs @ fst (frames t), snd (frames t))"
  shows "frames (s @ c) = (rs @ fst (frames (t @ c)), snd (frames (t @ c)))"
  using assms frames_append [of s c] frames_append [of t c] by simp

lemma conn_inv_data:
  assumes "conn_inv cfg dm stream served c" "\<not> mc_destroyed (conn_data cfg chunk c)"
  shows "conn_inv cfg dm (stream @ chunk) served (conn_data cfg chunk c)"
proof -
  have w: "waiting (conn_data cfg chunk c) = waiting c @ chunk" "in_flight (conn_data cfg chunk c) = in_flight c"
    "mc_written (conn_data cfg chunk c) = mc_written c" "mc_tasks (conn_data cfg chunk c) \<noteq> 0"
    "mc_pending (conn_data cfg chunk c) = mc_pending c" "mc_request (conn_data cfg chunk c) = mc_request c"
    using assms(2) by (auto simp: conn_data_def waiting_def in_flight_def Let_def split: if_splits)
  show ?thesis
    using assms(1) frames_extend [of stream "served @ in_flight c" "waiting c" chunk]
    by (simp add: conn_inv_def w)
qed

lemma conn_inv_take:
  assumes inv: "conn_inv cfg dm stream served c" and p: "mc_pending c = Some p" "mc_request c = None"
    and t: "take_frame p c = Some c'" "\<not> mc_destroyed c'"
  shows "conn_inv cfg dm stream served c'" "mc_written c' = mc_written c"
proof -
  from t obtain r n where d: "decodeRequest p = Inr (Some (r, n))"
    and c': "c' = c \<lparr> mc_pending := Some (drop n p), mc_request := Some r \<rparr>"
    by (auto simp: take_frame_def split: sum.splits option.splits)
  have "decodeRequest (p @ mc_buffer c) = Inr (Some (r, n))" using decodeRequest_append [of p "mc_buffer c"] d by simp
  moreover have "drop n (p @ mc_buffer c) = drop n p @ mc_buffer c" using decodeRequest_progress [OF d] by simp
  ultimately have "frames (waiting c) = (r # fst (frames (waiting c')), snd (frames (waiting c')))"
    using frames_some [of "p @ mc_buffer c" r n] p by (simp add: waiting_def c')
  with inv p show "conn_inv cfg dm stream served c'"
    by (auto simp: conn_inv_def c' in_flight_def split: if_splits)
  show "mc_written c' = mc_written c" by (simp add: c')
qed

lemma conn_inv_respond:
  assumes "conn_inv cfg dm stream served c" "mc_request c = Some r" "answer cfg dm r m = (w, m')"
  shows "conn_inv cfg dm stream (served @ [r]) (c \<lparr> mc_request := None, mc_written := mc_written c @ [w] \<rparr>)"
  using assms answer_response [of r cfg dm m]
  by (auto simp: conn_inv_def in_flight_def waiting_def intro: list_all2_appendI)

lemma conn_inv_end:
  assumes "conn_inv cfg dm stream served c" "mc_pending c = Some p" "mc_request c = None"
    "p = [] \<or> decodeRequest p = Inr None"
  shows "conn_inv cfg dm stream served (c \<lparr> mc_pending := None, mc_buffer := p @ mc_buffer c \<rparr>)"
  using assms by (auto simp: conn_inv_def in_flight_def waiting_def)

lemma conn_inv_start:
  assumes "conn_inv cfg dm stream served c" "mc_pending c = None"
  shows "conn_inv cfg dm stream served (c \<lparr> mc_tasks := n, mc_pending := Some (mc_buffer c), mc_buffer := [] \<rparr>)"
  using assms by (simp add: conn_inv_def in_flight_def waiting_def)

lemma conn_event_destroyed: "conn_event cfg dm ev (c, m) = Some (c', m') \<Longrightarrow> mc_destroyed c \<Longrightarrow> mc_destroyed c'"
  by (cases ev) (auto simp: take_frame_def split: if_splits option.splits prod.splits)

lemma conn_event_inv:
  assumes "conn_inv cfg dm stream served c" "conn_event cfg dm ev (c, m) = Some (c', m')" "\<not> mc_destroyed c'"
  obtains served' where "conn_inv cfg dm (stream @ received [ev]) served' c'"
    and "no_model_change [ev] \<Longrightarrow> serve cfg dm served m0 = (mc_written c, m) \<Longrightarrow> serve cfg dm served' m0 = (mc_written c', m')"
proof (cases ev)
  case (Data chunk)
  with assms have e: "c' = conn_data cfg chunk c" "m' = m" by (auto split: if_splits)
  have "mc_written c' = mc_written c" using e by (simp add: conn_data_def Let_def)
  with e assms conn_inv_data [of cfg dm stream served c chunk] Data that [of served] show ?thesis by auto
next
  case Drain_Start
  with assms have "c' = c \<lparr> mc_tasks := mc_tasks c - 1, mc_pending := Some (mc_buffer c), mc_buffer := [] \<rparr>"
    "mc_pending c = None" "m' = m" by (auto split: if_splits)
  with assms(1) Drain_Start that [of served] conn_inv_start [of cfg dm stream served c "mc_tasks c - 1"] show ?thesis by simp
next
  case Take_Frame
  with assms obtain p where "mc_pending c = Some p" "mc_request c = None" "take_frame p c = Some c'" "m' = m"
    by (auto split: option.splits if_splits)
  with assms Take_Frame that [of served] conn_inv_take [of cfg dm stream served c p c'] show ?thesis by simp
next
  case Respond
  have "\<not> mc_destroyed c" using conn_event_destroyed [OF assms(2)] assms(3) by blast
  with Respond assms(2) obtain r w where r: "mc_request c = Some r" "answer cfg dm r m = (w, m')"
    "c' = c \<lparr> mc_request := None, mc_written := mc_written c @ [w] \<rparr>"
    by (auto split: option.splits prod.splits)
  have "serve cfg dm (served @ [r]) m0 = (mc_written c', m')" if "serve cfg dm served m0 = (mc_written c, m)"
    using that r by (simp add: serve_append)
  with Respond assms(1) r that [of "served @ [r]"] conn_inv_respond [of cfg dm stream served c r m w m'] show ?thesis by simp
next
  case Drain_End
  have "\<not> mc_destroyed c" using conn_event_destroyed [OF assms(2)] assms(3) by blast
  with Drain_End assms(2) obtain p where "mc_pending c = Some p" "mc_request c = None" "p = [] \<or> decodeRequest p = Inr None"
    "c' = c \<lparr> mc_pending := None, mc_buffer := p @ mc_buffer c \<rparr>" "m' = m"
    by (auto split: option.splits if_splits)
  with assms(1) Drain_End that [of served] conn_inv_end [of cfg dm stream served c p] show ?thesis by simp
next
  case Destroy
  with assms show ?thesis by auto
next
  case Socket_Closed
  with assms show ?thesis by (auto split: if_splits)
next
  case (Model_Change m1)
  with assms that [of served] show ?thesis by (auto simp: no_model_change_def)
qed

lemma received_append: "received (evs @ evs') = received evs @ received evs'"
  by (induction evs rule: received.induct) auto

lemma conn_run_inv:
  assumes "conn_inv cfg dm stream served c" "conn_run cfg dm evs (c, m) = Some (c', m')" "\<not> mc_destroyed c'"
  shows "\<exists>served'. conn_inv cfg dm (stream @ received evs) served' c'
    \<and> (no_model_change evs \<longrightarrow> serve cfg dm served m0 = (mc_written c, m) \<longrightarrow> serve cfg dm served' m0 = (mc_written c', m'))"
  using assms
proof (induction evs arbitrary: stream served c m)
  case (Cons ev evs)
  from Cons.prems(2) obtain c1 m1 where e: "conn_event cfg dm ev (c, m) = Some (c1, m1)"
    and r: "conn_run cfg dm evs (c1, m1) = Some (c', m')" by (auto split: option.splits)
  have "mc_destroyed c1 \<Longrightarrow> mc_destroyed c'" using r
    by (induction evs arbitrary: c1 m1) (auto split: option.splits dest: conn_event_destroyed)
  then have "\<not> mc_destroyed c1" using Cons.prems(3) by blast
  then obtain served1 where i: "conn_inv cfg dm (stream @ received [ev]) served1 c1"
    and s: "no_model_change [ev] \<Longrightarrow> serve cfg dm served m0 = (mc_written c, m) \<Longrightarrow> serve cfg dm served1 m0 = (mc_written c1, m1)"
    using conn_event_inv [OF Cons.prems(1) e] by blast
  have "received (ev # evs) = received [ev] @ received evs" using received_append [of "[ev]" evs] by simp
  moreover have "no_model_change (ev # evs) = (no_model_change [ev] \<and> no_model_change evs)" by (auto simp: no_model_change_def)
  ultimately show ?case using Cons.IH [OF i r Cons.prems(3)] s by auto
qed auto

section \<open>Every schedule ends with everything answered\<close>

definition internal_events :: "'m conn_event_kind set" where
  "internal_events = {Drain_Start, Take_Frame, Respond, Drain_End}"

text \<open>The events the connection can still perform by itself, at most.\<close>

definition conn_work :: "modbus_connection \<Rightarrow> nat" where
  "conn_work c = 4 * length (waiting c) + 2 * mc_tasks c + (if mc_pending c = None then 0 else 1)
     + (if mc_request c = None then 0 else 1)"

definition quiescent :: "modbus_connection \<Rightarrow> bool" where
  "quiescent c \<longleftrightarrow> mc_tasks c = 0 \<and> mc_pending c = None \<and> mc_request c = None"

lemma internal_event_work:
  assumes "ev \<in> internal_events" "conn_event cfg dm ev (c, m) = Some (c', m')"
  shows "conn_work c' < conn_work c"
proof (cases ev)
  case Take_Frame
  with assms(2) obtain p where p: "mc_pending c = Some p" "mc_request c = None" "p \<noteq> []" "take_frame p c = Some c'"
    by (auto split: option.splits if_splits)
  show ?thesis
  proof (cases "decodeRequest p")
    case (Inl e)
    with p show ?thesis by (auto simp: take_frame_def conn_work_def waiting_def)
  next
    case (Inr res)
    with p obtain r n where d: "res = Some (r, n)" by (auto simp: take_frame_def split: option.splits)
    with decodeRequest_progress [of p r n] Inr p show ?thesis by (auto simp: take_frame_def conn_work_def waiting_def)
  qed
qed (use assms in \<open>auto simp: internal_events_def conn_work_def waiting_def split: if_splits option.splits prod.splits\<close>)

lemma internal_run_length:
  "conn_run cfg dm evs (c, m) = Some (c', m') \<Longrightarrow> set evs \<subseteq> internal_events \<Longrightarrow> length evs + conn_work c' \<le> conn_work c"
proof (induction evs arbitrary: c m)
  case (Cons ev evs)
  then obtain c1 m1 where e: "conn_event cfg dm ev (c, m) = Some (c1, m1)" "conn_run cfg dm evs (c1, m1) = Some (c', m')"
    by (auto split: option.splits)
  with Cons internal_event_work [of ev cfg dm c m c1 m1] show ?case by fastforce
qed simp

lemma request_needs_pending:
  "conn_run cfg dm evs (c, m) = Some (c', m') \<Longrightarrow> (mc_pending c = None \<Longrightarrow> mc_request c = None) \<Longrightarrow>
     mc_pending c' = None \<Longrightarrow> mc_request c' = None"
proof (induction evs arbitrary: c m)
  case (Cons ev evs)
  then obtain c1 m1 where e: "conn_event cfg dm ev (c, m) = Some (c1, m1)" "conn_run cfg dm evs (c1, m1) = Some (c', m')"
    by (auto split: option.splits)
  have "mc_pending c1 = None \<Longrightarrow> mc_request c1 = None"
    using e(1) Cons.prems(2)
    by (cases ev) (auto simp: conn_data_def take_frame_def Let_def split: if_splits option.splits sum.splits prod.splits)
  then show ?case by (rule Cons.IH [OF e(2) _ Cons.prems(3)])
qed simp

lemma stuck_quiescent:
  assumes "\<forall>ev\<in>internal_events. conn_event cfg dm ev (c, m) = None" "mc_pending c = None \<Longrightarrow> mc_request c = None"
  shows "quiescent c"
proof -
  have n: "conn_event cfg dm Drain_Start (c, m) = None" "conn_event cfg dm Take_Frame (c, m) = None"
    "conn_event cfg dm Respond (c, m) = None" "conn_event cfg dm Drain_End (c, m) = None"
    using assms(1) by (simp_all add: internal_events_def)
  have r: "mc_request c = None" using n(3) by (auto split: option.splits prod.splits)
  have "mc_pending c = None"
  proof (rule ccontr)
    assume "mc_pending c \<noteq> None"
    then obtain p where p: "mc_pending c = Some p" by auto
    with n(4) r have "p \<noteq> []" "\<not> mc_destroyed c" "decodeRequest p \<noteq> Inr None" by (auto split: if_splits)
    with n(2) p r show False by (auto simp: take_frame_def split: sum.splits option.splits)
  qed
  moreover have "mc_tasks c = 0" using n(1) calculation by (auto split: if_splits)
  ultimately show ?thesis using r by (simp add: quiescent_def)
qed

lemma conn_run_append:
  "conn_run cfg dm (evs @ evs') s = (case conn_run cfg dm evs s of None \<Rightarrow> None | Some s' \<Rightarrow> conn_run cfg dm evs' s')"
  by (induction evs arbitrary: s) (auto split: option.splits)

lemma received_internal: "set evs \<subseteq> internal_events \<Longrightarrow> received evs = []"
  by (induction evs rule: received.induct) (auto simp: internal_events_def)

lemma quiescent_inv:
  assumes "conn_inv cfg dm stream served c" "quiescent c"
  shows "frames stream = (served, mc_buffer c, False)" "list_all2 response_to served (mc_written c)"
  using assms by (auto simp: conn_inv_def quiescent_def in_flight_def waiting_def frames_none)

text \<open>C6: Whatever chunks a master sends and however the event loop interleaves the \<open>data\<close> callbacks with the
  drains and their awaits: the connection can perform only a bounded number of events by itself, and when none is left
  an open connection has answered every request of the received octets, each once, in the order of arrival and
  with the request's own header and function code; the octets it still holds are the incomplete rest.
\<close>

theorem pipelined_requests_answered:
  assumes "conn_run cfg dm evs (new_connection, m0) = Some (c, m)"
    and "set evs' \<subseteq> internal_events" "conn_run cfg dm evs' (c, m) = Some (c', m')"
  shows "length evs' \<le> conn_work c \<and>
    ((\<forall>ev\<in>internal_events. conn_event cfg dm ev (c', m') = None) \<longrightarrow> \<not> mc_destroyed c' \<longrightarrow>
      (\<exists>requests. frames (received evs) = (requests, mc_buffer c', False) \<and> list_all2 response_to requests (mc_written c')))"
proof (intro conjI impI)
  show "length evs' \<le> conn_work c" using internal_run_length [OF assms(3,2)] by simp
  have run: "conn_run cfg dm (evs @ evs') (new_connection, m0) = Some (c', m')" using assms by (simp add: conn_run_append)
  assume stuck: "\<forall>ev\<in>internal_events. conn_event cfg dm ev (c', m') = None" and "\<not> mc_destroyed c'"
  then obtain served where "conn_inv cfg dm (received (evs @ evs')) served c'"
    using conn_run_inv [OF conn_inv_new run] by auto
  moreover have "quiescent c'"
    using stuck_quiescent [OF stuck] request_needs_pending [OF run] by (simp add: new_connection_def)
  moreover have "received (evs @ evs') = received evs" using received_internal [OF assms(2)] by (simp add: received_append)
  ultimately show "\<exists>requests. frames (received evs) = (requests, mc_buffer c', False) \<and> list_all2 response_to requests (mc_written c')"
    using quiescent_inv by metis
qed

text \<open>C34: If nothing else changes the data model, the interleaving does not matter: once a connection is idle and open, the
  octets it has written, the rest it holds and the model are those of one drain over everything received.
\<close>

theorem interleaving_irrelevant:
  assumes "conn_run cfg dm evs (new_connection, m0) = Some (c, m)" "no_model_change evs" "quiescent c" "\<not> mc_destroyed c"
  shows "drain_frames cfg dm (received evs) m0 = (mc_written c, mc_buffer c, False, m)"
proof -
  have "serve cfg dm [] m0 = (mc_written new_connection, m0)" by (simp add: new_connection_def)
  then obtain served where "conn_inv cfg dm (received evs) served c" "serve cfg dm served m0 = (mc_written c, m)"
    using conn_run_inv [OF conn_inv_new assms(1,4), of m0] assms(2) by auto
  then show ?thesis using quiescent_inv(1) [OF _ assms(3), of cfg dm "received evs" served] by (simp add: drain_frames_serve)
qed

section \<open>All connections of the listener\<close>

fun server_received :: "nat \<Rightarrow> 'm server_event_kind list \<Rightarrow> buffer" where
  "server_received i [] = []"
| "server_received i (Conn j (Data chunk) # evs) = (if i = j then chunk else []) @ server_received i evs"
| "server_received i (ev # evs) = server_received i evs"

definition conn_part :: "nat \<Rightarrow> 'm server_event_kind \<Rightarrow> 'm \<Rightarrow> 'm conn_event_kind" where
  "conn_part i ev m = (case ev of Conn j e \<Rightarrow> if i = j then e else Model_Change m | Connect p \<Rightarrow> Model_Change m)"

lemma server_received_append: "server_received i (evs @ evs') = server_received i evs @ server_received i evs'"
  by (induction i evs rule: server_received.induct) auto

lemma server_run_append:
  "server_run cfg dm (evs @ evs') s = (case server_run cfg dm evs s of None \<Rightarrow> None | Some s' \<Rightarrow> server_run cfg dm evs' s')"
  by (induction evs arbitrary: s) (auto split: option.splits)

lemma server_event_conn:
  assumes "server_event cfg dm ev srv = Some srv'" "i < length (sockets srv)"
  shows "i < length (sockets srv')"
    "conn_event cfg dm (conn_part i ev (model srv')) (sockets srv ! i, model srv) = Some (sockets srv' ! i, model srv')"
    "received [conn_part i ev (model srv')] = server_received i [ev]"
proof -
  show "i < length (sockets srv')"
    using assms by (cases ev) (auto split: if_splits option.splits)
  show "conn_event cfg dm (conn_part i ev (model srv')) (sockets srv ! i, model srv) = Some (sockets srv' ! i, model srv')"
    using assms by (cases ev) (auto simp: conn_part_def nth_append nth_list_update split: if_splits option.splits)
  show "received [conn_part i ev (model srv')] = server_received i [ev]"
  proof (cases ev)
    case (Conn j e)
    then show ?thesis by (cases e) (auto simp: conn_part_def)
  qed (simp add: conn_part_def)
qed

text \<open>Every connection of a run of the listener performs a run of its own.\<close>

lemma server_run_conn:
  assumes "server_run cfg dm evs (new_modbus_server m0) = Some srv" "i < length (sockets srv)"
  shows "\<exists>cevs m. conn_run cfg dm cevs (new_connection, m) = Some (sockets srv ! i, model srv) \<and> received cevs = server_received i evs"
  using assms
proof (induction evs arbitrary: srv rule: rev_induct)
  case Nil
  then show ?case by (auto simp: new_modbus_server_def)
next
  case (snoc ev evs)
  then obtain srv0 where r: "server_run cfg dm evs (new_modbus_server m0) = Some srv0" "server_event cfg dm ev srv0 = Some srv"
    by (auto simp: server_run_append split: option.splits)
  show ?case
  proof (cases "i < length (sockets srv0)")
    case True
    then obtain cevs m where c: "conn_run cfg dm cevs (new_connection, m) = Some (sockets srv0 ! i, model srv0)"
      "received cevs = server_received i evs" using snoc.IH r(1) by blast
    let ?e = "conn_part i ev (model srv)"
    have "conn_run cfg dm (cevs @ [?e]) (new_connection, m) = Some (sockets srv ! i, model srv)"
      using c(1) server_event_conn(2) [OF r(2) True] by (simp add: conn_run_append)
    moreover have "received (cevs @ [?e]) = server_received i (evs @ [ev])"
      using c(2) server_event_conn(3) [OF r(2) True] by (simp add: received_append server_received_append)
    ultimately show ?thesis by blast
  next
    case False
    have z: "server_received i evs = []" if "i \<ge> length (sockets srv0)" "server_run cfg dm evs (new_modbus_server m0) = Some srv0"
      using that
    proof (induction evs arbitrary: srv0 rule: rev_induct)
      case (snoc e es)
      then obtain s1 where s1: "server_run cfg dm es (new_modbus_server m0) = Some s1" "server_event cfg dm e s1 = Some srv0"
        by (auto simp: server_run_append split: option.splits)
      have "length (sockets s1) \<le> i" using snoc.prems(1) s1(2) by (cases e) (auto split: if_splits option.splits)
      moreover have "server_received i [e] = []"
      proof (cases e)
        case (Conn j ce)
        then show ?thesis using s1(2) calculation by (cases ce) (auto split: if_splits)
      qed simp
      ultimately show ?case using snoc.IH s1(1) by (simp add: server_received_append)
    qed simp
    from False snoc.prems(2) r(2) obtain p where "ev = Connect p" "sockets srv ! i = new_connection"
      by (cases ev) (auto simp: nth_append split: if_splits option.splits)
    then show ?thesis
      using z False r(1) by (intro exI [of _ "[]"] exI [of _ "model srv"]) (simp add: server_received_append)
  qed
qed

lemma length_filter_update:
  "(P y \<Longrightarrow> i < length xs \<Longrightarrow> P (xs ! i)) \<Longrightarrow> length (filter P (xs[i := y])) \<le> length (filter P xs)"
  by (induction xs arbitrary: i) (auto split: nat.split simp: le_SucI)

lemma conn_event_closed: "conn_event cfg dm ev (c, m) = Some (c', m') \<Longrightarrow> mc_closed c \<Longrightarrow> mc_closed c'"
  by (cases ev) (auto simp: take_frame_def conn_data_def Let_def split: if_splits option.splits sum.splits prod.splits)

lemma server_event_cap:
  assumes "server_event cfg dm ev srv = Some srv'" "connectionCount srv \<le> mb_maxConnections cfg"
  shows "connectionCount srv' \<le> mb_maxConnections cfg"
proof (cases ev)
  case (Connect p)
  with assms show ?thesis by (auto simp: connectionCount_def mb_admit_def new_connection_def split: if_splits)
next
  case (Conn i e)
  with assms(1) obtain c m where e: "conn_event cfg dm e (sockets srv ! i, model srv) = Some (c, m)"
    "sockets srv' = (sockets srv)[i := c]" by (auto split: if_splits option.splits)
  have "connectionCount srv' \<le> connectionCount srv"
    unfolding connectionCount_def e(2) by (rule length_filter_update) (use conn_event_closed [OF e(1)] in blast)
  with assms(2) show ?thesis by linarith
qed

lemma server_run_cap:
  "server_run cfg dm evs srv = Some srv' \<Longrightarrow> connectionCount srv \<le> mb_maxConnections cfg \<Longrightarrow>
     connectionCount srv' \<le> mb_maxConnections cfg"
  by (induction evs arbitrary: srv) (auto split: option.splits dest: server_event_cap)

lemma answer_read_only: "\<not> allowWrites cfg \<Longrightarrow> snd (answer cfg dm r m) = m"
  by (simp add: answer_def writeRefused_def processRequest_read_only)

lemma conn_event_read_only:
  "\<not> allowWrites cfg \<Longrightarrow> conn_event cfg dm ev (c, m) = Some (c', m') \<Longrightarrow> (\<And>m1. ev \<noteq> Model_Change m1) \<Longrightarrow> m' = m"
  using answer_read_only [of cfg dm _ m]
  by (cases ev) (auto split: if_splits option.splits prod.splits simp: prod_eq_iff)

lemma server_run_read_only:
  "server_run cfg dm evs srv = Some srv' \<Longrightarrow> \<not> allowWrites cfg \<Longrightarrow> \<forall>i m. Conn i (Model_Change m) \<notin> set evs \<Longrightarrow>
     model srv' = model srv"
proof (induction evs arbitrary: srv)
  case (Cons ev evs)
  then obtain s1 where s1: "server_event cfg dm ev srv = Some s1" "server_run cfg dm evs s1 = Some srv'"
    by (auto split: option.splits)
  have "model s1 = model srv"
  proof (cases ev)
    case (Conn i e)
    with s1(1) obtain c m where e: "conn_event cfg dm e (sockets srv ! i, model srv) = Some (c, m)" "model s1 = m"
      by (auto split: if_splits option.splits)
    have "e \<noteq> Model_Change m1" for m1 using Cons.prems(3) Conn by auto
    with e show ?thesis using conn_event_read_only [OF Cons.prems(2) e(1)] by blast
  qed (use s1(1) in \<open>auto split: if_splits\<close>)
  then show ?case using Cons.IH [OF s1(2)] Cons.prems by auto
qed simp

text \<open>In every run of the listener, with any number of masters on the shared data model: the number of open connections
  stays within the cap, and every open connection that is idle has answered exactly the requests of the octets its
  own master sent, in order, whatever the others did meanwhile.
\<close>

theorem listener_answers_in_order:
  assumes "server_run cfg dm evs (new_modbus_server m0) = Some srv"
  shows "connectionCount srv \<le> mb_maxConnections cfg \<and>
    (\<forall>i < length (sockets srv). quiescent (sockets srv ! i) \<longrightarrow> \<not> mc_destroyed (sockets srv ! i) \<longrightarrow>
      (\<exists>requests. frames (server_received i evs) = (requests, mc_buffer (sockets srv ! i), False)
        \<and> list_all2 response_to requests (mc_written (sockets srv ! i))))"
proof (intro conjI allI impI)
  show "connectionCount srv \<le> mb_maxConnections cfg"
    by (rule server_run_cap [OF assms]) (simp add: connectionCount_def new_modbus_server_def)
next
  fix i assume i: "i < length (sockets srv)" "quiescent (sockets srv ! i)" "\<not> mc_destroyed (sockets srv ! i)"
  obtain cevs m where c: "conn_run cfg dm cevs (new_connection, m) = Some (sockets srv ! i, model srv)"
    "received cevs = server_received i evs" using server_run_conn [OF assms i(1)] by blast
  then obtain served where "conn_inv cfg dm (server_received i evs) served (sockets srv ! i)"
    using conn_run_inv [OF conn_inv_new c(1) i(3)] by auto
  then show "\<exists>requests. frames (server_received i evs) = (requests, mc_buffer (sockets srv ! i), False)
        \<and> list_all2 response_to requests (mc_written (sockets srv ! i))"
    using quiescent_inv [OF _ i(2)] by blast
qed

text \<open>A listener without \<open>allowWrites\<close> never changes the data model, whatever octets any number of masters send: in every run
  in which nobody else changes the model it is the initial one.
\<close>

theorem read_only_listener:
  assumes "server_run cfg dm evs (new_modbus_server m0) = Some srv" "\<not> allowWrites cfg"
    and "\<forall>i m. Conn i (Model_Change m) \<notin> set evs"
  shows "model srv = m0"
  using server_run_read_only [OF assms] by (simp add: new_modbus_server_def)

section \<open>Witnesses: a write and a read, pipelined and cut inside a frame\<close>

definition demo_config :: modbus_config where
  "demo_config = \<lparr> mb_maxBufferBytes = 64, mb_maxConnections = 4, 
     mb_peerRules = [\<lparr> family = Family4, addr_bytes = [127, 0, 0, 1], prefix_len = 32, source = ''127.0.0.1'' \<rparr>],
     allowWrites = True \<rparr>"

definition demo_memory :: in_memory_data_model where
  "demo_memory = \<lparr> coils = [], discreteInputs = [], holdingRegisters = [0, 0], inputRegisters = [] \<rparr>"

definition demo_events :: "in_memory_data_model conn_event_kind list" where
  "demo_events = [Data [0, 5, 0, 0, 0, 6, 1, 6, 0, 1, 0, 7, 0, 2, 0, 0], Drain_Start, Take_Frame,
     Data [0, 6, 1, 3, 0, 1, 0, 1], Respond, Drain_End, Drain_Start, Take_Frame, Respond]"

definition demo_end :: "modbus_connection \<times> in_memory_data_model" where
  "demo_end = (new_connection \<lparr> mc_written := [[0, 5, 0, 0, 0, 6, 1, 6, 0, 1, 0, 7], [0, 2, 0, 0, 0, 5, 1, 3, 2, 0, 7]] \<rparr>,
     demo_memory \<lparr> holdingRegisters := [0, 7] \<rparr>)"

definition demo_header :: "nat \<Rightarrow> mbap_header" where
  "demo_header t = \<lparr> transactionId = t, protocolId = 0, mbap_length = 6, unitId = 1 \<rparr>"

lemmas decode_eval = decodeRequest_def decodeMbapHeader_def readUIntBE_def subarray_def mbap_consts demo_header_def

lemma demo_decode:
  "decodeRequest [0, 5, 0, 0, 0, 6, 1, 6, 0, 1, 0, 7, 0, 2, 0, 0]
    = Inr (Some (\<lparr> header = demo_header 5, functionCode = 6, data = [0, 1, 0, 7] \<rparr>, 12))"
  "decodeRequest [0, 2, 0, 0, 0, 6, 1, 3, 0, 1, 0, 1]
    = Inr (Some (\<lparr> header = demo_header 2, functionCode = 3, data = [0, 1, 0, 1] \<rparr>, 12))"
  "decodeRequest [0, 2, 0, 0] = Inr None"
  by (simp_all add: decode_eval)

lemma le_bytes_2: "le_bytes 2 v = [of_nat v, of_nat (v div 256)]"
  by (simp add: numeral_2_eq_2)

lemma demo_answers:
  "answer demo_config in_memory_model \<lparr> header = demo_header 5, functionCode = 6, data = [0, 1, 0, 7] \<rparr> demo_memory
    = ([0, 5, 0, 0, 0, 6, 1, 6, 0, 1, 0, 7], demo_memory \<lparr> holdingRegisters := [0, 7] \<rparr>)"
  "answer demo_config in_memory_model \<lparr> header = demo_header 2, functionCode = 3, data = [0, 1, 0, 1] \<rparr>
      (demo_memory \<lparr> holdingRegisters := [0, 7] \<rparr>)
    = ([0, 2, 0, 0, 0, 5, 1, 3, 2, 0, 7], demo_memory \<lparr> holdingRegisters := [0, 7] \<rparr>)"
  by (simp_all add: answer_def writeRefused_def demo_config_def processRequest_def mb_dispatch_def writeSingleRegister_def
      readRegisters_def requireBytes_def after_write_def mem_writeHoldingRegisters_def mem_read_def assertRange_def
      demo_memory_def counted_def packRegisters_def encodeResponse_def encodeMbapHeader_def demo_header_def
      readUIntBE_def subarray_def mbap_consts le_bytes_2)

lemma demo_bound: "mb_maxBufferBytes demo_config = 64"
  by (simp add: demo_config_def)

lemmas demo_eval = demo_events_def demo_end_def new_connection_def conn_data_def take_frame_def demo_decode demo_answers demo_bound

lemma demo_run_prefix: "conn_run demo_config in_memory_model demo_events (new_connection, demo_memory)
    = Some (fst demo_end \<lparr> mc_pending := Some [] \<rparr>, snd demo_end)"
  by (simp add: demo_eval)

lemma demo_run: "conn_run demo_config in_memory_model (demo_events @ [Drain_End]) (new_connection, demo_memory) = Some demo_end"
  by (simp add: conn_run_append demo_run_prefix) (simp add: demo_eval)

lemma demo_stuck: "\<forall>ev\<in>internal_events. conn_event demo_config in_memory_model ev demo_end = None"
  by (simp add: internal_events_def demo_end_def new_connection_def)

lemma demo_received: "received demo_events = [0, 5, 0, 0, 0, 6, 1, 6, 0, 1, 0, 7, 0, 2, 0, 0, 0, 6, 1, 3, 0, 1, 0, 1]"
  by (simp add: demo_events_def)

theorem pipelined_requests_answered_witness:
  "\<exists>requests. frames [0, 5, 0, 0, 0, 6, 1, 6, 0, 1, 0, 7, 0, 2, 0, 0, 0, 6, 1, 3, 0, 1, 0, 1] = (requests, [], False)
     \<and> list_all2 response_to requests [[0, 5, 0, 0, 0, 6, 1, 6, 0, 1, 0, 7], [0, 2, 0, 0, 0, 5, 1, 3, 2, 0, 7]]"
proof -
  have "conn_run demo_config in_memory_model [Drain_End] (fst demo_end \<lparr> mc_pending := Some [] \<rparr>, snd demo_end) = Some demo_end"
    by (simp add: demo_eval)
  then show ?thesis
    using pipelined_requests_answered [OF demo_run_prefix, of "[Drain_End]" "fst demo_end" "snd demo_end"] demo_stuck
    by (simp add: demo_received) (simp add: demo_end_def new_connection_def internal_events_def)
qed

theorem interleaving_irrelevant_witness:
  "drain_frames demo_config in_memory_model [0, 5, 0, 0, 0, 6, 1, 6, 0, 1, 0, 7, 0, 2, 0, 0, 0, 6, 1, 3, 0, 1, 0, 1] demo_memory
    = ([[0, 5, 0, 0, 0, 6, 1, 6, 0, 1, 0, 7], [0, 2, 0, 0, 0, 5, 1, 3, 2, 0, 7]], [], False, demo_memory \<lparr> holdingRegisters := [0, 7] \<rparr>)"
  using interleaving_irrelevant [of demo_config in_memory_model "demo_events @ [Drain_End]" demo_memory "fst demo_end" "snd demo_end"]
    demo_run demo_received
  by (simp add: received_append no_model_change_def quiescent_def demo_end_def new_connection_def demo_events_def)

lemma server_run_single:
  "conn_run cfg dm evs (c, m) = Some (c', m') \<Longrightarrow>
     server_run cfg dm (map (Conn 0) evs) \<lparr> sockets = [c], mb_rejectedConnections = n, model = m \<rparr>
       = Some \<lparr> sockets = [c'], mb_rejectedConnections = n, model = m' \<rparr>"
  by (induction evs arbitrary: c m) (auto split: option.splits)

lemma received_single: "server_received 0 (map (Conn 0) evs) = received evs"
  by (induction evs rule: received.induct) auto

lemma demo_admit:
  assumes "mb_peerRules cfg = mb_peerRules demo_config" "0 < mb_maxConnections cfg"
  shows "server_event cfg dm (Connect (Some (show_ipv4 [127, 0, 0, 1]))) (new_modbus_server m)
    = Some \<lparr> sockets = [new_connection], mb_rejectedConnections = 0, model = m \<rparr>"
proof -
  have "isPeerAllowed (Some (show_ipv4 [127, 0, 0, 1])) (mb_peerRules cfg)"
    by (simp add: isPeerAllowed_show assms(1) demo_config_def matches_def)
  with assms(2) show ?thesis by (simp add: mb_admit_def connectionCount_def new_modbus_server_def)
qed

theorem listener_answers_in_order_witness:
  "\<exists>srv requests. server_run demo_config in_memory_model
       (Connect (Some (show_ipv4 [127, 0, 0, 1])) # map (Conn 0) (demo_events @ [Drain_End])) (new_modbus_server demo_memory) = Some srv
     \<and> connectionCount srv = 1 \<and> frames (received demo_events) = (requests, [], False)
     \<and> list_all2 response_to requests [[0, 5, 0, 0, 0, 6, 1, 6, 0, 1, 0, 7], [0, 2, 0, 0, 0, 5, 1, 3, 2, 0, 7]]"
proof -
  let ?srv = "\<lparr> sockets = [fst demo_end], mb_rejectedConnections = 0, model = snd demo_end \<rparr>"
  have "server_run demo_config in_memory_model
       (Connect (Some (show_ipv4 [127, 0, 0, 1])) # map (Conn 0) (demo_events @ [Drain_End])) (new_modbus_server demo_memory) = Some ?srv"
    using demo_admit [of demo_config in_memory_model demo_memory]
      server_run_single [of demo_config in_memory_model "demo_events @ [Drain_End]" new_connection demo_memory "fst demo_end" "snd demo_end" 0]
      demo_run by (simp add: demo_config_def)
  moreover from listener_answers_in_order [OF this]
  have "\<exists>requests. frames (received demo_events) = (requests, [], False)
     \<and> list_all2 response_to requests [[0, 5, 0, 0, 0, 6, 1, 6, 0, 1, 0, 7], [0, 2, 0, 0, 0, 5, 1, 3, 2, 0, 7]]"
    using received_single [of "demo_events @ [Drain_End] :: in_memory_data_model conn_event_kind list"]
    by (simp add: received_append quiescent_def demo_end_def new_connection_def)
  ultimately show ?thesis by (auto simp: connectionCount_def demo_end_def new_connection_def)
qed

theorem read_only_listener_witness:
  "\<exists>srv. server_run (demo_config \<lparr> allowWrites := False \<rparr>) in_memory_model
      [Connect (Some (show_ipv4 [127, 0, 0, 1])), Conn 0 (Data [0, 5, 0, 0, 0, 6, 1, 6, 0, 1, 0, 7, 0, 2, 0, 0]), Conn 0 Drain_Start,
       Conn 0 Take_Frame, Conn 0 Respond] (new_modbus_server demo_memory) = Some srv
     \<and> mc_written (sockets srv ! 0) = [[0, 5, 0, 0, 0, 3, 1, 0x86, 1]] \<and> model srv = demo_memory"
proof -
  let ?cfg = "demo_config \<lparr> allowWrites := False \<rparr>"
  let ?evs = "[Connect (Some (show_ipv4 [127, 0, 0, 1])), Conn 0 (Data [0, 5, 0, 0, 0, 6, 1, 6, 0, 1, 0, 7, 0, 2, 0, 0]), Conn 0 Drain_Start,
       Conn 0 Take_Frame, Conn 0 Respond]"
  have "answer ?cfg in_memory_model \<lparr> header = demo_header 5, functionCode = 6, data = [0, 1, 0, 7] \<rparr> demo_memory
    = ([0, 5, 0, 0, 0, 3, 1, 0x86, 1], demo_memory)"
    by (simp add: answer_def writeRefused_def WRITE_FUNCTION_CODES_def encodeExceptionResponse_def encodeMbapHeader_def
        demo_header_def mbap_consts le_bytes_2)
  then have "conn_run ?cfg in_memory_model [Data [0, 5, 0, 0, 0, 6, 1, 6, 0, 1, 0, 7, 0, 2, 0, 0], Drain_Start, Take_Frame, Respond]
      (new_connection, demo_memory)
    = Some (new_connection \<lparr> mc_pending := Some [0, 2, 0, 0], mc_written := [[0, 5, 0, 0, 0, 3, 1, 0x86, 1]] \<rparr>, demo_memory)"
    by (simp add: demo_eval)
  from server_run_single [OF this, of 0] have "server_run ?cfg in_memory_model ?evs (new_modbus_server demo_memory)
    = Some \<lparr> sockets = [new_connection \<lparr> mc_pending := Some [0, 2, 0, 0], mc_written := [[0, 5, 0, 0, 0, 3, 1, 0x86, 1]] \<rparr>],
             mb_rejectedConnections = 0, model = demo_memory \<rparr>"
    using demo_admit [of ?cfg in_memory_model demo_memory] by (simp add: demo_config_def del: conn_event.simps server_event.simps)
  with read_only_listener [OF this] show ?thesis by simp
qed

end
