(* ===== verification/JS_Arith.thy ===== *)
theory JS_Arith
  imports JS_Number
begin

text \<open>
  More of JavaScript's number arithmetic: sums, division, comparison, \<open>Math.round\<close>, the conversions behind \<open>& 0xffff\<close> and
  \<open>>>> 0\<close>, truth of a number, and the big-endian accessors of \<open>Buffer\<close>.
\<close>

text \<open>\<open>x ? \<dots> : \<dots>\<close>: zeros and \<open>NaN\<close> are false.\<close>

definition num_truthy :: "number \<Rightarrow> bool" where
  "num_truthy x = (case x of NaN \<Rightarrow> False | Infinity _ \<Rightarrow> True | Finite _ m _ \<Rightarrow> m \<noteq> 0)"

text \<open>
  The rounded quotient of two binary64 numbers. The integer quotient carries more than 55 bits, and its last bit records
  whether anything was left over, so rounding it is rounding the exact quotient.
\<close>

definition num_div :: "number \<Rightarrow> number \<Rightarrow> number" where
  "num_div a b =
     (case (a, b) of
        (NaN, _) \<Rightarrow> NaN
      | (_, NaN) \<Rightarrow> NaN
      | (Infinity _, Infinity _) \<Rightarrow> NaN
      | (Infinity s, Finite t _ _) \<Rightarrow> Infinity (s \<noteq> t)
      | (Finite s _ _, Infinity t) \<Rightarrow> Finite (s \<noteq> t) 0 0
      | (Finite s m e, Finite t n f) \<Rightarrow>
          if n = 0 then (if m = 0 then NaN else Infinity (s \<noteq> t))
          else (let k = bitlen n + 56; q = m * 2 ^ k div n; sticky = (if m * 2 ^ k mod n = 0 then 0 else 1)
                in float_decode 53 11 (float_encode 53 11 (Finite (s \<noteq> t) (2 * q + sticky) (e - f - int k - 1)))))"

text \<open>\<open>Math.round\<close>: the nearest integer, halves upwards. The sign of a zero result is not kept.\<close>

definition num_round :: "number \<Rightarrow> number" where
  "num_round x =
     (case x of
        Finite s m e \<Rightarrow>
          (let v = (if s then - int m else int m)
           in num_of_int (if 0 \<le> e then v * 2 ^ nat e else (2 * v + 2 ^ nat (- e)) div (2 * 2 ^ nat (- e))))
      | _ \<Rightarrow> x)"

text \<open>\<open>x & (2 ^ bits - 1)\<close> for \<open>bits \<le> 31\<close>, and \<open>x >>> 0\<close> for \<open>bits = 32\<close>.\<close>

definition to_uint :: "nat \<Rightarrow> number \<Rightarrow> nat" where
  "to_uint bits x = (case x of Finite s m e \<Rightarrow> nat (trunc_finite s m e mod 2 ^ bits) | _ \<Rightarrow> 0)"

text \<open>Sum and difference: the exact sum at the smaller exponent, rounded; a zero sum is negative only when both terms are.\<close>

definition scaled :: "bool \<Rightarrow> nat \<Rightarrow> nat \<Rightarrow> int" where
  "scaled s m k = (if s then - int (m * 2 ^ k) else int (m * 2 ^ k))"

definition num_add :: "number \<Rightarrow> number \<Rightarrow> number" where
  "num_add a b =
     (case (a, b) of
        (NaN, _) \<Rightarrow> NaN
      | (_, NaN) \<Rightarrow> NaN
      | (Infinity s, Infinity t) \<Rightarrow> if s = t then Infinity s else NaN
      | (Infinity s, Finite _ _ _) \<Rightarrow> Infinity s
      | (Finite _ _ _, Infinity t) \<Rightarrow> Infinity t
      | (Finite s m e, Finite t n f) \<Rightarrow>
          (let k = min e f; x = scaled s m (nat (e - k)) + scaled t n (nat (f - k))
           in float_decode 53 11 (float_encode 53 11 (Finite (if x = 0 then s \<and> t else x < 0) (nat \<bar>x\<bar>) k))))"

definition num_minus :: "number \<Rightarrow> number" where
  "num_minus a = (case a of NaN \<Rightarrow> NaN | Infinity s \<Rightarrow> Infinity (\<not> s) | Finite s m e \<Rightarrow> Finite (\<not> s) m e)"

definition num_sub :: "number \<Rightarrow> number \<Rightarrow> number" where
  "num_sub a b = num_add a (num_minus b)"

text \<open>\<open>a < b\<close> and \<open>a === b\<close>: false with \<open>NaN\<close>, and the two zeros are equal.\<close>

definition num_lt :: "number \<Rightarrow> number \<Rightarrow> bool" where
  "num_lt a b =
     (case (a, b) of
        (NaN, _) \<Rightarrow> False
      | (_, NaN) \<Rightarrow> False
      | (Infinity s, Infinity t) \<Rightarrow> s \<and> \<not> t
      | (Infinity s, Finite _ _ _) \<Rightarrow> s
      | (Finite _ _ _, Infinity t) \<Rightarrow> \<not> t
      | (Finite s m e, Finite t n f) \<Rightarrow> (let k = min e f in scaled s m (nat (e - k)) < scaled t n (nat (f - k))))"

definition num_eq :: "number \<Rightarrow> number \<Rightarrow> bool" where
  "num_eq a b =
     (case (a, b) of
        (Infinity s, Infinity t) \<Rightarrow> s = t
      | (Finite s m e, Finite t n f) \<Rightarrow> (let k = min e f in scaled s m (nat (e - k)) = scaled t n (nat (f - k)))
      | _ \<Rightarrow> False)"

definition num_le :: "number \<Rightarrow> number \<Rightarrow> bool" where
  "num_le a b \<longleftrightarrow> num_lt a b \<or> num_eq a b"

definition readInt16BE :: "buffer \<Rightarrow> nat \<Rightarrow> int" where
  "readInt16BE b off = signed_val 16 (readUIntBE b off 2)"

definition readInt32BE :: "buffer \<Rightarrow> nat \<Rightarrow> int" where
  "readInt32BE b off = signed_val 32 (readUIntBE b off 4)"

definition readFloatBE :: "buffer \<Rightarrow> nat \<Rightarrow> number" where
  "readFloatBE b off = float_decode 24 8 (readUIntBE b off 4)"

abbreviation readUInt32BE :: "buffer \<Rightarrow> nat \<Rightarrow> nat" where "readUInt32BE b off \<equiv> readUIntBE b off 4"
abbreviation writeUInt32BE :: "nat \<Rightarrow> buffer" where "writeUInt32BE v \<equiv> rev (le_bytes 4 v)"
abbreviation writeInt32BE :: "int \<Rightarrow> buffer" where "writeInt32BE i \<equiv> rev (signed_bytes 4 i)"
abbreviation writeInt16BE :: "int \<Rightarrow> buffer" where "writeInt16BE i \<equiv> rev (signed_bytes 2 i)"
abbreviation writeFloatBE :: "number \<Rightarrow> buffer" where "writeFloatBE x \<equiv> rev (writeFloatLE x)"

section \<open>Integers are exact\<close>

lemma num_round_of_int [simp]: "num_round (num_of_int i) = num_of_int i"
  by (simp add: num_round_def num_of_int_def)

lemma trunc_of_int: "trunc_finite (i < 0) (nat \<bar>i\<bar>) 0 = i"
  by (simp add: trunc_finite_def Let_def)

lemma to_uint_of_int: "to_uint bits (num_of_int i) = nat (i mod 2 ^ bits)"
  by (simp add: to_uint_def num_of_int_def trunc_of_int)

lemma to_uint_lt: "to_uint bits x < 2 ^ bits"
  by (cases x) (simp_all add: to_uint_def nat_less_iff)

lemma num_mul_finite: "num_mul (Finite s m e) (Finite t n f) = round64 (Finite (s \<noteq> t) (m * n) (e + f))"
  by (simp add: num_mul_def round64_def)

lemma num_add_finite:
  "num_add (Finite s m e) (Finite t n f) =
     (let k = min e f; x = scaled s m (nat (e - k)) + scaled t n (nat (f - k))
      in round64 (Finite (if x = 0 then s \<and> t else x < 0) (nat \<bar>x\<bar>) k))"
  by (simp add: num_add_def round64_def)

lemma num_add_positive:
  "num_add (Finite False m e) (Finite False n f) =
     (let k = min e f in round64 (Finite False (m * 2 ^ nat (e - k) + n * 2 ^ nat (f - k)) k))"
proof -
  have "int a + int b = int (a + b)" for a b by simp
  then show ?thesis by (simp only: num_add_finite scaled_def if_False Let_def) (simp del: of_nat_add of_nat_mult of_nat_power)
qed

lemma num_eq_shift: "num_eq (Finite s (m * 2 ^ j) (e - int j)) (Finite s m e)"
  by (simp add: num_eq_def Let_def scaled_def)

lemma num_eq_zero: "num_eq (Finite s 0 e) (Finite t 0 f)"
  by (simp add: num_eq_def Let_def scaled_def)

text \<open>
  Sums, differences and products of integers are exact below \<open>2 ^ 53\<close>; in particular a difference of equal integers and a
  product with zero are zero.
\<close>

lemma round64_int: "\<bar>i\<bar> < 2 ^ 53 \<Longrightarrow> num_eq (round64 (Finite (i < 0) (nat \<bar>i\<bar>) 0)) (num_of_int i)"
proof -
  assume "\<bar>i\<bar> < 2 ^ 53"
  then have "nat \<bar>i\<bar> < 2 ^ 53" by (simp add: nat_less_iff)
  then obtain j where "round64 (Finite (i < 0) (nat \<bar>i\<bar>) 0) = Finite (i < 0) (nat \<bar>i\<bar> * 2 ^ j) (0 - int j)"
    using round64_exact [of "nat \<bar>i\<bar>" 0 "i < 0"] by auto
  then show ?thesis by (simp only: num_of_int_def num_eq_shift)
qed

lemma num_add_of_int: "\<bar>a + b\<bar> < 2 ^ 53 \<Longrightarrow> num_eq (num_add (num_of_int a) (num_of_int b)) (num_of_int (a + b))"
proof -
  assume a: "\<bar>a + b\<bar> < 2 ^ 53"
  have "scaled (i < 0) (nat \<bar>i\<bar>) 0 = i" for i :: int by (simp add: scaled_def)
  then have "num_add (num_of_int a) (num_of_int b) = round64 (Finite (a + b < 0) (nat \<bar>a + b\<bar>) 0)"
    by (auto simp: num_of_int_def num_add_finite Let_def intro!: arg_cong [where f = round64])
  then show ?thesis using round64_int [OF a] by simp
qed

lemma num_minus_of_int: "num_eq (num_minus (num_of_int b)) (num_of_int (- b))"
  by (simp add: num_of_int_def num_minus_def num_eq_def scaled_def)

lemma num_mul_of_int: "\<bar>a * b\<bar> < 2 ^ 53 \<Longrightarrow> num_eq (num_mul (num_of_int a) (num_of_int b)) (num_of_int (a * b))"
proof -
  assume a: "\<bar>a * b\<bar> < 2 ^ 53"
  show ?thesis
  proof (cases "a * b = 0")
    case True
    then have "num_mul (num_of_int a) (num_of_int b) = round64 (Finite ((a < 0) \<noteq> (b < 0)) 0 0)"
      by (auto simp: num_of_int_def num_mul_finite)
    moreover obtain j where "round64 (Finite ((a < 0) \<noteq> (b < 0)) 0 0) = Finite ((a < 0) \<noteq> (b < 0)) (0 * 2 ^ j) (0 - int j)"
      using round64_exact [of 0 0 "(a < 0) \<noteq> (b < 0)"] by auto
    ultimately show ?thesis using True by (simp add: num_of_int_def num_eq_zero)
  next
    case False
    then have "num_mul (num_of_int a) (num_of_int b) = round64 (Finite (a * b < 0) (nat \<bar>a * b\<bar>) 0)"
      by (auto simp: num_of_int_def num_mul_finite nat_mult_distrib abs_mult mult_less_0_iff intro!: arg_cong [where f = round64])
    then show ?thesis using round64_int [OF a] by simp
  qed
qed

lemma num_sub_self: "\<not> num_truthy (num_sub (Finite s m e) (Finite s m e))"
proof -
  have "num_sub (Finite s m e) (Finite s m e) = round64 (Finite False 0 e)"
    by (simp add: num_sub_def num_minus_def num_add_finite Let_def scaled_def)
  also have "\<dots> = Finite False 0 (- 1074)"
    by (simp add: round64_def float_encode_zero float_decode_def min_exp_def)
  finally show ?thesis by (simp add: num_truthy_def)
qed

lemma num_div_zero: "n \<noteq> 0 \<Longrightarrow> \<not> num_truthy (num_div (Finite s 0 e) (Finite t n f))"
  by (auto simp: num_div_def Let_def float_encode_zero float_decode_def num_truthy_def)

text \<open>The quotient by a power of two is exact when the dividend has at most 53 bits.\<close>

lemma num_div_pow2: "num_div (Finite s m e) (Finite t (2 ^ d) f) = round64 (Finite (s \<noteq> t) m (e - f - int d))"
proof -
  define k where "k = bitlen (2 ^ d) + 56"
  have "bitlen (1 * 2 ^ d) = bitlen 1 + d" by (rule bitlen_shift) simp
  then have "bitlen (2 ^ d) = Suc d" by (simp add: bitlen.simps)
  then have k: "k = d + 57" by (simp add: k_def)
  have q: "m * 2 ^ k div 2 ^ d = m * 2 ^ 57" "m * 2 ^ k mod 2 ^ d = 0" by (simp_all add: k power_add)
  have "num_div (Finite s m e) (Finite t (2 ^ d) f) = round64 (Finite (s \<noteq> t) (m * 2 ^ 58) (e - f - int k - 1))"
    unfolding num_div_def prod.case number.case Let_def k_def [symmetric] q by (simp add: round64_def mult.commute)
  then show ?thesis unfolding round64_shift by (simp add: k algebra_simps)
qed

lemma rev_bytes_roundtrip: "length b = n \<Longrightarrow> rev (le_bytes n (le_val (rev b))) = b"
  using le_bytes_le_val [of "rev b"] by simp

lemma writeFloatBE_readFloatBE:
  assumes "length b = 4" "readFloatBE b 0 \<noteq> NaN"
  shows "writeFloatBE (readFloatBE b 0) = b"
proof -
  have "readFloatBE b 0 = readFloatLE (rev b) 0"
    using assms(1) by (simp add: readFloatBE_def readFloatLE_def readUIntBE_def readUIntLE_def)
  with assms show ?thesis using writeFloatLE_readFloatLE [of "rev b"] by simp
qed

lemma signed_bytes_read:
  assumes "0 < n" "length b = n"
  shows "rev (signed_bytes n (signed_val (8 * n) (le_val (rev b)))) = b"
proof -
  have "le_val (rev b) < 2 ^ (8 * n)" using le_val_lt [of "rev b"] assms(2) by (simp add: power_mult)
  then show ?thesis
    using assms signed_val_mod [of "8 * n" "le_val (rev b)"] by (simp add: signed_bytes_def rev_bytes_roundtrip)
qed

end
