(* ===== verification/Modbus_RegisterMap.thy ===== *)
theory Modbus_RegisterMap
  imports JS_Arith Modbus_DataModel
begin

text \<open>
  The register map (\<open>modbus-server/register-map.ts\<close>): the schema of its entries, the class \<open>RegisterMap\<close> with its two
  indices, and the encoding of tag values in 16-bit registers. The string keys \<open>area:address\<close> of the two JavaScript
  maps are pairs here. What is shown: a map is accepted exactly if its entries are consistent and occupy pairwise
  different addresses, its indices then say exactly which entry occupies an address, and decoded registers encode
  back to themselves.
\<close>

section \<open>Entries\<close>

datatype modbus_data_type = BOOL | UINT16 | INT16 | UINT32 | INT32 | FLOAT32

datatype word_order = Big | Little

record register_map_entry =
  tagId :: string
  rm_area :: register_area
  rm_address :: nat
  dataType :: modbus_data_type
  scale :: "number option"
  wordOrder :: "word_order option"
  writable :: bool

text \<open>An entry of the raw configuration, before Zod has checked ranges and filled in defaults.\<close>

record raw_entry =
  raw_tagId :: string
  raw_area :: register_area
  raw_address :: int
  raw_dataType :: modbus_data_type
  raw_scale :: "number option"
  raw_wordOrder :: "word_order option"
  raw_writable :: "bool option"

record raw_config =
  raw_siteId :: string
  raw_unitId :: "int option"
  raw_entries :: "raw_entry list"

record register_map_config =
  cfg_siteId :: string
  cfg_unitId :: nat
  cfg_entries :: "register_map_entry list"

datatype register_map_error = SchemaError | EntryError register_area nat | DuplicateEntry register_area nat
  | OverlappingEntries register_area nat

definition registerMapEntrySchema :: "raw_entry \<Rightarrow> register_map_entry option" where
  "registerMapEntrySchema r =
     (if raw_tagId r \<noteq> [] \<and> 0 \<le> raw_address r \<and> raw_address r \<le> 0xffff \<and> raw_scale r \<noteq> Some NaN
      then Some \<lparr> tagId = raw_tagId r, rm_area = raw_area r, rm_address = nat (raw_address r), dataType = raw_dataType r,
                  scale = raw_scale r, wordOrder = raw_wordOrder r,
                  writable = (case raw_writable r of None \<Rightarrow> False | Some b \<Rightarrow> b) \<rparr>
      else None)"

definition registerMapSchema :: "raw_config \<Rightarrow> register_map_config option" where
  "registerMapSchema r =
     (let unit = (case raw_unitId r of None \<Rightarrow> 1 | Some u \<Rightarrow> u); es = map registerMapEntrySchema (raw_entries r)
      in if raw_siteId r \<noteq> [] \<and> 0 \<le> unit \<and> unit \<le> 255 \<and> None \<notin> set es
         then Some \<lparr> cfg_siteId = raw_siteId r, cfg_unitId = nat unit, cfg_entries = map the es \<rparr> else None)"

primrec registerWidth :: "modbus_data_type \<Rightarrow> nat" where
  "registerWidth BOOL = 0"
| "registerWidth UINT16 = 1"
| "registerWidth INT16 = 1"
| "registerWidth UINT32 = 2"
| "registerWidth INT32 = 2"
| "registerWidth FLOAT32 = 2"

definition isBitArea :: "register_area \<Rightarrow> bool" where
  "isBitArea a \<longleftrightarrow> a = Coil \<or> a = DiscreteInput"

section \<open>The map and its indices\<close>

record register_map =
  byStart :: "register_area \<times> nat \<rightharpoonup> register_map_entry"
  byOccupied :: "register_area \<times> nat \<rightharpoonup> register_map_entry"
  rm_siteId :: string
  rm_unitId :: nat
  rm_entries :: "register_map_entry list"

definition assertEntryConsistent :: "register_map_entry \<Rightarrow> register_map_error option" where
  "assertEntryConsistent e =
     (if isBitArea (rm_area e) \<and> dataType e \<noteq> BOOL then Some (EntryError (rm_area e) (rm_address e))
      else if \<not> isBitArea (rm_area e) \<and> dataType e = BOOL then Some (EntryError (rm_area e) (rm_address e))
      else None)"

definition entry_width :: "register_map_entry \<Rightarrow> nat" where
  "entry_width e = (if isBitArea (rm_area e) then 1 else registerWidth (dataType e))"

text \<open>The inner loop: the addresses of one entry, from offset \<open>i\<close> on.\<close>

fun occupy :: "register_map_entry \<Rightarrow> nat list \<Rightarrow> register_map \<Rightarrow> register_map_error + register_map" where
  "occupy e [] m = Inr m"
| "occupy e (i # is) m =
     (if byOccupied m (rm_area e, rm_address e + i) \<noteq> None then Inl (OverlappingEntries (rm_area e) (rm_address e + i))
      else occupy e is (m \<lparr> byOccupied := (byOccupied m)((rm_area e, rm_address e + i) \<mapsto> e) \<rparr>))"

definition add_entry :: "register_map_entry \<Rightarrow> register_map \<Rightarrow> register_map_error + register_map" where
  "add_entry e m =
     (case assertEntryConsistent e of
        Some err \<Rightarrow> Inl err
      | None \<Rightarrow>
          if byStart m (rm_area e, rm_address e) \<noteq> None then Inl (DuplicateEntry (rm_area e) (rm_address e))
          else occupy e [0..<entry_width e] (m \<lparr> byStart := (byStart m)((rm_area e, rm_address e) \<mapsto> e) \<rparr>))"

fun add_entries :: "register_map_entry list \<Rightarrow> register_map \<Rightarrow> register_map_error + register_map" where
  "add_entries [] m = Inr m"
| "add_entries (e # es) m = (case add_entry e m of Inl err \<Rightarrow> Inl err | Inr m' \<Rightarrow> add_entries es m')"

definition new_register_map :: "register_map_config \<Rightarrow> register_map_error + register_map" where
  "new_register_map c = add_entries (cfg_entries c)
     \<lparr> byStart = Map.empty, byOccupied = Map.empty, rm_siteId = cfg_siteId c, rm_unitId = cfg_unitId c, rm_entries = cfg_entries c \<rparr>"

definition fromConfig :: "raw_config \<Rightarrow> register_map_error + register_map" where
  "fromConfig raw = (case registerMapSchema raw of None \<Rightarrow> Inl SchemaError | Some c \<Rightarrow> new_register_map c)"

definition entryStartingAt :: "register_map \<Rightarrow> register_area \<Rightarrow> nat \<Rightarrow> register_map_entry option" where
  "entryStartingAt m a x = byStart m (a, x)"

definition entryOccupying :: "register_map \<Rightarrow> register_area \<Rightarrow> nat \<Rightarrow> register_map_entry option" where
  "entryOccupying m a x = byOccupied m (a, x)"

definition rangeIsFullyMapped :: "register_map \<Rightarrow> register_area \<Rightarrow> nat \<Rightarrow> nat \<Rightarrow> bool" where
  "rangeIsFullyMapped m a x q \<longleftrightarrow> list_all (\<lambda>i. byOccupied m (a, x + i) \<noteq> None) [0..<q]"

definition entriesForArea :: "register_map \<Rightarrow> register_area \<Rightarrow> register_map_entry list" where
  "entriesForArea m a = sort_key rm_address (filter (\<lambda>e. rm_area e = a) (rm_entries m))"

section \<open>Values in registers\<close>

definition splitWords :: "buffer \<Rightarrow> word_order \<Rightarrow> nat list" where
  "splitWords b ord =
     (let hi = readUInt16BE b 0; lo = readUInt16BE b 2 in if ord = Big then [hi, lo] else [lo, hi])"

text \<open>\<open>words[i] ?? 0\<close>; reading an absent word gives \<open>undefined\<close>, and \<open>undefined & 0xffff\<close> is 0.\<close>

definition word_at :: "nat list \<Rightarrow> nat \<Rightarrow> nat" where
  "word_at ws i = (if i < length ws then ws ! i else 0)"

definition joinWords :: "nat list \<Rightarrow> word_order \<Rightarrow> buffer" where
  "joinWords ws ord =
     (let (hi, lo) = (if ord = Big then (word_at ws 0, word_at ws 1) else (word_at ws 1, word_at ws 0))
      in writeUInt16BE (hi mod 65536) @ writeUInt16BE (lo mod 65536))"

definition entry_order :: "register_map_entry \<Rightarrow> word_order" where
  "entry_order e = (case wordOrder e of None \<Rightarrow> Big | Some ord \<Rightarrow> ord)"

definition entry_scale :: "register_map_entry \<Rightarrow> number option" where
  "entry_scale e = (case scale e of None \<Rightarrow> None | Some s \<Rightarrow> if num_truthy s then Some s else None)"

text \<open>\<open>None\<close>: the routine throws on a \<open>bool\<close> entry.\<close>

definition encodeValueToRegisters :: "register_map_entry \<Rightarrow> number \<Rightarrow> nat list option" where
  "encodeValueToRegisters e v =
     (let scaled = (case entry_scale e of None \<Rightarrow> v | Some s \<Rightarrow> num_div v s); ord = entry_order e
      in case dataType e of
           UINT16 \<Rightarrow> Some [to_uint 16 (num_round scaled)]
         | INT16 \<Rightarrow> Some [readUInt16BE (writeInt16BE (clampInt (num_round scaled) (- 0x8000) 0x7fff)) 0]
         | UINT32 \<Rightarrow> Some (splitWords (writeUInt32BE (to_uint 32 (num_round scaled))) ord)
         | INT32 \<Rightarrow> Some (splitWords (writeInt32BE (clampInt (num_round scaled) (- 0x80000000) 0x7fffffff)) ord)
         | FLOAT32 \<Rightarrow> Some (splitWords (writeFloatBE scaled) ord)
         | BOOL \<Rightarrow> None)"

definition decodeRegistersToValue :: "register_map_entry \<Rightarrow> nat list \<Rightarrow> number option" where
  "decodeRegistersToValue e ws =
     (let ord = entry_order e;
          raw = (case dataType e of
                   UINT16 \<Rightarrow> Some (num_of_int (int (word_at ws 0 mod 65536)))
                 | INT16 \<Rightarrow> Some (num_of_int (readInt16BE (writeUInt16BE (word_at ws 0 mod 65536)) 0))
                 | UINT32 \<Rightarrow> Some (num_of_int (int (readUInt32BE (joinWords ws ord) 0)))
                 | INT32 \<Rightarrow> Some (num_of_int (readInt32BE (joinWords ws ord) 0))
                 | FLOAT32 \<Rightarrow> Some (readFloatBE (joinWords ws ord) 0)
                 | BOOL \<Rightarrow> None)
      in case raw of None \<Rightarrow> None
         | Some x \<Rightarrow> Some (case entry_scale e of None \<Rightarrow> x | Some s \<Rightarrow> num_mul x s))"

section \<open>Acceptance and indices\<close>

definition occupies :: "register_map_entry \<Rightarrow> register_area \<Rightarrow> nat \<Rightarrow> bool" where
  "occupies e a x \<longleftrightarrow> rm_area e = a \<and> rm_address e \<le> x \<and> x < rm_address e + entry_width e"

definition entry_consistent :: "register_map_entry \<Rightarrow> bool" where
  "entry_consistent e \<longleftrightarrow> (isBitArea (rm_area e) \<longleftrightarrow> dataType e = BOOL)"

definition disjoint_entries :: "register_map_entry \<Rightarrow> register_map_entry \<Rightarrow> bool" where
  "disjoint_entries e e' \<longleftrightarrow> (\<forall>a x. \<not> (occupies e a x \<and> occupies e' a x))"

lemma assertEntryConsistent_iff: "assertEntryConsistent e = None \<longleftrightarrow> entry_consistent e"
  by (auto simp: assertEntryConsistent_def entry_consistent_def)

lemma entry_width_pos: "entry_consistent e \<Longrightarrow> 0 < entry_width e"
  by (cases "dataType e") (auto simp: entry_consistent_def entry_width_def)

text \<open>The indices hold exactly the entries \<open>es\<close>.\<close>

definition indexed :: "register_map_entry list \<Rightarrow> register_map \<Rightarrow> bool" where
  "indexed es m \<longleftrightarrow> list_all entry_consistent es \<and> sorted_wrt disjoint_entries es
     \<and> (\<forall>a x e. byStart m (a, x) = Some e \<longleftrightarrow> e \<in> set es \<and> rm_area e = a \<and> rm_address e = x)
     \<and> (\<forall>a x e. byOccupied m (a, x) = Some e \<longleftrightarrow> e \<in> set es \<and> occupies e a x)"

lemma occupy_result:
  "distinct is \<Longrightarrow> \<forall>i\<in>set is. byOccupied m (rm_area e, rm_address e + i) = None \<Longrightarrow>
     occupy e is m = Inr (m \<lparr> byOccupied := (\<lambda>k. if k \<in> (\<lambda>i. (rm_area e, rm_address e + i)) ` set is then Some e
       else byOccupied m k) \<rparr>)"
proof (induction "is" arbitrary: m)
  case (Cons i "is")
  let ?m = "m \<lparr> byOccupied := (byOccupied m)((rm_area e, rm_address e + i) \<mapsto> e) \<rparr>"
  have "occupy e is ?m = Inr (?m \<lparr> byOccupied := (\<lambda>k. if k \<in> (\<lambda>i. (rm_area e, rm_address e + i)) ` set is then Some e
      else byOccupied ?m k) \<rparr>)"
    using Cons.prems by (intro Cons.IH) auto
  moreover have "(\<lambda>k. if k \<in> (\<lambda>i. (rm_area e, rm_address e + i)) ` set is then Some e else byOccupied ?m k)
    = (\<lambda>k. if k \<in> (\<lambda>i. (rm_area e, rm_address e + i)) ` set (i # is) then Some e else byOccupied m k)"
    by (rule ext) auto
  ultimately show ?case using Cons.prems by simp
qed simp

lemma occupy_overlap:
  "i \<in> set is \<Longrightarrow> byOccupied m (rm_area e, rm_address e + i) \<noteq> None \<Longrightarrow> \<exists>err. occupy e is m = Inl err"
  by (induction e "is" m rule: occupy.induct) auto

lemma byOccupied_image:
  "(a, x) \<in> (\<lambda>i. (rm_area e, rm_address e + i)) ` {0..<entry_width e} \<longleftrightarrow> occupies e a x"
  by (auto simp: occupies_def image_iff intro!: bexI [of _ "x - rm_address e"])

lemma add_entry_indexed:
  assumes "indexed es m"
  shows "(\<exists>m'. add_entry e m = Inr m') \<longleftrightarrow> entry_consistent e \<and> list_all (\<lambda>e'. disjoint_entries e' e) es"
    and "add_entry e m = Inr m' \<Longrightarrow> indexed (es @ [e]) m'"
proof -
  let ?m = "m \<lparr> byStart := (byStart m)((rm_area e, rm_address e) \<mapsto> e) \<rparr>"
  have start: "\<And>a x e. byStart m (a, x) = Some e \<longleftrightarrow> e \<in> set es \<and> rm_area e = a \<and> rm_address e = x"
    and occ: "\<And>a x e. byOccupied m (a, x) = Some e \<longleftrightarrow> e \<in> set es \<and> occupies e a x"
    and cons: "list_all entry_consistent es" using assms by (auto simp: indexed_def)
  have free: "(\<forall>i<entry_width e. byOccupied m (rm_area e, rm_address e + i) = None) \<longleftrightarrow> list_all (\<lambda>e'. disjoint_entries e' e) es"
  proof -
    have "(\<forall>i<entry_width e. byOccupied m (rm_area e, rm_address e + i) = None)
        \<longleftrightarrow> (\<forall>a x. occupies e a x \<longrightarrow> byOccupied m (a, x) = None)"
      by (auto simp: occupies_def) (metis add_diff_inverse_nat add_less_cancel_left not_less)
    also have "\<dots> \<longleftrightarrow> (\<forall>a x e'. occupies e a x \<longrightarrow> \<not> (e' \<in> set es \<and> occupies e' a x))"
      using occ by (metis not_None_eq)
    finally show ?thesis by (auto simp: list_all_iff disjoint_entries_def)
  qed
  have ds: "byStart m (rm_area e, rm_address e) = None" if "entry_consistent e" "list_all (\<lambda>e'. disjoint_entries e' e) es"
  proof (rule ccontr)
    assume "byStart m (rm_area e, rm_address e) \<noteq> None"
    then obtain e' where e': "e' \<in> set es" "rm_area e' = rm_area e" "rm_address e' = rm_address e" using start by auto
    moreover have "0 < entry_width e'" "0 < entry_width e" using e'(1) cons that(1) by (auto simp: list_all_iff entry_width_pos)
    ultimately have "occupies e' (rm_area e) (rm_address e)" "occupies e (rm_area e) (rm_address e)" by (auto simp: occupies_def)
    with that(2) e'(1) show False by (auto simp: list_all_iff disjoint_entries_def)
  qed
  have ok: "add_entry e m = Inr (?m \<lparr> byOccupied := (\<lambda>(a, x). if occupies e a x then Some e else byOccupied m (a, x)) \<rparr>)"
    if "entry_consistent e" "list_all (\<lambda>e'. disjoint_entries e' e) es"
  proof -
    have "occupy e [0..<entry_width e] ?m = Inr (?m \<lparr> byOccupied :=
        (\<lambda>k. if k \<in> (\<lambda>i. (rm_area e, rm_address e + i)) ` set [0..<entry_width e] then Some e else byOccupied ?m k) \<rparr>)"
      using that free by (intro occupy_result) auto
    moreover have "(\<lambda>k. if k \<in> (\<lambda>i. (rm_area e, rm_address e + i)) ` set [0..<entry_width e] then Some e else byOccupied ?m k)
      = (\<lambda>(a, x). if occupies e a x then Some e else byOccupied m (a, x))"
      using byOccupied_image [of _ _ e] by (simp add: fun_eq_iff)
    moreover have "assertEntryConsistent e = None" using that(1) assertEntryConsistent_iff by blast
    ultimately show ?thesis using ds [OF that] by (simp add: add_entry_def)
  qed
  have bad: "\<exists>err. add_entry e m = Inl err" if "\<not> (entry_consistent e \<and> list_all (\<lambda>e'. disjoint_entries e' e) es)"
  proof (cases "assertEntryConsistent e")
    case None
    then have "\<not> (\<forall>i<entry_width e. byOccupied m (rm_area e, rm_address e + i) = None)"
      using that free assertEntryConsistent_iff by blast
    then obtain i where "i < entry_width e" "byOccupied m (rm_area e, rm_address e + i) \<noteq> None" by blast
    then have "\<exists>err. occupy e [0..<entry_width e] ?m = Inl err" by (intro occupy_overlap [of i]) simp_all
    with None show ?thesis by (auto simp: add_entry_def)
  qed (simp add: add_entry_def)
  show iff: "(\<exists>m'. add_entry e m = Inr m') \<longleftrightarrow> entry_consistent e \<and> list_all (\<lambda>e'. disjoint_entries e' e) es"
  proof (cases "entry_consistent e \<and> list_all (\<lambda>e'. disjoint_entries e' e) es")
    case True
    then show ?thesis using ok by blast
  next
    case False
    then obtain err where "add_entry e m = Inl err" using bad by blast
    with False show ?thesis by simp
  qed
  assume "add_entry e m = Inr m'"
  with iff have c: "entry_consistent e" "list_all (\<lambda>e'. disjoint_entries e' e) es" by auto
  with ok \<open>add_entry e m = Inr m'\<close>
  have "m' = ?m \<lparr> byOccupied := (\<lambda>(a, x). if occupies e a x then Some e else byOccupied m (a, x)) \<rparr>" by simp
  moreover have "rm_area e' \<noteq> rm_area e \<or> rm_address e' \<noteq> rm_address e" if "e' \<in> set es" for e'
    using ds [OF c] start [of "rm_area e'" "rm_address e'" e'] that by auto
  ultimately show "indexed (es @ [e]) m'"
    using assms c unfolding indexed_def
    by (auto simp: sorted_wrt_append list_all_iff disjoint_entries_def)
qed

lemma add_entries_indexed:
  assumes "indexed es0 m"
  shows "(\<exists>m'. add_entries es m = Inr m') \<longleftrightarrow> list_all entry_consistent es \<and> sorted_wrt disjoint_entries (es0 @ es)"
    and "add_entries es m = Inr m' \<Longrightarrow> indexed (es0 @ es) m'"
  using assms
proof (induction es arbitrary: es0 m)
  case Nil
  {
    case 1
    then show ?case by (simp add: indexed_def)
  next
    case 2
    then show ?case by simp
  }
next
  case (Cons e es)
  {
    case 1
    show ?case
    proof (cases "add_entry e m")
      case (Inl err)
      then show ?thesis using add_entry_indexed(1) [OF 1, of e] by (auto simp: sorted_wrt_append list_all_iff)
    next
      case (Inr m1)
      then show ?thesis
        using Cons.IH(1) [OF add_entry_indexed(2) [OF 1 Inr]] add_entry_indexed(1) [OF 1, of e] by auto
    qed
  next
    case 2
    then obtain m1 where "add_entry e m = Inr m1" "add_entries es m1 = Inr m'" by (auto split: sum.splits)
    then show ?case using Cons.IH(2) [of m1 "es0 @ [e]"] add_entry_indexed(2) [OF 2(2)] by simp
  }
qed

lemma add_entry_entries: "add_entry e m = Inr m' \<Longrightarrow> rm_entries m' = rm_entries m \<and> rm_siteId m' = rm_siteId m \<and> rm_unitId m' = rm_unitId m"
proof -
  have "occupy e is m = Inr m' \<Longrightarrow> rm_entries m' = rm_entries m \<and> rm_siteId m' = rm_siteId m \<and> rm_unitId m' = rm_unitId m" for "is" m
    by (induction e "is" m rule: occupy.induct) (auto split: if_splits)
  then show "add_entry e m = Inr m' \<Longrightarrow> rm_entries m' = rm_entries m \<and> rm_siteId m' = rm_siteId m \<and> rm_unitId m' = rm_unitId m"
    by (fastforce simp: add_entry_def split: option.splits if_splits)
qed

lemma add_entries_entries: "add_entries es m = Inr m' \<Longrightarrow> rm_entries m' = rm_entries m"
  by (induction es arbitrary: m) (auto split: sum.splits dest: add_entry_entries)

text \<open>The invariant of a register map: its indices hold exactly its entries.\<close>

definition register_map_ok :: "register_map \<Rightarrow> bool" where
  "register_map_ok m \<longleftrightarrow> indexed (rm_entries m) m"

lemma new_register_map_iff:
  "(\<exists>m. new_register_map c = Inr m) \<longleftrightarrow> list_all entry_consistent (cfg_entries c) \<and> sorted_wrt disjoint_entries (cfg_entries c)"
  and new_register_map_ok: "new_register_map c = Inr m \<Longrightarrow> register_map_ok m \<and> rm_entries m = cfg_entries c"
proof -
  let ?m = "\<lparr> byStart = Map.empty, byOccupied = Map.empty, rm_siteId = cfg_siteId c, rm_unitId = cfg_unitId c, rm_entries = cfg_entries c \<rparr>"
  have i: "indexed [] ?m" by (simp add: indexed_def)
  show "(\<exists>m. new_register_map c = Inr m) \<longleftrightarrow> list_all entry_consistent (cfg_entries c) \<and> sorted_wrt disjoint_entries (cfg_entries c)"
    using add_entries_indexed(1) [OF i, of "cfg_entries c"] by (simp add: new_register_map_def)
  assume "new_register_map c = Inr m"
  then show "register_map_ok m \<and> rm_entries m = cfg_entries c"
    using add_entries_indexed(2) [OF i, of "cfg_entries c" m] add_entries_entries [of "cfg_entries c" ?m m]
    by (simp add: new_register_map_def register_map_ok_def)
qed

lemma occupying_iff:
  "register_map_ok m \<Longrightarrow> entryOccupying m a x = Some e \<longleftrightarrow> e \<in> set (rm_entries m) \<and> occupies e a x"
  "register_map_ok m \<Longrightarrow> entryStartingAt m a x = Some e \<longleftrightarrow> e \<in> set (rm_entries m) \<and> rm_area e = a \<and> rm_address e = x"
  by (simp_all add: register_map_ok_def indexed_def entryOccupying_def entryStartingAt_def)

lemma entry_ok: "register_map_ok m \<Longrightarrow> e \<in> set (rm_entries m) \<Longrightarrow> entry_consistent e"
  by (auto simp: register_map_ok_def indexed_def list_all_iff)

lemma disjoint_distinct:
  "sorted_wrt disjoint_entries es \<Longrightarrow> (\<And>e. e \<in> set es \<Longrightarrow> rm_area e = a \<and> 0 < entry_width e) \<Longrightarrow> distinct (map rm_address es)"
proof (induction es)
  case (Cons e es)
  have "rm_address e' \<noteq> rm_address e" if "e' \<in> set es" for e'
  proof
    assume "rm_address e' = rm_address e"
    then have "occupies e a (rm_address e)" "occupies e' a (rm_address e)" using Cons.prems(2) that by (auto simp: occupies_def)
    with Cons.prems(1) that show False by (auto simp: disjoint_entries_def)
  qed
  then have "rm_address e \<notin> rm_address ` set es" by force
  moreover have "distinct (map rm_address es)" using Cons.prems by (intro Cons.IH) auto
  ultimately show ?case by simp
qed simp

text \<open>C33: A configuration is accepted exactly if it passes the schema, every entry has a data type that suits its area, and no
  two entries occupy a common address. The indices of an accepted map are exact: an address belongs to an entry
  exactly if the entry is listed and covers it, each address has at most one owner, and the entries of an area are
  listed completely and in strictly ascending order.
\<close>

theorem register_map_exact:
  "((\<exists>m. fromConfig raw = Inr m) \<longleftrightarrow>
      (\<exists>c. registerMapSchema raw = Some c \<and> list_all entry_consistent (cfg_entries c) \<and> sorted_wrt disjoint_entries (cfg_entries c)))
   \<and> (\<forall>m. fromConfig raw = Inr m \<longrightarrow>
        (\<forall>a x e. entryOccupying m a x = Some e \<longleftrightarrow> e \<in> set (rm_entries m) \<and> occupies e a x)
        \<and> (\<forall>a x e. entryStartingAt m a x = Some e \<longleftrightarrow> e \<in> set (rm_entries m) \<and> rm_area e = a \<and> rm_address e = x)
        \<and> (\<forall>a. set (entriesForArea m a) = {e \<in> set (rm_entries m). rm_area e = a}
              \<and> sorted_wrt (<) (map rm_address (entriesForArea m a))))"
proof (intro conjI allI impI)
  show "(\<exists>m. fromConfig raw = Inr m) \<longleftrightarrow>
      (\<exists>c. registerMapSchema raw = Some c \<and> list_all entry_consistent (cfg_entries c) \<and> sorted_wrt disjoint_entries (cfg_entries c))"
    using new_register_map_iff by (auto simp: fromConfig_def split: option.splits)
  fix m assume "fromConfig raw = Inr m"
  then have ok: "register_map_ok m" by (auto simp: fromConfig_def split: option.splits dest: new_register_map_ok)
  show "entryOccupying m a x = Some e \<longleftrightarrow> e \<in> set (rm_entries m) \<and> occupies e a x"
    "entryStartingAt m a x = Some e \<longleftrightarrow> e \<in> set (rm_entries m) \<and> rm_area e = a \<and> rm_address e = x" for a x e
    using occupying_iff [OF ok] by blast+
  fix a
  show "set (entriesForArea m a) = {e \<in> set (rm_entries m). rm_area e = a}" by (auto simp: entriesForArea_def)
  have "sorted_wrt disjoint_entries (filter (\<lambda>e. rm_area e = a) (rm_entries m))"
    using ok by (simp add: register_map_ok_def indexed_def sorted_wrt_filter)
  then have "distinct (map rm_address (filter (\<lambda>e. rm_area e = a) (rm_entries m)))"
    using entry_width_pos [OF entry_ok [OF ok]]
    by (intro disjoint_distinct) auto
  then have "distinct (map rm_address (entriesForArea m a))" by (simp add: entriesForArea_def distinct_map)
  then show "sorted_wrt (<) (map rm_address (entriesForArea m a))"
    by (simp add: entriesForArea_def strict_sorted_iff)
qed

definition demo_raw :: "raw_config" where
  "demo_raw = \<lparr> raw_siteId = ''s'', raw_unitId = None, raw_entries =
     [\<lparr> raw_tagId = ''level'', raw_area = HoldingRegister, raw_address = 4, raw_dataType = INT32, raw_scale = None, raw_wordOrder = Some Little, raw_writable = Some True \<rparr>,
      \<lparr> raw_tagId = ''limit'', raw_area = HoldingRegister, raw_address = 3, raw_dataType = UINT16, raw_scale = None, raw_wordOrder = None, raw_writable = None \<rparr>] \<rparr>"

theorem register_map_exact_witness:
  "\<exists>m e. fromConfig demo_raw = Inr m \<and> entryOccupying m HoldingRegister 5 = Some e \<and> tagId e = ''level''"
proof -
  obtain m where m: "fromConfig demo_raw = Inr m" "\<exists>e \<in> set (rm_entries m). tagId e = ''level'' \<and> occupies e HoldingRegister 5"
    by (simp add: fromConfig_def demo_raw_def registerMapSchema_def registerMapEntrySchema_def new_register_map_def add_entry_def
        assertEntryConsistent_def isBitArea_def entry_width_def upt_rec occupies_def)
  then obtain e where "e \<in> set (rm_entries m)" "tagId e = ''level''" "occupies e HoldingRegister 5" by blast
  with m(1) register_map_exact [of demo_raw] show ?thesis by blast
qed

section \<open>Decoded registers encode back\<close>

lemma splitWords_length [simp]: "length (splitWords b ord) = 2"
  by (simp add: splitWords_def Let_def)

lemma encode_length: "encodeValueToRegisters e v = Some ws \<Longrightarrow> length ws = registerWidth (dataType e) \<and> list_all (\<lambda>w. w < 65536) ws"
  using to_uint_lt [of 16] readUIntBE_lt [of _ _ 2]
  by (cases "dataType e") (auto simp: encodeValueToRegisters_def Let_def splitWords_def)

lemma encode_some: "dataType e \<noteq> BOOL \<Longrightarrow> \<exists>ws. encodeValueToRegisters e v = Some ws"
  by (cases "dataType e") (auto simp: encodeValueToRegisters_def Let_def)

lemma split_join: "length ws = 2 \<Longrightarrow> list_all (\<lambda>w. w < 65536) ws \<Longrightarrow> splitWords (joinWords ws ord) ord = ws"
proof -
  assume "length ws = 2" "list_all (\<lambda>w. w < 65536) ws"
  then obtain x y where "ws = [x, y]" "x < 65536" "y < 65536" by (auto simp: length_Suc_conv numeral_2_eq_2)
  then show ?thesis
    by (cases ord) (simp_all add: splitWords_def joinWords_def word_at_def readUIntBE_def le_val_le_bytes)
qed

lemma length_joinWords [simp]: "length (joinWords ws ord) = 4"
  by (simp add: joinWords_def split: prod.split)

lemma read16_write16: "x < 65536 \<Longrightarrow> readUInt16BE (writeUInt16BE x) 0 = x"
  by (simp add: readUIntBE_def le_val_le_bytes)

lemma decode_encode:
  assumes sc: "entry_scale e = None" and ws: "length ws = registerWidth (dataType e)" "list_all (\<lambda>w. w < 65536) ws"
    and ty: "dataType e \<noteq> BOOL" and nan: "dataType e = FLOAT32 \<Longrightarrow> decodeRegistersToValue e ws \<noteq> Some NaN"
  shows "\<exists>x. decodeRegistersToValue e ws = Some x \<and> encodeValueToRegisters e x = Some ws"
proof -
  let ?j = "joinWords ws (entry_order e)"
  have r4: "readUIntBE ?j 0 4 = le_val (rev ?j)" by (simp add: readUIntBE_def)
  have lt: "le_val (rev ?j) < 2 ^ 32" using le_val_lt [of "rev ?j"] by simp
  have one: "\<exists>x. ws = [x] \<and> x < 65536" if "length ws = 1" using that ws(2) by (auto simp: length_Suc_conv)
  show ?thesis
  proof (cases "dataType e")
    case UINT16
    with ws one obtain x where "ws = [x]" "x < 65536" by auto
    with UINT16 sc show ?thesis
      by (simp add: decodeRegistersToValue_def encodeValueToRegisters_def word_at_def to_uint_of_int nat_mod_as_int)
  next
    case INT16
    with ws one obtain x where x: "ws = [x]" "x < 65536" by auto
    let ?v = "signed_val 16 x"
    have "readInt16BE (writeUInt16BE x) 0 = ?v" using x by (simp add: readInt16BE_def read16_write16)
    moreover have "clampInt (num_of_int ?v) (- 0x8000) 0x7fff = ?v"
      using signed_val_bounds [of 16 x] x by (intro clampInt_of_int) simp_all
    moreover have "rev (signed_bytes 2 ?v) = writeUInt16BE x"
      using signed_bytes_read [of 2 "writeUInt16BE x"] x by (simp add: le_val_le_bytes)
    ultimately show ?thesis
      using INT16 sc x by (simp add: decodeRegistersToValue_def encodeValueToRegisters_def word_at_def read16_write16)
  next
    case UINT32
    have "nat (int (le_val (rev ?j)) mod 2 ^ 32) = le_val (rev ?j)" using lt by simp
    moreover have "rev (le_bytes 4 (le_val (rev ?j))) = ?j" by (rule rev_bytes_roundtrip) simp
    ultimately show ?thesis
      using UINT32 sc ws split_join [of ws "entry_order e"]
      by (simp add: decodeRegistersToValue_def encodeValueToRegisters_def to_uint_of_int r4)
  next
    case INT32
    let ?v = "signed_val 32 (le_val (rev ?j))"
    have "clampInt (num_of_int ?v) (- 0x80000000) 0x7fffffff = ?v"
      using signed_val_bounds [of 32 "le_val (rev ?j)"] lt by (intro clampInt_of_int) simp_all
    moreover have "rev (signed_bytes 4 ?v) = ?j" using signed_bytes_read [of 4 ?j] by simp
    ultimately show ?thesis
      using INT32 sc ws split_join [of ws "entry_order e"]
      by (simp add: decodeRegistersToValue_def encodeValueToRegisters_def readInt32BE_def r4)
  next
    case FLOAT32
    then have "readFloatBE ?j 0 \<noteq> NaN" using nan sc by (simp add: decodeRegistersToValue_def)
    then have "writeFloatBE (readFloatBE ?j 0) = ?j" by (intro writeFloatBE_readFloatBE) simp_all
    then show ?thesis
      using FLOAT32 sc ws split_join [of ws "entry_order e"]
      by (simp add: decodeRegistersToValue_def encodeValueToRegisters_def)
  qed (use ty in simp)
qed

end
