(* ===== verification/Modbus_Bridge.thy ===== *)
theory Modbus_Bridge
  imports Modbus_RegisterMap Modbus_Handlers
begin

text \<open>
  The tag-store bridge (\<open>modbus-server/tag-store-bridge.ts\<close>): \<open>TagStoreDataModel\<close>, the data model that resolves Modbus
  addresses through a register map and reads and writes live tags. The tag store is the interface \<open>TagStorePort\<close>, a
  record of operations over a store state; a read or a write may throw. The locale \<open>tag_store\<close> states what a store
  that does not fail promises, \<open>InMemoryTagStore\<close> is its instance, and the bridge over such a store keeps the contract
  of a data model; over a map with exact encodings it is a memory.
\<close>

section \<open>Tag stores\<close>

datatype tag_value = TagNumber number | TagBoolean bool

record 's tag_store_port =
  ts_read :: "'s \<Rightarrow> string \<Rightarrow> data_failure + tag_value option"
  ts_write :: "string \<Rightarrow> tag_value \<Rightarrow> 's \<Rightarrow> data_failure option \<times> 's"

type_synonym in_memory_tag_store = "string \<rightharpoonup> tag_value"

definition store_read :: "in_memory_tag_store \<Rightarrow> string \<Rightarrow> data_failure + tag_value option" where
  "store_read st t = Inr (st t)"

definition store_write :: "string \<Rightarrow> tag_value \<Rightarrow> in_memory_tag_store \<Rightarrow> data_failure option \<times> in_memory_tag_store" where
  "store_write t v st = (None, st(t \<mapsto> v))"

definition in_memory_port :: "in_memory_tag_store tag_store_port" where
  "in_memory_port = \<lparr> ts_read = store_read, ts_write = store_write \<rparr>"

definition toBool :: "tag_value option \<Rightarrow> bool" where
  "toBool v = (case v of Some (TagBoolean b) \<Rightarrow> b | Some (TagNumber x) \<Rightarrow> num_nonzero x | None \<Rightarrow> False)"

definition toNumber :: "tag_value option \<Rightarrow> number" where
  "toNumber v = (case v of Some (TagNumber x) \<Rightarrow> x | Some (TagBoolean b) \<Rightarrow> num_of_int (if b then 1 else 0) | None \<Rightarrow> num_of_int 0)"

section \<open>Reads\<close>

record 's tag_store_data_model =
  br_map :: register_map
  br_store :: 's

fun read_bits :: "'s tag_store_port \<Rightarrow> 's tag_store_data_model \<Rightarrow> register_area \<Rightarrow> nat list \<Rightarrow> data_failure + bool list" where
  "read_bits port m a [] = Inr []"
| "read_bits port m a (x # xs) =
     (case entryStartingAt (br_map m) a x of
        None \<Rightarrow> Inl OtherFailure
      | Some e \<Rightarrow>
          (case ts_read port (br_store m) (tagId e) of
             Inl err \<Rightarrow> Inl err
           | Inr v \<Rightarrow> (case read_bits port m a xs of Inl err \<Rightarrow> Inl err | Inr bs \<Rightarrow> Inr (toBool v # bs))))"

definition readBitArea :: "'s tag_store_port \<Rightarrow> register_area \<Rightarrow> 's tag_store_data_model \<Rightarrow> nat \<Rightarrow> nat \<Rightarrow> data_failure + bool list" where
  "readBitArea port a m address quantity =
     (if \<not> rangeIsFullyMapped (br_map m) a address quantity then Inl (DataModelError DM_ILLEGAL_DATA_ADDRESS)
      else read_bits port m a (map (\<lambda>i. address + i) [0..<quantity]))"

type_synonym word_cache = "register_area \<times> nat \<rightharpoonup> nat list"

definition resolveEntryWords :: "'s tag_store_port \<Rightarrow> 's tag_store_data_model \<Rightarrow> register_map_entry \<Rightarrow> word_cache
    \<Rightarrow> data_failure + nat list \<times> word_cache" where
  "resolveEntryWords port m e cache =
     (case cache (rm_area e, rm_address e) of
        Some ws \<Rightarrow> Inr (ws, cache)
      | None \<Rightarrow>
          (case ts_read port (br_store m) (tagId e) of
             Inl err \<Rightarrow> Inl err
           | Inr raw \<Rightarrow>
               (case encodeValueToRegisters e (toNumber raw) of
                  None \<Rightarrow> Inl OtherFailure
                | Some ws \<Rightarrow> Inr (ws, cache((rm_area e, rm_address e) \<mapsto> ws)))))"

fun read_words :: "'s tag_store_port \<Rightarrow> 's tag_store_data_model \<Rightarrow> register_area \<Rightarrow> nat list \<Rightarrow> word_cache \<Rightarrow> data_failure + nat list" where
  "read_words port m a [] cache = Inr []"
| "read_words port m a (x # xs) cache =
     (case entryOccupying (br_map m) a x of
        None \<Rightarrow> Inl OtherFailure
      | Some e \<Rightarrow>
          (case resolveEntryWords port m e cache of
             Inl err \<Rightarrow> Inl err
           | Inr (ws, cache') \<Rightarrow>
               (case read_words port m a xs cache' of
                  Inl err \<Rightarrow> Inl err
                | Inr out \<Rightarrow> Inr (word_at ws (x - rm_address e) # out))))"

definition readRegisterArea :: "'s tag_store_port \<Rightarrow> register_area \<Rightarrow> 's tag_store_data_model \<Rightarrow> nat \<Rightarrow> nat \<Rightarrow> data_failure + nat list" where
  "readRegisterArea port a m address quantity =
     (if \<not> rangeIsFullyMapped (br_map m) a address quantity then Inl (DataModelError DM_ILLEGAL_DATA_ADDRESS)
      else read_words port m a (map (\<lambda>i. address + i) [0..<quantity]) Map.empty)"

section \<open>Writes\<close>

definition assertWritable :: "register_map_entry \<Rightarrow> data_failure option" where
  "assertWritable e = (if writable e then None else Some (DataModelError DM_ILLEGAL_DATA_VALUE))"

text \<open>The commit loop: one \<open>store.write\<close> after the other, stopping at the first that throws.\<close>

fun commit :: "'s tag_store_port \<Rightarrow> (string \<times> tag_value) list \<Rightarrow> 's \<Rightarrow> data_failure option \<times> 's" where
  "commit port [] st = (None, st)"
| "commit port ((t, v) # plan) st =
     (case ts_write port t v st of (Some err, st') \<Rightarrow> (Some err, st') | (None, st') \<Rightarrow> commit port plan st')"

fun plan_coils :: "register_map \<Rightarrow> nat \<Rightarrow> bool list \<Rightarrow> data_failure + (string \<times> tag_value) list" where
  "plan_coils mp x [] = Inr []"
| "plan_coils mp x (b # bs) =
     (case entryStartingAt mp Coil x of
        None \<Rightarrow> Inl OtherFailure
      | Some e \<Rightarrow>
          (case assertWritable e of
             Some err \<Rightarrow> Inl err
           | None \<Rightarrow> (case plan_coils mp (x + 1) bs of Inl err \<Rightarrow> Inl err | Inr plan \<Rightarrow> Inr ((tagId e, TagBoolean b) # plan))))"

function plan_registers :: "register_map \<Rightarrow> nat \<Rightarrow> nat list \<Rightarrow> data_failure + (string \<times> tag_value) list" where
  "plan_registers mp x ws =
     (if ws = [] then Inr []
      else
        (case entryOccupying mp HoldingRegister x of
           None \<Rightarrow> Inl OtherFailure
         | Some e \<Rightarrow>
             if x \<noteq> rm_address e then Inl (DataModelError DM_ILLEGAL_DATA_VALUE)
             else if registerWidth (dataType e) > length ws then Inl (DataModelError DM_ILLEGAL_DATA_VALUE)
             else
               (case assertWritable e of
                  Some err \<Rightarrow> Inl err
                | None \<Rightarrow>
                    (case decodeRegistersToValue e (take (registerWidth (dataType e)) ws) of
                       None \<Rightarrow> Inl OtherFailure
                     | Some v \<Rightarrow>
                         (case plan_registers mp (x + registerWidth (dataType e)) (drop (registerWidth (dataType e)) ws) of
                            Inl err \<Rightarrow> Inl err
                          | Inr plan \<Rightarrow> Inr ((tagId e, TagNumber v) # plan))))))"
  by pat_completeness auto
termination
proof (relation "measure (\<lambda>(mp, x, ws). length ws)", goal_cases)
  case (2 mp x ws e v)
  then have "dataType e \<noteq> BOOL" by (auto simp: decodeRegistersToValue_def Let_def)
  then have "0 < registerWidth (dataType e)" by (cases "dataType e") simp_all
  with 2 show ?case by simp
qed simp

declare plan_registers.simps [simp del]

definition apply_plan :: "'s tag_store_port \<Rightarrow> data_failure + (string \<times> tag_value) list \<Rightarrow> 's tag_store_data_model
    \<Rightarrow> data_failure option \<times> 's tag_store_data_model" where
  "apply_plan port p m =
     (case p of Inl err \<Rightarrow> (Some err, m)
      | Inr plan \<Rightarrow> (case commit port plan (br_store m) of (err, st) \<Rightarrow> (err, m \<lparr> br_store := st \<rparr>)))"

definition bridge_writeCoils :: "'s tag_store_port \<Rightarrow> nat \<Rightarrow> bool list \<Rightarrow> 's tag_store_data_model
    \<Rightarrow> data_failure option \<times> 's tag_store_data_model" where
  "bridge_writeCoils port address vals m =
     (if \<not> rangeIsFullyMapped (br_map m) Coil address (length vals) then (Some (DataModelError DM_ILLEGAL_DATA_ADDRESS), m)
      else apply_plan port (plan_coils (br_map m) address vals) m)"

definition bridge_writeHoldingRegisters :: "'s tag_store_port \<Rightarrow> nat \<Rightarrow> nat list \<Rightarrow> 's tag_store_data_model
    \<Rightarrow> data_failure option \<times> 's tag_store_data_model" where
  "bridge_writeHoldingRegisters port address vals m =
     (if \<not> rangeIsFullyMapped (br_map m) HoldingRegister address (length vals) then (Some (DataModelError DM_ILLEGAL_DATA_ADDRESS), m)
      else apply_plan port (plan_registers (br_map m) address vals) m)"

definition bridge_model :: "'s tag_store_port \<Rightarrow> 's tag_store_data_model data_model" where
  "bridge_model port =
     \<lparr> readCoils = readBitArea port Coil, readDiscreteInputs = readBitArea port DiscreteInput,
       readHoldingRegisters = readRegisterArea port HoldingRegister, readInputRegisters = readRegisterArea port InputRegister,
       writeCoils = bridge_writeCoils port, writeHoldingRegisters = bridge_writeHoldingRegisters port \<rparr>"

lemma bridge_model_sel [simp]:
  "readCoils (bridge_model port) = readBitArea port Coil"
  "readDiscreteInputs (bridge_model port) = readBitArea port DiscreteInput"
  "readHoldingRegisters (bridge_model port) = readRegisterArea port HoldingRegister"
  "readInputRegisters (bridge_model port) = readRegisterArea port InputRegister"
  "writeCoils (bridge_model port) = bridge_writeCoils port"
  "writeHoldingRegisters (bridge_model port) = bridge_writeHoldingRegisters port"
  by (simp_all add: bridge_model_def)

section \<open>The word cache is invisible\<close>

definition entry_words :: "'s tag_store_port \<Rightarrow> 's tag_store_data_model \<Rightarrow> register_map_entry \<Rightarrow> data_failure + nat list" where
  "entry_words port m e =
     (case ts_read port (br_store m) (tagId e) of
        Inl err \<Rightarrow> Inl err
      | Inr raw \<Rightarrow> (case encodeValueToRegisters e (toNumber raw) of None \<Rightarrow> Inl OtherFailure | Some ws \<Rightarrow> Inr ws))"

fun read_plain :: "'s tag_store_port \<Rightarrow> 's tag_store_data_model \<Rightarrow> register_area \<Rightarrow> nat list \<Rightarrow> data_failure + nat list" where
  "read_plain port m a [] = Inr []"
| "read_plain port m a (x # xs) =
     (case entryOccupying (br_map m) a x of
        None \<Rightarrow> Inl OtherFailure
      | Some e \<Rightarrow>
          (case entry_words port m e of
             Inl err \<Rightarrow> Inl err
           | Inr ws \<Rightarrow> (case read_plain port m a xs of Inl err \<Rightarrow> Inl err | Inr out \<Rightarrow> Inr (word_at ws (x - rm_address e) # out))))"

definition bridge_ok :: "'s tag_store_data_model \<Rightarrow> bool" where
  "bridge_ok m \<longleftrightarrow> register_map_ok (br_map m)"

definition cache_ok :: "'s tag_store_port \<Rightarrow> 's tag_store_data_model \<Rightarrow> word_cache \<Rightarrow> bool" where
  "cache_ok port m cache \<longleftrightarrow>
     (\<forall>e\<in>set (rm_entries (br_map m)). \<forall>ws. cache (rm_area e, rm_address e) = Some ws \<longrightarrow> entry_words port m e = Inr ws)"

lemma entry_unique:
  assumes "register_map_ok mp" "e \<in> set (rm_entries mp)" "e' \<in> set (rm_entries mp)" "rm_area e = rm_area e'" "rm_address e = rm_address e'"
  shows "e = e'"
proof -
  have "entryStartingAt mp (rm_area e) (rm_address e) = Some e" "entryStartingAt mp (rm_area e) (rm_address e) = Some e'"
    using assms occupying_iff(2) [OF assms(1)] by auto
  then show ?thesis by simp
qed

lemma resolveEntryWords_cache:
  assumes "bridge_ok m" "e \<in> set (rm_entries (br_map m))" "cache_ok port m cache"
  shows "case resolveEntryWords port m e cache of Inl err \<Rightarrow> entry_words port m e = Inl err
    | Inr (ws, cache') \<Rightarrow> entry_words port m e = Inr ws \<and> cache_ok port m cache'"
proof (cases "cache (rm_area e, rm_address e)")
  case None
  then have r: "resolveEntryWords port m e cache =
      (case entry_words port m e of Inl err \<Rightarrow> Inl err | Inr ws \<Rightarrow> Inr (ws, cache((rm_area e, rm_address e) \<mapsto> ws)))"
    by (simp add: resolveEntryWords_def entry_words_def split: sum.split option.split)
  have "cache_ok port m (cache((rm_area e, rm_address e) \<mapsto> ws))" if "entry_words port m e = Inr ws" for ws
    using assms(3) that entry_unique [OF assms(1) [unfolded bridge_ok_def] _ assms(2)] by (auto simp: cache_ok_def)
  then show ?thesis using r by (simp split: sum.split)
next
  case (Some ws)
  then show ?thesis using assms(2,3) by (auto simp: resolveEntryWords_def cache_ok_def)
qed

lemma read_words_plain:
  assumes "bridge_ok m" "cache_ok port m cache"
  shows "read_words port m a xs cache = read_plain port m a xs"
  using assms(2)
proof (induction xs arbitrary: cache)
  case (Cons x xs)
  show ?case
  proof (cases "entryOccupying (br_map m) a x")
    case (Some e)
    then have "e \<in> set (rm_entries (br_map m))" using assms(1) occupying_iff(1) by (auto simp: bridge_ok_def)
    from resolveEntryWords_cache [OF assms(1) this Cons.prems] Some show ?thesis
      by (auto simp: Cons.IH split: sum.splits)
  qed simp
qed simp

lemma readRegisterArea_plain:
  "bridge_ok m \<Longrightarrow> readRegisterArea port a m x q =
     (if \<not> rangeIsFullyMapped (br_map m) a x q then Inl (DataModelError DM_ILLEGAL_DATA_ADDRESS)
      else read_plain port m a (map (\<lambda>i. x + i) [0..<q]))"
  using read_words_plain [of m port Map.empty a] by (simp add: readRegisterArea_def cache_ok_def)

lemma read_plain_registers:
  "bridge_ok m \<Longrightarrow> read_plain port m a xs = Inr ws \<Longrightarrow> length ws = length xs \<and> list_all (\<lambda>w. w < 65536) ws"
proof (induction xs arbitrary: ws)
  case (Cons x xs)
  then obtain e ew out where e: "entryOccupying (br_map m) a x = Some e" "entry_words port m e = Inr ew"
    "read_plain port m a xs = Inr out" "ws = word_at ew (x - rm_address e) # out"
    by (auto split: option.splits sum.splits)
  have "list_all (\<lambda>w. w < 65536) ew" using e(2) encode_length by (auto simp: entry_words_def split: sum.splits option.splits)
  then have "word_at ew i < 65536" for i by (auto simp: word_at_def list_all_length)
  with e Cons show ?case by simp
qed simp

lemma read_bits_length: "read_bits port m a xs = Inr bs \<Longrightarrow> length bs = length xs"
  by (induction xs arbitrary: bs) (auto split: option.splits sum.splits)

lemma bridge_read_lengths:
  "readBitArea port a m x q = Inr bs \<Longrightarrow> length bs = q"
  "bridge_ok m \<Longrightarrow> readRegisterArea port a m x q = Inr ws \<Longrightarrow> length ws = q \<and> list_all (\<lambda>w. w < 65536) ws"
  by (auto simp: readBitArea_def readRegisterArea_plain split: if_splits dest: read_bits_length read_plain_registers)

section \<open>Plans name writable entries only\<close>

definition writable_tag :: "register_map \<Rightarrow> string \<Rightarrow> bool" where
  "writable_tag mp t \<longleftrightarrow> (\<exists>e\<in>set (rm_entries mp). tagId e = t \<and> writable e \<and> rm_area e \<in> {Coil, HoldingRegister})"

lemma plan_registers_step:
  assumes "plan_registers mp x ws = Inr plan" "ws \<noteq> []"
  obtains e v plan' where "entryOccupying mp HoldingRegister x = Some e" "rm_address e = x" "registerWidth (dataType e) \<le> length ws"
    "writable e" "decodeRegistersToValue e (take (registerWidth (dataType e)) ws) = Some v"
    "plan_registers mp (x + registerWidth (dataType e)) (drop (registerWidth (dataType e)) ws) = Inr plan'"
    "plan = (tagId e, TagNumber v) # plan'"
  using assms by (subst (asm) plan_registers.simps)
    (auto simp: assertWritable_def split: option.splits sum.splits if_splits)

lemma plan_coils_step:
  assumes "plan_coils mp x (b # bs) = Inr plan"
  obtains e plan' where "entryStartingAt mp Coil x = Some e" "writable e" "plan_coils mp (x + 1) bs = Inr plan'"
    "plan = (tagId e, TagBoolean b) # plan'"
  using assms by (auto simp: assertWritable_def split: option.splits sum.splits if_splits)

lemma plan_coils_tags:
  "register_map_ok mp \<Longrightarrow> plan_coils mp x bs = Inr plan \<Longrightarrow> (t, v) \<in> set plan \<Longrightarrow>
     \<exists>e\<in>set (rm_entries mp). tagId e = t \<and> writable e \<and> rm_area e = Coil \<and> x \<le> rm_address e"
proof (induction bs arbitrary: x plan)
  case (Cons b bs)
  from Cons.prems(2) obtain e plan' where e: "entryStartingAt mp Coil x = Some e" "writable e" "plan_coils mp (x + 1) bs = Inr plan'"
    "plan = (tagId e, TagBoolean b) # plan'" by (rule plan_coils_step)
  have "e \<in> set (rm_entries mp) \<and> rm_area e = Coil \<and> rm_address e = x" using e(1) occupying_iff(2) [OF Cons.prems(1)] by blast
  with Cons.IH [OF Cons.prems(1) e(3)] Cons.prems(3) e(2,4) show ?case by fastforce
qed auto

lemma plan_registers_tags:
  "register_map_ok mp \<Longrightarrow> plan_registers mp x ws = Inr plan \<Longrightarrow> (t, v) \<in> set plan \<Longrightarrow>
     \<exists>e\<in>set (rm_entries mp). tagId e = t \<and> writable e \<and> rm_area e = HoldingRegister \<and> x \<le> rm_address e"
proof (induction "length ws" arbitrary: x ws plan rule: less_induct)
  case less
  show ?case
  proof (cases "ws = []")
    case True
    with less.prems show ?thesis by (simp add: plan_registers.simps)
  next
    case False
    from less.prems(2) this obtain e v' plan' where e: "entryOccupying mp HoldingRegister x = Some e" "rm_address e = x" "writable e"
      "decodeRegistersToValue e (take (registerWidth (dataType e)) ws) = Some v'"
      "plan_registers mp (x + registerWidth (dataType e)) (drop (registerWidth (dataType e)) ws) = Inr plan'"
      "plan = (tagId e, TagNumber v') # plan'" by (rule plan_registers_step)
    have m: "e \<in> set (rm_entries mp)" "rm_area e = HoldingRegister"
      using e(1) occupying_iff(1) [OF less.prems(1)] by (auto simp: occupies_def)
    show ?thesis
    proof (cases "(t, v) \<in> set plan'")
      case True
      have "0 < registerWidth (dataType e)"
        using entry_width_pos [OF entry_ok [OF less.prems(1) m(1)]] m(2) by (simp add: entry_width_def isBitArea_def)
      then have "length (drop (registerWidth (dataType e)) ws) < length ws" using False by simp
      from less.hyps [OF this less.prems(1) e(5) True] show ?thesis by fastforce
    next
      case False
      then show ?thesis using m e(2,3,6) less.prems(3) by auto
    qed
  qed
qed

text \<open>
  Any data-model write performs a list of store writes, each to the tag of an entry that is marked writable; if it is
  refused before the commit it performs none.
\<close>

lemma bridge_write_plan:
  assumes "bridge_ok m" and "write = bridge_writeCoils port a bs \<or> write = bridge_writeHoldingRegisters port a ws"
  shows "\<exists>plan. snd (write m) = m \<lparr> br_store := snd (commit port plan (br_store m)) \<rparr> \<and> (\<forall>(t, v)\<in>set plan. writable_tag (br_map m) t)"
proof -
  have ok: "register_map_ok (br_map m)" using assms(1) by (simp add: bridge_ok_def)
  have none: "\<exists>plan. m = m \<lparr> br_store := snd (commit port plan (br_store m)) \<rparr> \<and> (\<forall>(t, v)\<in>set plan. writable_tag (br_map m) t)"
    by (intro exI [of _ "[]"]) simp
  have "\<exists>plan. snd (apply_plan port p m) = m \<lparr> br_store := snd (commit port plan (br_store m)) \<rparr> \<and> (\<forall>(t, v)\<in>set plan. writable_tag (br_map m) t)"
    if "p = plan_coils (br_map m) a bs \<or> p = plan_registers (br_map m) a ws" for p
  proof (cases p)
    case (Inl err)
    then show ?thesis using none by (simp add: apply_plan_def)
  next
    case (Inr plan)
    have "writable_tag (br_map m) t" if tv: "(t, v) \<in> set plan" for t v
      using \<open>p = plan_coils (br_map m) a bs \<or> p = plan_registers (br_map m) a ws\<close>
    proof
      assume "p = plan_coils (br_map m) a bs"
      with Inr plan_coils_tags [OF ok _ tv, of a bs] show ?thesis by (auto simp: writable_tag_def)
    next
      assume "p = plan_registers (br_map m) a ws"
      with Inr plan_registers_tags [OF ok _ tv, of a ws] show ?thesis by (auto simp: writable_tag_def)
    qed
    with Inr show ?thesis by (intro exI [of _ plan]) (auto simp: apply_plan_def split: prod.split)
  qed
  then show ?thesis
    using assms(2) none by (auto simp: bridge_writeCoils_def bridge_writeHoldingRegisters_def)
qed

section \<open>Stores that do not fail\<close>

locale tag_store =
  fixes port :: "'s tag_store_port"
  assumes read_total: "\<exists>v. ts_read port st t = Inr v"
    and write_total: "\<exists>st'. ts_write port t v st = (None, st')"
    and read_write: "ts_write port t v st = (None, st') \<Longrightarrow> ts_read port st' t' = (if t' = t then Inr (Some v) else ts_read port st t')"
begin

lemma commit_total: "\<exists>st'. commit port plan st = (None, st')"
proof (induction plan arbitrary: st)
  case (Cons tv plan)
  obtain t v where "tv = (t, v)" by (cases tv)
  moreover obtain st1 where "ts_write port t v st = (None, st1)" using write_total by blast
  ultimately show ?case using Cons.IH [of st1] by auto
qed simp

lemma commit_keeps:
  "commit port plan st = (None, st') \<Longrightarrow> t \<notin> fst ` set plan \<Longrightarrow> ts_read port st' t = ts_read port st t"
proof (induction plan arbitrary: st)
  case (Cons tv plan)
  obtain t1 v1 where tv: "tv = (t1, v1)" by (cases tv)
  moreover obtain st1 where "ts_write port t1 v1 st = (None, st1)" using write_total by blast
  ultimately show ?case using Cons read_write [of t1 v1 st st1 t] by auto
qed simp

lemma commit_reads:
  "commit port plan st = (None, st') \<Longrightarrow> distinct (map fst plan) \<Longrightarrow> (t, v) \<in> set plan \<Longrightarrow> ts_read port st' t = Inr (Some v)"
proof (induction plan arbitrary: st)
  case (Cons tv plan)
  obtain t1 v1 where tv: "tv = (t1, v1)" by (cases tv)
  obtain st1 where st1: "ts_write port t1 v1 st = (None, st1)" using write_total by blast
  with Cons.prems(1) tv have c: "commit port plan st1 = (None, st')" by simp
  show ?case
  proof (cases "(t, v) \<in> set plan")
    case True
    then show ?thesis using Cons.IH [OF c] Cons.prems(2) by simp
  next
    case False
    with Cons.prems tv have "t = t1" "v = v1" "t \<notin> fst ` set plan" by auto
    then show ?thesis using commit_keeps [OF c] read_write [OF st1, of t] by simp
  qed
qed simp

lemma apply_plan_atomic: "apply_plan port p m = (Some err, m') \<Longrightarrow> m' = m"
proof (cases p)
  case (Inr plan)
  assume "apply_plan port p m = (Some err, m')"
  moreover obtain st' where "commit port plan (br_store m) = (None, st')" using commit_total by blast
  ultimately show ?thesis using Inr by (simp add: apply_plan_def)
qed (simp add: apply_plan_def)

lemma apply_plan_map: "br_map (snd (apply_plan port p m)) = br_map m"
  by (simp add: apply_plan_def split: sum.split prod.split)

end

sublocale tag_store \<subseteq> bridge: modbus_data_model "bridge_model port" bridge_ok
proof unfold_locales
  fix m :: "'s tag_store_data_model" and a q bs ws err m'
  show "bridge_ok m \<Longrightarrow> readCoils (bridge_model port) m a q = Inr bs \<Longrightarrow> length bs = q"
    "bridge_ok m \<Longrightarrow> readDiscreteInputs (bridge_model port) m a q = Inr bs \<Longrightarrow> length bs = q"
    by (auto dest: bridge_read_lengths(1))
  show "bridge_ok m \<Longrightarrow> readHoldingRegisters (bridge_model port) m a q = Inr ws \<Longrightarrow> length ws = q \<and> list_all (\<lambda>r. r < 65536) ws"
    "bridge_ok m \<Longrightarrow> readInputRegisters (bridge_model port) m a q = Inr ws \<Longrightarrow> length ws = q \<and> list_all (\<lambda>r. r < 65536) ws"
    using bridge_read_lengths(2) by (simp_all only: bridge_model_sel) blast+
  show "bridge_ok m \<Longrightarrow> writeCoils (bridge_model port) a bs m = (Some err, m') \<Longrightarrow> m' = m"
    "bridge_ok m \<Longrightarrow> writeHoldingRegisters (bridge_model port) a ws m = (Some err, m') \<Longrightarrow> m' = m"
    by (auto simp: bridge_writeCoils_def bridge_writeHoldingRegisters_def split: if_splits dest: apply_plan_atomic)
  show "bridge_ok m \<Longrightarrow> bridge_ok (snd (writeCoils (bridge_model port) a bs m))"
    "bridge_ok m \<Longrightarrow> bridge_ok (snd (writeHoldingRegisters (bridge_model port) a ws m))"
    by (auto simp: bridge_writeCoils_def bridge_writeHoldingRegisters_def bridge_ok_def apply_plan_map)
qed

section \<open>Maps with exact encodings\<close>

text \<open>
  Holding registers hold integers without a scale, and within the two writable areas no tag is mapped twice.
\<close>

definition exact_map :: "register_map \<Rightarrow> bool" where
  "exact_map mp \<longleftrightarrow> register_map_ok mp
     \<and> (\<forall>e\<in>set (rm_entries mp). rm_area e = HoldingRegister \<longrightarrow> entry_scale e = None \<and> dataType e \<noteq> FLOAT32)
     \<and> (\<forall>e\<in>set (rm_entries mp). \<forall>e'\<in>set (rm_entries mp). rm_area e = rm_area e' \<longrightarrow> tagId e = tagId e' \<longrightarrow> e = e')"

definition bridge_exact :: "'s tag_store_data_model \<Rightarrow> bool" where
  "bridge_exact m \<longleftrightarrow> exact_map (br_map m)"

lemma exact_ok: "exact_map mp \<Longrightarrow> register_map_ok mp"
  by (simp add: exact_map_def)

lemma exact_tag: "exact_map mp \<Longrightarrow> e \<in> set (rm_entries mp) \<Longrightarrow> e' \<in> set (rm_entries mp) \<Longrightarrow> rm_area e = rm_area e' \<Longrightarrow>
    rm_address e \<noteq> rm_address e' \<Longrightarrow> tagId e \<noteq> tagId e'"
  by (auto simp: exact_map_def)

lemma plan_coils_distinct: "exact_map mp \<Longrightarrow> plan_coils mp x bs = Inr plan \<Longrightarrow> distinct (map fst plan)"
proof (induction bs arbitrary: x plan)
  case (Cons b bs)
  from Cons.prems(2) obtain e plan' where e: "entryStartingAt mp Coil x = Some e" "writable e" "plan_coils mp (x + 1) bs = Inr plan'"
    "plan = (tagId e, TagBoolean b) # plan'" by (rule plan_coils_step)
  have m: "e \<in> set (rm_entries mp)" "rm_area e = Coil" "rm_address e = x"
    using e(1) occupying_iff(2) [OF exact_ok [OF Cons.prems(1)]] by blast+
  have "t \<noteq> tagId e" if "(t, v) \<in> set plan'" for t v
    using plan_coils_tags [OF exact_ok [OF Cons.prems(1)] e(3) that] exact_tag [OF Cons.prems(1) _ m(1)] m(2,3) by fastforce
  then have "tagId e \<notin> fst ` set plan'" by fastforce
  with Cons.IH [OF Cons.prems(1) e(3)] e(4) show ?case by simp
qed simp

lemma holding_width:
  assumes "register_map_ok mp" "entryOccupying mp HoldingRegister x = Some e"
  shows "e \<in> set (rm_entries mp)" "rm_area e = HoldingRegister" "occupies e HoldingRegister x"
    "0 < registerWidth (dataType e)" "entry_width e = registerWidth (dataType e)" "dataType e \<noteq> BOOL"
proof -
  show m: "e \<in> set (rm_entries mp)" "rm_area e = HoldingRegister" "occupies e HoldingRegister x"
    using assms occupying_iff(1) by (auto simp: occupies_def)
  show "entry_width e = registerWidth (dataType e)" using m(2) by (simp add: entry_width_def isBitArea_def)
  with entry_width_pos [OF entry_ok [OF assms(1) m(1)]] show "0 < registerWidth (dataType e)" "dataType e \<noteq> BOOL" by auto
qed

lemma plan_registers_distinct: "exact_map mp \<Longrightarrow> plan_registers mp x ws = Inr plan \<Longrightarrow> distinct (map fst plan)"
proof (induction "length ws" arbitrary: x ws plan rule: less_induct)
  case less
  note ok = exact_ok [OF less.prems(1)]
  show ?case
  proof (cases "ws = []")
    case True
    with less.prems show ?thesis by (simp add: plan_registers.simps)
  next
    case False
    from less.prems(2) this obtain e v plan' where e: "entryOccupying mp HoldingRegister x = Some e" "rm_address e = x"
      "plan_registers mp (x + registerWidth (dataType e)) (drop (registerWidth (dataType e)) ws) = Inr plan'"
      "plan = (tagId e, TagNumber v) # plan'" by (rule plan_registers_step)
    note m = holding_width [OF ok e(1)]
    have "t \<noteq> tagId e" if "(t, v) \<in> set plan'" for t v
      using plan_registers_tags [OF ok e(3) that] exact_tag [OF less.prems(1) _ m(1)] m(2,4) e(2) by fastforce
    then have "tagId e \<notin> fst ` set plan'" by fastforce
    with less.hyps [OF _ less.prems(1) e(3)] m(4) False e(4) show ?thesis by simp
  qed
qed

lemma read_plain_append:
  "read_plain port m a xs = Inr us \<Longrightarrow> read_plain port m a ys = Inr vs \<Longrightarrow> read_plain port m a (xs @ ys) = Inr (us @ vs)"
  by (induction xs arbitrary: us) (auto split: option.splits sum.splits)

text \<open>All addresses of one entry read as the words of its encoding.\<close>

lemma read_plain_entry:
  assumes "register_map_ok (br_map m)" "e \<in> set (rm_entries (br_map m))" "entry_words port m e = Inr ws"
    and "length ws = entry_width e" "i + n \<le> entry_width e"
  shows "read_plain port m (rm_area e) (map (\<lambda>j. rm_address e + j) [i..<i + n]) = Inr (take n (drop i ws))"
  using assms(5)
proof (induction n arbitrary: i)
  case (Suc n)
  have "entryOccupying (br_map m) (rm_area e) (rm_address e + i) = Some e"
    using assms(1,2) Suc.prems occupying_iff(1) by (simp add: occupies_def)
  moreover have "[i..<i + Suc n] = i # [Suc i..<Suc i + n]" by (simp add: upt_conv_Cons)
  moreover have "drop i ws = ws ! i # drop (Suc i) ws" using Suc.prems assms(4) by (simp add: Cons_nth_drop_Suc)
  ultimately show ?case using Suc.IH [of "Suc i"] Suc.prems assms(3,4) by (simp add: word_at_def)
qed simp

lemma plan_registers_read_back:
  assumes "exact_map (br_map m)" "plan_registers (br_map m) x ws = Inr plan" "list_all (\<lambda>w. w < 65536) ws"
    and "\<And>t v. (t, v) \<in> set plan \<Longrightarrow> ts_read port (br_store m) t = Inr (Some v)"
  shows "read_plain port m HoldingRegister (map (\<lambda>i. x + i) [0..<length ws]) = Inr ws"
  using assms(2-4)
proof (induction "length ws" arbitrary: x ws plan rule: less_induct)
  case less
  note ok = exact_ok [OF assms(1)]
  show ?case
  proof (cases "ws = []")
    case False
    from less.prems(1) this obtain e v plan' where e: "entryOccupying (br_map m) HoldingRegister x = Some e" "rm_address e = x"
      "registerWidth (dataType e) \<le> length ws" "decodeRegistersToValue e (take (registerWidth (dataType e)) ws) = Some v"
      "plan_registers (br_map m) (x + registerWidth (dataType e)) (drop (registerWidth (dataType e)) ws) = Inr plan'"
      "plan = (tagId e, TagNumber v) # plan'" by (rule plan_registers_step)
    let ?k = "registerWidth (dataType e)"
    note h = holding_width [OF ok e(1)]
    have "entry_scale e = None" "dataType e \<noteq> FLOAT32" using assms(1) h(1,2) by (auto simp: exact_map_def)
    then have "encodeValueToRegisters e v = Some (take ?k ws)"
      using decode_encode [of e "take ?k ws"] e(3,4) h(6) less.prems(2) by (auto simp: list_all_iff dest: in_set_takeD)
    then have "entry_words port m e = Inr (take ?k ws)"
      using less.prems(3) [of "tagId e" "TagNumber v"] e(6) by (simp add: entry_words_def toNumber_def)
    then have "read_plain port m HoldingRegister (map (\<lambda>i. x + i) [0..<?k]) = Inr (take ?k ws)"
      using read_plain_entry [OF ok h(1), of port "take ?k ws" 0 ?k] e(2,3) h(2,5) by simp
    moreover have "read_plain port m HoldingRegister (map (\<lambda>i. x + ?k + i) [0..<length (drop ?k ws)]) = Inr (drop ?k ws)"
      using less.hyps [OF _ e(5)] h(4) False less.prems(2,3) e(6) by (auto simp: list_all_iff dest: in_set_dropD)
    moreover have "map (\<lambda>i. x + i) [0..<length ws] = map (\<lambda>i. x + i) [0..<?k] @ map (\<lambda>i. x + ?k + i) [0..<length (drop ?k ws)]"
      using e(3) by (intro nth_equalityI) (auto simp: nth_append)
    ultimately show ?thesis using read_plain_append by fastforce
  qed simp
qed

lemma plan_coils_read_back:
  assumes "plan_coils (br_map m) x bs = Inr plan" "\<And>t v. (t, v) \<in> set plan \<Longrightarrow> ts_read port (br_store m) t = Inr (Some v)"
  shows "read_bits port m Coil (map (\<lambda>i. x + i) [0..<length bs]) = Inr bs"
  using assms
proof (induction bs arbitrary: x plan)
  case (Cons b bs)
  from Cons.prems(1) obtain e plan' where e: "entryStartingAt (br_map m) Coil x = Some e" "plan_coils (br_map m) (x + 1) bs = Inr plan'"
    "plan = (tagId e, TagBoolean b) # plan'" by (rule plan_coils_step)
  have "map (\<lambda>i. x + i) [0..<length (b # bs)] = x # map (\<lambda>i. x + 1 + i) [0..<length bs]"
    by (simp add: upt_conv_Cons map_Suc_upt [symmetric] comp_def del: upt_Suc)
  moreover have "ts_read port (br_store m) (tagId e) = Inr (Some (TagBoolean b))" using Cons.prems(2) e(3) by simp
  moreover have "read_bits port m Coil (map (\<lambda>i. x + 1 + i) [0..<length bs]) = Inr bs" using Cons.IH [OF e(2)] Cons.prems(2) e(3) by simp
  ultimately show ?case using e(1) by (simp add: toBool_def del: upt_Suc)
qed simp

sublocale tag_store \<subseteq> memory: modbus_memory "bridge_model port" bridge_exact
proof unfold_locales
  fix m :: "'s tag_store_data_model" and a q bs ws err m'
  have ok: "bridge_exact m \<Longrightarrow> bridge_ok m" by (simp add: bridge_exact_def bridge_ok_def exact_ok)
  show "bridge_exact m \<Longrightarrow> readCoils (bridge_model port) m a q = Inr bs \<Longrightarrow> length bs = q"
    "bridge_exact m \<Longrightarrow> readDiscreteInputs (bridge_model port) m a q = Inr bs \<Longrightarrow> length bs = q"
    by (auto dest: bridge_read_lengths(1))
  show "bridge_exact m \<Longrightarrow> readHoldingRegisters (bridge_model port) m a q = Inr ws \<Longrightarrow> length ws = q \<and> list_all (\<lambda>r. r < 65536) ws"
    "bridge_exact m \<Longrightarrow> readInputRegisters (bridge_model port) m a q = Inr ws \<Longrightarrow> length ws = q \<and> list_all (\<lambda>r. r < 65536) ws"
    using bridge_read_lengths(2) ok by (simp_all only: bridge_model_sel) blast+
  show "bridge_exact m \<Longrightarrow> writeCoils (bridge_model port) a bs m = (Some err, m') \<Longrightarrow> m' = m"
    "bridge_exact m \<Longrightarrow> writeHoldingRegisters (bridge_model port) a ws m = (Some err, m') \<Longrightarrow> m' = m"
    using bridge.coils_atomic bridge.holding_atomic ok by blast+
  have keep: "br_map (snd (bridge_writeCoils port a bs m)) = br_map m" "br_map (snd (bridge_writeHoldingRegisters port a ws m)) = br_map m"
    by (simp_all add: bridge_writeCoils_def bridge_writeHoldingRegisters_def apply_plan_map)
  then show "bridge_exact m \<Longrightarrow> bridge_exact (snd (writeCoils (bridge_model port) a bs m))"
    "bridge_exact m \<Longrightarrow> bridge_exact (snd (writeHoldingRegisters (bridge_model port) a ws m))"
    by (simp_all add: bridge_exact_def)
  show "readCoils (bridge_model port) m' a (length bs) = Inr bs"
    if "bridge_exact m" "writeCoils (bridge_model port) a bs m = (None, m')"
  proof -
    from that(2) obtain plan st where p: "rangeIsFullyMapped (br_map m) Coil a (length bs)" "plan_coils (br_map m) a bs = Inr plan"
      "commit port plan (br_store m) = (None, st)" "m' = m \<lparr> br_store := st \<rparr>"
      by (auto simp: bridge_writeCoils_def apply_plan_def split: if_splits sum.splits prod.splits)
    have "distinct (map fst plan)" using plan_coils_distinct [OF _ p(2)] that(1) by (simp add: bridge_exact_def)
    then show ?thesis
      using plan_coils_read_back [of m' a bs plan port] commit_reads [OF p(3)] p by (simp add: readBitArea_def)
  qed
  show "readHoldingRegisters (bridge_model port) m' a (length ws) = Inr ws"
    if "bridge_exact m" "list_all (\<lambda>r. r < 65536) ws" "writeHoldingRegisters (bridge_model port) a ws m = (None, m')"
  proof -
    from that(3) obtain plan st where p: "rangeIsFullyMapped (br_map m) HoldingRegister a (length ws)"
      "plan_registers (br_map m) a ws = Inr plan" "commit port plan (br_store m) = (None, st)" "m' = m \<lparr> br_store := st \<rparr>"
      by (auto simp: bridge_writeHoldingRegisters_def apply_plan_def split: if_splits sum.splits prod.splits)
    have x: "exact_map (br_map m)" using that(1) by (simp add: bridge_exact_def)
    have "distinct (map fst plan)" by (rule plan_registers_distinct [OF x p(2)])
    then show ?thesis
      using plan_registers_read_back [of m' a ws plan port] commit_reads [OF p(3)] p x that(2) exact_ok [OF x]
      by (simp add: readRegisterArea_plain bridge_ok_def)
  qed
qed

interpretation in_memory_store: tag_store in_memory_port
  by unfold_locales (auto simp: in_memory_port_def store_read_def store_write_def)

end
