(* ===== verification/Modbus_System.thy ===== *)
theory Modbus_System
  imports Modbus_Server Modbus_Bridge
begin

text \<open>
  The Modbus server as \<open>createModbusServerForSite\<close> and \<open>startModbusServer\<close> of \<open>modbus-server/index.ts\<close> put it together: the
  listener over the tag-store bridge of a register map. The properties here go from octets on a socket to
  live tags.
\<close>

text \<open>The model the listener is built on: the bridge over the accepted map of the site.\<close>

definition createModbusServerForSite :: "raw_config \<Rightarrow> 's \<Rightarrow> register_map_error + 's tag_store_data_model modbus_server" where
  "createModbusServerForSite raw st =
     (case fromConfig raw of Inl e \<Rightarrow> Inl e | Inr mp \<Rightarrow> Inr (new_modbus_server \<lparr> br_map = mp, br_store = st \<rparr>))"

section \<open>What a master can change\<close>

text \<open>Stores reached by calls of \<open>store.write\<close> on tags of writable entries, some of which may throw.\<close>

inductive store_writes :: "'s tag_store_port \<Rightarrow> register_map \<Rightarrow> 's \<Rightarrow> 's \<Rightarrow> bool" for port mp st where
  writes_none: "store_writes port mp st st"
| writes_tag: "store_writes port mp st st1 \<Longrightarrow> writable_tag mp t \<Longrightarrow> ts_write port t v st1 = (err, st2) \<Longrightarrow> store_writes port mp st st2"

lemma store_writes_trans: "store_writes port mp st1 st2 \<Longrightarrow> store_writes port mp st0 st1 \<Longrightarrow> store_writes port mp st0 st2"
  by (induction rule: store_writes.induct) (auto intro: store_writes.intros)

lemma commit_store_writes:
  "\<forall>(t, v)\<in>set plan. writable_tag mp t \<Longrightarrow> store_writes port mp st (snd (commit port plan st))"
proof (induction plan arbitrary: st)
  case (Cons tv plan)
  obtain t v where tv: "tv = (t, v)" by (cases tv)
  obtain err st1 where w: "ts_write port t v st = (err, st1)" by fastforce
  have one: "store_writes port mp st st1" using Cons.prems tv w by (auto intro: store_writes.intros)
  show ?case
  proof (cases err)
    case None
    have "store_writes port mp st1 (snd (commit port plan st1))" using Cons by simp
    then show ?thesis using store_writes_trans [OF _ one] None w tv by simp
  next
    case (Some e)
    with one w tv show ?thesis by simp
  qed
qed (simp add: writes_none)

text \<open>The step relation of a bridge: the map stays, the store changes by writes to writable tags.\<close>

definition bridge_reaches :: "'s tag_store_port \<Rightarrow> 's tag_store_data_model \<Rightarrow> 's tag_store_data_model \<Rightarrow> bool" where
  "bridge_reaches port m m' \<longleftrightarrow> br_map m' = br_map m \<and> store_writes port (br_map m) (br_store m) (br_store m')"

lemma bridge_reaches_refl: "bridge_reaches port m m"
  by (simp add: bridge_reaches_def writes_none)

lemma bridge_reaches_trans: "bridge_reaches port m m1 \<Longrightarrow> bridge_reaches port m1 m2 \<Longrightarrow> bridge_reaches port m m2"
  by (auto simp: bridge_reaches_def intro: store_writes_trans)

lemma bridge_write_reaches:
  "bridge_ok m \<Longrightarrow> bridge_reaches port m (snd (bridge_writeCoils port a bs m))"
  "bridge_ok m \<Longrightarrow> bridge_reaches port m (snd (bridge_writeHoldingRegisters port a ws m))"
proof -
  have "bridge_reaches port m (snd (w m))" if "bridge_ok m" "w = bridge_writeCoils port a bs \<or> w = bridge_writeHoldingRegisters port a ws" for w
  proof -
    from bridge_write_plan [OF that] obtain plan where "snd (w m) = m \<lparr> br_store := snd (commit port plan (br_store m)) \<rparr>"
      "\<forall>(t, v)\<in>set plan. writable_tag (br_map m) t" by blast
    then show ?thesis using commit_store_writes [of plan "br_map m" port "br_store m"] by (simp add: bridge_reaches_def)
  qed
  then show "bridge_ok m \<Longrightarrow> bridge_reaches port m (snd (bridge_writeCoils port a bs m))"
    "bridge_ok m \<Longrightarrow> bridge_reaches port m (snd (bridge_writeHoldingRegisters port a ws m))" by blast+
qed

lemma after_write_snd: "snd (after_write reply r) = snd r"
  by (simp add: after_write_def split: prod.split option.split)

lemma mb_dispatch_reaches: "bridge_ok m \<Longrightarrow> bridge_reaches port m (snd (mb_dispatch fc b (bridge_model port) m))"
  by (simp add: mb_dispatch_def write_handler_defs Let_def after_write_snd bridge_write_reaches bridge_reaches_refl split: option.split)

lemma processRequest_reaches: "bridge_ok m \<Longrightarrow> bridge_reaches port m (snd (processRequest r (bridge_model port) m))"
  using mb_dispatch_reaches [of m port "functionCode r" "data r"]
  by (auto simp: processRequest_def split: prod.splits sum.splits)

lemma answer_reaches:
  "bridge_ok m \<Longrightarrow> bridge_reaches port m (snd (answer cfg (bridge_model port) r m))"
  by (simp add: answer_def processRequest_reaches bridge_reaches_refl)

lemma bridge_reaches_ok: "bridge_reaches port m m' \<Longrightarrow> bridge_ok m \<Longrightarrow> bridge_ok m'"
  by (simp add: bridge_reaches_def bridge_ok_def)

lemma conn_event_reaches:
  assumes "bridge_ok m" "conn_event cfg (bridge_model port) ev (c, m) = Some (c', m')" "\<And>m1. ev \<noteq> Model_Change m1"
  shows "bridge_reaches port m m'"
proof (cases "ev = Respond")
  case True
  with assms(2) obtain r w where "answer cfg (bridge_model port) r m = (w, m')" by (auto split: option.splits prod.splits)
  with answer_reaches [OF assms(1), of port cfg r] show ?thesis by simp
next
  case False
  with assms(2,3) have "m' = m" by (cases ev) (auto split: if_splits option.splits)
  then show ?thesis by (simp add: bridge_reaches_refl)
qed

lemma server_run_reaches:
  "server_run cfg (bridge_model port) evs srv = Some srv' \<Longrightarrow> \<forall>i m. Conn i (Model_Change m) \<notin> set evs \<Longrightarrow> bridge_ok (model srv) \<Longrightarrow>
     bridge_reaches port (model srv) (model srv')"
proof (induction evs arbitrary: srv)
  case (Cons ev evs)
  then obtain s1 where s1: "server_event cfg (bridge_model port) ev srv = Some s1" "server_run cfg (bridge_model port) evs s1 = Some srv'"
    by (auto split: option.splits)
  have "bridge_reaches port (model srv) (model s1)"
  proof (cases ev)
    case (Conn i e)
    with s1(1) obtain c m where e: "conn_event cfg (bridge_model port) e (sockets srv ! i, model srv) = Some (c, m)" "model s1 = m"
      by (auto split: if_splits option.splits)
    have "e \<noteq> Model_Change m1" for m1 using Cons.prems(2) Conn by auto
    with e show ?thesis using conn_event_reaches [OF Cons.prems(3) e(1)] by blast
  next
    case (Connect p)
    with s1(1) show ?thesis by (auto simp: bridge_reaches_refl split: if_splits)
  qed
  with Cons.IH [OF s1(2)] Cons.prems(2,3) bridge_reaches_ok bridge_reaches_trans show ?case by (metis set_subset_Cons subsetD)
qed (simp add: bridge_reaches_refl)

text \<open>C5: Whatever octets any number of masters send, in every run of a site's listener the register map stays what it
  was and the tag store changes only by writes to tags of entries the map marks writable in a writable area; without
  \<open>allowWrites\<close> it does not change at all. This holds for every tag store, also one whose writes fail halfway.
\<close>

theorem modbus_actuates_only_writable:
  assumes "createModbusServerForSite raw st = Inr srv0" "server_run cfg (bridge_model port) evs srv0 = Some srv"
    and "\<forall>i m. Conn i (Model_Change m) \<notin> set evs"
  shows "br_map (model srv) = br_map (model srv0)
    \<and> store_writes port (br_map (model srv0)) st (br_store (model srv))
    \<and> (allowWrites cfg \<or> br_store (model srv) = st)"
proof -
  obtain mp where mp: "fromConfig raw = Inr mp" "srv0 = new_modbus_server \<lparr> br_map = mp, br_store = st \<rparr>"
    using assms(1) by (auto simp: createModbusServerForSite_def split: sum.splits)
  have "bridge_ok (model srv0)"
    using mp new_register_map_ok by (auto simp: new_modbus_server_def bridge_ok_def fromConfig_def split: option.splits)
  from server_run_reaches [OF assms(2,3) this] have "bridge_reaches port (model srv0) (model srv)" .
  moreover have "br_store (model srv) = st" if "\<not> allowWrites cfg"
    using server_run_read_only [OF assms(2) that assms(3)] mp(2) by (simp add: new_modbus_server_def)
  moreover have "br_store (model srv0) = st" using mp(2) by (simp add: new_modbus_server_def)
  ultimately show ?thesis by (auto simp: bridge_reaches_def)
qed

section \<open>What an exception means\<close>

text \<open>
  A write of the store threw: after writes of tags of writable entries, each of which returned, the next one threw and left the
  store \<open>br_store m'\<close>.
\<close>

definition failed_write :: "'s tag_store_port \<Rightarrow> 's tag_store_data_model \<Rightarrow> 's tag_store_data_model \<Rightarrow> bool" where
  "failed_write port m m' \<longleftrightarrow> br_map m' = br_map m
     \<and> (\<exists>before t v st err. (\<forall>(t', v') \<in> set ((t, v) # before). writable_tag (br_map m) t')
          \<and> commit port before (br_store m) = (None, st) \<and> ts_write port t v st = (Some err, br_store m'))"

lemma commit_failed:
  "commit port plan st = (Some err, st') \<Longrightarrow>
     \<exists>before t v rest st1. plan = before @ (t, v) # rest \<and> commit port before st = (None, st1) \<and> ts_write port t v st1 = (Some err, st')"
proof (induction plan arbitrary: st)
  case (Cons tv plan)
  obtain t v where tv: "tv = (t, v)" by (cases tv)
  obtain e st1 where w: "ts_write port t v st = (e, st1)" by fastforce
  show ?case
  proof (cases e)
    case None
    then have "commit port plan st1 = (Some err, st')" using Cons.prems tv w by simp
    from Cons.IH [OF this] obtain before t2 v2 rest st2 where "plan = before @ (t2, v2) # rest" "commit port before st1 = (None, st2)"
      "ts_write port t2 v2 st2 = (Some err, st')" by blast
    then show ?thesis using tv w None
      by (intro exI [of _ "(t, v) # before"] exI [of _ t2] exI [of _ v2] exI [of _ rest] exI [of _ st2]) simp
  next
    case (Some e')
    then show ?thesis using Cons.prems tv w
      by (intro exI [of _ "[]"] exI [of _ t] exI [of _ v] exI [of _ plan] exI [of _ st]) simp
  qed
qed simp

lemma bridge_write_fails:
  assumes "bridge_ok m" "write = bridge_writeCoils port a bs \<or> write = bridge_writeHoldingRegisters port a ws" "write m = (Some e, m')"
  shows "m' = m \<or> failed_write port m m'"
proof -
  have "m' = m \<or> failed_write port m m'"
    if p: "p = plan_coils (br_map m) a bs \<or> p = plan_registers (br_map m) a ws" "apply_plan port p m = (Some e, m')" for p
  proof (cases p)
    case (Inl err)
    then show ?thesis using p(2) by (simp add: apply_plan_def)
  next
    case (Inr plan)
    then have c: "commit port plan (br_store m) = (Some e, br_store m')" "br_map m' = br_map m"
      using p(2) by (auto simp: apply_plan_def split: prod.splits)
    have "\<forall>(t, v)\<in>set plan. writable_tag (br_map m) t"
      using p(1) Inr assms(1) plan_coils_tags plan_registers_tags unfolding bridge_ok_def writable_tag_def by blast
    with commit_failed [OF c(1)] c(2) show ?thesis by (fastforce simp: failed_write_def)
  qed
  from this [of "plan_coils (br_map m) a bs"] this [of "plan_registers (br_map m) a ws"] show ?thesis
    using assms(2,3) by (auto simp: bridge_writeCoils_def bridge_writeHoldingRegisters_def split: if_splits)
qed

definition error_keeps :: "'s tag_store_port \<Rightarrow> 's tag_store_data_model \<Rightarrow> (handler_error + buffer) \<times> 's tag_store_data_model \<Rightarrow> bool" where
  "error_keeps port m r = (case r of (Inr _, _) \<Rightarrow> True | (Inl _, m') \<Rightarrow> m' = m \<or> failed_write port m m')"

lemma error_keeps_same [simp]: "error_keeps port m (e, m)"
  by (simp add: error_keeps_def split: sum.split)

lemma error_keeps_write:
  assumes "bridge_ok m"
  shows "error_keeps port m (after_write reply (bridge_writeCoils port a bs m))"
    "error_keeps port m (after_write reply (bridge_writeHoldingRegisters port a ws m))"
  using bridge_write_fails [OF assms, of "bridge_writeCoils port a bs" port a bs ws]
    bridge_write_fails [OF assms, of "bridge_writeHoldingRegisters port a ws" port a bs ws]
  by (auto simp: error_keeps_def after_write_def split: prod.splits option.splits)

lemma mb_dispatch_keeps: "bridge_ok m \<Longrightarrow> error_keeps port m (mb_dispatch fc b (bridge_model port) m)"
  by (simp add: mb_dispatch_def write_handler_defs Let_def error_keeps_write split: option.split)


text \<open>A store that throws on its second write: the master gets exception 4, and the first coil is switched.\<close>

definition flaky_port :: "in_memory_tag_store tag_store_port" where
  "flaky_port = in_memory_port \<lparr> ts_write := (\<lambda>t v st. if st = Map.empty then store_write t v st else (Some OtherFailure, st)) \<rparr>"

section \<open>A write can be read back\<close>

lemma drain_two:
  assumes "header_ok h1" "fc1 < 256" "length b1 + 2 < 65536" "header_ok h2" "fc2 < 256" "length b2 + 2 < 65536"
    and "answer cfg dm \<lparr> header = h1 \<lparr> mbap_length := length b1 + 2 \<rparr>, functionCode = fc1, data = b1 \<rparr> m = (w1, m1)"
    and "answer cfg dm \<lparr> header = h2 \<lparr> mbap_length := length b2 + 2 \<rparr>, functionCode = fc2, data = b2 \<rparr> m1 = (w2, m2)"
  shows "drain_frames cfg dm (modbus_frame h1 fc1 b1 @ modbus_frame h2 fc2 b2) m = ([w1, w2], [], False, m2)"
proof -
  have l: "length (modbus_frame h fc b) = length b + 8" for h fc b by (simp add: modbus_frame_def)
  have "drain_frames cfg dm (modbus_frame h2 fc2 b2 @ []) m1 = ([w2], [], False, m2)"
    using assms by (subst drain_frames.simps) (simp add: decodeRequest_frame l drain_frames.simps [of _ _ "[]"] del: append_Nil2)
  then show ?thesis
    using assms by (subst drain_frames.simps) (simp add: decodeRequest_frame l)
qed

text \<open>C32: On a site whose holding registers are mapped exactly (integer types, no scale, no tag twice), a master that sends a
  write of 1 to 123 registers and a read of the same registers in one stream gets two responses, and unless the first is an
  exception the second carries exactly the registers written, through the tags' values and back; the write of up to
  1968 coils likewise.
\<close>

theorem modbus_write_read_back:
  assumes "bridge_exact m" "header_ok h1" "header_ok h2" "a < 65536" "allowWrites cfg"
    and "1 \<le> length rs" "length rs \<le> 123" "list_all (\<lambda>r. r < 65536) rs" "1 \<le> length bs" "length bs \<le> 1968"
  shows "(\<exists>w1 w2 m'. drain_frames cfg (bridge_model in_memory_port)
        (modbus_frame h1 16 (data (write_registers h1 a rs)) @ modbus_frame h2 3 (data (read_request h2 READ_HOLDING_REGISTERS a (length rs)))) m
          = ([w1, w2], [], False, m')
      \<and> (is_exception w1 \<or> w2 = modbus_frame h2 3 (of_nat (2 * length rs) # packRegisters rs)))
    \<and> (\<exists>w1 w2 m'. drain_frames cfg (bridge_model in_memory_port)
        (modbus_frame h1 15 (data (write_coils h1 a bs)) @ modbus_frame h2 1 (data (read_request h2 READ_COILS a (length bs)))) m
          = ([w1, w2], [], False, m')
      \<and> (is_exception w1 \<or> w2 = modbus_frame h2 1 (of_nat (ceil_div (length bs) 8) # packBits bs)))"
    (is "?registers \<and> ?coils")
proof
  let ?dm = "bridge_model in_memory_port"
  have ans: "answer cfg ?dm r m = processRequest r ?dm m" for r m using assms(5) by (simp add: answer_def writeRefused_def)
  have fr: "modbus_frame (h \<lparr> mbap_length := n \<rparr>) fc b = modbus_frame h fc b" for h n fc b
    by (simp add: modbus_frame_def encodeMbapHeader_def)
  show ?registers
  proof -
    let ?wr = "write_registers (h1 \<lparr> mbap_length := length (data (write_registers h1 a rs)) + 2 \<rparr>) a rs"
    let ?rd = "read_request (h2 \<lparr> mbap_length := length (data (read_request h2 READ_HOLDING_REGISTERS a (length rs))) + 2 \<rparr>) READ_HOLDING_REGISTERS a (length rs)"
    obtain w1 m1 where w1: "processRequest ?wr ?dm m = (w1, m1)" by fastforce
    obtain w2 m2 where w2: "processRequest ?rd ?dm m1 = (w2, m2)" by fastforce
    have "drain_frames cfg ?dm (modbus_frame h1 16 (data ?wr) @ modbus_frame h2 3 (data ?rd)) m = ([w1, w2], [], False, m2)"
      using assms w1 w2 ans by (intro drain_two) (simp_all add: write_registers_def read_request_def)
    moreover have "is_exception w1 \<or> w2 = modbus_frame h2 3 (of_nat (2 * length rs) # packRegisters rs)"
      using in_memory_store.memory.registers_read_back [OF assms(1,4,6,7,8) w1,
          where h' = "h2 \<lparr> mbap_length := length (data (read_request h2 READ_HOLDING_REGISTERS a (length rs))) + 2 \<rparr>"] w2 fr
      by (cases "is_exception w1") simp_all
    ultimately show ?thesis unfolding write_registers_def read_request_def modbus_request.simps by blast
  qed
  show ?coils
  proof -
    let ?wr = "write_coils (h1 \<lparr> mbap_length := length (data (write_coils h1 a bs)) + 2 \<rparr>) a bs"
    let ?rd = "read_request (h2 \<lparr> mbap_length := length (data (read_request h2 READ_COILS a (length bs))) + 2 \<rparr>) READ_COILS a (length bs)"
    have n: "ceil_div (length bs) 8 < 256" using assms(10) by (simp add: ceil_div_def)
    obtain w1 m1 where w1: "processRequest ?wr ?dm m = (w1, m1)" by fastforce
    obtain w2 m2 where w2: "processRequest ?rd ?dm m1 = (w2, m2)" by fastforce
    have "drain_frames cfg ?dm (modbus_frame h1 15 (data ?wr) @ modbus_frame h2 1 (data ?rd)) m = ([w1, w2], [], False, m2)"
      using assms w1 w2 ans n by (intro drain_two) (simp_all add: write_coils_def read_request_def)
    moreover have "is_exception w1 \<or> w2 = modbus_frame h2 1 (of_nat (ceil_div (length bs) 8) # packBits bs)"
      using in_memory_store.memory.coils_read_back_frames [OF assms(1,4,9,10) w1,
          where h' = "h2 \<lparr> mbap_length := length (data (read_request h2 READ_COILS a (length bs))) + 2 \<rparr>"] w2 fr
      by (cases "is_exception w1") simp_all
    ultimately show ?thesis unfolding write_coils_def read_request_def modbus_request.simps by blast
  qed
qed

section \<open>Witnesses: a site with a writable and a protected pump\<close>

definition pump_raw :: raw_config where
  "pump_raw = \<lparr> raw_siteId = ''s'', raw_unitId = None, raw_entries =
     [\<lparr> raw_tagId = ''pump'', raw_area = Coil, raw_address = 0, raw_dataType = BOOL, raw_scale = None, raw_wordOrder = None, raw_writable = Some True \<rparr>,
      \<lparr> raw_tagId = ''lock'', raw_area = Coil, raw_address = 1, raw_dataType = BOOL, raw_scale = None, raw_wordOrder = None, raw_writable = None \<rparr>] \<rparr>"

definition pump_entry :: "string \<Rightarrow> nat \<Rightarrow> bool \<Rightarrow> register_map_entry" where
  "pump_entry t x w = \<lparr> tagId = t, rm_area = Coil, rm_address = x, dataType = BOOL, scale = None, wordOrder = None, writable = w \<rparr>"

definition pump_map :: register_map where
  "pump_map = \<lparr> byStart = [(Coil, 0) \<mapsto> pump_entry ''pump'' 0 True, (Coil, 1) \<mapsto> pump_entry ''lock'' 1 False],
     byOccupied = [(Coil, 0) \<mapsto> pump_entry ''pump'' 0 True, (Coil, 1) \<mapsto> pump_entry ''lock'' 1 False],
     rm_siteId = ''s'', rm_unitId = 1, rm_entries = [pump_entry ''pump'' 0 True, pump_entry ''lock'' 1 False] \<rparr>"

lemma pump_site: "fromConfig pump_raw = Inr pump_map"
  by (simp add: fromConfig_def pump_raw_def pump_map_def pump_entry_def registerMapSchema_def registerMapEntrySchema_def
      new_register_map_def add_entry_def assertEntryConsistent_def isBitArea_def entry_width_def upt_rec)

lemma pump_map_ok: "register_map_ok pump_map"
  using pump_site by (auto simp: fromConfig_def split: option.splits dest: new_register_map_ok)

abbreviation pump_model :: "in_memory_tag_store \<Rightarrow> in_memory_tag_store tag_store_data_model" where
  "pump_model st \<equiv> \<lparr> br_map = pump_map, br_store = st \<rparr>"

definition pump_request :: "nat \<Rightarrow> modbus_request" where
  "pump_request x = \<lparr> header = demo_header 5, functionCode = 5, data = [0, of_nat x, 255, 0] \<rparr>"

lemmas pump_eval = answer_def writeRefused_def processRequest_def mb_dispatch_def writeSingleCoil_def requireBytes_def
  after_write_def bridge_writeCoils_def rangeIsFullyMapped_def apply_plan_def assertWritable_def entryStartingAt_def in_memory_port_def
  store_write_def pump_request_def readUIntBE_def subarray_def mbap_consts le_bytes_2 encodeResponse_def encodeMbapHeader_def
  encodeExceptionResponse_def toExceptionCode_def demo_header_def COIL_ON_def COIL_OFF_def pump_map_def pump_entry_def

lemma pump_answer:
  "answer demo_config (bridge_model in_memory_port) (pump_request 0) (pump_model Map.empty)
    = ([0, 5, 0, 0, 0, 6, 1, 5, 0, 0, 255, 0], pump_model [''pump'' \<mapsto> TagBoolean True])"
  "fst (answer demo_config (bridge_model in_memory_port) (pump_request 1) (pump_model st)) = [0, 5, 0, 0, 0, 3, 1, 0x85, 3]"
  by (simp_all add: pump_eval demo_config_def)

lemma pump_decode: "decodeRequest [0, 5, 0, 0, 0, 6, 1, 5, 0, 0, 255, 0] = Inr (Some (pump_request 0, 12))"
  by (simp add: decode_eval pump_request_def)

lemma pump_run:
  "server_run demo_config (bridge_model in_memory_port)
     [Connect (Some (show_ipv4 [127, 0, 0, 1])), Conn 0 (Data [0, 5, 0, 0, 0, 6, 1, 5, 0, 0, 255, 0]), Conn 0 Drain_Start,
      Conn 0 Take_Frame, Conn 0 Respond] (new_modbus_server (pump_model Map.empty))
   = Some \<lparr> sockets = [new_connection \<lparr> mc_pending := Some [], mc_written := [[0, 5, 0, 0, 0, 6, 1, 5, 0, 0, 255, 0]] \<rparr>],
            mb_rejectedConnections = 0, model = pump_model [''pump'' \<mapsto> TagBoolean True] \<rparr>"
proof -
  have "conn_run demo_config (bridge_model in_memory_port)
      [Data [0, 5, 0, 0, 0, 6, 1, 5, 0, 0, 255, 0], Drain_Start, Take_Frame, Respond] (new_connection, pump_model Map.empty)
    = Some (new_connection \<lparr> mc_pending := Some [], mc_written := [[0, 5, 0, 0, 0, 6, 1, 5, 0, 0, 255, 0]] \<rparr>,
        pump_model [''pump'' \<mapsto> TagBoolean True])"
    by (simp add: new_connection_def conn_data_def take_frame_def pump_decode pump_answer demo_bound)
  from server_run_single [OF this, of 0] show ?thesis
    using demo_admit [of demo_config "bridge_model in_memory_port" "pump_model Map.empty"]
    by (simp add: demo_config_def del: conn_event.simps server_event.simps)
qed

theorem modbus_actuates_only_writable_witness:
  "\<exists>srv evs. server_run demo_config (bridge_model in_memory_port) evs (new_modbus_server (pump_model Map.empty)) = Some srv
     \<and> br_store (model srv) ''pump'' = Some (TagBoolean True)
     \<and> store_writes in_memory_port pump_map Map.empty (br_store (model srv))"
proof -
  have "createModbusServerForSite pump_raw Map.empty = Inr (new_modbus_server (pump_model Map.empty))"
    by (simp add: createModbusServerForSite_def pump_site)
  from modbus_actuates_only_writable [OF this pump_run] pump_run show ?thesis by (fastforce simp: new_modbus_server_def)
qed


theorem modbus_write_read_back_witness:
  "\<exists>w1 w2 m'. drain_frames demo_config (bridge_model in_memory_port)
        (modbus_frame (demo_header 5) 15 (data (write_coils (demo_header 5) 0 [True]))
           @ modbus_frame (demo_header 6) 1 (data (read_request (demo_header 6) READ_COILS 0 (length [True])))) (pump_model Map.empty)
          = ([w1, w2], [], False, m')
      \<and> (is_exception w1 \<or> w2 = modbus_frame (demo_header 6) 1 (of_nat (ceil_div (length [True]) 8) # packBits [True]))"
proof -
  have "bridge_exact (pump_model Map.empty)"
    using pump_map_ok by (simp add: bridge_exact_def exact_map_def) (simp add: pump_map_def pump_entry_def)
  moreover have "header_ok (demo_header 5)" "header_ok (demo_header 6)" by (simp_all add: header_ok_def demo_header_def mbap_consts)
  moreover have "allowWrites demo_config" by (simp add: demo_config_def)
  ultimately show ?thesis
    using modbus_write_read_back [of "pump_model Map.empty" "demo_header 5" "demo_header 6" 0 demo_config "[7]" "[True]"] by simp
qed

definition two_pumps :: register_map where
  "two_pumps = \<lparr> byStart = [(Coil, 0) \<mapsto> pump_entry ''pump'' 0 True, (Coil, 1) \<mapsto> pump_entry ''valve'' 1 True],
     byOccupied = [(Coil, 0) \<mapsto> pump_entry ''pump'' 0 True, (Coil, 1) \<mapsto> pump_entry ''valve'' 1 True],
     rm_siteId = ''s'', rm_unitId = 1, rm_entries = [pump_entry ''pump'' 0 True, pump_entry ''valve'' 1 True] \<rparr>"

lemma no_rollback:
  "bridge_writeCoils flaky_port 0 [True, True] \<lparr> br_map = two_pumps, br_store = Map.empty \<rparr>
     = (Some OtherFailure, \<lparr> br_map = two_pumps, br_store = [''pump'' \<mapsto> TagBoolean True] \<rparr>)"
  by (simp add: bridge_writeCoils_def rangeIsFullyMapped_def apply_plan_def assertWritable_def entryStartingAt_def flaky_port_def
      in_memory_port_def store_write_def two_pumps_def pump_entry_def)

end
