(* ===== verification/Merkle.thy ===== *)
theory Merkle
  imports Prelude
begin

text \<open>
  The Merkle trees of the integrity pipeline (\<open>server/integrity/merkle.ts\<close>): construction, inclusion proofs, verification
  and the manager that keeps one tree per batch. SHA-256 with hexadecimal output is the parameter \<open>H\<close> on strings;
  \<open>hash\<close> and \<open>hashPair\<close> of the code are \<open>H\<close> of the data and of the concatenated hashes. What is shown: every leaf has a proof that
  verifies, and, when \<open>H\<close> does not collide on the strings that are hashed, a proof of the tree's height
  verifies only for the data that is in the tree at the position of the proof's path.
\<close>

section \<open>Trees\<close>

type_synonym hash_fun = "string \<Rightarrow> string"

datatype merkle_node =
    Leaf string string nat                     \<comment> \<open>hash, data, index\<close>
  | Empty_Node string
  | Inner string merkle_node merkle_node

fun node_hash :: "merkle_node \<Rightarrow> string" where
  "node_hash (Leaf h d i) = h"
| "node_hash (Empty_Node h) = h"
| "node_hash (Inner h l r) = h"

datatype proof_position = Left_Sibling | Right_Sibling

type_synonym proof_step = "string \<times> proof_position"

record merkle_proof =
  mp_leaf :: string
  mp_leafIndex :: nat
  mp_root :: string
  mp_steps :: "proof_step list"

record merkle_tree_result =
  mt_root :: string
  mt_tree :: merkle_node
  mt_leaves :: "string list"
  mt_depth :: nat

datatype merkle_error = EmptyData | LeafNotFound string nat | ArraysDiffer

definition EMPTY_HASH :: string where
  "EMPTY_HASH = replicate 64 CHR ''0''"

definition createEmptyNode :: merkle_node where
  "createEmptyNode = Empty_Node EMPTY_HASH"

definition hashPair :: "hash_fun \<Rightarrow> string \<Rightarrow> string \<Rightarrow> string" where
  "hashPair H l r = H (l @ r)"

fun calculateDepth :: "merkle_node \<Rightarrow> nat" where
  "calculateDepth (Inner h l r) = 1 + max (calculateDepth l) (calculateDepth r)"
| "calculateDepth n = 0"

fun pair_nodes :: "hash_fun \<Rightarrow> merkle_node list \<Rightarrow> merkle_node list" where
  "pair_nodes H [] = []"
| "pair_nodes H [l] = [Inner (hashPair H (node_hash l) (node_hash createEmptyNode)) l createEmptyNode]"
| "pair_nodes H (l # r # ns) = Inner (hashPair H (node_hash l) (node_hash r)) l r # pair_nodes H ns"

lemma length_pair_nodes: "length (pair_nodes H ns) = (length ns + 1) div 2"
  by (induction H ns rule: pair_nodes.induct) auto

text \<open>The recursion does not end on an empty list (\<open>None\<close>); \<open>buildTree\<close> never calls it so.\<close>

function buildTreeRecursive :: "hash_fun \<Rightarrow> merkle_node list \<Rightarrow> merkle_node option" where
  "buildTreeRecursive H ns =
     (if ns = [] then None else if length ns = 1 then Some (hd ns) else buildTreeRecursive H (pair_nodes H ns))"
  by pat_completeness auto
termination
proof (relation "measure (\<lambda>(H, ns). length ns)", goal_cases)
  case (2 H ns)
  then have "2 \<le> length ns" by (cases ns rule: list.exhaust) (auto simp: Suc_le_eq)
  then show ?case by (simp add: length_pair_nodes)
qed simp

declare buildTreeRecursive.simps [simp del]

definition leaf_nodes :: "hash_fun \<Rightarrow> string list \<Rightarrow> merkle_node list" where
  "leaf_nodes H ds = map (\<lambda>i. Leaf (H (ds ! i)) (ds ! i) i) [0..<length ds]"

definition buildTree :: "hash_fun \<Rightarrow> string list \<Rightarrow> merkle_error + merkle_tree_result" where
  "buildTree H ds =
     (if ds = [] then Inl EmptyData
      else (let tree = the (buildTreeRecursive H (leaf_nodes H ds))
            in Inr \<lparr> mt_root = node_hash tree, mt_tree = tree, mt_leaves = ds, mt_depth = calculateDepth tree \<rparr>))"

definition buildFromEventHashes :: "hash_fun \<Rightarrow> string list \<Rightarrow> merkle_error + merkle_tree_result" where
  "buildFromEventHashes H eventHashes = buildTree H eventHashes"

definition rootBytes32 :: "hash_fun \<Rightarrow> string list \<Rightarrow> string \<Rightarrow> merkle_error + string" where
  "rootBytes32 H eventHashes emptyFallbackHex =
     (case (if eventHashes \<noteq> [] then map_sum id mt_root (buildFromEventHashes H eventHashes) else Inr emptyFallbackHex) of
        Inl e \<Rightarrow> Inl e
      | Inr root \<Rightarrow> Inr (if take 2 root = ''0x'' then root else ''0x'' @ root))"

section \<open>Proofs\<close>

text \<open>The siblings from the root down, or \<open>None\<close> when the leaf is not there.\<close>

fun generateProofRecursive :: "merkle_node \<Rightarrow> string \<Rightarrow> nat \<Rightarrow> nat \<Rightarrow> proof_step list option" where
  "generateProofRecursive (Inner h l r) targetHash targetIndex currentIndex =
     (let leftSubtreeSize = 2 ^ calculateDepth l
      in if targetIndex < currentIndex + leftSubtreeSize
         then map_option (\<lambda>p. (node_hash r, Right_Sibling) # p) (generateProofRecursive l targetHash targetIndex currentIndex)
         else map_option (\<lambda>p. (node_hash l, Left_Sibling) # p)
                (generateProofRecursive r targetHash targetIndex (currentIndex + leftSubtreeSize)))"
| "generateProofRecursive n targetHash targetIndex currentIndex =
     (if node_hash n = targetHash \<and> currentIndex = targetIndex then Some [] else None)"

definition generateProof :: "hash_fun \<Rightarrow> merkle_node \<Rightarrow> string \<Rightarrow> nat \<Rightarrow> merkle_error + merkle_proof" where
  "generateProof H tree leafData leafIndex =
     (case generateProofRecursive tree (H leafData) leafIndex 0 of
        None \<Rightarrow> Inl (LeafNotFound leafData leafIndex)
      | Some p \<Rightarrow> Inr \<lparr> mp_leaf = leafData, mp_leafIndex = leafIndex, mp_root = node_hash tree, mp_steps = rev p \<rparr>)"

definition climb_step :: "hash_fun \<Rightarrow> string \<Rightarrow> proof_step \<Rightarrow> string" where
  "climb_step H cur st =
     (case st of (h, Left_Sibling) \<Rightarrow> hashPair H h cur | (h, Right_Sibling) \<Rightarrow> hashPair H cur h)"

lemma climb_step_simps [simp]:
  "climb_step H cur (h, Left_Sibling) = hashPair H h cur"
  "climb_step H cur (h, Right_Sibling) = hashPair H cur h"
  by (simp_all add: climb_step_def)

text \<open>The loop also halves \<open>currentIndex\<close>, which nothing reads.\<close>

definition verifyProof :: "hash_fun \<Rightarrow> merkle_proof \<Rightarrow> bool" where
  "verifyProof H p \<longleftrightarrow> foldl (climb_step H) (H (mp_leaf p)) (mp_steps p) = mp_root p"

definition verifyBatchProofs :: "hash_fun \<Rightarrow> merkle_proof list \<Rightarrow> bool" where
  "verifyBatchProofs H ps =
     (case ps of [] \<Rightarrow> False | p # _ \<Rightarrow> list_all (\<lambda>q. mp_root q = mp_root p \<and> verifyProof H q) ps)"

fun generate_all :: "hash_fun \<Rightarrow> merkle_node \<Rightarrow> (string \<times> nat) list \<Rightarrow> merkle_error + merkle_proof list" where
  "generate_all H tree [] = Inr []"
| "generate_all H tree ((d, i) # rest) =
     (case generateProof H tree d i of
        Inl e \<Rightarrow> Inl e
      | Inr p \<Rightarrow> (case generate_all H tree rest of Inl e \<Rightarrow> Inl e | Inr ps \<Rightarrow> Inr (p # ps)))"

definition generateBatchProof :: "hash_fun \<Rightarrow> merkle_node \<Rightarrow> string list \<Rightarrow> nat list \<Rightarrow> merkle_error + merkle_proof list" where
  "generateBatchProof H tree leafData leafIndices =
     (if length leafData \<noteq> length leafIndices then Inl ArraysDiffer else generate_all H tree (zip leafData leafIndices))"

section \<open>The manager\<close>

type_synonym tree_manager = "string \<rightharpoonup> merkle_tree_result"

definition createTreeForBatch :: "hash_fun \<Rightarrow> string \<Rightarrow> string list \<Rightarrow> tree_manager \<Rightarrow> (merkle_error + merkle_tree_result) \<times> tree_manager" where
  "createTreeForBatch H batchId eventHashes trees =
     (case buildFromEventHashes H eventHashes of
        Inl e \<Rightarrow> (Inl e, trees)
      | Inr t \<Rightarrow> (Inr t, trees(batchId \<mapsto> t)))"

definition getTree :: "string \<Rightarrow> tree_manager \<Rightarrow> merkle_tree_result option" where
  "getTree batchId trees = trees batchId"

definition generateEventProof :: "hash_fun \<Rightarrow> string \<Rightarrow> string \<Rightarrow> nat \<Rightarrow> tree_manager \<Rightarrow> merkle_proof option" where
  "generateEventProof H batchId eventHash eventIndex trees =
     (case trees batchId of
        None \<Rightarrow> None
      | Some t \<Rightarrow> (case generateProof H (mt_tree t) eventHash eventIndex of Inl _ \<Rightarrow> None | Inr p \<Rightarrow> Some p))"

definition removeTree :: "string \<Rightarrow> tree_manager \<Rightarrow> bool \<times> tree_manager" where
  "removeTree batchId trees = (trees batchId \<noteq> None, trees(batchId := None))"

definition clear_trees :: "tree_manager \<Rightarrow> tree_manager" where
  "clear_trees trees = Map.empty"

section \<open>Shape of the trees\<close>

text \<open>\<open>rep H k s n ds\<close>: the node at height \<open>k\<close> over the leaves \<open>ds\<close>, the first of which has index \<open>s\<close>.\<close>

fun rep :: "hash_fun \<Rightarrow> nat \<Rightarrow> nat \<Rightarrow> merkle_node \<Rightarrow> string list \<Rightarrow> bool" where
  "rep H 0 s n ds \<longleftrightarrow> (\<exists>d. ds = [d] \<and> n = Leaf (H d) d s)"
| "rep H (Suc k) s n ds \<longleftrightarrow>
     (\<exists>l r. n = Inner (hashPair H (node_hash l) (node_hash r)) l r \<and> ds \<noteq> [] \<and> rep H k s l (take (2 ^ k) ds)
        \<and> (if length ds \<le> 2 ^ k then r = createEmptyNode else rep H k (s + 2 ^ k) r (drop (2 ^ k) ds)))"

fun level :: "hash_fun \<Rightarrow> nat \<Rightarrow> nat \<Rightarrow> merkle_node list \<Rightarrow> string list \<Rightarrow> bool" where
  "level H k s [] ds \<longleftrightarrow> ds = []"
| "level H k s (n # ns) ds \<longleftrightarrow> ds \<noteq> [] \<and> rep H k s n (take (2 ^ k) ds) \<and> level H k (s + 2 ^ k) ns (drop (2 ^ k) ds)"

lemma rep_length: "rep H k s n ds \<Longrightarrow> length ds \<le> 2 ^ k \<and> ds \<noteq> []"
proof (induction k arbitrary: s n ds)
  case (Suc k)
  then show ?case by (force split: if_splits)
qed auto

lemma level_pair: "level H k s ns ds \<Longrightarrow> level H (Suc k) s (pair_nodes H ns) ds"
proof (induction H ns arbitrary: s ds rule: pair_nodes.induct)
  case (2 H l)
  then have "ds \<noteq> []" "rep H k s l (take (2 ^ k) ds)" "drop (2 ^ k) ds = []" by auto
  then show ?case by (simp add: min_def)
next
  case (3 H l r ns)
  then have l: "ds \<noteq> []" "rep H k s l (take (2 ^ k) ds)" "drop (2 ^ k) ds \<noteq> []"
    "rep H k (s + 2 ^ k) r (take (2 ^ k) (drop (2 ^ k) ds))" "level H k (s + 2 ^ k + 2 ^ k) ns (drop (2 ^ k) (drop (2 ^ k) ds))"
    by auto
  have e: "take (2 ^ Suc k) ds = take (2 ^ k) ds @ take (2 ^ k) (drop (2 ^ k) ds)" "drop (2 ^ Suc k) ds = drop (2 ^ k) (drop (2 ^ k) ds)"
    by (simp_all add: take_add [symmetric] mult_2)
  have d: "drop (2 ^ k) (take (2 ^ Suc k) ds) = take (2 ^ k) (drop (2 ^ k) ds)" "take (2 ^ k) (take (2 ^ Suc k) ds) = take (2 ^ k) ds"
    "\<not> length (take (2 ^ Suc k) ds) \<le> 2 ^ k" "take (2 ^ Suc k) ds \<noteq> []"
    using l(1,3) by (simp_all add: drop_take not_le)
  have "rep H (Suc k) s (Inner (hashPair H (node_hash l) (node_hash r)) l r) (take (2 ^ Suc k) ds)"
    unfolding rep.simps d(1,2) using l d(3,4) by auto
  with 3 l show ?case by (simp add: e mult_2 add.assoc)
qed simp

lemma build_rep:
  assumes "level H k 0 ns ds" "ns \<noteq> []"
  shows "\<exists>K n. buildTreeRecursive H ns = Some n \<and> rep H K 0 n ds"
  using assms
proof (induction H ns arbitrary: k rule: buildTreeRecursive.induct)
  case (1 H ns)
  show ?case
  proof (cases "length ns = 1")
    case True
    then obtain n where n: "ns = [n]" by (auto simp: length_Suc_conv)
    with 1(2) have "rep H k 0 n (take (2 ^ k) ds)" "drop (2 ^ k) ds = []" by auto
    then show ?thesis using n by (auto simp: buildTreeRecursive.simps)
  next
    case False
    have "pair_nodes H ns \<noteq> []" using 1(3) by (cases "(H, ns)" rule: pair_nodes.cases) auto
    with 1(1) [OF 1(3) False level_pair [OF 1(2)]] False 1(3) show ?thesis by (subst buildTreeRecursive.simps) auto
  qed
qed

lemma level_leaves: "level H 0 s (map (\<lambda>i. Leaf (H (ds ! i)) (ds ! i) (s + i)) [0..<length ds]) ds"
proof (induction ds arbitrary: s)
  case (Cons d ds)
  have "map (\<lambda>i. Leaf (H ((d # ds) ! i)) ((d # ds) ! i) (s + i)) [0..<length (d # ds)]
    = Leaf (H d) d s # map (\<lambda>i. Leaf (H (ds ! i)) (ds ! i) (s + 1 + i)) [0..<length ds]"
    by (simp add: upt_conv_Cons map_Suc_upt [symmetric] comp_def del: upt_Suc)
  with Cons [of "s + 1"] show ?case by simp
qed simp

lemma buildTree_rep:
  assumes "buildTree H ds = Inr res"
  shows "ds \<noteq> []" "\<exists>K. rep H K 0 (mt_tree res) ds" "mt_root res = node_hash (mt_tree res)" "mt_depth res = calculateDepth (mt_tree res)"
    "mt_leaves res = ds"
proof -
  show ds: "ds \<noteq> []" using assms by (auto simp: buildTree_def)
  have "leaf_nodes H ds \<noteq> []" using ds by (simp add: leaf_nodes_def)
  with build_rep [of H 0 "leaf_nodes H ds" ds] level_leaves [of H 0 ds] obtain K n
    where "buildTreeRecursive H (leaf_nodes H ds) = Some n" "rep H K 0 n ds" by (auto simp: leaf_nodes_def)
  with assms ds show "\<exists>K. rep H K 0 (mt_tree res) ds" "mt_root res = node_hash (mt_tree res)" "mt_depth res = calculateDepth (mt_tree res)"
    "mt_leaves res = ds"
    by (auto simp: buildTree_def)
qed

lemma rep_depth: "rep H k s n ds \<Longrightarrow> calculateDepth n = k"
proof (induction k arbitrary: s n ds)
  case (Suc k)
  then obtain l r where n: "n = Inner (hashPair H (node_hash l) (node_hash r)) l r" "rep H k s l (take (2 ^ k) ds)"
    "if length ds \<le> 2 ^ k then r = createEmptyNode else rep H k (s + 2 ^ k) r (drop (2 ^ k) ds)" by auto
  then have "calculateDepth l = k" "calculateDepth r \<le> k" using Suc.IH by (auto simp: createEmptyNode_def split: if_splits)
  with n show ?case by simp
qed auto

section \<open>Every leaf has a proof\<close>

text \<open>The position in the tree that the path of a proof, from the leaf up, leads to.\<close>

fun path_index :: "proof_step list \<Rightarrow> nat" where
  "path_index [] = 0"
| "path_index ((h, pos) # steps) = (case pos of Left_Sibling \<Rightarrow> 1 | Right_Sibling \<Rightarrow> 0) + 2 * path_index steps"

lemma path_index_snoc:
  "path_index (steps @ [(h, pos)]) = path_index steps + (case pos of Left_Sibling \<Rightarrow> 2 ^ length steps | Right_Sibling \<Rightarrow> 0)"
  by (induction steps rule: path_index.induct) (auto split: proof_position.split)

lemma path_index_lt: "path_index steps < 2 ^ length steps"
  by (induction steps rule: path_index.induct) (auto split: proof_position.split)

lemma generate_complete:
  "rep H k s n ds \<Longrightarrow> i < length ds \<Longrightarrow>
     \<exists>p. generateProofRecursive n (H (ds ! i)) (s + i) s = Some p \<and> foldl (climb_step H) (H (ds ! i)) (rev p) = node_hash n
       \<and> length p = k \<and> path_index (rev p) = i"
proof (induction k arbitrary: s n ds i)
  case (Suc k)
  then obtain l r where n: "n = Inner (hashPair H (node_hash l) (node_hash r)) l r" "rep H k s l (take (2 ^ k) ds)"
    "if length ds \<le> 2 ^ k then r = createEmptyNode else rep H k (s + 2 ^ k) r (drop (2 ^ k) ds)" by auto
  have d: "calculateDepth l = k" using rep_depth [OF n(2)] .
  show ?case
  proof (cases "i < 2 ^ k")
    case True
    with Suc.IH [OF n(2), of i] Suc.prems(2) obtain p where
      "generateProofRecursive l (H (ds ! i)) (s + i) s = Some p" "foldl (climb_step H) (H (ds ! i)) (rev p) = node_hash l"
      "length p = k" "path_index (rev p) = i" by auto
    with True n(1) d show ?thesis by (simp add: path_index_snoc)
  next
    case False
    then have i: "i - 2 ^ k < length (drop (2 ^ k) ds)" "\<not> length ds \<le> 2 ^ k" using Suc.prems(2) by auto
    have nth: "drop (2 ^ k) ds ! (i - 2 ^ k) = ds ! i" "s + 2 ^ k + (i - 2 ^ k) = s + i" using False i by auto
    have "rep H k (s + 2 ^ k) r (drop (2 ^ k) ds)" using n(3) i(2) by simp
    from Suc.IH [OF this i(1)] obtain p where
      "generateProofRecursive r (H (ds ! i)) (s + i) (s + 2 ^ k) = Some p" "foldl (climb_step H) (H (ds ! i)) (rev p) = node_hash r"
      "length p = k" "path_index (rev p) = i - 2 ^ k" unfolding nth by blast
    with False n(1) d show ?thesis by (simp add: path_index_snoc)
  qed
qed auto

text \<open>Every event of a batch has an inclusion proof: after \<open>createTreeForBatch\<close> the manager generates, for each index
  of the batch, a proof that verifies against the batch's root, has the tree's height, and whose path is the index.
\<close>

theorem merkle_proofs_complete:
  assumes "createTreeForBatch H b ds trees = (Inr res, trees')" "i < length ds"
  shows "\<exists>p. generateEventProof H b (ds ! i) i trees' = Some p \<and> verifyProof H p \<and> mp_root p = mt_root res
    \<and> mp_leaf p = ds ! i \<and> length (mp_steps p) = mt_depth res \<and> path_index (mp_steps p) = i"
proof -
  have b: "buildTree H ds = Inr res" "trees' = trees(b \<mapsto> res)"
    using assms(1) by (auto simp: createTreeForBatch_def buildFromEventHashes_def split: sum.splits)
  note t = buildTree_rep [OF b(1)]
  obtain K where K: "rep H K 0 (mt_tree res) ds" using t(2) by blast
  from generate_complete [OF K assms(2)] obtain p where
    "generateProofRecursive (mt_tree res) (H (ds ! i)) i 0 = Some p" "foldl (climb_step H) (H (ds ! i)) (rev p) = node_hash (mt_tree res)"
    "length p = K" "path_index (rev p) = i" by auto
  then show ?thesis using b(2) t(3,4) rep_depth [OF K] by (simp add: generateEventProof_def generateProof_def verifyProof_def)
qed

section \<open>A proof binds its leaf\<close>

text \<open>The strings that are hashed when the tree is built and when the proof is checked.\<close>

fun tree_strings :: "merkle_node \<Rightarrow> string set" where
  "tree_strings (Leaf h d i) = {d}"
| "tree_strings (Empty_Node h) = {}"
| "tree_strings (Inner h l r) = insert (node_hash l @ node_hash r) (tree_strings l \<union> tree_strings r)"

fun climb_strings :: "hash_fun \<Rightarrow> string \<Rightarrow> proof_step list \<Rightarrow> string set" where
  "climb_strings H cur [] = {}"
| "climb_strings H cur ((h, pos) # steps) =
     insert (case pos of Left_Sibling \<Rightarrow> h @ cur | Right_Sibling \<Rightarrow> cur @ h) (climb_strings H (climb_step H cur (h, pos)) steps)"

lemma climb_strings_snoc:
  "climb_strings H cur (steps @ [(h, pos)]) = insert
     (case pos of Left_Sibling \<Rightarrow> h @ foldl (climb_step H) cur steps | Right_Sibling \<Rightarrow> foldl (climb_step H) cur steps @ h)
     (climb_strings H cur steps)"
  by (induction H cur steps rule: climb_strings.induct) (auto split: proof_position.split)

text \<open>No two of the strings have the same hash, hashes have 64 characters, and none is the padding hash.\<close>

definition collision_free :: "hash_fun \<Rightarrow> string set \<Rightarrow> bool" where
  "collision_free H S \<longleftrightarrow> inj_on H S \<and> (\<forall>x\<in>S. length (H x) = 64 \<and> H x \<noteq> EMPTY_HASH)"

lemma collision_free_subset: "collision_free H S \<Longrightarrow> T \<subseteq> S \<Longrightarrow> collision_free H T"
  unfolding collision_free_def by (meson inj_on_subset subsetD)

lemma hash_length: "collision_free H S \<Longrightarrow> T \<subseteq> S \<Longrightarrow> h \<in> H ` T \<Longrightarrow> length h = 64 \<and> h \<noteq> EMPTY_HASH"
  by (metis collision_free_def imageE subsetD)

definition proof_strings :: "hash_fun \<Rightarrow> merkle_proof \<Rightarrow> string set" where
  "proof_strings H p = insert (mp_leaf p) (climb_strings H (H (mp_leaf p)) (mp_steps p))"

lemma climb_in_image: "foldl (climb_step H) (H d) steps \<in> H ` insert d (climb_strings H (H d) steps)"
proof (cases steps rule: rev_cases)
  case (snoc ys st)
  obtain h pos where "st = (h, pos)" by (cases st)
  with snoc show ?thesis by (cases pos) (simp_all add: climb_strings_snoc hashPair_def)
qed simp

lemma rep_hash: "rep H k s n ds \<Longrightarrow> node_hash n \<in> H ` tree_strings n"
  by (cases k) (auto simp: hashPair_def)

lemma climb_binds:
  assumes "rep H k s n ds" "length steps = k" "foldl (climb_step H) (H d) steps = node_hash n"
    and "collision_free H (insert d (climb_strings H (H d) steps) \<union> tree_strings n)"
  shows "path_index steps < length ds \<and> ds ! path_index steps = d"
  using assms
proof (induction k arbitrary: s n ds steps)
  case 0
  then obtain e where e: "ds = [e]" "n = Leaf (H e) e s" "steps = []" by auto
  have "inj_on H (insert d (climb_strings H (H d) steps) \<union> tree_strings n)" using 0(4) by (simp only: collision_free_def)
  moreover have "H d = H e" using 0(3) e by simp
  ultimately have "d = e" by (rule inj_onD) (simp_all add: e)
  with e show ?case by simp
next
  case (Suc k)
  then obtain l r where n: "n = Inner (hashPair H (node_hash l) (node_hash r)) l r" "rep H k s l (take (2 ^ k) ds)"
    "if length ds \<le> 2 ^ k then r = createEmptyNode else rep H k (s + 2 ^ k) r (drop (2 ^ k) ds)" by auto
  obtain ys h pos where ys: "steps = ys @ [(h, pos)]" "length ys = k" using Suc.prems(2) by (metis length_Suc_conv_rev surj_pair)
  let ?cur = "foldl (climb_step H) (H d) ys"
  let ?S = "insert d (climb_strings H (H d) steps) \<union> tree_strings n"
  have sub: "insert d (climb_strings H (H d) ys) \<union> (tree_strings l \<union> tree_strings r) \<subseteq> ?S"
    using n(1) ys(1) by (auto simp: climb_strings_snoc)
  have cf: "collision_free H T" if "T \<subseteq> ?S" for T using collision_free_subset [OF Suc.prems(4) that] .
  have cur: "length ?cur = 64" "?cur \<noteq> EMPTY_HASH"
    using hash_length [OF Suc.prems(4) _ climb_in_image [of H d ys]] sub by blast+
  have lens: "length (node_hash l) = 64" using hash_length [OF Suc.prems(4) _ rep_hash [OF n(2)]] sub by blast
  have eq: "(case pos of Left_Sibling \<Rightarrow> h @ ?cur | Right_Sibling \<Rightarrow> ?cur @ h) = node_hash l @ node_hash r"
  proof -
    have same: "H (case pos of Left_Sibling \<Rightarrow> h @ ?cur | Right_Sibling \<Rightarrow> ?cur @ h) = H (node_hash l @ node_hash r)"
      using Suc.prems(3) n(1) ys(1) by (cases pos) (simp_all add: hashPair_def)
    have mem: "(case pos of Left_Sibling \<Rightarrow> h @ ?cur | Right_Sibling \<Rightarrow> ?cur @ h) \<in> ?S" "node_hash l @ node_hash r \<in> ?S"
      using n(1) ys(1) by (auto simp: climb_strings_snoc)
    have "inj_on H ?S" using Suc.prems(4) by (simp only: collision_free_def)
    from this same mem show ?thesis by (rule inj_onD)
  qed
  show ?case
  proof (cases pos)
    case Right_Sibling
    then have "?cur = node_hash l" using eq cur lens by simp
    from Suc.IH [OF n(2) ys(2) this cf] sub have "path_index ys < length (take (2 ^ k) ds) \<and> take (2 ^ k) ds ! path_index ys = d" by blast
    then show ?thesis using Right_Sibling ys(1) by (auto simp: path_index_snoc)
  next
    case Left_Sibling
    have r: "length (node_hash r) = 64"
    proof (cases "length ds \<le> 2 ^ k")
      case True
      then show ?thesis using n(3) by (simp add: createEmptyNode_def EMPTY_HASH_def)
    next
      case False
      then have "rep H k (s + 2 ^ k) r (drop (2 ^ k) ds)" using n(3) by simp
      from hash_length [OF Suc.prems(4) _ rep_hash [OF this]] sub show ?thesis by blast
    qed
    then have c: "?cur = node_hash r" using Left_Sibling eq cur(1) by simp
    then have "\<not> length ds \<le> 2 ^ k" using n(3) cur(2) by (auto simp: createEmptyNode_def)
    with n(3) have "rep H k (s + 2 ^ k) r (drop (2 ^ k) ds)" by simp
    from Suc.IH [OF this ys(2) c cf] sub have "path_index ys < length (drop (2 ^ k) ds) \<and> drop (2 ^ k) ds ! path_index ys = d" by blast
    then show ?thesis using Left_Sibling ys by (auto simp: path_index_snoc add.commute)
  qed
qed

text \<open>C25: A proof of the tree's height that verifies against a batch's root proves that its leaf is the event of the batch at the
  position of the proof's path, provided the hash does not collide on the strings hashed for the tree and the proof
  and hits neither another length nor the padding value there.
\<close>

theorem merkle_proof_binds:
  assumes "buildTree H ds = Inr res" "verifyProof H p" "mp_root p = mt_root res" "length (mp_steps p) = mt_depth res"
    and "collision_free H (proof_strings H p \<union> tree_strings (mt_tree res))"
  shows "path_index (mp_steps p) < length ds \<and> mp_leaf p = ds ! path_index (mp_steps p)"
proof -
  note t = buildTree_rep [OF assms(1)]
  obtain K where K: "rep H K 0 (mt_tree res) ds" using t(2) by blast
  have "length (mp_steps p) = K" "foldl (climb_step H) (H (mp_leaf p)) (mp_steps p) = node_hash (mt_tree res)"
    using assms(2-4) t(3,4) rep_depth [OF K] by (auto simp: verifyProof_def)
  then show ?thesis using climb_binds [OF K] assms(5) by (auto simp: proof_strings_def)
qed

text \<open>A hash for the witnesses, free of collisions on a small tree.\<close>

definition demo_hash :: hash_fun where
  "demo_hash x = (if length x = 128 then replicate 64 CHR ''p'' else take 64 (x @ replicate 64 CHR ''-''))"

lemma demo_hash_length: "length (demo_hash x) = 64"
  by (simp add: demo_hash_def min_def)

lemma demo_hash_pair: "length x = 128 \<Longrightarrow> demo_hash x ! 0 = CHR ''p''"
  by (simp add: demo_hash_def)

lemma demo_hash_nth: "length x < 64 \<Longrightarrow> i < length x \<Longrightarrow> demo_hash x ! i = x ! i"
  by (simp add: demo_hash_def nth_append)

theorem merkle_proofs_complete_witness:
  "\<exists>res trees' p. createTreeForBatch demo_hash ''b'' [''e0'', ''e1'', ''e2''] Map.empty = (Inr res, trees')
     \<and> generateEventProof demo_hash ''b'' ''e2'' 2 trees' = Some p \<and> verifyProof demo_hash p"
proof -
  obtain res where "createTreeForBatch demo_hash ''b'' [''e0'', ''e1'', ''e2''] Map.empty = (Inr res, [''b'' \<mapsto> res])"
    by (simp add: createTreeForBatch_def buildFromEventHashes_def buildTree_def Let_def)
  with merkle_proofs_complete [OF this, of 2] show ?thesis by auto
qed

theorem merkle_proof_binds_witness:
  "\<exists>res p. buildTree demo_hash [''e0'', ''e1''] = Inr res \<and> verifyProof demo_hash p \<and> mp_root p = mt_root res
     \<and> path_index (mp_steps p) = 1 \<and> mp_leaf p = [''e0'', ''e1''] ! 1"
proof -
  let ?l = "Leaf (demo_hash ''e0'') ''e0'' 0" and ?r = "Leaf (demo_hash ''e1'') ''e1'' 1"
  let ?s = "demo_hash ''e0'' @ demo_hash ''e1''"
  let ?t = "Inner (demo_hash ?s) ?l ?r"
  let ?p = "\<lparr> mp_leaf = ''e1'', mp_leafIndex = 1, mp_root = demo_hash ?s, mp_steps = [(demo_hash ''e0'', Left_Sibling)] \<rparr>"
  have "buildTreeRecursive demo_hash [?l, ?r] = Some ?t"
    by (simp add: buildTreeRecursive.simps [of _ "[_, _]"] buildTreeRecursive.simps [of _ "[_]"] hashPair_def)
  then have b: "buildTree demo_hash [''e0'', ''e1''] = Inr \<lparr> mt_root = demo_hash ?s, mt_tree = ?t, mt_leaves = [''e0'', ''e1''], mt_depth = 1 \<rparr>"
    by (simp add: buildTree_def leaf_nodes_def upt_rec)
  have v: "verifyProof demo_hash ?p" by (simp add: verifyProof_def hashPair_def)
  have at: "demo_hash ''e0'' ! 1 = CHR ''0''" "demo_hash ''e1'' ! 1 = CHR ''1''" "demo_hash ''e0'' ! 0 = CHR ''e''" "demo_hash ''e1'' ! 0 = CHR ''e''"
    by (simp_all add: demo_hash_nth)
  have s: "demo_hash ?s ! 0 = CHR ''p''" by (rule demo_hash_pair) (simp add: demo_hash_length)
  have z: "EMPTY_HASH ! 0 = CHR ''0''" by (simp add: EMPTY_HASH_def)
  have ne: "u \<noteq> v" if "u ! i \<noteq> v ! i" for u v :: string and i using that by auto
  have "demo_hash ''e0'' \<noteq> demo_hash ''e1''" by (rule ne [of _ 1]) (use at(1,2) in simp)
  moreover have "demo_hash ''e0'' \<noteq> demo_hash ?s" "demo_hash ''e1'' \<noteq> demo_hash ?s" by (rule ne [of _ 0], simp add: at s)+
  ultimately have "inj_on demo_hash {''e0'', ''e1'', ?s}" unfolding inj_on_def by (metis insertE singletonD)
  moreover have "EMPTY_HASH \<noteq> demo_hash ''e0''" "EMPTY_HASH \<noteq> demo_hash ''e1''" "EMPTY_HASH \<noteq> demo_hash ?s"
    by (rule ne [of _ 0], simp add: at s z)+
  then have "\<forall>x\<in>{''e0'', ''e1'', ?s}. length (demo_hash x) = 64 \<and> demo_hash x \<noteq> EMPTY_HASH"
    unfolding ball_simps demo_hash_length by simp
  moreover have "proof_strings demo_hash ?p \<union> tree_strings ?t = {''e0'', ''e1'', ?s}" by (auto simp: proof_strings_def)
  ultimately have "collision_free demo_hash (proof_strings demo_hash ?p \<union> tree_strings ?t)"
    unfolding collision_free_def by (simp only:)
  with merkle_proof_binds [OF b v] b v show ?thesis by auto
qed

section \<open>What a proof does not bind\<close>

text \<open>The claimed index takes no part in the check, and without the height an inner node passes as a leaf.\<close>

lemma leaf_index_not_checked: "verifyProof H (p \<lparr> mp_leafIndex := j \<rparr>) = verifyProof H p"
  by (simp add: verifyProof_def)

lemma inner_node_verifies:
  "verifyProof H \<lparr> mp_leaf = node_hash l @ node_hash r, mp_leafIndex = 0,
     mp_root = node_hash (Inner (hashPair H (node_hash l) (node_hash r)) l r), mp_steps = [] \<rparr>"
  by (simp add: verifyProof_def hashPair_def)

end
