(* ===== verification/Event_Batcher.thy ===== *)
theory Event_Batcher
  imports Merkle "HOL-Library.Multiset"
begin

text \<open>
  The event batcher (\<open>server/kernel/event-batcher.ts\<close>): the queue with its thresholds and back-pressure, batches, and the
  batcher's own Merkle routines, which duplicate the last node of an odd level. Creating a batch awaits, so flushes run
  interleaved with new events; \<open>batcher_step\<close> performs one event of that machine. Emitting a batch runs the listeners, which may
  call back and may throw; the call and its return are two steps. The hash \<open>H\<close>, the JSON size of the queue and
  the outcome of creating a batch (identifier, time, success of the compression) are parameters. Averages, latencies and
  logging are not modelled.
\<close>

section \<open>Events and hashes\<close>

record kernel_event =
  timestamp :: string
  source_id :: string
  event_type :: string
  payload_hash :: string
  sequence_number :: int

text \<open>The decimal digits of a natural number, most significant first.\<close>

fun show_nat :: "nat \<Rightarrow> string" where
  "show_nat n = (if n < 10 then [char_of (48 + n)] else show_nat (n div 10) @ [char_of (48 + n mod 10)])"

declare show_nat.simps [simp del]

text \<open>\<open>EventSchema.parse\<close>; \<open>datetime\<close> is Zod's check of the timestamp.\<close>

definition EventSchema :: "(string \<Rightarrow> bool) \<Rightarrow> kernel_event \<Rightarrow> bool" where
  "EventSchema datetime e \<longleftrightarrow> datetime (timestamp e) \<and> source_id e \<noteq> [] \<and> event_type e \<noteq> [] \<and> payload_hash e \<noteq> []
     \<and> 0 \<le> sequence_number e"

definition serialized :: "kernel_event \<Rightarrow> string" where
  "serialized e = source_id e @ '':'' @ timestamp e @ '':'' @ event_type e @ '':'' @ payload_hash e @ '':''
     @ show_nat (nat (sequence_number e))"

definition hashEvent :: "hash_fun \<Rightarrow> kernel_event \<Rightarrow> string" where
  "hashEvent H e = H (serialized e)"

text \<open>\<open>hashes[i + 1] || hashes[i]\<close>: an absent or empty right neighbour is replaced by the left one.\<close>

definition right_or_left :: "string \<Rightarrow> string \<Rightarrow> string" where
  "right_or_left l r = (if r = [] then l else r)"

fun next_level :: "hash_fun \<Rightarrow> string list \<Rightarrow> string list" where
  "next_level H [] = []"
| "next_level H [l] = [H (l @ l)]"
| "next_level H (l # r # hs) = H (l @ right_or_left l r) # next_level H hs"

lemma length_next_level: "length (next_level H hs) = (length hs + 1) div 2"
  by (induction H hs rule: next_level.induct) auto

function buildMerkleTree :: "hash_fun \<Rightarrow> string list \<Rightarrow> string" where
  "buildMerkleTree H hs =
     (if hs = [] then H [] else if length hs = 1 then hd hs else buildMerkleTree H (next_level H hs))"
  by pat_completeness auto
termination
proof (relation "measure (\<lambda>(H, hs). length hs)", goal_cases)
  case (2 H hs)
  then have "2 \<le> length hs" by (cases hs rule: list.exhaust) (auto simp: Suc_le_eq)
  then show ?case by (simp add: length_next_level)
qed simp

declare buildMerkleTree.simps [simp del]

definition calculateMerkleRoot :: "hash_fun \<Rightarrow> kernel_event list \<Rightarrow> string" where
  "calculateMerkleRoot H es = (if es = [] then H [] else buildMerkleTree H (map (hashEvent H) es))"

function proof_loop :: "hash_fun \<Rightarrow> string list \<Rightarrow> nat \<Rightarrow> string list" where
  "proof_loop H hs i =
     (if length hs > 1
      then (let siblingIndex = (if i mod 2 = 0 then i + 1 else i - 1);
                sibling = (if siblingIndex < length hs then hs ! siblingIndex else hs ! i)
            in sibling # proof_loop H (next_level H hs) (i div 2))
      else [])"
  by pat_completeness auto
termination
  by (relation "measure (\<lambda>(H, hs, i). length hs)") (auto simp: length_next_level)

declare proof_loop.simps [simp del]

definition generateMerkleProof :: "hash_fun \<Rightarrow> string list \<Rightarrow> nat \<Rightarrow> string list" where
  "generateMerkleProof H leaves targetIndex =
     (if leaves = [] \<or> targetIndex \<ge> length leaves then [] else if length leaves = 1 then [] else proof_loop H leaves targetIndex)"

fun fold_proof :: "hash_fun \<Rightarrow> string \<Rightarrow> nat \<Rightarrow> string list \<Rightarrow> string" where
  "fold_proof H h i [] = h"
| "fold_proof H h i (p # ps) = fold_proof H (if i mod 2 = 0 then H (h @ p) else H (p @ h)) (i div 2) ps"

definition verifyMerkleProof :: "hash_fun \<Rightarrow> string \<Rightarrow> int \<Rightarrow> string list \<Rightarrow> string \<Rightarrow> bool" where
  "verifyMerkleProof H targetHash targetIndex prf expectedRoot \<longleftrightarrow>
     \<not> (targetIndex < 0 \<or> targetIndex \<ge> 2 ^ length prf) \<and> fold_proof H targetHash (nat targetIndex) prf = expectedRoot"

section \<open>Batches and the queue\<close>

record event_batch =
  batch_id :: string
  events :: "kernel_event list"
  merkle_root :: string
  batch_timestamp :: string

record batcher_config =
  max_events_per_batch :: nat
  max_batch_size_bytes :: nat

record batcher =
  eventQueue :: "kernel_event list"
  flushTimer :: bool                  \<comment> \<open>a timer is running\<close>
  pendingFlush :: bool
  creating :: "kernel_event list list"       \<comment> \<open>flushes that await \<open>createBatch\<close>\<close>
  emitting :: "event_batch list"      \<comment> \<open>batches whose listeners are running\<close>
  emitted :: "event_batch list"       \<comment> \<open>the batches that all listeners took\<close>
  refused :: "event_batch list"       \<comment> \<open>the batches of which a listener threw\<close>
  total_events :: nat
  total_batches :: nat
  queue_depth :: nat
  events_dropped :: nat

definition new_batcher :: batcher where
  "new_batcher = \<lparr> eventQueue = [], flushTimer = False, pendingFlush = False, creating = [], emitting = [], emitted = [], refused = [],
     total_events = 0, total_batches = 0, queue_depth = 0, events_dropped = 0 \<rparr>"

definition createBatch :: "hash_fun \<Rightarrow> string \<Rightarrow> string \<Rightarrow> kernel_event list \<Rightarrow> event_batch" where
  "createBatch H batchId batchTimestamp es =
     \<lparr> batch_id = batchId, events = es, merkle_root = calculateMerkleRoot H es, batch_timestamp = batchTimestamp \<rparr>"

definition scheduleFlush :: "batcher \<Rightarrow> batcher" where
  "scheduleFlush b = b \<lparr> pendingFlush := True \<rparr>"

text \<open>The synchronous part of \<open>ingest\<close>; \<open>size\<close> is the length of the queue's JSON text.\<close>

definition ingest :: "(string \<Rightarrow> bool) \<Rightarrow> (kernel_event list \<Rightarrow> nat) \<Rightarrow> batcher_config \<Rightarrow> kernel_event \<Rightarrow> batcher \<Rightarrow> bool \<times> batcher" where
  "ingest datetime json_size cfg e b =
     (if \<not> EventSchema datetime e then (False, b)
      else if length (eventQueue b) \<ge> max_events_per_batch cfg * 2
      then (False, b \<lparr> events_dropped := events_dropped b + 1 \<rparr>)
      else
        (let q = eventQueue b @ [e];
             b = b \<lparr> eventQueue := q, queue_depth := length q, total_events := total_events b + 1 \<rparr>;
             b = (if length q = 1 then b \<lparr> flushTimer := True \<rparr> else b);
             b = (if length q \<ge> max_events_per_batch cfg then scheduleFlush b
                  else if json_size q \<ge> max_batch_size_bytes cfg then scheduleFlush b else b)
         in (True, b)))"

text \<open>The synchronous part of \<open>flushBatch\<close>, up to the await of \<open>createBatch\<close>, and what follows it.\<close>

definition flush_start :: "batcher \<Rightarrow> batcher" where
  "flush_start b =
     (if eventQueue b = [] then b
      else b \<lparr> eventQueue := [], queue_depth := 0, flushTimer := False, creating := creating b @ [eventQueue b] \<rparr>)"

definition requeue :: "kernel_event list \<Rightarrow> batcher \<Rightarrow> batcher" where
  "requeue es b = b \<lparr> eventQueue := es @ eventQueue b, queue_depth := length (es @ eventQueue b) \<rparr>"

definition flush_done :: "hash_fun \<Rightarrow> string \<Rightarrow> string \<Rightarrow> bool \<Rightarrow> kernel_event list \<Rightarrow> batcher \<Rightarrow> batcher" where
  "flush_done H batchId batchTimestamp ok es b =
     (if ok then b \<lparr> total_batches := total_batches b + 1, emitting := emitting b @ [createBatch H batchId batchTimestamp es] \<rparr>
      else requeue es b)"

text \<open>The end of \<open>this.emit("batch", batch)\<close>: a listener's exception is caught by the same handler, which re-queues the events.\<close>

definition emit_done :: "bool \<Rightarrow> event_batch \<Rightarrow> batcher \<Rightarrow> batcher" where
  "emit_done returned x b =
     (if returned then b \<lparr> emitted := emitted b @ [x] \<rparr> else requeue (events x) (b \<lparr> refused := refused b @ [x] \<rparr>))"

datatype batcher_event =
    Ingest kernel_event
  | Microtask                          \<comment> \<open>the scheduled flush runs\<close>
  | Timer_Fires
  | Manual_Flush                       \<comment> \<open>\<open>flush\<close>, once no flush is scheduled\<close>
  | Shutdown                           \<comment> \<open>\<open>shutdown\<close>, once no flush is scheduled\<close>
  | Batch_Created nat string string bool    \<comment> \<open>a pending \<open>createBatch\<close> resolves or throws\<close>
  | Batch_Emitted nat bool             \<comment> \<open>the listeners return, or one throws\<close>

fun batcher_step :: "hash_fun \<Rightarrow> (string \<Rightarrow> bool) \<Rightarrow> (kernel_event list \<Rightarrow> nat) \<Rightarrow> batcher_config \<Rightarrow> batcher_event \<Rightarrow> batcher \<Rightarrow> batcher" where
  "batcher_step H datetime json_size cfg (Ingest e) b = snd (ingest datetime json_size cfg e b)"
| "batcher_step H datetime json_size cfg Microtask b =
     (if pendingFlush b then flush_start (b \<lparr> pendingFlush := False \<rparr>) else b)"
| "batcher_step H datetime json_size cfg Timer_Fires b = (if flushTimer b then flush_start (b \<lparr> flushTimer := False \<rparr>) else b)"
| "batcher_step H datetime json_size cfg Manual_Flush b = (if pendingFlush b then b else flush_start b)"
| "batcher_step H datetime json_size cfg Shutdown b = (if pendingFlush b then b else flush_start (b \<lparr> flushTimer := False \<rparr>))"
| "batcher_step H datetime json_size cfg (Batch_Created i batchId ts ok) b =
     (if i < length (creating b)
      then flush_done H batchId ts ok (creating b ! i) (b \<lparr> creating := take i (creating b) @ drop (i + 1) (creating b) \<rparr>)
      else b)"
| "batcher_step H datetime json_size cfg (Batch_Emitted i returned) b =
     (if i < length (emitting b)
      then emit_done returned (emitting b ! i) (b \<lparr> emitting := take i (emitting b) @ drop (i + 1) (emitting b) \<rparr>)
      else b)"

definition generateProof_batch :: "hash_fun \<Rightarrow> event_batch \<Rightarrow> int \<Rightarrow> string list option" where
  "generateProof_batch H b i =
     (if i < 0 \<or> i \<ge> int (length (events b)) then None else Some (generateMerkleProof H (map (hashEvent H) (events b)) (nat i)))"

definition verifyProof_event :: "hash_fun \<Rightarrow> kernel_event \<Rightarrow> int \<Rightarrow> string list \<Rightarrow> string \<Rightarrow> bool" where
  "verifyProof_event H e i prf root = verifyMerkleProof H (hashEvent H e) i prf root"

section \<open>Proofs of a batch verify\<close>

lemma nth_next_level:
  assumes "i < length hs" "\<forall>h\<in>set hs. h \<noteq> []"
  shows "next_level H hs ! (i div 2) = H (hs ! (2 * (i div 2)) @ (if 2 * (i div 2) + 1 < length hs then hs ! (2 * (i div 2) + 1) else hs ! (2 * (i div 2))))"
  using assms
proof (induction H hs arbitrary: i rule: next_level.induct)
  case (3 H l r hs)
  show ?case
  proof (cases "i < 2")
    case True
    then show ?thesis using 3(3) by (simp add: right_or_left_def)
  next
    case False
    then obtain j where "i = j + 2" by (metis add.commute le_Suc_ex not_less)
    with 3(1) [of j] 3(2,3) show ?thesis by simp
  qed
qed auto

lemma next_level_nonempty: "\<forall>x. H x \<noteq> [] \<Longrightarrow> h \<in> set (next_level H hs) \<Longrightarrow> h \<noteq> []"
  by (induction H hs rule: next_level.induct) (auto, metis)

lemma proof_loop_verifies:
  assumes "\<forall>x. H x \<noteq> []" "i < length hs" "\<forall>h\<in>set hs. h \<noteq> []"
  shows "fold_proof H (hs ! i) i (proof_loop H hs i) = buildMerkleTree H hs \<and> i < 2 ^ length (proof_loop H hs i)"
  using assms
proof (induction H hs i rule: proof_loop.induct)
  case (1 H hs i)
  show ?case
  proof (cases "length hs > 1")
    case False
    then have "length hs = 1" "i = 0" using 1(3) by auto
    then show ?thesis using 1(3) by (cases hs) (simp_all add: proof_loop.simps buildMerkleTree.simps)
  next
    case True
    let ?s = "if i mod 2 = 0 then i + 1 else i - 1"
    let ?sib = "if ?s < length hs then hs ! ?s else hs ! i"
    have IH: "fold_proof H (next_level H hs ! (i div 2)) (i div 2) (proof_loop H (next_level H hs) (i div 2)) = buildMerkleTree H (next_level H hs)
        \<and> i div 2 < 2 ^ length (proof_loop H (next_level H hs) (i div 2))"
      using 1(1) [OF True refl refl 1(2)] 1(2,3) next_level_nonempty [of H _ hs] by (auto simp: length_next_level)
    have "next_level H hs ! (i div 2) = (if i mod 2 = 0 then H (hs ! i @ ?sib) else H (?sib @ hs ! i))"
    proof (cases "i mod 2 = 0")
      case True
      then have "2 * (i div 2) = i" by auto
      with True show ?thesis using nth_next_level [OF 1(3,4), of H] by simp
    next
      case False
      then have "2 * (i div 2) = i - 1" "2 * (i div 2) + 1 = i" "i - 1 < length hs" using 1(3) by (auto simp: minus_mod_eq_mult_div [symmetric])
      with False 1(3) show ?thesis using nth_next_level [OF 1(3,4), of H] by simp
    qed
    moreover have "proof_loop H hs i = ?sib # proof_loop H (next_level H hs) (i div 2)"
      using True by (subst proof_loop.simps) (simp add: Let_def)
    moreover have "buildMerkleTree H hs = buildMerkleTree H (next_level H hs)" using True by (subst buildMerkleTree.simps) auto
    ultimately show ?thesis using IH by auto
  qed
qed

text \<open>Every event of a batch has a proof that verifies against the batch's Merkle root at the event's index, for every
  hash function that never returns the empty string.
\<close>

theorem batch_proofs_verify:
  assumes "\<forall>x. H x \<noteq> []" "i < length (events b)" "merkle_root b = calculateMerkleRoot H (events b)"
  shows "\<exists>prf. generateProof_batch H b (int i) = Some prf \<and> verifyProof_event H (events b ! i) (int i) prf (merkle_root b)"
proof -
  let ?hs = "map (hashEvent H) (events b)"
  have ne: "events b \<noteq> []" using assms(2) by auto
  have p: "generateMerkleProof H ?hs i = proof_loop H ?hs i"
    using assms(2) by (auto simp: generateMerkleProof_def proof_loop.simps [of H ?hs i])
  have "fold_proof H (?hs ! i) i (proof_loop H ?hs i) = buildMerkleTree H ?hs \<and> i < 2 ^ length (proof_loop H ?hs i)"
    using assms(1,2) by (intro proof_loop_verifies) (auto simp: hashEvent_def)
  moreover have "int i < 2 ^ n \<longleftrightarrow> i < 2 ^ n" for n by (metis of_nat_less_iff of_nat_numeral of_nat_power)
  ultimately show ?thesis
    using assms ne p by (auto simp: generateProof_batch_def verifyProof_event_def verifyMerkleProof_def calculateMerkleRoot_def not_le)
qed

section \<open>No event is lost\<close>

text \<open>The events that \<open>ingest\<close> has accepted in a run.\<close>

fun accepted_events :: "hash_fun \<Rightarrow> (string \<Rightarrow> bool) \<Rightarrow> (kernel_event list \<Rightarrow> nat) \<Rightarrow> batcher_config \<Rightarrow> batcher_event list \<Rightarrow> batcher \<Rightarrow> kernel_event list" where
  "accepted_events H datetime json_size cfg [] b = []"
| "accepted_events H datetime json_size cfg (ev # evs) b =
     (case ev of Ingest e \<Rightarrow> if fst (ingest datetime json_size cfg e b) then [e] else [] | _ \<Rightarrow> [])
     @ accepted_events H datetime json_size cfg evs (batcher_step H datetime json_size cfg ev b)"

definition held :: "batcher \<Rightarrow> kernel_event multiset" where
  "held b = mset (concat (map events (emitted b))) + mset (concat (map events (emitting b))) + mset (concat (creating b))
     + mset (eventQueue b)"

definition batcher_inv :: "hash_fun \<Rightarrow> batcher \<Rightarrow> bool" where
  "batcher_inv H b \<longleftrightarrow> total_events b = size (held b) \<and> total_batches b = length (emitted b) + length (emitting b) + length (refused b)
     \<and> queue_depth b = length (eventQueue b)
     \<and> (\<forall>x\<in>set (emitted b) \<union> set (emitting b) \<union> set (refused b). merkle_root x = calculateMerkleRoot H (events x) \<and> events x \<noteq> [])
     \<and> [] \<notin> set (creating b) \<and> (flushTimer b \<longrightarrow> eventQueue b \<noteq> [])"

lemma flush_start_held: "held (flush_start b) = held b"
  by (simp add: flush_start_def held_def)

lemma flush_done_held: "held (flush_done H i t ok es b) = held b + mset es"
  by (simp add: flush_done_def requeue_def held_def createBatch_def)

lemma emit_done_held: "held (emit_done returned x b) = held b + mset (events x)"
  by (simp add: emit_done_def requeue_def held_def)

lemma emitting_remove:
  assumes "i < length (emitting b)"
  shows "held b = held (b \<lparr> emitting := take i (emitting b) @ drop (i + 1) (emitting b) \<rparr>) + mset (events (emitting b ! i))"
proof -
  have "emitting b = take i (emitting b) @ emitting b ! i # drop (i + 1) (emitting b)" using id_take_nth_drop [OF assms] by simp
  then have "mset (concat (map events (emitting b)))
      = mset (concat (map events (take i (emitting b) @ emitting b ! i # drop (i + 1) (emitting b))))" by simp
  then show ?thesis by (simp add: held_def)
qed

lemma creating_remove:
  assumes "i < length (creating b)"
  shows "held b = held (b \<lparr> creating := take i (creating b) @ drop (i + 1) (creating b) \<rparr>) + mset (creating b ! i)"
proof -
  have "creating b = take i (creating b) @ creating b ! i # drop (i + 1) (creating b)" using id_take_nth_drop [OF assms] by simp
  then have "mset (concat (creating b)) = mset (concat (take i (creating b) @ creating b ! i # drop (i + 1) (creating b)))" by simp
  then show ?thesis by (simp add: held_def)
qed

lemma step_held:
  "held (batcher_step H datetime json_size cfg ev b)
     = held b + mset (case ev of Ingest e \<Rightarrow> if fst (ingest datetime json_size cfg e b) then [e] else [] | _ \<Rightarrow> [])"
proof (cases ev)
  case (Ingest e)
  then show ?thesis by (simp add: ingest_def scheduleFlush_def Let_def held_def)
next
  case (Batch_Created i bid ts ok)
  then show ?thesis using creating_remove [of i b] by (simp add: flush_done_held)
next
  case (Batch_Emitted i returned)
  then show ?thesis using emitting_remove [of i b] by (simp add: emit_done_held)
qed (simp_all add: flush_start_held, simp_all add: held_def)

lemma accepted_total:
  "total_events (batcher_step H datetime json_size cfg ev b)
     = total_events b + length (case ev of Ingest e \<Rightarrow> if fst (ingest datetime json_size cfg e b) then [e] else [] | _ \<Rightarrow> [])"
  by (cases ev) (simp_all add: ingest_def scheduleFlush_def Let_def flush_start_def flush_done_def emit_done_def requeue_def)

lemma flush_start_inv:
  "batcher_inv H b \<Longrightarrow> batcher_inv H (flush_start b)"
  using flush_start_held [of b] by (cases "eventQueue b = []") (simp_all add: batcher_inv_def flush_start_def)

lemma cleared_inv:
  "batcher_inv H b \<Longrightarrow> batcher_inv H (b \<lparr> flushTimer := False \<rparr>)" "batcher_inv H b \<Longrightarrow> batcher_inv H (b \<lparr> pendingFlush := False \<rparr>)"
  by (auto simp: batcher_inv_def held_def)

lemma flush_done_inv:
  assumes "batcher_inv H b" "i < length (creating b)"
  shows "batcher_inv H (flush_done H bid ts ok (creating b ! i) (b \<lparr> creating := take i (creating b) @ drop (i + 1) (creating b) \<rparr>))"
proof -
  let ?b = "b \<lparr> creating := take i (creating b) @ drop (i + 1) (creating b) \<rparr>"
  have "size (held (flush_done H bid ts ok (creating b ! i) ?b)) = size (held b)"
    using creating_remove [OF assms(2)] by (simp add: flush_done_held)
  moreover have "creating b ! i \<noteq> []" using assms by (metis batcher_inv_def nth_mem)
  ultimately show ?thesis
    using assms(1) by (auto simp: batcher_inv_def flush_done_def requeue_def createBatch_def dest: in_set_takeD in_set_dropD)
qed

lemma emit_done_inv:
  assumes "batcher_inv H b" "i < length (emitting b)"
  shows "batcher_inv H (emit_done returned (emitting b ! i) (b \<lparr> emitting := take i (emitting b) @ drop (i + 1) (emitting b) \<rparr>))"
proof -
  let ?b = "b \<lparr> emitting := take i (emitting b) @ drop (i + 1) (emitting b) \<rparr>"
  have "size (held (emit_done returned (emitting b ! i) ?b)) = size (held b)"
    using emitting_remove [OF assms(2)] by (simp add: emit_done_held)
  moreover have "events (emitting b ! i) \<noteq> []" "merkle_root (emitting b ! i) = calculateMerkleRoot H (events (emitting b ! i))"
    using assms by (auto simp: batcher_inv_def)
  moreover have "length (take i (emitting b)) + length (drop (i + 1) (emitting b)) + 1 = length (emitting b)" using assms(2) by simp
  ultimately show ?thesis
    using assms(1) by (auto simp: batcher_inv_def emit_done_def requeue_def dest: in_set_takeD in_set_dropD)
qed

lemma ingest_inv: "batcher_inv H b \<Longrightarrow> batcher_inv H (snd (ingest datetime json_size cfg e b))"
  by (simp add: batcher_inv_def ingest_def scheduleFlush_def held_def Let_def)

lemma batcher_step_inv: "batcher_inv H b \<Longrightarrow> batcher_inv H (batcher_step H datetime json_size cfg ev b)"
proof (cases ev)
  case (Batch_Created i bid ts ok)
  then show "batcher_inv H b \<Longrightarrow> ?thesis" using flush_done_inv by simp
next
  case (Batch_Emitted i returned)
  then show "batcher_inv H b \<Longrightarrow> ?thesis" using emit_done_inv by simp
qed (simp_all add: ingest_inv flush_start_inv cleared_inv)

interpretation batcher: invariant_machine "batcher_step H datetime json_size cfg" "batcher_inv H" for H datetime json_size cfg
  by unfold_locales (rule batcher_step_inv)

lemma accepted_held:
  "held (fold (batcher_step H datetime json_size cfg) evs b) = held b + mset (accepted_events H datetime json_size cfg evs b)"
  by (induction evs arbitrary: b) (simp_all add: step_held)

text \<open>C17: However events, timers, scheduled flushes, manual flushes, completed or failed batch creations and returning or throwing
  listeners interleave: the accepted events are exactly those in the batches that all listeners took, in the batches being
  emitted, in the batches being created and in the queue, none lost and none twice. A batch of which a listener threw does
  not count: its events are back in one of these, and its number is in \<open>total_batches\<close> all the same. Every batch handed to a
  listener is not empty and carries the Merkle root of its events, and the counters agree.
\<close>

theorem no_event_lost:
  "let b = fold (batcher_step H datetime json_size cfg) evs new_batcher
   in mset (accepted_events H datetime json_size cfg evs new_batcher)
        = mset (concat (map events (emitted b))) + mset (concat (map events (emitting b))) + mset (concat (creating b)) + mset (eventQueue b)
      \<and> list_all (\<lambda>x. merkle_root x = calculateMerkleRoot H (events x) \<and> events x \<noteq> []) (emitted b @ emitting b @ refused b)
      \<and> total_events b = length (accepted_events H datetime json_size cfg evs new_batcher)
      \<and> total_batches b = length (emitted b) + length (emitting b) + length (refused b) \<and> queue_depth b = length (eventQueue b)"
proof -
  let ?b = "fold (batcher_step H datetime json_size cfg) evs new_batcher"
  have "batcher_inv H new_batcher" by (simp add: batcher_inv_def new_batcher_def held_def)
  then have i: "batcher_inv H ?b" by (rule batcher.run_inv)
  have h: "held ?b = mset (accepted_events H datetime json_size cfg evs new_batcher)"
    using accepted_held [of H datetime json_size cfg evs new_batcher] by (simp add: new_batcher_def held_def)
  have "total_events ?b = length (accepted_events H datetime json_size cfg evs new_batcher)"
    using i h by (metis batcher_inv_def size_mset)
  moreover have "list_all (\<lambda>x. merkle_root x = calculateMerkleRoot H (events x) \<and> events x \<noteq> []) (emitted ?b @ emitting ?b @ refused ?b)"
    using i by (auto simp: batcher_inv_def list_all_iff)
  ultimately show ?thesis using i h [symmetric] unfolding Let_def batcher_inv_def held_def by blast
qed

section \<open>Weak spots\<close>

text \<open>A failed batch creation puts its events back without a timer; a further event below the thresholds starts none.\<close>

lemma requeued_without_timer:
  assumes "eventQueue b = []" "\<not> flushTimer b" "\<not> pendingFlush b" "es \<noteq> []" "EventSchema datetime e"
    and "length es + 1 < max_events_per_batch cfg" "json_size (es @ [e]) < max_batch_size_bytes cfg"
  shows "let b' = snd (ingest datetime json_size cfg e (flush_done H i t False es b))
    in eventQueue b' = es @ [e] \<and> \<not> flushTimer b' \<and> \<not> pendingFlush b'"
  using assms by (simp add: ingest_def flush_done_def requeue_def Let_def)

text \<open>
  A listener that throws makes the batcher emit the same events again: two batches with the same event, both counted, for one
  accepted event.
\<close>

lemma throwing_listener_repeats:
  assumes "EventSchema datetime e" "1 < max_events_per_batch cfg" "json_size [e] < max_batch_size_bytes cfg"
  shows "let b = fold (batcher_step H datetime json_size cfg)
      [Ingest e, Manual_Flush, Batch_Created 0 i t True, Batch_Emitted 0 False, Manual_Flush, Batch_Created 0 j u True, Batch_Emitted 0 True]
      new_batcher
    in map events (refused b) = [[e]] \<and> map events (emitted b) = [[e]] \<and> total_events b = 1 \<and> total_batches b = 2"
  using assms by (simp add: ingest_def flush_start_def flush_done_def emit_done_def requeue_def new_batcher_def createBatch_def Let_def)

text \<open>A level of three hashes has the root of the level with the last hash repeated, and a proof for the last index serves the next.\<close>

lemma duplicated_last_same_root: "c \<noteq> [] \<Longrightarrow> buildMerkleTree H [a, b, c] = buildMerkleTree H [a, b, c, c]"
  by (simp add: buildMerkleTree.simps [of H "[a, b, c]"] buildMerkleTree.simps [of H "[a, b, c, c]"] right_or_left_def)

lemma separator_ambiguous:
  "hashEvent H \<lparr> timestamp = t, source_id = s, event_type = ''a:b'', payload_hash = ''c'', sequence_number = n \<rparr>
     = hashEvent H \<lparr> timestamp = t, source_id = s, event_type = ''a'', payload_hash = ''b:c'', sequence_number = n \<rparr>"
  by (simp add: hashEvent_def serialized_def)

section \<open>Witness\<close>

theorem batch_proofs_verify_witness:
  "\<exists>prf. generateProof_batch (Cons CHR ''h'') (createBatch (Cons CHR ''h'') ''id'' ''t''
       [\<lparr> timestamp = ''t0'', source_id = ''s'', event_type = ''alarm'', payload_hash = ''p'', sequence_number = 0 \<rparr>,
        \<lparr> timestamp = ''t1'', source_id = ''s'', event_type = ''alarm'', payload_hash = ''q'', sequence_number = 1 \<rparr>]) 1 = Some prf"
proof -
  let ?es = "[\<lparr> timestamp = ''t0'', source_id = ''s'', event_type = ''alarm'', payload_hash = ''p'', sequence_number = 0 \<rparr>,
        \<lparr> timestamp = ''t1'', source_id = ''s'', event_type = ''alarm'', payload_hash = ''q'', sequence_number = 1 \<rparr>]"
  show ?thesis
    using batch_proofs_verify [of "Cons CHR ''h''" 1 "createBatch (Cons CHR ''h'') ''id'' ''t'' ?es"] by (auto simp: createBatch_def)
qed

end
