(* ===== verification/Blueprint_Compiler.thy ===== *)
theory Blueprint_Compiler
  imports JS_Arith "HOL-Library.AList"
begin

text \<open>
  The compiler of control blueprints (\<open>server/blueprint/compiler.ts\<close> with the data of \<open>server/blueprint/types.ts\<close>): a graph of logic
  nodes over named tags becomes a flat instruction stream over slots. Definitions follow the source: the tag table, the
  validation of nodes, Kahn's topological sort, the state slots and the emitted arrays. The lemmas show that the sort is
  sound and complete, and that every index of the emitted arrays is in range.

  A \<open>Map\<close> that is only read and written by key is a partial function; \<open>inDegree\<close>, whose entries decide when the sort's loop
  ends, is an association list. An operation outside the table of \<open>types.ts\<close> is not representable, so the error \<open>unknown op\<close>
  has no counterpart. Slot numbers are below \<open>2 ^ 31\<close>, the range of an \<open>Int32Array\<close>.
\<close>

section \<open>Blueprints\<close>

datatype tag_direction = Input | Output | Internal

datatype tag_type = Bool_Tag | Int_Tag | Float_Tag

record tag_descriptor =
  td_name :: string
  direction :: tag_direction
  dataType :: tag_type
  initial :: "number option"

datatype blueprint_op = Op_AND | Op_OR | Op_NOT | Op_XOR | Op_GT | Op_GTE | Op_LT | Op_LTE | Op_EQ | Op_NEQ
  | Op_ADD | Op_SUB | Op_MUL | Op_DIV | Op_MIN | Op_MAX | Op_SELECT | Op_MOVE | Op_CONST | Op_LATCH | Op_TON

datatype blueprint_operand = Tag string | Const number

record blueprint_node =
  node_id :: string
  node_op :: blueprint_op
  inputs :: "blueprint_operand list"
  node_output :: string
  param :: "number option"

record blueprint_definition =
  bd_id :: string
  bd_name :: string
  bd_tags :: "tag_descriptor list"
  bd_nodes :: "blueprint_node list"
  bd_scanPeriodMs :: "nat option"

fun OP_TO_OPCODE :: "blueprint_op \<Rightarrow> nat" where
  "OP_TO_OPCODE Op_AND = 0" | "OP_TO_OPCODE Op_OR = 1" | "OP_TO_OPCODE Op_NOT = 2" | "OP_TO_OPCODE Op_XOR = 3"
| "OP_TO_OPCODE Op_GT = 4" | "OP_TO_OPCODE Op_GTE = 5" | "OP_TO_OPCODE Op_LT = 6" | "OP_TO_OPCODE Op_LTE = 7"
| "OP_TO_OPCODE Op_EQ = 8" | "OP_TO_OPCODE Op_NEQ = 9" | "OP_TO_OPCODE Op_ADD = 10" | "OP_TO_OPCODE Op_SUB = 11"
| "OP_TO_OPCODE Op_MUL = 12" | "OP_TO_OPCODE Op_DIV = 13" | "OP_TO_OPCODE Op_MIN = 14" | "OP_TO_OPCODE Op_MAX = 15"
| "OP_TO_OPCODE Op_SELECT = 16" | "OP_TO_OPCODE Op_MOVE = 17" | "OP_TO_OPCODE Op_CONST = 18" | "OP_TO_OPCODE Op_LATCH = 19"
| "OP_TO_OPCODE Op_TON = 20"

definition OPERAND_STRIDE :: nat where "OPERAND_STRIDE = 3"

fun OP_ARITY :: "blueprint_op \<Rightarrow> nat" where
  "OP_ARITY Op_NOT = 1" | "OP_ARITY Op_MOVE = 1" | "OP_ARITY Op_TON = 1" | "OP_ARITY Op_CONST = 0" | "OP_ARITY Op_SELECT = 3"
| "OP_ARITY _ = 2"

definition OP_USES_PARAM :: "blueprint_op \<Rightarrow> bool" where
  "OP_USES_PARAM p \<longleftrightarrow> p \<in> {Op_CONST, Op_TON}"

definition OP_IS_STATEFUL :: "blueprint_op \<Rightarrow> bool" where
  "OP_IS_STATEFUL p \<longleftrightarrow> p \<in> {Op_LATCH, Op_TON}"

datatype compile_error =
    NoTags string
  | DuplicateTag string
  | ArityMismatch string
  | ArityExceedsStride string
  | WritesUnknownTag string
  | ReadsUnknownTag string string
  | MissingParam string
  | NegativePreset string
  | MultipleDrivers string string
  | SelfCycle string string
  | CombinationalCycle "string list"

type_synonym tag_index = "string \<rightharpoonup> nat"

section \<open>Tag table and validation\<close>

fun index_tags :: "tag_descriptor list \<Rightarrow> nat \<Rightarrow> tag_index \<Rightarrow> compile_error + tag_index" where
  "index_tags [] n idx = Inr idx"
| "index_tags (t # ts) n idx =
     (if idx (td_name t) \<noteq> None then Inl (DuplicateTag (td_name t))
      else index_tags ts (n + 1) (idx(td_name t \<mapsto> n)))"

fun unknown_read :: "tag_index \<Rightarrow> blueprint_operand list \<Rightarrow> string option" where
  "unknown_read idx [] = None"
| "unknown_read idx (Const c # xs) = unknown_read idx xs"
| "unknown_read idx (Tag t # xs) = (if idx t = None then Some t else unknown_read idx xs)"

definition num_neg :: "number \<Rightarrow> bool" where
  "num_neg x = (case x of NaN \<Rightarrow> False | Infinity s \<Rightarrow> s | Finite s m _ \<Rightarrow> s \<and> m \<noteq> 0)"

definition validateNode :: "blueprint_node \<Rightarrow> tag_index \<Rightarrow> compile_error option" where
  "validateNode n idx =
     (if length (inputs n) \<noteq> OP_ARITY (node_op n) then Some (ArityMismatch (node_id n))
      else if length (inputs n) > OPERAND_STRIDE then Some (ArityExceedsStride (node_id n))
      else if idx (node_output n) = None then Some (WritesUnknownTag (node_id n))
      else case unknown_read idx (inputs n) of
        Some t \<Rightarrow> Some (ReadsUnknownTag (node_id n) t)
      | None \<Rightarrow>
          if OP_USES_PARAM (node_op n) \<and> param n = None then Some (MissingParam (node_id n))
          else if node_op n = Op_TON \<and> (case param n of None \<Rightarrow> False | Some x \<Rightarrow> num_neg x) then Some (NegativePreset (node_id n))
          else None)"

fun validate_nodes :: "blueprint_node list \<Rightarrow> tag_index \<Rightarrow> (string \<rightharpoonup> blueprint_node) \<Rightarrow> compile_error + (string \<rightharpoonup> blueprint_node)" where
  "validate_nodes [] idx writtenBy = Inr writtenBy"
| "validate_nodes (n # ns) idx writtenBy =
     (case validateNode n idx of
        Some e \<Rightarrow> Inl e
      | None \<Rightarrow>
          if writtenBy (node_output n) \<noteq> None then Inl (MultipleDrivers (node_output n) (node_id n))
          else validate_nodes ns idx (writtenBy(node_output n \<mapsto> n)))"

section \<open>Topological sort\<close>

type_synonym degrees = "(string \<times> int) list"
type_synonym dependents = "string \<Rightarrow> string list"

definition degree :: "degrees \<Rightarrow> string \<Rightarrow> int" where
  "degree deg i = (case map_of deg i of Some d \<Rightarrow> d | None \<Rightarrow> 0)"

fun link_operands :: "(string \<rightharpoonup> blueprint_node) \<Rightarrow> blueprint_node \<Rightarrow> blueprint_operand list \<Rightarrow> string list
    \<Rightarrow> degrees \<times> dependents \<Rightarrow> compile_error + (degrees \<times> dependents)" where
  "link_operands writtenBy n [] seen g = Inr g"
| "link_operands writtenBy n (Const c # xs) seen g = link_operands writtenBy n xs seen g"
| "link_operands writtenBy n (Tag t # xs) seen g =
     (case writtenBy t of
        None \<Rightarrow> link_operands writtenBy n xs seen g
      | Some p \<Rightarrow>
          if OP_IS_STATEFUL (node_op n) \<and> node_id p = node_id n then link_operands writtenBy n xs seen g
          else if node_id p = node_id n then Inl (SelfCycle (node_id n) t)
          else if node_id p \<in> set seen then link_operands writtenBy n xs seen g
          else link_operands writtenBy n xs (node_id p # seen)
                 (AList.update (node_id n) (degree (fst g) (node_id n) + 1) (fst g),
                  (snd g)(node_id p := snd g (node_id p) @ [node_id n])))"

fun link_nodes :: "(string \<rightharpoonup> blueprint_node) \<Rightarrow> blueprint_node list \<Rightarrow> degrees \<times> dependents \<Rightarrow> compile_error + (degrees \<times> dependents)" where
  "link_nodes writtenBy [] g = Inr g"
| "link_nodes writtenBy (n # ns) g =
     (case link_operands writtenBy n (inputs n) [] g of Inl e \<Rightarrow> Inl e | Inr g' \<Rightarrow> link_nodes writtenBy ns g')"

text \<open>The loop over the dependents of a node that has been ordered.\<close>

fun release :: "string list \<Rightarrow> degrees \<Rightarrow> string list \<Rightarrow> degrees \<times> string list" where
  "release [] deg q = (deg, q)"
| "release (d # ds) deg q =
     (let v = degree deg d - 1 in release ds (AList.update d v deg) (if v = 0 then q @ [d] else q))"

definition positive :: "degrees \<Rightarrow> nat" where
  "positive deg = length (filter (\<lambda>(i, d). 0 < d) deg)"

lemma positive_update:
  "degree deg i = 1 \<Longrightarrow> positive deg = Suc (positive (AList.update i 0 deg))"
  "v < degree deg i \<Longrightarrow> 0 \<le> v \<or> degree deg i \<le> 0 \<Longrightarrow> positive (AList.update i v deg) \<le> positive deg"
  by (induction deg) (auto simp: positive_def degree_def split: if_splits)

lemma release_measure:
  "release ds deg q = (deg', q') \<Longrightarrow> length q' + positive deg' \<le> length q + positive deg"
proof (induction ds arbitrary: deg q)
  case (Cons d ds)
  let ?v = "degree deg d - 1"
  from Cons.prems have r: "release ds (AList.update d ?v deg) (if ?v = 0 then q @ [d] else q) = (deg', q')" by (simp add: Let_def)
  note step = Cons.IH [OF r]
  show ?case
  proof (cases "?v = 0")
    case True
    then show ?thesis using step positive_update(1) [of deg d] by simp
  next
    case False
    then show ?thesis using step positive_update(2) [of ?v deg d] by fastforce
  qed
qed simp

function kahn :: "dependents \<Rightarrow> degrees \<Rightarrow> string list \<Rightarrow> string list \<Rightarrow> string list" where
  "kahn dependents deg [] ordered = ordered"
| "kahn dependents deg (i # q) ordered =
     (let r = release (dependents i) deg q in kahn dependents (fst r) (snd r) (ordered @ [i]))"
  by pat_completeness auto

termination
proof (relation "measure (\<lambda>(_, deg, q, _). length q + positive deg)", goal_cases)
  case (2 dependents deg i q ordered r)
  then show ?case using release_measure [of "dependents i" deg q "fst r" "snd r"] by simp
qed simp

definition byId :: "blueprint_node list \<Rightarrow> string \<rightharpoonup> blueprint_node" where
  "byId ns = map_of (rev (map (\<lambda>n. (node_id n, n)) ns))"

definition topoSort :: "blueprint_node list \<Rightarrow> (string \<rightharpoonup> blueprint_node) \<Rightarrow> compile_error + blueprint_node list" where
  "topoSort ns writtenBy =
     (let deg0 = fold (\<lambda>n deg. AList.update (node_id n) 0 deg) ns []
      in case link_nodes writtenBy ns (deg0, \<lambda>_. []) of
           Inl e \<Rightarrow> Inl e
         | Inr g \<Rightarrow>
             (let queue = map node_id (filter (\<lambda>n. degree (fst g) (node_id n) = 0) ns);
                  ordered = map (\<lambda>i. the (byId ns i)) (kahn (snd g) (fst g) queue [])
              in if length ordered \<noteq> length ns
                 then Inl (CombinationalCycle (map node_id (filter (\<lambda>n. n \<notin> set ordered) ns)))
                 else Inr ordered))"

section \<open>Emission\<close>

fun alloc_slots :: "blueprint_node list \<Rightarrow> nat \<Rightarrow> (string \<rightharpoonup> nat) \<Rightarrow> nat \<times> (string \<rightharpoonup> nat)" where
  "alloc_slots [] c slots = (c, slots)"
| "alloc_slots (n # ns) c slots =
     (if OP_IS_STATEFUL (node_op n) then alloc_slots ns (c + 1) (slots(node_id n \<mapsto> c)) else alloc_slots ns c slots)"

record compiled_blueprint =
  cb_id :: string
  cb_name :: string
  scanPeriodMs :: nat
  tagCount :: nat
  instructionCount :: nat
  stateCount :: nat
  opcodes :: "nat list"
  destIndices :: "nat list"
  immediates :: "number list"
  operandTagIndices :: "int list"
  operandConsts :: "number list"
  stateIndices :: "int list"
  tagIndex :: tag_index
  initialValues :: "number list"
  tagMeta :: "tag_descriptor list"
  inputSlots :: "nat list"
  outputSlots :: "nat list"

definition num_zero :: number where "num_zero = num_of_int 0"

definition operand_tag_index :: "tag_index \<Rightarrow> blueprint_node \<Rightarrow> nat \<Rightarrow> int" where
  "operand_tag_index idx n k =
     (if k < length (inputs n) then (case inputs n ! k of Tag t \<Rightarrow> int (the (idx t)) | Const _ \<Rightarrow> - 1) else - 1)"

definition operand_const :: "blueprint_node \<Rightarrow> nat \<Rightarrow> number" where
  "operand_const n k =
     (if k < length (inputs n) then (case inputs n ! k of Tag _ \<Rightarrow> num_zero | Const c \<Rightarrow> c) else num_zero)"

definition slots_of :: "tag_direction \<Rightarrow> tag_descriptor list \<Rightarrow> nat list" where
  "slots_of d ts = filter (\<lambda>i. direction (ts ! i) = d) [0..<length ts]"

definition default_zero :: "number option \<Rightarrow> number" where
  "default_zero x = (case x of None \<Rightarrow> num_zero | Some v \<Rightarrow> v)"

definition emit :: "blueprint_definition \<Rightarrow> tag_index \<Rightarrow> blueprint_node list \<Rightarrow> compiled_blueprint" where
  "emit def idx ordered =
     (let (count, slots) = alloc_slots ordered 0 Map.empty in
      \<lparr> cb_id = bd_id def, cb_name = bd_name def,
        scanPeriodMs = (case bd_scanPeriodMs def of None \<Rightarrow> 100 | Some p \<Rightarrow> p),
        tagCount = length (bd_tags def), instructionCount = length ordered, stateCount = count,
        opcodes = map (\<lambda>n. OP_TO_OPCODE (node_op n)) ordered,
        destIndices = map (\<lambda>n. the (idx (node_output n))) ordered,
        immediates = map (\<lambda>n. if OP_USES_PARAM (node_op n) then default_zero (param n) else num_zero) ordered,
        operandTagIndices = concat (map (\<lambda>n. map (operand_tag_index idx n) [0..<OPERAND_STRIDE]) ordered),
        operandConsts = concat (map (\<lambda>n. map (operand_const n) [0..<OPERAND_STRIDE]) ordered),
        stateIndices = map (\<lambda>n. case slots (node_id n) of None \<Rightarrow> - 1 | Some s \<Rightarrow> int s) ordered,
        tagIndex = idx,
        initialValues = map (\<lambda>t. default_zero (initial t)) (bd_tags def),
        tagMeta = bd_tags def,
        inputSlots = slots_of Input (bd_tags def), outputSlots = slots_of Output (bd_tags def) \<rparr>)"

definition compileBlueprint :: "blueprint_definition \<Rightarrow> compile_error + compiled_blueprint" where
  "compileBlueprint def =
     (if bd_tags def = [] then Inl (NoTags (bd_id def))
      else case index_tags (bd_tags def) 0 Map.empty of
        Inl e \<Rightarrow> Inl e
      | Inr idx \<Rightarrow>
          (case validate_nodes (bd_nodes def) idx Map.empty of
             Inl e \<Rightarrow> Inl e
           | Inr writtenBy \<Rightarrow>
               (case topoSort (bd_nodes def) writtenBy of
                  Inl e \<Rightarrow> Inl e
                | Inr ordered \<Rightarrow> Inr (emit def idx ordered))))"

section \<open>What the stages compute\<close>

text \<open>The slot of a tag is its position among the declared tags.\<close>

definition tag_slot :: "tag_descriptor list \<Rightarrow> tag_index" where
  "tag_slot ts = map_of (zip (map td_name ts) [0..<length ts])"

definition drivers :: "blueprint_node list \<Rightarrow> string \<rightharpoonup> blueprint_node" where
  "drivers ns = map_of (map (\<lambda>n. (node_output n, n)) ns)"

lemma map_add_upd_absent: "m k = None \<Longrightarrow> w(k \<mapsto> v) ++ m = w ++ m(k \<mapsto> v)"
  by (auto simp: map_add_def split: option.splits)

lemma absent_upd: "(\<forall>u\<in>A. (m(k \<mapsto> v)) (f u) = None) \<longleftrightarrow> k \<notin> f ` A \<and> (\<forall>u\<in>A. m (f u) = None)"
  by force

lemma index_tags_iff:
  "index_tags ts n idx = Inr idx' \<longleftrightarrow>
     distinct (map td_name ts) \<and> (\<forall>t\<in>set ts. idx (td_name t) = None)
     \<and> idx' = idx ++ map_of (zip (map td_name ts) [n..<n + length ts])"
proof (induction ts arbitrary: n idx)
  case (Cons t ts)
  let ?m = "map_of (zip (map td_name ts) [n + 1..<n + 1 + length ts])"
  have "[n..<n + length (t # ts)] = n # [n + 1..<n + 1 + length ts]" by (simp add: upt_conv_Cons del: upt_Suc)
  then have m: "map_of (zip (map td_name (t # ts)) [n..<n + length (t # ts)]) = ?m(td_name t \<mapsto> n)" by (simp del: upt_Suc)
  have "td_name t \<notin> td_name ` set ts \<Longrightarrow> ?m (td_name t) = None" by (simp del: upt_Suc)
  then have "td_name t \<notin> td_name ` set ts \<Longrightarrow> idx(td_name t \<mapsto> n) ++ ?m = idx ++ ?m(td_name t \<mapsto> n)" by (rule map_add_upd_absent)
  then show ?case unfolding m by (auto simp: Cons.IH absent_upd simp del: upt_Suc fun_upd_apply)
qed auto

lemma index_tags_0: "index_tags ts 0 Map.empty = Inr idx \<longleftrightarrow> distinct (map td_name ts) \<and> idx = tag_slot ts"
  by (auto simp: index_tags_iff tag_slot_def)

lemma tag_slot_Some:
  "distinct (map td_name ts) \<Longrightarrow> tag_slot ts t = Some i \<longleftrightarrow> i < length ts \<and> td_name (ts ! i) = t"
  by (auto simp: tag_slot_def in_set_zip intro!: exI [of _ i])

lemma tag_slot_None: "tag_slot ts t = None \<longleftrightarrow> t \<notin> td_name ` set ts"
  by (simp add: tag_slot_def)

lemma the_tag_slot:
  assumes "distinct (map td_name ts)" "t \<in> td_name ` set ts"
  shows "the (tag_slot ts t) < length ts" "td_name (ts ! the (tag_slot ts t)) = t"
proof -
  obtain i where i: "tag_slot ts t = Some i" using assms(2) tag_slot_None [of ts t] by (cases "tag_slot ts t") auto
  then show "the (tag_slot ts t) < length ts" "td_name (ts ! the (tag_slot ts t)) = t"
    using tag_slot_Some [OF assms(1), THEN iffD1, OF i] by simp_all
qed

lemma tag_slot_inj:
  "distinct (map td_name ts) \<Longrightarrow> t \<in> td_name ` set ts \<Longrightarrow> the (tag_slot ts t) = the (tag_slot ts u) \<Longrightarrow> u \<in> td_name ` set ts \<Longrightarrow> t = u"
  by (metis the_tag_slot(2))

lemma drivers_Cons: "drivers (n # ns) = (drivers ns)(node_output n \<mapsto> n)"
  by (simp add: drivers_def)

lemma drivers_None: "drivers ns t = None \<longleftrightarrow> t \<notin> node_output ` set ns"
  by (force simp: drivers_def map_of_eq_None_iff)

lemma validate_nodes_iff:
  "validate_nodes ns idx w = Inr w' \<longleftrightarrow>
     (\<forall>n\<in>set ns. validateNode n idx = None \<and> w (node_output n) = None) \<and> distinct (map node_output ns)
     \<and> w' = w ++ drivers ns"
proof (induction ns arbitrary: w)
  case (Cons n ns)
  have "node_output n \<notin> node_output ` set ns \<Longrightarrow> w(node_output n \<mapsto> n) ++ drivers ns = w ++ drivers (n # ns)"
    unfolding drivers_Cons by (intro map_add_upd_absent) (simp add: drivers_None)
  then show ?case
    by (auto simp: Cons.IH absent_upd ball_conj_distrib simp del: fun_upd_apply split: option.splits)
qed (auto simp: drivers_def)

lemma drivers_Some:
  "distinct (map node_output ns) \<Longrightarrow> drivers ns t = Some p \<longleftrightarrow> p \<in> set ns \<and> node_output p = t"
  by (auto simp: drivers_def comp_def map_of_eq_Some_iff)

lemma unknown_read_None: "unknown_read idx xs = None \<longleftrightarrow> (\<forall>t. Tag t \<in> set xs \<longrightarrow> idx t \<noteq> None)"
  by (induction idx xs rule: unknown_read.induct) auto

lemma OP_ARITY_le: "OP_ARITY p \<le> OPERAND_STRIDE"
  by (cases p) (simp_all add: OPERAND_STRIDE_def)

section \<open>Kahn's algorithm\<close>

lemma degree_update [simp]: "degree (AList.update i v deg) j = (if j = i then v else degree deg j)"
  by (simp add: degree_def update_conv)

lemma release_spec:
  assumes "distinct ds"
  shows "degree (fst (release ds deg q)) j = degree deg j - (if j \<in> set ds then 1 else 0)
    \<and> snd (release ds deg q) = q @ filter (\<lambda>d. degree deg d = 1) ds"
  using assms
proof (induction ds arbitrary: deg q)
  case (Cons d ds)
  have "filter (\<lambda>x. (x = d \<longrightarrow> degree deg d = 2) \<and> (x \<noteq> d \<longrightarrow> degree deg x = 1)) ds = filter (\<lambda>x. degree deg x = 1) ds"
    using Cons.prems by (intro filter_cong) auto
  with Cons show ?case by (auto simp: Let_def)
qed simp

text \<open>
  The state of the loop over a graph with nodes \<open>ids\<close> in which \<open>pre i\<close> has to come before \<open>i\<close>: the degree of a node counts the
  predecessors not yet ordered, the nodes ordered or queued are those of degree 0, and the order built so far is closed.
\<close>

definition closed_order :: "('a \<Rightarrow> 'a set) \<Rightarrow> 'a list \<Rightarrow> bool" where
  "closed_order pre xs \<longleftrightarrow> (\<forall>k<length xs. pre (xs ! k) \<subseteq> set (take k xs))"

definition kahn_inv :: "string list \<Rightarrow> (string \<Rightarrow> string set) \<Rightarrow> degrees \<Rightarrow> string list \<Rightarrow> string list \<Rightarrow> bool" where
  "kahn_inv ids pre deg q ordered \<longleftrightarrow>
     distinct (ordered @ q) \<and> set (ordered @ q) \<subseteq> set ids \<and> closed_order pre ordered
     \<and> (\<forall>i\<in>set ids. degree deg i = int (card (pre i - set ordered)) \<and> (degree deg i = 0 \<longleftrightarrow> i \<in> set (ordered @ q)))"

lemma closed_order_snoc: "closed_order pre (xs @ [x]) \<longleftrightarrow> closed_order pre xs \<and> pre x \<subseteq> set xs"
  by (auto simp: closed_order_def nth_append less_Suc_eq)

lemma kahn_inv_step:
  assumes inv: "kahn_inv ids pre deg (i # q) ordered" and ids: "distinct ids" and fin: "\<And>i. finite (pre i)"
    and r: "release (filter (\<lambda>j. i \<in> pre j) ids) deg q = (deg', q')"
  shows "kahn_inv ids pre deg' q' (ordered @ [i])"
proof -
  let ?ds = "filter (\<lambda>j. i \<in> pre j) ids"
  have dist: "distinct (ordered @ i # q)" and sub: "set (ordered @ i # q) \<subseteq> set ids" and clo: "closed_order pre ordered"
    and cnt: "\<And>j. j \<in> set ids \<Longrightarrow> degree deg j = int (card (pre j - set ordered))"
    and nul: "\<And>j. j \<in> set ids \<Longrightarrow> degree deg j = 0 \<longleftrightarrow> j \<in> set (ordered @ i # q)"
    using inv unfolding kahn_inv_def by blast+
  have i: "i \<in> set ids" "i \<notin> set ordered" using dist sub by auto
  have d: "degree deg' j = degree deg j - (if j \<in> set ?ds then 1 else 0)" for j
    using release_spec [of ?ds deg q j] ids r by simp
  have q: "q' = q @ filter (\<lambda>d. degree deg d = 1) ?ds" using release_spec [of ?ds deg q] ids r by simp
  have rest: "pre j - set (ordered @ [i]) = pre j - set ordered - {i}" for j by auto
  have deg: "degree deg' j = int (card (pre j - set (ordered @ [i])))" if j: "j \<in> set ids" for j
  proof (cases "i \<in> pre j")
    case True
    have "card (pre j - set ordered) = Suc (card (pre j - set ordered - {i}))"
      using True i fin by (intro card.remove) auto
    then show ?thesis using cnt [OF j] d [of j] j True unfolding rest by simp
  next
    case False
    then show ?thesis using cnt [OF j] d [of j] unfolding rest by simp
  qed
  have zero: "degree deg' j = 0 \<longleftrightarrow> j \<in> set ((ordered @ [i]) @ q')" if j: "j \<in> set ids" for j
    using nul [OF j] cnt [OF j] deg [OF j] d [of j] j by (auto simp: q split: if_splits)
  have "pre i - set ordered = {}" using nul [OF i(1)] cnt [OF i(1)] fin [of i] by simp
  then have "closed_order pre (ordered @ [i])" using clo by (simp add: closed_order_snoc)
  moreover have "set (filter (\<lambda>d. degree deg d = 1) ?ds) \<inter> set (ordered @ i # q) = {}"
    using nul by fastforce
  then have "distinct ((ordered @ [i]) @ q')" using dist ids unfolding q by auto
  moreover have "set ((ordered @ [i]) @ q') \<subseteq> set ids" using sub by (auto simp: q)
  ultimately show ?thesis unfolding kahn_inv_def using deg zero by blast
qed

lemma kahn_result:
  assumes "distinct ids" "\<And>i. finite (pre i)" "dependents = (\<lambda>p. filter (\<lambda>j. p \<in> pre j) ids)" "kahn_inv ids pre deg q ordered"
  shows "\<exists>deg'. kahn_inv ids pre deg' [] (kahn dependents deg q ordered)"
  using assms(3,4)
proof (induction dependents deg q ordered rule: kahn.induct)
  case (2 dependents deg i q ordered)
  let ?r = "release (dependents i) deg q"
  have "kahn_inv ids pre (fst ?r) (snd ?r) (ordered @ [i])"
    using kahn_inv_step [OF 2(3) assms(1,2)] 2(2) by simp
  then show ?case using 2(1) [OF refl 2(2)] by (simp add: Let_def)
qed auto

section \<open>The dependency graph\<close>

definition reads :: "blueprint_node \<Rightarrow> string \<Rightarrow> bool" where
  "reads n t \<longleftrightarrow> Tag t \<in> set (inputs n)"

definition self_cycle :: "blueprint_node \<Rightarrow> bool" where
  "self_cycle n \<longleftrightarrow> \<not> OP_IS_STATEFUL (node_op n) \<and> reads n (node_output n)"

definition producer_ids :: "(string \<rightharpoonup> blueprint_node) \<Rightarrow> blueprint_node \<Rightarrow> blueprint_operand list \<Rightarrow> string set" where
  "producer_ids w n xs = {node_id p | p t. Tag t \<in> set xs \<and> w t = Some p \<and> node_id p \<noteq> node_id n}"

lemma producer_ids_Cons:
  "producer_ids w n (x # xs) =
     (case x of Const _ \<Rightarrow> {} | Tag t \<Rightarrow> (case w t of None \<Rightarrow> {} | Some p \<Rightarrow> {node_id p} - {node_id n})) \<union> producer_ids w n xs"
  by (auto simp: producer_ids_def split: blueprint_operand.splits option.splits)

lemma finite_producer_ids [simp]: "finite (producer_ids w n xs)"
proof (induction xs)
  case Nil
  show ?case by (simp add: producer_ids_def)
next
  case (Cons x xs)
  then show ?case by (simp add: producer_ids_Cons split: blueprint_operand.split option.split)
qed

lemma link_operands_Inr:
  "link_operands w n xs seen g = Inr g' \<Longrightarrow>
     degree (fst g') j = degree (fst g) j + (if j = node_id n then int (card (producer_ids w n xs - set seen)) else 0)
     \<and> snd g' p = snd g p @ (if p \<in> producer_ids w n xs - set seen then [node_id n] else [])"
proof (induction w n xs seen g rule: link_operands.induct)
  case (3 w n t xs seen g)
  show ?case
  proof (cases "w t")
    case None
    then show ?thesis using 3 by (simp add: producer_ids_Cons)
  next
    case (Some q)
    show ?thesis
    proof (cases "node_id q = node_id n \<or> node_id q \<in> set seen")
      case True
      then have "producer_ids w n (Tag t # xs) - set seen = producer_ids w n xs - set seen"
        using Some by (auto simp: producer_ids_Cons)
      then show ?thesis using 3 Some True by (auto split: if_splits)
    next
      case False
      let ?P = "producer_ids w n xs - set (node_id q # seen)"
      have P: "producer_ids w n (Tag t # xs) - set seen = insert (node_id q) ?P" "node_id q \<notin> ?P" "finite ?P"
        using Some False by (auto simp: producer_ids_Cons)
      then show ?thesis using 3(4) [OF Some] 3(5) Some False unfolding P(1) card_insert_disjoint [OF P(3,2)] by auto
    qed
  qed
qed (simp_all add: producer_ids_Cons producer_ids_def)

lemma link_operands_Inl:
  "(\<exists>e. link_operands w n xs seen g = Inl e) \<longleftrightarrow>
     \<not> OP_IS_STATEFUL (node_op n) \<and> (\<exists>t p. Tag t \<in> set xs \<and> w t = Some p \<and> node_id p = node_id n)"
  by (induction w n xs seen g rule: link_operands.induct) (auto split: option.splits)

lemma link_nodes_Inr:
  assumes "link_nodes w ns g = Inr g'" "distinct (map node_id ns)"
  shows "(\<forall>n\<in>set ns. degree (fst g') (node_id n) = degree (fst g) (node_id n) + int (card (producer_ids w n (inputs n))))
    \<and> (\<forall>j. j \<notin> node_id ` set ns \<longrightarrow> degree (fst g') j = degree (fst g) j)
    \<and> snd g' p = snd g p @ map node_id (filter (\<lambda>n. p \<in> producer_ids w n (inputs n)) ns)"
  using assms
proof (induction ns arbitrary: g)
  case (Cons n ns)
  obtain g1 where g1: "link_operands w n (inputs n) [] g = Inr g1" "link_nodes w ns g1 = Inr g'"
    using Cons.prems(1) by (auto split: sum.splits)
  have "distinct (map node_id ns)" "node_id n \<notin> node_id ` set ns" using Cons.prems(2) by auto
  note step = link_operands_Inr [OF g1(1)] and IH = Cons.IH [OF g1(2) this(1)]
  show ?case using step IH \<open>node_id n \<notin> _\<close> by (auto simp: image_iff)
qed auto

lemma link_nodes_Inl:
  "(\<exists>e. link_nodes w ns g = Inl e) \<longleftrightarrow>
     (\<exists>n\<in>set ns. \<not> OP_IS_STATEFUL (node_op n) \<and> (\<exists>t p. reads n t \<and> w t = Some p \<and> node_id p = node_id n))"
proof (induction ns arbitrary: g)
  case (Cons n ns)
  note head = link_operands_Inl [of w n "inputs n" "[]" g, folded reads_def]
  show ?case
  proof (cases "link_operands w n (inputs n) [] g")
    case (Inl e)
    then show ?thesis using head by auto
  next
    case (Inr g1)
    then have "\<not> (\<exists>e. link_operands w n (inputs n) [] g = Inl e)" by simp
    then show ?thesis using head Inr Cons.IH [of g1] by simp blast
  qed
qed simp

section \<open>Sorting is sound and complete\<close>

text \<open>
  An evaluation order: every node once, and whatever drives a tag that a node reads comes before the node, except that a
  stateful node may read its own tag.
\<close>

definition evaluation_order :: "blueprint_node list \<Rightarrow> blueprint_node list \<Rightarrow> bool" where
  "evaluation_order ns ord \<longleftrightarrow>
     distinct ord \<and> set ord = set ns
     \<and> (\<forall>k<length ord. \<forall>p\<in>set ns. reads (ord ! k) (node_output p) \<longrightarrow>
          p \<in> set (take k ord) \<or> p = ord ! k \<and> OP_IS_STATEFUL (node_op p))"

definition pre_ids :: "blueprint_node list \<Rightarrow> string \<Rightarrow> string set" where
  "pre_ids ns i = (case byId ns i of None \<Rightarrow> {} | Some n \<Rightarrow> producer_ids (drivers ns) n (inputs n))"

lemma byId_Some:
  "distinct (map node_id ns) \<Longrightarrow> byId ns i = Some n \<longleftrightarrow> n \<in> set ns \<and> node_id n = i"
  by (auto simp: byId_def comp_def rev_map [symmetric] map_of_eq_Some_iff)

lemma byId_node [simp]: "distinct (map node_id ns) \<Longrightarrow> n \<in> set ns \<Longrightarrow> byId ns (node_id n) = Some n"
  by (simp add: byId_Some)

lemma finite_pre_ids [simp]: "finite (pre_ids ns i)"
  by (simp add: pre_ids_def split: option.split)

lemma degree_init [simp]: "degree (fold (\<lambda>n deg. AList.update (node_id n) 0 deg) ns deg) j = (if j \<in> node_id ` set ns then 0 else degree deg j)"
  by (induction ns arbitrary: deg) auto

lemma degree_Nil [simp]: "degree [] j = 0"
  by (simp add: degree_def)

lemma graph_of_nodes:
  assumes "link_nodes (drivers ns) ns (fold (\<lambda>n deg. AList.update (node_id n) 0 deg) ns [], \<lambda>_. []) = Inr g"
    and ids: "distinct (map node_id ns)"
  shows "snd g = (\<lambda>p. filter (\<lambda>j. p \<in> pre_ids ns j) (map node_id ns))"
    and "kahn_inv (map node_id ns) (pre_ids ns) (fst g) (map node_id (filter (\<lambda>n. degree (fst g) (node_id n) = 0) ns)) []"
proof -
  note L = link_nodes_Inr [OF assms]
  have deg: "degree (fst g) (node_id n) = int (card (pre_ids ns (node_id n)))" if "n \<in> set ns" for n
    using L that ids by (simp add: pre_ids_def)
  show "snd g = (\<lambda>p. filter (\<lambda>j. p \<in> pre_ids ns j) (map node_id ns))"
  proof
    fix p
    have "filter (\<lambda>n. p \<in> producer_ids (drivers ns) n (inputs n)) ns = filter (\<lambda>n. p \<in> pre_ids ns (node_id n)) ns"
      using ids by (intro filter_cong) (simp_all add: pre_ids_def)
    then show "snd g p = filter (\<lambda>j. p \<in> pre_ids ns j) (map node_id ns)" using L by (simp add: filter_map comp_def)
  qed
  show "kahn_inv (map node_id ns) (pre_ids ns) (fst g) (map node_id (filter (\<lambda>n. degree (fst g) (node_id n) = 0) ns)) []"
    using ids deg by (auto simp: kahn_inv_def closed_order_def distinct_map intro: inj_on_subset distinct_filter)
qed

lemma kahn_on_nodes:
  assumes "link_nodes (drivers ns) ns (fold (\<lambda>n deg. AList.update (node_id n) 0 deg) ns [], \<lambda>_. []) = Inr g"
    and ids: "distinct (map node_id ns)"
    and r: "r = kahn (snd g) (fst g) (map node_id (filter (\<lambda>n. degree (fst g) (node_id n) = 0) ns)) []"
  shows "distinct r" "set r \<subseteq> node_id ` set ns" "closed_order (pre_ids ns) r"
    "\<And>n. n \<in> set ns \<Longrightarrow> pre_ids ns (node_id n) \<subseteq> set r \<Longrightarrow> node_id n \<in> set r"
proof -
  note G = graph_of_nodes [OF assms(1,2)]
  obtain deg' where inv: "kahn_inv (map node_id ns) (pre_ids ns) deg' [] r"
    using kahn_result [OF ids finite_pre_ids G] unfolding r by blast
  then show "distinct r" "set r \<subseteq> node_id ` set ns" "closed_order (pre_ids ns) r" by (auto simp: kahn_inv_def)
  fix n
  assume n: "n \<in> set ns" "pre_ids ns (node_id n) \<subseteq> set r"
  then have "card (pre_ids ns (node_id n) - set r) = 0" by (simp add: Diff_eq_empty_iff [THEN iffD2])
  moreover have "degree deg' (node_id n) = int (card (pre_ids ns (node_id n) - set r)) \<and> (degree deg' (node_id n) = 0 \<longleftrightarrow> node_id n \<in> set r)"
    using inv n(1) unfolding kahn_inv_def by fastforce
  ultimately show "node_id n \<in> set r" by (metis int_ops(1))
qed

lemma pre_ids_iff:
  assumes "distinct (map node_id ns)" "distinct (map node_output ns)" "n \<in> set ns" "p \<in> set ns"
  shows "node_id p \<in> pre_ids ns (node_id n) \<longleftrightarrow> reads n (node_output p) \<and> p \<noteq> n"
proof -
  have "node_id p = node_id q \<Longrightarrow> q \<in> set ns \<Longrightarrow> p = q" for q using assms(1,4) by (auto simp: distinct_map dest: inj_onD)
  then show ?thesis
    using assms by (fastforce simp: pre_ids_def producer_ids_def drivers_Some reads_def)
qed

lemma link_nodes_self_cycle:
  assumes "distinct (map node_id ns)" "distinct (map node_output ns)"
  shows "(\<exists>e. link_nodes (drivers ns) ns g = Inl e) \<longleftrightarrow> (\<exists>n\<in>set ns. self_cycle n)"
proof -
  have "(\<exists>t p. reads n t \<and> drivers ns t = Some p \<and> node_id p = node_id n) \<longleftrightarrow> reads n (node_output n)" if "n \<in> set ns" for n
    using that assms by (auto simp: drivers_Some distinct_map dest: inj_onD)
  then show ?thesis unfolding link_nodes_Inl self_cycle_def by blast
qed

lemma evaluation_orderD:
  assumes "evaluation_order ns ord"
  shows "distinct ord" "set ord = set ns"
    "k < length ord \<Longrightarrow> p \<in> set ns \<Longrightarrow> reads (ord ! k) (node_output p) \<Longrightarrow> p \<in> set (take k ord) \<or> p = ord ! k \<and> OP_IS_STATEFUL (node_op p)"
  using assms unfolding evaluation_order_def by blast+

lemma evaluation_order_self: "evaluation_order ns ord \<Longrightarrow> n \<in> set ns \<Longrightarrow> \<not> self_cycle n"
proof
  assume o: "evaluation_order ns ord" "n \<in> set ns" "self_cycle n"
  then obtain k where k: "k < length ord" "ord ! k = n" by (metis evaluation_order_def in_set_conv_nth)
  then have "n \<in> set (take k ord)" using o(2,3) evaluation_orderD(3) [OF o(1), of k n] by (auto simp: self_cycle_def)
  then obtain j where "j < k" "ord ! j = n" by (auto simp: in_set_conv_nth)
  then show False using k nth_eq_iff_index_eq [OF evaluation_orderD(1) [OF o(1)], of j k] by simp
qed

lemma kahn_complete:
  assumes o: "evaluation_order ns ord" and ids: "distinct (map node_id ns)" and outs: "distinct (map node_output ns)"
    and all: "\<And>n. n \<in> set ns \<Longrightarrow> pre_ids ns (node_id n) \<subseteq> set r \<Longrightarrow> node_id n \<in> set r"
  shows "node_id ` set ns \<subseteq> set r"
proof -
  have "k \<le> length ord \<Longrightarrow> node_id ` set (take k ord) \<subseteq> set r" for k
  proof (induction k)
    case (Suc k)
    let ?n = "ord ! k"
    have n: "?n \<in> set ns" using o Suc.prems by (auto simp: evaluation_order_def)
    have "pre_ids ns (node_id ?n) \<subseteq> set r"
    proof
      fix i
      assume i: "i \<in> pre_ids ns (node_id ?n)"
      then obtain p where p: "p \<in> set ns" "i = node_id p"
        using n ids outs by (auto simp: pre_ids_def producer_ids_def drivers_Some)
      then have "reads ?n (node_output p)" "p \<noteq> ?n" using i pre_ids_iff [OF ids outs n p(1)] by auto
      then have "p \<in> set (take k ord)" using evaluation_orderD(3) [OF o _ p(1), of k] Suc.prems by auto
      then show "i \<in> set r" using Suc p by auto
    qed
    then show ?case using all [OF n] Suc by (simp add: take_Suc_conv_app_nth)
  qed simp
  from this [of "length ord"] o show ?thesis by (simp add: evaluation_order_def)
qed

lemma sorted_ids:
  assumes ids: "distinct (map node_id ns)" and outs: "distinct (map node_output ns)"
    and r: "distinct r" "set r \<subseteq> node_id ` set ns" "closed_order (pre_ids ns) r" "length r = length ns"
    and self: "\<not> (\<exists>n\<in>set ns. self_cycle n)"
  shows "evaluation_order ns (map (\<lambda>i. the (byId ns i)) r)"
proof -
  let ?node = "\<lambda>i. the (byId ns i)"
  have node: "node_id (?node i) = i \<and> ?node i \<in> set ns" if "i \<in> set r" for i using that r(2) ids by auto
  have "card (set r) = card (node_id ` set ns)" using r(1,4) ids by (metis distinct_card length_map list.set_map)
  then have all: "set r = node_id ` set ns" using r(2) by (simp add: card_subset_eq)
  have "?node ` set r = set ns" unfolding all image_image using ids by simp
  moreover have "inj_on ?node (set r)" using node by (intro inj_on_inverseI [of _ node_id]) blast
  moreover have "p \<in> ?node ` set (take k r) \<or> p = ?node (r ! k) \<and> OP_IS_STATEFUL (node_op p)"
    if k: "k < length r" and p: "p \<in> set ns" "reads (?node (r ! k)) (node_output p)" for k p
  proof (cases "p = ?node (r ! k)")
    case True
    then show ?thesis using p self by (auto simp: self_cycle_def)
  next
    case False
    have n: "?node (r ! k) \<in> set ns" "node_id (?node (r ! k)) = r ! k" using node k by auto
    have "node_id p \<in> pre_ids ns (r ! k)" using pre_ids_iff [OF ids outs n(1) p(1)] p(2) False n(2) by simp
    then have "node_id p \<in> set (take k r)" using r(3) k by (auto simp: closed_order_def)
    then have "?node (node_id p) \<in> ?node ` set (take k r)" by (rule imageI)
    then show ?thesis using ids p(1) by simp
  qed
  ultimately show ?thesis using r(1) by (auto simp: evaluation_order_def distinct_map take_map)
qed

text \<open>With unique node identifiers, the sort succeeds exactly when there is an evaluation order, and returns one.\<close>

lemma topoSort_correct:
  assumes ids: "distinct (map node_id ns)" and outs: "distinct (map node_output ns)"
  shows "(\<forall>ord. topoSort ns (drivers ns) = Inr ord \<longrightarrow> evaluation_order ns ord)
    \<and> ((\<exists>ord. evaluation_order ns ord) \<longrightarrow> (\<exists>ord. topoSort ns (drivers ns) = Inr ord))"
proof -
  let ?g0 = "(fold (\<lambda>n deg. AList.update (node_id n) 0 deg) ns [], \<lambda>_. [])"
  show ?thesis
  proof (cases "link_nodes (drivers ns) ns ?g0")
    case (Inl e)
    then have "\<exists>n\<in>set ns. self_cycle n" using link_nodes_self_cycle [OF assms] by blast
    then show ?thesis using Inl evaluation_order_self by (auto simp: topoSort_def)
  next
    case (Inr g)
    define r where r: "r = kahn (snd g) (fst g) (map node_id (filter (\<lambda>n. degree (fst g) (node_id n) = 0) ns)) []"
    note K = kahn_on_nodes [OF Inr ids r]
    have T: "topoSort ns (drivers ns) = (if length r \<noteq> length ns
        then Inl (CombinationalCycle (map node_id (filter (\<lambda>n. n \<notin> set (map (\<lambda>i. the (byId ns i)) r)) ns))) else Inr (map (\<lambda>i. the (byId ns i)) r))"
      using Inr by (simp add: topoSort_def Let_def r)
    show ?thesis
    proof (intro conjI impI allI)
      fix ord
      assume "topoSort ns (drivers ns) = Inr ord"
      then have "length r = length ns" "ord = map (\<lambda>i. the (byId ns i)) r" using T by (auto split: if_splits)
      moreover have "\<not> (\<exists>n\<in>set ns. self_cycle n)" using Inr link_nodes_self_cycle [OF assms, of ?g0] by simp
      ultimately show "evaluation_order ns ord" using sorted_ids [OF ids outs K(1-3)] by simp
    next
      assume "\<exists>ord. evaluation_order ns ord"
      then have "set r = node_id ` set ns" using kahn_complete [OF _ ids outs K(4)] K(2) by blast
      then have "length r = length ns" using K(1) ids by (metis distinct_card length_map list.set_map)
      then show "\<exists>ord. topoSort ns (drivers ns) = Inr ord" using T by simp
    qed
  qed
qed

section \<open>What compiles\<close>

definition node_ok :: "string set \<Rightarrow> blueprint_node \<Rightarrow> bool" where
  "node_ok names n \<longleftrightarrow>
     length (inputs n) = OP_ARITY (node_op n) \<and> node_output n \<in> names \<and> (\<forall>t. reads n t \<longrightarrow> t \<in> names)
     \<and> (OP_USES_PARAM (node_op n) \<longrightarrow> param n \<noteq> None)
     \<and> (node_op n = Op_TON \<longrightarrow> \<not> num_neg (default_zero (param n)))"

definition well_formed :: "blueprint_definition \<Rightarrow> bool" where
  "well_formed def \<longleftrightarrow>
     bd_tags def \<noteq> [] \<and> distinct (map td_name (bd_tags def)) \<and> distinct (map node_output (bd_nodes def))
     \<and> (\<forall>n\<in>set (bd_nodes def). node_ok (td_name ` set (bd_tags def)) n)"

lemma validateNode_None: "validateNode n (tag_slot ts) = None \<longleftrightarrow> node_ok (td_name ` set ts) n"
proof -
  have "unknown_read (tag_slot ts) (inputs n) = None \<longleftrightarrow> (\<forall>t. reads n t \<longrightarrow> t \<in> td_name ` set ts)"
    by (simp add: unknown_read_None tag_slot_None reads_def)
  moreover have "(case param n of None \<Rightarrow> False | Some x \<Rightarrow> num_neg x) = num_neg (default_zero (param n))"
    by (simp add: default_zero_def num_neg_def num_zero_def num_of_int_def split: option.split)
  ultimately show ?thesis
    using OP_ARITY_le [of "node_op n"]
    by (cases "unknown_read (tag_slot ts) (inputs n)") (auto simp: validateNode_def node_ok_def tag_slot_None)
qed

lemma compile_Inr:
  "compileBlueprint def = Inr p \<longleftrightarrow>
     well_formed def \<and> (\<exists>ord. topoSort (bd_nodes def) (drivers (bd_nodes def)) = Inr ord \<and> p = emit def (tag_slot (bd_tags def)) ord)"
proof (cases "index_tags (bd_tags def) 0 Map.empty")
  case (Inl e)
  then have "\<not> distinct (map td_name (bd_tags def))" using index_tags_0 [of "bd_tags def" "tag_slot (bd_tags def)"] by auto
  then show ?thesis using Inl by (simp add: compileBlueprint_def well_formed_def)
next
  case (Inr idx)
  then have idx: "distinct (map td_name (bd_tags def))" "idx = tag_slot (bd_tags def)" by (simp_all add: index_tags_0)
  note V = validate_nodes_iff [of "bd_nodes def" idx Map.empty, unfolded idx(2) validateNode_None]
  show ?thesis
  proof (cases "validate_nodes (bd_nodes def) idx Map.empty")
    case e: (Inl e)
    then have "\<not> well_formed def" using V [of "drivers (bd_nodes def)"] by (auto simp: well_formed_def idx(2))
    then show ?thesis using Inr e by (simp add: compileBlueprint_def)
  next
    case w: (Inr w)
    then have "w = drivers (bd_nodes def)" "bd_tags def = [] \<or> well_formed def" using V [of w] idx by (auto simp: well_formed_def)
    then show ?thesis using Inr w idx(2) by (auto simp: compileBlueprint_def well_formed_def split: sum.splits)
  qed
qed

text \<open>C11: A blueprint whose node identifiers are distinct compiles exactly when it is well formed (tags declared once, nodes
  with the operands and the parameter their operation needs, one driver for each tag) and its nodes have an evaluation
  order, in which every tag is driven before it is read, own state apart. Rejections are thus never spurious and no
  combinational cycle is accepted.
\<close>

theorem compile_accepts_exactly:
  assumes "distinct (map node_id (bd_nodes def))"
  shows "(\<exists>p. compileBlueprint def = Inr p) \<longleftrightarrow> well_formed def \<and> (\<exists>ord. evaluation_order (bd_nodes def) ord)"
  using topoSort_correct [OF assms] by (auto simp: compile_Inr well_formed_def)

section \<open>Indices of the emitted program\<close>

definition program_ok :: "compiled_blueprint \<Rightarrow> bool" where
  "program_ok p \<longleftrightarrow>
     length (opcodes p) = instructionCount p \<and> length (destIndices p) = instructionCount p
     \<and> length (immediates p) = instructionCount p \<and> length (stateIndices p) = instructionCount p
     \<and> length (operandTagIndices p) = instructionCount p * OPERAND_STRIDE
     \<and> length (operandConsts p) = instructionCount p * OPERAND_STRIDE
     \<and> length (initialValues p) = tagCount p
     \<and> (\<forall>d\<in>set (destIndices p). d < tagCount p)
     \<and> (\<forall>i\<in>set (operandTagIndices p). - 1 \<le> i \<and> i < int (tagCount p))
     \<and> (\<forall>i<instructionCount p. opcodes p ! i \<le> 20
          \<and> (19 \<le> opcodes p ! i \<longrightarrow> 0 \<le> stateIndices p ! i \<and> stateIndices p ! i < int (stateCount p)))
     \<and> (\<forall>i\<in>set (inputSlots p) \<union> set (outputSlots p). i < tagCount p)
     \<and> (\<forall>t i. tagIndex p t = Some i \<longrightarrow> i < tagCount p)"

lemma set_kahn: "set (kahn deps deg q ordered) \<subseteq> set ordered \<union> set q \<union> (\<Union>i. set (deps i))"
proof (induction deps deg q ordered rule: kahn.induct)
  case (2 deps deg i q ordered)
  have "set (snd (release ds deg q)) \<subseteq> set q \<union> set ds" for ds deg q
    by (induction ds deg q rule: release.induct) (auto simp: Let_def split: if_splits)
  from this [of "deps i" deg q] show ?case using 2 by (fastforce simp: Let_def)
qed simp

lemma set_link_operands:
  "link_operands w n xs seen g = Inr g' \<Longrightarrow> set (snd g' p) \<subseteq> set (snd g p) \<union> {node_id n}"
  by (induction w n xs seen g rule: link_operands.induct) (fastforce split: option.splits if_splits)+

lemma set_link_nodes:
  "link_nodes w ns g = Inr g' \<Longrightarrow> set (snd g' p) \<subseteq> set (snd g p) \<union> node_id ` set ns"
proof (induction ns arbitrary: g)
  case (Cons n ns)
  then obtain g1 where g1: "link_operands w n (inputs n) [] g = Inr g1" "link_nodes w ns g1 = Inr g'" by (auto split: sum.splits)
  then show ?case using set_link_operands [OF g1(1)] Cons.IH [OF g1(2)] by fastforce
qed simp

lemma byId_in: "i \<in> node_id ` set ns \<Longrightarrow> the (byId ns i) \<in> set ns"
proof -
  assume "i \<in> node_id ` set ns"
  then have "byId ns i \<noteq> None" by (simp add: byId_def map_of_eq_None_iff image_image)
  then obtain n where "map_of (rev (map (\<lambda>n. (node_id n, n)) ns)) i = Some n" by (auto simp: byId_def)
  from this map_of_SomeD [OF this] show ?thesis by (auto simp: byId_def)
qed

lemma topoSort_subset: "topoSort ns w = Inr ord \<Longrightarrow> set ord \<subseteq> set ns"
proof -
  assume t: "topoSort ns w = Inr ord"
  then obtain g where g: "link_nodes w ns (fold (\<lambda>n deg. AList.update (node_id n) 0 deg) ns [], \<lambda>_. []) = Inr g"
    by (auto simp: topoSort_def Let_def split: sum.splits)
  let ?q = "map node_id (filter (\<lambda>n. degree (fst g) (node_id n) = 0) ns)"
  have "set (snd g i) \<subseteq> node_id ` set ns" for i using set_link_nodes [OF g, of i] by simp
  then have "set (kahn (snd g) (fst g) ?q []) \<subseteq> node_id ` set ns" using set_kahn [of "snd g" "fst g" ?q "[]"] by fastforce
  moreover have "ord = map (\<lambda>i. the (byId ns i)) (kahn (snd g) (fst g) ?q [])"
    using t g by (auto simp: topoSort_def Let_def split: if_splits)
  ultimately show ?thesis by (auto intro!: byId_in)
qed

lemma alloc_slots_bound:
  assumes "alloc_slots ns c sl = (c', sl')" "\<And>i s. sl i = Some s \<Longrightarrow> s < c"
  shows "c \<le> c' \<and> (\<forall>i s. sl' i = Some s \<longrightarrow> s < c') \<and> (\<forall>n\<in>set ns. OP_IS_STATEFUL (node_op n) \<longrightarrow> sl' (node_id n) \<noteq> None)
    \<and> (\<forall>i. sl i \<noteq> None \<longrightarrow> sl' i \<noteq> None)"
  using assms
proof (induction ns c sl rule: alloc_slots.induct)
  case (2 n ns c sl)
  show ?case
  proof (cases "OP_IS_STATEFUL (node_op n)")
    case True
    have "(sl(node_id n \<mapsto> c)) i = Some s \<Longrightarrow> s < c + 1" for i s using 2(4) by (auto split: if_splits intro: less_SucI)
    note IH = 2(1) [OF True _ this]
    have "c + 1 \<le> c' \<and> (\<forall>i s. sl' i = Some s \<longrightarrow> s < c') \<and> (\<forall>n\<in>set ns. OP_IS_STATEFUL (node_op n) \<longrightarrow> sl' (node_id n) \<noteq> None)
        \<and> (\<forall>i. (sl(node_id n \<mapsto> c)) i \<noteq> None \<longrightarrow> sl' i \<noteq> None)"
      by (rule IH) (use 2(3) True in \<open>simp del: fun_upd_apply\<close>)
    then show ?thesis by auto
  qed (use 2 in auto)
qed auto

lemma opcode_le: "OP_TO_OPCODE q \<le> 20" and opcode_stateful: "19 \<le> OP_TO_OPCODE q \<longleftrightarrow> OP_IS_STATEFUL q"
  by (cases q; simp add: OP_IS_STATEFUL_def)+

lemma length_concat_stride: "length (concat (map (\<lambda>n. map (f n) [0..<OPERAND_STRIDE]) ns)) = length ns * OPERAND_STRIDE"
  by (induction ns) auto

lemma operand_tag_index_range:
  assumes "node_ok (td_name ` set ts) n" "distinct (map td_name ts)"
  shows "- 1 \<le> operand_tag_index (tag_slot ts) n k \<and> operand_tag_index (tag_slot ts) n k < int (length ts)"
proof (cases "k < length (inputs n) \<and> (\<exists>t. inputs n ! k = Tag t)")
  case True
  then obtain t where t: "k < length (inputs n)" "inputs n ! k = Tag t" by blast
  then have "t \<in> td_name ` set ts" using assms(1) by (metis node_ok_def nth_mem reads_def)
  then show ?thesis using t the_tag_slot(1) [OF assms(2)] by (simp add: operand_tag_index_def)
qed (auto simp: operand_tag_index_def split: blueprint_operand.splits)

text \<open>C31: Every index in a compiled program is in range: destinations, operands and input and output slots are slots of the
  tag buffer, a latch or a timer has a slot of the state buffer, and the arrays have the lengths the runtime reads.
  This holds for every blueprint the compiler accepts.
\<close>

theorem compiled_indices_in_range:
  assumes "compileBlueprint def = Inr p"
  shows "program_ok p"
proof -
  let ?ts = "bd_tags def"
  obtain ord where ord: "topoSort (bd_nodes def) (drivers (bd_nodes def)) = Inr ord" "p = emit def (tag_slot ?ts) ord"
    and wf: "well_formed def" using assms by (auto simp: compile_Inr)
  have ok: "node_ok (td_name ` set ?ts) n" if "n \<in> set ord" for n
    using that topoSort_subset [OF ord(1)] wf by (auto simp: well_formed_def)
  have names: "distinct (map td_name ?ts)" using wf by (simp add: well_formed_def)
  have dest: "the (tag_slot ?ts (node_output n)) < length ?ts" if "n \<in> set ord" for n
    using ok [OF that] the_tag_slot(1) [OF names] by (simp add: node_ok_def)
  obtain c sl where sl: "alloc_slots ord 0 Map.empty = (c, sl)" by (cases "alloc_slots ord 0 Map.empty")
  have "\<exists>s. sl (node_id n) = Some s \<and> s < c" if "n \<in> set ord" "OP_IS_STATEFUL (node_op n)" for n
    using alloc_slots_bound [OF sl] that by fastforce
  then have state: "0 \<le> stateIndices p ! i \<and> stateIndices p ! i < int (stateCount p)"
    if "i < length ord" "OP_IS_STATEFUL (node_op (ord ! i))" for i
    using that nth_mem [OF that(1)] by (force simp: ord(2) emit_def sl)
  show ?thesis
    using dest operand_tag_index_range [OF ok names] state tag_slot_Some [OF names]
    by (auto simp: program_ok_def ord(2) emit_def sl opcode_le opcode_stateful slots_of_def length_concat_stride)
qed

section \<open>Examples\<close>

text \<open>
  A pump with a start and a stop button: the run command is latched, and the lamp follows the run command. The nodes are
  written in reverse order of evaluation.
\<close>

definition tag_of :: "string \<Rightarrow> tag_direction \<Rightarrow> tag_descriptor" where
  "tag_of n d = \<lparr> td_name = n, direction = d, dataType = Bool_Tag, initial = None \<rparr>"

definition lamp_node :: blueprint_node where
  "lamp_node = \<lparr> node_id = ''lamp'', node_op = Op_MOVE, inputs = [Tag ''RUN''], node_output = ''LAMP'', param = None \<rparr>"

definition latch_node :: blueprint_node where
  "latch_node = \<lparr> node_id = ''latch'', node_op = Op_LATCH, inputs = [Tag ''START'', Tag ''STOP''], node_output = ''RUN'', param = None \<rparr>"

definition pump_tags :: "tag_descriptor list" where
  "pump_tags = [tag_of ''START'' Input, tag_of ''STOP'' Input, tag_of ''RUN'' Output, tag_of ''LAMP'' Output]"

definition pump :: blueprint_definition where
  "pump = \<lparr> bd_id = ''pump'', bd_name = ''Pump'', bd_tags = pump_tags, bd_nodes = [lamp_node, latch_node], bd_scanPeriodMs = None \<rparr>"

lemmas example_simps = pump_def pump_tags_def tag_of_def lamp_node_def latch_node_def

lemma pump_well_formed: "well_formed pump" "distinct (map node_id (bd_nodes pump))"
  by (auto simp: example_simps well_formed_def node_ok_def reads_def OP_USES_PARAM_def)

lemma pump_order: "evaluation_order (bd_nodes pump) [latch_node, lamp_node]"
  by (auto simp: example_simps evaluation_order_def reads_def less_Suc_eq)

theorem compile_accepts_exactly_witness: "\<exists>p. compileBlueprint pump = Inr p"
  using compile_accepts_exactly [OF pump_well_formed(2)] pump_well_formed(1) pump_order by blast

theorem compiled_indices_in_range_witness: "\<exists>p. compileBlueprint pump = Inr p \<and> program_ok p"
  using topoSort_correct [OF pump_well_formed(2)] pump_well_formed(1) pump_order compiled_indices_in_range
  by (metis compile_Inr well_formed_def)

text \<open>
  Node identifiers are documented as unique, but no check enforces it. With two nodes of one identifier, the second is
  emitted twice and the first is dropped, without an error.
\<close>

definition twin_node :: "string \<Rightarrow> string \<Rightarrow> blueprint_node" where
  "twin_node src dst = \<lparr> node_id = ''n'', node_op = Op_MOVE, inputs = [Tag src], node_output = dst, param = None \<rparr>"

definition twins :: blueprint_definition where
  "twins = \<lparr> bd_id = ''twins'', bd_name = ''Twins'', bd_tags = pump_tags,
     bd_nodes = [twin_node ''START'' ''RUN'', twin_node ''STOP'' ''LAMP''], bd_scanPeriodMs = None \<rparr>"

lemma duplicate_ids_drop_a_node:
  "topoSort (bd_nodes twins) (drivers (bd_nodes twins)) = Inr [twin_node ''STOP'' ''LAMP'', twin_node ''STOP'' ''LAMP'']"
  by (simp add: twins_def twin_node_def topoSort_def drivers_def degree_def byId_def OP_IS_STATEFUL_def)

text \<open>
  The comment on the sort says that a cycle through a stateful node does not count as a cycle. Only a stateful node that
  reads its own tag is exempt: feedback through a latch and one more node is rejected.
\<close>

definition stop_node :: blueprint_node where
  "stop_node = \<lparr> node_id = ''stop'', node_op = Op_MOVE, inputs = [Tag ''RUN''], node_output = ''STOP'', param = None \<rparr>"

lemma latch_feedback_rejected:
  "topoSort [latch_node, stop_node] (drivers [latch_node, stop_node]) = Inl (CombinationalCycle [''latch'', ''stop''])"
  by (simp add: latch_node_def stop_node_def topoSort_def drivers_def degree_def byId_def OP_IS_STATEFUL_def)

end
