(* ===== verification/Blueprint_Runtime.thy ===== *)
theory Blueprint_Runtime
  imports Blueprint_Compiler
begin

text \<open>
  The blueprint runtime (\<open>server/blueprint/runtime.ts\<close>): one scan over the compiled instruction stream, and access to tags. The
  meaning of a blueprint is given by equations between the tags before and after a scan, with no order in it; the lemmas
  show that a scan of the compiled program computes their only solution.
\<close>

section \<open>The runtime\<close>

record runtime =
  program :: compiled_blueprint
  tagBuffer :: "number list"
  stateBuffer :: "number list"
  tickNumber :: nat

definition new_runtime :: "compiled_blueprint \<Rightarrow> runtime" where
  "new_runtime p =
     \<lparr> program = p, tagBuffer = initialValues p, stateBuffer = replicate (stateCount p) num_zero, tickNumber = 0 \<rparr>"

definition scanPeriodSeconds :: "compiled_blueprint \<Rightarrow> number" where
  "scanPeriodSeconds p = num_div (num_of_int (int (scanPeriodMs p))) (num_of_int 1000)"

definition num_bool :: "bool \<Rightarrow> number" where
  "num_bool b = num_of_int (if b then 1 else 0)"

text \<open>The \<open>switch\<close> of \<open>tickFast\<close>: the output and the new state of an instruction. Only a latch and a timer have state.\<close>

definition instr_result :: "nat \<Rightarrow> number \<Rightarrow> number \<Rightarrow> number \<Rightarrow> number \<Rightarrow> number \<Rightarrow> number \<Rightarrow> number \<times> number" where
  "instr_result code dt imm a b c q =
     (if code = 0 then (num_bool (num_nonzero a \<and> num_nonzero b), q)
      else if code = 1 then (num_bool (num_nonzero a \<or> num_nonzero b), q)
      else if code = 2 then (num_bool (\<not> num_nonzero a), q)
      else if code = 3 then (num_bool (num_nonzero a \<noteq> num_nonzero b), q)
      else if code = 4 then (num_bool (num_lt b a), q)
      else if code = 5 then (num_bool (num_le b a), q)
      else if code = 6 then (num_bool (num_lt a b), q)
      else if code = 7 then (num_bool (num_le a b), q)
      else if code = 8 then (num_bool (num_eq a b), q)
      else if code = 9 then (num_bool (\<not> num_eq a b), q)
      else if code = 10 then (num_add a b, q)
      else if code = 11 then (num_sub a b, q)
      else if code = 12 then (num_mul a b, q)
      else if code = 13 then (if num_nonzero b then num_div a b else num_zero, q)
      else if code = 14 then (if num_lt a b then a else b, q)
      else if code = 15 then (if num_lt b a then a else b, q)
      else if code = 16 then (if num_nonzero a then b else c, q)
      else if code = 17 then (a, q)
      else if code = 18 then (imm, q)
      else if code = 19 then
        (let q = (if num_nonzero b then num_zero else q); q = (if num_nonzero a then num_bool True else q) in (q, q))
      else if code = 20 then
        (if num_nonzero a
         then (let elapsed = num_add q dt in if num_le imm elapsed then (num_bool True, imm) else (num_zero, elapsed))
         else (num_zero, num_zero))
      else (num_zero, q))"

definition operand :: "compiled_blueprint \<Rightarrow> number list \<Rightarrow> nat \<Rightarrow> nat \<Rightarrow> number" where
  "operand p tags i k =
     (let j = operandTagIndices p ! (i * OPERAND_STRIDE + k)
      in if 0 \<le> j then tags ! nat j else operandConsts p ! (i * OPERAND_STRIDE + k))"

definition exec_instr :: "compiled_blueprint \<Rightarrow> nat \<Rightarrow> number list \<times> number list \<Rightarrow> number list \<times> number list" where
  "exec_instr p i ts =
     (case ts of (tags, state) \<Rightarrow>
        (let code = opcodes p ! i;
             s = nat (stateIndices p ! i);
             (out, q) = instr_result code (scanPeriodSeconds p) (immediates p ! i)
                          (operand p tags i 0) (operand p tags i 1) (operand p tags i 2) (if 19 \<le> code then state ! s else num_zero)
         in (tags[destIndices p ! i := out], if code = 19 \<or> code = 20 then state[s := q] else state)))"

definition tickFast :: "runtime \<Rightarrow> runtime" where
  "tickFast rt =
     (case fold (exec_instr (program rt)) [0..<instructionCount (program rt)] (tagBuffer rt, stateBuffer rt) of
        (tags, state) \<Rightarrow> rt \<lparr> tagBuffer := tags, stateBuffer := state, tickNumber := tickNumber rt + 1 \<rparr>)"

datatype range_error = UnknownTag string | WrongCount

fun write_slots :: "(nat \<times> number) list \<Rightarrow> number list \<Rightarrow> number list" where
  "write_slots [] tags = tags"
| "write_slots ((i, v) # xs) tags = write_slots xs (tags[i := v])"

definition writeInputs :: "number list \<Rightarrow> runtime \<Rightarrow> range_error + runtime" where
  "writeInputs values rt =
     (if length values \<noteq> length (inputSlots (program rt)) then Inl WrongCount
      else Inr (rt \<lparr> tagBuffer := write_slots (zip (inputSlots (program rt)) values) (tagBuffer rt) \<rparr>))"

definition readOutputs :: "number list \<Rightarrow> runtime \<Rightarrow> range_error + number list" where
  "readOutputs out rt =
     (if length out \<noteq> length (outputSlots (program rt)) then Inl WrongCount
      else Inr (map (\<lambda>i. tagBuffer rt ! i) (outputSlots (program rt))))"

definition get_tag :: "string \<Rightarrow> runtime \<Rightarrow> range_error + number" where
  "get_tag name rt =
     (case tagIndex (program rt) name of None \<Rightarrow> Inl (UnknownTag name) | Some i \<Rightarrow> Inr (tagBuffer rt ! i))"

definition set_tag :: "string \<Rightarrow> number \<Rightarrow> runtime \<Rightarrow> range_error + runtime" where
  "set_tag name v rt =
     (case tagIndex (program rt) name of
        None \<Rightarrow> Inl (UnknownTag name)
      | Some i \<Rightarrow> Inr (rt \<lparr> tagBuffer := (tagBuffer rt)[i := v] \<rparr>))"

definition reset_runtime :: "runtime \<Rightarrow> runtime" where
  "reset_runtime rt = rt \<lparr> tagBuffer := initialValues (program rt), stateBuffer := replicate (stateCount (program rt)) num_zero, tickNumber := 0 \<rparr>"

section \<open>What a blueprint means\<close>

text \<open>The operations, by name.\<close>

fun op_meaning :: "blueprint_op \<Rightarrow> number \<Rightarrow> number \<Rightarrow> number \<Rightarrow> number \<Rightarrow> number \<Rightarrow> number \<Rightarrow> number \<times> number" where
  "op_meaning Op_AND dt imm a b c q = (num_bool (num_nonzero a \<and> num_nonzero b), q)"
| "op_meaning Op_OR dt imm a b c q = (num_bool (num_nonzero a \<or> num_nonzero b), q)"
| "op_meaning Op_NOT dt imm a b c q = (num_bool (\<not> num_nonzero a), q)"
| "op_meaning Op_XOR dt imm a b c q = (num_bool (num_nonzero a \<noteq> num_nonzero b), q)"
| "op_meaning Op_GT dt imm a b c q = (num_bool (num_lt b a), q)"
| "op_meaning Op_GTE dt imm a b c q = (num_bool (num_le b a), q)"
| "op_meaning Op_LT dt imm a b c q = (num_bool (num_lt a b), q)"
| "op_meaning Op_LTE dt imm a b c q = (num_bool (num_le a b), q)"
| "op_meaning Op_EQ dt imm a b c q = (num_bool (num_eq a b), q)"
| "op_meaning Op_NEQ dt imm a b c q = (num_bool (\<not> num_eq a b), q)"
| "op_meaning Op_ADD dt imm a b c q = (num_add a b, q)"
| "op_meaning Op_SUB dt imm a b c q = (num_sub a b, q)"
| "op_meaning Op_MUL dt imm a b c q = (num_mul a b, q)"
| "op_meaning Op_DIV dt imm a b c q = (if num_nonzero b then num_div a b else num_zero, q)"
| "op_meaning Op_MIN dt imm a b c q = (if num_lt a b then a else b, q)"
| "op_meaning Op_MAX dt imm a b c q = (if num_lt b a then a else b, q)"
| "op_meaning Op_SELECT dt imm a b c q = (if num_nonzero a then b else c, q)"
| "op_meaning Op_MOVE dt imm a b c q = (a, q)"
| "op_meaning Op_CONST dt imm a b c q = (imm, q)"
| "op_meaning Op_LATCH dt imm a b c q =
     (let v = (if num_nonzero a then num_bool True else if num_nonzero b then num_zero else q) in (v, v))"
| "op_meaning Op_TON dt imm a b c q =
     (if \<not> num_nonzero a then (num_zero, num_zero)
      else if num_le imm (num_add q dt) then (num_bool True, imm)
      else (num_zero, num_add q dt))"

definition operand_value :: "(string \<Rightarrow> number) \<Rightarrow> blueprint_node \<Rightarrow> nat \<Rightarrow> number" where
  "operand_value env n k =
     (if k < length (inputs n) then (case inputs n ! k of Tag t \<Rightarrow> env t | Const v \<Rightarrow> v) else num_zero)"

definition node_value :: "number \<Rightarrow> (string \<Rightarrow> number) \<Rightarrow> number \<Rightarrow> blueprint_node \<Rightarrow> number \<times> number" where
  "node_value dt env q n =
     op_meaning (node_op n) dt (if OP_USES_PARAM (node_op n) then default_zero (param n) else num_zero)
       (operand_value env n 0) (operand_value env n 1) (operand_value env n 2) q"

text \<open>
  A node sees the new value of a tag that another node drives, and the old value of every other tag (an input, an undriven
  tag, its own output).
\<close>

definition seen_by :: "blueprint_node list \<Rightarrow> blueprint_node \<Rightarrow> (string \<Rightarrow> number) \<Rightarrow> (string \<Rightarrow> number) \<Rightarrow> string \<Rightarrow> number" where
  "seen_by ns n T T' t = (if \<exists>p\<in>set ns. p \<noteq> n \<and> node_output p = t then T' t else T t)"

definition solves :: "blueprint_node list \<Rightarrow> number \<Rightarrow> (string \<Rightarrow> number) \<times> (string \<Rightarrow> number) \<Rightarrow> (string \<Rightarrow> number) \<times> (string \<Rightarrow> number) \<Rightarrow> bool" where
  "solves ns dt before after \<longleftrightarrow>
     (\<forall>n\<in>set ns. (fst after (node_output n), snd after (node_id n))
                  = node_value dt (seen_by ns n (fst before) (fst after)) (snd before (node_id n)) n)
     \<and> (\<forall>t. t \<notin> node_output ` set ns \<longrightarrow> fst after t = fst before t)
     \<and> (\<forall>i. i \<notin> node_id ` set ns \<longrightarrow> snd after i = snd before i)"

section \<open>Scanning nodes in order\<close>

definition scan_node :: "number \<Rightarrow> blueprint_node \<Rightarrow> (string \<Rightarrow> number) \<times> (string \<Rightarrow> number) \<Rightarrow> (string \<Rightarrow> number) \<times> (string \<Rightarrow> number)" where
  "scan_node dt n TS =
     (case node_value dt (fst TS) (snd TS (node_id n)) n of (v, q) \<Rightarrow> ((fst TS)(node_output n := v), (snd TS)(node_id n := q)))"

lemma scan_node_other:
  "t \<noteq> node_output n \<Longrightarrow> fst (scan_node dt n TS) t = fst TS t" "i \<noteq> node_id n \<Longrightarrow> snd (scan_node dt n TS) i = snd TS i"
  by (auto simp: scan_node_def split: prod.splits)

lemma scan_untouched:
  "t \<notin> node_output ` set ns \<Longrightarrow> fst (fold (scan_node dt) ns TS) t = fst TS t"
  "i \<notin> node_id ` set ns \<Longrightarrow> snd (fold (scan_node dt) ns TS) i = snd TS i"
  by (induction ns arbitrary: TS) (auto simp: scan_node_other)

lemma node_value_cong:
  "(\<And>t. reads n t \<Longrightarrow> env t = env' t) \<Longrightarrow> node_value dt env q n = node_value dt env' q n"
proof -
  assume e: "\<And>t. reads n t \<Longrightarrow> env t = env' t"
  have "operand_value env n k = operand_value env' n k" for k
    using e by (auto simp: operand_value_def reads_def split: blueprint_operand.split dest: nth_mem)
  then show ?thesis by (simp add: node_value_def)
qed

lemma order_split:
  assumes o: "evaluation_order ns ord" and d: "distinct (map node_id ns)" "distinct (map node_output ns)" and n: "n \<in> set ns"
  obtains xs ys where "ord = xs @ n # ys" "node_output n \<notin> node_output ` set (xs @ ys)" "node_id n \<notin> node_id ` set (xs @ ys)"
    "\<And>p. p \<in> set ns \<Longrightarrow> reads n (node_output p) \<Longrightarrow> p \<noteq> n \<Longrightarrow> p \<in> set xs"
proof -
  obtain k where k: "k < length ord" "ord ! k = n" using n evaluation_orderD(2) [OF o] by (metis in_set_conv_nth)
  define xs ys where xy: "xs = take k ord" "ys = drop (Suc k) ord"
  have ord: "ord = xs @ n # ys" unfolding xy using k id_take_nth_drop [OF k(1)] by simp
  have inj: "inj_on node_id (set ns)" "inj_on node_output (set ns)" using d by (auto simp: distinct_map)
  have "set (xs @ ys) \<subseteq> set ns" "n \<notin> set (xs @ ys)"
    using evaluation_orderD(1,2) [OF o] by (auto simp: ord)
  then have "node_output n \<notin> node_output ` set (xs @ ys)" "node_id n \<notin> node_id ` set (xs @ ys)"
    using n inj inj_on_image_mem_iff [of _ "set ns" n "set (xs @ ys)"] by blast+
  moreover have "p \<in> set xs" if "p \<in> set ns" "reads n (node_output p)" "p \<noteq> n" for p
    using evaluation_orderD(3) [OF o k(1) that(1)] k that by (simp add: xy)
  ultimately show thesis using that [OF ord] by blast
qed

lemma scan_solves:
  assumes o: "evaluation_order ns ord" and d: "distinct (map node_id ns)" "distinct (map node_output ns)"
  shows "solves ns dt TS (fold (scan_node dt) ord TS)"
proof -
  let ?after = "fold (scan_node dt) ord TS"
  have set: "set ord = set ns" using evaluation_orderD(2) [OF o] .
  have "(fst ?after (node_output n), snd ?after (node_id n))
      = node_value dt (seen_by ns n (fst TS) (fst ?after)) (snd TS (node_id n)) n" if n: "n \<in> set ns" for n
  proof -
    obtain xs ys where ord: "ord = xs @ n # ys" and out: "node_output n \<notin> node_output ` set (xs @ ys)"
      and nid: "node_id n \<notin> node_id ` set (xs @ ys)"
      and pre: "\<And>p. p \<in> set ns \<Longrightarrow> reads n (node_output p) \<Longrightarrow> p \<noteq> n \<Longrightarrow> p \<in> set xs"
      using order_split [OF o d n] by blast
    define mid where "mid = fold (scan_node dt) xs TS"
    have after: "?after = fold (scan_node dt) ys (scan_node dt n mid)" by (simp add: ord mid_def)
    have "(fst ?after (node_output n), snd ?after (node_id n)) = node_value dt (fst mid) (snd mid (node_id n)) n"
    proof -
      have "node_output n \<notin> node_output ` set ys" "node_id n \<notin> node_id ` set ys" using out nid by auto
      then show ?thesis unfolding after by (simp add: scan_untouched) (simp add: scan_node_def split: prod.split)
    qed
    also have "snd mid (node_id n) = snd TS (node_id n)" unfolding mid_def by (rule scan_untouched) (use nid in auto)
    also have "node_value dt (fst mid) (snd TS (node_id n)) n = node_value dt (seen_by ns n (fst TS) (fst ?after)) (snd TS (node_id n)) n"
    proof (rule node_value_cong)
      fix t
      assume t: "reads n t"
      show "fst mid t = seen_by ns n (fst TS) (fst ?after) t"
      proof (cases "\<exists>p\<in>set ns. p \<noteq> n \<and> node_output p = t")
        case True
        then obtain p where p: "p \<in> set ns" "p \<noteq> n" "node_output p = t" by blast
        then have "p \<in> set xs" using pre t by blast
        then have "t \<notin> node_output ` set ys" "t \<noteq> node_output n"
          using p d(2) set n evaluation_orderD(1) [OF o] by (auto simp: ord distinct_map dest: inj_onD)
        then show ?thesis using True unfolding after by (auto simp: seen_by_def scan_untouched scan_node_other)
      next
        case False
        then have "t \<notin> node_output ` set xs" using out set by (auto simp: ord)
        then show ?thesis using False by (auto simp: seen_by_def mid_def scan_untouched)
      qed
    qed
    finally show ?thesis .
  qed
  then show ?thesis using set by (simp add: solves_def scan_untouched)
qed

lemma solves_unique:
  assumes o: "evaluation_order ns ord" and d: "distinct (map node_id ns)" "distinct (map node_output ns)"
    and a: "solves ns dt TS A" and b: "solves ns dt TS B"
  shows "A = B"
proof -
  have agree: "k \<le> length ord \<Longrightarrow> n \<in> set (take k ord) \<Longrightarrow>
      fst A (node_output n) = fst B (node_output n) \<and> snd A (node_id n) = snd B (node_id n)" for k n
  proof (induction k arbitrary: n)
    case (Suc k)
    show ?case
    proof (cases "n \<in> set (take k ord)")
      case False
      then have k: "k < length ord" "ord ! k = n" using Suc.prems by (auto simp: take_Suc_conv_app_nth)
      have n: "n \<in> set ns" using nth_mem [OF k(1)] k(2) evaluation_orderD(2) [OF o] by simp
      have "node_value dt (seen_by ns n (fst TS) (fst A)) (snd TS (node_id n)) n
          = node_value dt (seen_by ns n (fst TS) (fst B)) (snd TS (node_id n)) n"
      proof (rule node_value_cong)
        fix t
        assume t: "reads n t"
        have "fst A t = fst B t" if p: "p \<in> set ns" "p \<noteq> n" "node_output p = t" for p
        proof -
          have "p \<in> set (take k ord)" using evaluation_orderD(3) [OF o k(1) p(1)] t p(2,3) k(2) by simp
          then show ?thesis using Suc.IH [of p] k(1) p(3) by simp
        qed
        then show "seen_by ns n (fst TS) (fst A) t = seen_by ns n (fst TS) (fst B) t" by (auto simp: seen_by_def)
      qed
      then show ?thesis using a b n unfolding solves_def by (metis prod.inject)
    qed (use Suc in auto)
  qed simp
  have nodes: "fst A (node_output n) = fst B (node_output n) \<and> snd A (node_id n) = snd B (node_id n)" if "n \<in> set ns" for n
    using agree [of "length ord" n] that evaluation_orderD(2) [OF o] by simp
  have "fst A t = fst B t" for t
    using nodes a b by (cases "t \<in> node_output ` set ns") (auto simp: solves_def)
  moreover have "snd A i = snd B i" for i
    using nodes a b by (cases "i \<in> node_id ` set ns") (auto simp: solves_def)
  ultimately show ?thesis by (simp add: prod_eq_iff fun_eq_iff)
qed

section \<open>The compiled program scans the nodes\<close>

text \<open>The order of the nodes in the instruction stream, and the buffers read by tag name and by node.\<close>

definition order_of :: "blueprint_definition \<Rightarrow> blueprint_node list" where
  "order_of def = (case topoSort (bd_nodes def) (drivers (bd_nodes def)) of Inl _ \<Rightarrow> [] | Inr ord \<Rightarrow> ord)"

definition slots_by_node :: "blueprint_definition \<Rightarrow> string \<rightharpoonup> nat" where
  "slots_by_node def = snd (alloc_slots (order_of def) 0 Map.empty)"

definition by_tag :: "blueprint_definition \<Rightarrow> number list \<Rightarrow> string \<Rightarrow> number" where
  "by_tag def tags t = (case tag_slot (bd_tags def) t of None \<Rightarrow> num_zero | Some i \<Rightarrow> tags ! i)"

definition by_node :: "blueprint_definition \<Rightarrow> number list \<Rightarrow> string \<Rightarrow> number" where
  "by_node def state i = (case slots_by_node def i of None \<Rightarrow> num_zero | Some s \<Rightarrow> state ! s)"

definition view :: "blueprint_definition \<Rightarrow> number list \<times> number list \<Rightarrow> (string \<Rightarrow> number) \<times> (string \<Rightarrow> number)" where
  "view def ts = (by_tag def (fst ts), by_node def (snd ts))"

lemma instr_result_opcode: "instr_result (OP_TO_OPCODE q) dt imm a b c st = op_meaning q dt imm a b c st"
  by (cases q) (simp_all add: instr_result_def Let_def)

lemma stateless_meaning: "\<not> OP_IS_STATEFUL q \<Longrightarrow> snd (op_meaning q dt imm a b c st) = st"
  by (cases q) (simp_all add: OP_IS_STATEFUL_def)

lemma nth_concat_stride:
  "i < length ns \<Longrightarrow> k < OPERAND_STRIDE \<Longrightarrow> concat (map (\<lambda>n. map (f n) [0..<OPERAND_STRIDE]) ns) ! (i * OPERAND_STRIDE + k) = f (ns ! i) k"
proof (induction ns arbitrary: i)
  case (Cons n ns)
  then show ?case by (cases i) (auto simp: nth_append)
qed simp

lemma alloc_slots_inj:
  assumes "alloc_slots ns c sl = (c', sl')" "distinct (map node_id ns)" "\<And>n. n \<in> set ns \<Longrightarrow> sl (node_id n) = None"
    "\<And>i s. sl i = Some s \<Longrightarrow> s < c" "\<And>i j s. sl i = Some s \<Longrightarrow> sl j = Some s \<Longrightarrow> i = j"
  shows "(\<forall>i j s. sl' i = Some s \<longrightarrow> sl' j = Some s \<longrightarrow> i = j)
    \<and> (\<forall>i. sl' i \<noteq> None \<longleftrightarrow> sl i \<noteq> None \<or> (\<exists>n\<in>set ns. node_id n = i \<and> OP_IS_STATEFUL (node_op n)))"
  using assms
proof (induction ns arbitrary: c sl)
  case (Cons n ns)
  show ?case
  proof (cases "OP_IS_STATEFUL (node_op n)")
    case True
    let ?sl = "sl(node_id n \<mapsto> c)"
    have "(\<forall>i j s. sl' i = Some s \<longrightarrow> sl' j = Some s \<longrightarrow> i = j)
        \<and> (\<forall>i. sl' i \<noteq> None \<longleftrightarrow> ?sl i \<noteq> None \<or> (\<exists>n\<in>set ns. node_id n = i \<and> OP_IS_STATEFUL (node_op n)))"
    proof (rule Cons.IH [of "c + 1"])
      show "alloc_slots ns (c + 1) ?sl = (c', sl')" using Cons.prems(1) True by (simp del: fun_upd_apply)
      show "?sl (node_id m) = None" if "m \<in> set ns" for m
      proof -
        have "node_id m \<noteq> node_id n" using Cons.prems(2) that by (metis distinct.simps(2) image_eqI list.set_map list.simps(9))
        then show ?thesis using Cons.prems(3) that by simp
      qed
      show "s < c + 1" if "?sl i = Some s" for i s using Cons.prems(4) that by (auto split: if_splits intro: less_SucI)
      show "i = j" if "?sl i = Some s" "?sl j = Some s" for i j s
        using Cons.prems(4) [of _ c] Cons.prems(5) that by (auto split: if_splits)
    qed (use Cons.prems(2) in simp)
    then show ?thesis using True by auto
  next
    case False
    then show ?thesis using Cons.IH [of c sl] Cons.prems by auto
  qed
qed auto

lemma compiled_facts:
  assumes "compileBlueprint def = Inr p" "distinct (map node_id (bd_nodes def))"
  shows "p = emit def (tag_slot (bd_tags def)) (order_of def)" "well_formed def" "evaluation_order (bd_nodes def) (order_of def)"
    "distinct (map td_name (bd_tags def))" "distinct (map node_output (bd_nodes def))"
    "distinct (map node_id (order_of def))"
    "\<And>n. n \<in> set (order_of def) \<Longrightarrow> node_ok (td_name ` set (bd_tags def)) n"
proof -
  obtain ord where ord: "topoSort (bd_nodes def) (drivers (bd_nodes def)) = Inr ord" "p = emit def (tag_slot (bd_tags def)) ord"
    and wf: "well_formed def" using assms(1) by (auto simp: compile_Inr)
  have o: "order_of def = ord" using ord(1) by (simp add: order_of_def)
  have outs: "distinct (map node_output (bd_nodes def))" using wf by (simp add: well_formed_def)
  have e: "evaluation_order (bd_nodes def) ord" using topoSort_correct [OF assms(2) outs] ord(1) by blast
  show "p = emit def (tag_slot (bd_tags def)) (order_of def)" "well_formed def" "evaluation_order (bd_nodes def) (order_of def)"
    "distinct (map td_name (bd_tags def))" "distinct (map node_output (bd_nodes def))"
    using ord(2) wf e by (simp_all add: o well_formed_def)
  show "distinct (map node_id (order_of def))"
    using evaluation_orderD(1,2) [OF e] assms(2) by (simp add: o distinct_map)
  show "node_ok (td_name ` set (bd_tags def)) n" if "n \<in> set (order_of def)" for n
    using that evaluation_orderD(2) [OF e] wf by (simp add: o well_formed_def)
qed

lemma operand_view:
  assumes "compileBlueprint def = Inr p" "distinct (map node_id (bd_nodes def))" "i < length (order_of def)" "k < OPERAND_STRIDE"
  shows "operand p tags i k = operand_value (by_tag def tags) (order_of def ! i) k"
proof -
  let ?n = "order_of def ! i"
  note F = compiled_facts [OF assms(1,2)]
  have ok: "node_ok (td_name ` set (bd_tags def)) ?n" using F(7) assms(3) by simp
  have ti: "operandTagIndices p ! (i * OPERAND_STRIDE + k) = operand_tag_index (tag_slot (bd_tags def)) ?n k"
    and co: "operandConsts p ! (i * OPERAND_STRIDE + k) = operand_const ?n k"
    using assms(3,4) by (subst F(1); simp add: emit_def nth_concat_stride split: prod.split)+
  show ?thesis
  proof (cases "k < length (inputs ?n) \<and> (\<exists>t. inputs ?n ! k = Tag t)")
    case True
    then obtain t where t: "k < length (inputs ?n)" "inputs ?n ! k = Tag t" by blast
    then have "t \<in> td_name ` set (bd_tags def)" using ok by (metis node_ok_def nth_mem reads_def)
    then have "tag_slot (bd_tags def) t \<noteq> None" by (simp add: tag_slot_None)
    then show ?thesis using t by (auto simp: operand_def ti co operand_tag_index_def operand_value_def by_tag_def)
  next
    case False
    then show ?thesis
      by (auto simp: operand_def ti co operand_tag_index_def operand_value_def operand_const_def split: blueprint_operand.splits)
  qed
qed

lemma by_tag_update:
  assumes "distinct (map td_name (bd_tags def))" "length tags = length (bd_tags def)" "t \<in> td_name ` set (bd_tags def)"
  shows "by_tag def (tags[the (tag_slot (bd_tags def) t) := v]) = (by_tag def tags)(t := v)"
proof
  fix u
  have slot: "tag_slot (bd_tags def) t = Some (the (tag_slot (bd_tags def) t))" using assms(3) by (simp add: tag_slot_None)
  show "by_tag def (tags[the (tag_slot (bd_tags def) t) := v]) u = ((by_tag def tags)(t := v)) u"
  proof (cases "u = t")
    case True
    then show ?thesis using slot the_tag_slot(1) [OF assms(1,3)] assms(2) by (auto simp: by_tag_def split: option.split)
  next
    case False
    then have "tag_slot (bd_tags def) u = Some i \<Longrightarrow> i \<noteq> the (tag_slot (bd_tags def) t)" for i
      using slot assms(1) by (metis tag_slot_Some)
    then show ?thesis using False by (auto simp: by_tag_def split: option.split)
  qed
qed

lemma slots_by_node_facts:
  assumes "compileBlueprint def = Inr p" "distinct (map node_id (bd_nodes def))"
  shows "slots_by_node def i = Some s \<Longrightarrow> slots_by_node def j = Some s \<Longrightarrow> i = j"
    "n \<in> set (order_of def) \<Longrightarrow> slots_by_node def (node_id n) = None \<longleftrightarrow> \<not> OP_IS_STATEFUL (node_op n)"
    "slots_by_node def i = Some s \<Longrightarrow> s < stateCount p"
    "k < length (order_of def) \<Longrightarrow> stateIndices p ! k = (case slots_by_node def (node_id (order_of def ! k)) of None \<Rightarrow> - 1 | Some s \<Rightarrow> int s)"
proof -
  note F = compiled_facts [OF assms]
  obtain c sl where sl: "alloc_slots (order_of def) 0 Map.empty = (c, sl)" by (cases "alloc_slots (order_of def) 0 Map.empty")
  have v: "slots_by_node def = sl" by (simp add: slots_by_node_def sl)
  note I = alloc_slots_inj [OF sl F(6)] and B = alloc_slots_bound [OF sl]
  show "slots_by_node def i = Some s \<Longrightarrow> slots_by_node def j = Some s \<Longrightarrow> i = j" using I by (simp add: v)
  show "slots_by_node def (node_id n) = None \<longleftrightarrow> \<not> OP_IS_STATEFUL (node_op n)" if n: "n \<in> set (order_of def)" for n
  proof -
    have "m = n" if "m \<in> set (order_of def)" "node_id m = node_id n" for m using that n F(6) by (auto simp: distinct_map dest: inj_onD)
    moreover have "sl (node_id n) \<noteq> None \<longleftrightarrow> (\<exists>m\<in>set (order_of def). node_id m = node_id n \<and> OP_IS_STATEFUL (node_op m))"
      using I by simp
    ultimately show ?thesis using n unfolding v by blast
  qed
  have p: "stateCount p = c" "stateIndices p = map (\<lambda>n. case sl (node_id n) of None \<Rightarrow> - 1 | Some s \<Rightarrow> int s) (order_of def)"
    by (subst F(1), simp add: emit_def sl)+
  show "slots_by_node def i = Some s \<Longrightarrow> s < stateCount p" using B by (simp add: v p)
  show "stateIndices p ! k = (case slots_by_node def (node_id (order_of def ! k)) of None \<Rightarrow> - 1 | Some s \<Rightarrow> int s)"
    if "k < length (order_of def)" using that by (simp add: v p)
qed

lemma exec_instr_view:
  assumes c: "compileBlueprint def = Inr p" and d: "distinct (map node_id (bd_nodes def))" and i: "i < length (order_of def)"
    and l: "length tags = tagCount p" "length state = stateCount p"
  shows "view def (exec_instr p i (tags, state)) = scan_node (scanPeriodSeconds p) (order_of def ! i) (view def (tags, state))"
proof -
  let ?n = "order_of def ! i"
  note F = compiled_facts [OF c d] and S = slots_by_node_facts [OF c d]
  have n: "?n \<in> set (order_of def)" using i by simp
  have p: "opcodes p ! i = OP_TO_OPCODE (node_op ?n)" "destIndices p ! i = the (tag_slot (bd_tags def) (node_output ?n))"
    "immediates p ! i = (if OP_USES_PARAM (node_op ?n) then default_zero (param ?n) else num_zero)" "tagCount p = length (bd_tags def)"
    using i by (subst F(1), simp add: emit_def split: prod.split)+
  have st: "(if 19 \<le> opcodes p ! i then state ! nat (stateIndices p ! i) else num_zero) = by_node def state (node_id ?n)"
    using S(2) [OF n] by (auto simp: p(1) opcode_stateful S(4) [OF i] by_node_def split: option.split)
  obtain v q where v: "node_value (scanPeriodSeconds p) (by_tag def tags) (by_node def state (node_id ?n)) ?n = (v, q)"
    by (cases "node_value (scanPeriodSeconds p) (by_tag def tags) (by_node def state (node_id ?n)) ?n")
  have ops: "operand p tags i k = operand_value (by_tag def tags) ?n k" if "k < 3" for k
    by (rule operand_view [OF c d i]) (use that in \<open>simp add: OPERAND_STRIDE_def\<close>)
  have res: "instr_result (opcodes p ! i) (scanPeriodSeconds p) (immediates p ! i) (operand p tags i 0) (operand p tags i 1)
      (operand p tags i 2) (by_node def state (node_id ?n)) = (v, q)"
    using v by (simp add: ops p(1,3) instr_result_opcode node_value_def)
  have stateful: "(opcodes p ! i = 19 \<or> opcodes p ! i = 20) \<longleftrightarrow> OP_IS_STATEFUL (node_op ?n)"
    unfolding p(1) opcode_stateful [symmetric] using opcode_le [of "node_op ?n"] by auto
  have "by_tag def (tags[the (tag_slot (bd_tags def) (node_output ?n)) := v]) = (by_tag def tags)(node_output ?n := v)"
    using by_tag_update [OF F(4)] l(1) F(7) [OF n] by (simp add: p(4) node_ok_def)
  moreover have "by_node def (if OP_IS_STATEFUL (node_op ?n) then state[nat (stateIndices p ! i) := q] else state)
      = (by_node def state)(node_id ?n := q)"
  proof (cases "OP_IS_STATEFUL (node_op ?n)")
    case True
    then obtain s where s: "slots_by_node def (node_id ?n) = Some s" using S(2) [OF n] by auto
    have "by_node def (state[s := q]) j = ((by_node def state)(node_id ?n := q)) j" for j
    proof (cases "j = node_id ?n")
      case True
      then show ?thesis using s S(3) [OF s] l(2) by (simp add: by_node_def)
    next
      case False
      then have "slots_by_node def j \<noteq> Some s" using S(1) [OF _ s] by blast
      then show ?thesis using False by (auto simp: by_node_def split: option.split)
    qed
    then have "by_node def (state[s := q]) = (by_node def state)(node_id ?n := q)" by (rule ext)
    moreover have "nat (stateIndices p ! i) = s" using s by (simp add: S(4) [OF i])
    ultimately show ?thesis using True by simp
  next
    case False
    then have "q = by_node def state (node_id ?n)" using v stateless_meaning [OF False] by (metis node_value_def snd_conv)
    then show ?thesis using False by simp
  qed
  moreover have "exec_instr p i (tags, state) = (tags[the (tag_slot (bd_tags def) (node_output ?n)) := v],
      if OP_IS_STATEFUL (node_op ?n) then state[nat (stateIndices p ! i) := q] else state)"
    by (simp only: exec_instr_def Let_def prod.case st res stateful p(2))
  ultimately show ?thesis by (simp only: view_def scan_node_def fst_conv snd_conv v prod.case)
qed

lemma exec_instr_lengths:
  "length (fst (exec_instr p i ts)) = length (fst ts) \<and> length (snd (exec_instr p i ts)) = length (snd ts)"
  by (simp add: exec_instr_def Let_def split: prod.split)

lemma tick_view:
  assumes c: "compileBlueprint def = Inr p" and d: "distinct (map node_id (bd_nodes def))"
    and l: "length (fst ts) = tagCount p" "length (snd ts) = stateCount p" and k: "k \<le> length (order_of def)"
  shows "view def (fold (exec_instr p) [0..<k] ts) = fold (scan_node (scanPeriodSeconds p)) (take k (order_of def)) (view def ts)
    \<and> length (fst (fold (exec_instr p) [0..<k] ts)) = tagCount p \<and> length (snd (fold (exec_instr p) [0..<k] ts)) = stateCount p"
  using k
proof (induction k)
  case (Suc k)
  then show ?case
    using exec_instr_view [OF c d, of k "fst (fold (exec_instr p) [0..<k] ts)" "snd (fold (exec_instr p) [0..<k] ts)"]
      exec_instr_lengths [of p k "fold (exec_instr p) [0..<k] ts"]
    by (simp add: take_Suc_conv_app_nth)
qed (simp add: l)

section \<open>A scan computes the only solution\<close>

definition runtime_ok :: "runtime \<Rightarrow> bool" where
  "runtime_ok rt \<longleftrightarrow> length (tagBuffer rt) = tagCount (program rt) \<and> length (stateBuffer rt) = stateCount (program rt)"

definition rt_view :: "blueprint_definition \<Rightarrow> runtime \<Rightarrow> (string \<Rightarrow> number) \<times> (string \<Rightarrow> number)" where
  "rt_view def rt = view def (tagBuffer rt, stateBuffer rt)"

lemma tickFast_program [simp]: "program (tickFast rt) = program rt"
  by (simp add: tickFast_def split: prod.split)

lemma tickFast_ok:
  assumes "runtime_ok rt"
  shows "runtime_ok (tickFast rt)"
proof -
  have "length (fst (fold (exec_instr p) is ts)) = length (fst ts) \<and> length (snd (fold (exec_instr p) is ts)) = length (snd ts)" for p "is" ts
    by (induction "is" arbitrary: ts) (simp_all add: exec_instr_lengths)
  from this [of "program rt" "[0..<instructionCount (program rt)]" "(tagBuffer rt, stateBuffer rt)"] show ?thesis
    using assms by (auto simp: runtime_ok_def tickFast_def split: prod.split)
qed

lemma tickFast_scans:
  assumes c: "compileBlueprint def = Inr p" and d: "distinct (map node_id (bd_nodes def))" and rt: "program rt = p" "runtime_ok rt"
  shows "rt_view def (tickFast rt) = fold (scan_node (scanPeriodSeconds p)) (order_of def) (rt_view def rt)"
proof -
  have "instructionCount p = length (order_of def)"
    by (subst compiled_facts(1) [OF c d]) (simp add: emit_def split: prod.split)
  then show ?thesis
    using tick_view [OF c d, of "(tagBuffer rt, stateBuffer rt)" "length (order_of def)"] rt
    by (auto simp: rt_view_def tickFast_def runtime_ok_def split: prod.split)
qed

lemma tickFast_solves:
  assumes "compileBlueprint def = Inr p" "distinct (map node_id (bd_nodes def))" "program rt = p" "runtime_ok rt"
  shows "solves (bd_nodes def) (scanPeriodSeconds p) (rt_view def rt) TS \<longleftrightarrow> TS = rt_view def (tickFast rt)"
  using scan_solves solves_unique compiled_facts(3,5) [OF assms(1,2)] assms(2) unfolding tickFast_scans [OF assms] by metis

text \<open>C3: For a blueprint whose node ids are distinct, one scan of the compiled program gives every tag and every latch and timer the one value that satisfies the
  blueprint: each node's output is its operation applied to the new values of the tags that other nodes drive and the
  old values of all others, and nothing else changes. No other outcome satisfies these equations.
\<close>

theorem tick_computes_the_blueprint:
  assumes "compileBlueprint def = Inr p" "distinct (map node_id (bd_nodes def))" "program rt = p" "runtime_ok rt"
  shows "solves (bd_nodes def) (scanPeriodSeconds p) (rt_view def rt) TS \<longleftrightarrow> TS = rt_view def (tickFast rt)"
  by (rule tickFast_solves [OF assms])

section \<open>The authoring order is irrelevant\<close>

definition scan_cycle :: "number list \<Rightarrow> runtime \<Rightarrow> runtime" where
  "scan_cycle values rt = (case writeInputs values rt of Inl _ \<Rightarrow> rt | Inr rt' \<Rightarrow> tickFast rt')"

definition same_plant :: "blueprint_definition \<Rightarrow> blueprint_definition \<Rightarrow> runtime \<Rightarrow> runtime \<Rightarrow> bool" where
  "same_plant def def' rt rt' \<longleftrightarrow>
     runtime_ok rt \<and> runtime_ok rt' \<and> compileBlueprint def = Inr (program rt) \<and> compileBlueprint def' = Inr (program rt')
     \<and> tagBuffer rt = tagBuffer rt' \<and> rt_view def rt = rt_view def' rt'"

lemma solves_set:
  assumes "set ns = set ns'"
  shows "solves ns = solves ns'"
proof -
  have "seen_by ns = seen_by ns'" by (simp add: seen_by_def assms fun_eq_iff)
  then show ?thesis by (intro ext) (simp add: solves_def assms)
qed

lemma evaluation_order_set: "set ns = set ns' \<Longrightarrow> evaluation_order ns = evaluation_order ns'"
  by (simp add: evaluation_order_def fun_eq_iff)

lemma by_tag_inj:
  assumes "distinct (map td_name (bd_tags def))" "length xs = length (bd_tags def)" "length ys = length (bd_tags def)" "by_tag def xs = by_tag def ys"
  shows "xs = ys"
proof (rule nth_equalityI)
  fix i
  assume i: "i < length xs"
  have "tag_slot (bd_tags def) (td_name (bd_tags def ! i)) = Some i" using tag_slot_Some [OF assms(1)] i assms(2) by simp
  then show "xs ! i = ys ! i" using fun_cong [OF assms(4), of "td_name (bd_tags def ! i)"] by (simp add: by_tag_def)
qed (use assms in simp)

lemma length_write_slots [simp]: "length (write_slots xs tags) = length tags"
  by (induction xs tags rule: write_slots.induct) auto

lemma compiled_tags:
  assumes "compileBlueprint def = Inr p"
  shows "tagCount p = length (bd_tags def)" "inputSlots p = slots_of Input (bd_tags def)" "outputSlots p = slots_of Output (bd_tags def)"
    "scanPeriodSeconds p = num_div (num_of_int (int (case bd_scanPeriodMs def of None \<Rightarrow> 100 | Some m \<Rightarrow> m))) (num_of_int 1000)"
    "initialValues p = map (\<lambda>t. default_zero (initial t)) (bd_tags def)"
proof -
  obtain ord where p: "p = emit def (tag_slot (bd_tags def)) ord" using assms by (auto simp: compile_Inr)
  show "tagCount p = length (bd_tags def)" "inputSlots p = slots_of Input (bd_tags def)" "outputSlots p = slots_of Output (bd_tags def)"
    "scanPeriodSeconds p = num_div (num_of_int (int (case bd_scanPeriodMs def of None \<Rightarrow> 100 | Some m \<Rightarrow> m))) (num_of_int 1000)"
    "initialValues p = map (\<lambda>t. default_zero (initial t)) (bd_tags def)"
    by (simp_all add: p emit_def scanPeriodSeconds_def split: prod.split option.split)
qed

lemma same_plant_tick:
  assumes same: "same_plant def def' rt rt'" and d: "distinct (map node_id (bd_nodes def))" "distinct (map node_id (bd_nodes def'))"
    and e: "set (bd_nodes def') = set (bd_nodes def)" "bd_tags def' = bd_tags def" "bd_scanPeriodMs def' = bd_scanPeriodMs def"
  shows "same_plant def def' (tickFast rt) (tickFast rt')"
proof -
  have c: "compileBlueprint def = Inr (program rt)" "compileBlueprint def' = Inr (program rt')" and ok: "runtime_ok rt" "runtime_ok rt'"
    and v: "rt_view def rt = rt_view def' rt'" using same by (simp_all add: same_plant_def)
  have dt: "scanPeriodSeconds (program rt) = scanPeriodSeconds (program rt')"
    by (simp add: compiled_tags(4) [OF c(1)] compiled_tags(4) [OF c(2)] e)
  have view: "rt_view def (tickFast rt) = rt_view def' (tickFast rt')"
    using tickFast_solves [OF c(1) d(1) refl ok(1), of "rt_view def (tickFast rt)"] tickFast_solves [OF c(2) d(2) refl ok(2), of "rt_view def (tickFast rt)"]
    by (simp add: solves_set [OF e(1)] v dt)
  have "by_tag def = by_tag def'" by (simp add: by_tag_def e fun_eq_iff)
  then have "by_tag def (tagBuffer (tickFast rt)) = by_tag def (tagBuffer (tickFast rt'))" using view by (simp add: rt_view_def view_def)
  then have "tagBuffer (tickFast rt) = tagBuffer (tickFast rt')"
    using tickFast_ok [OF ok(1)] tickFast_ok [OF ok(2)] compiled_tags(1) [OF c(1)] compiled_tags(1) [OF c(2)] e(2) compiled_facts(4) [OF c(1) d(1)]
    by (intro by_tag_inj [of def]) (simp_all add: runtime_ok_def)
  then show ?thesis using view c ok by (simp add: same_plant_def tickFast_ok)
qed

lemma same_plant_cycle:
  assumes same: "same_plant def def' rt rt'" and d: "distinct (map node_id (bd_nodes def))" "distinct (map node_id (bd_nodes def'))"
    and e: "set (bd_nodes def') = set (bd_nodes def)" "bd_tags def' = bd_tags def" "bd_scanPeriodMs def' = bd_scanPeriodMs def"
  shows "same_plant def def' (scan_cycle v rt) (scan_cycle v rt')"
proof (cases "length v = length (inputSlots (program rt))")
  case True
  have c: "compileBlueprint def = Inr (program rt)" "compileBlueprint def' = Inr (program rt')" using same by (simp_all add: same_plant_def)
  have slots: "inputSlots (program rt') = inputSlots (program rt)" by (simp add: compiled_tags(2) [OF c(1)] compiled_tags(2) [OF c(2)] e)
  let ?w = "\<lambda>rt. rt \<lparr> tagBuffer := write_slots (zip (inputSlots (program rt)) v) (tagBuffer rt) \<rparr>"
  have "same_plant def def' (?w rt) (?w rt')"
    using same by (auto simp: same_plant_def runtime_ok_def rt_view_def view_def slots by_tag_def e fun_eq_iff)
  then show ?thesis using same_plant_tick [OF _ d e] True by (simp add: scan_cycle_def writeInputs_def slots)
next
  case False
  have c: "compileBlueprint def = Inr (program rt)" "compileBlueprint def' = Inr (program rt')" using same by (simp_all add: same_plant_def)
  have slots: "inputSlots (program rt') = inputSlots (program rt)" by (simp add: compiled_tags(2) [OF c(1)] compiled_tags(2) [OF c(2)] e)
  then show ?thesis using same False by (simp add: scan_cycle_def writeInputs_def)
qed

lemma new_runtime_ok:
  assumes "compileBlueprint def = Inr p"
  shows "runtime_ok (new_runtime p)" "program (new_runtime p) = p"
  by (simp_all add: runtime_ok_def new_runtime_def compiled_tags [OF assms])

lemma new_runtime_same:
  assumes c: "compileBlueprint def = Inr p" "compileBlueprint def' = Inr p'" and t: "bd_tags def' = bd_tags def"
    and d: "distinct (map node_id (bd_nodes def))" "distinct (map node_id (bd_nodes def'))"
  shows "same_plant def def' (new_runtime p) (new_runtime p')"
proof -
  have "by_node df (replicate (stateCount q) num_zero) = (\<lambda>_. num_zero)"
    if "compileBlueprint df = Inr q" "distinct (map node_id (bd_nodes df))" for df q
    using slots_by_node_facts(3) [OF that] by (auto simp: by_node_def fun_eq_iff split: option.split)
  from this [OF c(1) d(1)] this [OF c(2) d(2)] show ?thesis
    using new_runtime_ok [OF c(1)] new_runtime_ok [OF c(2)] c t compiled_tags(5) [OF c(1)] compiled_tags(5) [OF c(2)]
    by (simp add: same_plant_def rt_view_def view_def new_runtime_def by_tag_def fun_eq_iff)
qed

text \<open>C24: The order in which nodes are written down does not matter. A blueprint with the same nodes (of distinct ids) in another order also
  compiles, and its runtime shows the same outputs as the original's after every sequence of input vectors.
\<close>

theorem authoring_order_irrelevant:
  assumes "compileBlueprint def = Inr p" "distinct (map node_id (bd_nodes def))"
    and "set ns = set (bd_nodes def)" "distinct (map node_id ns)" "distinct (map node_output ns)"
  shows "\<exists>p'. compileBlueprint (def \<lparr> bd_nodes := ns \<rparr>) = Inr p'
    \<and> (\<forall>vs out. readOutputs out (fold scan_cycle vs (new_runtime p')) = readOutputs out (fold scan_cycle vs (new_runtime p)))"
proof -
  let ?def' = "def \<lparr> bd_nodes := ns \<rparr>"
  have "well_formed ?def'" "evaluation_order ns (order_of def)"
    using compiled_facts(2,3) [OF assms(1,2)] assms(3,5) evaluation_order_set [OF assms(3)] by (simp_all add: well_formed_def)
  then obtain p' where p': "compileBlueprint ?def' = Inr p'"
    using topoSort_correct [OF assms(4,5)] compile_Inr [of ?def'] by auto
  have same: "same_plant def ?def' (fold scan_cycle vs (new_runtime p)) (fold scan_cycle vs (new_runtime p'))" for vs
  proof (induction vs rule: rev_induct)
    case Nil
    show ?case using new_runtime_same [OF assms(1) p'] assms by simp
  next
    case (snoc v vs)
    then show ?case using same_plant_cycle [OF snoc, of v] assms by simp
  qed
  have "readOutputs out (fold scan_cycle vs (new_runtime p')) = readOutputs out (fold scan_cycle vs (new_runtime p))" for vs out
  proof -
    let ?r = "fold scan_cycle vs (new_runtime p)" and ?r' = "fold scan_cycle vs (new_runtime p')"
    have "compileBlueprint def = Inr (program ?r)" "compileBlueprint ?def' = Inr (program ?r')" "tagBuffer ?r = tagBuffer ?r'"
      using same [of vs] by (simp_all add: same_plant_def)
    then show ?thesis using compiled_tags(3) [of def "program ?r"] compiled_tags(3) [of ?def' "program ?r'"] by (simp add: readOutputs_def)
  qed
  with p' show ?thesis by blast
qed

theorem tick_computes_the_blueprint_witness:
  "\<exists>p. compileBlueprint pump = Inr p
     \<and> solves (bd_nodes pump) (scanPeriodSeconds p) (rt_view pump (new_runtime p)) (rt_view pump (tickFast (new_runtime p)))"
proof -
  obtain p where p: "compileBlueprint pump = Inr p"
    using topoSort_correct [OF pump_well_formed(2)] pump_well_formed(1) pump_order by (metis compile_Inr well_formed_def)
  then show ?thesis
    using tick_computes_the_blueprint [OF p pump_well_formed(2) new_runtime_ok(2) [OF p] new_runtime_ok(1) [OF p]] by blast
qed

theorem authoring_order_irrelevant_witness:
  "\<exists>p. compileBlueprint (pump \<lparr> bd_nodes := [latch_node, lamp_node] \<rparr>) = Inr p"
proof -
  obtain p where p: "compileBlueprint pump = Inr p"
    using topoSort_correct [OF pump_well_formed(2)] pump_well_formed(1) pump_order by (metis compile_Inr well_formed_def)
  have "set [latch_node, lamp_node] = set (bd_nodes pump)" "distinct (map node_id [latch_node, lamp_node])"
    "distinct (map node_output [latch_node, lamp_node])" by (auto simp: example_simps)
  from authoring_order_irrelevant [OF p pump_well_formed(2) this] show ?thesis by blast
qed

end
