(* ===== verification/Safe_State.thy ===== *)
theory Safe_State
  imports JS_Arith
begin

text \<open>
  The safe-state controller (\<open>server/blueprint/safe-state.ts\<close>, with the configuration of \<open>shared/schema.ts\<close>). A transition runs to
  its end before the next one starts (\<open>runSerializedTransition\<close>), so a run is a sequence of transitions. The actuator is
  given by its calls, \<open>act c s\<close> being whether call \<open>c\<close> returned normally in state \<open>s\<close> and the state it left; the interface
  it owes to the controller is the locale \<open>safe_actuator\<close>. The audit sink, the anchor backend, the clock and the identifiers
  are outside: each transition gets a record of outcomes that says, call by call, what they answer. A failing audit write may
  or may not have been stored. Hashing the JSON text of an event and the texts of errors are parameters.
\<close>

section \<open>Data\<close>

datatype safe_state_action = Hold_Last | Force_Zero | Recipe string

record safe_state_config =
  enabled :: bool
  tickBudgetMs :: nat
  consecutiveMissesBeforeSafeState :: nat
  safeState :: safe_state_action

datatype json = JStr string | JNum nat | JArr "json list" | JObj "(string \<times> json) list" | JNull

datatype anchor_severity = INFO | WARNING | CRITICAL

record anchor_event =
  ae_id :: string
  ae_timestamp :: string
  ae_eventType :: string
  ae_severity :: anchor_severity
  ae_siteId :: "string option"
  ae_message :: string
  ae_data :: "(string \<times> json) list"

record anchor_receipt =
  ar_hash :: string
  ar_txHash :: "string option"

datatype audit_transition = ENTERED | EXIT_REQUESTED | EXITED | RESUME_FAILED | EXIT_ABORTED | RECOVERY_FAILED_T

record audit_entry =
  au_blueprintId :: string
  au_siteId :: "string option"
  au_transition :: audit_transition
  au_safeState :: safe_state_action
  au_tickBudgetMs :: nat
  au_consecutiveMisses :: "nat option"
  au_operator :: "string option"
  au_reason :: string
  au_anchorHash :: string
  au_anchorTxHash :: "string option"
  au_timestamp :: string

datatype run_state = RUNNING | SAFE_STATE | RESUMING | RECOVERING | RECOVERY_FAILED

datatype audit_status = Pending | Durable

datatype recovery_error = HaltFailed | SafeOutputFailed

record safe_state_status =
  runState :: run_state
  enteredAt :: "string option"
  st_reason :: "string option"
  st_consecutiveMisses :: "nat option"
  st_anchorHash :: "string option"
  entryAuditStatus :: "audit_status option"
  recoveryErrors :: "recovery_error list"

definition running_status :: safe_state_status where
  "running_status = \<lparr> runState = RUNNING, enteredAt = None, st_reason = None, st_consecutiveMisses = None, st_anchorHash = None,
     entryAuditStatus = None, recoveryErrors = [] \<rparr>"

record controller =
  status :: safe_state_status
  pendingEntryAudit :: "audit_entry option"
  pendingExitRequestAudit :: "audit_entry option"

definition new_controller :: controller where
  "new_controller = \<lparr> status = running_status, pendingEntryAudit = None, pendingExitRequestAudit = None \<rparr>"

section \<open>The outside\<close>

datatype actuator_call = Halt | Resume | Apply safe_state_action

datatype audit_outcome = Recorded | Recorded_But_Failed | Not_Recorded

record outcomes =
  x_audit :: "nat \<Rightarrow> audit_outcome"
  x_anchor :: "nat \<Rightarrow> anchor_receipt option"
  x_now :: "nat \<Rightarrow> string"
  x_uuid :: "nat \<Rightarrow> string"

text \<open>What happened outside, in order: actuator calls, with whether they returned normally, and stored audit records.\<close>

datatype outside_step = Called actuator_call bool | Stored audit_entry

record 'a world =
  plant :: 'a
  trace :: "outside_step list"

definition audit_log :: "'a world \<Rightarrow> audit_entry list" where
  "audit_log w = concat (map (\<lambda>s. case s of Stored e \<Rightarrow> [e] | Called _ _ \<Rightarrow> []) (trace w))"

record blueprint =
  blueprintId :: string
  siteId :: "string option"
  hash_json :: "json \<Rightarrow> string"

datatype transition_error = OperatorMissing | NotInSafeState | ActuatorFailed actuator_call | AuditFailed
  | RecoveryIncomplete transition_error "recovery_error list"

type_synonym 'a actuator = "actuator_call \<Rightarrow> 'a \<Rightarrow> bool \<times> 'a"

definition actuate :: "'a actuator \<Rightarrow> actuator_call \<Rightarrow> 'a world \<Rightarrow> bool \<times> 'a world" where
  "actuate act c w =
     (case act c (plant w) of (ok, s) \<Rightarrow> (ok, w \<lparr> plant := s, trace := trace w @ [Called c ok] \<rparr>))"

definition record_audit :: "outcomes \<Rightarrow> nat \<Rightarrow> audit_entry \<Rightarrow> 'a world \<Rightarrow> bool \<times> 'a world" where
  "record_audit x n e w =
     (case x_audit x n of
        Recorded \<Rightarrow> (True, w \<lparr> trace := trace w @ [Stored e] \<rparr>)
      | Recorded_But_Failed \<Rightarrow> (False, w \<lparr> trace := trace w @ [Stored e] \<rparr>)
      | Not_Recorded \<Rightarrow> (False, w))"

section \<open>The controller\<close>

definition action_json :: "safe_state_action \<Rightarrow> json" where
  "action_json a = (case a of Hold_Last \<Rightarrow> JStr ''hold-last'' | Force_Zero \<Rightarrow> JStr ''force-zero'' | Recipe r \<Rightarrow> JObj [(''recipe'', JStr r)])"

definition describeSafeState :: "safe_state_action \<Rightarrow> string" where
  "describeSafeState a =
     (case a of Hold_Last \<Rightarrow> ''Hold last outputs'' | Force_Zero \<Rightarrow> ''Force outputs to zero''
      | Recipe r \<Rightarrow> ''Apply safe recipe \"'' @ r @ ''\"'')"

definition severity_text :: "anchor_severity \<Rightarrow> string" where
  "severity_text s = (case s of INFO \<Rightarrow> ''INFO'' | WARNING \<Rightarrow> ''WARNING'' | CRITICAL \<Rightarrow> ''CRITICAL'')"

definition computeAnchorHash :: "blueprint \<Rightarrow> anchor_event \<Rightarrow> string" where
  "computeAnchorHash bp e = hash_json bp (JObj
     [(''id'', JStr (ae_id e)), (''timestamp'', JStr (ae_timestamp e)), (''eventType'', JStr (ae_eventType e)),
      (''severity'', JStr (severity_text (ae_severity e))),
      (''siteId'', case ae_siteId e of None \<Rightarrow> JNull | Some s \<Rightarrow> JStr s), (''message'', JStr (ae_message e)), (''data'', JObj (ae_data e))])"

definition safeAnchor :: "blueprint \<Rightarrow> outcomes \<Rightarrow> nat \<Rightarrow> anchor_event \<Rightarrow> anchor_receipt" where
  "safeAnchor bp x n e =
     (case x_anchor x n of Some r \<Rightarrow> r | None \<Rightarrow> \<lparr> ar_hash = computeAnchorHash bp e, ar_txHash = None \<rparr>)"

definition isInSafeState :: "controller \<Rightarrow> bool" where
  "isInSafeState c \<longleftrightarrow> runState (status c) \<noteq> RUNNING"

definition persistPendingEntryAudit :: "outcomes \<Rightarrow> nat \<Rightarrow> controller \<times> 'a world \<Rightarrow> bool \<times> controller \<times> 'a world" where
  "persistPendingEntryAudit x n cw =
     (case cw of (c, w) \<Rightarrow>
        (case pendingEntryAudit c of
           None \<Rightarrow> (True, c, w)
         | Some e \<Rightarrow>
             (case record_audit x n e w of
                (False, w') \<Rightarrow> (False, c, w')
              | (True, w') \<Rightarrow>
                  (True, c \<lparr> pendingEntryAudit := None, status := (status c) \<lparr> entryAuditStatus := Some Durable \<rparr> \<rparr>, w'))))"

definition persistPendingExitRequestAudit :: "outcomes \<Rightarrow> nat \<Rightarrow> controller \<times> 'a world \<Rightarrow> bool \<times> controller \<times> 'a world" where
  "persistPendingExitRequestAudit x n cw =
     (case cw of (c, w) \<Rightarrow>
        (case pendingExitRequestAudit c of
           None \<Rightarrow> (True, c, w)
         | Some e \<Rightarrow>
             (case record_audit x n e w of
                (False, w') \<Rightarrow> (False, c, w')
              | (True, w') \<Rightarrow> (True, c \<lparr> pendingExitRequestAudit := None \<rparr>, w'))))"

definition entered_event :: "blueprint \<Rightarrow> safe_state_config \<Rightarrow> outcomes \<Rightarrow> string \<Rightarrow> nat \<Rightarrow> anchor_event" where
  "entered_event bp cfg x reason misses =
     \<lparr> ae_id = x_uuid x 0, ae_timestamp = x_now x 0, ae_eventType = ''SafeStateEntered'', ae_severity = CRITICAL, ae_siteId = siteId bp,
       ae_message = ''Blueprint '' @ blueprintId bp @ '' entered safe state ('' @ describeSafeState (safeState cfg) @ ''): '' @ reason,
       ae_data = [(''blueprintId'', JStr (blueprintId bp)), (''safeState'', action_json (safeState cfg)), (''tickBudgetMs'', JNum (tickBudgetMs cfg)),
                  (''consecutiveMisses'', JNum misses), (''reason'', JStr reason)] \<rparr>"

definition entered_entry :: "blueprint \<Rightarrow> safe_state_config \<Rightarrow> outcomes \<Rightarrow> anchor_receipt \<Rightarrow> string \<Rightarrow> nat \<Rightarrow> audit_entry" where
  "entered_entry bp cfg x r reason misses =
     \<lparr> au_blueprintId = blueprintId bp, au_siteId = siteId bp, au_transition = ENTERED, au_safeState = safeState cfg, au_tickBudgetMs = tickBudgetMs cfg,
       au_consecutiveMisses = Some misses, au_operator = None, au_reason = reason, au_anchorHash = ar_hash r, au_anchorTxHash = ar_txHash r,
       au_timestamp = x_now x 0 \<rparr>"

definition status_result :: "bool \<times> controller \<times> 'a world \<Rightarrow> (transition_error + safe_state_status) \<times> controller \<times> 'a world" where
  "status_result r = (case r of (True, c, w) \<Rightarrow> (Inr (status c), c, w) | (False, c, w) \<Rightarrow> (Inl AuditFailed, c, w))"

definition enterSafeStateLocked :: "'a actuator \<Rightarrow> blueprint \<Rightarrow> safe_state_config \<Rightarrow> outcomes \<Rightarrow> string \<Rightarrow> nat \<Rightarrow> controller \<times> 'a world
    \<Rightarrow> (transition_error + safe_state_status) \<times> controller \<times> 'a world" where
  "enterSafeStateLocked act bp cfg x reason misses cw =
     (case cw of (c, w) \<Rightarrow>
        if runState (status c) = SAFE_STATE then status_result (persistPendingEntryAudit x 0 (c, w))
        else
          (case actuate act Halt w of
             (False, w) \<Rightarrow> (Inl (ActuatorFailed Halt), c, w)
           | (True, w) \<Rightarrow>
               (case actuate act (Apply (safeState cfg)) w of
                  (False, w) \<Rightarrow> (Inl (ActuatorFailed (Apply (safeState cfg))), c, w)
                | (True, w) \<Rightarrow>
                    (let receipt = safeAnchor bp x 0 (entered_event bp cfg x reason misses);
                         st = (status c) \<lparr> runState := SAFE_STATE, enteredAt := Some (x_now x 0), st_reason := Some reason,
                                 st_consecutiveMisses := Some misses, st_anchorHash := Some (ar_hash receipt),
                                 entryAuditStatus := Some Pending \<rparr>;
                         c = c \<lparr> status := st, pendingEntryAudit := Some (entered_entry bp cfg x receipt reason misses) \<rparr>
                     in status_result (persistPendingEntryAudit x 0 (c, w))))))"

definition exit_entry :: "blueprint \<Rightarrow> safe_state_config \<Rightarrow> audit_transition \<Rightarrow> string \<Rightarrow> string \<Rightarrow> anchor_receipt \<Rightarrow> string \<Rightarrow> audit_entry" where
  "exit_entry bp cfg tr operator reason r ts =
     \<lparr> au_blueprintId = blueprintId bp, au_siteId = siteId bp, au_transition = tr, au_safeState = safeState cfg, au_tickBudgetMs = tickBudgetMs cfg,
       au_consecutiveMisses = None, au_operator = Some operator, au_reason = reason, au_anchorHash = ar_hash r, au_anchorTxHash = ar_txHash r,
       au_timestamp = ts \<rparr>"

definition exit_event :: "blueprint \<Rightarrow> safe_state_config \<Rightarrow> string \<Rightarrow> string \<Rightarrow> string \<Rightarrow> string \<Rightarrow> string \<Rightarrow> string \<Rightarrow> anchor_event" where
  "exit_event bp cfg uuid ts eventType verb operator reason =
     \<lparr> ae_id = uuid, ae_timestamp = ts, ae_eventType = eventType, ae_severity = WARNING, ae_siteId = siteId bp,
       ae_message = ''Blueprint '' @ blueprintId bp @ verb @ operator @ '': '' @ reason,
       ae_data = [(''blueprintId'', JStr (blueprintId bp)), (''operator'', JStr operator), (''reason'', JStr reason),
                  (''previousSafeState'', action_json (safeState cfg))] \<rparr>"

text \<open>Halt and safe outputs are attempted independently.\<close>

definition recoverToSafeState :: "'a actuator \<Rightarrow> safe_state_config \<Rightarrow> controller \<times> 'a world \<Rightarrow> recovery_error list \<times> controller \<times> 'a world" where
  "recoverToSafeState act cfg cw =
     (case cw of (c, w) \<Rightarrow>
        (case actuate act Halt w of (okHalt, w) \<Rightarrow>
           (case actuate act (Apply (safeState cfg)) w of (okApply, w) \<Rightarrow>
              (let errors = (if okHalt then [] else [HaltFailed]) @ (if okApply then [] else [SafeOutputFailed])
               in (errors, c \<lparr> status := (status c) \<lparr> runState := (if errors = [] then SAFE_STATE else RECOVERY_FAILED),
                                                   recoveryErrors := errors \<rparr> \<rparr>, w)))))"

definition recovery_outcome :: "audit_transition \<Rightarrow> string" where
  "recovery_outcome tr =
     (case tr of RESUME_FAILED \<Rightarrow> ''resume attempt failed and the declared safe state was re-applied''
      | EXIT_ABORTED \<Rightarrow> ''runtime resumed temporarily, but exit durability failed and the declared safe state was re-applied''
      | _ \<Rightarrow> ''resume/exit failed and the declared safe state could not be fully restored'')"

definition recovery_event :: "blueprint \<Rightarrow> safe_state_config \<Rightarrow> outcomes \<Rightarrow> audit_transition \<Rightarrow> string \<Rightarrow> string \<Rightarrow> string
    \<Rightarrow> recovery_error list \<Rightarrow> (recovery_error \<Rightarrow> string) \<Rightarrow> anchor_event" where
  "recovery_event bp cfg x tr operator reason detail errs show_err =
     \<lparr> ae_id = x_uuid x 2, ae_timestamp = x_now x 2,
       ae_eventType = (case tr of EXIT_ABORTED \<Rightarrow> ''SafeStateExitAborted'' | RECOVERY_FAILED_T \<Rightarrow> ''SafeStateRecoveryFailed''
                       | _ \<Rightarrow> ''SafeStateResumeFailed''),
       ae_severity = CRITICAL, ae_siteId = siteId bp,
       ae_message = ''Blueprint '' @ blueprintId bp @ '': '' @ recovery_outcome tr @ '': '' @ detail,
       ae_data = [(''blueprintId'', JStr (blueprintId bp)), (''operator'', JStr operator), (''reason'', JStr reason), (''failure'', JStr detail),
                  (''recoveryErrors'', JArr (map (JStr \<circ> show_err) errs)), (''safeState'', action_json (safeState cfg))] \<rparr>"

definition recordRecoveryOutcome :: "blueprint \<Rightarrow> safe_state_config \<Rightarrow> outcomes \<Rightarrow> audit_transition \<Rightarrow> string \<Rightarrow> string \<Rightarrow> string
    \<Rightarrow> recovery_error list \<Rightarrow> (recovery_error \<Rightarrow> string) \<Rightarrow> 'a world \<Rightarrow> 'a world" where
  "recordRecoveryOutcome bp cfg x tr operator reason detail errs show_err w =
     (let receipt = safeAnchor bp x 2 (recovery_event bp cfg x tr operator reason detail errs show_err)
      in snd (record_audit x 4 (exit_entry bp cfg tr operator (reason @ ''; '' @ recovery_outcome tr @ '': '' @ detail) receipt (x_now x 2)) w))"

text \<open>The \<open>catch\<close> of \<open>resumeLocked\<close>.\<close>

definition resume_failed :: "'a actuator \<Rightarrow> blueprint \<Rightarrow> safe_state_config \<Rightarrow> outcomes \<Rightarrow> (transition_error \<Rightarrow> string) \<Rightarrow> (recovery_error \<Rightarrow> string)
    \<Rightarrow> string \<Rightarrow> string \<Rightarrow> bool \<Rightarrow> transition_error \<Rightarrow> controller \<times> 'a world \<Rightarrow> (transition_error + safe_state_status) \<times> controller \<times> 'a world" where
  "resume_failed act bp cfg x error_text show_err operator reason runtimeResumed err cw =
     (case recoverToSafeState act cfg cw of (errors, c, w) \<Rightarrow>
        (let tr = (if errors \<noteq> [] then RECOVERY_FAILED_T else if runtimeResumed then EXIT_ABORTED else RESUME_FAILED);
             w = recordRecoveryOutcome bp cfg x tr operator reason (error_text err) errors show_err w
         in (Inl (if errors \<noteq> [] then RecoveryIncomplete err errors else err), c, w)))"

definition resumeLocked :: "'a actuator \<Rightarrow> blueprint \<Rightarrow> safe_state_config \<Rightarrow> outcomes \<Rightarrow> (transition_error \<Rightarrow> string) \<Rightarrow> (recovery_error \<Rightarrow> string)
    \<Rightarrow> string \<Rightarrow> string \<Rightarrow> controller \<times> 'a world \<Rightarrow> (transition_error + safe_state_status) \<times> controller \<times> 'a world" where
  "resumeLocked act bp cfg x error_text show_err operator reason cw =
     (case cw of (c, w) \<Rightarrow>
        if blank operator then (Inl OperatorMissing, c, w)
        else if runState (status c) \<noteq> SAFE_STATE then (Inl NotInSafeState, c, w)
        else
          (case persistPendingEntryAudit x 0 (c, w) of
             (False, c, w) \<Rightarrow> (Inl AuditFailed, c, w)
           | (True, c, w) \<Rightarrow>
               (case persistPendingExitRequestAudit x 1 (c, w) of
                  (False, c, w) \<Rightarrow> (Inl AuditFailed, c, w)
                | (True, c, w) \<Rightarrow>
                    (let request = safeAnchor bp x 0 (exit_event bp cfg (x_uuid x 0) (x_now x 0) ''SafeStateExitRequested''
                                     '' safe-state exit requested by '' operator reason);
                         c = c \<lparr> pendingExitRequestAudit := Some (exit_entry bp cfg EXIT_REQUESTED operator reason request (x_now x 0)) \<rparr>
                     in case persistPendingExitRequestAudit x 2 (c, w) of
                          (False, c, w) \<Rightarrow> (Inl AuditFailed, c, w)
                        | (True, c, w) \<Rightarrow>
                            (case actuate act Resume w of
                               (False, w) \<Rightarrow> resume_failed act bp cfg x error_text show_err operator reason False (ActuatorFailed Resume) (c, w)
                             | (True, w) \<Rightarrow>
                                 (let c = c \<lparr> status := (status c) \<lparr> runState := RESUMING, recoveryErrors := [] \<rparr> \<rparr>;
                                      receipt = safeAnchor bp x 1 (exit_event bp cfg (x_uuid x 1) (x_now x 1) ''SafeStateExited''
                                                  '' resumed from safe state by '' operator reason)
                                  in case record_audit x 3 (exit_entry bp cfg EXITED operator reason receipt (x_now x 1)) w of
                                       (False, w) \<Rightarrow> resume_failed act bp cfg x error_text show_err operator reason True AuditFailed (c, w)
                                     | (True, w) \<Rightarrow> (let c = c \<lparr> status := running_status \<rparr> in (Inr (status c), c, w))))))))"

section \<open>Runs\<close>

datatype transition = Enter string nat outcomes | Resume_By string string outcomes

fun transition_step :: "'a actuator \<Rightarrow> blueprint \<Rightarrow> safe_state_config \<Rightarrow> (transition_error \<Rightarrow> string) \<Rightarrow> (recovery_error \<Rightarrow> string)
    \<Rightarrow> transition \<Rightarrow> controller \<times> 'a world \<Rightarrow> controller \<times> 'a world" where
  "transition_step act bp cfg error_text show_err (Enter reason misses x) cw = snd (enterSafeStateLocked act bp cfg x reason misses cw)"
| "transition_step act bp cfg error_text show_err (Resume_By operator reason x) cw =
     snd (resumeLocked act bp cfg x error_text show_err operator reason cw)"

section \<open>The parts of a transition\<close>

lemma audit_log_trace [simp]:
  "audit_log (w \<lparr> plant := s, trace := trace w @ steps \<rparr>)
     = audit_log w @ concat (map (\<lambda>s. case s of Stored e \<Rightarrow> [e] | Called _ _ \<Rightarrow> []) steps)"
  by (simp add: audit_log_def)

lemma audit_log_plant [simp]: "audit_log (w \<lparr> plant := s \<rparr>) = audit_log w"
  by (simp add: audit_log_def)

lemma record_audit_cases:
  "record_audit x n e w = (ok, w') \<Longrightarrow>
     plant w' = plant w \<and> (trace w' = trace w @ [Stored e] \<and> audit_log w' = audit_log w @ [e]
       \<or> \<not> ok \<and> trace w' = trace w \<and> audit_log w' = audit_log w)"
  by (auto simp: record_audit_def audit_log_def split: audit_outcome.splits)

definition pending_steps :: "audit_entry option \<Rightarrow> outside_step list" where
  "pending_steps e = (case e of None \<Rightarrow> [] | Some e \<Rightarrow> [Stored e])"

lemma persistEntry_cases:
  "persistPendingEntryAudit x n (c, w) = (ok, c', w') \<Longrightarrow>
     plant w' = plant w \<and> runState (status c') = runState (status c) \<and> st_anchorHash (status c') = st_anchorHash (status c)
     \<and> pendingExitRequestAudit c' = pendingExitRequestAudit c
     \<and> (ok \<longrightarrow> pendingEntryAudit c' = None \<and> trace w' = trace w @ pending_steps (pendingEntryAudit c)
          \<and> audit_log w' = audit_log w @ (case pendingEntryAudit c of None \<Rightarrow> [] | Some e \<Rightarrow> [e]))
     \<and> (\<not> ok \<longrightarrow> c' = c \<and> pendingEntryAudit c \<noteq> None \<and> set (audit_log w) \<subseteq> set (audit_log w'))"
  by (auto simp: persistPendingEntryAudit_def pending_steps_def split: option.splits prod.splits bool.splits dest!: record_audit_cases)

lemma persistExit_cases:
  "persistPendingExitRequestAudit x n (c, w) = (ok, c', w') \<Longrightarrow>
     plant w' = plant w \<and> status c' = status c \<and> pendingEntryAudit c' = pendingEntryAudit c
     \<and> (ok \<longrightarrow> trace w' = trace w @ pending_steps (pendingExitRequestAudit c)
          \<and> audit_log w' = audit_log w @ (case pendingExitRequestAudit c of None \<Rightarrow> [] | Some e \<Rightarrow> [e]))
     \<and> set (audit_log w) \<subseteq> set (audit_log w')"
  by (auto simp: persistPendingExitRequestAudit_def pending_steps_def split: option.splits prod.splits bool.splits dest!: record_audit_cases)

definition safe_calls :: "'a actuator \<Rightarrow> safe_state_config \<Rightarrow> 'a \<Rightarrow> 'a \<Rightarrow> bool" where
  "safe_calls act cfg s s' \<longleftrightarrow> (\<exists>h. act Halt s = (True, h) \<and> act (Apply (safeState cfg)) h = (True, s'))"

definition after_calls :: "'a actuator \<Rightarrow> actuator_call list \<Rightarrow> 'a \<Rightarrow> 'a" where
  "after_calls act cs s = fold (\<lambda>c s. snd (act c s)) cs s"

lemma actuate_plant: "actuate act c w = (ok, w') \<Longrightarrow> plant w' = snd (act c (plant w))"
  by (auto simp: actuate_def split: prod.splits)

definition entry_on_record :: "controller \<Rightarrow> 'a world \<Rightarrow> bool" where
  "entry_on_record c w \<longleftrightarrow>
     (\<exists>e. (pendingEntryAudit c = Some e \<or> pendingEntryAudit c = None \<and> e \<in> set (audit_log w))
        \<and> au_transition e = ENTERED \<and> st_anchorHash (status c) = Some (au_anchorHash e))"

lemma entry_on_record_mono:
  "entry_on_record c w \<Longrightarrow> pendingEntryAudit c' = pendingEntryAudit c \<Longrightarrow> st_anchorHash (status c') = st_anchorHash (status c)
     \<Longrightarrow> set (audit_log w) \<subseteq> set (audit_log w') \<Longrightarrow> entry_on_record c' w'"
  by (auto simp: entry_on_record_def)

lemma persistEntry_on_record:
  "persistPendingEntryAudit x n (c, w) = (ok, c', w') \<Longrightarrow> entry_on_record c w \<Longrightarrow> entry_on_record c' w'"
  by (auto simp: entry_on_record_def split: option.splits dest!: persistEntry_cases)

lemma enter_cases:
  assumes "snd (enterSafeStateLocked act bp cfg x reason misses (c, w)) = (c', w')"
  shows "runState (status c) = SAFE_STATE \<and> runState (status c') = SAFE_STATE \<and> plant w' = plant w \<and> (entry_on_record c w \<longrightarrow> entry_on_record c' w')
    \<or> runState (status c) \<noteq> SAFE_STATE \<and> runState (status c') = SAFE_STATE \<and> safe_calls act cfg (plant w) (plant w') \<and> entry_on_record c' w'
    \<or> runState (status c) \<noteq> SAFE_STATE \<and> c' = c \<and> audit_log w' = audit_log w"
proof (cases "runState (status c) = SAFE_STATE")
  case True
  obtain ok c1 w1 where p: "persistPendingEntryAudit x 0 (c, w) = (ok, c1, w1)" by (cases "persistPendingEntryAudit x 0 (c, w)") auto
  have "c' = c1" "w' = w1" using assms True p by (auto simp: enterSafeStateLocked_def status_result_def split: bool.splits)
  then show ?thesis using True p persistEntry_cases [OF p] persistEntry_on_record [OF p] by auto
next
  case False
  obtain h s1 where h: "act Halt (plant w) = (h, s1)" by (cases "act Halt (plant w)")
  obtain a s2 where a: "act (Apply (safeState cfg)) s1 = (a, s2)" by (cases "act (Apply (safeState cfg)) s1")
  show ?thesis
  proof (cases "h \<and> a")
    case ok: True
    let ?r = "safeAnchor bp x 0 (entered_event bp cfg x reason misses)"
    let ?c = "c \<lparr> status := (status c) \<lparr> runState := SAFE_STATE, enteredAt := Some (x_now x 0), st_reason := Some reason,
        st_consecutiveMisses := Some misses, st_anchorHash := Some (ar_hash ?r), entryAuditStatus := Some Pending \<rparr>,
        pendingEntryAudit := Some (entered_entry bp cfg x ?r reason misses) \<rparr>"
    let ?w = "w \<lparr> plant := s2, trace := trace w @ [Called Halt True, Called (Apply (safeState cfg)) True] \<rparr>"
    obtain k c1 w1 where p: "persistPendingEntryAudit x 0 (?c, ?w) = (k, c1, w1)" by (cases "persistPendingEntryAudit x 0 (?c, ?w)") auto
    have "c' = c1" "w' = w1"
      using assms False ok h a p by (auto simp: enterSafeStateLocked_def actuate_def Let_def status_result_def split: bool.splits)
    moreover have "entry_on_record ?c ?w" by (simp add: entry_on_record_def entered_entry_def)
    ultimately show ?thesis
      using False ok h a persistEntry_cases [OF p] persistEntry_on_record [OF p] by (auto simp: safe_calls_def)
  next
    case failed: False
    then show ?thesis using assms False h a by (auto simp: enterSafeStateLocked_def actuate_def split: bool.splits)
  qed
qed

lemma enter_plant:
  "\<exists>cs. plant (snd (snd (enterSafeStateLocked act bp cfg x reason misses (c, w)))) = after_calls act cs (plant w)"
proof (cases "runState (status c) = SAFE_STATE")
  case True
  obtain ok c1 w1 where p: "persistPendingEntryAudit x 0 (c, w) = (ok, c1, w1)" by (cases "persistPendingEntryAudit x 0 (c, w)") auto
  have "plant (snd (snd (enterSafeStateLocked act bp cfg x reason misses (c, w)))) = plant w"
    using True p persistEntry_cases [OF p] by (auto simp: enterSafeStateLocked_def status_result_def split: bool.splits)
  then show ?thesis by (intro exI [of _ "[]"]) (simp add: after_calls_def)
next
  case False
  have p: "plant (snd (snd (status_result (persistPendingEntryAudit x 0 (c, w))))) = plant w" for c w
  proof -
    obtain ok c1 w1 where p: "persistPendingEntryAudit x 0 (c, w) = (ok, c1, w1)" by (cases "persistPendingEntryAudit x 0 (c, w)") auto
    show ?thesis using p persistEntry_cases [OF p] by (auto simp: status_result_def split: bool.splits)
  qed
  obtain h s1 where h: "act Halt (plant w) = (h, s1)" by (cases "act Halt (plant w)")
  obtain a s2 where a: "act (Apply (safeState cfg)) s1 = (a, s2)" by (cases "act (Apply (safeState cfg)) s1")
  show ?thesis
    using False h a
    by (intro exI [of _ "if h then [Halt, Apply (safeState cfg)] else [Halt]"])
      (auto simp: enterSafeStateLocked_def actuate_def Let_def after_calls_def p split: bool.splits)
qed

lemma enter_reaches:
  assumes "act Halt (plant w) = (True, h)" "fst (act (Apply (safeState cfg)) h)"
  shows "runState (status (fst (snd (enterSafeStateLocked act bp cfg x reason misses (c, w))))) = SAFE_STATE"
proof -
  have p: "runState (status (fst (snd (status_result (persistPendingEntryAudit x 0 (c, w)))))) = runState (status c)" for c w
  proof -
    obtain ok c1 w1 where p: "persistPendingEntryAudit x 0 (c, w) = (ok, c1, w1)" by (cases "persistPendingEntryAudit x 0 (c, w)") auto
    show ?thesis using p persistEntry_cases [OF p] by (auto simp: status_result_def split: bool.splits)
  qed
  obtain s where s: "act (Apply (safeState cfg)) h = (True, s)" using assms(2) by (cases "act (Apply (safeState cfg)) h") auto
  show ?thesis
    using assms(1) s by (auto simp: enterSafeStateLocked_def actuate_def Let_def p)
qed

lemma recover_cases:
  assumes "recoverToSafeState act cfg (c, w) = (errors, c', w')"
  shows "pendingEntryAudit c' = pendingEntryAudit c \<and> st_anchorHash (status c') = st_anchorHash (status c) \<and> audit_log w' = audit_log w
    \<and> plant w' = after_calls act [Halt, Apply (safeState cfg)] (plant w)
    \<and> (runState (status c') = SAFE_STATE \<and> safe_calls act cfg (plant w) (plant w') \<or> runState (status c') = RECOVERY_FAILED)"
  using assms
  by (cases "act Halt (plant w)"; cases "act (Apply (safeState cfg)) (snd (act Halt (plant w)))")
    (auto simp: recoverToSafeState_def actuate_def Let_def safe_calls_def after_calls_def split: if_splits)

lemma resume_failed_cases:
  assumes "snd (resume_failed act bp cfg x error_text show_err operator reason resumed err (c, w)) = (c', w')"
  shows "pendingEntryAudit c' = pendingEntryAudit c \<and> st_anchorHash (status c') = st_anchorHash (status c)
    \<and> set (audit_log w) \<subseteq> set (audit_log w') \<and> plant w' = after_calls act [Halt, Apply (safeState cfg)] (plant w)
    \<and> (runState (status c') = SAFE_STATE \<and> safe_calls act cfg (plant w) (plant w') \<or> runState (status c') = RECOVERY_FAILED)"
proof -
  obtain errors c1 w1 where r: "recoverToSafeState act cfg (c, w) = (errors, c1, w1)" by (cases "recoverToSafeState act cfg (c, w)")
  have "plant (recordRecoveryOutcome bp cfg x tr operator reason d es show_err w1) = plant w1
      \<and> set (audit_log w1) \<subseteq> set (audit_log (recordRecoveryOutcome bp cfg x tr operator reason d es show_err w1))" for tr d es
    using record_audit_cases [OF surjective_pairing] unfolding recordRecoveryOutcome_def Let_def by (metis Un_iff set_append subsetI)
  then show ?thesis using assms r recover_cases [OF r] by (auto simp: resume_failed_def Let_def)
qed

text \<open>
  The steps of a transition that leaves the safe state: records kept back so far are stored, then the operator's request is
  stored, then the actuator is called and returns, then the exit is stored; and nothing else happens.
\<close>

definition left_by :: "string \<Rightarrow> outside_step list \<Rightarrow> outside_step list \<Rightarrow> bool" where
  "left_by operator old new \<longleftrightarrow>
     (\<exists>kept req ex. new = old @ map Stored kept @ [Stored req, Called Resume True, Stored ex]
        \<and> au_transition req = EXIT_REQUESTED \<and> au_operator req = Some operator
        \<and> au_transition ex = EXITED \<and> au_operator ex = Some operator)"

lemma resume_cases:
  assumes "snd (resumeLocked act bp cfg x error_text show_err operator reason (c, w)) = (c', w')"
  shows "(\<exists>cs. plant w' = after_calls act cs (plant w)) \<and> (c' = c \<and> w' = w
    \<or> runState (status c) = SAFE_STATE \<and> runState (status c') = SAFE_STATE \<and> plant w' = plant w \<and> (entry_on_record c w \<longrightarrow> entry_on_record c' w')
    \<or> runState (status c) = SAFE_STATE \<and> runState (status c') = RECOVERY_FAILED
    \<or> runState (status c) = SAFE_STATE \<and> runState (status c') = SAFE_STATE \<and> safe_calls act cfg (snd (act Resume (plant w))) (plant w')
        \<and> (entry_on_record c w \<longrightarrow> entry_on_record c' w')
    \<or> runState (status c) = SAFE_STATE \<and> runState (status c') = RUNNING \<and> \<not> blank operator \<and> left_by operator (trace w) (trace w')
        \<and> (entry_on_record c w \<longrightarrow> (\<exists>e\<in>set (audit_log w'). au_transition e = ENTERED \<and> st_anchorHash (status c) = Some (au_anchorHash e))))"
proof (cases "blank operator \<or> runState (status c) \<noteq> SAFE_STATE")
  case True
  then have "snd (resumeLocked act bp cfg x error_text show_err operator reason (c, w)) = (c, w)"
    by (cases "blank operator") (simp_all add: resumeLocked_def)
  then have "c' = c" "w' = w" using assms by simp_all
  then show ?thesis by (auto simp: after_calls_def intro: exI [of _ "[]"])
next
  case False
  obtain k1 c1 w1 where p1: "persistPendingEntryAudit x 0 (c, w) = (k1, c1, w1)" by (cases "persistPendingEntryAudit x 0 (c, w)")
  obtain k2 c2 w2 where p2: "persistPendingExitRequestAudit x 1 (c1, w1) = (k2, c2, w2)" by (cases "persistPendingExitRequestAudit x 1 (c1, w1)")
  define req where "req = exit_entry bp cfg EXIT_REQUESTED operator reason (safeAnchor bp x 0 (exit_event bp cfg (x_uuid x 0) (x_now x 0)
      ''SafeStateExitRequested'' '' safe-state exit requested by '' operator reason)) (x_now x 0)"
  define ex where "ex = exit_entry bp cfg EXITED operator reason (safeAnchor bp x 1 (exit_event bp cfg (x_uuid x 1) (x_now x 1)
      ''SafeStateExited'' '' resumed from safe state by '' operator reason)) (x_now x 1)"
  obtain k3 c3 w3 where p3: "persistPendingExitRequestAudit x 2 (c2 \<lparr> pendingExitRequestAudit := Some req \<rparr>, w2) = (k3, c3, w3)"
    by (cases "persistPendingExitRequestAudit x 2 (c2 \<lparr> pendingExitRequestAudit := Some req \<rparr>, w2)")
  obtain k4 w4 where p4: "actuate act Resume w3 = (k4, w4)" by (cases "actuate act Resume w3")
  let ?c4 = "c3 \<lparr> status := (status c3) \<lparr> runState := RESUMING, recoveryErrors := [] \<rparr> \<rparr>"
  obtain k5 w5 where p5: "record_audit x 3 ex w4 = (k5, w5)" by (cases "record_audit x 3 ex w4")
  note stages = p1 p2 p3 p4 p5 and E = persistEntry_cases [OF p1] and X = persistExit_cases [OF p2] and Y = persistExit_cases [OF p3]
    and R = record_audit_cases [OF p5]
  have eq: "resumeLocked act bp cfg x error_text show_err operator reason (c, w) =
     (if \<not> k1 then (Inl AuditFailed, c1, w1) else if \<not> k2 then (Inl AuditFailed, c2, w2) else if \<not> k3 then (Inl AuditFailed, c3, w3)
      else if \<not> k4 then resume_failed act bp cfg x error_text show_err operator reason False (ActuatorFailed Resume) (c3, w4)
      else if \<not> k5 then resume_failed act bp cfg x error_text show_err operator reason True AuditFailed (?c4, w5)
      else (Inr running_status, c3 \<lparr> status := running_status \<rparr>, w5))"
    using False by (cases k1; cases k2; cases k3; cases k4; cases k5; simp add: resumeLocked_def Let_def stages req_def [symmetric] ex_def [symmetric] del: One_nat_def)
  have rec1: "entry_on_record c1 w1" if "entry_on_record c w" using persistEntry_on_record [OF p1] that .
  have rec2: "entry_on_record c2 w2" if "entry_on_record c w" using rec1 [OF that] X by (auto simp: entry_on_record_def)
  have rec3: "entry_on_record c3 w3" if "entry_on_record c w" using rec2 [OF that] Y by (auto simp: entry_on_record_def)
  have safe: "runState (status c) = SAFE_STATE" "\<not> blank operator" using False by auto
  have w4: "trace w4 = trace w3 @ [Called Resume k4]" "audit_log w4 = audit_log w3"
    using p4 by (auto simp: actuate_def audit_log_def split: prod.splits)
  have w3: "plant w3 = plant w" using E X Y by simp
  have plants: "plant w = after_calls act [] (plant w)" "plant w4 = snd (act Resume (plant w))" "plant w5 = snd (act Resume (plant w))"
    "after_calls act [Halt, Apply (safeState cfg)] (snd (act Resume (plant w))) = after_calls act [Resume, Halt, Apply (safeState cfg)] (plant w)"
    using actuate_plant [OF p4] R w3 by (simp_all add: after_calls_def)
  consider "\<not> (k1 \<and> k2 \<and> k3)" | "k1" "k2" "k3" "\<not> k4" | "k1" "k2" "k3" "k4" "\<not> k5" | "k1" "k2" "k3" "k4" "k5" by blast
  then show ?thesis
  proof cases
    case 1
    then have "runState (status c') = SAFE_STATE \<and> plant w' = plant w \<and> (entry_on_record c w \<longrightarrow> entry_on_record c' w')"
      using assms safe E X Y rec1 rec2 rec3 unfolding eq by (auto split: if_splits)
    then show ?thesis using safe plants(1) by metis
  next
    case 2
    then have f: "snd (resume_failed act bp cfg x error_text show_err operator reason False (ActuatorFailed Resume) (c3, w4)) = (c', w')"
      using assms unfolding eq by simp
    then have "entry_on_record c w \<longrightarrow> entry_on_record c' w'"
      using resume_failed_cases [OF f] w4 by (auto dest!: rec3 elim!: entry_on_record_mono)
    then show ?thesis using safe resume_failed_cases [OF f] plants by metis
  next
    case 3
    then have f: "snd (resume_failed act bp cfg x error_text show_err operator reason True AuditFailed (?c4, w5)) = (c', w')"
      using assms unfolding eq by simp
    then have "entry_on_record c w \<longrightarrow> entry_on_record c' w'"
      using resume_failed_cases [OF f] w4 R by (auto dest!: rec3 elim!: entry_on_record_mono)
    then show ?thesis using safe resume_failed_cases [OF f] plants by metis
  next
    case 4
    then have c': "c' = c3 \<lparr> status := running_status \<rparr>" "w' = w5" using assms unfolding eq by simp_all
    have log: "audit_log w' = audit_log w2 @ [req, ex]" using Y R w4 4 by (simp add: c')
    have "trace w' = trace w @ map Stored (case_option [] (\<lambda>e. [e]) (pendingEntryAudit c) @ case_option [] (\<lambda>e. [e]) (pendingExitRequestAudit c))
        @ [Stored req, Called Resume True, Stored ex]"
      using E X Y R w4 4 by (auto simp: c' pending_steps_def split: option.splits)
    then have "left_by operator (trace w) (trace w')"
      unfolding left_by_def by (intro exI conjI, assumption) (simp_all add: req_def ex_def exit_entry_def)
    moreover have "\<exists>e\<in>set (audit_log w'). au_transition e = ENTERED \<and> st_anchorHash (status c) = Some (au_anchorHash e)"
      if "entry_on_record c w"
      using rec2 [OF that] E X 4 log by (auto simp: entry_on_record_def)
    moreover have "\<exists>cs. plant w' = after_calls act cs (plant w)"
      using w3 actuate_plant [OF p4] R by (intro exI [of _ "[Resume]"]) (simp add: after_calls_def c')
    ultimately show ?thesis using safe by (simp add: c' running_status_def)
  qed
qed

section \<open>Leaving the safe state\<close>

text \<open>Between transitions the plant moves in ways the controller does not see.\<close>

datatype 'a controller_event = Transition transition | Plant_Moves 'a

fun controller_step :: "'a actuator \<Rightarrow> blueprint \<Rightarrow> safe_state_config \<Rightarrow> (transition_error \<Rightarrow> string) \<Rightarrow> (recovery_error \<Rightarrow> string)
    \<Rightarrow> 'a controller_event \<Rightarrow> controller \<times> 'a world \<Rightarrow> controller \<times> 'a world" where
  "controller_step act bp cfg error_text show_err (Transition tr) cw = transition_step act bp cfg error_text show_err tr cw"
| "controller_step act bp cfg error_text show_err (Plant_Moves s) cw = (fst cw, (snd cw) \<lparr> plant := s \<rparr>)"

definition audited :: "controller \<times> 'a world \<Rightarrow> bool" where
  "audited cw \<longleftrightarrow> (runState (status (fst cw)) = SAFE_STATE \<longrightarrow> entry_on_record (fst cw) (snd cw))"

lemma transition_cases:
  assumes "transition_step act bp cfg error_text show_err tr (c, w) = (c', w')"
  obtains (kept) "runState (status c') = runState (status c)" "runState (status c) = SAFE_STATE \<longrightarrow> plant w' = plant w"
      "runState (status c) = SAFE_STATE \<longrightarrow> entry_on_record c w \<longrightarrow> entry_on_record c' w'"
    | (safe) s where "s = plant w \<or> s = snd (act Resume (plant w))" "runState (status c') = SAFE_STATE" "safe_calls act cfg s (plant w')"
        "runState (status c) = SAFE_STATE \<longrightarrow> entry_on_record c w \<Longrightarrow> entry_on_record c' w'"
    | (failed) "runState (status c') = RECOVERY_FAILED"
    | (left) operator reason x where "tr = Resume_By operator reason x" "runState (status c) = SAFE_STATE" "runState (status c') = RUNNING"
        "\<not> blank operator" "left_by operator (trace w) (trace w')"
        "entry_on_record c w \<longrightarrow> (\<exists>e\<in>set (audit_log w'). au_transition e = ENTERED \<and> st_anchorHash (status c) = Some (au_anchorHash e))"
proof (cases tr)
  case (Enter reason misses x)
  then have "snd (enterSafeStateLocked act bp cfg x reason misses (c, w)) = (c', w')" using assms by simp
  from enter_cases [OF this] show ?thesis by (metis kept safe)
next
  case (Resume_By operator reason x)
  then have "snd (resumeLocked act bp cfg x error_text show_err operator reason (c, w)) = (c', w')" using assms by simp
  from resume_cases [OF this, THEN conjunct2] show ?thesis by (metis kept safe failed left [OF Resume_By])
qed

lemma transition_plant:
  "\<exists>cs. plant (snd (transition_step act bp cfg error_text show_err tr cw)) = after_calls act cs (plant (snd cw))"
proof (cases tr)
  case (Enter reason misses x)
  then show ?thesis using enter_plant [of act bp cfg x reason misses "fst cw" "snd cw"] by simp
next
  case (Resume_By operator reason x)
  then show ?thesis
    using resume_cases [of act bp cfg x error_text show_err operator reason "fst cw" "snd cw", OF surjective_pairing, THEN conjunct1] by simp
qed

lemma audited_step: "audited cw \<Longrightarrow> audited (controller_step act bp cfg error_text show_err ev cw)"
proof (cases ev)
  case (Transition tr)
  assume a: "audited cw"
  obtain c w where cw: "cw = (c, w)" by (cases cw)
  obtain c' w' where s: "transition_step act bp cfg error_text show_err tr (c, w) = (c', w')" by fastforce
  have "audited (c', w')" using s a by (cases rule: transition_cases) (auto simp: cw audited_def)
  then show ?thesis by (simp add: Transition cw s)
next
  case (Plant_Moves s)
  then show "audited cw \<Longrightarrow> ?thesis" by (simp add: audited_def entry_on_record_def)
qed

interpretation controller: invariant_machine "controller_step act bp cfg error_text show_err" audited for act bp cfg error_text show_err
  by unfold_locales (rule audited_step)

text \<open>C12: Re-entry is never automatic. Whatever has happened before, a transition that makes a blueprint in safe-state handling
  run again is a resume by a named operator. What it does outside is, in this order: it stores records kept back so far, stores
  the operator's request, calls \<open>resume\<close> of the actuator, which returns, and stores the exit; no other call is made. The record
  of the entry that is left is in the audit log.
\<close>

theorem reentry_needs_operator:
  assumes "fold (controller_step act bp cfg error_text show_err) evs (new_controller, w0) = (c, w)"
    and "transition_step act bp cfg error_text show_err tr (c, w) = (c', w')"
    and "runState (status c) \<noteq> RUNNING" "runState (status c') = RUNNING"
  shows "\<exists>operator reason x. tr = Resume_By operator reason x \<and> \<not> blank operator
    \<and> left_by operator (trace w) (trace w')
    \<and> (\<exists>e\<in>set (audit_log w'). au_transition e = ENTERED \<and> st_anchorHash (status c) = Some (au_anchorHash e))"
proof -
  have "audited (new_controller, w0)" by (simp add: audited_def new_controller_def running_status_def)
  then have "audited (fold (controller_step act bp cfg error_text show_err) evs (new_controller, w0))" by (rule controller.run_inv)
  then have a: "audited (c, w)" using assms(1) by simp
  show ?thesis using assms(2)
  proof (cases rule: transition_cases)
    case (left operator reason x)
    then show ?thesis using a by (auto simp: audited_def)
  qed (use assms(3,4) in auto)
qed

text \<open>A run in which everything outside works: three missed ticks, and Ada resumes.\<close>

definition all_well :: outcomes where
  "all_well = \<lparr> x_audit = (\<lambda>_. Recorded), x_anchor = (\<lambda>_. None), x_now = (\<lambda>_. ''2026-01-01T00:00:00Z''), x_uuid = (\<lambda>_. ''u'') \<rparr>"

definition mixer :: blueprint where
  "mixer = \<lparr> blueprintId = ''mixer'', siteId = None, hash_json = (\<lambda>_. ''h'') \<rparr>"

definition hold_config :: safe_state_config where
  "hold_config = \<lparr> enabled = True, tickBudgetMs = 10, consecutiveMissesBeforeSafeState = 3, safeState = Hold_Last \<rparr>"

definition idle_world :: "unit world" where
  "idle_world = \<lparr> plant = (), trace = [] \<rparr>"

lemmas run_simps = enterSafeStateLocked_def resumeLocked_def persistPendingEntryAudit_def persistPendingExitRequestAudit_def status_result_def
  record_audit_def actuate_def Let_def all_well_def mixer_def hold_config_def idle_world_def new_controller_def running_status_def blank_def

theorem reentry_needs_operator_witness:
  "let ok = (\<lambda>c s. (True, ()));
       cw = controller_step ok mixer hold_config (\<lambda>_. ''e'') (\<lambda>_. ''e'') (Transition (Enter ''late'' 3 all_well)) (new_controller, idle_world);
       cw' = transition_step ok mixer hold_config (\<lambda>_. ''e'') (\<lambda>_. ''e'') (Resume_By ''ada'' ''checked'' all_well) cw
   in runState (status (fst cw)) = SAFE_STATE \<and> runState (status (fst cw')) = RUNNING
      \<and> left_by ''ada'' (trace (snd cw)) (trace (snd cw'))"
proof -
  let ?ok = "\<lambda>c s. (True, ())"
  let ?cw = "controller_step ?ok mixer hold_config (\<lambda>_. ''e'') (\<lambda>_. ''e'') (Transition (Enter ''late'' 3 all_well)) (new_controller, idle_world)"
  let ?cw' = "transition_step ?ok mixer hold_config (\<lambda>_. ''e'') (\<lambda>_. ''e'') (Resume_By ''ada'' ''checked'' all_well) ?cw"
  have "runState (status (fst ?cw)) = SAFE_STATE" "runState (status (fst ?cw')) = RUNNING" by (simp_all add: run_simps)
  then show ?thesis
    using reentry_needs_operator [of ?ok mixer hold_config "\<lambda>_. ''e''" "\<lambda>_. ''e''" "[Transition (Enter ''late'' 3 all_well)]" idle_world
        "fst ?cw" "snd ?cw" "Resume_By ''ada'' ''checked'' all_well" "fst ?cw'" "snd ?cw'"]
    unfolding Let_def by simp
qed

text \<open>
  When \<open>halt()\<close> or the safe outputs throw on entry, nothing is recorded: the status still says that the blueprint runs, although
  the loop may already be halted, and no audit entry is written.
\<close>

lemma failed_entry_leaves_running:
  assumes "act Halt (plant w) = (True, s)" "fst (act (Apply (safeState cfg)) s) = False" "runState (status c) = RUNNING"
  shows "\<exists>w'. enterSafeStateLocked act bp cfg x reason misses (c, w) = (Inl (ActuatorFailed (Apply (safeState cfg))), c, w') \<and> audit_log w' = audit_log w"
  using assms by (cases "act (Apply (safeState cfg)) s") (auto simp: enterSafeStateLocked_def actuate_def audit_log_def)

section \<open>What an actuator owes the controller\<close>

text \<open>
  The contract of \<open>SafeStateActuator\<close>: a call either takes effect or throws. \<open>halted\<close> and \<open>applied\<close> say what taking effect means.
\<close>

locale safe_actuator =
  fixes act :: "actuator_call \<Rightarrow> 'a \<Rightarrow> bool \<times> 'a"
    and sound :: "'a \<Rightarrow> bool"
    and halted :: "'a \<Rightarrow> bool"
    and applied :: "safe_state_action \<Rightarrow> 'a \<Rightarrow> bool"
  assumes act_sound: "sound s \<Longrightarrow> sound (snd (act c s))"
    and halt_effect: "sound s \<Longrightarrow> act Halt s = (True, s') \<Longrightarrow> halted s'"
    and apply_effect: "sound s \<Longrightarrow> act (Apply a) s = (True, s') \<Longrightarrow> applied a s'"
    and apply_keeps_halt: "sound s \<Longrightarrow> halted s \<Longrightarrow> act (Apply a) s = (True, s') \<Longrightarrow> halted s'"
begin

lemma safe_calls_effect:
  assumes "sound s" "safe_calls act cfg s s'"
  shows "halted s' \<and> applied (safeState cfg) s'"
proof -
  obtain h where h: "act Halt s = (True, h)" "act (Apply (safeState cfg)) h = (True, s')" using assms(2) by (auto simp: safe_calls_def)
  have "sound h" using act_sound [OF assms(1), of Halt] by (simp add: h)
  then show ?thesis using halt_effect [OF assms(1) h(1)] apply_effect [OF _ h(2)] apply_keeps_halt [OF _ _ h(2)] by blast
qed

lemma transition_sound: "sound (plant (snd cw)) \<Longrightarrow> sound (plant (snd (transition_step act bp cfg error_text show_err tr cw)))"
proof -
  have "sound s \<Longrightarrow> sound (after_calls act cs s)" for cs s
    by (induction cs arbitrary: s) (simp_all add: after_calls_def act_sound)
  then show "sound (plant (snd cw)) \<Longrightarrow> ?thesis" using transition_plant [of act bp cfg error_text show_err tr cw] by auto
qed

lemma claim_kept:
  assumes "sound (plant (snd cw))"
    and "runState (status (fst cw)) = SAFE_STATE \<longrightarrow> halted (plant (snd cw)) \<and> applied (safeState cfg) (plant (snd cw))"
    and "cw' = transition_step act bp cfg error_text show_err tr cw"
  shows "runState (status (fst cw')) = SAFE_STATE \<longrightarrow> halted (plant (snd cw')) \<and> applied (safeState cfg) (plant (snd cw'))"
proof -
  obtain c w c' w' where cw: "cw = (c, w)" "cw' = (c', w')" by (cases cw; cases cw') auto
  have "transition_step act bp cfg error_text show_err tr (c, w) = (c', w')" using assms(3) by (simp add: cw)
  then show ?thesis using assms(1,2) act_sound [of "plant w" Resume]
    by (cases rule: transition_cases) (auto simp: cw dest: safe_calls_effect)
qed

end

end
