(* ===== verification/Runtime_Actuator.thy ===== *)
theory Runtime_Actuator
  imports Blueprint_Runtime Safe_State
begin

text \<open>
  The production actuator (\<open>server/blueprint/runtime-actuator.ts\<close>): it halts the loop and commands the output tags of a blueprint
  runtime and, where a deployment binds one, a field-output sink. It provides the interface \<open>safe_actuator\<close> of the controller.
  The sink is not part of the repository: \<open>sink n\<close> says whether its \<open>n\<close>-th write takes effect or throws. The environment that
  holds the opt-in for output writes is fixed. A recipe is the list of its entries, in the order of \<open>Object.entries\<close>.
\<close>

datatype output_mode = Loop | Hold_Mode | Zero_Mode | Recipe_Mode

type_synonym outputs = "(string \<times> number) list"

record runtime_actuator =
  ra_runtime :: runtime
  outputTagNames :: "string list"
  safeRecipes :: "string \<rightharpoonup> outputs"
  outputWritesEnabled :: bool
  fieldSink :: "(nat \<Rightarrow> bool) option"
  sinkWrites :: "(outputs \<times> bool) list"
  ra_halted :: bool
  outputMode :: output_mode
  heldOutputs :: "outputs option"

definition new_actuator :: "runtime \<Rightarrow> (string \<rightharpoonup> outputs) \<Rightarrow> (nat \<Rightarrow> bool) option \<Rightarrow> bool \<Rightarrow> runtime_actuator" where
  "new_actuator rt recipes sink writes =
     \<lparr> ra_runtime = rt, outputTagNames = map td_name (filter (\<lambda>t. direction t = Output) (tagMeta (program rt))), safeRecipes = recipes,
       outputWritesEnabled = writes, fieldSink = sink, sinkWrites = [], ra_halted = False, outputMode = Loop, heldOutputs = None \<rparr>"

fun read_tags :: "string list \<Rightarrow> runtime \<Rightarrow> range_error + outputs" where
  "read_tags [] rt = Inr []"
| "read_tags (n # ns) rt =
     (case get_tag n rt of
        Inl e \<Rightarrow> Inl e
      | Inr v \<Rightarrow> (case read_tags ns rt of Inl e \<Rightarrow> Inl e | Inr vs \<Rightarrow> Inr ((n, v) # vs)))"

definition current_outputs :: "runtime_actuator \<Rightarrow> range_error + outputs" where
  "current_outputs a = read_tags (outputTagNames a) (ra_runtime a)"

datatype cannot_apply = WritesNotAllowed | NoOutputTags | UndefinedRecipe string | NonOutputTags "string list"

definition assertCanApply :: "safe_state_action \<Rightarrow> runtime_actuator \<Rightarrow> cannot_apply option" where
  "assertCanApply action a =
     (case action of
        Hold_Last \<Rightarrow> None
      | Force_Zero \<Rightarrow>
          if \<not> outputWritesEnabled a then Some WritesNotAllowed
          else if outputTagNames a = [] then Some NoOutputTags
          else None
      | Recipe r \<Rightarrow>
          (case safeRecipes a r of
             None \<Rightarrow> Some (UndefinedRecipe r)
           | Some values \<Rightarrow>
               if \<not> outputWritesEnabled a then Some WritesNotAllowed
               else (let unknown = filter (\<lambda>n. n \<notin> set (outputTagNames a)) (map fst values)
                     in if unknown \<noteq> [] then Some (NonOutputTags unknown) else None)))"

definition publish :: "outputs \<Rightarrow> runtime_actuator \<Rightarrow> bool \<times> runtime_actuator" where
  "publish values a =
     (case fieldSink a of
        None \<Rightarrow> (True, a)
      | Some sink \<Rightarrow>
          (let ok = sink (length (sinkWrites a)) in (ok, a \<lparr> sinkWrites := sinkWrites a @ [(values, ok)] \<rparr>)))"

definition holdLastOutputs :: "runtime_actuator \<Rightarrow> bool \<times> runtime_actuator" where
  "holdLastOutputs a =
     (case current_outputs a of
        Inl _ \<Rightarrow> (False, a)
      | Inr held \<Rightarrow> publish held (a \<lparr> heldOutputs := Some held, outputMode := Hold_Mode \<rparr>))"

text \<open>The loops that set tags: an unknown tag throws, and what was set before stays set.\<close>

fun set_tags :: "outputs \<Rightarrow> runtime \<Rightarrow> bool \<times> runtime" where
  "set_tags [] rt = (True, rt)"
| "set_tags ((n, v) # vs) rt = (case set_tag n v rt of Inl _ \<Rightarrow> (False, rt) | Inr rt' \<Rightarrow> set_tags vs rt')"

definition command_outputs :: "outputs \<Rightarrow> output_mode \<Rightarrow> runtime_actuator \<Rightarrow> bool \<times> runtime_actuator" where
  "command_outputs values m a =
     (case set_tags values (ra_runtime a) of
        (False, rt) \<Rightarrow> (False, a \<lparr> ra_runtime := rt \<rparr>)
      | (True, rt) \<Rightarrow> publish values (a \<lparr> ra_runtime := rt, heldOutputs := Some values, outputMode := m \<rparr>))"

definition forceZeroOutputs :: "runtime_actuator \<Rightarrow> bool \<times> runtime_actuator" where
  "forceZeroOutputs a =
     (if \<not> outputWritesEnabled a then (False, a)
      else command_outputs (map (\<lambda>n. (n, num_zero)) (outputTagNames a)) Zero_Mode a)"

definition applySafeRecipe :: "string \<Rightarrow> runtime_actuator \<Rightarrow> bool \<times> runtime_actuator" where
  "applySafeRecipe recipe a =
     (case safeRecipes a recipe of
        None \<Rightarrow> (False, a)
      | Some values \<Rightarrow> if \<not> outputWritesEnabled a then (False, a) else command_outputs values Recipe_Mode a)"

definition halt :: "runtime_actuator \<Rightarrow> runtime_actuator" where
  "halt a = a \<lparr> ra_halted := True \<rparr>"

definition resume :: "runtime_actuator \<Rightarrow> runtime_actuator" where
  "resume a = a \<lparr> ra_halted := False, outputMode := Loop, heldOutputs := None \<rparr>"

text \<open>The calls of the controller, \<open>applyAction\<close> of \<open>safe-state.ts\<close> included.\<close>

definition applyAction :: "safe_state_action \<Rightarrow> runtime_actuator \<Rightarrow> bool \<times> runtime_actuator" where
  "applyAction action a =
     (case action of Hold_Last \<Rightarrow> holdLastOutputs a | Force_Zero \<Rightarrow> forceZeroOutputs a | Recipe r \<Rightarrow> applySafeRecipe r a)"

fun actuator_act :: "actuator_call \<Rightarrow> runtime_actuator \<Rightarrow> bool \<times> runtime_actuator" where
  "actuator_act Halt a = (True, halt a)"
| "actuator_act Resume a = (True, resume a)"
| "actuator_act (Apply action) a = applyAction action a"

section \<open>What the calls achieve\<close>

text \<open>A runtime whose tag table maps distinct tags to distinct slots, and an actuator whose output tags are in it.\<close>

definition table_ok :: "runtime \<Rightarrow> bool" where
  "table_ok rt \<longleftrightarrow> runtime_ok rt
     \<and> (\<forall>t i. tagIndex (program rt) t = Some i \<longrightarrow> i < tagCount (program rt))
     \<and> (\<forall>t u i. tagIndex (program rt) t = Some i \<longrightarrow> tagIndex (program rt) u = Some i \<longrightarrow> t = u)"

definition actuator_ok :: "runtime_actuator \<Rightarrow> bool" where
  "actuator_ok a \<longleftrightarrow> table_ok (ra_runtime a) \<and> (\<forall>n\<in>set (outputTagNames a). tagIndex (program (ra_runtime a)) n \<noteq> None)"

definition sink_has :: "outputs \<Rightarrow> runtime_actuator \<Rightarrow> bool" where
  "sink_has values a \<longleftrightarrow> (fieldSink a \<noteq> None \<longrightarrow> (\<exists>ws. sinkWrites a = ws @ [(values, True)]))"

text \<open>
  When an action is in force: the outputs hold the values it declares, the sink, if one is bound, took exactly the commanded
  values in its last write, and the opt-in is set where values are commanded.
\<close>

definition in_force :: "safe_state_action \<Rightarrow> runtime_actuator \<Rightarrow> bool" where
  "in_force action a =
     (case action of
        Hold_Last \<Rightarrow> (\<exists>held. heldOutputs a = Some held \<and> current_outputs a = Inr held \<and> sink_has held a)
      | Force_Zero \<Rightarrow> outputWritesEnabled a \<and> (\<forall>n\<in>set (outputTagNames a). get_tag n (ra_runtime a) = Inr num_zero)
          \<and> sink_has (map (\<lambda>n. (n, num_zero)) (outputTagNames a)) a
      | Recipe r \<Rightarrow> outputWritesEnabled a
          \<and> (\<exists>values. safeRecipes a r = Some values \<and> sink_has values a
               \<and> (\<forall>n v. map_of (rev values) n = Some v \<longrightarrow> get_tag n (ra_runtime a) = Inr v)))"

lemma set_tag_Inr: "set_tag n v rt = Inr rt' \<longleftrightarrow> (\<exists>i. tagIndex (program rt) n = Some i \<and> rt' = rt \<lparr> tagBuffer := (tagBuffer rt)[i := v] \<rparr>)"
  by (auto simp: set_tag_def split: option.splits)

lemma set_tag_keeps: "set_tag n v rt = Inr rt' \<Longrightarrow> program rt' = program rt \<and> (table_ok rt \<longrightarrow> table_ok rt')"
  by (auto simp: set_tag_Inr table_ok_def runtime_ok_def)

lemma get_set_tag:
  "set_tag n v rt = Inr rt' \<Longrightarrow> table_ok rt \<Longrightarrow> get_tag m rt' = (if m = n then Inr v else get_tag m rt)"
  unfolding set_tag_Inr get_tag_def
  by (auto simp: table_ok_def runtime_ok_def nth_list_update split: option.split)

lemma set_tags_keeps: "set_tags vs rt = (ok, rt') \<Longrightarrow> program rt' = program rt \<and> (table_ok rt \<longrightarrow> table_ok rt')"
  by (induction vs rt rule: set_tags.induct) (auto split: sum.splits dest: set_tag_keeps)

lemma get_set_tags:
  "set_tags vs rt = (True, rt') \<Longrightarrow> table_ok rt \<Longrightarrow> get_tag m rt' = (case map_of (rev vs) m of None \<Rightarrow> get_tag m rt | Some v \<Rightarrow> Inr v)"
proof (induction vs rt rule: set_tags.induct)
  case (2 n v vs rt)
  then obtain rt1 where s: "set_tag n v rt = Inr rt1" "set_tags vs rt1 = (True, rt')" by (auto split: sum.splits)
  then show ?case using 2(1) [OF s] set_tag_keeps [OF s(1)] get_set_tag [OF s(1)] 2(3) by (auto simp: map_add_def split: option.split)
qed simp

lemma publish_cases:
  "publish vs a = (ok, a') \<Longrightarrow>
     ra_runtime a' = ra_runtime a \<and> outputTagNames a' = outputTagNames a \<and> safeRecipes a' = safeRecipes a
     \<and> outputWritesEnabled a' = outputWritesEnabled a \<and> fieldSink a' = fieldSink a \<and> ra_halted a' = ra_halted a
     \<and> outputMode a' = outputMode a \<and> heldOutputs a' = heldOutputs a \<and> (ok \<longrightarrow> sink_has vs a') \<and> (fieldSink a = None \<longrightarrow> ok)"
  by (auto simp: publish_def sink_has_def Let_def split: option.splits)

lemma command_cases:
  assumes "command_outputs vs m a = (ok, a')"
  shows "program (ra_runtime a') = program (ra_runtime a) \<and> (table_ok (ra_runtime a) \<longrightarrow> table_ok (ra_runtime a'))
    \<and> outputTagNames a' = outputTagNames a \<and> safeRecipes a' = safeRecipes a \<and> outputWritesEnabled a' = outputWritesEnabled a
    \<and> fieldSink a' = fieldSink a \<and> ra_halted a' = ra_halted a
    \<and> (ok \<longrightarrow> sink_has vs a' \<and> set_tags vs (ra_runtime a) = (True, ra_runtime a'))"
  using assms
  by (auto simp: command_outputs_def split: prod.splits bool.splits dest!: publish_cases dest: set_tags_keeps)

lemma apply_cases:
  assumes "applyAction action a = (ok, a')"
  shows "program (ra_runtime a') = program (ra_runtime a) \<and> (table_ok (ra_runtime a) \<longrightarrow> table_ok (ra_runtime a'))
    \<and> outputTagNames a' = outputTagNames a \<and> safeRecipes a' = safeRecipes a \<and> outputWritesEnabled a' = outputWritesEnabled a
    \<and> fieldSink a' = fieldSink a \<and> ra_halted a' = ra_halted a"
  using assms
  by (cases action)
    (auto simp: applyAction_def holdLastOutputs_def forceZeroOutputs_def applySafeRecipe_def split: sum.splits option.splits if_splits
      dest!: publish_cases command_cases)

lemma map_of_const: "n \<in> set ns \<Longrightarrow> map_of (map (\<lambda>n. (n, v)) ns) n = Some v"
  by (induction ns) auto

lemma apply_in_force:
  assumes "actuator_ok a" "applyAction action a = (True, a')"
  shows "in_force action a'"
proof (cases action)
  case Hold_Last
  then show ?thesis using assms
    by (auto simp: applyAction_def holdLastOutputs_def in_force_def current_outputs_def split: sum.splits dest!: publish_cases)
next
  case Force_Zero
  let ?vs = "map (\<lambda>n. (n, num_zero)) (outputTagNames a)"
  have c: "command_outputs ?vs Zero_Mode a = (True, a')" "outputWritesEnabled a"
    using assms(2) Force_Zero by (auto simp: applyAction_def forceZeroOutputs_def split: if_splits)
  have "map_of (rev ?vs) n = Some num_zero" if "n \<in> set (outputTagNames a)" for n
    using that map_of_const [of n "rev (outputTagNames a)"] by (simp add: rev_map)
  then show ?thesis
    using Force_Zero c command_cases [OF c(1)] get_set_tags assms(1) by (auto simp: in_force_def actuator_ok_def)
next
  case (Recipe r)
  then obtain vs where c: "safeRecipes a r = Some vs" "command_outputs vs Recipe_Mode a = (True, a')" "outputWritesEnabled a"
    using assms(2) by (auto simp: applyAction_def applySafeRecipe_def split: option.splits if_splits)
  then show ?thesis using Recipe command_cases [OF c(2)] get_set_tags assms(1) by (auto simp: in_force_def actuator_ok_def)
qed

lemma act_ok: "actuator_ok a \<Longrightarrow> actuator_ok (snd (actuator_act c a))"
proof (cases c)
  case (Apply action)
  then show "actuator_ok a \<Longrightarrow> ?thesis" using apply_cases [of action a, OF surjective_pairing] by (simp add: actuator_ok_def)
qed (simp_all add: actuator_ok_def halt_def resume_def)

interpretation runtime_actuator: safe_actuator actuator_act actuator_ok ra_halted in_force
  by unfold_locales (auto simp: act_ok halt_def apply_in_force dest: apply_cases)

section \<open>Armed actuators can act\<close>

lemma read_tags_Inr: "\<forall>n\<in>set ns. tagIndex (program rt) n \<noteq> None \<Longrightarrow> \<exists>vs. read_tags ns rt = Inr vs"
  by (induction ns) (auto simp: get_tag_def split: option.split)

lemma set_tags_True: "\<forall>n\<in>fst ` set vs. tagIndex (program rt) n \<noteq> None \<Longrightarrow> fst (set_tags vs rt)"
  by (induction vs rt rule: set_tags.induct) (auto simp: set_tag_def split: option.splits)

lemma command_True:
  "fieldSink a = None \<Longrightarrow> \<forall>n\<in>fst ` set vs. tagIndex (program (ra_runtime a)) n \<noteq> None \<Longrightarrow> fst (command_outputs vs m a)"
  using set_tags_True [of vs "ra_runtime a"] by (auto simp: command_outputs_def publish_def split: prod.splits bool.splits)

lemma armed_applies:
  assumes "assertCanApply action a = None" "actuator_ok a" "fieldSink a = None"
  shows "fst (applyAction action a)"
proof (cases action)
  case Hold_Last
  then show ?thesis
    using read_tags_Inr [of "outputTagNames a" "ra_runtime a"] assms(2,3)
    by (auto simp: applyAction_def holdLastOutputs_def current_outputs_def publish_def actuator_ok_def)
next
  case Force_Zero
  then show ?thesis
    using assms by (auto simp: assertCanApply_def applyAction_def forceZeroOutputs_def actuator_ok_def intro!: command_True split: if_splits)
next
  case (Recipe r)
  then obtain vs where r: "safeRecipes a r = Some vs" "outputWritesEnabled a" "filter (\<lambda>n. n \<notin> set (outputTagNames a)) (map fst vs) = []"
    using assms(1) by (auto simp: assertCanApply_def Let_def split: option.splits if_splits)
  then have "\<forall>n\<in>fst ` set vs. tagIndex (program (ra_runtime a)) n \<noteq> None" using assms(2) by (auto simp: actuator_ok_def filter_empty_conv)
  then show ?thesis using Recipe r assms(3) by (simp add: applyAction_def applySafeRecipe_def command_True)
qed

lemma assertCanApply_kept:
  "outputTagNames a' = outputTagNames a \<Longrightarrow> safeRecipes a' = safeRecipes a \<Longrightarrow> outputWritesEnabled a' = outputWritesEnabled a
     \<Longrightarrow> assertCanApply action a' = assertCanApply action a"
  by (simp add: assertCanApply_def split: safe_state_action.split option.split)

lemma compiled_table:
  assumes "compileBlueprint def = Inr p"
  shows "table_ok (new_runtime p)" "tagIndex p = tag_slot (bd_tags def)" "tagMeta p = bd_tags def"
proof -
  obtain ord where p: "p = emit def (tag_slot (bd_tags def)) ord" and wf: "well_formed def" using assms by (auto simp: compile_Inr)
  show i: "tagIndex p = tag_slot (bd_tags def)" and "tagMeta p = bd_tags def" by (simp_all add: p emit_def split: prod.split)
  show "table_ok (new_runtime p)"
    using new_runtime_ok [OF assms] i compiled_tags(1) [OF assms] wf by (auto simp: table_ok_def tag_slot_Some well_formed_def)
qed

lemma new_actuator_ok:
  assumes "compileBlueprint def = Inr p"
  shows "actuator_ok (new_actuator (new_runtime p) recipes sink writes)"
  using compiled_table [OF assms] by (auto simp: actuator_ok_def new_actuator_def new_runtime_def tag_slot_None)

end
