(* ===== verification/Safety_Host.thy ===== *)
theory Safety_Host
  imports Runtime_Actuator
begin

text \<open>
  The watchdog (\<open>server/blueprint/watchdog.ts\<close>), its registry (\<open>registry.ts\<close>) and the host that arms blueprints and drives their ticks
  (\<open>safety-host.ts\<close>). The measured duration of a tick, what the outside answers and the operator's requests are events. A tick
  and a resume run to their end before the next event: the flag \<open>ticking\<close>, the halt latch and the serialised transitions keep
  other ticks out while one waits. The file system, \<open>JSON.parse\<close> and the schema of the
  bindings document are fields of the environment.
  The text of a number is the parameter \<open>num_text\<close>.
\<close>

section \<open>Watchdog\<close>

record tick_observation =
  durationMs :: number
  overBudget :: bool
  observed_misses :: nat
  tripped :: bool

record watchdog =
  consecutiveMisses :: nat
  wd_controller :: controller

definition new_watchdog :: watchdog where
  "new_watchdog = \<lparr> consecutiveMisses = 0, wd_controller = new_controller \<rparr>"

definition over_budget :: "safe_state_config \<Rightarrow> number \<Rightarrow> bool" where
  "over_budget cfg d \<longleftrightarrow> num_lt (num_of_int (int (tickBudgetMs cfg))) d"

definition trip_reason :: "(number \<Rightarrow> string) \<Rightarrow> safe_state_config \<Rightarrow> nat \<Rightarrow> number \<Rightarrow> string" where
  "trip_reason num_text cfg misses d =
     num_text (num_of_int (int misses)) @ '' consecutive ticks exceeded budget of '' @ num_text (num_of_int (int (tickBudgetMs cfg)))
     @ ''ms (last tick '' @ num_text d @ ''ms)''"

definition observeTick :: "'a actuator \<Rightarrow> blueprint \<Rightarrow> safe_state_config \<Rightarrow> (number \<Rightarrow> string) \<Rightarrow> outcomes \<Rightarrow> number \<Rightarrow> watchdog \<times> 'a world
    \<Rightarrow> (transition_error + tick_observation) \<times> watchdog \<times> 'a world" where
  "observeTick act bp cfg num_text x d ww =
     (case ww of (wd, w) \<Rightarrow>
        if \<not> enabled cfg \<or> isInSafeState (wd_controller wd)
        then (Inr \<lparr> durationMs = d, overBudget = over_budget cfg d, observed_misses = consecutiveMisses wd, tripped = False \<rparr>, wd, w)
        else if \<not> over_budget cfg d
        then (Inr \<lparr> durationMs = d, overBudget = False, observed_misses = 0, tripped = False \<rparr>, wd \<lparr> consecutiveMisses := 0 \<rparr>, w)
        else
          (let misses = consecutiveMisses wd + 1; wd = wd \<lparr> consecutiveMisses := misses \<rparr> in
           if misses \<ge> consecutiveMissesBeforeSafeState cfg
           then (case enterSafeStateLocked act bp cfg x (trip_reason num_text cfg misses d) misses (wd_controller wd, w) of
                   (Inl e, c, w) \<Rightarrow> (Inl e, wd \<lparr> wd_controller := c \<rparr>, w)
                 | (Inr _, c, w) \<Rightarrow>
                     (Inr \<lparr> durationMs = d, overBudget = True, observed_misses = misses, tripped = True \<rparr>, wd \<lparr> wd_controller := c \<rparr>, w))
           else (Inr \<lparr> durationMs = d, overBudget = True, observed_misses = misses, tripped = False \<rparr>, wd, w)))"

text \<open>\<open>runTick\<close>: the tick body is not run in safe-state handling; otherwise it runs to its end and then its duration is judged.\<close>

definition runTick :: "'a actuator \<Rightarrow> ('a \<Rightarrow> 'a) \<Rightarrow> blueprint \<Rightarrow> safe_state_config \<Rightarrow> (number \<Rightarrow> string) \<Rightarrow> outcomes \<Rightarrow> number
    \<Rightarrow> watchdog \<times> 'a world \<Rightarrow> (transition_error + bool \<times> tick_observation) \<times> watchdog \<times> 'a world" where
  "runTick act tick bp cfg num_text x d ww =
     (case ww of (wd, w) \<Rightarrow>
        if isInSafeState (wd_controller wd)
        then (Inr (True, \<lparr> durationMs = num_zero, overBudget = False, observed_misses = consecutiveMisses wd, tripped = False \<rparr>), wd, w)
        else (case observeTick act bp cfg num_text x d (wd, w \<lparr> plant := tick (plant w) \<rparr>) of
                (Inl e, ww) \<Rightarrow> (Inl e, ww)
              | (Inr obs, ww) \<Rightarrow> (Inr (False, obs), ww)))"

definition wd_resume :: "'a actuator \<Rightarrow> blueprint \<Rightarrow> safe_state_config \<Rightarrow> (transition_error \<Rightarrow> string) \<Rightarrow> (recovery_error \<Rightarrow> string) \<Rightarrow> outcomes
    \<Rightarrow> string \<Rightarrow> string \<Rightarrow> watchdog \<times> 'a world \<Rightarrow> (transition_error + safe_state_status) \<times> watchdog \<times> 'a world" where
  "wd_resume act bp cfg error_text show_err x operator reason ww =
     (case ww of (wd, w) \<Rightarrow>
        (case resumeLocked act bp cfg x error_text show_err operator reason (wd_controller wd, w) of
           (Inl e, c, w) \<Rightarrow> (Inl e, wd \<lparr> wd_controller := c \<rparr>, w)
         | (Inr st, c, w) \<Rightarrow> (Inr st, wd \<lparr> wd_controller := c, consecutiveMisses := 0 \<rparr>, w)))"

section \<open>Host\<close>

record binding =
  bg_siteId :: "string option"
  bg_blueprint :: blueprint_definition
  bg_safeState :: safe_state_config
  bg_safeRecipes :: "string \<rightharpoonup> outputs"

record hosted =
  hb_blueprint :: blueprint
  hb_config :: safe_state_config
  hb_watchdog :: watchdog
  hb_world :: "runtime_actuator world"

datatype rejection = DuplicateBinding | NotCompiled compile_error | NotActuatable cannot_apply

datatype host_state = DISABLED | HOST_RUNNING | FAILED

datatype bindings_source = SAFETY_BINDINGS_FILE_ENV | SAFETY_BINDINGS_ENV

text \<open>The process environment, the file system, \<open>JSON.parse\<close> and the Zod schema of the bindings document; \<open>None\<close> is a failure.\<close>

record 'v environment =
  env_bindings_file :: "string option"
  env_bindings :: "string option"
  env_allow_writes :: "string option"
  readFileSync :: "string \<Rightarrow> string option"
  json_parse :: "string \<Rightarrow> 'v option"
  safeParse :: "'v \<Rightarrow> binding list option"

definition outputWritesEnabled_env :: "'v environment \<Rightarrow> bool" where
  "outputWritesEnabled_env env \<longleftrightarrow> env_allow_writes env = Some ''true''"

record host =
  hosted_blueprints :: "(string \<times> hosted) list"
  registry :: "string list"
  rejected :: "(string \<times> rejection) list"
  host_state :: host_state
  host_source :: "bindings_source option"

definition new_host :: host where
  "new_host = \<lparr> hosted_blueprints = [], registry = [], rejected = [], host_state = DISABLED, host_source = None \<rparr>"

text \<open>An unset and an empty variable are both false.\<close>

definition present :: "string option \<Rightarrow> bool" where
  "present v \<longleftrightarrow> v \<noteq> None \<and> v \<noteq> Some []"

definition readBindings :: "'v environment \<Rightarrow> host \<Rightarrow> 'v option \<times> host" where
  "readBindings env h =
     (if \<not> present (env_bindings_file env) \<and> \<not> present (env_bindings env)
      then (None, h \<lparr> host_state := DISABLED, host_source := None \<rparr>)
      else
        (let raw = (if present (env_bindings_file env) then readFileSync env (the (env_bindings_file env)) else env_bindings env);
             h = h \<lparr> host_source := Some (if present (env_bindings_file env) then SAFETY_BINDINGS_FILE_ENV else SAFETY_BINDINGS_ENV) \<rparr>
         in case raw of
              None \<Rightarrow> (None, h \<lparr> host_state := FAILED \<rparr>)
            | Some text \<Rightarrow>
                (case json_parse env text of
                   None \<Rightarrow> (None, h \<lparr> host_state := FAILED \<rparr>)
                 | Some v \<Rightarrow> (Some v, h))))"

text \<open>\<open>WatchdogRegistry.register\<close> and \<open>unregister\<close>: the keys of the registry's \<open>Map\<close>, in order of registration.\<close>

definition register :: "string \<Rightarrow> runtime_actuator \<Rightarrow> safe_state_config \<Rightarrow> string list \<Rightarrow> cannot_apply + watchdog \<times> string list" where
  "register i a cfg ids =
     (case assertCanApply (safeState cfg) a of
        Some e \<Rightarrow> Inl e
      | None \<Rightarrow> Inr (new_watchdog, if i \<in> set ids then ids else ids @ [i]))"

definition unregister :: "string \<Rightarrow> string list \<Rightarrow> string list" where
  "unregister i ids = filter (\<lambda>j. j \<noteq> i) ids"

text \<open>The host binds no field sink.\<close>

definition arm :: "(json \<Rightarrow> string) \<Rightarrow> bool \<Rightarrow> binding \<Rightarrow> host \<Rightarrow> host" where
  "arm hash writes b h =
     (let i = bd_id (bg_blueprint b) in
      if i \<in> fst ` set (hosted_blueprints h) then h \<lparr> rejected := rejected h @ [(i, DuplicateBinding)] \<rparr>
      else case compileBlueprint (bg_blueprint b) of
        Inl e \<Rightarrow> h \<lparr> rejected := rejected h @ [(i, NotCompiled e)], registry := unregister i (registry h) \<rparr>
      | Inr p \<Rightarrow>
          (let a = new_actuator (new_runtime p) (bg_safeRecipes b) None writes in
           case register i a (bg_safeState b) (registry h) of
             Inl e \<Rightarrow> h \<lparr> rejected := rejected h @ [(i, NotActuatable e)], registry := unregister i (registry h) \<rparr>
           | Inr (wd, ids) \<Rightarrow>
               h \<lparr> registry := ids,
                   hosted_blueprints := hosted_blueprints h @
                     [(i, \<lparr> hb_blueprint = \<lparr> blueprintId = i, siteId = bg_siteId b, hash_json = hash \<rparr>, hb_config = bg_safeState b,
                            hb_watchdog = wd, hb_world = \<lparr> plant = a, trace = [] \<rparr> \<rparr>)] \<rparr>))"

definition stop :: "host \<Rightarrow> host" where
  "stop h = h \<lparr> registry := fold (\<lambda>(i, _) ids. unregister i ids) (hosted_blueprints h) (registry h),
     hosted_blueprints := [], host_state := DISABLED, host_source := None \<rparr>"

definition start :: "(json \<Rightarrow> string) \<Rightarrow> 'v environment \<Rightarrow> host \<Rightarrow> host" where
  "start hash env h =
     (case readBindings env ((stop h) \<lparr> rejected := [] \<rparr>) of
        (None, h) \<Rightarrow> h
      | (Some v, h) \<Rightarrow>
          (case safeParse env v of
             None \<Rightarrow> h \<lparr> host_state := FAILED \<rparr>
           | Some bs \<Rightarrow>
               (let h = fold (arm hash (outputWritesEnabled_env env)) bs h
                in h \<lparr> host_state := (if hosted_blueprints h = [] then FAILED else HOST_RUNNING) \<rparr>)))"

definition tick_runtime :: "runtime_actuator \<Rightarrow> runtime_actuator" where
  "tick_runtime a = a \<lparr> ra_runtime := tickFast (ra_runtime a) \<rparr>"

definition tick_hosted :: "(number \<Rightarrow> string) \<Rightarrow> outcomes \<Rightarrow> number \<Rightarrow> hosted \<Rightarrow> hosted" where
  "tick_hosted num_text x d e =
     (if ra_halted (plant (hb_world e)) then e
      else case runTick actuator_act tick_runtime (hb_blueprint e) (hb_config e) num_text x d (hb_watchdog e, hb_world e) of
        (_, wd, w) \<Rightarrow> e \<lparr> hb_watchdog := wd, hb_world := w \<rparr>)"

definition resume_hosted :: "(transition_error \<Rightarrow> string) \<Rightarrow> (recovery_error \<Rightarrow> string) \<Rightarrow> outcomes \<Rightarrow> string \<Rightarrow> string \<Rightarrow> hosted \<Rightarrow> hosted" where
  "resume_hosted error_text show_err x operator reason e =
     (case wd_resume actuator_act (hb_blueprint e) (hb_config e) error_text show_err x operator reason (hb_watchdog e, hb_world e) of
        (_, wd, w) \<Rightarrow> e \<lparr> hb_watchdog := wd, hb_world := w \<rparr>)"

text \<open>The I/O layer writes the inputs of a hosted runtime.\<close>

definition input_hosted :: "number list \<Rightarrow> hosted \<Rightarrow> hosted" where
  "input_hosted vs e =
     (case writeInputs vs (ra_runtime (plant (hb_world e))) of
        Inl _ \<Rightarrow> e
      | Inr rt \<Rightarrow> e \<lparr> hb_world := (hb_world e) \<lparr> plant := (plant (hb_world e)) \<lparr> ra_runtime := rt \<rparr> \<rparr> \<rparr>)"

datatype host_event = Tick string number outcomes | Operator_Resume string string string outcomes | Inputs string "number list"

fun host_step :: "(number \<Rightarrow> string) \<Rightarrow> (transition_error \<Rightarrow> string) \<Rightarrow> (recovery_error \<Rightarrow> string) \<Rightarrow> host_event \<Rightarrow> host \<Rightarrow> host" where
  "host_step num_text error_text show_err (Tick i d x) h =
     h \<lparr> hosted_blueprints := map (\<lambda>(j, e). (j, if j = i then tick_hosted num_text x d e else e)) (hosted_blueprints h) \<rparr>"
| "host_step num_text error_text show_err (Operator_Resume i operator reason x) h =
     h \<lparr> hosted_blueprints := map (\<lambda>(j, e). (j, if j = i then resume_hosted error_text show_err x operator reason e else e)) (hosted_blueprints h) \<rparr>"
| "host_step num_text error_text show_err (Inputs i vs) h =
     h \<lparr> hosted_blueprints := map (\<lambda>(j, e). (j, if j = i then input_hosted vs e else e)) (hosted_blueprints h) \<rparr>"

section \<open>Invariant of a hosted blueprint\<close>

text \<open>An armed actuator: no sink, the declared action passes the check, and no output tag shares a slot with an input.\<close>

definition armed :: "safe_state_config \<Rightarrow> runtime_actuator \<Rightarrow> bool" where
  "armed cfg a \<longleftrightarrow> actuator_ok a \<and> fieldSink a = None \<and> assertCanApply (safeState cfg) a = None
     \<and> (\<forall>n\<in>set (outputTagNames a). \<forall>i. tagIndex (program (ra_runtime a)) n = Some i \<longrightarrow> i \<notin> set (inputSlots (program (ra_runtime a))))"

lemma armed_cong:
  "armed cfg a \<Longrightarrow> actuator_ok a' \<Longrightarrow> program (ra_runtime a') = program (ra_runtime a) \<Longrightarrow> outputTagNames a' = outputTagNames a
     \<Longrightarrow> safeRecipes a' = safeRecipes a \<Longrightarrow> outputWritesEnabled a' = outputWritesEnabled a \<Longrightarrow> fieldSink a' = fieldSink a \<Longrightarrow> armed cfg a'"
  using assertCanApply_kept [of a' a] by (simp add: armed_def)

lemma armed_act: "armed cfg a \<Longrightarrow> armed cfg (snd (actuator_act c a))"
proof -
  assume a: "armed cfg a"
  then have "actuator_ok (snd (actuator_act c a))" by (simp add: armed_def act_ok)
  then show ?thesis
    using a apply_cases [OF surjective_pairing, of _ a] by (cases c) (auto simp: halt_def resume_def elim!: armed_cong)
qed

interpretation armed: safe_actuator actuator_act "armed cfg" ra_halted in_force for cfg
proof
  fix s s' and c :: actuator_call and a :: safe_state_action
  assume "armed cfg s"
  then have ok: "actuator_ok s" and kept: "armed cfg (snd (actuator_act c s))" by (simp_all add: armed_act) (simp add: armed_def)
  show "armed cfg (snd (actuator_act c s))" by (rule kept)
  show "actuator_act Halt s = (True, s') \<Longrightarrow> ra_halted s'" by (rule runtime_actuator.halt_effect [OF ok])
  show "actuator_act (Apply a) s = (True, s') \<Longrightarrow> in_force a s'" by (rule runtime_actuator.apply_effect [OF ok])
  show "ra_halted s \<Longrightarrow> actuator_act (Apply a) s = (True, s') \<Longrightarrow> ra_halted s'" by (rule runtime_actuator.apply_keeps_halt [OF ok])
qed

lemma armed_tick: "armed cfg a \<Longrightarrow> armed cfg (tick_runtime a)"
proof -
  assume a: "armed cfg a"
  show ?thesis
    using a by (rule armed_cong) (use a in \<open>auto simp: armed_def actuator_ok_def table_ok_def tick_runtime_def tickFast_ok\<close>)
qed

definition hosted_inv :: "hosted \<Rightarrow> bool" where
  "hosted_inv e \<longleftrightarrow> armed (hb_config e) (plant (hb_world e))
     \<and> (runState (status (wd_controller (hb_watchdog e))) = SAFE_STATE \<longrightarrow>
          ra_halted (plant (hb_world e)) \<and> in_force (safeState (hb_config e)) (plant (hb_world e)))"

lemma observe_cases:
  assumes "observeTick act bp cfg num_text x d (wd, w) = (r, wd', w')"
  shows "wd_controller wd' = wd_controller wd \<and> w' = w
    \<or> (\<exists>reason misses. (wd_controller wd', w') = snd (enterSafeStateLocked act bp cfg x reason misses (wd_controller wd, w)))"
proof (cases "enabled cfg \<and> \<not> isInSafeState (wd_controller wd) \<and> over_budget cfg d \<and> consecutiveMissesBeforeSafeState cfg \<le> consecutiveMisses wd + 1")
  case True
  let ?m = "consecutiveMisses wd + 1"
  obtain q c1 w1 where e: "enterSafeStateLocked act bp cfg x (trip_reason num_text cfg ?m d) ?m (wd_controller wd, w) = (q, c1, w1)"
    by (cases "enterSafeStateLocked act bp cfg x (trip_reason num_text cfg ?m d) ?m (wd_controller wd, w)")
  then have "wd_controller wd' = c1" "w' = w1" using assms True by (cases q; auto simp: observeTick_def Let_def)+
  then have "(wd_controller wd', w') = snd (enterSafeStateLocked act bp cfg x (trip_reason num_text cfg ?m d) ?m (wd_controller wd, w))" unfolding e by simp
  then show ?thesis by blast
next
  case False
  then show ?thesis using assms by (auto simp: observeTick_def Let_def split: if_splits)
qed

lemma hosted_transition:
  assumes "hosted_inv e" "(c, w) = transition_step actuator_act bp (hb_config e) error_text show_err tr (wd_controller (hb_watchdog e), hb_world e)"
    and "wd_controller wd = c"
  shows "hosted_inv (e \<lparr> hb_watchdog := wd, hb_world := w \<rparr>)"
proof -
  let ?cw = "(wd_controller (hb_watchdog e), hb_world e)"
  have a: "armed (hb_config e) (plant (snd ?cw))" using assms(1) by (simp add: hosted_inv_def)
  have "armed (hb_config e) (plant w)"
    using armed.transition_sound [OF a, of bp "hb_config e" error_text show_err tr] by (simp add: assms(2) [symmetric])
  moreover have "runState (status c) = SAFE_STATE \<longrightarrow> ra_halted (plant w) \<and> in_force (safeState (hb_config e)) (plant w)"
    using armed.claim_kept [OF a _ assms(2)] assms(1) by (simp add: hosted_inv_def)
  ultimately show ?thesis using assms(3) by (simp add: hosted_inv_def)
qed

lemma hosted_inv_tick:
  assumes "hosted_inv e"
  shows "hosted_inv (tick_hosted num_text x d e)"
proof (cases "ra_halted (plant (hb_world e)) \<or> isInSafeState (wd_controller (hb_watchdog e))")
  case True
  then show ?thesis using assms by (auto simp: tick_hosted_def runTick_def)
next
  case False
  let ?w = "(hb_world e) \<lparr> plant := tick_runtime (plant (hb_world e)) \<rparr>"
  obtain r wd' w' where o: "observeTick actuator_act (hb_blueprint e) (hb_config e) num_text x d (hb_watchdog e, ?w) = (r, wd', w')"
    by (cases "observeTick actuator_act (hb_blueprint e) (hb_config e) num_text x d (hb_watchdog e, ?w)")
  have t: "tick_hosted num_text x d e = e \<lparr> hb_watchdog := wd', hb_world := w' \<rparr>"
    using False o by (auto simp: tick_hosted_def runTick_def split: sum.splits)
  have i: "hosted_inv (e \<lparr> hb_world := ?w \<rparr>)" using assms False by (simp add: hosted_inv_def armed_tick isInSafeState_def)
  from observe_cases [OF o] show ?thesis
  proof
    assume "wd_controller wd' = wd_controller (hb_watchdog e) \<and> w' = ?w"
    then show ?thesis using i by (simp add: t hosted_inv_def)
  next
    assume "\<exists>reason misses. (wd_controller wd', w') = snd (enterSafeStateLocked actuator_act (hb_blueprint e) (hb_config e) x reason misses (wd_controller (hb_watchdog e), ?w))"
    then obtain reason misses where "(wd_controller wd', w') = transition_step actuator_act (hb_blueprint e) (hb_config e) (\<lambda>_. []) (\<lambda>_. [])
        (Enter reason misses x) (wd_controller (hb_watchdog e), ?w)" by auto
    then have "(wd_controller wd', w') = transition_step actuator_act (hb_blueprint e) (hb_config (e \<lparr> hb_world := ?w \<rparr>)) (\<lambda>_. []) (\<lambda>_. [])
        (Enter reason misses x) (wd_controller (hb_watchdog (e \<lparr> hb_world := ?w \<rparr>)), hb_world (e \<lparr> hb_world := ?w \<rparr>))" by simp
    from hosted_transition [OF i this refl] show ?thesis by (simp add: t)
  qed
qed

lemma hosted_inv_resume: "hosted_inv e \<Longrightarrow> hosted_inv (resume_hosted error_text show_err x operator reason e)"
proof -
  assume i: "hosted_inv e"
  obtain r c w where r: "resumeLocked actuator_act (hb_blueprint e) (hb_config e) x error_text show_err operator reason (wd_controller (hb_watchdog e), hb_world e) = (r, c, w)"
    by (cases "resumeLocked actuator_act (hb_blueprint e) (hb_config e) x error_text show_err operator reason (wd_controller (hb_watchdog e), hb_world e)")
  have "(c, w) = transition_step actuator_act (hb_blueprint e) (hb_config e) error_text show_err (Resume_By operator reason x)
      (wd_controller (hb_watchdog e), hb_world e)" by (simp add: r)
  from hosted_transition [OF i this] show ?thesis by (cases r) (auto simp: resume_hosted_def wd_resume_def r)
qed

lemma read_tags_cong: "(\<And>n. n \<in> set ns \<Longrightarrow> get_tag n rt = get_tag n rt') \<Longrightarrow> read_tags ns rt = read_tags ns rt'"
  by (induction ns) (auto split: sum.split)

lemma in_force_cong:
  assumes "in_force action a" "assertCanApply action a = None" "\<And>n. n \<in> set (outputTagNames a) \<Longrightarrow> get_tag n rt = get_tag n (ra_runtime a)"
  shows "in_force action (a \<lparr> ra_runtime := rt \<rparr>)"
proof (cases action)
  case Hold_Last
  then show ?thesis using assms(1) read_tags_cong [of "outputTagNames a" rt "ra_runtime a", OF assms(3)]
    by (auto simp: in_force_def current_outputs_def sink_has_def)
next
  case Force_Zero
  then show ?thesis using assms(1,3) by (auto simp: in_force_def sink_has_def)
next
  case (Recipe r)
  then obtain vs where vs: "safeRecipes a r = Some vs" "\<And>n. n \<in> fst ` set vs \<Longrightarrow> n \<in> set (outputTagNames a)"
    using assms(2) by (auto simp: assertCanApply_def Let_def filter_empty_conv split: option.splits if_splits)
  have "n \<in> set (outputTagNames a)" if "map_of (rev vs) n = Some v" for n v
    using vs(2) map_of_SomeD [OF that] by force
  then show ?thesis using Recipe vs(1) assms(1,3) by (auto simp: in_force_def sink_has_def)
qed

lemma nth_write_slots: "i \<notin> fst ` set xs \<Longrightarrow> write_slots xs tags ! i = tags ! i"
  by (induction xs tags rule: write_slots.induct) auto

lemma hosted_inv_input: "hosted_inv e \<Longrightarrow> hosted_inv (input_hosted vs e)"
proof -
  assume i: "hosted_inv e"
  let ?a = "plant (hb_world e)"
  show ?thesis
  proof (cases "writeInputs vs (ra_runtime ?a)")
    case (Inr rt)
    then have rt: "rt = (ra_runtime ?a) \<lparr> tagBuffer := write_slots (zip (inputSlots (program (ra_runtime ?a))) vs) (tagBuffer (ra_runtime ?a)) \<rparr>"
      by (auto simp: writeInputs_def split: if_splits)
    have a: "armed (hb_config e) ?a" using i by (simp add: hosted_inv_def)
    have a': "armed (hb_config e) (?a \<lparr> ra_runtime := rt \<rparr>)"
      using a by (rule armed_cong) (use a in \<open>auto simp: rt armed_def actuator_ok_def table_ok_def runtime_ok_def\<close>)
    have get: "get_tag n rt = get_tag n (ra_runtime ?a)" if "n \<in> set (outputTagNames ?a)" for n
    proof -
      have "i \<notin> fst ` set (zip (inputSlots (program (ra_runtime ?a))) vs)" if "tagIndex (program (ra_runtime ?a)) n = Some i" for i
        using a that \<open>n \<in> _\<close> by (auto simp: armed_def dest!: set_zip_leftD)
      then show ?thesis by (auto simp: rt get_tag_def nth_write_slots split: option.split)
    qed
    have "in_force (safeState (hb_config e)) (?a \<lparr> ra_runtime := rt \<rparr>)" if "in_force (safeState (hb_config e)) ?a"
      using in_force_cong [OF that _ get] a by (simp add: armed_def)
    then show ?thesis using i a' by (simp add: input_hosted_def Inr hosted_inv_def)
  qed (use i in \<open>simp add: input_hosted_def\<close>)
qed

section \<open>Arming\<close>

text \<open>The checks that \<open>arm\<close> makes, and what they mean.\<close>

definition passes :: "bool \<Rightarrow> binding \<Rightarrow> bool" where
  "passes writes b =
     (case compileBlueprint (bg_blueprint b) of
        Inl _ \<Rightarrow> False
      | Inr p \<Rightarrow> assertCanApply (safeState (bg_safeState b)) (new_actuator (new_runtime p) (bg_safeRecipes b) None writes) = None)"

definition output_tags :: "blueprint_definition \<Rightarrow> string set" where
  "output_tags def = {td_name t |t. t \<in> set (bd_tags def) \<and> direction t = Output}"

text \<open>
  A binding that can be armed: the blueprint is well formed and its nodes have an evaluation order, and the declared safe state
  is to hold the outputs, or output writes are opted in and it is to zero the outputs, of which there is one, or to apply a
  recipe that is defined and names output tags only.
\<close>

definition actuatable :: "bool \<Rightarrow> binding \<Rightarrow> bool" where
  "actuatable writes b \<longleftrightarrow>
     well_formed (bg_blueprint b) \<and> (\<exists>ord. evaluation_order (bd_nodes (bg_blueprint b)) ord)
     \<and> (safeState (bg_safeState b) = Hold_Last
        \<or> writes \<and> safeState (bg_safeState b) = Force_Zero \<and> output_tags (bg_blueprint b) \<noteq> {}
        \<or> writes \<and> (\<exists>r values. safeState (bg_safeState b) = Recipe r \<and> bg_safeRecipes b r = Some values
             \<and> fst ` set values \<subseteq> output_tags (bg_blueprint b)))"

lemma passes_iff:
  assumes "distinct (map node_id (bd_nodes (bg_blueprint b)))"
  shows "passes writes b \<longleftrightarrow> actuatable writes b"
proof (cases "compileBlueprint (bg_blueprint b)")
  case (Inl e)
  then have "\<not> (well_formed (bg_blueprint b) \<and> (\<exists>ord. evaluation_order (bd_nodes (bg_blueprint b)) ord))"
    using topoSort_correct [OF assms] compile_Inr [of "bg_blueprint b"] by (auto simp: well_formed_def)
  then show ?thesis using Inl by (auto simp: passes_def actuatable_def)
next
  case (Inr p)
  then have ok: "well_formed (bg_blueprint b)" "\<exists>ord. evaluation_order (bd_nodes (bg_blueprint b)) ord"
    using topoSort_correct [OF assms] compile_Inr [of "bg_blueprint b"] by (auto simp: well_formed_def)
  define a where "a = new_actuator (new_runtime p) (bg_safeRecipes b) None writes"
  have out: "set (outputTagNames a) = output_tags (bg_blueprint b)"
    using compiled_table(3) [OF Inr] by (auto simp: a_def new_actuator_def new_runtime_def output_tags_def)
  have sel: "safeRecipes a = bg_safeRecipes b" "outputWritesEnabled a = writes" by (simp_all add: a_def new_actuator_def)
  have "assertCanApply (safeState (bg_safeState b)) a = None \<longleftrightarrow>
      (safeState (bg_safeState b) = Hold_Last
        \<or> writes \<and> safeState (bg_safeState b) = Force_Zero \<and> output_tags (bg_blueprint b) \<noteq> {}
        \<or> writes \<and> (\<exists>r values. safeState (bg_safeState b) = Recipe r \<and> bg_safeRecipes b r = Some values
             \<and> fst ` set values \<subseteq> output_tags (bg_blueprint b)))"
  proof (cases "safeState (bg_safeState b)")
    case Hold_Last
    then show ?thesis by (simp add: assertCanApply_def)
  next
    case Force_Zero
    have "outputTagNames a = [] \<longleftrightarrow> output_tags (bg_blueprint b) = {}" using out by (metis set_empty)
    with Force_Zero show ?thesis by (simp add: assertCanApply_def sel)
  next
    case (Recipe r)
    have "filter (\<lambda>n. n \<notin> set (outputTagNames a)) (map fst values) = [] \<longleftrightarrow> fst ` set values \<subseteq> output_tags (bg_blueprint b)" for "values" :: outputs
      unfolding out by (auto simp: filter_empty_conv)
    then show ?thesis by (simp add: assertCanApply_def Recipe sel split: option.split)
  qed
  then show ?thesis using Inr ok by (simp add: passes_def actuatable_def a_def)
qed

definition fresh :: "hosted \<Rightarrow> bool" where
  "fresh e \<longleftrightarrow> armed (hb_config e) (plant (hb_world e)) \<and> \<not> ra_halted (plant (hb_world e)) \<and> hb_watchdog e = new_watchdog"

lemma new_actuator_armed:
  assumes c: "compileBlueprint def = Inr p" and "assertCanApply (safeState cfg) (new_actuator (new_runtime p) recipes None writes) = None"
  shows "armed cfg (new_actuator (new_runtime p) recipes None writes)"
proof -
  have d: "distinct (map td_name (bd_tags def))" using c by (simp add: compile_Inr well_formed_def)
  have "i \<notin> set (slots_of Input (bd_tags def))" if "t \<in> set (bd_tags def)" "direction t = Output" "tag_slot (bd_tags def) (td_name t) = Some i" for t i
  proof -
    have i: "i < length (bd_tags def)" "td_name (bd_tags def ! i) = td_name t" using that(3) by (simp_all add: tag_slot_Some [OF d])
    then have "bd_tags def ! i = t" using that(1) d by (metis distinct_map inj_onD nth_mem)
    then show ?thesis using that(2) by (simp add: slots_of_def)
  qed
  then show ?thesis
    using assms new_actuator_ok [OF c, of recipes None writes] compiled_table(2,3) [OF c] compiled_tags(2) [OF c]
    by (auto simp: armed_def new_actuator_def new_runtime_def)
qed

lemma arm_cases:
  "(\<exists>why. hosted_blueprints (arm hash writes b h) = hosted_blueprints h \<and> rejected (arm hash writes b h) = rejected h @ [(bd_id (bg_blueprint b), why)]
      \<and> (bd_id (bg_blueprint b) \<in> fst ` set (hosted_blueprints h) \<or> \<not> passes writes b)
      \<and> (why = DuplicateBinding \<longleftrightarrow> bd_id (bg_blueprint b) \<in> fst ` set (hosted_blueprints h)))
   \<or> (\<exists>e. hosted_blueprints (arm hash writes b h) = hosted_blueprints h @ [(bd_id (bg_blueprint b), e)] \<and> rejected (arm hash writes b h) = rejected h
      \<and> bd_id (bg_blueprint b) \<notin> fst ` set (hosted_blueprints h) \<and> passes writes b \<and> fresh e \<and> hb_config e = bg_safeState b)"
proof (cases "bd_id (bg_blueprint b) \<in> fst ` set (hosted_blueprints h)")
  case False
  show ?thesis
  proof (cases "compileBlueprint (bg_blueprint b)")
    case (Inl e)
    then show ?thesis using False by (auto simp: arm_def Let_def passes_def)
  next
    case (Inr p)
    then show ?thesis
      using False new_actuator_armed [OF Inr, of "bg_safeState b" "bg_safeRecipes b" writes]
      by (auto simp: arm_def Let_def passes_def register_def fresh_def new_actuator_def split: option.split)
  qed
qed (auto simp: arm_def Let_def)

text \<open>
  For the \<open>k\<close>-th binding: its blueprint's identifier, and whether an earlier binding for the same blueprint was armed (\<open>ok\<close> says
  which bindings can be).
\<close>

definition ident :: "binding list \<Rightarrow> nat \<Rightarrow> string" where
  "ident bs k = bd_id (bg_blueprint (bs ! k))"

definition taken :: "(binding \<Rightarrow> bool) \<Rightarrow> binding list \<Rightarrow> nat \<Rightarrow> bool" where
  "taken ok bs k \<longleftrightarrow> (\<exists>j<k. ident bs j = ident bs k \<and> ok (bs ! j))"

definition arming_inv :: "(binding \<Rightarrow> bool) \<Rightarrow> binding list \<Rightarrow> host \<Rightarrow> bool" where
  "arming_inv ok bs h \<longleftrightarrow>
     map fst (hosted_blueprints h) = map (ident bs) (filter (\<lambda>k. ok (bs ! k) \<and> \<not> taken ok bs k) [0..<length bs])
     \<and> map (\<lambda>(i, why). (i, why = DuplicateBinding)) (rejected h)
         = map (\<lambda>k. (ident bs k, taken ok bs k)) (filter (\<lambda>k. \<not> ok (bs ! k) \<or> taken ok bs k) [0..<length bs])
     \<and> (\<forall>(i, e)\<in>set (hosted_blueprints h). fresh e)"

lemma taken_snoc:
  assumes "k < length bs"
  shows "ident (bs @ [b]) k = ident bs k" "taken ok (bs @ [b]) k = taken ok bs k"
proof -
  have i: "ident (bs @ [b]) j = ident bs j" "(bs @ [b]) ! j = bs ! j" if "j \<le> k" for j
    using that assms by (simp_all add: ident_def nth_append)
  show "ident (bs @ [b]) k = ident bs k" by (rule i) simp
  show "taken ok (bs @ [b]) k = taken ok bs k"
    unfolding taken_def i(1) [OF order_refl] by (intro ex_cong1 conj_cong refl) (simp_all add: i less_imp_le)
qed

lemma first_taken:
  "k < length bs \<Longrightarrow> ok (bs ! k) \<Longrightarrow> \<exists>j\<le>k. ident bs j = ident bs k \<and> ok (bs ! j) \<and> \<not> taken ok bs j"
proof (induction k rule: less_induct)
  case (less k)
  show ?case
  proof (cases "taken ok bs k")
    case True
    then obtain j where j: "j < k" "ident bs j = ident bs k" "ok (bs ! j)" by (auto simp: taken_def)
    have "j < length bs" using j(1) less.prems(1) by (rule less_trans)
    from less.IH [OF j(1) this j(3)] obtain i where "i \<le> j" "ident bs i = ident bs j" "ok (bs ! i)" "\<not> taken ok bs i" by (elim exE conjE)
    then have "i \<le> k \<and> ident bs i = ident bs k \<and> ok (bs ! i) \<and> \<not> taken ok bs i" using j(1,2) by simp
    then show ?thesis by (rule exI)
  qed (use less.prems in auto)
qed

lemma arming_hosted:
  assumes "arming_inv ok bs h"
  shows "i \<in> fst ` set (hosted_blueprints h) \<longleftrightarrow> (\<exists>k<length bs. ident bs k = i \<and> ok (bs ! k))"
proof -
  have m: "map fst (hosted_blueprints h) = map (ident bs) (filter (\<lambda>k. ok (bs ! k) \<and> \<not> taken ok bs k) [0..<length bs])"
    by (rule conjunct1 [OF assms [unfolded arming_inv_def]])
  have "fst ` set (hosted_blueprints h) = ident bs ` set (filter (\<lambda>k. ok (bs ! k) \<and> \<not> taken ok bs k) [0..<length bs])"
    using arg_cong [OF m, of set] unfolding set_map .
  also have "\<dots> = {i. \<exists>k<length bs. ident bs k = i \<and> ok (bs ! k)}"
  proof (intro set_eqI iffI)
    fix i
    assume "i \<in> {i. \<exists>k<length bs. ident bs k = i \<and> ok (bs ! k)}"
    then obtain k where k: "k < length bs" "ident bs k = i" "ok (bs ! k)" by blast
    from first_taken [of k bs ok, OF k(1,3)] obtain j where "j \<le> k" "ident bs j = i" "ok (bs ! j)" "\<not> taken ok bs j" using k(2) by blast
    then show "i \<in> ident bs ` set (filter (\<lambda>k. ok (bs ! k) \<and> \<not> taken ok bs k) [0..<length bs])"
      using k(1) by (intro image_eqI [of _ _ j]) simp_all
  qed auto
  finally show ?thesis by simp
qed

lemma arming_step:
  assumes i: "arming_inv (passes writes) bs h"
  shows "arming_inv (passes writes) (bs @ [b]) (arm hash writes b h)"
proof -
  let ?n = "length bs" and ?ok = "passes writes"
  have at: "ident (bs @ [b]) ?n = bd_id (bg_blueprint b)" "(bs @ [b]) ! ?n = b" by (simp_all add: ident_def)
  have t: "taken ?ok (bs @ [b]) ?n \<longleftrightarrow> bd_id (bg_blueprint b) \<in> fst ` set (hosted_blueprints h)"
  proof -
    have "taken ?ok (bs @ [b]) ?n \<longleftrightarrow> (\<exists>j<?n. ident bs j = bd_id (bg_blueprint b) \<and> ?ok (bs ! j))"
      unfolding taken_def at using taken_snoc(1) [of _ bs b] by (metis nth_append)
    then show ?thesis unfolding arming_hosted [OF i] .
  qed
  have f: "filter (\<lambda>k. ?ok ((bs @ [b]) ! k) \<and> \<not> taken ?ok (bs @ [b]) k) [0..<?n] = filter (\<lambda>k. ?ok (bs ! k) \<and> \<not> taken ?ok bs k) [0..<?n]"
    "filter (\<lambda>k. \<not> ?ok ((bs @ [b]) ! k) \<or> taken ?ok (bs @ [b]) k) [0..<?n] = filter (\<lambda>k. \<not> ?ok (bs ! k) \<or> taken ?ok bs k) [0..<?n]"
    by (rule filter_cong; auto simp: taken_snoc nth_append)+
  have m: "map (ident (bs @ [b])) (filter P [0..<?n]) = map (ident bs) (filter P [0..<?n])"
    "map (\<lambda>k. (ident (bs @ [b]) k, taken ?ok (bs @ [b]) k)) (filter P [0..<?n]) = map (\<lambda>k. (ident bs k, taken ?ok bs k)) (filter P [0..<?n])" for P
    by (auto simp: taken_snoc)
  have hosted: "map fst (hosted_blueprints h) = map (ident (bs @ [b])) (filter (\<lambda>k. ?ok ((bs @ [b]) ! k) \<and> \<not> taken ?ok (bs @ [b]) k) [0..<?n])"
    and rej: "map (\<lambda>(i, why). (i, why = DuplicateBinding)) (rejected h) = map (\<lambda>k. (ident (bs @ [b]) k, taken ?ok (bs @ [b]) k))
      (filter (\<lambda>k. \<not> ?ok ((bs @ [b]) ! k) \<or> taken ?ok (bs @ [b]) k) [0..<?n])"
    and fr: "\<forall>(i, e)\<in>set (hosted_blueprints h). fresh e"
    using i unfolding arming_inv_def f m by blast+
  have up: "[0..<length (bs @ [b])] = [0..<?n] @ [?n]" by simp
  show ?thesis
    unfolding arming_inv_def up filter_append map_append hosted [symmetric] rej [symmetric]
    using arm_cases [of hash writes b h] t fr by (elim disjE exE conjE) (simp_all add: at)
qed

lemma arming_all: "arming_inv (passes writes) bs0 h \<Longrightarrow> arming_inv (passes writes) (bs0 @ bs) (fold (arm hash writes) bs h)"
proof (induction bs arbitrary: bs0 h)
  case (Cons b bs)
  then show ?case using Cons.IH [of "bs0 @ [b]" "arm hash writes b h"] arming_step [OF Cons.prems] by simp
qed simp

text \<open>The bindings that the environment supplies, if it supplies a valid document.\<close>

definition supplied :: "'v environment \<Rightarrow> binding list option" where
  "supplied env = (case fst (readBindings env new_host) of None \<Rightarrow> None | Some v \<Rightarrow> safeParse env v)"

lemma readBindings_cases:
  obtains (failed) h' where "readBindings env h = (None, h')" "hosted_blueprints h' = hosted_blueprints h" "supplied env = None"
  | (read) v h' where "readBindings env h = (Some v, h')" "hosted_blueprints h' = hosted_blueprints h" "rejected h' = rejected h"
      "supplied env = safeParse env v"
proof (cases "readBindings env h")
  case (Pair r h')
  have h': "fst (readBindings env new_host) = r" "hosted_blueprints h' = hosted_blueprints h" "rejected h' = rejected h"
    using Pair by (auto simp: readBindings_def Let_def split: if_splits option.splits)
  show thesis
  proof (cases r)
    case None
    then show thesis using failed Pair h' by (auto simp: supplied_def)
  next
    case (Some v)
    then show thesis using read Pair h' by (auto simp: supplied_def)
  qed
qed

lemma start_bindings:
  assumes "supplied env = Some bs"
  shows "arming_inv (passes (outputWritesEnabled_env env)) bs (start hash env h0)
    \<and> (host_state (start hash env h0) = HOST_RUNNING \<longleftrightarrow> hosted_blueprints (start hash env h0) \<noteq> [])"
proof (cases rule: readBindings_cases [of env "(stop h0) \<lparr> rejected := [] \<rparr>"])
  case (read v h')
  have "arming_inv (passes (outputWritesEnabled_env env)) [] h'" using read(2,3) by (simp add: arming_inv_def stop_def)
  note inv = arming_all [OF this, of bs hash]
  have "safeParse env v = Some bs" using read(4) assms by simp
  then show ?thesis using inv read(1) by (simp add: start_def Let_def arming_inv_def)
qed (use assms in simp)

lemma start_fresh:
  assumes "(i, e) \<in> set (hosted_blueprints (start hash env h0))"
  shows "fresh e"
proof (cases "supplied env")
  case None
  show ?thesis
    using assms None by (cases rule: readBindings_cases [of env "(stop h0) \<lparr> rejected := [] \<rparr>"]) (simp_all add: start_def stop_def)
next
  case (Some bs)
  then show ?thesis using assms start_bindings [OF Some, of hash h0] by (auto simp: arming_inv_def)
qed

lemma arming_cong:
  assumes "\<And>b. b \<in> set bs \<Longrightarrow> ok b = ok' b"
  shows "arming_inv ok bs h \<longleftrightarrow> arming_inv ok' bs h"
proof -
  have "k < length bs \<Longrightarrow> ok (bs ! k) = ok' (bs ! k)" for k using assms by simp
  then have t: "k < length bs \<Longrightarrow> taken ok bs k = taken ok' bs k" for k by (auto simp: taken_def)
  have f: "filter (\<lambda>k. ok (bs ! k) \<and> \<not> taken ok bs k) [0..<length bs] = filter (\<lambda>k. ok' (bs ! k) \<and> \<not> taken ok' bs k) [0..<length bs]"
    "filter (\<lambda>k. \<not> ok (bs ! k) \<or> taken ok bs k) [0..<length bs] = filter (\<lambda>k. \<not> ok' (bs ! k) \<or> taken ok' bs k) [0..<length bs]"
    by (rule filter_cong; simp add: assms t)+
  have m: "map (\<lambda>k. (ident bs k, taken ok bs k)) (filter P [0..<length bs]) = map (\<lambda>k. (ident bs k, taken ok' bs k)) (filter P [0..<length bs])" for P
    using t by auto
  show ?thesis unfolding arming_inv_def f m ..
qed

text \<open>C26: Starting the host accounts for every binding of the document, whatever ran before. When the node ids of each blueprint are
  distinct, the armed blueprints are, in the order of the document, those of the bindings that can be actuated and have no
  earlier such binding for the same blueprint; the rejected ids are, in order, those of all other bindings, as duplicates
  exactly when such an earlier binding exists. \<open>actuatable\<close> states what can be actuated without reference to the compiler or
  the actuator. The host runs exactly when something is armed.
\<close>

theorem host_arms_exactly_the_actuatable:
  assumes "supplied env = Some bs" "\<forall>b\<in>set bs. distinct (map node_id (bd_nodes (bg_blueprint b)))"
  shows "let h = start hash env h0; ok = actuatable (outputWritesEnabled_env env)
   in map fst (hosted_blueprints h) = map (ident bs) (filter (\<lambda>k. ok (bs ! k) \<and> \<not> taken ok bs k) [0..<length bs])
      \<and> map (\<lambda>(i, why). (i, why = DuplicateBinding)) (rejected h)
          = map (\<lambda>k. (ident bs k, taken ok bs k)) (filter (\<lambda>k. \<not> ok (bs ! k) \<or> taken ok bs k) [0..<length bs])
      \<and> (host_state h = HOST_RUNNING \<longleftrightarrow> hosted_blueprints h \<noteq> [])"
proof -
  note s = start_bindings [OF assms(1), of hash h0]
  have "arming_inv (actuatable (outputWritesEnabled_env env)) bs (start hash env h0)"
    by (rule arming_cong [THEN iffD1, OF _ conjunct1 [OF s]]) (simp add: passes_iff assms(2))
  then show ?thesis using conjunct2 [OF s] unfolding Let_def arming_inv_def by (simp only: simp_thms)
qed

section \<open>The safe state is in force\<close>

definition host_inv :: "host \<Rightarrow> bool" where
  "host_inv h \<longleftrightarrow> list_all (\<lambda>(i, e). hosted_inv e) (hosted_blueprints h)"

lemma host_step_inv: "host_inv h \<Longrightarrow> host_inv (host_step num_text error_text show_err ev h)"
  by (cases ev) (auto simp: host_inv_def list_all_iff hosted_inv_tick hosted_inv_resume hosted_inv_input)

interpretation host: invariant_machine "host_step num_text error_text show_err" host_inv for num_text error_text show_err
  by unfold_locales (rule host_step_inv)

lemma fresh_inv: "fresh e \<Longrightarrow> hosted_inv e"
  by (simp add: fresh_def hosted_inv_def new_watchdog_def new_controller_def running_status_def)

lemma start_inv: "host_inv (start hash env h0)"
  using start_fresh fresh_inv by (fastforce simp: host_inv_def list_all_iff)

text \<open>C2: Whatever ticks, input writes and operator requests follow the start of the host, and whatever the audit and anchor
  services answer: a blueprint whose status says safe state is halted and its outputs are in the declared safe state.
  Held outputs keep the values they had, zeroed outputs are zero, and a recipe's outputs have the recipe's values.
\<close>

theorem reported_safe_state_is_in_force:
  assumes "(i, e) \<in> set (hosted_blueprints (fold (host_step num_text error_text show_err) evs (start hash env h0)))"
    and "runState (status (wd_controller (hb_watchdog e))) = SAFE_STATE"
  shows "ra_halted (plant (hb_world e)) \<and> in_force (safeState (hb_config e)) (plant (hb_world e))"
proof -
  have "host_inv (fold (host_step num_text error_text show_err) evs (start hash env h0))" by (rule host.run_inv [OF start_inv])
  then have "hosted_inv e" using assms(1) by (auto simp: host_inv_def list_all_iff)
  then show ?thesis using assms(2) by (simp add: hosted_inv_def)
qed

section \<open>When the watchdog trips\<close>

definition streak :: "('a \<Rightarrow> bool) \<Rightarrow> 'a list \<Rightarrow> nat" where
  "streak late ds = length (takeWhile late (rev ds))"

definition sustained :: "('a \<Rightarrow> bool) \<Rightarrow> nat \<Rightarrow> 'a list \<Rightarrow> bool" where
  "sustained late n ds \<longleftrightarrow> (\<exists>xs ys zs. ds = xs @ ys @ zs \<and> length ys = n \<and> list_all late ys)"

lemma streak_snoc [simp]: "streak late (ds @ [d]) = (if late d then Suc (streak late ds) else 0)"
  by (simp add: streak_def)

lemma streak_split: "\<exists>xs ys. ds = xs @ ys \<and> length ys = streak late ds \<and> list_all late ys"
proof (induction ds rule: rev_induct)
  case (snoc d ds)
  then obtain xs ys where s: "ds = xs @ ys" "length ys = streak late ds" "list_all late ys" by blast
  show ?case
  proof (cases "late d")
    case True
    have "ds @ [d] = xs @ (ys @ [d])" using s(1) by simp
    moreover have "length (ys @ [d]) = streak late (ds @ [d])" "list_all late (ys @ [d])" using s(2,3) True by simp_all
    ultimately show ?thesis by blast
  next
    case False
    then have "ds @ [d] = (ds @ [d]) @ []" "length ([] :: 'a list) = streak late (ds @ [d])" "list_all late []" by simp_all
    then show ?thesis by blast
  qed
qed (simp add: streak_def)

lemma streak_ge: "list_all late ys \<Longrightarrow> length ys \<le> streak late (xs @ ys)"
  by (induction ys rule: rev_induct) (simp_all add: append_assoc [symmetric] del: append_assoc)

lemma sustained_snoc:
  assumes "0 < n"
  shows "sustained late n (ds @ [d]) \<longleftrightarrow> sustained late n ds \<or> n \<le> streak late (ds @ [d])"
proof
  assume "sustained late n (ds @ [d])"
  then obtain xs ys zs where s: "ds @ [d] = xs @ ys @ zs" "length ys = n" "list_all late ys" by (auto simp: sustained_def)
  show "sustained late n ds \<or> n \<le> streak late (ds @ [d])"
  proof (cases zs rule: rev_cases)
    case Nil
    then show ?thesis using s streak_ge [of late ys xs] by simp
  next
    case (snoc zs' z)
    then have "ds = xs @ ys @ zs'" using s(1) by simp
    then show ?thesis using s by (auto simp: sustained_def)
  qed
next
  assume "sustained late n ds \<or> n \<le> streak late (ds @ [d])"
  then show "sustained late n (ds @ [d])"
  proof
    assume "sustained late n ds"
    then obtain xs ys zs where "ds = xs @ ys @ zs" "length ys = n" "list_all late ys" by (auto simp: sustained_def)
    then have "ds @ [d] = xs @ ys @ (zs @ [d])" "length ys = n" "list_all late ys" by simp_all
    then show ?thesis unfolding sustained_def by blast
  next
    assume n: "n \<le> streak late (ds @ [d])"
    obtain xs ys where s: "ds @ [d] = xs @ ys" "length ys = streak late (ds @ [d])" "list_all late ys" using streak_split by blast
    let ?k = "length ys - n"
    have "ds @ [d] = (xs @ take ?k ys) @ drop ?k ys @ []" "length (drop ?k ys) = n" "list_all late (drop ?k ys)"
      using s n by (auto simp: list_all_iff dest: in_set_dropD)
    then show ?thesis unfolding sustained_def by blast
  qed
qed

lemma tick_running:
  assumes i: "hosted_inv e" and en: "enabled (hb_config e)"
    and r: "runState (status (wd_controller (hb_watchdog e))) = RUNNING" "\<not> ra_halted (plant (hb_world e))"
  shows "let e' = tick_hosted num_text x d e; late = over_budget (hb_config e) d; misses = (if late then Suc (consecutiveMisses (hb_watchdog e)) else 0)
    in hb_config e' = hb_config e
      \<and> (if late \<and> consecutiveMissesBeforeSafeState (hb_config e) \<le> misses
         then runState (status (wd_controller (hb_watchdog e'))) = SAFE_STATE
         else runState (status (wd_controller (hb_watchdog e'))) = RUNNING \<and> \<not> ra_halted (plant (hb_world e')) \<and> consecutiveMisses (hb_watchdog e') = misses)"
proof -
  let ?w = "(hb_world e) \<lparr> plant := tick_runtime (plant (hb_world e)) \<rparr>" and ?cfg = "hb_config e" and ?m = "consecutiveMisses (hb_watchdog e) + 1"
  have nr: "\<not> isInSafeState (wd_controller (hb_watchdog e))" using r(1) by (simp add: isInSafeState_def)
  obtain q wd' w' where o: "observeTick actuator_act (hb_blueprint e) ?cfg num_text x d (hb_watchdog e, ?w) = (q, wd', w')"
    by (cases "observeTick actuator_act (hb_blueprint e) ?cfg num_text x d (hb_watchdog e, ?w)")
  have t: "tick_hosted num_text x d e = e \<lparr> hb_watchdog := wd', hb_world := w' \<rparr>"
    using r(2) nr o by (auto simp: tick_hosted_def runTick_def split: sum.splits)
  show ?thesis
  proof (cases "over_budget ?cfg d \<and> consecutiveMissesBeforeSafeState ?cfg \<le> ?m")
    case True
    obtain k c1 w1 where k: "enterSafeStateLocked actuator_act (hb_blueprint e) ?cfg x (trip_reason num_text ?cfg ?m d) ?m (wd_controller (hb_watchdog e), ?w) = (k, c1, w1)"
      by (cases "enterSafeStateLocked actuator_act (hb_blueprint e) ?cfg x (trip_reason num_text ?cfg ?m d) ?m (wd_controller (hb_watchdog e), ?w)")
    have a: "armed ?cfg (halt (plant ?w))" using i armed_tick armed_act [of ?cfg _ Halt] by (simp add: hosted_inv_def)
    have "fst (actuator_act (Apply (safeState ?cfg)) (halt (plant ?w)))" using a armed_applies by (simp add: armed_def)
    then have "runState (status c1) = SAFE_STATE"
      using enter_reaches [of actuator_act ?w "halt (plant ?w)" ?cfg "hb_blueprint e" x "trip_reason num_text ?cfg ?m d" ?m "wd_controller (hb_watchdog e)"]
      unfolding k by simp
    moreover have "wd_controller wd' = c1" using o True en nr k by (cases k) (auto simp: observeTick_def Let_def)
    ultimately show ?thesis using True by (simp add: t Let_def)
  next
    case False
    have "\<not> ra_halted (plant ?w)" using r(2) by (simp add: tick_runtime_def)
    then show ?thesis using o False en nr r(1) by (auto simp: t Let_def observeTick_def split: if_splits)
  qed
qed

lemma trip_state:
  assumes f: "fresh e" and en: "enabled (hb_config e)" and n: "0 < consecutiveMissesBeforeSafeState (hb_config e)"
    and e': "e' = fold (\<lambda>(d, x). tick_hosted num_text x d) ds e"
  shows "hosted_inv e' \<and> hb_config e' = hb_config e
    \<and> (if sustained (over_budget (hb_config e)) (consecutiveMissesBeforeSafeState (hb_config e)) (map fst ds)
       then runState (status (wd_controller (hb_watchdog e'))) = SAFE_STATE
       else runState (status (wd_controller (hb_watchdog e'))) = RUNNING \<and> \<not> ra_halted (plant (hb_world e'))
            \<and> consecutiveMisses (hb_watchdog e') = streak (over_budget (hb_config e)) (map fst ds))"
  using e'
proof (induction ds arbitrary: e' rule: rev_induct)
  case Nil
  then show ?case
    using f n fresh_inv [OF f] by (auto simp: sustained_def fresh_def new_watchdog_def new_controller_def running_status_def streak_def)
next
  case (snoc dx ds)
  obtain d x where dx: "dx = (d, x)" by (cases dx)
  define e1 where "e1 = fold (\<lambda>(d, x). tick_hosted num_text x d) ds e"
  have e': "e' = tick_hosted num_text x d e1" using snoc.prems by (simp add: dx e1_def)
  note IH = snoc.IH [OF e1_def]
  let ?cfg = "hb_config e" and ?late = "over_budget (hb_config e)" and ?n = "consecutiveMissesBeforeSafeState (hb_config e)"
  have inv: "hosted_inv e'" using IH hosted_inv_tick by (simp add: e')
  show ?case
  proof (cases "sustained ?late ?n (map fst ds)")
    case True
    then have "ra_halted (plant (hb_world e1))" "runState (status (wd_controller (hb_watchdog e1))) = SAFE_STATE"
      using IH by (simp_all add: hosted_inv_def)
    then show ?thesis using True IH n by (simp add: e' tick_hosted_def sustained_snoc dx)
  next
    case False
    then have r: "runState (status (wd_controller (hb_watchdog e1))) = RUNNING" "\<not> ra_halted (plant (hb_world e1))" "hb_config e1 = ?cfg"
      "consecutiveMisses (hb_watchdog e1) = streak ?late (map fst ds)" using IH by simp_all
    have h: "hosted_inv e1" "enabled (hb_config e1)" using IH en by simp_all
    show ?thesis
      using tick_running [OF h r(1,2), of num_text x d, unfolded Let_def] inv False r(3,4) n by (auto simp: e' dx sustained_snoc)
  qed
qed

text \<open>C8: The watchdog of an armed blueprint trips exactly on sustained overruns. After any sequence of ticks, the blueprint is in
  safe state if the configured number of consecutive ticks was over budget at some point, and otherwise it is running:
  shorter overruns never trip it, and no failing audit or anchor service can keep it from tripping.
\<close>

theorem watchdog_trips_exactly:
  assumes "(i, e) \<in> set (hosted_blueprints (start hash env h0))" "enabled (hb_config e)" "0 < consecutiveMissesBeforeSafeState (hb_config e)"
  shows "runState (status (wd_controller (hb_watchdog (fold (\<lambda>(d, x). tick_hosted num_text x d) ds e)))) =
    (if sustained (over_budget (hb_config e)) (consecutiveMissesBeforeSafeState (hb_config e)) (map fst ds) then SAFE_STATE else RUNNING)"
  using trip_state [OF start_fresh [OF assms(1)] assms(2,3) refl] by simp

section \<open>Examples\<close>

definition pump_binding :: binding where
  "pump_binding = \<lparr> bg_siteId = None, bg_blueprint = pump, bg_safeState = hold_config, bg_safeRecipes = Map.empty \<rparr>"

definition pump_env :: "unit environment" where
  "pump_env = \<lparr> env_bindings_file = None, env_bindings = Some ''pump'', env_allow_writes = None, readFileSync = (\<lambda>_. None),
     json_parse = (\<lambda>_. Some ()), safeParse = (\<lambda>_. Some [pump_binding]) \<rparr>"

definition pump_host :: host where
  "pump_host = start (\<lambda>_. ''h'') pump_env new_host"

lemma pump_supplied: "supplied pump_env = Some [pump_binding]" "outputWritesEnabled_env pump_env = False"
  by (simp_all add: supplied_def readBindings_def pump_env_def present_def Let_def outputWritesEnabled_env_def)

lemma pump_hosted: "\<exists>e. hosted_blueprints pump_host = [(''pump'', e)] \<and> hb_config e = hold_config"
proof -
  obtain p where p: "compileBlueprint pump = Inr p"
    using topoSort_correct [OF pump_well_formed(2)] pump_well_formed(1) pump_order by (metis compile_Inr well_formed_def)
  have a: "passes False pump_binding" by (simp add: passes_def pump_binding_def p assertCanApply_def hold_config_def)
  let ?h = "snd (readBindings pump_env ((stop new_host) \<lparr> rejected := [] \<rparr>))"
  have h: "hosted_blueprints ?h = []" by (simp add: readBindings_def pump_env_def present_def Let_def stop_def new_host_def)
  from a h obtain e where "hosted_blueprints (arm (\<lambda>_. ''h'') False pump_binding ?h) = [(''pump'', e)]" "hb_config e = hold_config"
    using arm_cases [of "\<lambda>_. ''h''" False pump_binding ?h] by (auto simp: pump_binding_def pump_def)
  moreover have "hosted_blueprints pump_host = hosted_blueprints (arm (\<lambda>_. ''h'') False pump_binding ?h)"
    using pump_supplied(2) by (simp add: pump_host_def start_def pump_env_def readBindings_def present_def Let_def)
  ultimately show ?thesis by simp
qed

text \<open>A document with two bindings of the pump and one that would zero its outputs without the opt-in.\<close>

definition zero_binding :: binding where
  "zero_binding = pump_binding \<lparr> bg_blueprint := pump \<lparr> bd_id := ''zero'' \<rparr>, bg_safeState := hold_config \<lparr> safeState := Force_Zero \<rparr> \<rparr>"

definition three_env :: "unit environment" where
  "three_env = pump_env \<lparr> safeParse := (\<lambda>_. Some [zero_binding, pump_binding, pump_binding]) \<rparr>"

theorem host_arms_exactly_the_actuatable_witness:
  "map fst (hosted_blueprints (start (\<lambda>_. ''h'') three_env new_host)) = [''pump'']
   \<and> map (\<lambda>(i, why). (i, why = DuplicateBinding)) (rejected (start (\<lambda>_. ''h'') three_env new_host)) = [(''zero'', False), (''pump'', True)]"
proof -
  let ?bs = "[zero_binding, pump_binding, pump_binding]" and ?ok = "actuatable (outputWritesEnabled_env three_env)"
  have s: "supplied three_env = Some ?bs" "outputWritesEnabled_env three_env = False"
    by (simp_all add: supplied_def three_env_def readBindings_def pump_env_def present_def Let_def outputWritesEnabled_env_def)
  have d: "\<forall>b\<in>set ?bs. distinct (map node_id (bd_nodes (bg_blueprint b)))"
    using pump_well_formed(2) by (simp add: zero_binding_def pump_binding_def)
  have ok: "\<not> ?ok zero_binding" "?ok pump_binding"
    using pump_well_formed(1) pump_order
    by (auto simp: actuatable_def zero_binding_def pump_binding_def hold_config_def s(2))
  have id: "ident ?bs 0 = ''zero''" "ident ?bs 1 = ''pump''" "ident ?bs 2 = ''pump''"
    by (simp_all add: ident_def zero_binding_def pump_binding_def pump_def)
  have t: "\<not> taken ?ok ?bs 0" "\<not> taken ?ok ?bs 1" "taken ?ok ?bs 2"
    using id ok by (auto simp: taken_def intro!: exI [of _ "1 :: nat"])
  have u: "[0..<length ?bs] = [0, 1, 2]" by (simp add: upt_rec)
  have f: "filter (\<lambda>k. ?ok (?bs ! k) \<and> \<not> taken ?ok ?bs k) [0..<length ?bs] = [1]"
    "filter (\<lambda>k. \<not> ?ok (?bs ! k) \<or> taken ?ok ?bs k) [0..<length ?bs] = [0, 2]"
    unfolding u using ok t by simp_all
  from host_arms_exactly_the_actuatable [OF s(1) d, of "\<lambda>_. ''h''" new_host] show ?thesis
    unfolding Let_def f using id t by simp
qed

lemma late_tick: "over_budget hold_config (num_of_int 11)" "consecutiveMissesBeforeSafeState hold_config = 3" "enabled hold_config"
  by (simp_all add: over_budget_def hold_config_def num_lt_def num_of_int_def scaled_def)

lemma three_late: "sustained (over_budget hold_config) 3 (map fst (replicate 3 (num_of_int 11, all_well)))"
proof -
  have "map fst (replicate 3 (num_of_int 11, all_well)) = [] @ replicate 3 (num_of_int 11) @ []" "length (replicate 3 (num_of_int 11)) = 3"
    "list_all (over_budget hold_config) (replicate 3 (num_of_int 11))" by (simp_all add: late_tick list_all_iff)
  then show ?thesis unfolding sustained_def by blast
qed

theorem watchdog_trips_exactly_witness:
  "\<exists>e. (''pump'', e) \<in> set (hosted_blueprints (pump_host))
     \<and> runState (status (wd_controller (hb_watchdog (fold (\<lambda>(d, x). tick_hosted (\<lambda>_. ''n'') x d) (replicate 3 (num_of_int 11, all_well)) e)))) = SAFE_STATE"
proof -
  obtain e where e: "hosted_blueprints (pump_host) = [(''pump'', e)]" "hb_config e = hold_config"
    using pump_hosted by blast
  have "(''pump'', e) \<in> set (hosted_blueprints (pump_host))" by (simp add: e)
  from watchdog_trips_exactly [OF this [unfolded pump_host_def], of "\<lambda>_. ''n''" "replicate 3 (num_of_int 11, all_well)"] show ?thesis
    using three_late late_tick by (auto simp: e)
qed

theorem reported_safe_state_is_in_force_witness:
  "\<exists>e. runState (status (wd_controller (hb_watchdog e))) = SAFE_STATE \<and> in_force Hold_Last (plant (hb_world e))
     \<and> hosted_blueprints (fold (host_step (\<lambda>_. ''n'') (\<lambda>_. ''e'') (\<lambda>_. ''e'')) (replicate 3 (Tick ''pump'' (num_of_int 11) all_well))
         (pump_host)) = [(''pump'', e)]"
proof -
  let ?h = "pump_host" and ?step = "host_step (\<lambda>_. ''n'') (\<lambda>_. ''e'') (\<lambda>_. ''e'')"
  let ?run = "fold (\<lambda>(d, x). tick_hosted (\<lambda>_. ''n'') x d) (replicate 3 (num_of_int 11, all_well))"
  obtain e where e: "hosted_blueprints ?h = [(''pump'', e)]" "hb_config e = hold_config" using pump_hosted by blast
  have f: "fresh e" by (rule start_fresh [of "''pump''" e "\<lambda>_. ''h''" pump_env new_host]) (simp add: e pump_host_def [symmetric])
  have r: "runState (status (wd_controller (hb_watchdog (?run e)))) = SAFE_STATE" "hb_config (?run e) = hold_config"
    using trip_state [OF f _ _ refl, of "\<lambda>_. ''n''" "replicate 3 (num_of_int 11, all_well)"] three_late late_tick by (simp_all add: e)
  have h: "hosted_blueprints (fold ?step (replicate 3 (Tick ''pump'' (num_of_int 11) all_well)) ?h) = [(''pump'', ?run e)]"
    by (simp add: numeral_3_eq_3 e)
  then have "(''pump'', ?run e) \<in> set (hosted_blueprints (fold ?step (replicate 3 (Tick ''pump'' (num_of_int 11) all_well)) ?h))" by simp
  from reported_safe_state_is_in_force [OF this [unfolded pump_host_def] r(1)] h r show ?thesis by (auto simp: hold_config_def)
qed

end
