(* ===== verification/Edge_Json.thy ===== *)
theory Edge_Json
  imports JS_Arith "HOL-Library.AList" "HOL-Library.Multiset"
begin

text \<open>
  JSON values as the edge gateway handles them: the canonical text and the Merkle root of \<open>server/scaling/hash.ts\<close>, and the
  checks and the flattening of configuration objects of \<open>server/gateway/store-and-forward.ts\<close>. An object is the list of its
  own properties in property order; a date inside a value is a valid one. The collation behind \<open>localeCompare\<close>, the decimal
  text of a number, \<open>toISOString\<close> and SHA-256 are the fields of \<open>platform\<close>. Characters are the code units below 256. Sparse
  arrays, cyclic values and values that are neither data nor dates are outside the data type. The locale \<open>collation\<close> states what
  a comparison of strings promises; the code units, by which \<open>sort()\<close> without a comparison orders, interpret it.
\<close>

datatype json =
    JUndefined
  | JNull
  | JBool bool
  | JNum number
  | JStr string
  | JDate int
  | JArr "json list"
  | JObj "(string \<times> json) list"

record platform =
  localeCompare :: "string \<Rightarrow> string \<Rightarrow> int"
  number_text :: "number \<Rightarrow> string"
  toISOString :: "int \<Rightarrow> string"
  sha256 :: "buffer \<Rightarrow> buffer"

section \<open>Strings, sorting, properties\<close>

fun compare_units :: "string \<Rightarrow> string \<Rightarrow> int" where
  "compare_units [] [] = 0"
| "compare_units [] (_ # _) = - 1"
| "compare_units (_ # _) [] = 1"
| "compare_units (a # as) (b # bs) =
     (if (of_char a :: nat) < of_char b then - 1 else if (of_char b :: nat) < of_char a then 1 else compare_units as bs)"

text \<open>\<open>Array.prototype.sort\<close>, which is stable.\<close>

fun insert_sorted :: "('a \<Rightarrow> 'a \<Rightarrow> int) \<Rightarrow> 'a \<Rightarrow> 'a list \<Rightarrow> 'a list" where
  "insert_sorted cmp x [] = [x]"
| "insert_sorted cmp x (y # ys) = (if cmp x y \<le> 0 then x # y # ys else y # insert_sorted cmp x ys)"

definition js_sort :: "('a \<Rightarrow> 'a \<Rightarrow> int) \<Rightarrow> 'a list \<Rightarrow> 'a list" where
  "js_sort cmp xs = foldr (insert_sorted cmp) xs []"

lemma mset_insert_sorted [simp]: "mset (insert_sorted cmp x ys) = add_mset x (mset ys)"
  by (induction ys) auto

lemma mset_js_sort [simp]: "mset (js_sort cmp xs) = mset xs"
  by (induction xs) (simp_all add: js_sort_def)

lemma set_js_sort [simp]: "set (js_sort cmp xs) = set xs"
  using mset_js_sort [of cmp xs] by (metis set_mset_mset)

fun join_with :: "string \<Rightarrow> string list \<Rightarrow> string" where
  "join_with sep [] = []"
| "join_with sep [x] = x"
| "join_with sep (x # y # xs) = x @ sep @ join_with sep (y # xs)"

text \<open>Assigning a property keeps the place of an existing one; array indices come first, in numeric order.\<close>

definition key_number :: "string \<Rightarrow> nat" where
  "key_number k = foldl (\<lambda>n c. 10 * n + (of_char c - 48)) 0 k"

definition index_key :: "string \<Rightarrow> bool" where
  "index_key k \<longleftrightarrow> k \<noteq> [] \<and> list_all (\<lambda>c. 48 \<le> (of_char c :: nat) \<and> (of_char c :: nat) \<le> 57) k
     \<and> (k = ''0'' \<or> hd k \<noteq> CHR ''0'') \<and> key_number k < 2 ^ 32 - 1"

fun new_property :: "string \<times> 'v \<Rightarrow> (string \<times> 'v) list \<Rightarrow> (string \<times> 'v) list" where
  "new_property p [] = [p]"
| "new_property p (q # qs) =
     (if index_key (fst p) \<and> (index_key (fst q) \<longrightarrow> key_number (fst p) < key_number (fst q)) then p # q # qs
      else q # new_property p qs)"

definition set_property :: "string \<Rightarrow> 'v \<Rightarrow> (string \<times> 'v) list \<Rightarrow> (string \<times> 'v) list" where
  "set_property k v ps = (if k \<in> fst ` set ps then AList.update k v ps else new_property (k, v) ps)"

section \<open>Canonical text and Merkle root\<close>

definition hex_digit :: "nat \<Rightarrow> char" where
  "hex_digit n = char_of (if n < 10 then 48 + n else 87 + n)"

definition json_char :: "char \<Rightarrow> string" where
  "json_char c =
     (let n = of_char c in
      if n = (34 :: nat) \<or> n = 92 then [CHR 0x5C, c]
      else if n = 8 then [CHR 0x5C, CHR ''b''] else if n = 9 then [CHR 0x5C, CHR ''t''] else if n = 10 then [CHR 0x5C, CHR ''n'']
      else if n = 12 then [CHR 0x5C, CHR ''f''] else if n = 13 then [CHR 0x5C, CHR ''r'']
      else if n < 32 then [CHR 0x5C, CHR ''u'', CHR ''0'', CHR ''0'', hex_digit (n div 16), hex_digit (n mod 16)]
      else [c])"

definition json_string :: "string \<Rightarrow> string" where
  "json_string s = [CHR 0x22] @ concat (map json_char s) @ [CHR 0x22]"

lemma property_smaller: "(k, c) \<in> set ps \<Longrightarrow> size c < Suc (size_list (size_prod (\<lambda>x. 0) size) ps)"
  by (induction ps) auto

fun canonicalJson :: "platform \<Rightarrow> json \<Rightarrow> string" where
  "canonicalJson P JUndefined = ''null''"
| "canonicalJson P JNull = ''null''"
| "canonicalJson P (JBool b) = (if b then ''true'' else ''false'')"
| "canonicalJson P (JNum x) = (if isFinite x then number_text P x else ''null'')"
| "canonicalJson P (JStr s) = json_string s"
| "canonicalJson P (JDate t) = json_string (toISOString P t)"
| "canonicalJson P (JArr vs) = ''['' @ join_with '','' (map (canonicalJson P) vs) @ '']''"
| "canonicalJson P (JObj ps) =
     (let entries = js_sort (\<lambda>a b. localeCompare P (fst a) (fst b)) (filter (\<lambda>p. snd p \<noteq> JUndefined) ps)
      in ''{'' @ join_with '','' (map (\<lambda>p. json_string (fst p) @ '':'' @ canonicalJson P (snd p)) entries) @ ''}'')"

definition utf8 :: "string \<Rightarrow> buffer" where
  "utf8 s = concat (map (\<lambda>c. let n = of_char c in if n < 128 then [of_nat n] else [of_nat (192 + n div 64), of_nat (128 + n mod 64)]) s)"

definition hex :: "buffer \<Rightarrow> string" where
  "hex b = concat (map (\<lambda>x. [hex_digit (unat x div 16), hex_digit (unat x mod 16)]) b)"

definition digit_value :: "char \<Rightarrow> nat" where
  "digit_value c = (let n = of_char c in if n < 58 then n - 48 else n - 87)"

text \<open>\<open>Buffer.from(s, "hex")\<close> of a text of lower-case digits.\<close>

fun from_hex :: "string \<Rightarrow> buffer" where
  "from_hex (a # b # s) = of_nat (16 * digit_value a + digit_value b) # from_hex s"
| "from_hex s = []"

definition sha256Hex :: "platform \<Rightarrow> buffer \<Rightarrow> string" where
  "sha256Hex P b = hex (sha256 P b)"

definition leaf_hash :: "platform \<Rightarrow> json \<Rightarrow> string" where
  "leaf_hash P v = sha256Hex P (0 # utf8 (canonicalJson P v))"

definition branch_hash :: "platform \<Rightarrow> string \<Rightarrow> string \<Rightarrow> string" where
  "branch_hash P l r = sha256Hex P (1 # from_hex l @ from_hex r)"

fun merkle_level :: "platform \<Rightarrow> string list \<Rightarrow> string list" where
  "merkle_level P [] = []"
| "merkle_level P [l] = [branch_hash P l l]"
| "merkle_level P (l # r # hs) = branch_hash P l r # merkle_level P hs"

lemma length_merkle_level: "length (merkle_level P hs) = (length hs + 1) div 2"
  by (induction P hs rule: merkle_level.induct) auto

function merkle_loop :: "platform \<Rightarrow> string list \<Rightarrow> string" where
  "merkle_loop P hs = (if length hs > 1 then merkle_loop P (merkle_level P hs) else hd hs)"
  by pat_completeness auto
termination
  by (relation "measure (\<lambda>(P, hs). length hs)") (auto simp: length_merkle_level)

declare merkle_loop.simps [simp del]

definition merkleRoot :: "platform \<Rightarrow> json list \<Rightarrow> string" where
  "merkleRoot P vs = (if vs = [] then sha256Hex P [0] else merkle_loop P (map (leaf_hash P) vs))"

section \<open>Collation\<close>

lemma sorted_unique:
  assumes "sorted_wrt R xs" "sorted_wrt R ys" "mset xs = mset ys" "\<forall>a\<in>set xs. \<forall>b\<in>set xs. R a b \<longrightarrow> R b a \<longrightarrow> a = b"
  shows "xs = ys"
  using assms
proof (induction xs arbitrary: ys)
  case (Cons x xs)
  then obtain y ys' where ys: "ys = y # ys'" by (cases ys) auto
  have sets: "set (x # xs) = set ys" using Cons.prems(3) by (metis set_mset_mset)
  have "x = y"
  proof (rule ccontr)
    assume ne: "x \<noteq> y"
    then have "y \<in> set xs" "x \<in> set ys'" using sets ys by auto
    then have "R x y" "R y x" using Cons.prems(1,2) ys by auto
    then show False using Cons.prems(4) ne \<open>y \<in> set xs\<close> by (meson list.set_intros)
  qed
  then show ?case using Cons.IH [of ys'] Cons.prems ys by simp
qed simp

locale collation =
  fixes cmp :: "string \<Rightarrow> string \<Rightarrow> int"
  assumes flip: "sgn (cmp a b) = - sgn (cmp b a)"
    and trans: "cmp a b \<le> 0 \<Longrightarrow> cmp b c \<le> 0 \<Longrightarrow> cmp a c \<le> 0"
begin

lemma same: "cmp a a = 0"
  using flip [of a a] by (simp add: sgn_if split: if_splits)

lemma total: "\<not> cmp a b \<le> 0 \<Longrightarrow> cmp b a \<le> 0"
  using flip [of a b] by (simp add: sgn_if split: if_splits)

lemma equal_sides: "cmp a b \<le> 0 \<Longrightarrow> cmp b a \<le> 0 \<Longrightarrow> cmp a b = 0"
  using flip [of a b] by (simp add: sgn_if split: if_splits)

lemma insert_in_order:
  "sorted_wrt (\<lambda>a b. cmp (f a) (f b) \<le> 0) xs \<Longrightarrow> sorted_wrt (\<lambda>a b. cmp (f a) (f b) \<le> 0) (insert_sorted (\<lambda>a b. cmp (f a) (f b)) x xs)"
proof (induction xs)
  case (Cons y ys)
  have mem: "z \<in> set (insert_sorted (\<lambda>a b. cmp (f a) (f b)) x ys) \<longleftrightarrow> z = x \<or> z \<in> set ys" for z
    by (metis mset_insert_sorted set_mset_mset set_mset_add_mset_insert insert_iff)
  show ?case
  proof (cases "cmp (f x) (f y) \<le> 0")
    case True
    then show ?thesis using Cons.prems trans by auto
  next
    case False
    then show ?thesis using Cons total by (auto simp: mem)
  qed
qed simp

lemma sort_in_order: "sorted_wrt (\<lambda>a b. cmp (f a) (f b) \<le> 0) (js_sort (\<lambda>a b. cmp (f a) (f b)) xs)"
  by (induction xs) (simp_all add: js_sort_def insert_in_order)

lemma sort_unique:
  assumes "mset xs = mset ys" "\<forall>a\<in>set xs. \<forall>b\<in>set xs. cmp (f a) (f b) = 0 \<longrightarrow> a = b"
  shows "js_sort (\<lambda>a b. cmp (f a) (f b)) xs = js_sort (\<lambda>a b. cmp (f a) (f b)) ys"
  by (rule sorted_unique [OF sort_in_order sort_in_order]) (use assms equal_sides in auto)

end

lemma compare_units_eq: "compare_units a b = 0 \<longleftrightarrow> a = b"
  by (induction a b rule: compare_units.induct) auto

lemma compare_units_flip: "compare_units a b = - compare_units b a"
  by (induction a b rule: compare_units.induct) auto

lemma compare_units_trans: "compare_units a b \<le> 0 \<Longrightarrow> compare_units b c \<le> 0 \<Longrightarrow> compare_units a c \<le> 0"
proof (induction a c arbitrary: b rule: compare_units.induct)
  case (3 x xs)
  then show ?case by (cases b) auto
next
  case (4 a as c cs)
  then show ?case by (cases b) (auto split: if_splits)
qed auto

interpretation units: collation compare_units
proof unfold_locales
  show "sgn (compare_units a b) = - sgn (compare_units b a)" for a b
    by (subst compare_units_flip) (rule sgn_minus)
qed (rule compare_units_trans)

lemma compare_units_prefix: "compare_units a (a @ b) \<le> 0"
  by (induction a) (cases b; simp)+

lemma units_sort_sorted: "sorted_wrt (\<lambda>a b. compare_units a b \<le> 0) (js_sort compare_units xs)"
  using units.sort_in_order [of "\<lambda>x. x" xs] by simp

lemma units_sort_unique: "mset xs = mset ys \<Longrightarrow> js_sort compare_units xs = js_sort compare_units ys"
  using units.sort_unique [of xs ys "\<lambda>x. x"] by (simp add: compare_units_eq)

section \<open>The order of properties does not matter\<close>

inductive reordered :: "json \<Rightarrow> json \<Rightarrow> bool" where
  same: "reordered v v"
| arrays: "list_all2 reordered vs ws \<Longrightarrow> reordered (JArr vs) (JArr ws)"
| objects: "mset qs = mset qs' \<Longrightarrow> list_all2 (\<lambda>p q. fst p = fst q \<and> reordered (snd p) (snd q)) ps qs \<Longrightarrow> reordered (JObj ps) (JObj qs')"

fun json_keys :: "json \<Rightarrow> string list" where
  "json_keys (JArr vs) = concat (map json_keys vs)"
| "json_keys (JObj ps) = map fst ps @ concat (map (\<lambda>p. json_keys (snd p)) ps)"
| "json_keys _ = []"

fun wf_json :: "json \<Rightarrow> bool" where
  "wf_json (JArr vs) = list_all wf_json vs"
| "wf_json (JObj ps) = (distinct (map fst ps) \<and> list_all (\<lambda>p. wf_json (snd p)) ps)"
| "wf_json _ = True"

definition separates :: "(string \<Rightarrow> string \<Rightarrow> int) \<Rightarrow> string list \<Rightarrow> bool" where
  "separates cmp S \<longleftrightarrow> list_all (\<lambda>a. list_all (\<lambda>b. cmp a b = 0 \<longrightarrow> a = b) S) S"

lemma separates_mono: "separates cmp S \<Longrightarrow> set T \<subseteq> set S \<Longrightarrow> separates cmp T"
  by (auto simp: separates_def list_all_iff)

lemma insert_sorted_all2:
  assumes "\<And>x y x' y'. R x x' \<Longrightarrow> R y y' \<Longrightarrow> c x y = c' x' y'"
  shows "R x x' \<Longrightarrow> list_all2 R xs xs' \<Longrightarrow> list_all2 R (insert_sorted c x xs) (insert_sorted c' x' xs')"
proof (induction xs arbitrary: xs')
  case (Cons y ys)
  then show ?case using assms by (cases xs') auto
qed simp

lemma js_sort_all2:
  assumes "\<And>x y x' y'. R x x' \<Longrightarrow> R y y' \<Longrightarrow> c x y = c' x' y'"
  shows "list_all2 R xs xs' \<Longrightarrow> list_all2 R (js_sort c xs) (js_sort c' xs')"
proof (induction xs arbitrary: xs')
  case (Cons y ys)
  then show ?case using insert_sorted_all2 [of R c c'] assms by (cases xs') (auto simp: js_sort_def)
qed (simp add: js_sort_def)

lemma filter_all2:
  assumes "\<And>x y. R x y \<Longrightarrow> f x = g y"
  shows "list_all2 R xs ys \<Longrightarrow> list_all2 R (filter f xs) (filter g ys)"
  by (induction rule: list_all2_induct) (use assms in auto)

lemma all2_map_eq: "list_all2 (\<lambda>x y. f x = g y) xs ys \<Longrightarrow> map f xs = map g ys"
  by (induction rule: list_all2_induct) auto

lemma reordered_undefined: "reordered v w \<Longrightarrow> v = JUndefined \<longleftrightarrow> w = JUndefined"
  by (cases rule: reordered.cases) auto

lemma canonical_object_all2:
  assumes "list_all2 (\<lambda>p q. fst p = fst q \<and> (snd p = JUndefined \<longleftrightarrow> snd q = JUndefined) \<and> canonicalJson P (snd p) = canonicalJson P (snd q)) ps qs"
  shows "canonicalJson P (JObj ps) = canonicalJson P (JObj qs)"
proof -
  let ?R = "\<lambda>p q. fst p = fst q \<and> (snd p = JUndefined \<longleftrightarrow> snd q = JUndefined) \<and> canonicalJson P (snd p) = canonicalJson P (snd q)"
  let ?c = "\<lambda>a b. localeCompare P (fst a) (fst b)"
  have "list_all2 ?R (js_sort ?c (filter (\<lambda>p. snd p \<noteq> JUndefined) ps)) (js_sort ?c (filter (\<lambda>p. snd p \<noteq> JUndefined) qs))"
    by (rule js_sort_all2 [OF _ filter_all2 [OF _ assms]]) auto
  then have "map (\<lambda>p. json_string (fst p) @ '':'' @ canonicalJson P (snd p)) (js_sort ?c (filter (\<lambda>p. snd p \<noteq> JUndefined) ps))
      = map (\<lambda>p. json_string (fst p) @ '':'' @ canonicalJson P (snd p)) (js_sort ?c (filter (\<lambda>p. snd p \<noteq> JUndefined) qs))"
    by (intro all2_map_eq) (auto elim: list_all2_mono)
  then show ?thesis by (simp only: canonicalJson.simps Let_def)
qed

lemma canonical_object_perm:
  assumes "collation (localeCompare P)" "mset ps = mset qs" "distinct (map fst ps)" "separates (localeCompare P) (map fst ps)"
  shows "canonicalJson P (JObj ps) = canonicalJson P (JObj qs)"
proof -
  let ?f = "filter (\<lambda>p. snd p \<noteq> JUndefined)"
  have eq: "a = b" if "a \<in> set ps" "b \<in> set ps" "localeCompare P (fst a) (fst b) = 0" for a b
  proof -
    have "fst a = fst b" using assms(4) that by (auto simp: separates_def list_all_iff)
    then show ?thesis using assms(3) that by (metis distinct_map inj_onD)
  qed
  have "js_sort (\<lambda>a b. localeCompare P (fst a) (fst b)) (?f ps) = js_sort (\<lambda>a b. localeCompare P (fst a) (fst b)) (?f qs)"
    using collation.sort_unique [OF assms(1), of "?f ps" "?f qs" fst] assms(2) eq by (simp add: mset_filter)
  then show ?thesis by (simp only: canonicalJson.simps Let_def)
qed

text \<open>Two JSON values that differ only in the order of the properties of their objects, at any depth, have the same canonical
  text, and so the same checksum and the same Merkle leaf, provided no object has a key twice and the collation tells the
  keys apart (\<open>localeCompare\<close> answers 0 for some different strings).
\<close>

theorem canonical_ignores_property_order:
  assumes "reordered v w" "wf_json v" "collation (localeCompare P)" "separates (localeCompare P) (json_keys v)"
  shows "canonicalJson P v = canonicalJson P w"
  using assms(1,2,4)
proof (induction rule: reordered.induct)
  case (arrays vs ws)
  have "separates (localeCompare P) (json_keys v)" if "v \<in> set vs" for v
    using arrays.prems(2) that by (auto elim!: separates_mono)
  then have "list_all2 (\<lambda>v w. canonicalJson P v = canonicalJson P w) vs ws"
    using arrays.IH arrays.prems(1) by (auto simp: list_all2_conv_all_nth list_all_length)
  then have "map (canonicalJson P) vs = map (canonicalJson P) ws" by (rule all2_map_eq)
  then show ?case by simp
next
  case (objects qs qs' ps)
  have "separates (localeCompare P) (json_keys (snd p))" if "p \<in> set ps" for p
    using objects.prems(2) that by (auto elim!: separates_mono)
  then have eq: "list_all2 (\<lambda>p q. fst p = fst q \<and> (snd p = JUndefined \<longleftrightarrow> snd q = JUndefined) \<and> canonicalJson P (snd p) = canonicalJson P (snd q)) ps qs"
    using objects.IH objects.prems(1) reordered_undefined by (auto simp: list_all2_conv_all_nth list_all_length)
  have "list_all2 (\<lambda>p q. fst p = fst q) ps qs" using eq by (rule list_all2_mono) auto
  then have keys: "map fst ps = map fst qs" by (rule all2_map_eq)
  have "separates (localeCompare P) (map fst qs)" using objects.prems(2) by (auto simp: keys elim!: separates_mono)
  then have "canonicalJson P (JObj qs) = canonicalJson P (JObj qs')"
    using canonical_object_perm [OF assms(3) objects.hyps(1)] objects.prems(1) keys by simp
  then show ?case using canonical_object_all2 [OF eq] by simp
qed simp

text \<open>An odd level repeats its last hash, so a repeated last value does not show in the root.\<close>

lemma repeated_last_same_root: "merkleRoot P [a, b, c] = merkleRoot P [a, b, c, c]"
  by (simp add: merkleRoot_def merkle_loop.simps)

end
