(* ===== verification/Edge_Merge.thy ===== *)
theory Edge_Merge
  imports Edge_Json "HOL-Library.Sublist"
begin

text \<open>
  How the edge gateway resolves a conflict between its own value of a record and the value upstream
  (\<open>resolveTelemetryConflict\<close> and \<open>mergeConfigurationConflict\<close> of \<open>server/gateway/store-and-forward.ts\<close>, with the checks they
  make). Telemetry takes the later writer. A configuration is flattened to dotted paths, each path takes the later version,
  and the paths are assembled again. An invalid \<open>Date\<close> is \<open>None\<close>; a thrown error is a left value.

  The lemmas describe an object by the leaf at each path (\<open>leaf_at\<close>): flattening lists the leaves, assembling restores them, the
  merge of two configurations has at each path the later of the two leaves, and both sides of a conflict compute the same.
\<close>

section \<open>Errors and checks\<close>

datatype edge_error =
    NotFiniteNumber
  | NotJsonSafe
  | NotPlainObject
  | ForbiddenKey string
  | InvalidFieldName string
  | InvalidDate string
  | EmptyVersionPath
  | VersionNeedsOrigin string
  | MissingFieldVersion
  | EmptyReplicaOrigin
  | ConfigurationNotObject
  | EmptyRecordId
  | InvalidAttempts string
  | InvalidKind string
  | InvalidOrigin string
  | InvalidChecksum string
  | QueueIntegrityError string
  | DuplicateRecord string
  | QueueCapacityError nat
  | UnsupportedKind string
  | EmptyOrigin
  | ShuttingDown
  | NotInitialized
  | UpstreamUnreachable
  | RootMismatch
  | UnknownAcknowledgement string
  | UnknownConflict string
  | NoProgress
  | UndefinedRecord
  | ExternalError string

fun first_error :: "edge_error option list \<Rightarrow> edge_error option" where
  "first_error [] = None"
| "first_error (None # es) = first_error es"
| "first_error (Some e # es) = Some e"

type_synonym date = "int option"

record field_version =
  fv_timestamp :: date
  fv_origin :: string

type_synonym field_versions = "(string \<times> field_version) list"

record replica_value =
  rv_data :: json
  rv_timestamp :: date
  rv_origin :: string
  rv_fieldVersions :: "field_versions option"

definition isPlainObject :: "json \<Rightarrow> bool" where
  "isPlainObject v = (case v of JObj _ \<Rightarrow> True | _ \<Rightarrow> False)"

definition FORBIDDEN_CONFIGURATION_KEYS :: "string list" where
  "FORBIDDEN_CONFIGURATION_KEYS = [''__proto__'', ''constructor'', ''prototype'']"

fun assertJsonSafe :: "json \<Rightarrow> edge_error option" where
  "assertJsonSafe JNull = None"
| "assertJsonSafe (JStr s) = None"
| "assertJsonSafe (JBool b) = None"
| "assertJsonSafe (JNum x) = (if isFinite x then None else Some NotFiniteNumber)"
| "assertJsonSafe JUndefined = Some NotJsonSafe"
| "assertJsonSafe (JDate t) = Some NotPlainObject"
| "assertJsonSafe (JArr vs) = first_error (map assertJsonSafe vs)"
| "assertJsonSafe (JObj ps) =
     first_error (map (\<lambda>p. if fst p \<in> set FORBIDDEN_CONFIGURATION_KEYS then Some (ForbiddenKey (fst p)) else assertJsonSafe (snd p)) ps)"

definition validateConfigurationKey :: "string \<Rightarrow> edge_error option" where
  "validateConfigurationKey key =
     (if key = [] \<or> CHR ''.'' \<in> set key \<or> key \<in> set FORBIDDEN_CONFIGURATION_KEYS then Some (InvalidFieldName key) else None)"

fun validateConfigurationObject :: "json \<Rightarrow> edge_error option" where
  "validateConfigurationObject (JArr vs) = first_error (map validateConfigurationObject vs)"
| "validateConfigurationObject (JObj ps) =
     first_error (map (\<lambda>p. first_error [validateConfigurationKey (fst p), validateConfigurationObject (snd p)]) ps)"
| "validateConfigurationObject _ = None"

definition assertValidDate :: "date \<Rightarrow> string \<Rightarrow> edge_error option" where
  "assertValidDate d name = (if d = None then Some (InvalidDate name) else None)"

definition validateFieldVersions :: "field_versions \<Rightarrow> edge_error option" where
  "validateFieldVersions versions =
     first_error (map (\<lambda>(path, version).
       if path = [] then Some EmptyVersionPath
       else first_error (map validateConfigurationKey (split_on CHR ''.'' path) @
              [if blank (fv_origin version) then Some (VersionNeedsOrigin path) else None,
               assertValidDate (fv_timestamp version) path])) versions)"

definition validateReplicaValue :: "replica_value \<Rightarrow> bool \<Rightarrow> edge_error option" where
  "validateReplicaValue rv configuration =
     first_error ([assertValidDate (rv_timestamp rv) ''replica timestamp'',
       if blank (rv_origin rv) then Some EmptyReplicaOrigin else None,
       assertJsonSafe (rv_data rv)] @
       (if configuration
        then [if isPlainObject (rv_data rv) then None else Some ConfigurationNotObject,
              validateConfigurationObject (rv_data rv),
              case rv_fieldVersions rv of None \<Rightarrow> None | Some vs \<Rightarrow> validateFieldVersions vs]
        else []))"

section \<open>Telemetry\<close>

text \<open>\<open>a.getTime() - b.getTime() || rest\<close>: the difference with an invalid date is \<open>NaN\<close>, which \<open>||\<close> passes over like 0.\<close>

definition time_diff :: "date \<Rightarrow> date \<Rightarrow> int" where
  "time_diff a b = (case (a, b) of (Some x, Some y) \<Rightarrow> x - y | _ \<Rightarrow> 0)"

definition js_or :: "int \<Rightarrow> int \<Rightarrow> int" where
  "js_or a b = (if a = 0 then b else a)"

definition resolveTelemetryConflict :: "platform \<Rightarrow> replica_value \<Rightarrow> replica_value \<Rightarrow> edge_error + replica_value" where
  "resolveTelemetryConflict P local remote =
     (case first_error [validateReplicaValue local False, validateReplicaValue remote False] of
        Some e \<Rightarrow> Inl e
      | None \<Rightarrow>
          (let comparison =
             js_or (time_diff (rv_timestamp local) (rv_timestamp remote))
               (js_or (localeCompare P (rv_origin local) (rv_origin remote))
                 (localeCompare P (canonicalJson P (rv_data local)) (canonicalJson P (rv_data remote))))
           in Inr (if comparison \<ge> 0 then local else remote)))"

section \<open>Configuration\<close>

definition path_text :: "string \<Rightarrow> string \<Rightarrow> string" where
  "path_text pre key = (if pre = [] then key else pre @ ''.'' @ key)"

definition props_size :: "(string \<times> json) list \<Rightarrow> nat" where
  "props_size ps = (\<Sum>p\<leftarrow>ps. 2 * size (snd p) + 1)"

lemma props_size_sort [simp]: "props_size (js_sort cmp ps) = props_size ps"
proof -
  have "mset (map (\<lambda>p. 2 * size (snd p) + 1) (js_sort cmp ps)) = mset (map (\<lambda>p. 2 * size (snd p) + 1) ps)" by simp
  then show ?thesis unfolding props_size_def by (metis sum_mset_sum_list)
qed

lemma props_size_object: "props_size ps < 2 * size (JObj ps)"
  by (induction ps) (auto simp: props_size_def)

lemma props_size_Cons: "props_size ((k, c) # ps) = Suc (2 * size c + props_size ps)"
  by (simp add: props_size_def)

function (sequential) flatten :: "platform \<Rightarrow> (string \<times> json) list \<Rightarrow> string \<Rightarrow> (string \<times> json) list \<Rightarrow> edge_error + (string \<times> json) list"
  and flatten_entries :: "platform \<Rightarrow> (string \<times> json) list \<Rightarrow> string \<Rightarrow> (string \<times> json) list \<Rightarrow> edge_error + (string \<times> json) list"
where
  "flatten P ps pre result = flatten_entries P (js_sort (\<lambda>a b. localeCompare P (fst a) (fst b)) ps) pre result"
| "flatten_entries P [] pre result = Inr result"
| "flatten_entries P ((key, JObj (q # qs)) # rest) pre result =
     (case validateConfigurationKey key of
        Some e \<Rightarrow> Inl e
      | None \<Rightarrow>
          (case flatten P (q # qs) (path_text pre key) result of
             Inl e \<Rightarrow> Inl e
           | Inr result' \<Rightarrow> flatten_entries P rest pre result'))"
| "flatten_entries P ((key, child) # rest) pre result =
     (case validateConfigurationKey key of
        Some e \<Rightarrow> Inl e
      | None \<Rightarrow> flatten_entries P rest pre (AList.update (path_text pre key) child result))"
  by pat_completeness auto

termination
proof (relation "measure (\<lambda>x. case x of Inl (P, ps, _) \<Rightarrow> props_size ps + 1 | Inr (P, ps, _) \<Rightarrow> props_size ps)", goal_cases)
  case (3 P key q qs rest pre result)
  then show ?case using props_size_object [of "q # qs"] by (simp add: props_size_Cons)
qed (auto simp: props_size_Cons)

declare flatten.simps [simp del]

definition normalizedFieldVersions :: "replica_value \<Rightarrow> (string \<times> json) list \<Rightarrow> field_versions" where
  "normalizedFieldVersions rv flat =
     fold (\<lambda>path result.
       set_property path
         (case (case rv_fieldVersions rv of None \<Rightarrow> None | Some vs \<Rightarrow> map_of vs path) of
            Some explicit \<Rightarrow> explicit
          | None \<Rightarrow> \<lparr> fv_timestamp = rv_timestamp rv, fv_origin = rv_origin rv \<rparr>) result) (map fst flat) []"

fun put_path :: "string list \<Rightarrow> json \<Rightarrow> (string \<times> json) list \<Rightarrow> (string \<times> json) list" where
  "put_path [] v cursor = cursor"
| "put_path [segment] v cursor = set_property segment v cursor"
| "put_path (segment # t # ss) v cursor =
     set_property segment (JObj (put_path (t # ss) v (case map_of cursor segment of Some (JObj ps) \<Rightarrow> ps | _ \<Rightarrow> []))) cursor"

fun unflatten :: "(string \<times> json) list \<Rightarrow> (string \<times> json) list \<Rightarrow> edge_error + (string \<times> json) list" where
  "unflatten [] result = Inr result"
| "unflatten ((path, rv) # rest) result =
     (case first_error (map validateConfigurationKey (split_on CHR ''.'' path)) of
        Some e \<Rightarrow> Inl e
      | None \<Rightarrow> unflatten rest (put_path (split_on CHR ''.'' path) rv result))"

definition map_get :: "(string \<times> json) list \<Rightarrow> string \<Rightarrow> json" where
  "map_get m path = (case map_of m path of Some v \<Rightarrow> v | None \<Rightarrow> JUndefined)"

fun merge_fields :: "platform \<Rightarrow> (string \<times> json) list \<Rightarrow> (string \<times> json) list \<Rightarrow> field_versions \<Rightarrow> field_versions \<Rightarrow> string list
    \<Rightarrow> (string \<times> json) list \<times> field_versions \<Rightarrow> edge_error + (string \<times> json) list \<times> field_versions" where
  "merge_fields P localFlat remoteFlat localVersions remoteVersions [] merged = Inr merged"
| "merge_fields P localFlat remoteFlat localVersions remoteVersions (path # paths) (mergedFlat, mergedVersions) =
     (let keep = (\<lambda>flat version. merge_fields P localFlat remoteFlat localVersions remoteVersions paths
                    (AList.update path (map_get flat path) mergedFlat, set_property path version mergedVersions))
      in case (map_of localVersions path, map_of remoteVersions path) of
           (None, None) \<Rightarrow> Inl MissingFieldVersion
         | (None, Some remoteVersion) \<Rightarrow> keep remoteFlat remoteVersion
         | (Some localVersion, None) \<Rightarrow> keep localFlat localVersion
         | (Some localVersion, Some remoteVersion) \<Rightarrow>
             (let comparison =
                js_or (time_diff (fv_timestamp localVersion) (fv_timestamp remoteVersion))
                  (js_or (localeCompare P (fv_origin localVersion) (fv_origin remoteVersion))
                    (localeCompare P (canonicalJson P (map_get localFlat path)) (canonicalJson P (map_get remoteFlat path))))
              in if comparison \<ge> 0 then keep localFlat localVersion else keep remoteFlat remoteVersion))"

definition maxDate :: "date \<Rightarrow> date \<Rightarrow> date" where
  "maxDate a b = (case (a, b) of (Some x, Some y) \<Rightarrow> Some (max x y) | _ \<Rightarrow> None)"

definition latest_version :: "platform \<Rightarrow> field_versions \<Rightarrow> field_version option" where
  "latest_version P versions =
     (case js_sort (\<lambda>left right. js_or (time_diff (fv_timestamp right) (fv_timestamp left))
                      (localeCompare P (fv_origin right) (fv_origin left))) (map snd versions) of
        [] \<Rightarrow> None
      | v # _ \<Rightarrow> Some v)"

definition union_paths :: "(string \<times> json) list \<Rightarrow> (string \<times> json) list \<Rightarrow> string list" where
  "union_paths localFlat remoteFlat = js_sort compare_units (rev (remdups (rev (map fst localFlat @ map fst remoteFlat))))"

definition merged_replica :: "platform \<Rightarrow> replica_value \<Rightarrow> replica_value \<Rightarrow> (string \<times> json) list \<Rightarrow> field_versions \<Rightarrow> replica_value" where
  "merged_replica P local remote obj versions =
     (case latest_version P versions of
        Some latest \<Rightarrow> \<lparr> rv_data = JObj obj, rv_timestamp = fv_timestamp latest, rv_origin = fv_origin latest, rv_fieldVersions = Some versions \<rparr>
      | None \<Rightarrow> \<lparr> rv_data = JObj obj, rv_timestamp = maxDate (rv_timestamp local) (rv_timestamp remote),
          rv_origin = last (js_sort compare_units [rv_origin local, rv_origin remote]), rv_fieldVersions = Some versions \<rparr>)"

definition mergeConfigurationConflict :: "platform \<Rightarrow> replica_value \<Rightarrow> replica_value \<Rightarrow> edge_error + replica_value" where
  "mergeConfigurationConflict P local remote =
     (case first_error [validateReplicaValue local True, validateReplicaValue remote True] of
        Some e \<Rightarrow> Inl e
      | None \<Rightarrow>
     (case (rv_data local, rv_data remote) of
        (JObj lp, JObj rp) \<Rightarrow>
          (case flatten P lp [] [] of Inl e \<Rightarrow> Inl e | Inr localFlat \<Rightarrow>
          (case flatten P rp [] [] of Inl e \<Rightarrow> Inl e | Inr remoteFlat \<Rightarrow>
          (case merge_fields P localFlat remoteFlat (normalizedFieldVersions local localFlat) (normalizedFieldVersions remote remoteFlat)
                  (union_paths localFlat remoteFlat) ([], []) of
             Inl e \<Rightarrow> Inl e
           | Inr (mergedFlat, mergedVersions) \<Rightarrow>
               (case unflatten mergedFlat [] of Inl e \<Rightarrow> Inl e
                | Inr obj \<Rightarrow> Inr (merged_replica P local remote obj mergedVersions)))))
      | _ \<Rightarrow> Inl ConfigurationNotObject))"

section \<open>Properties and paths\<close>

lemma first_error_None [simp]: "first_error es = None \<longleftrightarrow> (\<forall>e\<in>set es. e = None)"
  by (induction es rule: first_error.induct) auto

lemma first_error_append: "first_error (es @ fs) = (case first_error es of None \<Rightarrow> first_error fs | Some e \<Rightarrow> Some e)"
  by (induction es rule: first_error.induct) auto

lemma map_of_new_property: "fst p \<notin> fst ` set ps \<Longrightarrow> map_of (new_property p ps) = (map_of ps)(fst p \<mapsto> snd p)"
  by (induction ps) (auto simp: fun_upd_twist)

lemma map_of_set_property [simp]: "map_of (set_property k v ps) = (map_of ps)(k \<mapsto> v)"
  by (simp add: set_property_def map_of_new_property AList.update_conv')

lemma new_property_neq_Nil [simp]: "new_property p ps \<noteq> []"
  by (cases ps) auto

lemma set_property_neq_Nil [simp]: "set_property k v ps \<noteq> []"
  by (cases ps) (auto simp: set_property_def)

lemma update_absent: "k \<notin> fst ` set ps \<Longrightarrow> AList.update k v ps = ps @ [(k, v)]"
  by (induction ps) auto

abbreviation segments :: "string \<Rightarrow> string list" where
  "segments \<equiv> split_on CHR ''.''"

abbreviation path_of :: "string list \<Rightarrow> string" where
  "path_of \<equiv> join_with ''.''"

definition valid_key :: "string \<Rightarrow> bool" where
  "valid_key k \<longleftrightarrow> validateConfigurationKey k = None"

lemma valid_keyD: "valid_key k \<Longrightarrow> k \<noteq> [] \<and> CHR ''.'' \<notin> set k"
  by (auto simp: valid_key_def validateConfigurationKey_def split: if_splits)

lemma path_of_Cons: "ss \<noteq> [] \<Longrightarrow> path_of (s # ss) = s @ ''.'' @ path_of ss"
  by (cases ss) auto

lemma path_of_segments [simp]: "path_of (segments q) = q"
proof (induction q)
  case (Cons c q)
  obtain s ss where ss: "segments q = s # ss" by (cases "segments q") auto
  then show ?case using Cons by (cases ss) auto
qed simp

lemma segments_undotted: "CHR ''.'' \<notin> set k \<Longrightarrow> segments k = [k]"
  by (induction k) auto

lemma segments_append: "CHR ''.'' \<notin> set k \<Longrightarrow> segments (k @ CHR ''.'' # q) = k # segments q"
  by (induction k) auto

lemma segments_path_of: "ss \<noteq> [] \<Longrightarrow> \<forall>s\<in>set ss. CHR ''.'' \<notin> set s \<Longrightarrow> segments (path_of ss) = ss"
proof (induction ss)
  case (Cons s ss)
  then show ?case by (cases "ss = []") (simp_all add: segments_undotted path_of_Cons segments_append)
qed simp

lemma path_of_eq_Nil: "list_all valid_key ss \<Longrightarrow> path_of ss = [] \<longleftrightarrow> ss = []"
  by (cases ss; cases "tl ss") (auto dest: valid_keyD)

lemma path_of_snoc: "ss \<noteq> [] \<Longrightarrow> path_of (ss @ [k]) = path_of ss @ ''.'' @ k"
proof (induction ss)
  case (Cons s ss)
  then show ?case by (cases "ss = []") (simp_all add: path_of_Cons)
qed simp

lemma path_text_snoc: "list_all valid_key ss \<Longrightarrow> path_text (path_of ss) k = path_of (ss @ [k])"
  by (cases "ss = []") (simp_all add: path_text_def path_of_eq_Nil path_of_snoc)

lemma path_eq_iff: "list_all valid_key ss \<Longrightarrow> ss \<noteq> [] \<Longrightarrow> q = path_of ss \<longleftrightarrow> segments q = ss"
  using segments_path_of [of ss] path_of_segments [of q] by (auto simp: list_all_iff dest: valid_keyD)

section \<open>Leaves\<close>

fun leaf_at :: "(string \<times> json) list \<Rightarrow> string list \<Rightarrow> json option" where
  "leaf_at ps [] = None"
| "leaf_at ps (k # ks) =
     (case map_of ps k of
        None \<Rightarrow> None
      | Some (JObj (q # qs)) \<Rightarrow> leaf_at (q # qs) ks
      | Some c \<Rightarrow> if ks = [] then Some c else None)"

definition is_leaf :: "json \<Rightarrow> bool" where
  "is_leaf v = (case v of JObj (q # qs) \<Rightarrow> False | _ \<Rightarrow> True)"

definition child_leaf :: "json \<Rightarrow> string list \<Rightarrow> json option" where
  "child_leaf c ks = (if is_leaf c then if ks = [] then Some c else None else case c of JObj ps \<Rightarrow> leaf_at ps ks | _ \<Rightarrow> None)"

lemma leaf_at_child: "leaf_at ps (k # ks) = (case map_of ps k of None \<Rightarrow> None | Some c \<Rightarrow> child_leaf c ks)"
  by (auto simp: child_leaf_def is_leaf_def split: option.splits json.splits list.splits)

lemma leaf_at_Nil [simp]: "leaf_at [] s = None"
  by (cases s) auto

lemma leaf_at_leaf: "leaf_at ps s = Some v \<Longrightarrow> is_leaf v"
proof (induction s arbitrary: ps)
  case (Cons k ks)
  then obtain c where c: "map_of ps k = Some c" "child_leaf c ks = Some v" by (auto simp only: leaf_at_child split: option.splits)
  then show ?case using Cons.IH by (cases "is_leaf c") (auto simp: child_leaf_def split: if_splits json.splits)
qed simp

lemma leaf_at_cong: "map_of ps = map_of qs \<Longrightarrow> leaf_at ps s = leaf_at qs s"
  by (cases s) auto

lemma leaf_at_put:
  "is_leaf v \<Longrightarrow> segs \<noteq> [] \<Longrightarrow> leaf_at (put_path segs v ps) s =
     (if s = segs then Some v else if strict_prefix s segs \<or> strict_prefix segs s then None else leaf_at ps s)"
proof (induction segs v ps arbitrary: s rule: put_path.induct)
  case (2 segment v cursor)
  then show ?case by (cases s) (auto simp: leaf_at_child child_leaf_def strict_prefix_def simp del: leaf_at.simps(2))
next
  case (3 segment t ss v cursor)
  let ?inner = "case map_of cursor segment of Some (JObj ps) \<Rightarrow> ps | _ \<Rightarrow> []"
  show ?case
  proof (cases s)
    case (Cons k ks)
    have ne: "put_path (t # ss) v ?inner \<noteq> []" by (cases ss) auto
    have inner: "leaf_at ?inner ks = leaf_at cursor (segment # ks)" if "ks \<noteq> []"
      using that by (auto simp: leaf_at_child child_leaf_def is_leaf_def simp del: leaf_at.simps(2) split: option.splits json.splits list.splits)
    have "leaf_at (put_path (segment # t # ss) v cursor) (segment # ks) = leaf_at (put_path (t # ss) v ?inner) ks"
      using ne by (cases "put_path (t # ss) v ?inner") auto
    also have "\<dots> = (if ks = t # ss then Some v else if strict_prefix ks (t # ss) \<or> strict_prefix (t # ss) ks then None else leaf_at ?inner ks)"
      using 3 by blast
    finally have "leaf_at (put_path (segment # t # ss) v cursor) (segment # ks) =
        (if ks = t # ss then Some v else if strict_prefix ks (t # ss) \<or> strict_prefix (t # ss) ks then None else leaf_at cursor (segment # ks))"
      using inner by (cases "ks = []") (auto simp: strict_prefix_def)
    then show ?thesis using Cons by (cases "k = segment") (auto simp: leaf_at_child strict_prefix_def simp del: leaf_at.simps(2))
  qed simp
qed simp

section \<open>Flattening lists the leaves\<close>

definition leaf_under :: "(string \<times> json) list \<Rightarrow> string list \<Rightarrow> string list \<Rightarrow> json option" where
  "leaf_under ps ss s = (if take (length ss) s = ss then leaf_at ps (drop (length ss) s) else None)"

lemma leaf_under_Nil [simp]: "leaf_under ps [] s = leaf_at ps s" "leaf_under [] ss s = None"
  by (simp_all add: leaf_under_def)

lemma leaf_under_Cons:
  assumes "k \<notin> fst ` set rest"
  shows "leaf_under ((k, c) # rest) ss s =
    (case leaf_under rest ss s of
       Some v \<Rightarrow> Some v
     | None \<Rightarrow> if take (Suc (length ss)) s = ss @ [k] then child_leaf c (drop (Suc (length ss)) s) else None)"
proof (cases "take (length ss) s = ss")
  case True
  then obtain s' where s: "s = ss @ s'" by (metis append_take_drop_id)
  have "map_of rest k = None" using assms by (simp add: map_of_eq_None_iff)
  then show ?thesis
    by (cases s') (auto simp: leaf_under_def s leaf_at_child simp del: leaf_at.simps(2) split: option.splits)
next
  case False
  then have "take (Suc (length ss)) s \<noteq> ss @ [k]" by (metis append_eq_append_conv append_take_drop_id butlast_snoc butlast_take diff_Suc_1 length_append_singleton length_take min_def nat_le_linear not_less_eq_eq take_all)
  then show ?thesis using False by (simp add: leaf_under_def)
qed

lemma map_of_sorted: "distinct (map fst ps) \<Longrightarrow> map_of (js_sort cmp ps) = map_of ps"
  using mset_eq_imp_distinct_iff [of "map fst (js_sort cmp ps)" "map fst ps"] by (subst map_of_inject_set) simp_all

lemma leaf_at_first: "leaf_at ((k, c) # rest) (a # l) = (if a = k then child_leaf c l else leaf_at rest (a # l))"
  by (simp add: leaf_at_child del: leaf_at.simps(2))

definition flat_ok :: "(string \<times> json) list \<Rightarrow> string list \<Rightarrow> (string \<times> json) list \<Rightarrow> (string \<times> json) list \<Rightarrow> bool" where
  "flat_ok ps ss result m \<longleftrightarrow>
     (\<forall>q. map_of m q = (case leaf_under ps ss (segments q) of Some v \<Rightarrow> Some v | None \<Rightarrow> map_of result q))
     \<and> (\<forall>s v. leaf_at ps s = Some v \<longrightarrow> list_all valid_key s)"

lemma flat_ok_Cons:
  assumes "flat_ok rest ss result' m" "k \<notin> fst ` set rest" "valid_key k"
    and "\<And>q. map_of result' q = (if take (Suc (length ss)) (segments q) = ss @ [k] \<and> child_leaf c (drop (Suc (length ss)) (segments q)) \<noteq> None
       then child_leaf c (drop (Suc (length ss)) (segments q)) else map_of result q)"
    and "\<And>s v. child_leaf c s = Some v \<Longrightarrow> list_all valid_key s"
  shows "flat_ok ((k, c) # rest) ss result m"
proof -
  have "list_all valid_key s" if "leaf_at ((k, c) # rest) s = Some v" for s v
    using assms(1,3,5) that by (cases s) (auto simp: flat_ok_def leaf_at_first simp del: leaf_at.simps(2) split: if_splits)
  moreover have "map_of m q = (case leaf_under ((k, c) # rest) ss (segments q) of Some v \<Rightarrow> Some v | None \<Rightarrow> map_of result q)" for q
    using assms(1,4) by (auto simp: flat_ok_def leaf_under_Cons [OF assms(2)] split: option.splits)
  ultimately show ?thesis by (auto simp: flat_ok_def)
qed

lemma flat_ok_leaf:
  assumes "list_all valid_key ss" "valid_key k" "is_leaf c"
  shows "map_of (AList.update (path_text (path_of ss) k) c result) q =
    (if take (Suc (length ss)) (segments q) = ss @ [k] \<and> child_leaf c (drop (Suc (length ss)) (segments q)) \<noteq> None
     then child_leaf c (drop (Suc (length ss)) (segments q)) else map_of result q)"
proof -
  have "q = path_of (ss @ [k]) \<longleftrightarrow> take (Suc (length ss)) (segments q) = ss @ [k] \<and> drop (Suc (length ss)) (segments q) = []"
  proof -
    have "q = path_of (ss @ [k]) \<longleftrightarrow> segments q = ss @ [k]" using path_eq_iff [of "ss @ [k]" q] assms(1,2) by simp
    also have "\<dots> \<longleftrightarrow> take (Suc (length ss)) (segments q) = ss @ [k] \<and> drop (Suc (length ss)) (segments q) = []"
      by (metis append_Nil2 append_take_drop_id drop_all length_append_singleton order_refl take_all)
    finally show ?thesis .
  qed
  then show ?thesis using assms by (auto simp: path_text_snoc AList.update_conv' child_leaf_def)
qed

lemma flatten_leaves:
  "flatten P ps pre result = Inr m \<Longrightarrow> wf_json (JObj ps) \<Longrightarrow> pre = path_of ss \<Longrightarrow> list_all valid_key ss \<Longrightarrow> flat_ok ps ss result m"
  "flatten_entries P ps pre result = Inr m \<Longrightarrow> wf_json (JObj ps) \<Longrightarrow> pre = path_of ss \<Longrightarrow> list_all valid_key ss \<Longrightarrow> flat_ok ps ss result m"
proof (induction P ps pre result and P ps pre result arbitrary: ss m and ss m rule: flatten_flatten_entries.induct)
  case (1 P ps pre result)
  let ?qs = "js_sort (\<lambda>a b. localeCompare P (fst a) (fst b)) ps"
  have d: "distinct (map fst ps)" using "1.prems"(2) by simp
  have "wf_json (JObj ?qs)" using "1.prems"(2) mset_eq_imp_distinct_iff [of "map fst ?qs" "map fst ps"] by (simp add: list_all_iff)
  then have "flat_ok ?qs ss result m" using 1 by (simp add: flatten.simps)
  moreover have "leaf_under ?qs = leaf_under ps" "leaf_at ?qs = leaf_at ps"
    using leaf_at_cong [OF map_of_sorted [OF d]] by (auto simp: leaf_under_def fun_eq_iff)
  ultimately show ?case by (simp add: flat_ok_def)
next
  case (2 P pre result)
  then show ?case by (simp add: flat_ok_def)
next
  case (3 P key q qs rest pre result)
  then obtain r where r: "flatten P (q # qs) (path_text pre key) result = Inr r" "flatten_entries P rest pre r = Inr m" "valid_key key"
    by (auto simp: valid_key_def split: option.splits sum.splits)
  have inner: "flat_ok (q # qs) (ss @ [key]) result r"
    using "3.IH"(1) [OF _ r(1)] r(3) "3.prems" by (simp add: valid_key_def path_text_snoc)
  have outer: "flat_ok rest ss r m" using "3.IH"(2) [OF _ r(1) r(2)] r(3) "3.prems" by (simp add: valid_key_def)
  show ?case
    by (rule flat_ok_Cons [OF outer])
      (use inner r(3) "3.prems"(2) in \<open>auto simp: flat_ok_def leaf_under_def child_leaf_def is_leaf_def split: option.splits\<close>)
qed (auto intro!: flat_ok_Cons flat_ok_leaf simp: valid_key_def child_leaf_def is_leaf_def split: option.splits if_splits)

lemma flatten_succeeds:
  "validateConfigurationObject (JObj ps) = None \<Longrightarrow> \<exists>m. flatten P ps pre result = Inr m"
  "validateConfigurationObject (JObj ps) = None \<Longrightarrow> \<exists>m. flatten_entries P ps pre result = Inr m"
proof (induction P ps pre result and P ps pre result rule: flatten_flatten_entries.induct)
  case (1 P ps pre result)
  then show ?case by (auto simp: flatten.simps)
next
  case (3 P key q qs rest pre result)
  have k: "validateConfigurationKey key = None" and c: "validateConfigurationObject (JObj (q # qs)) = None"
    and r: "validateConfigurationObject (JObj rest) = None" using "3.prems" by (auto simp del: validateConfigurationObject.simps simp: validateConfigurationObject.simps(2) [of "_ # _"] validateConfigurationObject.simps(2) [of rest])
  then obtain m where m: "flatten P (q # qs) (path_text pre key) result = Inr m" using "3.IH"(1) by blast
  then show ?case using "3.IH"(2) [OF k m r] by (simp add: k)
qed (auto simp: flatten.simps)

lemma flatten_spec:
  assumes "flatten P ps [] [] = Inr m" "wf_json (JObj ps)"
  shows "map_of m q = leaf_at ps (segments q)" "leaf_at ps s = Some v \<Longrightarrow> list_all valid_key s"
  using flatten_leaves(1) [OF assms, of "[]"] by (auto simp: flat_ok_def split: option.splits)

section \<open>Assembling restores the leaves\<close>

definition below :: "string list list \<Rightarrow> string list \<Rightarrow> bool" where
  "below ps s \<longleftrightarrow> (\<exists>p\<in>set ps. strict_prefix s p)"

lemma unflatten_leaves:
  assumes "unflatten fs result = Inr obj" "distinct (map fst fs)" "list_all (\<lambda>f. is_leaf (snd f)) fs"
    and "sorted_wrt (\<lambda>f g. \<not> strict_prefix (segments (fst g)) (segments (fst f))) fs"
  shows "leaf_at obj (segments q) =
    (if below (map (\<lambda>f. segments (fst f)) fs) (segments q) then None
     else case map_of fs q of Some v \<Rightarrow> Some v
       | None \<Rightarrow> if \<exists>f\<in>set fs. strict_prefix (segments (fst f)) (segments q) then None else leaf_at result (segments q))"
  using assms
proof (induction fs arbitrary: result)
  case (Cons f fs)
  obtain p v where f: "f = (p, v)" by fastforce
  have rest: "unflatten fs (put_path (segments p) v result) = Inr obj" using Cons.prems(1) f by (auto split: option.splits)
  have put: "leaf_at (put_path (segments p) v result) (segments q) =
      (if segments q = segments p then Some v else if strict_prefix (segments q) (segments p) \<or> strict_prefix (segments p) (segments q)
       then None else leaf_at result (segments q))"
    using leaf_at_put [of v "segments p" result "segments q"] Cons.prems(3) f by simp
  have inj: "segments q = segments p \<longleftrightarrow> q = p" by (metis path_of_segments)
  have absent: "map_of fs p = None" using Cons.prems(2) f by (simp add: map_of_eq_None_iff)
  have order: "\<not> strict_prefix (segments (fst g)) (segments p)" if "g \<in> set fs" for g
    using Cons.prems(4) f that by auto
  have known: "\<not> strict_prefix (segments q) (segments p)" if "map_of fs q = Some w" for w
    using order [of "(q, w)"] map_of_SomeD [OF that] by simp
  have "leaf_at obj (segments q) =
    (if below (map (\<lambda>f. segments (fst f)) fs) (segments q) then None
     else case map_of fs q of Some v \<Rightarrow> Some v
       | None \<Rightarrow> if \<exists>f\<in>set fs. strict_prefix (segments (fst f)) (segments q) then None
         else leaf_at (put_path (segments p) v result) (segments q))"
    using Cons.IH [OF rest] Cons.prems by simp
  then show ?case
    using put inj absent order known f by (auto simp: below_def split: option.splits)
qed (simp add: below_def)

lemma unflatten_succeeds: "\<forall>f\<in>set fs. list_all valid_key (segments (fst f)) \<Longrightarrow> \<exists>obj. unflatten fs result = Inr obj"
proof (induction fs arbitrary: result)
  case (Cons f fs)
  then have "first_error (map validateConfigurationKey (segments (fst f))) = None" by (auto simp: list_all_iff valid_key_def)
  then show ?case using Cons by (cases f) (auto simp del: first_error_None)
qed simp

lemma strict_prefix_text: "strict_prefix (segments p) (segments q) \<Longrightarrow> compare_units p q < 0"
proof -
  assume pre: "strict_prefix (segments p) (segments q)"
  then obtain s ss where q: "segments q = segments p @ s # ss" by (auto elim: strict_prefixE')
  have "path_of (xs @ s # ss) = path_of xs @ ''.'' @ path_of (s # ss)" if "xs \<noteq> []" for xs
    using that
  proof (induction xs)
    case (Cons x xs)
    then show ?case by (cases "xs = []") (simp_all add: path_of_Cons)
  qed simp
  then have "q = p @ ''.'' @ path_of (s # ss)" using q by (metis path_of_segments split_on_neq_Nil)
  moreover have "p \<noteq> q" using pre by auto
  ultimately show ?thesis using compare_units_prefix [of p] compare_units_eq [of p q] by (metis order_le_less)
qed

section \<open>The merge takes the later version of each field\<close>

definition version_of :: "replica_value \<Rightarrow> string \<Rightarrow> field_version" where
  "version_of rv q =
     (case (case rv_fieldVersions rv of None \<Rightarrow> None | Some vs \<Rightarrow> map_of vs q) of
        Some explicit \<Rightarrow> explicit
      | None \<Rightarrow> \<lparr> fv_timestamp = rv_timestamp rv, fv_origin = rv_origin rv \<rparr>)"

type_synonym field = "(json \<times> field_version) option"

definition field_of :: "replica_value \<Rightarrow> string \<Rightarrow> json option \<Rightarrow> field" where
  "field_of rv q leaf = map_option (\<lambda>v. (v, version_of rv q)) leaf"

definition field_at :: "replica_value \<Rightarrow> string \<Rightarrow> field" where
  "field_at rv q = field_of rv q (case rv_data rv of JObj ps \<Rightarrow> leaf_at ps (segments q) | _ \<Rightarrow> None)"

definition comparison :: "platform \<Rightarrow> json \<times> field_version \<Rightarrow> json \<times> field_version \<Rightarrow> int" where
  "comparison P a b =
     js_or (time_diff (fv_timestamp (snd a)) (fv_timestamp (snd b)))
       (js_or (localeCompare P (fv_origin (snd a)) (fv_origin (snd b)))
         (localeCompare P (canonicalJson P (fst a)) (canonicalJson P (fst b))))"

fun later :: "platform \<Rightarrow> field \<Rightarrow> field \<Rightarrow> field" where
  "later P None b = b"
| "later P a None = a"
| "later P (Some a) (Some b) = Some (if comparison P a b \<ge> 0 then a else b)"

definition nested_below :: "replica_value \<Rightarrow> string \<Rightarrow> bool" where
  "nested_below rv q \<longleftrightarrow> (\<exists>q'. strict_prefix (segments q) (segments q') \<and> field_at rv q' \<noteq> None)"

lemma normalized_versions:
  "map_of (normalizedFieldVersions rv flat) q = (if q \<in> fst ` set flat then Some (version_of rv q) else None)"
proof -
  have "map_of (fold (\<lambda>path. set_property path (version_of rv path)) ps acc) q
      = (if q \<in> set ps then Some (version_of rv q) else map_of acc q)" for ps acc
    by (induction ps arbitrary: acc) auto
  then show ?thesis by (simp add: normalizedFieldVersions_def version_of_def)
qed

lemma mem_keys: "q \<in> fst ` set flat \<longleftrightarrow> map_of flat q \<noteq> None"
  by (simp add: map_of_eq_None_iff)

definition merged_field :: "platform \<Rightarrow> replica_value \<Rightarrow> replica_value \<Rightarrow> (string \<times> json) list \<Rightarrow> (string \<times> json) list \<Rightarrow> string \<Rightarrow> field" where
  "merged_field P l r lf rf q = later P (field_of l q (map_of lf q)) (field_of r q (map_of rf q))"

lemma merge_fields_spec:
  assumes "distinct qs" "\<forall>q\<in>set qs. q \<notin> fst ` set mf \<and> q \<in> fst ` set lf \<union> fst ` set rf"
  shows "merge_fields P lf rf (normalizedFieldVersions l lf) (normalizedFieldVersions r rf) qs (mf, mv) =
    Inr (mf @ map (\<lambda>q. (q, fst (the (merged_field P l r lf rf q)))) qs, fold (\<lambda>q. set_property q (snd (the (merged_field P l r lf rf q)))) qs mv)"
  using assms
proof (induction qs arbitrary: mf mv)
  case (Cons q qs)
  have step: "merge_fields P lf rf (normalizedFieldVersions l lf) (normalizedFieldVersions r rf) (q # qs) (mf, mv) =
      merge_fields P lf rf (normalizedFieldVersions l lf) (normalizedFieldVersions r rf) qs
        (AList.update q (fst (the (merged_field P l r lf rf q))) mf, set_property q (snd (the (merged_field P l r lf rf q))) mv)"
    using Cons.prems(2)
    by (auto simp: normalized_versions mem_keys merged_field_def field_of_def map_get_def comparison_def Let_def split: option.splits)
  have "\<forall>q'\<in>set qs. q' \<notin> fst ` set (mf @ [(q, fst (the (merged_field P l r lf rf q)))]) \<and> q' \<in> fst ` set lf \<union> fst ` set rf"
    using Cons.prems by auto
  then show ?case
    using Cons.IH [of "mf @ [(q, fst (the (merged_field P l r lf rf q)))]"] Cons.prems unfolding step by (simp add: update_absent)
qed simp

lemma union_paths_set [simp]: "set (union_paths a b) = fst ` set a \<union> fst ` set b"
  by (auto simp: union_paths_def)

lemma union_paths_distinct: "distinct (union_paths a b)"
  unfolding union_paths_def by (metis distinct_remdups distinct_rev mset_eq_imp_distinct_iff mset_js_sort)

lemma union_paths_sorted: "sorted_wrt (\<lambda>p q. \<not> strict_prefix (segments q) (segments p)) (union_paths a b)"
proof -
  have "\<not> strict_prefix (segments q) (segments p)" if "compare_units p q \<le> 0" for p q
    using strict_prefix_text [of q p] compare_units_flip [of p q] that by auto
  then show ?thesis unfolding union_paths_def by (intro sorted_wrt_mono_rel [OF _ units_sort_sorted]) blast
qed

lemma map_of_fold_versions:
  "map_of (fold (\<lambda>q. set_property q (g q)) qs mv) q = (if q \<in> set qs then Some (g q) else map_of mv q)"
  by (induction qs arbitrary: mv) auto

lemma merged_replica_fields [simp]:
  "rv_data (merged_replica P l r obj vs) = JObj obj" "rv_fieldVersions (merged_replica P l r obj vs) = Some vs"
  by (simp_all add: merged_replica_def split: option.splits)

text \<open>What a successful merge has computed.\<close>

lemma merge_parts:
  assumes "mergeConfigurationConflict P l r = Inr m"
  obtains lp rp lf rf obj where
    "rv_data l = JObj lp" "rv_data r = JObj rp" "flatten P lp [] [] = Inr lf" "flatten P rp [] [] = Inr rf"
    "validateReplicaValue l True = None" "validateReplicaValue r True = None"
    "unflatten (map (\<lambda>q. (q, fst (the (merged_field P l r lf rf q)))) (union_paths lf rf)) [] = Inr obj"
    "m = merged_replica P l r obj (fold (\<lambda>q. set_property q (snd (the (merged_field P l r lf rf q))))
       (union_paths lf rf) [])"
proof -
  have valid: "validateReplicaValue l True = None" "validateReplicaValue r True = None"
    using assms by (auto simp: mergeConfigurationConflict_def split: option.splits)
  then obtain lp rp where data: "rv_data l = JObj lp" "rv_data r = JObj rp"
    using assms by (auto simp: mergeConfigurationConflict_def split: json.splits)
  obtain lf rf where flat: "flatten P lp [] [] = Inr lf" "flatten P rp [] [] = Inr rf"
    using assms valid data by (auto simp: mergeConfigurationConflict_def split: sum.splits)
  have "merge_fields P lf rf (normalizedFieldVersions l lf) (normalizedFieldVersions r rf) (union_paths lf rf) ([], []) =
      Inr (map (\<lambda>q. (q, fst (the (merged_field P l r lf rf q)))) (union_paths lf rf), fold (\<lambda>q. set_property q (snd (the (merged_field P l r lf rf q)))) (union_paths lf rf) [])"
    using merge_fields_spec [OF union_paths_distinct, of lf rf "[]" lf rf P l r "[]"] by simp
  then show ?thesis
    using assms valid data flat that by (auto simp: mergeConfigurationConflict_def split: sum.splits)
qed

lemma later_cases: "later P a b = Some c \<Longrightarrow> a = Some c \<or> b = Some c"
  by (cases a; cases b) (auto split: if_splits)

lemma later_None [simp]: "later P a b = None \<longleftrightarrow> a = None \<and> b = None"
  by (cases a; cases b) auto

lemma merged_field_cases:
  assumes "merged_field P l r lf rf q = Some (v, w)"
  shows "map_of lf q = Some v \<and> w = version_of l q \<or> map_of rf q = Some v \<and> w = version_of r q"
  using later_cases [of P] assms by (fastforce simp: merged_field_def field_of_def)

lemma merged_field_path: "q \<in> set (union_paths lf rf) \<longleftrightarrow> merged_field P l r lf rf q \<noteq> None"
  by (simp add: merged_field_def field_of_def mem_keys)

text \<open>The leaves that are merged: each is a leaf of one side, at a path of valid keys.\<close>

lemma merged_leaf:
  assumes "flatten P lp [] [] = Inr lf" "flatten P rp [] [] = Inr rf" "wf_json (JObj lp)" "wf_json (JObj rp)" "q \<in> set (union_paths lf rf)"
  shows "\<exists>v w. merged_field P l r lf rf q = Some (v, w) \<and> (leaf_at lp (segments q) = Some v \<or> leaf_at rp (segments q) = Some v)
    \<and> is_leaf v \<and> list_all valid_key (segments q)"
proof -
  obtain v w where vw: "merged_field P l r lf rf q = Some (v, w)" using assms(5) merged_field_path [of q lf rf P l r] by auto
  then have "leaf_at lp (segments q) = Some v \<or> leaf_at rp (segments q) = Some v"
    using merged_field_cases [OF vw] flatten_spec(1) [OF assms(1,3)] flatten_spec(1) [OF assms(2,4)] by auto
  then show ?thesis
    using vw leaf_at_leaf flatten_spec(2) [OF assms(1,3)] flatten_spec(2) [OF assms(2,4)] by blast
qed

lemma merged_object_leaves:
  assumes "flatten P lp [] [] = Inr lf" "flatten P rp [] [] = Inr rf" "wf_json (JObj lp)" "wf_json (JObj rp)"
    and "unflatten (map (\<lambda>q. (q, fst (the (merged_field P l r lf rf q)))) (union_paths lf rf)) [] = Inr obj"
  shows "leaf_at obj (segments q) =
    (if below (map segments (union_paths lf rf)) (segments q) then None else map_option fst (merged_field P l r lf rf q))"
proof -
  let ?fs = "map (\<lambda>q. (q, fst (the (merged_field P l r lf rf q)))) (union_paths lf rf)"
  have "list_all (\<lambda>f. is_leaf (snd f)) ?fs"
  proof -
    have "is_leaf (fst (the (merged_field P l r lf rf q)))" if "q \<in> set (union_paths lf rf)" for q
      using merged_leaf [OF assms(1-4) that, of l r] by auto
    then show ?thesis by (simp only: list_all_iff set_map ball_simps snd_conv) blast
  qed
  moreover have "sorted_wrt (\<lambda>f g. \<not> strict_prefix (segments (fst g)) (segments (fst f))) ?fs"
    using union_paths_sorted by (simp add: sorted_wrt_map)
  moreover have "distinct (map fst ?fs)" using union_paths_distinct by (simp add: comp_def)
  ultimately have "leaf_at obj (segments q) = (if below (map segments (union_paths lf rf)) (segments q) then None
      else case map_of ?fs q of Some v \<Rightarrow> Some v
        | None \<Rightarrow> if \<exists>f\<in>set ?fs. strict_prefix (segments (fst f)) (segments q) then None else leaf_at [] (segments q))"
    using unflatten_leaves [OF assms(5), of q] by (simp add: comp_def)
  moreover have "map_of ?fs q = map_option fst (merged_field P l r lf rf q)"
    using merged_field_path [of q lf rf P l r] 
    by (cases "merged_field P l r lf rf q") (auto simp: map_of_map_restrict restrict_map_def)
  ultimately show ?thesis by (auto split: option.splits)
qed

lemma below_nested:
  assumes "rv_data l = JObj lp" "rv_data r = JObj rp" "flatten P lp [] [] = Inr lf" "flatten P rp [] [] = Inr rf"
    and "wf_json (JObj lp)" "wf_json (JObj rp)"
  shows "below (map segments (union_paths lf rf)) (segments q) \<longleftrightarrow> nested_below l q \<or> nested_below r q"
proof -
  have "q' \<in> fst ` set lf \<longleftrightarrow> field_at l q' \<noteq> None" "q' \<in> fst ` set rf \<longleftrightarrow> field_at r q' \<noteq> None" for q'
    using assms(1,2) flatten_spec(1) [OF assms(3,5)] flatten_spec(1) [OF assms(4,6)]
    by (simp_all add: mem_keys field_at_def field_of_def)
  then show ?thesis unfolding below_def nested_below_def set_map union_paths_set by blast
qed

text \<open>C18: A merged configuration has at every path the later of the two fields there, with its version: by time, then by origin,
  then by canonical text; a field that only one side has is kept. The exception is a path that is a leaf on one side and an
  object on the other: then the nested fields replace the leaf, whatever the versions say.
\<close>

theorem merge_last_writer_wins:
  assumes "mergeConfigurationConflict P l r = Inr m" "wf_json (rv_data l)" "wf_json (rv_data r)"
  shows "field_at m q = (if nested_below l q \<or> nested_below r q then None else later P (field_at l q) (field_at r q))"
proof -
  obtain lp rp lf rf obj where parts: "rv_data l = JObj lp" "rv_data r = JObj rp" "flatten P lp [] [] = Inr lf" "flatten P rp [] [] = Inr rf"
      "unflatten (map (\<lambda>q. (q, fst (the (merged_field P l r lf rf q)))) (union_paths lf rf)) [] = Inr obj"
      "m = merged_replica P l r obj (fold (\<lambda>q. set_property q (snd (the (merged_field P l r lf rf q)))) (union_paths lf rf) [])"
    by (rule merge_parts [OF assms(1)])
  have wf: "wf_json (JObj lp)" "wf_json (JObj rp)" using assms(2,3) parts by auto
  have f: "merged_field P l r lf rf q = later P (field_at l q) (field_at r q)"
    using flatten_spec(1) [OF parts(3) wf(1)] flatten_spec(1) [OF parts(4) wf(2)] parts(1,2) by (simp add: merged_field_def field_at_def)
  have version: "merged_field P l r lf rf q = Some (v, w) \<Longrightarrow> version_of m q = w" for v w
    using merged_field_path [of q lf rf P l r] by (simp add: version_of_def parts(6) map_of_fold_versions)
  have "leaf_at obj (segments q) = (if nested_below l q \<or> nested_below r q then None else map_option fst (merged_field P l r lf rf q))"
    using merged_object_leaves [OF parts(3,4) wf parts(5)] below_nested [OF parts(1-4) wf] by simp
  moreover have "field_at m q = field_of m q (leaf_at obj (segments q))" by (simp add: field_at_def parts(6))
  ultimately show ?thesis
    using version unfolding f [symmetric] by (cases "merged_field P l r lf rf q"; cases "the (merged_field P l r lf rf q)") (simp_all add: field_of_def)
qed

text \<open>A merge of two replicas that pass the checks always succeeds.\<close>

lemma merge_succeeds:
  assumes "validateReplicaValue l True = None" "validateReplicaValue r True = None" "wf_json (rv_data l)" "wf_json (rv_data r)"
  shows "\<exists>m. mergeConfigurationConflict P l r = Inr m"
proof -
  obtain lp rp where data: "rv_data l = JObj lp" "rv_data r = JObj rp"
    using assms(1,2) by (auto simp: validateReplicaValue_def isPlainObject_def split: json.splits if_splits)
  then have "validateConfigurationObject (JObj lp) = None" "validateConfigurationObject (JObj rp) = None"
    using assms(1,2) by (auto simp: validateReplicaValue_def simp del: validateConfigurationObject.simps)
  then obtain lf rf where flat: "flatten P lp [] [] = Inr lf" "flatten P rp [] [] = Inr rf" using flatten_succeeds(1) by metis
  have wf: "wf_json (JObj lp)" "wf_json (JObj rp)" using assms(3,4) data by auto
  let ?fs = "map (\<lambda>q. (q, fst (the (merged_field P l r lf rf q)))) (union_paths lf rf)"
  have "\<forall>f\<in>set ?fs. list_all valid_key (segments (fst f))"
  proof -
    have "list_all valid_key (segments q)" if "q \<in> set (union_paths lf rf)" for q using merged_leaf [OF flat wf that, of l r] by blast
    then show ?thesis by (simp only: set_map ball_simps fst_conv) blast
  qed
  then obtain obj where "unflatten ?fs [] = Inr obj" using unflatten_succeeds by blast
  then show ?thesis
    using merge_fields_spec [OF union_paths_distinct, of lf rf "[]" lf rf P l r "[]"] assms(1,2) data flat
    by (simp add: mergeConfigurationConflict_def)
qed

section \<open>Both sides compute the same\<close>

inductive alike :: "platform \<Rightarrow> json \<Rightarrow> json \<Rightarrow> bool" for P where
  leaf: "is_leaf v \<Longrightarrow> is_leaf w \<Longrightarrow> v \<noteq> JUndefined \<Longrightarrow> w \<noteq> JUndefined \<Longrightarrow> canonicalJson P v = canonicalJson P w \<Longrightarrow> alike P v w"
| object: "list_all2 (\<lambda>p q. fst p = fst q \<and> alike P (snd p) (snd q)) ps qs \<Longrightarrow> alike P (JObj ps) (JObj qs)"

abbreviation alikes :: "platform \<Rightarrow> (string \<times> json) list \<Rightarrow> (string \<times> json) list \<Rightarrow> bool" where
  "alikes P \<equiv> list_all2 (\<lambda>p q. fst p = fst q \<and> alike P (snd p) (snd q))"

lemma alike_canonical: "alike P v w \<Longrightarrow> canonicalJson P v = canonicalJson P w \<and> (v = JUndefined \<longleftrightarrow> w = JUndefined)"
proof (induction rule: alike.induct)
  case (object ps qs)
  have "canonicalJson P (JObj ps) = canonicalJson P (JObj qs)"
    by (rule canonical_object_all2) (use object in \<open>auto elim: list_all2_mono\<close>)
  then show ?case by simp
qed auto

lemma alikes_lookup: "alikes P ps qs \<Longrightarrow> rel_option (alike P) (map_of ps k) (map_of qs k)"
  by (induction rule: list_all2_induct) auto

lemma alikes_keys: "alikes P ps qs \<Longrightarrow> map fst ps = map fst qs"
  by (induction rule: list_all2_induct) auto

lemma alikes_inner:
  assumes "alikes P ps qs"
  shows "alikes P (case map_of ps k of Some (JObj xs) \<Rightarrow> xs | _ \<Rightarrow> []) (case map_of qs k of Some (JObj xs) \<Rightarrow> xs | _ \<Rightarrow> [])"
  using alikes_lookup [OF assms, of k]
proof (cases rule: option.rel_cases)
  case (Some v w)
  then show ?thesis by (auto simp: is_leaf_def elim!: alike.cases split: json.splits list.splits)
qed simp

lemma update_alikes: "alikes P ps qs \<Longrightarrow> alike P v w \<Longrightarrow> alikes P (AList.update k v ps) (AList.update k w qs)"
  by (induction rule: list_all2_induct) auto

lemma new_property_alikes: "alikes P ps qs \<Longrightarrow> alike P v w \<Longrightarrow> alikes P (new_property (k, v) ps) (new_property (k, w) qs)"
  by (induction rule: list_all2_induct) auto

lemma set_property_alikes:
  assumes "alikes P ps qs" "alike P v w"
  shows "alikes P (set_property k v ps) (set_property k w qs)"
proof -
  have "fst ` set ps = fst ` set qs" using alikes_keys [OF assms(1)] by (metis set_map)
  then show ?thesis using assms update_alikes new_property_alikes by (simp add: set_property_def)
qed

lemma put_path_alikes: "alikes P ps qs \<Longrightarrow> alike P v w \<Longrightarrow> alikes P (put_path segs v ps) (put_path segs w qs)"
proof (induction segs v ps arbitrary: w qs rule: put_path.induct)
  case (3 segment t ss v cursor)
  then show ?case using alikes_inner [OF "3.prems"(1)] by (auto intro!: set_property_alikes alike.object)
qed (auto intro: set_property_alikes)

lemma unflatten_alikes:
  "alikes P fs gs \<Longrightarrow> alikes P a b \<Longrightarrow> unflatten fs a = Inr x \<Longrightarrow> unflatten gs b = Inr y \<Longrightarrow> alikes P x y"
proof (induction fs arbitrary: gs a b)
  case (Cons f fs)
  then obtain g gs' where g: "gs = g # gs'" "fst f = fst g" "alike P (snd f) (snd g)" "alikes P fs gs'"
    by (auto simp: list_all2_Cons1)
  then show ?case
    using Cons.IH [OF g(4) put_path_alikes [OF Cons.prems(2) g(3)]] Cons.prems(3,4)
    by (cases f; cases g) (auto split: option.splits)
qed auto

lemma safe_leaf: "leaf_at ps s = Some v \<Longrightarrow> assertJsonSafe (JObj ps) = None \<Longrightarrow> v \<noteq> JUndefined"
proof (induction s arbitrary: ps)
  case (Cons k ks)
  then obtain c where c: "map_of ps k = Some c" "child_leaf c ks = Some v" by (auto simp only: leaf_at_child split: option.splits)
  have "\<forall>p\<in>set ps. (if fst p \<in> set FORBIDDEN_CONFIGURATION_KEYS then Some (ForbiddenKey (fst p)) else assertJsonSafe (snd p)) = None"
    using Cons.prems(2) by (simp only: assertJsonSafe.simps first_error_None set_map ball_simps)
  then have "assertJsonSafe c = None" using map_of_SomeD [OF c(1)] by (auto split: if_splits)
  then show ?case
    using Cons.IH c(2) by (cases "is_leaf c") (auto simp: child_leaf_def simp del: assertJsonSafe.simps(8) split: if_splits json.splits)
qed simp

text \<open>The strings of a replica that the merge compares by the collation.\<close>

definition compared_texts :: "platform \<Rightarrow> replica_value \<Rightarrow> string list" where
  "compared_texts P rv = rv_origin rv
     # (case rv_fieldVersions rv of None \<Rightarrow> [] | Some vs \<Rightarrow> map (\<lambda>v. fv_origin (snd v)) vs)
     @ (case rv_data rv of
          JObj ps \<Rightarrow> (case flatten P ps [] [] of Inr flat \<Rightarrow> map (\<lambda>f. canonicalJson P (snd f)) flat | Inl _ \<Rightarrow> [])
        | v \<Rightarrow> [canonicalJson P v])"

lemma time_diff_flip: "time_diff a b = - time_diff b a"
  by (simp add: time_diff_def split: option.splits)

lemma sgn_js_or: "sgn (js_or a b) = js_or (sgn a) (sgn b)"
  by (simp add: js_or_def sgn_0_0)

lemma js_or_flip: "js_or (- a) (- b) = - js_or a b"
  by (simp add: js_or_def)

lemma comparison_flip:
  assumes "collation (localeCompare P)"
  shows "sgn (comparison P a b) = - sgn (comparison P b a)"
  unfolding comparison_def sgn_js_or js_or_flip [symmetric]
  using collation.flip [OF assms, of "fv_origin (snd a)"] collation.flip [OF assms, of "canonicalJson P (fst a)"]
    time_diff_flip [of "fv_timestamp (snd a)"] by simp

lemma comparison_tie: "comparison P a b = 0 \<Longrightarrow> time_diff (fv_timestamp (snd a)) (fv_timestamp (snd b)) = 0
    \<and> localeCompare P (fv_origin (snd a)) (fv_origin (snd b)) = 0 \<and> localeCompare P (canonicalJson P (fst a)) (canonicalJson P (fst b)) = 0"
  by (simp add: comparison_def js_or_def split: if_splits)

definition same_field :: "platform \<Rightarrow> json \<times> field_version \<Rightarrow> json \<times> field_version \<Rightarrow> bool" where
  "same_field P a b \<longleftrightarrow> snd a = snd b \<and> canonicalJson P (fst a) = canonicalJson P (fst b)"

definition comparable :: "string list \<Rightarrow> platform \<Rightarrow> json \<times> field_version \<Rightarrow> bool" where
  "comparable S P a \<longleftrightarrow> fv_timestamp (snd a) \<noteq> None \<and> fv_origin (snd a) \<in> set S \<and> canonicalJson P (fst a) \<in> set S"

lemma later_flip:
  assumes "collation (localeCompare P)" "separates (localeCompare P) S" "pred_option (comparable S P) a" "pred_option (comparable S P) b"
  shows "rel_option (same_field P) (later P a b) (later P b a)"
proof (cases "a = None \<or> b = None")
  case True
  then show ?thesis by (cases a; cases b) (auto simp: same_field_def)
next
  case False
  then obtain x y where xy: "a = Some x" "b = Some y" by auto
  have flip: "comparison P y x \<ge> 0 \<longleftrightarrow> comparison P x y \<le> 0" "comparison P x y \<ge> 0 \<longleftrightarrow> comparison P y x \<le> 0"
    using comparison_flip [OF assms(1), of x y] by (auto simp: sgn_if split: if_splits)
  show ?thesis
  proof (cases "comparison P x y = 0")
    case True
    have "fv_timestamp (snd x) = fv_timestamp (snd y)" "fv_origin (snd x) = fv_origin (snd y)" "canonicalJson P (fst x) = canonicalJson P (fst y)"
      using comparison_tie [OF True] assms(2-4) xy by (auto simp: comparable_def time_diff_def separates_def list_all_iff)
    then show ?thesis by (simp add: xy same_field_def)
  next
    case False
    then show ?thesis using flip by (auto simp: xy same_field_def)
  qed
qed

lemma valid_version:
  assumes "validateReplicaValue rv True = None"
  shows "fv_timestamp (version_of rv q) \<noteq> None"
proof (cases "case rv_fieldVersions rv of None \<Rightarrow> None | Some vs \<Rightarrow> map_of vs q")
  case None
  then show ?thesis using assms by (simp add: version_of_def validateReplicaValue_def assertValidDate_def split: if_splits)
next
  case (Some w)
  then obtain vs where vs: "rv_fieldVersions rv = Some vs" "(q, w) \<in> set vs" by (auto dest: map_of_SomeD split: option.splits)
  have "validateFieldVersions vs = None" using assms vs(1) by (simp add: validateReplicaValue_def)
  then have "assertValidDate (fv_timestamp w) q = None" using vs(2) by (auto simp: validateFieldVersions_def split: if_splits)
  then show ?thesis using Some by (simp add: version_of_def assertValidDate_def split: if_splits)
qed

lemma version_compared: "fv_origin (version_of rv q) \<in> set (compared_texts P rv)"
proof (cases "case rv_fieldVersions rv of None \<Rightarrow> None | Some vs \<Rightarrow> map_of vs q")
  case None
  then show ?thesis by (simp add: version_of_def compared_texts_def)
next
  case (Some w)
  then obtain vs where vs: "rv_fieldVersions rv = Some vs" "(q, w) \<in> set vs" by (auto dest: map_of_SomeD split: option.splits)
  then have "fv_origin w \<in> (\<lambda>v. fv_origin (snd v)) ` set vs" by (force intro: rev_image_eqI)
  then show ?thesis using Some vs(1) by (simp add: version_of_def compared_texts_def)
qed

lemma field_comparable:
  assumes "validateReplicaValue rv True = None" "rv_data rv = JObj ps" "flatten P ps [] [] = Inr flat" "set (compared_texts P rv) \<subseteq> set S"
  shows "pred_option (comparable S P) (field_of rv q (map_of flat q))"
proof (cases "map_of flat q")
  case (Some v)
  then have "canonicalJson P v \<in> set (compared_texts P rv)"
    using map_of_SomeD [OF Some] by (force simp: compared_texts_def assms(2,3))
  then show ?thesis
    using Some assms(4) valid_version [OF assms(1)] version_compared [of rv q P] by (auto simp: comparable_def field_of_def)
qed (simp add: field_of_def)

lemma union_paths_commute: "union_paths a b = union_paths b a"
  unfolding union_paths_def by (rule units_sort_unique) (auto simp: set_eq_iff_mset_eq_distinct [symmetric])

lemma merged_field_flip:
  assumes "collation (localeCompare P)" "separates (localeCompare P) (compared_texts P l @ compared_texts P r)"
    and "validateReplicaValue l True = None" "validateReplicaValue r True = None"
    and "rv_data l = JObj lp" "rv_data r = JObj rp" "flatten P lp [] [] = Inr lf" "flatten P rp [] [] = Inr rf"
  shows "rel_option (same_field P) (merged_field P l r lf rf q) (merged_field P r l rf lf q)"
  unfolding merged_field_def
  by (rule later_flip [OF assms(1,2)]) (use field_comparable [OF assms(3,5,7)] field_comparable [OF assms(4,6,8)] in simp_all)

lemma merged_fields_alike:
  assumes "flatten P lp [] [] = Inr lf" "flatten P rp [] [] = Inr rf" "wf_json (JObj lp)" "wf_json (JObj rp)"
    and "assertJsonSafe (JObj lp) = None" "assertJsonSafe (JObj rp) = None" "q \<in> set (union_paths lf rf)"
    and "rel_option (same_field P) (merged_field P l r lf rf q) (merged_field P r l rf lf q)"
  shows "alike P (fst (the (merged_field P l r lf rf q))) (fst (the (merged_field P r l rf lf q)))
    \<and> snd (the (merged_field P l r lf rf q)) = snd (the (merged_field P r l rf lf q))"
proof -
  obtain v w where vw: "merged_field P l r lf rf q = Some (v, w)" "leaf_at lp (segments q) = Some v \<or> leaf_at rp (segments q) = Some v" "is_leaf v"
    using merged_leaf [OF assms(1-4,7), of l r] by blast
  obtain v' w' where vw': "merged_field P r l rf lf q = Some (v', w')" "leaf_at rp (segments q) = Some v' \<or> leaf_at lp (segments q) = Some v'" "is_leaf v'"
    using merged_leaf [OF assms(2,1,4,3), of q r l] assms(7) union_paths_commute by metis
  have "v \<noteq> JUndefined" "v' \<noteq> JUndefined" using vw(2) vw'(2) safe_leaf [OF _ assms(5)] safe_leaf [OF _ assms(6)] by blast+
  then show ?thesis using assms(8) vw vw' by (auto simp: same_field_def intro: alike.leaf)
qed

lemma maxDate_commute: "maxDate a b = maxDate b a"
  by (simp add: maxDate_def max.commute split: option.splits)

lemma merged_replica_flip:
  "merged_replica P r l obj vs = (merged_replica P l r obj' vs) \<lparr> rv_data := JObj obj \<rparr>"
proof -
  have "js_sort compare_units [rv_origin r, rv_origin l] = js_sort compare_units [rv_origin l, rv_origin r]"
    by (rule units_sort_unique) simp
  then show ?thesis by (simp add: merged_replica_def maxDate_commute [of "rv_timestamp r"] split: option.splits)
qed

text \<open>C19: A configuration conflict is resolved the same way on both sides: if one side can merge, the other can, and the results
  have the same canonical text, time, origin and field versions, so the same checksum. The collation has to tell apart the
  origins and leaf texts that are compared.
\<close>

theorem merge_converges:
  assumes "mergeConfigurationConflict P l r = Inr m" "wf_json (rv_data l)" "wf_json (rv_data r)"
    and "collation (localeCompare P)" "separates (localeCompare P) (compared_texts P l @ compared_texts P r)"
  shows "\<exists>m'. mergeConfigurationConflict P r l = Inr m'
    \<and> (canonicalJson P (rv_data m'), rv_timestamp m', rv_origin m', rv_fieldVersions m')
      = (canonicalJson P (rv_data m), rv_timestamp m, rv_origin m, rv_fieldVersions m)"
proof -
  obtain lp rp lf rf obj where parts: "rv_data l = JObj lp" "rv_data r = JObj rp" "flatten P lp [] [] = Inr lf" "flatten P rp [] [] = Inr rf"
      "validateReplicaValue l True = None" "validateReplicaValue r True = None"
      "unflatten (map (\<lambda>q. (q, fst (the (merged_field P l r lf rf q)))) (union_paths lf rf)) [] = Inr obj"
      "m = merged_replica P l r obj (fold (\<lambda>q. set_property q (snd (the (merged_field P l r lf rf q)))) (union_paths lf rf) [])"
    by (rule merge_parts [OF assms(1)])
  obtain m' where m': "mergeConfigurationConflict P r l = Inr m'" using merge_succeeds [OF parts(6,5) assms(3,2)] by blast
  obtain lf' rf' obj' where parts': "flatten P lp [] [] = Inr lf'" "flatten P rp [] [] = Inr rf'"
      "unflatten (map (\<lambda>q. (q, fst (the (merged_field P r l rf' lf' q)))) (union_paths rf' lf')) [] = Inr obj'"
      "m' = merged_replica P r l obj' (fold (\<lambda>q. set_property q (snd (the (merged_field P r l rf' lf' q)))) (union_paths rf' lf') [])"
    by (rule merge_parts [OF m']) (use parts(1,2) in auto)
  have same: "lf' = lf" "rf' = rf" using parts(3,4) parts'(1,2) by auto
  let ?fs = "map (\<lambda>q. (q, fst (the (merged_field P l r lf rf q)))) (union_paths lf rf)"
  let ?gs = "map (\<lambda>q. (q, fst (the (merged_field P r l rf lf q)))) (union_paths lf rf)"
  have safe: "assertJsonSafe (JObj lp) = None" "assertJsonSafe (JObj rp) = None"
    using parts(1,2,5,6) by (auto simp: validateReplicaValue_def simp del: assertJsonSafe.simps)
  have wf: "wf_json (JObj lp)" "wf_json (JObj rp)" using assms(2,3) parts(1,2) by auto
  have eq: "alike P (fst (the (merged_field P l r lf rf q))) (fst (the (merged_field P r l rf lf q)))
      \<and> snd (the (merged_field P l r lf rf q)) = snd (the (merged_field P r l rf lf q))" if "q \<in> set (union_paths lf rf)" for q
    by (rule merged_fields_alike [OF parts(3,4) wf safe that merged_field_flip [OF assms(4,5) parts(5,6,1-4)]])
  have "alikes P ?fs ?gs" using eq by (simp add: list_all2_map1 list_all2_map2 list_all2_same del: union_paths_set)
  then have "alikes P obj obj'"
    using unflatten_alikes [of P ?fs ?gs "[]" "[]"] parts(7) parts'(3) same by (simp add: union_paths_commute [of rf lf])
  then have "canonicalJson P (JObj obj) = canonicalJson P (JObj obj')" using alike_canonical alike.object by blast
  moreover have "fold (\<lambda>q. set_property q (snd (the (merged_field P r l rf lf q)))) (union_paths lf rf) []
      = fold (\<lambda>q. set_property q (snd (the (merged_field P l r lf rf q)))) (union_paths lf rf) []"
    by (rule fold_cong) (use eq in auto)
  ultimately show ?thesis
    using m' parts(8) parts'(4) same
    by (simp add: union_paths_commute [of rf lf] merged_replica_flip [of P r l obj' _ obj] del: canonicalJson.simps)
qed

text \<open>Telemetry conflicts too have the same winner on both sides.\<close>

lemma telemetry_converges:
  assumes "resolveTelemetryConflict P l r = Inr w" "collation (localeCompare P)"
    and "separates (localeCompare P) [rv_origin l, rv_origin r, canonicalJson P (rv_data l), canonicalJson P (rv_data r)]"
  shows "\<exists>w'. resolveTelemetryConflict P r l = Inr w'
    \<and> (canonicalJson P (rv_data w'), rv_timestamp w', rv_origin w') = (canonicalJson P (rv_data w), rv_timestamp w, rv_origin w)"
proof -
  let ?a = "(rv_data l, \<lparr> fv_timestamp = rv_timestamp l, fv_origin = rv_origin l \<rparr>)"
  let ?b = "(rv_data r, \<lparr> fv_timestamp = rv_timestamp r, fv_origin = rv_origin r \<rparr>)"
  have valid: "validateReplicaValue l False = None" "validateReplicaValue r False = None"
    using assms(1) by (auto simp: resolveTelemetryConflict_def split: option.splits)
  then have "rv_timestamp l \<noteq> None" "rv_timestamp r \<noteq> None" by (auto simp: validateReplicaValue_def assertValidDate_def split: if_splits)
  then have "rel_option (same_field P) (later P (Some ?a) (Some ?b)) (later P (Some ?b) (Some ?a))"
    by (intro later_flip [OF assms(2,3)]) (simp_all add: comparable_def)
  then show ?thesis
    using assms(1) valid by (auto simp: resolveTelemetryConflict_def comparison_def same_field_def Let_def split: if_splits)
qed

section \<open>The merge is a valid configuration\<close>

definition value_ok :: "json \<Rightarrow> bool" where
  "value_ok v \<longleftrightarrow> assertJsonSafe v = None \<and> validateConfigurationObject v = None \<and> wf_json v"

lemma value_ok_object: "value_ok (JObj ps) \<longleftrightarrow> distinct (map fst ps) \<and> (\<forall>p\<in>set ps. valid_key (fst p) \<and> value_ok (snd p))"
proof -
  have "assertJsonSafe (JObj ps) = None \<longleftrightarrow> (\<forall>p\<in>set ps. fst p \<notin> set FORBIDDEN_CONFIGURATION_KEYS \<and> assertJsonSafe (snd p) = None)"
    by (simp only: assertJsonSafe.simps first_error_None set_map ball_simps) (auto split: if_splits)
  moreover have "validateConfigurationObject (JObj ps) = None \<longleftrightarrow> (\<forall>p\<in>set ps. valid_key (fst p) \<and> validateConfigurationObject (snd p) = None)"
    by (simp only: validateConfigurationObject.simps first_error_None set_map ball_simps) (auto simp: valid_key_def)
  moreover have "valid_key k \<Longrightarrow> k \<notin> set FORBIDDEN_CONFIGURATION_KEYS" for k
    by (auto simp: valid_key_def validateConfigurationKey_def split: if_splits)
  ultimately show ?thesis unfolding value_ok_def by (simp add: list_all_iff del: assertJsonSafe.simps validateConfigurationObject.simps) blast
qed

lemma set_new_property: "set (new_property p ps) = insert p (set ps)"
  by (induction ps) auto

lemma set_property_subset: "set (set_property k v ps) \<subseteq> insert (k, v) (set ps)"
proof -
  have "set (AList.update k v ps) \<subseteq> insert (k, v) (set ps)" by (induction ps) auto
  then show ?thesis by (simp add: set_property_def set_new_property)
qed

lemma distinct_set_property: "distinct (map fst ps) \<Longrightarrow> distinct (map fst (set_property k v ps))"
proof -
  have "fst p \<notin> fst ` set ps \<Longrightarrow> distinct (map fst ps) \<Longrightarrow> distinct (map fst (new_property p ps))" for p
    by (induction ps) (auto simp: set_new_property)
  then show "distinct (map fst ps) \<Longrightarrow> ?thesis" by (simp add: set_property_def AList.distinct_update)
qed

lemma set_property_ok: "value_ok (JObj ps) \<Longrightarrow> valid_key k \<Longrightarrow> value_ok v \<Longrightarrow> value_ok (JObj (set_property k v ps))"
  unfolding value_ok_object using set_property_subset [of k v ps] distinct_set_property [of ps k v] by (auto dest!: subsetD)

lemma put_path_ok: "value_ok (JObj ps) \<Longrightarrow> list_all valid_key segs \<Longrightarrow> value_ok v \<Longrightarrow> value_ok (JObj (put_path segs v ps))"
proof (induction segs v ps rule: put_path.induct)
  case (3 segment t ss v cursor)
  have "value_ok c" if "map_of cursor segment = Some c" for c
    using "3.prems"(1) map_of_SomeD [OF that] by (auto simp: value_ok_object)
  moreover have "value_ok (JObj [])" by (simp add: value_ok_object)
  ultimately have "value_ok (JObj (case map_of cursor segment of Some (JObj ps) \<Rightarrow> ps | _ \<Rightarrow> []))"
    by (simp split: option.split json.split)
  then show ?case using 3 by (simp add: set_property_ok)
qed (simp_all add: set_property_ok)

lemma unflatten_ok:
  "unflatten fs obj = Inr obj' \<Longrightarrow> value_ok (JObj obj) \<Longrightarrow> \<forall>f\<in>set fs. value_ok (snd f) \<Longrightarrow> value_ok (JObj obj')"
proof (induction fs arbitrary: obj)
  case (Cons f fs)
  obtain p v where f: "f = (p, v)" by fastforce
  have "first_error (map validateConfigurationKey (segments p)) = None" using Cons.prems(1) f by (auto split: option.splits)
  then have "list_all valid_key (segments p)" by (auto simp: list_all_iff valid_key_def)
  then have "value_ok (JObj (put_path (segments p) v obj))" using Cons.prems(2,3) f by (simp add: put_path_ok)
  then show ?case using Cons f by (auto split: option.splits)
qed simp

lemma leaf_ok: "leaf_at ps s = Some v \<Longrightarrow> value_ok (JObj ps) \<Longrightarrow> value_ok v"
proof (induction s arbitrary: ps)
  case (Cons k ks)
  then obtain c where c: "map_of ps k = Some c" "child_leaf c ks = Some v" by (auto simp only: leaf_at_child split: option.splits)
  have "value_ok c" using Cons.prems(2) map_of_SomeD [OF c(1)] by (auto simp: value_ok_object)
  then show ?case using Cons.IH c(2) by (cases "is_leaf c") (auto simp: child_leaf_def split: if_splits json.splits)
qed simp

definition version_ok :: "field_version \<Rightarrow> bool" where
  "version_ok v \<longleftrightarrow> fv_timestamp v \<noteq> None \<and> \<not> blank (fv_origin v)"

lemma valid_versions:
  "validateFieldVersions vs = None \<longleftrightarrow> (\<forall>(q, v)\<in>set vs. list_all valid_key (segments q) \<and> version_ok v)"
proof -
  have "q \<noteq> []" if "list_all valid_key (segments q)" for q
    using that by (auto simp: valid_key_def validateConfigurationKey_def)
  then show ?thesis
    unfolding validateFieldVersions_def
    by (fastforce simp: assertValidDate_def version_ok_def list_all_iff valid_key_def split: if_splits)
qed

lemma replica_valid:
  "validateReplicaValue rv True = None \<longleftrightarrow> rv_timestamp rv \<noteq> None \<and> \<not> blank (rv_origin rv) \<and> assertJsonSafe (rv_data rv) = None
     \<and> isPlainObject (rv_data rv) \<and> validateConfigurationObject (rv_data rv) = None
     \<and> (\<forall>vs. rv_fieldVersions rv = Some vs \<longrightarrow> validateFieldVersions vs = None)"
  by (auto simp: validateReplicaValue_def assertValidDate_def split: if_splits option.splits)

lemma version_of_ok: "validateReplicaValue rv True = None \<Longrightarrow> version_ok (version_of rv q)"
  by (auto simp: replica_valid valid_versions version_of_def version_ok_def split: option.splits dest!: map_of_SomeD)

lemma fold_versions_subset: "set (fold (\<lambda>q. set_property q (g q)) qs vs) \<subseteq> (\<lambda>q. (q, g q)) ` set qs \<union> set vs"
proof (induction qs arbitrary: vs)
  case (Cons q qs)
  then show ?case using set_property_subset [of q "g q" vs] by (fastforce dest!: subsetD)
qed simp

lemma merge_valid:
  assumes "mergeConfigurationConflict P l r = Inr m" "wf_json (rv_data l)" "wf_json (rv_data r)"
  shows "validateReplicaValue m True = None \<and> wf_json (rv_data m)"
proof -
  obtain lp rp lf rf obj where parts: "rv_data l = JObj lp" "rv_data r = JObj rp" "flatten P lp [] [] = Inr lf" "flatten P rp [] [] = Inr rf"
      "validateReplicaValue l True = None" "validateReplicaValue r True = None"
      "unflatten (map (\<lambda>q. (q, fst (the (merged_field P l r lf rf q)))) (union_paths lf rf)) [] = Inr obj"
      "m = merged_replica P l r obj (fold (\<lambda>q. set_property q (snd (the (merged_field P l r lf rf q)))) (union_paths lf rf) [])"
    by (rule merge_parts [OF assms(1)])
  let ?g = "\<lambda>q. snd (the (merged_field P l r lf rf q))"
  let ?vs = "fold (\<lambda>q. set_property q (?g q)) (union_paths lf rf) []"
  have wf: "wf_json (JObj lp)" "wf_json (JObj rp)" using assms(2,3) parts(1,2) by auto
  have ok: "value_ok (JObj lp)" "value_ok (JObj rp)"
    using parts(1,2,5,6) wf by (simp_all add: value_ok_def replica_valid del: assertJsonSafe.simps validateConfigurationObject.simps wf_json.simps)
  have field: "value_ok (fst (the (merged_field P l r lf rf q))) \<and> version_ok (?g q) \<and> list_all valid_key (segments q)"
    if q: "q \<in> set (union_paths lf rf)" for q
  proof -
    obtain v w where vw: "merged_field P l r lf rf q = Some (v, w)" "leaf_at lp (segments q) = Some v \<or> leaf_at rp (segments q) = Some v"
      "list_all valid_key (segments q)" using merged_leaf [OF parts(3,4) wf q, of l r] by blast
    then show ?thesis
      using merged_field_cases [OF vw(1)] leaf_ok [OF _ ok(1)] leaf_ok [OF _ ok(2)] version_of_ok parts(5,6) by auto
  qed
  have obj: "value_ok (JObj obj)"
  proof (rule unflatten_ok [OF parts(7)])
    show "\<forall>f\<in>set (map (\<lambda>q. (q, fst (the (merged_field P l r lf rf q)))) (union_paths lf rf)). value_ok (snd f)"
      using field by (simp only: set_map ball_simps snd_conv) blast
  qed (simp add: value_ok_object)
  have vs: "\<forall>(q, v)\<in>set ?vs. list_all valid_key (segments q) \<and> version_ok v"
  proof -
    have "set ?vs \<subseteq> (\<lambda>q. (q, ?g q)) ` set (union_paths lf rf)" using fold_versions_subset [of ?g "union_paths lf rf" "[]"] by simp
    then show ?thesis using field by blast
  qed
  have latest: "version_ok w" if "latest_version P ?vs = Some w" for w
  proof -
    have "w \<in> snd ` set ?vs"
      using that by (auto simp: latest_version_def dest: arg_cong [where f = set] split: list.splits)
    then show ?thesis using vs by auto
  qed
  have tie: "rv_timestamp m \<noteq> None \<and> \<not> blank (rv_origin m)"
  proof (cases "latest_version P ?vs")
    case None
    have "last (js_sort compare_units [rv_origin l, rv_origin r]) \<in> {rv_origin l, rv_origin r}" by (simp add: js_sort_def)
    then show ?thesis using None parts(5,6,8) by (auto simp: merged_replica_def replica_valid maxDate_def)
  next
    case (Some w)
    then show ?thesis using latest parts(8) by (simp add: merged_replica_def version_ok_def)
  qed
  have "rv_data m = JObj obj" "rv_fieldVersions m = Some ?vs" using parts(8) by simp_all
  then show ?thesis
    using obj vs tie by (simp add: replica_valid valid_versions value_ok_def isPlainObject_def del: assertJsonSafe.simps validateConfigurationObject.simps wf_json.simps)
qed

section \<open>Witnesses\<close>

definition sample_platform :: platform where
  "sample_platform = \<lparr> localeCompare = compare_units, number_text = (\<lambda>x. ''1''), toISOString = (\<lambda>t. ''1970-01-01T00:00:00.000Z''), sha256 = (\<lambda>b. b) \<rparr>"

definition edge_settings :: replica_value where
  "edge_settings = \<lparr> rv_data = JObj [(''mode'', JStr ''auto''), (''limits'', JObj [(''high'', JBool True)])], rv_timestamp = Some 3, rv_origin = ''edge'',
     rv_fieldVersions = Some [(''mode'', \<lparr> fv_timestamp = Some 9, fv_origin = ''edge'' \<rparr>)] \<rparr>"

definition cloud_settings :: replica_value where
  "cloud_settings = \<lparr> rv_data = JObj [(''limits'', JObj [(''high'', JBool False)]), (''mode'', JStr ''manual'')], rv_timestamp = Some 5, rv_origin = ''cloud'',
     rv_fieldVersions = None \<rparr>"

lemma sample_valid:
  "validateReplicaValue edge_settings True = None" "validateReplicaValue cloud_settings True = None"
  "wf_json (rv_data edge_settings)" "wf_json (rv_data cloud_settings)"
  by code_simp+

lemma sample_collation: "collation (localeCompare sample_platform)"
  by (simp add: sample_platform_def units.collation_axioms)

lemma units_separate: "separates compare_units S"
  by (simp add: separates_def list_all_iff compare_units_eq)

lemma sample_not_nested: "\<not> nested_below edge_settings ''mode''" "\<not> nested_below cloud_settings ''mode''"
  by (auto simp: nested_below_def field_at_def field_of_def edge_settings_def cloud_settings_def strict_prefix_def prefix_def neq_Nil_conv)

theorem canonical_ignores_property_order_witness:
  "canonicalJson sample_platform (JArr [JObj [(''b'', JNull), (''a'', JBool True)]]) = canonicalJson sample_platform (JArr [JObj [(''a'', JBool True), (''b'', JNull)]])"
proof (rule canonical_ignores_property_order)
  show "reordered (JArr [JObj [(''b'', JNull), (''a'', JBool True)]]) (JArr [JObj [(''a'', JBool True), (''b'', JNull)]])"
    by (auto intro!: reordered.arrays reordered.objects [of "[(''b'', JNull), (''a'', JBool True)]"] reordered.same)
qed (simp_all add: sample_collation sample_platform_def units_separate units.collation_axioms)

theorem merge_last_writer_wins_witness:
  "\<exists>m. mergeConfigurationConflict sample_platform edge_settings cloud_settings = Inr m
    \<and> field_at m ''mode'' = Some (JStr ''auto'', \<lparr> fv_timestamp = Some 9, fv_origin = ''edge'' \<rparr>)"
proof -
  obtain m where m: "mergeConfigurationConflict sample_platform edge_settings cloud_settings = Inr m"
    using merge_succeeds [OF sample_valid] by blast
  have "later sample_platform (field_at edge_settings ''mode'') (field_at cloud_settings ''mode'')
      = Some (JStr ''auto'', \<lparr> fv_timestamp = Some 9, fv_origin = ''edge'' \<rparr>)"
    by code_simp
  then show ?thesis using m merge_last_writer_wins [OF m sample_valid(3,4), of "''mode''"] sample_not_nested by auto
qed

theorem merge_converges_witness:
  "\<exists>m m'. mergeConfigurationConflict sample_platform edge_settings cloud_settings = Inr m
    \<and> mergeConfigurationConflict sample_platform cloud_settings edge_settings = Inr m'
    \<and> canonicalJson sample_platform (rv_data m') = canonicalJson sample_platform (rv_data m)"
proof -
  obtain m where m: "mergeConfigurationConflict sample_platform edge_settings cloud_settings = Inr m"
    using merge_succeeds [OF sample_valid] by blast
  have "separates (localeCompare sample_platform) S" for S by (simp add: sample_platform_def units_separate)
  then show ?thesis using m merge_converges [OF m sample_valid(3,4) sample_collation] by blast
qed

text \<open>
  A setting that was replaced by a plain value at time 9 comes back: the nested field of time 1 wins over it.
\<close>

definition newer_leaf :: replica_value where
  "newer_leaf = \<lparr> rv_data = JObj [(''limits'', JNull)], rv_timestamp = Some 9, rv_origin = ''edge'', rv_fieldVersions = None \<rparr>"

definition older_nested :: replica_value where
  "older_nested = \<lparr> rv_data = JObj [(''limits'', JObj [(''high'', JBool True)])], rv_timestamp = Some 1, rv_origin = ''cloud'', rv_fieldVersions = None \<rparr>"

lemma older_nested_field_wins:
  "map_sum id rv_data (mergeConfigurationConflict sample_platform newer_leaf older_nested) = Inr (JObj [(''limits'', JObj [(''high'', JBool True)])])"
  by code_simp

end
