(* ===== verification/Edge_Queue.thy ===== *)
theory Edge_Queue
  imports Edge_Merge
begin

text \<open>
  The store-and-forward service of the edge gateway (\<open>server/gateway/store-and-forward.ts\<close>): records are kept in a durable queue
  until the upstream acknowledges them. \<open>store\<close> and \<open>synchronizeNow\<close> run one at a time behind the promise chain of
  \<open>serialized\<close>; every \<open>await\<close> is a point where other callbacks run, so the machine \<open>edge_step\<close> goes from await to await. The
  events carry what the outside answers: whether a save succeeds, what the transport returns, whether a reporter fails, the
  clock and the new identifiers. A save that fails may or may not have replaced the stored queue. A crash loses everything
  but the stored queue.

  \<open>waiting\<close> is the chain of \<open>serialized\<close>, \<open>running\<close> the await of the operation that holds it, \<open>tails\<close> the continuations
  that follow an operation outside it, \<open>closing\<close> a pending \<open>shutdown\<close>. Calls of \<open>initialize\<close> and \<open>shutdown\<close> are assumed not to overlap.
  Emitted events and logging are left out; of the two queues in the file the machine uses \<open>MemoryEdgeQueue\<close>'s behaviour.
\<close>

section \<open>Records\<close>

datatype record_kind = Telemetry | Configuration | OtherKind string

record stored_record =
  sr_id :: string
  sr_timestamp :: int
  sr_data :: json
  sr_attempts :: nat
  sr_driverId :: "string option"
  sr_kind :: record_kind
  sr_origin :: string
  sr_fieldVersions :: "field_versions option"
  sr_checksum :: string

definition kind_text :: "record_kind \<Rightarrow> string" where
  "kind_text k = (case k of Telemetry \<Rightarrow> ''telemetry'' | Configuration \<Rightarrow> ''configuration'' | OtherKind s \<Rightarrow> s)"

definition version_json :: "field_version \<Rightarrow> json" where
  "version_json v = JObj [(''timestamp'', case fv_timestamp v of Some t \<Rightarrow> JDate t | None \<Rightarrow> JUndefined), (''origin'', JStr (fv_origin v))]"

definition integrityPayload :: "stored_record \<Rightarrow> json" where
  "integrityPayload r = JObj [(''id'', JStr (sr_id r)), (''timestamp'', JDate (sr_timestamp r)), (''data'', sr_data r),
     (''attempts'', JNum (num_of_int (int (sr_attempts r)))), (''driverId'', case sr_driverId r of Some d \<Rightarrow> JStr d | None \<Rightarrow> JUndefined),
     (''kind'', JStr (kind_text (sr_kind r))), (''origin'', JStr (sr_origin r)),
     (''fieldVersions'', case sr_fieldVersions r of Some vs \<Rightarrow> JObj (map (\<lambda>(p, v). (p, version_json v)) vs) | None \<Rightarrow> JUndefined)]"

definition recordChecksum :: "platform \<Rightarrow> stored_record \<Rightarrow> string" where
  "recordChecksum P r = sha256Hex P (utf8 (canonicalJson P (integrityPayload r)))"

definition sealed :: "platform \<Rightarrow> stored_record \<Rightarrow> stored_record" where
  "sealed P r = r \<lparr> sr_checksum := recordChecksum P r \<rparr>"

definition checksum_text :: "string \<Rightarrow> bool" where
  "checksum_text s \<longleftrightarrow> length s = 64 \<and> list_all (\<lambda>c. let n = (of_char c :: nat) in 48 \<le> n \<and> n \<le> 57 \<or> 97 \<le> n \<and> n \<le> 102 \<or> 65 \<le> n \<and> n \<le> 70) s"

definition validateStoredRecord :: "stored_record \<Rightarrow> edge_error option" where
  "validateStoredRecord r =
     first_error [if blank (sr_id r) then Some EmptyRecordId else None,
       if sr_attempts r < 2 ^ 53 then None else Some (InvalidAttempts (sr_id r)),
       if sr_kind r = Telemetry \<or> sr_kind r = Configuration then None else Some (InvalidKind (sr_id r)),
       if blank (sr_origin r) then Some (InvalidOrigin (sr_id r)) else None,
       if checksum_text (sr_checksum r) then None else Some (InvalidChecksum (sr_id r)),
       assertJsonSafe (sr_data r),
       if sr_kind r = Configuration
       then first_error [if isPlainObject (sr_data r) then None else Some ConfigurationNotObject, validateConfigurationObject (sr_data r)]
       else None,
       case sr_fieldVersions r of None \<Rightarrow> None | Some vs \<Rightarrow> validateFieldVersions vs]"

definition assertRecordIntegrity :: "platform \<Rightarrow> stored_record \<Rightarrow> edge_error option" where
  "assertRecordIntegrity P r =
     first_error [validateStoredRecord r, if sr_checksum r = recordChecksum P r then None else Some (QueueIntegrityError (sr_id r))]"

definition replica_of :: "stored_record \<Rightarrow> replica_value" where
  "replica_of r = \<lparr> rv_data = sr_data r, rv_timestamp = Some (sr_timestamp r), rv_origin = sr_origin r, rv_fieldVersions = sr_fieldVersions r \<rparr>"

section \<open>Configuration\<close>

record edge_config =
  maxLocalStorage :: nat
  forwardBatchSize :: nat
  heartbeatInterval :: nat
  retryInterval :: nat
  maxRetryInterval :: nat
  storagePath :: string

definition validateConfig :: "edge_config \<Rightarrow> bool" where
  "validateConfig c \<longleftrightarrow> 1 \<le> maxLocalStorage c \<and> 1 \<le> forwardBatchSize c \<and> 1 \<le> heartbeatInterval c \<and> 1 \<le> retryInterval c
     \<and> 1 \<le> maxRetryInterval c \<and> retryInterval c \<le> maxRetryInterval c \<and> storagePath c \<noteq> []"

section \<open>State\<close>

record store_request =
  rq_data :: json
  rq_driverId :: "string option"
  rq_kind :: "record_kind option"
  rq_origin :: "string option"
  rq_timestamp :: "date option"
  rq_fieldVersions :: "field_versions option"

datatype caller = ByStore | ByCycle | ByClient

datatype edge_work = StoreWork store_request | SyncWork caller

record forward_result =
  acknowledgedIds :: "string list"
  verifiedMerkleRoot :: string
  conflicts :: "(string \<times> replica_value) list"

text \<open>What \<open>synchronizeNow\<close> holds of a batch after the transport answered.\<close>

record batch_context =
  x_batch :: "string list"
  x_generation :: nat
  x_todo :: "(string \<times> replica_value) list"
  x_conflicts :: "string list"
  x_acknowledged :: "string list"

datatype edge_await =
    SavingNew stored_record "stored_record list"
  | Processing
  | Forwarding caller "stored_record list" nat
  | ReportingMismatch caller "string list" nat
  | SavingFailed caller edge_error "stored_record list"
  | ReportingConflict caller batch_context nat "(stored_record \<times> replica_value) option" string
  | SavingBatch caller batch_context "stored_record list"

datatype edge_tail = StoreTail | SyncTail caller "edge_error option"

datatype edge_closing = Draining nat | SavingClose "stored_record list"

record edge_service =
  localStore :: "(string \<times> stored_record) list"
  isConnected :: bool
  edge_timer :: "nat option"
  lastSuccessfulForward :: "int option"
  lastError :: "edge_error option"
  lastStorageError :: "edge_error option"
  consecutiveFailures :: nat
  nextRetryAt :: "int option"
  divergenceCount :: nat
  initialized :: bool
  stopped :: bool
  waiting :: "edge_work list"
  running :: "edge_await option"
  tails :: "edge_tail list"
  probes :: nat                     \<comment> \<open>pending \<open>isReachable\<close> calls\<close>
  closing :: "edge_closing option"
  generation :: nat                 \<comment> \<open>how often \<open>localStore\<close> was cleared\<close>
  durable :: "stored_record list"   \<comment> \<open>the stored queue\<close>
  issued :: "string list"           \<comment> \<open>identifiers used so far\<close>
  accepted :: "string list"         \<comment> \<open>records whose \<open>store\<close> call succeeds\<close>
  answers :: "(stored_record list \<times> forward_result) list"   \<comment> \<open>batches sent, with the answer of the transport\<close>
  overrules :: "(stored_record \<times> replica_value) list"  \<comment> \<open>records dropped in favour of a remote value\<close>

definition fresh_service :: edge_service where
  "fresh_service = \<lparr> localStore = [], isConnected = False, edge_timer = None, lastSuccessfulForward = None, lastError = None, lastStorageError = None,
     consecutiveFailures = 0, nextRetryAt = None, divergenceCount = 0, initialized = False, stopped = True, waiting = [], running = None,
     tails = [], probes = 0, closing = None, generation = 0, durable = [], issued = [], accepted = [], answers = [], overrules = [] \<rparr>"

text \<open>A new process over a queue of earlier records.\<close>

definition boot :: "stored_record list \<Rightarrow> edge_service" where
  "boot ds = fresh_service \<lparr> durable := ds, issued := map sr_id ds, accepted := map sr_id ds \<rparr>"

section \<open>Connectivity\<close>

definition recordConnectionFailure :: "edge_error \<Rightarrow> edge_service \<Rightarrow> edge_service" where
  "recordConnectionFailure e s = s \<lparr> isConnected := False, consecutiveFailures := consecutiveFailures s + 1, lastError := Some e \<rparr>"

definition currentBackoffMs :: "edge_config \<Rightarrow> edge_service \<Rightarrow> nat" where
  "currentBackoffMs cfg s = min (maxRetryInterval cfg) (retryInterval cfg * 2 ^ min (consecutiveFailures s - 1) 30)"

definition schedule_retry :: "int \<Rightarrow> nat \<Rightarrow> edge_service \<Rightarrow> edge_service" where
  "schedule_retry now delay s =
     (if stopped s then s
      else s \<lparr> nextRetryAt := (if isConnected s then None else Some (now + int delay)), edge_timer := Some delay \<rparr>)"

definition backoff :: "edge_config \<Rightarrow> int \<Rightarrow> edge_service \<Rightarrow> edge_service" where
  "backoff cfg now s = schedule_retry now (currentBackoffMs cfg s) s"

text \<open>\<open>synchronizeNow\<close> up to the chain: it throws, returns at once or waits for its turn.\<close>

definition enter_sync :: "caller \<Rightarrow> edge_service \<Rightarrow> edge_service" where
  "enter_sync c s =
     (if \<not> initialized s then s \<lparr> tails := tails s @ [SyncTail c (Some NotInitialized)] \<rparr>
      else if \<not> isConnected s then s \<lparr> tails := tails s @ [SyncTail c None] \<rparr>
      else s \<lparr> waiting := waiting s @ [SyncWork c] \<rparr>)"

definition start_cycle :: "edge_service \<Rightarrow> edge_service" where
  "start_cycle s = (if stopped s then s else s \<lparr> edge_timer := None, probes := probes s + 1 \<rparr>)"

definition cycle_probed :: "edge_config \<Rightarrow> int \<Rightarrow> edge_error + bool \<Rightarrow> edge_service \<Rightarrow> edge_service" where
  "cycle_probed cfg now reachable s =
     (if probes s = 0 then s
      else let s = s \<lparr> probes := probes s - 1 \<rparr> in
        case reachable of
          Inl e \<Rightarrow> backoff cfg now (recordConnectionFailure e s)
        | Inr up \<Rightarrow>
            if stopped s then s
            else if \<not> up then backoff cfg now (recordConnectionFailure UpstreamUnreachable s)
            else enter_sync ByCycle (s \<lparr> isConnected := True, consecutiveFailures := 0, lastError := None \<rparr>))"

definition run_tail :: "edge_config \<Rightarrow> int \<Rightarrow> edge_tail \<Rightarrow> edge_service \<Rightarrow> edge_service" where
  "run_tail cfg now t s =
     (case t of
        StoreTail \<Rightarrow> if isConnected s then enter_sync ByStore s else s
      | SyncTail ByClient e \<Rightarrow> s
      | SyncTail c (Some e) \<Rightarrow> backoff cfg now (recordConnectionFailure e s)
      | SyncTail ByStore None \<Rightarrow> if isConnected s then s else backoff cfg now s
      | SyncTail ByCycle None \<Rightarrow> if isConnected s then schedule_retry now (heartbeatInterval cfg) s else backoff cfg now s)"

section \<open>The serialized operations\<close>

text \<open>The end of an operation: its place in the chain is free, its continuation is pending.\<close>

definition release_lock :: "edge_tail list \<Rightarrow> edge_service \<Rightarrow> edge_service" where
  "release_lock ts s = s \<lparr> running := None, tails := tails s @ ts,
     closing := (case closing s of Some (Draining n) \<Rightarrow> Some (Draining (n - 1)) | c \<Rightarrow> c) \<rparr>"

definition sync_returns :: "caller \<Rightarrow> edge_service \<Rightarrow> edge_service" where
  "sync_returns c s = release_lock [SyncTail c None] s"

definition sync_throws :: "caller \<Rightarrow> edge_error \<Rightarrow> edge_service \<Rightarrow> edge_service" where
  "sync_throws c e s = release_lock [SyncTail c (Some e)] s"

abbreviation snapshot :: "edge_service \<Rightarrow> stored_record list" where
  "snapshot s \<equiv> map snd (localStore s)"

definition check_request :: "edge_config \<Rightarrow> store_request \<Rightarrow> date \<Rightarrow> record_kind \<Rightarrow> string \<Rightarrow> edge_service \<Rightarrow> edge_error option" where
  "check_request cfg q timestamp kind origin s =
     first_error [if stopped s then Some ShuttingDown else None,
       if length (localStore s) \<ge> maxLocalStorage cfg then Some (QueueCapacityError (maxLocalStorage cfg)) else None,
       assertValidDate timestamp ''record timestamp'',
       if kind = Telemetry \<or> kind = Configuration then None else Some (UnsupportedKind (kind_text kind)),
       if blank origin then Some EmptyOrigin else None,
       assertJsonSafe (rq_data q),
       if kind = Configuration
       then first_error [if isPlainObject (rq_data q) then None else Some ConfigurationNotObject, validateConfigurationObject (rq_data q)]
       else None,
       case rq_fieldVersions q of None \<Rightarrow> None | Some vs \<Rightarrow> validateFieldVersions vs]"

definition store_begin :: "platform \<Rightarrow> edge_config \<Rightarrow> int \<Rightarrow> string \<Rightarrow> store_request \<Rightarrow> edge_service \<Rightarrow> edge_service" where
  "store_begin P cfg now newId q s =
     (let timestamp = (case rq_timestamp q of Some t \<Rightarrow> t | None \<Rightarrow> Some now);
          kind = (case rq_kind q of Some k \<Rightarrow> k | None \<Rightarrow> Telemetry);
          origin = (case rq_origin q of Some x \<Rightarrow> x | None \<Rightarrow> (case rq_driverId q of Some d \<Rightarrow> d | None \<Rightarrow> ''edge''))
      in case (check_request cfg q timestamp kind origin s, timestamp) of
           (None, Some t) \<Rightarrow>
             (let r = sealed P \<lparr> sr_id = newId, sr_timestamp = t, sr_data = rq_data q, sr_attempts = 0, sr_driverId = rq_driverId q,
                    sr_kind = kind, sr_origin = origin, sr_fieldVersions = rq_fieldVersions q, sr_checksum = [] \<rparr>;
                  s = s \<lparr> localStore := AList.update newId r (localStore s), issued := newId # issued s \<rparr>
              in s \<lparr> running := Some (SavingNew r (snapshot s)) \<rparr>)
         | _ \<Rightarrow> release_lock [] s)"

definition sync_loop :: "edge_config \<Rightarrow> caller \<Rightarrow> edge_service \<Rightarrow> edge_service" where
  "sync_loop cfg c s =
     (if localStore s \<noteq> [] \<and> isConnected s
      then s \<lparr> running := Some (Forwarding c (take (forwardBatchSize cfg) (snapshot s)) (generation s)) \<rparr>
      else sync_returns c s)"

text \<open>\<open>record.attempts += 1\<close> and the new checksum, for records of a batch that are still those of the map.\<close>

definition bump :: "platform \<Rightarrow> nat \<Rightarrow> string list \<Rightarrow> edge_service \<Rightarrow> edge_service" where
  "bump P gen ids s =
     (if generation s = gen
      then s \<lparr> localStore := map (\<lambda>(k, r). (k, if k \<in> set ids then sealed P (r \<lparr> sr_attempts := sr_attempts r + 1 \<rparr>) else r)) (localStore s) \<rparr>
      else s)"

definition fail_batch :: "platform \<Rightarrow> caller \<Rightarrow> edge_error \<Rightarrow> nat \<Rightarrow> string list \<Rightarrow> edge_service \<Rightarrow> edge_service" where
  "fail_batch P c e gen ids s =
     (let s = bump P gen ids s in s \<lparr> running := Some (SavingFailed c e (snapshot s)) \<rparr>)"

definition settle_batch :: "platform \<Rightarrow> caller \<Rightarrow> batch_context \<Rightarrow> edge_service \<Rightarrow> edge_service" where
  "settle_batch P c x s =
     (let s = s \<lparr> localStore := filter (\<lambda>(k, r). k \<notin> set (x_acknowledged x)) (localStore s) \<rparr>;
          unresolved = filter (\<lambda>i. i \<in> fst ` set (localStore s) \<and> i \<notin> set (x_conflicts x)) (x_batch x);
          s = bump P (x_generation x) unresolved s
      in s \<lparr> running := Some (SavingBatch c x (snapshot s)) \<rparr>)"

definition remote_wins :: "platform \<Rightarrow> stored_record \<Rightarrow> replica_value \<Rightarrow> edge_error + bool" where
  "remote_wins P local remote =
     (case resolveTelemetryConflict P (replica_of local) remote of
        Inl e \<Rightarrow> Inl e
      | Inr winner \<Rightarrow> Inr (\<not> (rv_origin winner = sr_origin local \<and> rv_timestamp winner = Some (sr_timestamp local)
          \<and> canonicalJson P (rv_data winner) = canonicalJson P (sr_data local))))"

definition merged_record :: "platform \<Rightarrow> stored_record \<Rightarrow> replica_value \<Rightarrow> stored_record" where
  "merged_record P local m =
     sealed P (local \<lparr> sr_data := rv_data m, sr_fieldVersions := rv_fieldVersions m,
       sr_timestamp := (case rv_timestamp m of Some t \<Rightarrow> t | None \<Rightarrow> sr_timestamp local), sr_origin := rv_origin m,
       sr_attempts := sr_attempts local + 1 \<rparr>)"

text \<open>\<open>reconcileConflict\<close> up to the report of the divergence, then the loop over the remaining conflicts.\<close>

definition reconcile_next :: "platform \<Rightarrow> caller \<Rightarrow> batch_context \<Rightarrow> edge_service \<Rightarrow> edge_service" where
  "reconcile_next P c x s =
     (case x_todo x of
        [] \<Rightarrow> settle_batch P c x s
      | (i, remote) # todo \<Rightarrow>
          if i \<notin> set (x_batch x) then sync_throws c (UnknownConflict i) s
          else (case map_of (localStore s) i of
            None \<Rightarrow> sync_throws c UndefinedRecord s
          | Some local \<Rightarrow>
              (let x = x \<lparr> x_todo := todo \<rparr>; s' = s \<lparr> divergenceCount := divergenceCount s + 1 \<rparr> in
               if sr_kind local = Telemetry
               then (case remote_wins P local remote of
                       Inl e \<Rightarrow> sync_throws c e s
                     | Inr wins \<Rightarrow> s' \<lparr> running := Some (ReportingConflict c x (generation s) (Some (local, remote)) (if wins then ''remote-wins'' else ''local-wins'')) \<rparr>)
               else (case mergeConfigurationConflict P (replica_of local) remote of
                       Inl e \<Rightarrow> sync_throws c e s
                     | Inr m \<Rightarrow> s' \<lparr> localStore := AList.update i (merged_record P local m) (localStore s),
                         running := Some (ReportingConflict c x (generation s) None ''merged'') \<rparr>))))"

definition forward_returned :: "platform \<Rightarrow> caller \<Rightarrow> stored_record list \<Rightarrow> nat \<Rightarrow> edge_error + forward_result \<Rightarrow> edge_service \<Rightarrow> edge_service" where
  "forward_returned P c batch gen answer s =
     (case answer of
        Inl e \<Rightarrow> fail_batch P c e gen (map sr_id batch) s
      | Inr result \<Rightarrow>
          (let s = s \<lparr> answers := (batch, result) # answers s \<rparr>;
               cs = fold (\<lambda>(i, remote). AList.update i remote) (conflicts result) []
           in if verifiedMerkleRoot result \<noteq> merkleRoot P (map integrityPayload batch)
              then s \<lparr> divergenceCount := divergenceCount s + 1, running := Some (ReportingMismatch c (map sr_id batch) gen) \<rparr>
              else (case find (\<lambda>i. i \<notin> sr_id ` set batch) (acknowledgedIds result) of
                Some i \<Rightarrow> sync_throws c (UnknownAcknowledgement i) s
              | None \<Rightarrow> reconcile_next P c \<lparr> x_batch = map sr_id batch, x_generation = gen, x_todo = cs, x_conflicts = map fst cs,
                  x_acknowledged = remdups (filter (\<lambda>i. i \<notin> fst ` set cs) (acknowledgedIds result)) \<rparr> s)))"

definition conflict_reported :: "platform \<Rightarrow> caller \<Rightarrow> batch_context \<Rightarrow> nat \<Rightarrow> (stored_record \<times> replica_value) option \<Rightarrow> string \<Rightarrow> edge_service \<Rightarrow> edge_service" where
  "conflict_reported P c x gen telemetry resolution s =
     reconcile_next P c x
       (case telemetry of
          None \<Rightarrow> s
        | Some (local, remote) \<Rightarrow>
            if resolution = ''remote-wins''
            then s \<lparr> overrules := (local, remote) # overrules s, localStore := filter (\<lambda>(k, r). k \<noteq> sr_id local) (localStore s) \<rparr>
            else bump P gen [sr_id local] s)"

definition batch_saved :: "edge_config \<Rightarrow> int \<Rightarrow> caller \<Rightarrow> batch_context \<Rightarrow> edge_service \<Rightarrow> edge_service" where
  "batch_saved cfg now c x s =
     (let s = (if x_acknowledged x \<noteq> [] then s \<lparr> lastSuccessfulForward := Some now \<rparr> else s)
      in if x_acknowledged x = [] \<and> x_conflicts x = [] then sync_returns c (recordConnectionFailure NoProgress s)
         else if x_conflicts x \<noteq> [] then sync_returns c s
         else sync_loop cfg c s)"

text \<open>The outcome of \<open>queue.save\<close>; a failed save may have taken effect.\<close>

datatype save_outcome = Saved | SaveFailed edge_error bool

definition persisted :: "save_outcome \<Rightarrow> stored_record list \<Rightarrow> edge_service \<Rightarrow> edge_service" where
  "persisted out snap s =
     (case out of
        Saved \<Rightarrow> s \<lparr> durable := snap, lastStorageError := None \<rparr>
      | SaveFailed e written \<Rightarrow> s \<lparr> durable := (if written then snap else durable s), lastStorageError := Some e \<rparr>)"

definition save_returned :: "platform \<Rightarrow> edge_config \<Rightarrow> int \<Rightarrow> save_outcome \<Rightarrow> edge_service \<Rightarrow> edge_service" where
  "save_returned P cfg now out s =
     (case running s of
        Some (SavingNew r snap) \<Rightarrow>
          (case out of
             Saved \<Rightarrow> (persisted out snap s) \<lparr> running := Some Processing, accepted := sr_id r # accepted s \<rparr>
           | SaveFailed e w \<Rightarrow>
               (let s = persisted out snap s
                in release_lock [] (s \<lparr> localStore := filter (\<lambda>(k, _). k \<noteq> sr_id r) (localStore s) \<rparr>)))
      | Some (SavingFailed c e snap) \<Rightarrow>
          (case out of
             Saved \<Rightarrow> sync_returns c (recordConnectionFailure e (persisted out snap s))
           | SaveFailed e' w \<Rightarrow> sync_throws c e' (persisted out snap s))
      | Some (SavingBatch c x snap) \<Rightarrow>
          (case out of
             Saved \<Rightarrow> batch_saved cfg now c x (persisted out snap s)
           | SaveFailed e' w \<Rightarrow> sync_throws c e' (persisted out snap s))
      | _ \<Rightarrow> s)"

definition report_returned :: "platform \<Rightarrow> edge_error option \<Rightarrow> edge_service \<Rightarrow> edge_service" where
  "report_returned P rejected s =
     (case running s of
        Some (ReportingMismatch c ids gen) \<Rightarrow>
          (case rejected of Some e \<Rightarrow> sync_throws c e s | None \<Rightarrow> fail_batch P c RootMismatch gen ids s)
      | Some (ReportingConflict c x gen telemetry resolution) \<Rightarrow>
          (case rejected of Some e \<Rightarrow> sync_throws c e s | None \<Rightarrow> conflict_reported P c x gen telemetry resolution s)
      | _ \<Rightarrow> s)"

definition grant :: "platform \<Rightarrow> edge_config \<Rightarrow> int \<Rightarrow> string \<Rightarrow> edge_service \<Rightarrow> edge_service" where
  "grant P cfg now newId s =
     (case (running s, waiting s) of
        (None, w # ws) \<Rightarrow>
          (let s = s \<lparr> waiting := ws \<rparr> in
           case w of StoreWork q \<Rightarrow> store_begin P cfg now newId q s | SyncWork c \<Rightarrow> sync_loop cfg c s)
      | _ \<Rightarrow> s)"

section \<open>Start, stop and the machine\<close>

fun load_checks :: "platform \<Rightarrow> string list \<Rightarrow> stored_record list \<Rightarrow> edge_error option" where
  "load_checks P seen [] = None"
| "load_checks P seen (r # rs) = (if sr_id r \<in> set seen then Some (DuplicateRecord (sr_id r)) else load_checks P (sr_id r # seen) rs)"

definition initialize :: "platform \<Rightarrow> edge_error option \<Rightarrow> edge_service \<Rightarrow> edge_error option \<times> edge_service" where
  "initialize P load_error s =
     (if initialized s then (None, s)
      else case first_error [load_error, first_error (map (\<lambda>r. first_error [validateStoredRecord r, assertRecordIntegrity P r]) (durable s)),
                    load_checks P [] (durable s)] of
        Some e \<Rightarrow> (Some e, s)
      | None \<Rightarrow> (None, start_cycle (s \<lparr> localStore := map (\<lambda>r. (sr_id r, r)) (durable s), initialized := True, stopped := False \<rparr>)))"

definition shutdown_begin :: "edge_service \<Rightarrow> edge_service" where
  "shutdown_begin s =
     (if closing s \<noteq> None then s
      else s \<lparr> stopped := True, edge_timer := None,
        closing := Some (Draining (length (waiting s) + (if running s = None then 0 else 1))) \<rparr>)"

definition shutdown_end :: "edge_service \<Rightarrow> edge_service" where
  "shutdown_end s = s \<lparr> closing := None, nextRetryAt := None, isConnected := False, initialized := False, localStore := [], generation := generation s + 1 \<rparr>"

definition shutdown_drained :: "edge_service \<Rightarrow> edge_service" where
  "shutdown_drained s =
     (case closing s of
        Some (Draining 0) \<Rightarrow> if initialized s then s \<lparr> closing := Some (SavingClose (snapshot s)) \<rparr> else shutdown_end s
      | _ \<Rightarrow> s)"

definition shutdown_saved :: "save_outcome \<Rightarrow> edge_service \<Rightarrow> edge_service" where
  "shutdown_saved out s =
     (case closing s of
        Some (SavingClose snap) \<Rightarrow>
          (case out of Saved \<Rightarrow> shutdown_end (persisted out snap s) | SaveFailed e w \<Rightarrow> (persisted out snap s) \<lparr> closing := None \<rparr>)
      | _ \<Rightarrow> s)"

definition crash :: "edge_service \<Rightarrow> edge_service" where
  "crash s = fresh_service \<lparr> durable := durable s, issued := issued s, accepted := accepted s, answers := answers s, overrules := overrules s \<rparr>"

datatype edge_event =
    Initialize "edge_error option"
  | Store store_request
  | Synchronize
  | Cycle
  | Probed int "edge_error + bool"
  | Grant int string
  | Save_Returned int save_outcome
  | Processed
  | Forward_Returned "edge_error + forward_result"
  | Report_Returned "edge_error option"
  | Tail int nat
  | Shutdown
  | Drained
  | Shutdown_Saved save_outcome
  | Crash

definition edge_step :: "platform \<Rightarrow> edge_config \<Rightarrow> edge_event \<Rightarrow> edge_service \<Rightarrow> edge_service" where
  "edge_step P cfg ev s =
     (case ev of
        Initialize e \<Rightarrow> snd (initialize P e s)
      | Store q \<Rightarrow> if initialized s then s \<lparr> waiting := waiting s @ [StoreWork q] \<rparr> else s
      | Synchronize \<Rightarrow> enter_sync ByClient s
      | Cycle \<Rightarrow> start_cycle s
      | Probed now reachable \<Rightarrow> cycle_probed cfg now reachable s
      | Grant now newId \<Rightarrow> grant P cfg now newId s
      | Save_Returned now out \<Rightarrow> save_returned P cfg now out s
      | Processed \<Rightarrow> if running s = Some Processing then release_lock [StoreTail] s else s
      | Forward_Returned answer \<Rightarrow> (case running s of Some (Forwarding c batch gen) \<Rightarrow> forward_returned P c batch gen answer s | _ \<Rightarrow> s)
      | Report_Returned e \<Rightarrow> report_returned P e s
      | Tail now n \<Rightarrow> if n < length (tails s) then run_tail cfg now (tails s ! n) (s \<lparr> tails := take n (tails s) @ drop (Suc n) (tails s) \<rparr>) else s
      | Shutdown \<Rightarrow> shutdown_begin s
      | Drained \<Rightarrow> shutdown_drained s
      | Shutdown_Saved out \<Rightarrow> shutdown_saved out s
      | Crash \<Rightarrow> crash s)"

section \<open>No accepted record is lost\<close>

text \<open>
  A record may leave the queue for two reasons: the transport answered a batch that contains it with the right Merkle root and
  acknowledged it, or a conflict was resolved in favour of the remote value.
\<close>

definition acked :: "platform \<Rightarrow> (stored_record list \<times> forward_result) list \<Rightarrow> string \<Rightarrow> bool" where
  "acked P as i \<longleftrightarrow> (\<exists>(batch, result)\<in>set as. verifiedMerkleRoot result = merkleRoot P (map integrityPayload batch)
     \<and> i \<in> sr_id ` set batch \<and> i \<in> set (acknowledgedIds result))"

definition overruled :: "platform \<Rightarrow> (stored_record \<times> replica_value) list \<Rightarrow> string \<Rightarrow> bool" where
  "overruled P os i \<longleftrightarrow> (\<exists>(r, remote)\<in>set os. sr_id r = i \<and> remote_wins P r remote = Inr True)"

definition safe_ids :: "platform \<Rightarrow> edge_service \<Rightarrow> string set \<Rightarrow> bool" where
  "safe_ids P s ids \<longleftrightarrow> (\<forall>i\<in>set (accepted s). i \<in> ids \<or> acked P (answers s) i \<or> overruled P (overrules s) i)"

definition save_ok :: "platform \<Rightarrow> edge_service \<Rightarrow> stored_record list \<Rightarrow> bool" where
  "save_ok P s snap \<longleftrightarrow> safe_ids P s (sr_id ` set snap) \<and> sr_id ` set snap \<subseteq> set (issued s)"

definition await_ok :: "platform \<Rightarrow> edge_service \<Rightarrow> edge_await \<Rightarrow> bool" where
  "await_ok P s a = (case a of
     SavingNew r snap \<Rightarrow> save_ok P s snap \<and> r \<in> set snap \<and> sr_id r \<notin> set (accepted s) \<and> sr_id r \<in> fst ` set (localStore s)
       \<and> (case closing s of None \<Rightarrow> True | Some (Draining n) \<Rightarrow> 0 < n | Some (SavingClose _) \<Rightarrow> False)
   | SavingFailed c e snap \<Rightarrow> save_ok P s snap
   | SavingBatch c x snap \<Rightarrow> save_ok P s snap
   | ReportingConflict c x gen tel res \<Rightarrow> (\<forall>i\<in>set (x_acknowledged x). acked P (answers s) i)
       \<and> (\<forall>l r. tel = Some (l, r) \<and> res = ''remote-wins'' \<longrightarrow> remote_wins P l r = Inr True)
   | _ \<Rightarrow> True)"

definition base_inv :: "platform \<Rightarrow> edge_service \<Rightarrow> bool" where
  "base_inv P s \<longleftrightarrow>
     set (accepted s) \<subseteq> set (issued s) \<and> fst ` set (localStore s) \<subseteq> set (issued s) \<and> save_ok P s (durable s)
     \<and> (initialized s \<longrightarrow> safe_ids P s (fst ` set (localStore s)))
     \<and> (\<forall>(k, r)\<in>set (localStore s). sr_id r = k)
     \<and> (closing s \<noteq> None \<longrightarrow> stopped s \<and> initialized s)
     \<and> (running s \<noteq> None \<or> waiting s \<noteq> [] \<longrightarrow> initialized s)
     \<and> (\<forall>snap. closing s = Some (SavingClose snap) \<longrightarrow> save_ok P s snap)"

definition edge_inv :: "platform \<Rightarrow> edge_service \<Rightarrow> bool" where
  "edge_inv P s \<longleftrightarrow> base_inv P s \<and> (\<forall>a. running s = Some a \<longrightarrow> await_ok P s a)"

text \<open>
  What the environment owes: identifiers are new and not blank, a shutdown is asked of an initialized service, and no
  operation is in flight when its last save returns.
\<close>

definition allowed :: "edge_event \<Rightarrow> edge_service \<Rightarrow> bool" where
  "allowed ev s = (case ev of
     Grant now i \<Rightarrow> i \<notin> set (issued s) \<and> \<not> blank i
   | Shutdown \<Rightarrow> initialized s
   | Shutdown_Saved out \<Rightarrow> running s = None \<and> waiting s = []
   | _ \<Rightarrow> True)"

fun orderly :: "platform \<Rightarrow> edge_config \<Rightarrow> edge_event list \<Rightarrow> edge_service \<Rightarrow> bool" where
  "orderly P cfg [] s = True"
| "orderly P cfg (ev # evs) s = (allowed ev s \<and> orderly P cfg evs (edge_step P cfg ev s))"

lemma acked_Cons: "acked P as i \<Longrightarrow> acked P (a # as) i"
  by (auto simp: acked_def)

lemma overruled_Cons: "overruled P as i \<Longrightarrow> overruled P (a # as) i"
  by (auto simp: overruled_def)

lemma base_inv_idle: "base_inv P s \<Longrightarrow> edge_inv P (release_lock ts s)"
  by (auto simp: edge_inv_def base_inv_def release_lock_def save_ok_def safe_ids_def split: option.splits edge_closing.splits)

lemmas sync_ends = base_inv_idle [of P s "[SyncTail c None]" for P s c, folded sync_returns_def]
  base_inv_idle [of P s "[SyncTail c (Some e)]" for P s c e, folded sync_throws_def]

lemma snapshot_ids: "base_inv P s \<Longrightarrow> sr_id ` set (snapshot s) = fst ` set (localStore s)"
proof -
  assume "base_inv P s"
  then have "sr_id (snd p) = fst p" if "p \<in> set (localStore s)" for p using that by (auto simp: base_inv_def)
  then show ?thesis by (simp add: image_image cong: image_cong)
qed

lemma snapshot_ok: "base_inv P s \<Longrightarrow> initialized s \<Longrightarrow> save_ok P s (snapshot s)"
  unfolding save_ok_def by (simp only: snapshot_ids) (simp add: base_inv_def)

lemma base_inv_connection [simp]:
  "base_inv P (s \<lparr> isConnected := a \<rparr>) = base_inv P s" "base_inv P (s \<lparr> consecutiveFailures := n \<rparr>) = base_inv P s"
  "base_inv P (s \<lparr> lastError := e \<rparr>) = base_inv P s" "base_inv P (s \<lparr> lastStorageError := e \<rparr>) = base_inv P s"
  "base_inv P (s \<lparr> nextRetryAt := t \<rparr>) = base_inv P s" "base_inv P (s \<lparr> edge_timer := d \<rparr>) = base_inv P s"
  "base_inv P (s \<lparr> divergenceCount := n \<rparr>) = base_inv P s" "base_inv P (s \<lparr> lastSuccessfulForward := t \<rparr>) = base_inv P s"
  "base_inv P (s \<lparr> probes := n \<rparr>) = base_inv P s" "base_inv P (s \<lparr> tails := ts \<rparr>) = base_inv P s"
  by (simp_all add: base_inv_def save_ok_def safe_ids_def)

lemma await_ok_connection [simp]:
  "await_ok P (s \<lparr> isConnected := a \<rparr>) = await_ok P s" "await_ok P (s \<lparr> consecutiveFailures := n \<rparr>) = await_ok P s"
  "await_ok P (s \<lparr> lastError := e \<rparr>) = await_ok P s" "await_ok P (s \<lparr> nextRetryAt := t \<rparr>) = await_ok P s"
  "await_ok P (s \<lparr> edge_timer := d \<rparr>) = await_ok P s" "await_ok P (s \<lparr> probes := n \<rparr>) = await_ok P s"
  "await_ok P (s \<lparr> tails := ts \<rparr>) = await_ok P s" "await_ok P (s \<lparr> waiting := ws \<rparr>) = await_ok P s"
  by (simp_all add: fun_eq_iff await_ok_def save_ok_def safe_ids_def split: edge_await.splits)

lemma edge_inv_connection [simp]:
  "edge_inv P (recordConnectionFailure e s) = edge_inv P s" "edge_inv P (schedule_retry now d s) = edge_inv P s"
  "edge_inv P (backoff cfg now s) = edge_inv P s" "edge_inv P (start_cycle s) = edge_inv P s"
  "edge_inv P (s \<lparr> tails := ts \<rparr>) = edge_inv P s" "edge_inv P (s \<lparr> probes := n \<rparr>) = edge_inv P s"
  "edge_inv P (s \<lparr> isConnected := a, consecutiveFailures := m, lastError := x \<rparr>) = edge_inv P s"
  by (simp_all add: edge_inv_def recordConnectionFailure_def schedule_retry_def backoff_def start_cycle_def)

lemma edge_inv_waiting: "edge_inv P s \<Longrightarrow> initialized s \<Longrightarrow> edge_inv P (s \<lparr> waiting := ws \<rparr>)"
  by (simp add: edge_inv_def base_inv_def save_ok_def safe_ids_def)

lemma enter_sync_inv: "edge_inv P s \<Longrightarrow> edge_inv P (enter_sync c s)"
  by (simp add: enter_sync_def edge_inv_waiting)

lemma cycle_probed_inv: "edge_inv P s \<Longrightarrow> edge_inv P (cycle_probed cfg now up s)"
  by (simp add: cycle_probed_def Let_def enter_sync_inv split: sum.split)

lemma run_tail_inv: "edge_inv P s \<Longrightarrow> edge_inv P (run_tail cfg now t s)"
  by (simp add: run_tail_def enter_sync_inv split: edge_tail.split caller.split option.split)

lemma sr_id_sealed [simp]: "sr_id (sealed P r) = sr_id r"
  by (simp add: sealed_def)

lemma base_inv_store:
  assumes "base_inv P s" "fst ` set L \<subseteq> fst ` set (localStore s)" "\<forall>(k, r)\<in>set L. sr_id r = k"
    and "\<forall>i\<in>fst ` set (localStore s) - fst ` set L. i \<in> set (accepted s) \<longrightarrow> acked P (answers s) i \<or> overruled P (overrules s) i"
  shows "base_inv P (s \<lparr> localStore := L \<rparr>)"
proof -
  have "safe_ids P s (fst ` set L)" if "initialized s"
  proof -
    have safe: "safe_ids P s (fst ` set (localStore s))" using assms(1) that by (simp add: base_inv_def)
    show ?thesis
      unfolding safe_ids_def
    proof
      fix i assume i: "i \<in> set (accepted s)"
      have "i \<in> fst ` set (localStore s) \<or> acked P (answers s) i \<or> overruled P (overrules s) i"
        using safe i unfolding safe_ids_def by (rule bspec)
      then show "i \<in> fst ` set L \<or> acked P (answers s) i \<or> overruled P (overrules s) i"
        using assms(4) i by blast
    qed
  qed
  moreover have "fst ` set L \<subseteq> set (issued s)" 
    using assms(1) by (intro order_trans [OF assms(2)]) (simp add: base_inv_def)
  moreover have "save_ok P (s \<lparr> localStore := L \<rparr>) = save_ok P s" "safe_ids P (s \<lparr> localStore := L \<rparr>) = safe_ids P s"
    by (simp_all add: fun_eq_iff save_ok_def safe_ids_def)
  ultimately show ?thesis using assms(1,3) by (simp add: base_inv_def)
qed

lemma edge_inv_running:
  assumes "base_inv P s" "initialized s" "await_ok P s a"
  shows "edge_inv P (s \<lparr> running := Some a \<rparr>)"
proof -
  have "await_ok P (s \<lparr> running := Some a \<rparr>) a = await_ok P s a"
    by (simp add: await_ok_def save_ok_def safe_ids_def split: edge_await.splits)
  then show ?thesis using assms by (simp add: edge_inv_def base_inv_def save_ok_def safe_ids_def)
qed

definition bumped :: "platform \<Rightarrow> string list \<Rightarrow> (string \<times> stored_record) list \<Rightarrow> (string \<times> stored_record) list" where
  "bumped P ids L = map (\<lambda>(k, r). (k, if k \<in> set ids then sealed P (r \<lparr> sr_attempts := sr_attempts r + 1 \<rparr>) else r)) L"

lemma fst_bumped [simp]: "map fst (bumped P ids L) = map fst L"
  by (simp add: bumped_def comp_def case_prod_beta)

lemma bump_alt: "bump P gen ids s = (if generation s = gen then s \<lparr> localStore := bumped P ids (localStore s) \<rparr> else s)"
  by (simp add: bump_def bumped_def)

lemma bumped_ids: "\<forall>(k, r)\<in>set L. sr_id r = k \<Longrightarrow> \<forall>(k, r)\<in>set (bumped P ids L). sr_id r = k"
  by (auto simp: bumped_def)

lemma bump_inv: "base_inv P s \<Longrightarrow> base_inv P (bump P gen ids s)"
proof -
  assume inv: "base_inv P s"
  have "fst ` set (bumped P ids (localStore s)) = fst ` set (localStore s)" using fst_bumped by (metis set_map)
  then show ?thesis
    using base_inv_store [OF inv, of "bumped P ids (localStore s)"] bumped_ids [of "localStore s"] inv by (simp add: bump_alt base_inv_def)
qed

lemma bump_fields [simp]:
  "initialized (bump P gen ids s) = initialized s" "answers (bump P gen ids s) = answers s" "generation (bump P gen ids s) = generation s"
  "map fst (localStore (bump P gen ids s)) = map fst (localStore s)"
  by (simp_all add: bump_alt)

lemma sync_loop_inv: "base_inv P s \<Longrightarrow> initialized s \<Longrightarrow> edge_inv P (sync_loop cfg c s)"
  by (auto simp: sync_loop_def await_ok_def intro!: sync_ends edge_inv_running)

lemma fail_batch_inv: "base_inv P s \<Longrightarrow> initialized s \<Longrightarrow> edge_inv P (fail_batch P c e gen ids s)"
  by (auto simp: fail_batch_def Let_def await_ok_def intro!: edge_inv_running bump_inv snapshot_ok)

lemma settle_batch_inv:
  assumes "base_inv P s" "initialized s" "\<forall>i\<in>set (x_acknowledged x). acked P (answers s) i"
  shows "edge_inv P (settle_batch P c x s)"
proof -
  have "base_inv P (s \<lparr> localStore := filter (\<lambda>(k, r). k \<notin> set (x_acknowledged x)) (localStore s) \<rparr>)"
    by (rule base_inv_store [OF assms(1)]) (use assms(1,3) in \<open>auto simp: base_inv_def\<close>)
  then show ?thesis
    using assms(2) by (auto simp: settle_batch_def Let_def await_ok_def intro!: edge_inv_running bump_inv snapshot_ok)
qed

lemma map_of_id: "base_inv P s \<Longrightarrow> map_of (localStore s) i = Some r \<Longrightarrow> sr_id r = i"
  by (auto simp: base_inv_def dest: map_of_SomeD)

lemma sr_id_merged [simp]: "sr_id (merged_record P l m) = sr_id l"
  by (simp add: merged_record_def)

lemma set_update: "set (AList.update k v L) \<subseteq> insert (k, v) (set L)"
  by (induction L) auto

lemma base_inv_divergence [simp]: "base_inv P (s \<lparr> divergenceCount := n, localStore := L \<rparr>) = base_inv P (s \<lparr> localStore := L \<rparr>)"
  by (simp add: base_inv_def save_ok_def safe_ids_def)

lemma reconcile_inv:
  assumes "base_inv P s" "initialized s" "\<forall>i\<in>set (x_acknowledged x). acked P (answers s) i"
  shows "edge_inv P (reconcile_next P c x s)"
proof (cases "x_todo x")
  case Nil
  then show ?thesis using settle_batch_inv [OF assms] by (simp add: reconcile_next_def)
next
  case (Cons ir todo)
  obtain i remote where ir: "ir = (i, remote)" by fastforce
  show ?thesis
  proof (cases "i \<in> set (x_batch x) \<and> map_of (localStore s) i \<noteq> None")
    case False
    then show ?thesis using assms(1) Cons ir by (auto simp: reconcile_next_def intro: sync_ends)
  next
    case True
    then obtain l where l: "map_of (localStore s) i = Some l" by auto
    let ?L = "\<lambda>m. AList.update i (merged_record P l m) (localStore s)"
    have "fst ` set (?L m) = fst ` set (localStore s)" for m
      using l by (simp add: AList.dom_update insert_absorb mem_keys)
    moreover have "\<forall>(k, r)\<in>set (?L m). sr_id r = k" for m
    proof -
      have "\<forall>(k, r)\<in>insert (i, merged_record P l m) (set (localStore s)). sr_id r = k"
        using map_of_id [OF assms(1) l] assms(1) by (simp add: base_inv_def)
      then show ?thesis using set_update [of i "merged_record P l m" "localStore s"] by blast
    qed
    ultimately have "base_inv P (s \<lparr> localStore := ?L m \<rparr>)" for m
      by (intro base_inv_store [OF assms(1)]) simp_all
    then show ?thesis
      using True assms Cons ir l
      by (auto simp: reconcile_next_def Let_def await_ok_def intro!: edge_inv_running sync_ends split: sum.splits)
  qed
qed

lemma safe_ids_answer: "safe_ids P s ids \<Longrightarrow> safe_ids P (s \<lparr> answers := a # answers s \<rparr>) ids"
  by (auto simp: safe_ids_def dest: acked_Cons)

lemma base_inv_answer: "base_inv P s \<Longrightarrow> base_inv P (s \<lparr> answers := a # answers s \<rparr>)"
  by (simp add: base_inv_def save_ok_def safe_ids_answer)

lemma forward_returned_inv:
  assumes "base_inv P s" "initialized s"
  shows "edge_inv P (forward_returned P c batch gen answer s)"
proof (cases answer)
  case (Inl e)
  then show ?thesis using fail_batch_inv [OF assms] by (simp add: forward_returned_def)
next
  case (Inr result)
  let ?s = "s \<lparr> answers := (batch, result) # answers s \<rparr>"
  let ?cs = "fold (\<lambda>(i, remote). AList.update i remote) (conflicts result) []"
  have base: "base_inv P ?s" "initialized ?s" using base_inv_answer [OF assms(1)] assms(2) by simp_all
  show ?thesis
  proof (cases "verifiedMerkleRoot result = merkleRoot P (map integrityPayload batch) \<and> find (\<lambda>i. i \<notin> sr_id ` set batch) (acknowledgedIds result) = None")
    case True
    then have "acked P (answers ?s) i" if "i \<in> set (acknowledgedIds result)" for i
      using that by (auto simp: acked_def find_None_iff)
    then show ?thesis using Inr True base by (auto simp: forward_returned_def Let_def intro!: reconcile_inv)
  next
    case False
    have "base_inv P (?s \<lparr> divergenceCount := n \<rparr>)" for n using base(1) by (simp only: base_inv_connection)
    then have "edge_inv P (?s \<lparr> divergenceCount := n, running := Some (ReportingMismatch c ids g) \<rparr>)" for n ids g
      using base(2) by (intro edge_inv_running) (simp_all add: await_ok_def)
    then show ?thesis
      using Inr False base sync_ends(2) [OF base(1)]
      by (cases "verifiedMerkleRoot result = merkleRoot P (map integrityPayload batch)") (auto simp: forward_returned_def Let_def)
  qed
qed

lemma safe_ids_overrule: "safe_ids P s ids \<Longrightarrow> safe_ids P (s \<lparr> overrules := a # overrules s \<rparr>) ids"
  by (auto simp: safe_ids_def dest: overruled_Cons)

lemma base_inv_overrule: "base_inv P s \<Longrightarrow> base_inv P (s \<lparr> overrules := a # overrules s \<rparr>)"
  by (simp add: base_inv_def save_ok_def safe_ids_overrule)

lemma conflict_reported_inv:
  assumes "base_inv P s" "initialized s" "await_ok P s (ReportingConflict c x gen tel res)"
  shows "edge_inv P (conflict_reported P c x gen tel res s)"
proof -
  have acks: "\<forall>i\<in>set (x_acknowledged x). acked P (answers s) i" using assms(3) by (simp add: await_ok_def)
  have "base_inv P (s \<lparr> overrules := (l, r) # overrules s, localStore := filter (\<lambda>(k, r). k \<noteq> sr_id l) (localStore s) \<rparr>)"
    if "tel = Some (l, r)" "res = ''remote-wins''" for l r
  proof -
    have "overruled P ((l, r) # overrules s) (sr_id l)" using assms(3) that by (simp add: await_ok_def) (simp add: overruled_def)
    then show ?thesis using assms(1) by (intro base_inv_store [OF base_inv_overrule]) (auto simp: base_inv_def)
  qed
  then show ?thesis
    using assms(1,2) acks by (auto simp: conflict_reported_def intro!: reconcile_inv bump_inv split: option.splits)
qed

lemma report_returned_inv: "edge_inv P s \<Longrightarrow> edge_inv P (report_returned P e s)"
proof -
  assume inv: "edge_inv P s"
  then have "base_inv P s" "running s \<noteq> None \<Longrightarrow> initialized s" "\<And>a. running s = Some a \<Longrightarrow> await_ok P s a"
    by (simp_all add: edge_inv_def base_inv_def)
  then show ?thesis
    using inv by (auto simp: report_returned_def intro!: sync_ends fail_batch_inv conflict_reported_inv split: option.splits edge_await.splits)
qed

lemma persisted_inv:
  assumes "base_inv P s" "save_ok P s snap"
  shows "base_inv P (persisted out snap s)"
  using assms by (simp add: persisted_def base_inv_def save_ok_def safe_ids_def split: save_outcome.split)

lemma persisted_fields [simp]:
  "localStore (persisted out snap s) = localStore s" "initialized (persisted out snap s) = initialized s" "accepted (persisted out snap s) = accepted s"
  "issued (persisted out snap s) = issued s" "closing (persisted out snap s) = closing s" "answers (persisted out snap s) = answers s"
  "overrules (persisted out snap s) = overrules s" "stopped (persisted out snap s) = stopped s" "running (persisted out snap s) = running s"
  "waiting (persisted out snap s) = waiting s" "durable (persisted Saved snap s) = snap"
  by (simp_all add: persisted_def split: save_outcome.split)

lemma new_saved_inv:
  assumes "base_inv P s" "initialized s" "await_ok P s (SavingNew r snap)"
  shows "edge_inv P ((persisted Saved snap s) \<lparr> running := Some Processing, accepted := sr_id r # accepted s \<rparr>)"
proof -
  have r: "sr_id r \<in> sr_id ` set snap" "sr_id r \<in> fst ` set (localStore s)" "save_ok P s snap" using assms(3) by (auto simp: await_ok_def)
  have close: "closing s \<noteq> Some (SavingClose x)" for x using assms(3) by (auto simp: await_ok_def)
  have "safe_ids P (s \<lparr> accepted := sr_id r # accepted s \<rparr>) ids" if "safe_ids P s ids" "sr_id r \<in> ids" for ids
    using that by (auto simp: safe_ids_def)
  moreover have "safe_ids P ((persisted Saved snap s) \<lparr> running := a, accepted := as \<rparr>) = safe_ids P (s \<lparr> accepted := as \<rparr>)" for a as
    by (simp add: fun_eq_iff safe_ids_def)
  ultimately show ?thesis
    using assms(1,2) r close by (auto simp: edge_inv_def base_inv_def save_ok_def await_ok_def)
qed

lemma save_returned_inv:
  assumes "edge_inv P s"
  shows "edge_inv P (save_returned P cfg now out s)"
proof (cases "running s")
  case None
  then show ?thesis using assms by (simp add: save_returned_def)
next
  case (Some a)
  have base: "base_inv P s" "initialized s" "await_ok P s a" using assms Some by (simp_all add: edge_inv_def base_inv_def)
  have drop: "edge_inv P (release_lock [] (persisted out snap s \<lparr> localStore := filter (\<lambda>(k, _). k \<noteq> sr_id r) (localStore s) \<rparr>))"
    if "a = SavingNew r snap" for r snap
  proof (rule base_inv_idle, rule base_inv_store [OF persisted_inv [OF base(1)]])
    show "save_ok P s snap" using base(3) that by (simp add: await_ok_def)
  qed (use base that in \<open>auto simp: base_inv_def await_ok_def\<close>)
  have saved: "base_inv P (persisted out snap s)" if "a = SavingFailed c e snap \<or> a = SavingBatch c x snap" for c e x snap
    using base that by (intro persisted_inv) (auto simp: await_ok_def)
  have batch: "edge_inv P (batch_saved cfg now c x t)" if "base_inv P t" "initialized t" for c x t
    using that by (auto simp: batch_saved_def Let_def recordConnectionFailure_def intro!: sync_ends sync_loop_inv)
  show ?thesis
  proof (cases a)
    case (SavingNew r snap)
    then show ?thesis
      using Some new_saved_inv [OF base(1,2)] base(3) drop by (cases out) (simp_all add: save_returned_def Let_def)
  next
    case (SavingFailed c e snap)
    then show ?thesis
      using Some saved by (cases out) (auto simp: save_returned_def recordConnectionFailure_def intro!: sync_ends)
  next
    case (SavingBatch c x snap)
    then show ?thesis
      using Some saved base(2) by (cases out) (auto simp: save_returned_def intro!: sync_ends batch)
  qed (use assms Some in \<open>simp_all add: save_returned_def\<close>)
qed

lemma new_record_inv:
  assumes "base_inv P s" "initialized s" "closing s = None" "sr_id r \<notin> set (issued s)"
  defines "t \<equiv> s \<lparr> localStore := AList.update (sr_id r) r (localStore s), issued := sr_id r # issued s \<rparr>"
  shows "edge_inv P (t \<lparr> running := Some (SavingNew r (snapshot t)) \<rparr>)"
proof -
  have "sr_id r \<notin> fst ` set (localStore s)" "sr_id r \<notin> set (accepted s)" using assms(1,4) by (auto simp: base_inv_def)
  then have L: "localStore t = localStore s @ [(sr_id r, r)]" by (simp add: t_def update_absent)
  have safe: "safe_ids P t = safe_ids P s" by (simp add: fun_eq_iff safe_ids_def t_def)
  have "safe_ids P t (fst ` set (localStore t))" using assms(1,2) unfolding safe L by (auto simp: base_inv_def safe_ids_def)
  moreover have "\<forall>(k, x)\<in>set (localStore t). sr_id x = k" using assms(1) unfolding L by (auto simp: base_inv_def)
  moreover have "fst ` set (localStore t) \<subseteq> set (issued t)" using assms(1) unfolding L by (auto simp: base_inv_def t_def)
  moreover have "save_ok P t (durable t)" using assms(1) unfolding save_ok_def safe by (auto simp: base_inv_def save_ok_def t_def)
  moreover have "set (accepted t) \<subseteq> set (issued t)" using assms(1) by (auto simp: base_inv_def t_def)
  ultimately have base: "base_inv P t" "initialized t" using assms(2,3) by (simp_all add: base_inv_def t_def)
  have "await_ok P t (SavingNew r (snapshot t))"
    using snapshot_ok [OF base] L assms(3) \<open>sr_id r \<notin> set (accepted s)\<close> by (simp add: await_ok_def) (simp add: t_def)
  then show ?thesis by (rule edge_inv_running [OF base])
qed

lemma store_begin_inv:
  assumes "base_inv P s" "initialized s" "newId \<notin> set (issued s)"
  shows "edge_inv P (store_begin P cfg now newId q s)"
proof -
  have "closing s = None" if "check_request cfg q t k x s = None" for t k x
    using assms(1) that by (auto simp: check_request_def base_inv_def split: if_splits)
  moreover have "edge_inv P (s \<lparr> localStore := AList.update newId r (localStore s), issued := newId # issued s,
      running := Some (SavingNew r (map snd (AList.update newId r (localStore s)))) \<rparr>)" if "closing s = None" "sr_id r = newId" for r
    using new_record_inv [OF assms(1,2) that(1), of r] assms(3) that(2) by simp
  ultimately show ?thesis using base_inv_idle [OF assms(1)] by (simp add: store_begin_def Let_def split: option.split)
qed

lemma base_inv_waiting: "base_inv P s \<Longrightarrow> initialized s \<Longrightarrow> base_inv P (s \<lparr> waiting := ws \<rparr>)"
  by (simp add: base_inv_def save_ok_def safe_ids_def)

lemma grant_inv:
  assumes "edge_inv P s" "newId \<notin> set (issued s)"
  shows "edge_inv P (grant P cfg now newId s)"
proof (cases "running s = None \<and> waiting s \<noteq> []")
  case False
  then show ?thesis using assms(1) by (auto simp: grant_def split: option.split list.split)
next
  case True
  then obtain w ws where w: "waiting s = w # ws" by (cases "waiting s") auto
  have "base_inv P s" "initialized s" using assms(1) w by (simp_all add: edge_inv_def base_inv_def)
  then have "base_inv P (s \<lparr> waiting := ws \<rparr>)" "initialized (s \<lparr> waiting := ws \<rparr>)" by (simp_all add: base_inv_waiting)
  then show ?thesis
    using True w assms(2) by (auto simp: grant_def Let_def intro!: store_begin_inv sync_loop_inv split: edge_work.split)
qed

lemma initialize_inv: "edge_inv P s \<Longrightarrow> edge_inv P (snd (initialize P e s))"
proof (cases "initialized s")
  case False
  assume inv: "edge_inv P s"
  then have idle: "running s = None" "closing s = None" "waiting s = []" using False by (auto simp: edge_inv_def base_inv_def)
  have "safe_ids P (s \<lparr> localStore := L, initialized := True, stopped := False \<rparr>) = safe_ids P s" for L by (simp add: fun_eq_iff safe_ids_def)
  then have "edge_inv P (s \<lparr> localStore := map (\<lambda>r. (sr_id r, r)) (durable s), initialized := True, stopped := False \<rparr>)"
    using inv idle by (auto simp: edge_inv_def base_inv_def save_ok_def image_image)
  then show ?thesis using False inv by (auto simp: initialize_def split: option.split)
qed (simp add: initialize_def)

lemma shutdown_inv:
  "edge_inv P s \<Longrightarrow> initialized s \<Longrightarrow> edge_inv P (shutdown_begin s)"
  "edge_inv P s \<Longrightarrow> edge_inv P (shutdown_drained s)"
  "edge_inv P s \<Longrightarrow> running s = None \<Longrightarrow> waiting s = [] \<Longrightarrow> edge_inv P (shutdown_saved out s)"
proof -
  assume inv: "edge_inv P s"
  show "edge_inv P (shutdown_begin s)" if "initialized s"
    using inv that by (auto simp: shutdown_begin_def edge_inv_def base_inv_def await_ok_def save_ok_def safe_ids_def split: edge_await.splits)
  show "edge_inv P (shutdown_drained s)"
  proof (cases "closing s = Some (Draining 0)")
    case True
    have base: "base_inv P s" "initialized s" using inv True by (simp_all add: edge_inv_def base_inv_def)
    have "save_ok P (s \<lparr> closing := x \<rparr>) = save_ok P s" "safe_ids P (s \<lparr> closing := x \<rparr>) = safe_ids P s" for x
      by (simp_all add: fun_eq_iff save_ok_def safe_ids_def)
    then show ?thesis
      using inv True base snapshot_ok [OF base]
      by (auto simp: shutdown_drained_def edge_inv_def base_inv_def await_ok_def split: edge_await.splits)
  next
    case False
    then show ?thesis using inv by (auto simp: shutdown_drained_def split: option.splits edge_closing.splits nat.splits)
  qed
  show "edge_inv P (shutdown_saved out s)" if idle: "running s = None" "waiting s = []"
  proof (cases "\<exists>snap. closing s = Some (SavingClose snap)")
    case True
    then obtain snap where c: "closing s = Some (SavingClose snap)" by blast
    have "base_inv P s" "save_ok P s snap" using inv c by (simp_all add: edge_inv_def base_inv_def)
    then have "base_inv P (persisted out snap s)" by (rule persisted_inv)
    then show ?thesis
      using c idle by (cases out) (simp_all add: shutdown_saved_def shutdown_end_def edge_inv_def base_inv_def save_ok_def safe_ids_def)
  next
    case False
    then show ?thesis using inv by (auto simp: shutdown_saved_def split: option.splits edge_closing.splits)
  qed
qed

lemma crash_inv: "edge_inv P s \<Longrightarrow> edge_inv P (crash s)"
  by (simp add: edge_inv_def base_inv_def crash_def fresh_service_def save_ok_def safe_ids_def)

lemma release_inv: "edge_inv P s \<Longrightarrow> edge_inv P (release_lock ts s)"
  by (rule base_inv_idle) (simp add: edge_inv_def)

lemma edge_step_inv:
  assumes "edge_inv P s" "allowed ev s"
  shows "edge_inv P (edge_step P cfg ev s)"
proof (cases ev)
  case (Forward_Returned answer)
  have "base_inv P s" "running s \<noteq> None \<Longrightarrow> initialized s" using assms(1) by (simp_all add: edge_inv_def base_inv_def)
  then show ?thesis
    using assms(1) Forward_Returned by (auto simp: edge_step_def intro: forward_returned_inv split: option.split edge_await.split)
qed (use assms in \<open>auto simp: edge_step_def allowed_def run_tail_inv intro!: edge_inv_waiting initialize_inv enter_sync_inv cycle_probed_inv grant_inv
      save_returned_inv report_returned_inv release_inv shutdown_inv crash_inv\<close>)

definition guarded_step :: "platform \<Rightarrow> edge_config \<Rightarrow> edge_event \<Rightarrow> edge_service \<Rightarrow> edge_service" where
  "guarded_step P cfg ev s = (if allowed ev s then edge_step P cfg ev s else s)"

interpretation edge: invariant_machine "guarded_step P cfg" "edge_inv P" for P cfg
  by unfold_locales (simp add: guarded_step_def edge_step_inv)

lemma orderly_run: "orderly P cfg evs s \<Longrightarrow> fold (edge_step P cfg) evs s = fold (guarded_step P cfg) evs s"
  by (induction evs arbitrary: s) (simp_all add: guarded_step_def)

lemma boot_inv: "edge_inv P (boot ds)"
  by (auto simp: edge_inv_def base_inv_def boot_def fresh_service_def save_ok_def safe_ids_def)


definition sample_edge :: edge_config where
  "sample_edge = \<lparr> maxLocalStorage = 4, forwardBatchSize = 2, heartbeatInterval = 30, retryInterval = 1, maxRetryInterval = 60, storagePath = ''queue.json'' \<rparr>"

definition reading :: store_request where
  "reading = \<lparr> rq_data = JObj [(''level'', JBool True)], rq_driverId = Some ''plc'', rq_kind = None, rq_origin = None, rq_timestamp = None, rq_fieldVersions = None \<rparr>"

lemmas edge_eval = edge_step_def initialize_def start_cycle_def cycle_probed_def enter_sync_def grant_def store_begin_def check_request_def
  sync_loop_def sync_returns_def release_lock_def save_returned_def persisted_def run_tail_def schedule_retry_def shutdown_begin_def
  shutdown_drained_def shutdown_saved_def shutdown_end_def forward_returned_def fail_batch_def bump_def recordConnectionFailure_def
  crash_def boot_def fresh_service_def sample_edge_def reading_def allowed_def assertValidDate_def blank_def Let_def
  FORBIDDEN_CONFIGURATION_KEYS_def

text \<open>A reading is stored, and the process dies.\<close>

definition sample_run :: "edge_event list" where
  "sample_run = [Initialize None, Store reading, Grant 7 ''r1'', Save_Returned 8 Saved, Crash]"


text \<open>
  The premise on shutdowns is needed: a synchronisation that starts after the last save of \<open>shutdown\<close> has begun outlives the
  clearing of the map, and when its transport fails it saves the empty map over the queue. The accepted record is gone.
\<close>

definition shutdown_race :: "edge_event list" where
  "shutdown_race = [Initialize None, Probed 1 (Inr True), Grant 2 [], Tail 2 0, Store reading, Grant 7 ''r1'', Shutdown, Save_Returned 8 Saved, Processed, Tail 9 0,
     Drained, Grant 10 [], Shutdown_Saved Saved, Forward_Returned (Inl (ExternalError ''timeout'')), Save_Returned 11 Saved]"

lemma shutdown_race_loses_record:
  "let s = fold (edge_step sample_platform sample_edge) shutdown_race (boot [])
   in accepted s = [''r1''] \<and> durable s = [] \<and> answers s = [] \<and> overrules s = []"
  by (simp add: shutdown_race_def edge_eval)

end
