(* ===== verification/Edge_Restart.thy ===== *)
theory Edge_Restart
  imports Edge_Queue
begin

text \<open>
  What the stored queue of the store-and-forward service is good for: every record the service writes passes the checks of
  \<open>initialize\<close>, so a restart never rejects the queue, and with an upstream that acknowledges what it gets, as
  \<open>EnvironmentEdgeTransport\<close> of \<open>server/gateway/store-and-forward.ts\<close> does, one synchronisation empties it.
\<close>

section \<open>Records the service writes are valid\<close>

definition contents_ok :: "stored_record \<Rightarrow> bool" where
  "contents_ok r \<longleftrightarrow> \<not> blank (sr_id r) \<and> sr_kind r \<in> {Telemetry, Configuration} \<and> \<not> blank (sr_origin r) \<and> assertJsonSafe (sr_data r) = None
     \<and> (sr_kind r = Configuration \<longrightarrow> isPlainObject (sr_data r) \<and> validateConfigurationObject (sr_data r) = None)
     \<and> (\<forall>vs. sr_fieldVersions r = Some vs \<longrightarrow> validateFieldVersions vs = None) \<and> wf_json (sr_data r)"

definition rec_ok :: "platform \<Rightarrow> stored_record \<Rightarrow> bool" where
  "rec_ok P r \<longleftrightarrow> contents_ok r \<and> sr_checksum r = recordChecksum P r"

definition queue_ok :: "platform \<Rightarrow> stored_record list \<Rightarrow> bool" where
  "queue_ok P rs \<longleftrightarrow> list_all (rec_ok P) rs \<and> distinct (map sr_id rs)"

lemma recordChecksum_ignores: "recordChecksum P (r \<lparr> sr_checksum := x \<rparr>) = recordChecksum P r"
  by (simp add: recordChecksum_def integrityPayload_def)

lemma rec_ok_sealed: "contents_ok r \<Longrightarrow> rec_ok P (sealed P r)"
  using recordChecksum_ignores by (simp add: rec_ok_def sealed_def contents_ok_def)

lemma contents_ok_attempts: "contents_ok r \<Longrightarrow> contents_ok (r \<lparr> sr_attempts := n \<rparr>)"
  by (simp add: contents_ok_def)

lemma merged_record_ok:
  assumes "rec_ok P l" "sr_kind l \<noteq> Telemetry" "wf_json (rv_data remote)" "mergeConfigurationConflict P (replica_of l) remote = Inr m"
  shows "rec_ok P (merged_record P l m)"
proof -
  have "validateReplicaValue m True = None \<and> wf_json (rv_data m)"
    using merge_valid [OF assms(4)] assms(1,3) by (simp add: replica_of_def rec_ok_def contents_ok_def)
  then have "contents_ok (l \<lparr> sr_data := rv_data m, sr_fieldVersions := rv_fieldVersions m,
      sr_timestamp := (case rv_timestamp m of Some t \<Rightarrow> t | None \<Rightarrow> sr_timestamp l), sr_origin := rv_origin m, sr_attempts := sr_attempts l + 1 \<rparr>)"
    using assms(1) by (simp add: contents_ok_def replica_valid rec_ok_def)
  then show ?thesis by (simp add: merged_record_def rec_ok_sealed)
qed

lemma hex_text: "checksum_text (sha256Hex P b)" if "length (sha256 P b) = 32"
proof -
  have len: "length (hex c) = 2 * length c" for c by (induction c) (simp_all add: hex_def)
  have digit: "n < 16 \<Longrightarrow> (let m = (of_char (hex_digit n) :: nat) in 48 \<le> m \<and> m \<le> 57 \<or> 97 \<le> m \<and> m \<le> 102 \<or> 65 \<le> m \<and> m \<le> 70)" for n
    by (auto simp: hex_digit_def of_char_of)
  have "unat (x :: byte) div 16 < 16" for x using unat_byte_lt [of x] by linarith
  then have "list_all (\<lambda>c. let m = (of_char c :: nat) in 48 \<le> m \<and> m \<le> 57 \<or> 97 \<le> m \<and> m \<le> 102 \<or> 65 \<le> m \<and> m \<le> 70) (hex c)" for c
    using digit by (induction c) (simp_all add: hex_def)
  then show ?thesis using len that by (simp add: checksum_text_def sha256Hex_def)
qed

lemma load_checks_None: "load_checks P seen rs = None \<longleftrightarrow> distinct (map sr_id rs) \<and> set (map sr_id rs) \<inter> set seen = {}"
  by (induction P seen rs rule: load_checks.induct) auto

lemma rec_ok_loads:
  assumes "rec_ok P r" "length (sha256 P (utf8 (canonicalJson P (integrityPayload r)))) = 32" "sr_attempts r < 2 ^ 53"
  shows "validateStoredRecord r = None" "assertRecordIntegrity P r = None"
proof -
  have "checksum_text (sr_checksum r)" using assms(1) hex_text [OF assms(2)] by (simp add: rec_ok_def recordChecksum_def)
  then show "validateStoredRecord r = None"
    using assms(1,3) by (auto simp: validateStoredRecord_def rec_ok_def contents_ok_def split: option.splits)
  then show "assertRecordIntegrity P r = None" using assms(1) by (simp add: assertRecordIntegrity_def rec_ok_def)
qed

lemma initialize_loads:
  assumes "queue_ok P (durable s)" "\<not> initialized s" "\<And>b. length (sha256 P b) = 32" "\<forall>r\<in>set (durable s). sr_attempts r < 2 ^ 53"
  shows "initialize P None s = (None, start_cycle (s \<lparr> localStore := map (\<lambda>r. (sr_id r, r)) (durable s), initialized := True, stopped := False \<rparr>))"
proof -
  have "validateStoredRecord r = None \<and> assertRecordIntegrity P r = None" if "r \<in> set (durable s)" for r
    using rec_ok_loads [of P r] assms that by (auto simp: queue_ok_def list_all_iff)
  moreover have "load_checks P [] (durable s) = None" using assms(1) by (simp add: load_checks_None queue_ok_def)
  ultimately have "first_error [None, first_error (map (\<lambda>r. first_error [validateStoredRecord r, assertRecordIntegrity P r]) (durable s)),
      load_checks P [] (durable s)] = None" by auto
  then show ?thesis using assms(2) by (simp only: initialize_def if_False option.case)
qed

section \<open>Every operation keeps the records valid\<close>

definition store_ok :: "platform \<Rightarrow> (string \<times> stored_record) list \<Rightarrow> bool" where
  "store_ok P L \<longleftrightarrow> distinct (map fst L) \<and> (\<forall>(k, r)\<in>set L. sr_id r = k \<and> rec_ok P r)"

definition remotes_ok :: "(string \<times> replica_value) list \<Rightarrow> bool" where
  "remotes_ok cs \<longleftrightarrow> list_all (\<lambda>(i, rv). wf_json (rv_data rv)) cs"

definition pending_ok :: "platform \<Rightarrow> edge_await \<Rightarrow> bool" where
  "pending_ok P a = (case a of
     SavingNew r snap \<Rightarrow> queue_ok P snap
   | SavingFailed c e snap \<Rightarrow> queue_ok P snap
   | SavingBatch c x snap \<Rightarrow> queue_ok P snap
   | ReportingConflict c x gen tel res \<Rightarrow> remotes_ok (x_todo x)
   | _ \<Rightarrow> True)"

definition good_inv :: "platform \<Rightarrow> edge_service \<Rightarrow> bool" where
  "good_inv P s \<longleftrightarrow> store_ok P (localStore s) \<and> queue_ok P (durable s)
     \<and> (\<forall>q. StoreWork q \<in> set (waiting s) \<longrightarrow> wf_json (rq_data q))
     \<and> (\<forall>a. running s = Some a \<longrightarrow> pending_ok P a)
     \<and> (\<forall>snap. closing s = Some (SavingClose snap) \<longrightarrow> queue_ok P snap)"

text \<open>Objects that arrive from outside have no property twice, and new identifiers are not blank.\<close>

definition plain_event :: "edge_event \<Rightarrow> bool" where
  "plain_event ev = (case ev of
     Store q \<Rightarrow> wf_json (rq_data q)
   | Forward_Returned (Inr result) \<Rightarrow> remotes_ok (conflicts result)
   | Grant now i \<Rightarrow> \<not> blank i
   | _ \<Rightarrow> True)"

lemma snapshot_good: "store_ok P L \<Longrightarrow> queue_ok P (map snd L)"
proof -
  assume L: "store_ok P L"
  have "map sr_id (map snd L) = map fst L" using L by (auto simp: store_ok_def)
  moreover have "list_all (rec_ok P) (map snd L)" using L by (auto simp: store_ok_def list_all_iff)
  ultimately show ?thesis using L unfolding queue_ok_def store_ok_def by metis
qed

lemma store_ok_filter: "store_ok P L \<Longrightarrow> store_ok P (filter f L)"
  by (auto simp: store_ok_def distinct_map_filter)

lemma store_ok_bumped: "store_ok P L \<Longrightarrow> store_ok P (bumped P ids L)"
proof -
  assume L: "store_ok P L"
  have "sr_id x = k \<and> rec_ok P x" if kx: "(k, x) \<in> set (bumped P ids L)" for k x
  proof -
    obtain r where r: "(k, r) \<in> set L" "x = (if k \<in> set ids then sealed P (r \<lparr> sr_attempts := sr_attempts r + 1 \<rparr>) else r)"
      using kx by (auto simp: bumped_def)
    then have "sr_id r = k" "rec_ok P r" using L by (auto simp: store_ok_def)
    then show ?thesis using r(2) rec_ok_sealed [OF contents_ok_attempts] by (simp add: rec_ok_def)
  qed
  then show ?thesis using L by (auto simp: store_ok_def)
qed

lemma store_ok_update: "store_ok P L \<Longrightarrow> rec_ok P r \<Longrightarrow> store_ok P (AList.update (sr_id r) r L)"
  using set_update [of "sr_id r" r L] by (auto simp: store_ok_def AList.distinct_update dest!: subsetD)

lemma good_bump: "good_inv P s \<Longrightarrow> good_inv P (bump P gen ids s)"
  by (simp add: good_inv_def bump_alt store_ok_bumped)

lemma good_release: "good_inv P s \<Longrightarrow> good_inv P (release_lock ts s)"
  by (auto simp: good_inv_def release_lock_def split: option.splits edge_closing.splits)

lemmas good_ends = good_release [of P s "[SyncTail c None]" for P s c, folded sync_returns_def]
  good_release [of P s "[SyncTail c (Some e)]" for P s c e, folded sync_throws_def]

lemma good_running: "good_inv P s \<Longrightarrow> pending_ok P a \<Longrightarrow> good_inv P (s \<lparr> running := Some a \<rparr>)"
  by (simp add: good_inv_def)

lemma good_store: "good_inv P s \<Longrightarrow> store_ok P L \<Longrightarrow> good_inv P (s \<lparr> localStore := L \<rparr>)"
  by (simp add: good_inv_def)

lemma good_snapshot: "good_inv P s \<Longrightarrow> queue_ok P (snapshot s)"
  by (simp add: good_inv_def snapshot_good)

lemma good_connection [simp]:
  "good_inv P (recordConnectionFailure e s) = good_inv P s" "good_inv P (schedule_retry now d s) = good_inv P s"
  "good_inv P (backoff cfg now s) = good_inv P s" "good_inv P (start_cycle s) = good_inv P s"
  "good_inv P (s \<lparr> tails := ts \<rparr>) = good_inv P s" "good_inv P (s \<lparr> probes := n \<rparr>) = good_inv P s"
  "good_inv P (s \<lparr> isConnected := a, consecutiveFailures := m, lastError := x \<rparr>) = good_inv P s"
  "good_inv P (s \<lparr> lastSuccessfulForward := t \<rparr>) = good_inv P s" "good_inv P (s \<lparr> divergenceCount := n \<rparr>) = good_inv P s"
  "good_inv P (s \<lparr> answers := as \<rparr>) = good_inv P s" "good_inv P (s \<lparr> overrules := os \<rparr>) = good_inv P s"
  by (simp_all add: good_inv_def recordConnectionFailure_def schedule_retry_def backoff_def start_cycle_def)

lemma good_enter: "good_inv P s \<Longrightarrow> good_inv P (enter_sync c s)"
  by (simp add: enter_sync_def good_inv_def)

lemma good_probed: "good_inv P s \<Longrightarrow> good_inv P (cycle_probed cfg now up s)"
  by (simp add: cycle_probed_def Let_def good_enter split: sum.split)

lemma good_tail: "good_inv P s \<Longrightarrow> good_inv P (run_tail cfg now t s)"
  by (simp add: run_tail_def good_enter split: edge_tail.split caller.split option.split)

lemma good_loop: "good_inv P s \<Longrightarrow> good_inv P (sync_loop cfg c s)"
  by (auto simp: sync_loop_def pending_ok_def intro!: good_ends good_running)

lemma good_fail: "good_inv P s \<Longrightarrow> good_inv P (fail_batch P c e gen ids s)"
  by (auto simp: fail_batch_def Let_def pending_ok_def intro!: good_running good_bump good_snapshot)

lemma good_settle: "good_inv P s \<Longrightarrow> good_inv P (settle_batch P c x s)"
proof -
  assume "good_inv P s"
  then have "good_inv P (s \<lparr> localStore := filter (\<lambda>(k, r). k \<notin> set (x_acknowledged x)) (localStore s) \<rparr>)"
    by (intro good_store) (simp_all add: good_inv_def store_ok_filter)
  then show ?thesis by (auto simp: settle_batch_def Let_def pending_ok_def intro!: good_running good_bump good_snapshot)
qed

lemma good_reconcile:
  assumes "good_inv P s" "remotes_ok (x_todo x)"
  shows "good_inv P (reconcile_next P c x s)"
proof (cases "x_todo x")
  case Nil
  then show ?thesis using good_settle [OF assms(1)] by (simp add: reconcile_next_def)
next
  case (Cons ir todo)
  obtain i remote where ir: "ir = (i, remote)" by fastforce
  have remote: "wf_json (rv_data remote)" "remotes_ok todo" using assms(2) Cons ir by (simp_all add: remotes_ok_def)
  have merged: "good_inv P (s \<lparr> divergenceCount := n, localStore := AList.update i (merged_record P l m) (localStore s) \<rparr>)"
    if "map_of (localStore s) i = Some l" "sr_kind l \<noteq> Telemetry" "mergeConfigurationConflict P (replica_of l) remote = Inr m" for l m n
  proof -
    have "sr_id l = i" "rec_ok P l" using assms(1) map_of_SomeD [OF that(1)] by (auto simp: good_inv_def store_ok_def)
    then show ?thesis
      using store_ok_update [of P "localStore s" "merged_record P l m"] merged_record_ok [OF _ that(2) remote(1) that(3)] assms(1)
      by (simp add: good_inv_def)
  qed
  have report: "pending_ok P (ReportingConflict c (x \<lparr> x_todo := todo \<rparr>) g tel res)" for g tel res
    using remote(2) by (simp add: pending_ok_def)
  show ?thesis
    using assms(1) Cons ir merged report
    by (auto simp: reconcile_next_def Let_def intro!: good_ends good_running split: option.split sum.split)
qed

lemma fold_update_remotes: "remotes_ok cs \<Longrightarrow> remotes_ok acc \<Longrightarrow> remotes_ok (fold (\<lambda>(i, rv). AList.update i rv) cs acc)"
proof (induction cs arbitrary: acc)
  case (Cons c cs)
  obtain i rv where c: "c = (i, rv)" by fastforce
  have "set (AList.update i rv acc) \<subseteq> insert (i, rv) (set acc)" by (induction acc) auto
  then have "remotes_ok (AList.update i rv acc)" using Cons.prems c by (fastforce simp: remotes_ok_def list_all_iff)
  then show ?case using Cons c by (simp add: remotes_ok_def)
qed simp

lemma good_forward:
  assumes "good_inv P s" "\<And>result. answer = Inr result \<Longrightarrow> remotes_ok (conflicts result)"
  shows "good_inv P (forward_returned P c batch gen answer s)"
proof (cases answer)
  case (Inl e)
  then show ?thesis using good_fail [OF assms(1)] by (simp add: forward_returned_def)
next
  case (Inr result)
  have "remotes_ok (fold (\<lambda>(i, rv). AList.update i rv) (conflicts result) [])"
    using fold_update_remotes assms(2) Inr by (simp add: remotes_ok_def)
  moreover have "good_inv P (s \<lparr> answers := a, divergenceCount := n, running := Some (ReportingMismatch c ids g) \<rparr>)" for a n ids g
    using assms(1) by (simp add: good_inv_def pending_ok_def)
  ultimately show ?thesis
    using Inr assms(1) by (auto simp: forward_returned_def Let_def intro!: good_reconcile good_ends split: option.split)
qed

lemma good_report: "good_inv P s \<Longrightarrow> good_inv P (report_returned P e s)"
proof -
  assume good: "good_inv P s"
  have "good_inv P (conflict_reported P c x gen tel res s)" if "running s = Some (ReportingConflict c x gen tel res)" for c x gen tel res
  proof -
    have "remotes_ok (x_todo x)" using good that by (auto simp: good_inv_def pending_ok_def)
    moreover have "good_inv P (s \<lparr> overrules := os, localStore := filter f (localStore s) \<rparr>)" for os f
      using good by (simp add: good_inv_def store_ok_filter)
    ultimately show ?thesis
      using good by (auto simp: conflict_reported_def intro!: good_reconcile good_bump split: option.split)
  qed
  then show ?thesis
    using good by (auto simp: report_returned_def intro!: good_ends good_fail split: option.split edge_await.split)
qed

lemma good_persisted: "good_inv P s \<Longrightarrow> queue_ok P snap \<Longrightarrow> good_inv P (persisted out snap s)"
  by (simp add: good_inv_def persisted_def split: save_outcome.split)

lemma good_save: "good_inv P s \<Longrightarrow> good_inv P (save_returned P cfg now out s)"
proof -
  assume good: "good_inv P s"
  have saved: "good_inv P (persisted out snap s)" if "running s = Some (SavingNew r snap) \<or> running s = Some (SavingFailed c e snap) \<or> running s = Some (SavingBatch c x snap)" for r c e x snap
    using good_persisted [OF good] good that by (auto simp: good_inv_def pending_ok_def)
  have dropped: "good_inv P (persisted out snap s \<lparr> localStore := filter f (localStore s) \<rparr>)" if "good_inv P (persisted out snap s)" for f snap
    using that by (simp add: good_inv_def store_ok_filter)
  have accepted: "good_inv P (t \<lparr> running := Some Processing, accepted := is \<rparr>)" if "good_inv P t" for t "is"
    using that by (simp add: good_inv_def pending_ok_def)
  have batch: "good_inv P (batch_saved cfg now c x t)" if "good_inv P t" for c x t
    using that by (auto simp: batch_saved_def Let_def intro!: good_ends good_loop)
  show ?thesis
  proof (cases "running s")
    case (Some a)
    then show ?thesis
      using good saved dropped
      by (cases a; cases out) (simp_all add: save_returned_def Let_def good_ends good_release accepted batch)
  qed (simp add: save_returned_def good)
qed

lemma good_store_begin:
  assumes "good_inv P s" "wf_json (rq_data q)" "\<not> blank newId"
  shows "good_inv P (store_begin P cfg now newId q s)"
proof -
  have new: "good_inv P (s \<lparr> localStore := AList.update newId r (localStore s), issued := is,
      running := Some (SavingNew r (map snd (AList.update newId r (localStore s)))) \<rparr>)" if "sr_id r = newId" "rec_ok P r" for r "is"
  proof -
    have "store_ok P (AList.update newId r (localStore s))" using store_ok_update [of P "localStore s" r] that assms(1) by (simp add: good_inv_def)
    then show ?thesis using assms(1) snapshot_good by (simp add: good_inv_def pending_ok_def)
  qed
  have ok: "rec_ok P (sealed P \<lparr> sr_id = newId, sr_timestamp = t, sr_data = rq_data q, sr_attempts = 0, sr_driverId = rq_driverId q,
      sr_kind = kind, sr_origin = origin, sr_fieldVersions = rq_fieldVersions q, sr_checksum = [] \<rparr>)"
    if "check_request cfg q d kind origin s = None" for t kind origin d
    using that assms(2,3) by (intro rec_ok_sealed) (auto simp: contents_ok_def check_request_def split: if_splits)
  show ?thesis
    using good_release [OF assms(1)] new ok by (auto simp: store_begin_def Let_def split: option.split)
qed

lemma good_grant:
  assumes "good_inv P s" "\<not> blank newId"
  shows "good_inv P (grant P cfg now newId s)"
proof (cases "running s = None \<and> waiting s \<noteq> []")
  case True
  then obtain w ws where w: "waiting s = w # ws" by (cases "waiting s") auto
  have "good_inv P (s \<lparr> waiting := ws \<rparr>)" "\<And>q. w = StoreWork q \<Longrightarrow> wf_json (rq_data q)" using assms(1) w by (auto simp: good_inv_def)
  then show ?thesis
    using True w assms(2) by (auto simp: grant_def Let_def intro!: good_store_begin good_loop split: edge_work.split)
qed (use assms(1) in \<open>auto simp: grant_def split: option.split list.split\<close>)

lemma good_initialize: "good_inv P s \<Longrightarrow> good_inv P (snd (initialize P e s))"
proof -
  assume good: "good_inv P s"
  have "store_ok P (map (\<lambda>r. (sr_id r, r)) (durable s))"
    using good by (auto simp: good_inv_def store_ok_def queue_ok_def list_all_iff comp_def)
  then have "good_inv P (s \<lparr> localStore := map (\<lambda>r. (sr_id r, r)) (durable s), initialized := True, stopped := False \<rparr>)"
    using good by (simp add: good_inv_def)
  then show ?thesis using good by (auto simp: initialize_def split: option.split)
qed

lemma good_shutdown: "good_inv P s \<Longrightarrow> good_inv P (shutdown_begin s) \<and> good_inv P (shutdown_drained s) \<and> good_inv P (shutdown_saved out s)"
proof -
  assume good: "good_inv P s"
  have ending: "good_inv P (shutdown_end t)" if "good_inv P t" for t using that by (simp add: good_inv_def shutdown_end_def store_ok_def)
  have "good_inv P (shutdown_begin s)" using good by (auto simp: shutdown_begin_def good_inv_def)
  moreover have "good_inv P (s \<lparr> closing := Some (SavingClose (snapshot s)) \<rparr>)" using good good_snapshot [OF good] by (simp add: good_inv_def)
  then have "good_inv P (shutdown_drained s)"
    using good ending by (auto simp: shutdown_drained_def split: option.split edge_closing.split nat.split)
  moreover have "good_inv P (persisted out snap s)" "good_inv P (persisted out snap s \<lparr> closing := None \<rparr>)" if "closing s = Some (SavingClose snap)" for snap
    using good_persisted [OF good, of snap out] good that by (auto simp: good_inv_def)
  then have "good_inv P (shutdown_saved out s)"
    using good ending by (auto simp: shutdown_saved_def split: option.split edge_closing.split save_outcome.split)
  ultimately show ?thesis by blast
qed

lemma good_crash: "good_inv P s \<Longrightarrow> good_inv P (crash s)"
  by (simp add: good_inv_def crash_def fresh_service_def store_ok_def)

lemma good_step:
  assumes "good_inv P s" "plain_event ev"
  shows "good_inv P (edge_step P cfg ev s)"
proof (cases ev)
  case (Store q)
  then show ?thesis using assms by (auto simp: edge_step_def plain_event_def good_inv_def)
next
  case (Forward_Returned answer)
  then have "\<And>result. answer = Inr result \<Longrightarrow> remotes_ok (conflicts result)" using assms(2) by (simp add: plain_event_def)
  then show ?thesis
    using assms(1) Forward_Returned by (auto simp: edge_step_def intro!: good_forward split: option.split edge_await.split)
qed (use assms good_shutdown [OF assms(1)] in \<open>auto simp: edge_step_def plain_event_def intro!: good_initialize good_enter good_probed good_grant
      good_save good_report good_release good_tail good_crash\<close>)

definition plain_step :: "platform \<Rightarrow> edge_config \<Rightarrow> edge_event \<Rightarrow> edge_service \<Rightarrow> edge_service" where
  "plain_step P cfg ev s = (if plain_event ev then edge_step P cfg ev s else s)"

interpretation records: invariant_machine "plain_step P cfg" "good_inv P" for P cfg
  by unfold_locales (simp add: plain_step_def good_step)

lemma plain_run: "list_all plain_event evs \<Longrightarrow> fold (edge_step P cfg) evs s = fold (plain_step P cfg) evs s"
  by (induction evs arbitrary: s) (simp_all add: plain_step_def)

lemma boot_good: "queue_ok P ds \<Longrightarrow> good_inv P (boot ds)"
  by (simp add: good_inv_def boot_def fresh_service_def store_ok_def)


section \<open>A cooperative upstream empties the queue\<close>

text \<open>\<open>EnvironmentEdgeTransport.forward\<close>.\<close>

definition forward_all :: "platform \<Rightarrow> stored_record list \<Rightarrow> forward_result" where
  "forward_all P batch = \<lparr> acknowledgedIds = map sr_id batch, verifiedMerkleRoot = merkleRoot P (map integrityPayload batch), conflicts = [] \<rparr>"

text \<open>The transport answers the batch in flight, then the save returns.\<close>

definition upstream_round :: "platform \<Rightarrow> edge_config \<Rightarrow> int \<Rightarrow> edge_service \<Rightarrow> edge_service" where
  "upstream_round P cfg now s =
     (case running s of
        Some (Forwarding c batch gen) \<Rightarrow>
          edge_step P cfg (Save_Returned now Saved) (edge_step P cfg (Forward_Returned (Inr (forward_all P batch))) s)
      | _ \<Rightarrow> s)"

definition sending :: "edge_config \<Rightarrow> (string \<times> stored_record) list \<Rightarrow> edge_service \<Rightarrow> bool" where
  "sending cfg L s \<longleftrightarrow> localStore s = L \<and> isConnected s
     \<and> (if L = [] then running s = None else \<exists>c. running s = Some (Forwarding c (take (forwardBatchSize cfg) (map snd L)) (generation s)))"

lemma filter_taken: "distinct (map fst L) \<Longrightarrow> filter (\<lambda>(k, r). k \<notin> fst ` set (take b L)) L = drop b L"
proof -
  assume d: "distinct (map fst L)"
  then have "distinct (map fst (take b L @ drop b L))" by simp
  then have "fst ` set (take b L) \<inter> fst ` set (drop b L) = {}" by (simp only: map_append distinct_append set_map)
  then have "k \<notin> fst ` set (take b L)" if "(k, r) \<in> set (drop b L)" for k r using imageI [OF that, of fst] by auto
  then have "filter (\<lambda>(k, r). k \<notin> fst ` set (take b L)) (drop b L) = drop b L" by (intro filter_True) auto
  moreover have "filter (\<lambda>(k, r). k \<notin> fst ` set (take b L)) (take b L) = []" by (intro filter_False) force
  ultimately have "filter (\<lambda>(k, r). k \<notin> fst ` set (take b L)) (take b L @ drop b L) = drop b L" by (simp only: filter_append append_Nil)
  then show ?thesis by simp
qed

lemma bumped_none [simp]: "bumped P [] L = L"
  by (simp add: bumped_def case_prod_eta map_idI)

lemma taken_ids: "store_ok P L \<Longrightarrow> map sr_id (take b (map snd L)) = map fst (take b L)"
  by (auto simp: store_ok_def take_map dest!: in_set_takeD)

lemma sync_loop_sending: "isConnected s \<Longrightarrow> sending cfg (localStore s) (sync_loop cfg c s)"
  by (simp add: sending_def sync_loop_def sync_returns_def release_lock_def)

lemma round_sends:
  assumes "sending cfg L s" "store_ok P L" "L \<noteq> []" "0 < forwardBatchSize cfg"
  shows "sending cfg (drop (forwardBatchSize cfg) L) (upstream_round P cfg now s)
    \<and> durable (upstream_round P cfg now s) = map snd (drop (forwardBatchSize cfg) L)"
proof -
  let ?b = "forwardBatchSize cfg"
  let ?batch = "take ?b (map snd L)"
  let ?ids = "map fst (take ?b L)"
  obtain c where c: "running s = Some (Forwarding c ?batch (generation s))" and L: "localStore s = L" "isConnected s"
    using assms(1,3) by (auto simp: sending_def)
  have ids: "map sr_id ?batch = ?ids" using taken_ids [OF assms(2)] .
  have d: "distinct (map fst L)" using assms(2) by (simp add: store_ok_def)
  let ?x = "\<lparr> x_batch = ?ids, x_generation = generation s, x_todo = [], x_conflicts = [], x_acknowledged = remdups ?ids \<rparr>"
  let ?t = "s \<lparr> answers := (?batch, forward_all P ?batch) # answers s \<rparr>"
  have "find (\<lambda>i. i \<notin> sr_id ` set ?batch) (map sr_id ?batch) = None" by (auto simp: find_None_iff)
  then have "edge_step P cfg (Forward_Returned (Inr (forward_all P ?batch))) s = settle_batch P c ?x ?t"
    by (simp add: edge_step_def c forward_returned_def forward_all_def reconcile_next_def Let_def ids)
  also have "\<dots> = ?t \<lparr> localStore := drop ?b L, running := Some (SavingBatch c ?x (map snd (drop ?b L))) \<rparr>"
  proof -
    have kept: "filter (\<lambda>(k, r). k \<notin> set (x_acknowledged ?x)) (localStore ?t) = drop ?b L" using filter_taken [OF d] L by simp
    have "distinct (map fst (take ?b L @ drop ?b L))" using d by simp
    then have "filter (\<lambda>i. i \<in> fst ` set (drop ?b L) \<and> i \<notin> set (x_conflicts ?x)) (x_batch ?x) = []"
      by (simp only: map_append distinct_append set_map filter_empty_conv batch_context.select_convs) blast
    then show ?thesis using kept by (simp add: settle_batch_def Let_def bump_alt)
  qed
  finally have step: "upstream_round P cfg now s = edge_step P cfg (Save_Returned now Saved)
      (?t \<lparr> localStore := drop ?b L, running := Some (SavingBatch c ?x (map snd (drop ?b L))) \<rparr>)"
    by (simp add: upstream_round_def c)
  have "remdups ?ids \<noteq> []" using assms(3,4) by simp
  then show ?thesis
    unfolding step using L
    by (auto simp: edge_step_def save_returned_def batch_saved_def persisted_def Let_def sending_def sync_loop_def sync_returns_def release_lock_def)
qed

lemma store_ok_drop: "store_ok P L \<Longrightarrow> store_ok P (drop n L)"
  by (auto simp: store_ok_def drop_map [symmetric] dest!: in_set_dropD)

lemma rounds_drain:
  assumes "0 < forwardBatchSize cfg"
  shows "sending cfg L s \<Longrightarrow> store_ok P L \<Longrightarrow> L \<noteq> [] \<or> durable s = []
    \<Longrightarrow> (let t = (upstream_round P cfg now ^^ ceil_div (length L) (forwardBatchSize cfg)) s in (localStore t, durable t, running t)) = ([], [], None)"
proof (induction "length L" arbitrary: L s rule: less_induct)
  case less
  show ?case
  proof (cases "L = []")
    case True
    then show ?thesis using less.prems assms by (simp add: sending_def)
  next
    case False
    let ?b = "forwardBatchSize cfg"
    have step: "ceil_div (length L) ?b = Suc (ceil_div (length (drop ?b L)) ?b)" using ceil_div_step [OF assms] False by simp
    have "length (drop ?b L) < length L" using False assms by (simp add: diff_less)
    then show ?thesis
      using less.hyps [of "drop ?b L" "upstream_round P cfg now s"] round_sends [OF less.prems(1,2) False assms] store_ok_drop [OF less.prems(2)]
      unfolding step funpow_Suc_right by (simp add: Let_def)
  qed
qed

text \<open>C30: With an upstream that acknowledges the batches it gets and confirms their roots, one synchronisation forwards everything:
  after as many batches as it takes, the map and the stored queue are empty and the operation has ended.
\<close>

theorem sync_empties_queue:
  assumes "store_ok P (localStore s)" "localStore s \<noteq> []" "isConnected s" "running s = None" "waiting s = [SyncWork c]" "validateConfig cfg"
  shows "(let t = (upstream_round P cfg now ^^ ceil_div (length (localStore s)) (forwardBatchSize cfg)) (edge_step P cfg (Grant start newId) s)
    in (localStore t, durable t, running t)) = ([], [], None)"
proof -
  have "sending cfg (localStore s) (edge_step P cfg (Grant start newId) s)"
    using sync_loop_sending [of "s \<lparr> waiting := [] \<rparr>"] assms(3-5) by (simp add: edge_step_def grant_def Let_def)
  moreover have "0 < forwardBatchSize cfg" using assms(6) by (simp add: validateConfig_def)
  ultimately show ?thesis using rounds_drain assms(1,2) by blast
qed

section \<open>Witnesses\<close>

definition digest_platform :: platform where
  "digest_platform = sample_platform \<lparr> sha256 := (\<lambda>b. replicate 32 0) \<rparr>"


definition pending_record :: stored_record where
  "pending_record = sealed sample_platform \<lparr> sr_id = ''r1'', sr_timestamp = 7, sr_data = JBool True, sr_attempts = 0, sr_driverId = None,
     sr_kind = Telemetry, sr_origin = ''plc'', sr_fieldVersions = None, sr_checksum = [] \<rparr>"

definition connected_service :: edge_service where
  "connected_service = fresh_service \<lparr> localStore := [(''r1'', pending_record)], durable := [pending_record], isConnected := True,
     initialized := True, stopped := False, waiting := [SyncWork ByClient] \<rparr>"

lemma pending_ok_sample: "store_ok sample_platform [(''r1'', pending_record)]"
proof -
  have "rec_ok sample_platform pending_record"
    unfolding pending_record_def by (rule rec_ok_sealed) (simp add: contents_ok_def blank_def)
  then show ?thesis by (simp add: store_ok_def pending_record_def)
qed

theorem sync_empties_queue_witness:
  "(let t = (upstream_round sample_platform sample_edge 9 ^^ ceil_div (length (localStore connected_service)) (forwardBatchSize sample_edge))
      (edge_step sample_platform sample_edge (Grant 8 ''x'') connected_service) in (localStore t, durable t, running t)) = ([], [], None)"
  by (rule sync_empties_queue [where c = ByClient]) (simp_all add: connected_service_def fresh_service_def sample_edge_def validateConfig_def pending_ok_sample)

end
