(* ===== verification/Goose_Frame.thy ===== *)
theory Goose_Frame
  imports JS_Arith
begin

unbundle bit_operations_syntax

text \<open>
  The parser of GOOSE frames (\<open>protocols/iec61850-goose/frame-parser.ts\<close> with the types of \<open>types.ts\<close>): Ethernet and GOOSE
  headers, BER, the dataset. The length of a BER value is gathered with \<open><<\<close> and \<open>|\<close> on 32 bit integers with sign, and the loop over
  the children of a value goes on where a child says it ends; both are modelled as they are, so the loop is a partial function
  whose value \<open>None\<close> means that it does not return. An octet read out of range is \<open>undefined\<close>, a sum with it \<open>NaN\<close>: both are \<open>None\<close>.
  A thrown error is a left value.
\<close>

datatype goose_error =
    ReadPastEnd
  | HighTagNumber
  | TruncatedBeforeLength
  | IndefiniteLength
  | UnsupportedLength nat
  | TruncatedLengthOctets
  | ContentExceedsBuffer
  | IntegerTooLarge nat
  | UnsupportedFloat nat
  | EmptyQuality
  | ShortUtcTime nat
  | UnexpectedTag
  | MissingField string
  | FrameTooShort nat
  | TruncatedVlanTag
  | OutOfRange
  | NotGoose nat
  | TruncatedGooseHeader

section \<open>BER\<close>

record ber_tlv =
  tlv_tag :: "nat option"
  tlv_constructed :: bool
  tlv_content :: buffer
  tlv_end :: "int option"

definition byte_at :: "buffer \<Rightarrow> int \<Rightarrow> nat option" where
  "byte_at buf i = (if 0 \<le> i \<and> i < int (length buf) then Some (unat (buf ! nat i)) else None)"

text \<open>\<open>buf.subarray(s, e)\<close> counts negative positions from the end.\<close>

definition js_subarray :: "buffer \<Rightarrow> int \<Rightarrow> int \<Rightarrow> buffer" where
  "js_subarray buf s e =
     (let n = int (length buf); clamp = (\<lambda>i. if i < 0 then max 0 (n + i) else min i n)
      in subarray buf (nat (clamp s)) (nat (clamp e)))"

definition length_octets :: "buffer \<Rightarrow> int" where
  "length_octets bs = sint (foldl (\<lambda>w b. push_bit 8 w OR ucast b) (0 :: 32 word) bs)"

definition finish_tlv :: "buffer \<Rightarrow> nat option \<Rightarrow> int \<Rightarrow> int \<Rightarrow> goose_error + ber_tlv" where
  "finish_tlv buf tag contentStart len =
     (let contentEnd = contentStart + len
      in if contentEnd > int (length buf) then Inl ContentExceedsBuffer
         else Inr \<lparr> tlv_tag = tag, tlv_constructed = (case tag of None \<Rightarrow> False | Some t \<Rightarrow> bit t 5),
                tlv_content = js_subarray buf contentStart contentEnd, tlv_end = Some contentEnd \<rparr>)"

definition readTlv :: "buffer \<Rightarrow> int \<Rightarrow> goose_error + ber_tlv" where
  "readTlv buf offset =
     (if offset \<ge> int (length buf) then Inl ReadPastEnd
      else
        let firstTagByte = byte_at buf offset; cursor = offset + 1 in
        if (case firstTagByte of None \<Rightarrow> False | Some t \<Rightarrow> t AND 0x1f = 0x1f) then Inl HighTagNumber
        else if cursor \<ge> int (length buf) then Inl TruncatedBeforeLength
        else (case byte_at buf cursor of
          None \<Rightarrow> Inr \<lparr> tlv_tag = firstTagByte, tlv_constructed = False, tlv_content = js_subarray buf (cursor + 1) 0, tlv_end = None \<rparr>
        | Some lengthByte \<Rightarrow>
            let cursor = cursor + 1 in
            if \<not> bit lengthByte 7 then finish_tlv buf firstTagByte cursor (int lengthByte)
            else
              let numLenOctets = lengthByte AND 0x7f in
              if numLenOctets = 0 then Inl IndefiniteLength
              else if numLenOctets > 4 then Inl (UnsupportedLength numLenOctets)
              else if cursor + int numLenOctets > int (length buf) then Inl TruncatedLengthOctets
              else finish_tlv buf firstTagByte (cursor + int numLenOctets)
                     (length_octets (subarray buf (nat cursor) (nat cursor + numLenOctets)))))"

partial_function (option) children_loop :: "buffer \<Rightarrow> int option \<Rightarrow> ber_tlv list \<Rightarrow> (goose_error + ber_tlv list) option" where
  "children_loop content offset out =
     (case offset of
        None \<Rightarrow> Some (Inr out)
      | Some off \<Rightarrow>
          if off < int (length content)
          then (case readTlv content off of
                  Inl e \<Rightarrow> Some (Inl e)
                | Inr tlv \<Rightarrow> children_loop content (tlv_end tlv) (out @ [tlv]))
          else Some (Inr out))"

definition readChildren :: "buffer \<Rightarrow> (goose_error + ber_tlv list) option" where
  "readChildren content = children_loop content (Some 0) []"

definition be_value :: "buffer \<Rightarrow> nat" where
  "be_value bs = foldl (\<lambda>v b. v * 256 + unat b) 0 bs"

definition decodeUnsigned :: "buffer \<Rightarrow> goose_error + nat" where
  "decodeUnsigned content = (if length content > 6 then Inl (IntegerTooLarge (length content)) else Inr (be_value content))"

definition decodeSigned :: "buffer \<Rightarrow> goose_error + int" where
  "decodeSigned content =
     (if content = [] then Inr 0
      else if length content > 6 then Inl (IntegerTooLarge (length content))
      else Inr (int (be_value content) - (if bit (hd content) 7 then 2 ^ (8 * length content) else 0)))"

definition decodeBoolean :: "buffer \<Rightarrow> bool" where
  "decodeBoolean content = list_ex (\<lambda>b. b \<noteq> 0) content"

definition readDoubleBE :: "buffer \<Rightarrow> nat \<Rightarrow> number" where
  "readDoubleBE b off = float_decode 53 11 (readUIntBE b off 8)"

definition decodeFloat :: "buffer \<Rightarrow> goose_error + number" where
  "decodeFloat content =
     (if length content = 5 then Inr (readFloatBE content 1)
      else if length content = 9 then Inr (readDoubleBE content 1)
      else if length content = 4 then Inr (readFloatBE content 0)
      else if length content = 8 then Inr (readDoubleBE content 0)
      else Inl (UnsupportedFloat (length content)))"

section \<open>Quality and time\<close>

datatype validity = Good | Invalid | Reserved | Questionable

record goose_quality =
  q_validity :: validity
  q_overflow :: bool
  q_outOfRange :: bool
  q_badReference :: bool
  q_oscillatory :: bool
  q_failure :: bool
  q_oldData :: bool
  q_inconsistent :: bool
  q_inaccurate :: bool
  q_substituted :: bool
  q_test :: bool
  q_operatorBlocked :: bool

text \<open>Bit 0 is the most significant bit of the first octet.\<close>

definition bitstring_bit :: "buffer \<Rightarrow> nat \<Rightarrow> bool" where
  "bitstring_bit dataBytes n = (n div 8 < length dataBytes \<and> bit (dataBytes ! (n div 8)) (7 - n mod 8))"

definition decodeQuality :: "buffer \<Rightarrow> goose_error + goose_quality" where
  "decodeQuality content =
     (if content = [] then Inl EmptyQuality
      else let b = bitstring_bit (tl content) in
        Inr \<lparr> q_validity = (if b 0 then if b 1 then Questionable else Reserved else if b 1 then Invalid else Good),
          q_overflow = b 2, q_outOfRange = b 3, q_badReference = b 4, q_oscillatory = b 5, q_failure = b 6, q_oldData = b 7,
          q_inconsistent = b 8, q_inaccurate = b 9, q_substituted = b 10, q_test = b 11, q_operatorBlocked = b 12 \<rparr>)"

definition decodeUtcTime :: "buffer \<Rightarrow> goose_error + nat \<times> nat \<times> nat" where
  "decodeUtcTime content =
     (if length content < 8 then Inl (ShortUtcTime (length content))
      else Inr (readUInt32BE content 0, be_value (subarray content 4 7), unat (content ! 7)))"

section \<open>The dataset\<close>

datatype goose_value =
    GBoolean bool
  | GInt int
  | GUint nat
  | GFloat number
  | GBitstring "bool list" nat
  | GQuality goose_quality
  | GOctets buffer
  | GVisible string
  | GUtc nat nat nat
  | GStructure "goose_value list"
  | GUnknown "nat option" buffer

definition latin1 :: "buffer \<Rightarrow> string" where
  "latin1 b = map (\<lambda>x. char_of (unat x)) b"

definition looksLikeQuality :: "buffer \<Rightarrow> bool" where
  "looksLikeQuality content \<longleftrightarrow> 2 \<le> length content \<and> length content \<le> 3 \<and> unat (hd content) \<le> 7"

definition decode_bitstring :: "buffer \<Rightarrow> goose_value" where
  "decode_bitstring content =
     (let unusedBits = (if content = [] then 0 else unat (hd content)); dataBytes = tl content
      in GBitstring (map (bitstring_bit dataBytes) [0..<length dataBytes * 8 - unusedBits]) unusedBits)"

text \<open>\<open>items.map(f)\<close> for a function that may throw or not return.\<close>

fun collect :: "('e + 'a) option list \<Rightarrow> ('e + 'a list) option" where
  "collect [] = Some (Inr [])"
| "collect (None # rs) = None"
| "collect (Some (Inl e) # rs) = Some (Inl e)"
| "collect (Some (Inr x) # rs) = (case collect rs of None \<Rightarrow> None | Some (Inl e) \<Rightarrow> Some (Inl e) | Some (Inr xs) \<Rightarrow> Some (Inr (x # xs)))"

lemma subarray_shorter: "0 < s \<Longrightarrow> buf \<noteq> [] \<Longrightarrow> length (js_subarray buf s e) < length buf"
proof -
  assume "0 < s" "buf \<noteq> []"
  moreover have "length (js_subarray buf s e) \<le> length buf - nat (min s (int (length buf)))" if "0 < s"
    using that by (simp add: js_subarray_def Let_def length_subarray)
  moreover have "0 < nat (min s (int (length buf)))" if "0 < s" "buf \<noteq> []" using that by (simp add: min_def)
  ultimately show ?thesis by (meson diff_less le_less_trans length_greater_0_conv)
qed

lemma finish_content: "finish_tlv buf tag s len = Inr t \<Longrightarrow> tlv_content t = js_subarray buf s (s + len) \<and> tlv_end t = Some (s + len)"
  by (auto simp: finish_tlv_def Let_def split: if_splits)

lemma readTlv_shorter: "readTlv buf off = Inr t \<Longrightarrow> buf \<noteq> [] \<Longrightarrow> length (tlv_content t) < length buf"
proof -
  assume t: "readTlv buf off = Inr t" and ne: "buf \<noteq> []"
  show ?thesis
  proof (cases "byte_at buf (off + 1)")
    case None
    then have "tlv_content t = js_subarray buf (2 + off) 0" "off + 1 < 0"
      using t by (auto simp: readTlv_def Let_def byte_at_def split: if_splits)
    then show ?thesis using ne by (auto simp: js_subarray_def Let_def length_subarray)
  next
    case (Some b)
    then have "0 \<le> off + 1" by (simp add: byte_at_def split: if_splits)
    then obtain s len where "finish_tlv buf (byte_at buf off) s len = Inr t" "0 < s"
      using t Some by (auto simp: readTlv_def Let_def split: if_splits)
    then show ?thesis using finish_content subarray_shorter ne by metis
  qed
qed

lemma children_members:
  assumes "children_loop content off out = Some r"
  shows "\<forall>ts t. r = Inr ts \<and> t \<in> set ts \<longrightarrow> t \<in> set out \<or> (\<exists>i. readTlv content i = Inr t)"
proof (rule children_loop.raw_induct [OF _ assms], goal_cases)
  case (1 loop content off out r)
  show ?case
  proof (cases "\<exists>i x. off = Some i \<and> i < int (length content) \<and> readTlv content i = Inr x")
    case True
    then obtain i x where x: "off = Some i" "i < int (length content)" "readTlv content i = Inr x" by blast
    then have "loop content (tlv_end x) (out @ [x]) = Some r" using 1(2) by simp
    from 1(1) [OF this] show ?thesis using x(3) by auto
  next
    case False
    then show ?thesis using 1(2) by (auto split: option.splits if_splits sum.splits)
  qed
qed

lemma readChildren_shorter:
  assumes "readChildren content = Some (Inr ts)" "t \<in> set ts"
  shows "length (tlv_content t) < length content"
proof -
  obtain i where i: "readTlv content i = Inr t" using children_members [of content "Some 0" "[]" "Inr ts"] assms by (auto simp: readChildren_def)
  have "content \<noteq> []"
    using assms by (auto simp: readChildren_def children_loop.simps [of "[]"])
  then show ?thesis using readTlv_shorter [OF i] by simp
qed

function decodeDataValue :: "ber_tlv \<Rightarrow> (goose_error + goose_value) option" where
  "decodeDataValue tlv =
     (let c = tlv_content tlv; tag = tlv_tag tlv in
      if tag = Some 0x83 then Some (Inr (GBoolean (decodeBoolean c)))
      else if tag = Some 0x85 then Some (map_sum id GInt (decodeSigned c))
      else if tag = Some 0x86 then Some (map_sum id GUint (decodeUnsigned c))
      else if tag = Some 0x87 \<or> tag = Some 0x88 then Some (map_sum id GFloat (decodeFloat c))
      else if tag = Some 0x84
      then Some (if looksLikeQuality c then map_sum id GQuality (decodeQuality c) else Inr (decode_bitstring c))
      else if tag = Some 0x89 then Some (Inr (GOctets c))
      else if tag = Some 0x8a then Some (Inr (GVisible (latin1 c)))
      else if tag = Some 0x91 then Some (map_sum id (\<lambda>(s, f, q). GUtc s f q) (decodeUtcTime c))
      else if tag = Some 0xa1 \<or> tag = Some 0xa2
      then (case readChildren c of
              None \<Rightarrow> None
            | Some (Inl e) \<Rightarrow> Some (Inl e)
            | Some (Inr ts) \<Rightarrow> map_option (map_sum id GStructure) (collect (map decodeDataValue ts)))
      else Some (Inr (GUnknown tag c)))"
  by pat_completeness auto
termination
  by (relation "measure (\<lambda>t. length (tlv_content t))") (auto dest: readChildren_shorter)

declare decodeDataValue.simps [simp del]

section \<open>The PDU\<close>

record goose_pdu =
  gocbRef :: string
  timeAllowedToLive :: nat
  datSet :: string
  goID :: string
  pdu_t :: number
  stNum :: nat
  sqNum :: nat
  simulation :: bool
  confRev :: nat
  ndsCom :: bool
  numDatSetEntries :: nat
  allData :: "goose_value list"

text \<open>A PDU while it is read: a field that the code leaves \<open>undefined\<close> is \<open>None\<close>.\<close>

record partial_pdu =
  p_gocbRef :: "string option"
  p_timeAllowedToLive :: "nat option"
  p_datSet :: "string option"
  p_goID :: string
  p_t :: number
  p_stNum :: "nat option"
  p_sqNum :: "nat option"
  p_simulation :: bool
  p_confRev :: nat
  p_ndsCom :: bool
  p_numDatSetEntries :: "nat option"
  p_allData :: "goose_value list"

definition empty_pdu :: partial_pdu where
  "empty_pdu = \<lparr> p_gocbRef = None, p_timeAllowedToLive = None, p_datSet = None, p_goID = [], p_t = num_of_int 0, p_stNum = None, p_sqNum = None,
     p_simulation = False, p_confRev = 0, p_ndsCom = False, p_numDatSetEntries = None, p_allData = [] \<rparr>"

definition utc_ms :: "nat \<Rightarrow> nat \<Rightarrow> number" where
  "utc_ms seconds fraction = num_add (num_mul (num_of_int (int seconds)) (num_of_int 1000))
     (num_mul (num_div (num_of_int (int fraction)) (num_of_int 0x1000000)) (num_of_int 1000))"

definition decodeUtcTimeToMs :: "buffer \<Rightarrow> goose_error + number" where
  "decodeUtcTimeToMs content =
     (if length content < 4 then Inr (num_of_int 0)
      else map_sum id (\<lambda>(seconds, fraction, quality). utc_ms seconds fraction)
             (decodeUtcTime (if length content \<ge> 8 then content else content @ replicate (8 - length content) 0)))"

definition read_field :: "ber_tlv \<Rightarrow> partial_pdu \<Rightarrow> (goose_error + partial_pdu) option" where
  "read_field child p =
     (let c = tlv_content child; tag = tlv_tag child in
      if tag = Some 0x80 then Some (Inr (p \<lparr> p_gocbRef := Some (latin1 c) \<rparr>))
      else if tag = Some 0x81 then Some (map_sum id (\<lambda>v. p \<lparr> p_timeAllowedToLive := Some v \<rparr>) (decodeUnsigned c))
      else if tag = Some 0x82 then Some (Inr (p \<lparr> p_datSet := Some (latin1 c) \<rparr>))
      else if tag = Some 0x83 then Some (Inr (p \<lparr> p_goID := latin1 c \<rparr>))
      else if tag = Some 0x84 then Some (map_sum id (\<lambda>v. p \<lparr> p_t := v \<rparr>) (decodeUtcTimeToMs c))
      else if tag = Some 0x85 then Some (map_sum id (\<lambda>v. p \<lparr> p_stNum := Some v \<rparr>) (decodeUnsigned c))
      else if tag = Some 0x86 then Some (map_sum id (\<lambda>v. p \<lparr> p_sqNum := Some v \<rparr>) (decodeUnsigned c))
      else if tag = Some 0x87 then Some (Inr (p \<lparr> p_simulation := decodeBoolean c \<rparr>))
      else if tag = Some 0x88 then Some (map_sum id (\<lambda>v. p \<lparr> p_confRev := v \<rparr>) (decodeUnsigned c))
      else if tag = Some 0x89 then Some (Inr (p \<lparr> p_ndsCom := decodeBoolean c \<rparr>))
      else if tag = Some 0x8a then Some (map_sum id (\<lambda>v. p \<lparr> p_numDatSetEntries := Some v \<rparr>) (decodeUnsigned c))
      else if tag = Some 0xab
      then (case readChildren c of
              None \<Rightarrow> None
            | Some (Inl e) \<Rightarrow> Some (Inl e)
            | Some (Inr ts) \<Rightarrow> map_option (map_sum id (\<lambda>vs. p \<lparr> p_allData := vs \<rparr>)) (collect (map decodeDataValue ts)))
      else Some (Inr p))"

fun read_fields :: "ber_tlv list \<Rightarrow> partial_pdu \<Rightarrow> (goose_error + partial_pdu) option" where
  "read_fields [] p = Some (Inr p)"
| "read_fields (child # rest) p =
     (case read_field child p of
        None \<Rightarrow> None
      | Some (Inl e) \<Rightarrow> Some (Inl e)
      | Some (Inr p') \<Rightarrow> read_fields rest p')"

definition finish_pdu :: "partial_pdu \<Rightarrow> goose_error + goose_pdu" where
  "finish_pdu p =
     (case p_gocbRef p of None \<Rightarrow> Inl (MissingField ''gocbRef'') | Some ref \<Rightarrow>
     (case p_timeAllowedToLive p of None \<Rightarrow> Inl (MissingField ''timeAllowedToLive'') | Some ttl \<Rightarrow>
     (case p_datSet p of None \<Rightarrow> Inl (MissingField ''datSet'') | Some ds \<Rightarrow>
     (case p_stNum p of None \<Rightarrow> Inl (MissingField ''stNum'') | Some st \<Rightarrow>
     (case p_sqNum p of None \<Rightarrow> Inl (MissingField ''sqNum'') | Some sq \<Rightarrow>
        Inr \<lparr> gocbRef = ref, timeAllowedToLive = ttl, datSet = ds, goID = p_goID p, pdu_t = p_t p, stNum = st, sqNum = sq,
          simulation = p_simulation p, confRev = p_confRev p, ndsCom = p_ndsCom p,
          numDatSetEntries = (case p_numDatSetEntries p of Some n \<Rightarrow> n | None \<Rightarrow> length (p_allData p)), allData = p_allData p \<rparr>)))))"

definition parseGoosePdu :: "buffer \<Rightarrow> (goose_error + goose_pdu) option" where
  "parseGoosePdu apdu =
     (case readTlv apdu 0 of
        Inl e \<Rightarrow> Some (Inl e)
      | Inr root \<Rightarrow>
          if tlv_tag root \<noteq> Some 0x61 then Some (Inl UnexpectedTag)
          else (case readChildren (tlv_content root) of
            None \<Rightarrow> None
          | Some (Inl e) \<Rightarrow> Some (Inl e)
          | Some (Inr children) \<Rightarrow>
              (case read_fields children empty_pdu of
                 None \<Rightarrow> None
               | Some (Inl e) \<Rightarrow> Some (Inl e)
               | Some (Inr p) \<Rightarrow> Some (finish_pdu p))))"

section \<open>The frame\<close>

record goose_frame =
  destMac :: string
  srcMac :: string
  vlanId :: "nat option"
  vlanPriority :: "nat option"
  appId :: nat
  goose_length :: nat
  frame_pdu :: goose_pdu

definition hex_char :: "nat \<Rightarrow> char" where
  "hex_char n = char_of (if n < 10 then 48 + n else 87 + n)"

definition hex_octet :: "byte \<Rightarrow> string" where
  "hex_octet b = [hex_char (unat b div 16), hex_char (unat b mod 16)]"

fun join_colons :: "string list \<Rightarrow> string" where
  "join_colons [] = []"
| "join_colons [s] = s"
| "join_colons (s # t # ss) = s @ '':'' @ join_colons (t # ss)"

definition formatMac :: "buffer \<Rightarrow> nat \<Rightarrow> string" where
  "formatMac buf offset = join_colons (map (\<lambda>i. hex_octet (buf ! (offset + i))) [0..<6])"

definition parse_goose_header :: "buffer \<Rightarrow> (nat \<times> nat) option \<Rightarrow> nat \<Rightarrow> nat \<Rightarrow> (goose_error + goose_frame) option" where
  "parse_goose_header frame vlan etherType offset =
     (if etherType \<noteq> 0x88b8 then Some (Inl (NotGoose etherType))
      else if length frame < offset + 8 then Some (Inl TruncatedGooseHeader)
      else map_option (map_sum id (\<lambda>pdu. \<lparr> destMac = formatMac frame 0, srcMac = formatMac frame 6, vlanId = map_option fst vlan,
             vlanPriority = map_option snd vlan, appId = readUInt16BE frame offset, goose_length = readUInt16BE frame (offset + 2), frame_pdu = pdu \<rparr>))
           (parseGoosePdu (drop (offset + 8) frame)))"

definition parseGooseFrame :: "buffer \<Rightarrow> (goose_error + goose_frame) option" where
  "parseGooseFrame frame =
     (if length frame < 14 then Some (Inl (FrameTooShort (length frame)))
      else let etherType = readUInt16BE frame 12 in
        if etherType = 0x8100
        then if length frame < 16 then Some (Inl TruncatedVlanTag)
             else if length frame < 18 then Some (Inl OutOfRange)
             else let tci = readUInt16BE frame 14
                  in parse_goose_header frame (Some (tci AND 0xfff, drop_bit 13 tci AND 7)) (readUInt16BE frame 16) 18
        else parse_goose_header frame None etherType 14)"

section \<open>When the parser returns\<close>

text \<open>
  The positions at which the parser looks for the children of a value: the first octet of the content of the root, where a child
  that was read ends, and the first octet of the content of the dataset (tag 0xab), of an array and of a structure.
\<close>

inductive child_at :: "buffer \<Rightarrow> buffer \<Rightarrow> int \<Rightarrow> bool" for apdu where
  first_child: "readTlv apdu 0 = Inr root \<Longrightarrow> tlv_tag root = Some 0x61 \<Longrightarrow> child_at apdu (tlv_content root) 0"
| next_child: "child_at apdu c off \<Longrightarrow> readTlv c off = Inr t \<Longrightarrow> tlv_end t = Some off' \<Longrightarrow> child_at apdu c off'"
| inner_child: "child_at apdu c off \<Longrightarrow> readTlv c off = Inr t \<Longrightarrow> tlv_tag t \<in> {Some 0xab, Some 0xa1, Some 0xa2} \<Longrightarrow>
    child_at apdu (tlv_content t) 0"

text \<open>The child at a position has a length of four octets with the top bit set: a negative number of 32 bits.\<close>

definition negative_length_at :: "buffer \<Rightarrow> int \<Rightarrow> bool" where
  "negative_length_at c off \<longleftrightarrow> 0 \<le> off \<and> off + 2 < int (length c) \<and> c ! nat (off + 1) = 0x84 \<and> bit (c ! nat (off + 2)) 7"

definition apdu_of :: "buffer \<Rightarrow> buffer" where
  "apdu_of frame = drop (if readUInt16BE frame 12 = 0x8100 then 26 else 22) frame"

definition no_negative_length :: "buffer \<Rightarrow> bool" where
  "no_negative_length apdu \<longleftrightarrow> (\<forall>c off. child_at apdu c off \<longrightarrow> \<not> negative_length_at c off)"

text \<open>A simple test that is sufficient: no octet 0x84 anywhere stands before an octet with its top bit set.\<close>

fun safe_lengths :: "buffer \<Rightarrow> bool" where
  "safe_lengths (x # y # bs) = ((x = 0x84 \<longrightarrow> \<not> bit y 7) \<and> safe_lengths (y # bs))"
| "safe_lengths bs = True"

lemma safe_lengths_nth: "safe_lengths buf \<longleftrightarrow> (\<forall>i. Suc i < length buf \<longrightarrow> buf ! i = 0x84 \<longrightarrow> \<not> bit (buf ! Suc i) 7)"
proof (induction buf rule: safe_lengths.induct)
  case (1 x y bs)
  show ?case
  proof
    assume "safe_lengths (x # y # bs)"
    then show "\<forall>i. Suc i < length (x # y # bs) \<longrightarrow> (x # y # bs) ! i = 0x84 \<longrightarrow> \<not> bit ((x # y # bs) ! Suc i) 7"
      using 1 by (auto simp: nth_Cons' [of x])
  next
    assume h: "\<forall>i. Suc i < length (x # y # bs) \<longrightarrow> (x # y # bs) ! i = 0x84 \<longrightarrow> \<not> bit ((x # y # bs) ! Suc i) 7"
    have "x = 0x84 \<longrightarrow> \<not> bit y 7" using h [rule_format, of 0] by simp
    moreover have "\<forall>i. Suc i < length (y # bs) \<longrightarrow> (y # bs) ! i = 0x84 \<longrightarrow> \<not> bit ((y # bs) ! Suc i) 7"
    proof (intro allI)
      fix i show "Suc i < length (y # bs) \<longrightarrow> (y # bs) ! i = 0x84 \<longrightarrow> \<not> bit ((y # bs) ! Suc i) 7" using h [rule_format, of "Suc i"] by simp
    qed
    ultimately show "safe_lengths (x # y # bs)" using 1 by simp
  qed
qed auto

lemma safe_sublist:
  assumes "safe_lengths buf"
  shows "safe_lengths (take n (drop m buf))"
  unfolding safe_lengths_nth
proof (intro allI impI)
  fix i
  assume i: "Suc i < length (take n (drop m buf))" "take n (drop m buf) ! i = 0x84"
  then have "Suc (m + i) < length buf" "buf ! (m + i) = 0x84" by auto
  then have "\<not> bit (buf ! Suc (m + i)) 7" using assms by (simp add: safe_lengths_nth)
  then show "\<not> bit (take n (drop m buf) ! Suc i) 7" using i(1) by auto
qed

lemma safe_subarray: "safe_lengths buf \<Longrightarrow> safe_lengths (js_subarray buf s e)"
  by (simp add: js_subarray_def Let_def subarray_def safe_sublist)

lemma safe_drop: "safe_lengths buf \<Longrightarrow> safe_lengths (drop n buf)"
  using safe_sublist [of buf "length buf"] by simp

lemma shift_or: "push_bit 8 (w :: 32 word) OR ucast (b :: byte) = w * 256 + ucast b"
proof -
  have "push_bit 8 w AND ucast b = 0" by (rule bit_eqI) (auto simp: bit_simps dest: bit_imp_le_length)
  then have "push_bit 8 w OR ucast b = push_bit 8 w + ucast b" using word_plus_and_or [of "push_bit 8 w" "ucast b"] by simp
  then show ?thesis by (simp add: push_bit_eq_mult)
qed

lemma length_octets_word: "foldl (\<lambda>w b. push_bit 8 w OR ucast b) (of_nat v :: 32 word) bs = of_nat (foldl (\<lambda>v b. v * 256 + unat b) v (bs :: buffer))"
proof (induction bs arbitrary: v)
  case (Cons b bs)
  have "push_bit 8 (of_nat v :: 32 word) OR ucast b = of_nat (v * 256 + unat b)" by (simp add: shift_or)
  then show ?case using Cons [of "v * 256 + unat b"] by simp
qed simp

lemma be_value_rev: "be_value bs = le_val (rev bs)"
proof (induction bs rule: rev_induct)
  case (snoc b bs)
  then show ?case by (simp add: be_value_def)
qed (simp add: be_value_def)

lemma length_octets_value:
  assumes "be_value bs < 2 ^ 31"
  shows "length_octets bs = int (be_value bs)"
proof -
  have "length_octets bs = sint (of_nat (be_value bs) :: 32 word)"
    using length_octets_word [of 0 bs] by (simp add: length_octets_def be_value_def)
  also have "\<dots> = signed_take_bit 31 (int (be_value bs))" by (simp add: signed_of_nat)
  also have "\<dots> = int (be_value bs)" using assms by (intro signed_take_bit_int_eq_self) auto
  finally show ?thesis .
qed

lemma top_bit_clear: "\<not> bit (b :: byte) 7 \<Longrightarrow> unat b < 128"
proof -
  assume "\<not> bit b 7"
  then have "\<not> bit (unat b) 7" by (simp add: bit_unsigned_iff)
  then have "even (unat b div 128)" by (simp add: bit_iff_odd)
  moreover have "unat b div 128 < 2" using unat_byte_lt [of b] by (simp add: less_mult_imp_div_less)
  ultimately have "unat b div 128 = 0" by (metis One_nat_def even_zero less_2_cases odd_one)
  then show ?thesis by simp
qed

lemma length_octets_nonneg:
  assumes "length bs \<le> 4" "length bs = 4 \<Longrightarrow> \<not> bit (hd bs) 7"
  shows "0 \<le> length_octets bs"
proof -
  have "be_value bs < 2 ^ 31"
  proof (cases "length bs = 4")
    case False
    then have "be_value bs < 256 ^ length bs" "length bs \<le> 3" using le_val_lt [of "rev bs"] assms(1) by (auto simp: be_value_rev)
    then show ?thesis using power_increasing [of "length bs" 3 "256 :: nat"] by simp
  next
    case True
    then obtain a b c d where bs: "bs = [a, b, c, d]" by (auto simp: numeral_eq_Suc length_Suc_conv)
    have "unat a < 128" using assms(2) True bs top_bit_clear by simp
    then show ?thesis
      by (simp add: bs be_value_rev) (use unat_byte_le [of b] unat_byte_le [of c] unat_byte_le [of d] in linarith)
  qed
  then show ?thesis by (simp add: length_octets_value)
qed

lemma readTlv_safe: "safe_lengths buf \<Longrightarrow> readTlv buf off = Inr t \<Longrightarrow> safe_lengths (tlv_content t)"
  by (auto simp: readTlv_def finish_tlv_def Let_def safe_subarray split: if_splits option.splits)

lemma long_form_4: "bit (unat b) 7 \<Longrightarrow> unat b AND 0x7f = 4 \<Longrightarrow> b = (0x84 :: byte)"
proof -
  assume top: "bit (unat b) 7" and low: "unat b AND 0x7f = 4"
  have "unat b mod 128 = 4" using low take_bit_eq_mask [of 7 "unat b"] by (simp add: mask_eq_exp_minus_1 take_bit_eq_mod)
  moreover have "odd (unat b div 128)" using top by (simp add: bit_iff_odd)
  moreover have "unat b div 128 = 0 \<or> unat b div 128 = 1" using unat_byte_lt [of b] by linarith
  ultimately have "unat b = 132" using div_mod_decomp [of "unat b" 128] by auto
  then have "unat b = unat (0x84 :: byte)" by simp
  then show ?thesis by (rule unsigned_word_eqI)
qed

lemma readTlv_progress:
  assumes "\<not> negative_length_at buf off" "0 \<le> off" "readTlv buf off = Inr t"
  shows "\<exists>e. tlv_end t = Some e \<and> off < e"
proof -
  have in_range: "off + 1 < int (length buf)" using assms(3) by (auto simp: readTlv_def Let_def split: if_splits)
  define b where "b = buf ! nat (off + 1)"
  have b: "byte_at buf (off + 1) = Some (unat b)" using in_range assms(2) by (simp add: byte_at_def b_def)
  show ?thesis
  proof (cases "bit (unat b) 7")
    case False
    then have "finish_tlv buf (byte_at buf off) (off + 1 + 1) (int (unat b)) = Inr t"
      using assms(3) in_range b by (auto simp: readTlv_def Let_def split: if_splits)
    from finish_content [OF this] show ?thesis using of_nat_0_le_iff [of "unat b"] by (intro exI [of _ "off + 1 + 1 + int (unat b)"]) linarith
  next
    case True
    define k where "k = unat b AND 0x7f"
    define os where "os = subarray buf (nat (off + 2)) (nat (off + 2) + k)"
    have t: "finish_tlv buf (byte_at buf off) (off + 2 + int k) (length_octets os) = Inr t"
      and k: "k \<le> 4" "off + 2 + int k \<le> int (length buf)"
      using assms(3) in_range b True by (auto simp: readTlv_def Let_def k_def os_def add.assoc split: if_splits)
    have len: "length os = k" using k assms(2) by (simp add: os_def length_subarray)
    have "\<not> bit (hd os) 7" if k4: "k = 4"
    proof -
      have "os ! 0 = buf ! nat (off + 2)" "os \<noteq> []" using k k4 len by (auto simp: os_def subarray_def)
      moreover have "b = 0x84" using True k4 by (simp add: k_def long_form_4)
      ultimately show ?thesis using assms(1,2) k k4 by (simp add: negative_length_at_def b_def hd_conv_nth)
    qed
    then have "0 \<le> length_octets os" using length_octets_nonneg [of os] len k(1) by simp
    then show ?thesis using finish_content [OF t] by auto
  qed
qed

lemma children_return:
  assumes "no_negative_length apdu"
  shows "child_at apdu c off \<Longrightarrow> 0 \<le> off \<Longrightarrow> children_loop c (Some off) out \<noteq> None"
proof (induction "nat (int (length c) - off)" arbitrary: off out rule: less_induct)
  case less
  show ?case
  proof (cases "readTlv c off")
    case (Inl e)
    then show ?thesis by (subst children_loop.simps) simp
  next
    case (Inr t)
    have "\<not> negative_length_at c off" using assms less.prems(1) by (simp add: no_negative_length_def)
    then obtain e where e: "tlv_end t = Some e" "off < e" using readTlv_progress [OF _ less.prems(2) Inr] by blast
    have at: "child_at apdu c e" using next_child [OF less.prems(1) Inr e(1)] .
    show ?thesis
    proof (cases "off < int (length c)")
      case True
      then have "children_loop c (Some e) (out @ [t]) \<noteq> None" using less e at by simp
      then show ?thesis using e True Inr by (subst children_loop.simps) simp
    qed (subst children_loop.simps, simp)
  qed
qed

lemma readChildren_return: "no_negative_length apdu \<Longrightarrow> child_at apdu c 0 \<Longrightarrow> readChildren c \<noteq> None"
  unfolding readChildren_def by (rule children_return) auto

lemma children_at:
  assumes "children_loop c off out = Some r"
  shows "\<forall>ts t. (\<forall>i. off = Some i \<longrightarrow> child_at apdu c i) \<and> r = Inr ts \<and> t \<in> set ts \<longrightarrow> t \<in> set out \<or> (\<exists>i. child_at apdu c i \<and> readTlv c i = Inr t)"
proof (rule children_loop.raw_induct [OF _ assms], goal_cases)
  case (1 loop c off out r)
  show ?case
  proof (cases "\<exists>i x. off = Some i \<and> i < int (length c) \<and> readTlv c i = Inr x")
    case True
    then obtain i x where x: "off = Some i" "i < int (length c)" "readTlv c i = Inr x" by blast
    then have "loop c (tlv_end x) (out @ [x]) = Some r" using 1(2) by simp
    from 1(1) [OF this] show ?thesis using x next_child [of apdu c i x] by auto
  next
    case False
    then show ?thesis using 1(2) by (auto split: option.splits if_splits sum.splits)
  qed
qed

lemma readChildren_at:
  assumes "child_at apdu c 0" "readChildren c = Some (Inr ts)" "t \<in> set ts"
  obtains i where "child_at apdu c i" "readTlv c i = Inr t"
  using children_at [of c "Some 0" "[]" "Inr ts" apdu] assms by (auto simp: readChildren_def)

lemma collect_return: "None \<notin> set rs \<Longrightarrow> collect rs \<noteq> None"
  by (induction rs rule: collect.induct) (auto split: option.splits sum.splits)

lemma decodeDataValue_return:
  assumes "no_negative_length apdu"
  shows "child_at apdu c i \<Longrightarrow> readTlv c i = Inr tlv \<Longrightarrow> decodeDataValue tlv \<noteq> None"
proof (induction tlv arbitrary: c i rule: decodeDataValue.induct)
  case (1 tlv)
  show ?case
  proof (cases "tlv_tag tlv = Some 0xa1 \<or> tlv_tag tlv = Some 0xa2")
    case False
    then show ?thesis by (subst decodeDataValue.simps) (auto simp: Let_def)
  next
    case True
    have at: "child_at apdu (tlv_content tlv) 0" using inner_child [OF 1(2,3)] True by auto
    obtain r where r: "readChildren (tlv_content tlv) = Some r" using readChildren_return [OF assms at] by blast
    have "None \<notin> decodeDataValue ` set ts" if ts: "r = Inr ts" for ts
    proof
      assume "None \<in> decodeDataValue ` set ts"
      then obtain t where t: "t \<in> set ts" "decodeDataValue t = None" by auto
      obtain j where "child_at apdu (tlv_content tlv) j" "readTlv (tlv_content tlv) j = Inr t"
        using readChildren_at [OF at _ t(1)] r ts by blast
      with 1(1) [OF refl refl _ _ _ _ _ _ _ _ _ r ts t(1)] True t(2) show False by auto
    qed
    then have "collect (map decodeDataValue ts) \<noteq> None" if "r = Inr ts" for ts
      using that collect_return [of "map decodeDataValue ts"] by simp
    then show ?thesis using True r by (subst decodeDataValue.simps) (auto simp: Let_def split: sum.splits)
  qed
qed

lemma read_field_return:
  assumes "no_negative_length apdu" "child_at apdu c i" "readTlv c i = Inr child"
  shows "read_field child p \<noteq> None"
proof (cases "tlv_tag child = Some 0xab")
  case False
  then show ?thesis by (auto simp: read_field_def Let_def)
next
  case True
  have at: "child_at apdu (tlv_content child) 0" using inner_child [OF assms(2,3)] True by simp
  obtain r where r: "readChildren (tlv_content child) = Some r" using readChildren_return [OF assms(1) at] by blast
  have "decodeDataValue t \<noteq> None" if "r = Inr ts" "t \<in> set ts" for ts t
    using readChildren_at [OF at _ that(2)] r that(1) decodeDataValue_return [OF assms(1)] by metis
  then have "collect (map decodeDataValue ts) \<noteq> None" if "r = Inr ts" for ts
    using that collect_return [of "map decodeDataValue ts"] by force
  then show ?thesis using True r by (auto simp: read_field_def Let_def split: sum.splits)
qed

lemma read_fields_return: "(\<And>t p. t \<in> set ts \<Longrightarrow> read_field t p \<noteq> None) \<Longrightarrow> read_fields ts p \<noteq> None"
proof (induction ts arbitrary: p)
  case (Cons t ts)
  then have "read_field t p \<noteq> None" "\<And>q. read_fields ts q \<noteq> None" by simp_all
  then show ?case by (auto split: option.splits sum.splits)
qed simp

lemma parseGoosePdu_return:
  assumes "no_negative_length apdu"
  shows "parseGoosePdu apdu \<noteq> None"
proof (cases "readTlv apdu 0")
  case (Inr root)
  show ?thesis
  proof (cases "tlv_tag root = Some 0x61")
    case True
    have at: "child_at apdu (tlv_content root) 0" using first_child [OF Inr True] .
    obtain r where r: "readChildren (tlv_content root) = Some r" using readChildren_return [OF assms at] by blast
    have "read_fields ts empty_pdu \<noteq> None" if "r = Inr ts" for ts
      using readChildren_at [OF at] r that read_field_return [OF assms] by (intro read_fields_return) metis
    then show ?thesis using Inr r by (auto simp: parseGoosePdu_def split: sum.splits)
  qed (simp add: parseGoosePdu_def Inr)
qed (simp add: parseGoosePdu_def)

lemma parse_goose_header_return:
  "no_negative_length (drop (offset + 8) frame) \<Longrightarrow> parse_goose_header frame vlan etherType offset \<noteq> None"
  using parseGoosePdu_return [of "drop (offset + 8) frame"] by (auto simp: parse_goose_header_def)

lemma safe_lengths_enough:
  assumes "safe_lengths apdu"
  shows "no_negative_length apdu"
proof -
  have "safe_lengths c" if "child_at apdu c off" for c off
    using that by (induction rule: child_at.induct) (auto intro: readTlv_safe [OF assms] readTlv_safe)
  moreover have "\<not> negative_length_at c off" if "safe_lengths c" for c off
  proof
    assume n: "negative_length_at c off"
    then have "0 \<le> off" by (simp add: negative_length_at_def)
    then have "nat (off + 2) = Suc (nat (off + 1))" by simp
    then show False using n that by (auto simp: negative_length_at_def safe_lengths_nth)
  qed
  ultimately show ?thesis by (auto simp: no_negative_length_def)
qed

text \<open>C36: \<open>parseGooseFrame\<close> returns a frame or throws an error for every buffer, of whatever content and length, unless at one of
  the positions where it reads a child there is a BER length of four octets with the top bit set. Such octets elsewhere, in
  addresses, headers, strings or values, do no harm. Without that condition it may run forever (\<open>negative_length_hangs\<close> below).
\<close>

theorem parseGooseFrame_returns:
  assumes "no_negative_length (apdu_of frame)"
  shows "\<exists>r. parseGooseFrame frame = Some r"
  using parse_goose_header_return [of 18 frame] parse_goose_header_return [of 14 frame] assms
  by (auto simp: parseGooseFrame_def apdu_of_def Let_def)

text \<open>A frame from a station whose address has the octets 84:ff, with a control block reference of the same two octets.\<close>

definition odd_frame :: buffer where
  "odd_frame = [0, 0, 0, 0, 0, 0, 0x84, 0xff, 0xff, 0xff, 0xfa, 0, 0x88, 0xb8, 0, 0, 0, 0, 0, 0, 0, 0, 0x61, 4, 0x80, 2, 0x84, 0xff]"

lemma odd_frame_children: "child_at (apdu_of odd_frame) c off \<Longrightarrow> c = [0x80, 2, 0x84, 0xff] \<and> (off = 0 \<or> off = 4)"
proof (induction rule: child_at.induct)
  have "readTlv (apdu_of odd_frame) 0 = Inr \<lparr> tlv_tag = Some 0x61, tlv_constructed = True, tlv_content = [0x80, 2, 0x84, 0xff], tlv_end = Some 6 \<rparr>"
    by (simp add: apdu_of_def odd_frame_def readUIntBE_def subarray_def readTlv_def byte_at_def finish_tlv_def Let_def js_subarray_def bit_iff_odd)
  then show "tlv_content root = [0x80, 2, 0x84, 0xff] \<and> (0 = (0 :: int) \<or> 0 = (4 :: int))"
    if "readTlv (apdu_of odd_frame) 0 = Inr root" for root using that by auto
next
  have at: "readTlv [0x80, 2, 0x84, 0xff] 0 = Inr \<lparr> tlv_tag = Some 0x80, tlv_constructed = False, tlv_content = [0x84, 0xff], tlv_end = Some 4 \<rparr>"
    "readTlv [0x80, 2, 0x84, 0xff] 4 = Inl ReadPastEnd"
    by (simp_all add: subarray_def readTlv_def byte_at_def finish_tlv_def Let_def js_subarray_def bit_iff_odd)
  show "c = [0x80, 2, 0x84, 0xff] \<and> (off' = 0 \<or> off' = 4)"
    if "c = [0x80, 2, 0x84, 0xff] \<and> (off = 0 \<or> off = 4)" "readTlv c off = Inr t" "tlv_end t = Some off'" for c off t off'
    using that at by auto
  show "tlv_content t = [0x80, 2, 0x84, 0xff] \<and> (0 = (0 :: int) \<or> 0 = (4 :: int))"
    if "c = [0x80, 2, 0x84, 0xff] \<and> (off = 0 \<or> off = 4)" "readTlv c off = Inr t" "tlv_tag t \<in> {Some 0xab, Some 0xa1, Some 0xa2}" for c off t
    using that at by auto
qed

theorem parseGooseFrame_returns_witness: "no_negative_length (apdu_of odd_frame) \<and> (\<exists>r. parseGooseFrame odd_frame = Some r)"
proof -
  have "no_negative_length (apdu_of odd_frame)"
    using odd_frame_children by (force simp: no_negative_length_def negative_length_at_def)
  then show ?thesis using parseGooseFrame_returns by blast
qed

text \<open>A value of six octets that says it is six octets short of none: its end is where it began.\<close>

lemma children_cycle:
  assumes t: "readTlv content off = Inr t" "tlv_end t = Some off" "off < int (length content)"
  shows "children_loop content (Some off) out = None"
proof (rule ccontr)
  assume "children_loop content (Some off) out \<noteq> None"
  then obtain r where r: "children_loop content (Some off) out = Some r" by blast
  have "content = content \<and> Some off = Some off \<longrightarrow> False"
  proof (rule children_loop.raw_induct [OF _ r, where P = "\<lambda>c i out r. c = content \<and> i = Some off \<longrightarrow> False"], goal_cases)
    case (1 loop c off' out r)
    then show ?case using t by fastforce
  qed
  then show False by simp
qed

lemma negative_length_tlv:
  "readTlv [0x80, 0x84, 0xff, 0xff, 0xff, 0xfa] 0
   = Inr \<lparr> tlv_tag = Some 0x80, tlv_constructed = False, tlv_content = [], tlv_end = Some 0 \<rparr>"
proof -
  have "length_octets [0xff, 0xff, 0xff, 0xfa] = - 6" by (simp add: length_octets_def)
  then show ?thesis
    by (simp add: readTlv_def byte_at_def finish_tlv_def Let_def subarray_def js_subarray_def bit_iff_odd)
qed

lemma negative_length_hangs:
  assumes "length macs = 12" "length header = 8"
  shows "parseGooseFrame (macs @ [0x88, 0xb8] @ header @ [0x61, 6, 0x80, 0x84, 0xff, 0xff, 0xff, 0xfa]) = None"
proof -
  have hang: "readChildren [0x80, 0x84, 0xff, 0xff, 0xff, 0xfa] = None"
    unfolding readChildren_def by (rule children_cycle [OF negative_length_tlv]) simp_all
  have root: "readTlv [0x61, 6, 0x80, 0x84, 0xff, 0xff, 0xff, 0xfa] 0
      = Inr \<lparr> tlv_tag = Some 0x61, tlv_constructed = True, tlv_content = [0x80, 0x84, 0xff, 0xff, 0xff, 0xfa], tlv_end = Some 8 \<rparr>"
    by (simp add: readTlv_def byte_at_def finish_tlv_def Let_def js_subarray_def subarray_def bit_iff_odd)
  have pdu: "parseGoosePdu [0x61, 6, 0x80, 0x84, 0xff, 0xff, 0xff, 0xfa] = None"
    using hang root by (simp add: parseGoosePdu_def)
  have ty: "readUInt16BE (macs @ [0x88, 0xb8] @ header @ [0x61, 6, 0x80, 0x84, 0xff, 0xff, 0xff, 0xfa]) 12 = 0x88b8"
    using assms(1) by (subst readUIntBE_append) simp_all
  show ?thesis using assms pdu ty by (simp add: parseGooseFrame_def parse_goose_header_def)
qed

end
