(* ===== verification/Goose_Roundtrip.thy ===== *)
theory Goose_Roundtrip
  imports Goose_Frame
begin

text \<open>
  A reference encoder of GOOSE frames, after X.690 and IEC 61850-8-1, and the proof that \<open>parseGooseFrame\<close> reads back what it encodes:
  the dataset with nested structures, the PDU, the headers with and without a VLAN tag. The encoder is a specification; the repository
  only receives frames.
\<close>

section \<open>BER\<close>

fun be_octets :: "nat \<Rightarrow> buffer" where
  "be_octets n = (if n = 0 then [] else be_octets (n div 256) @ [of_nat n])"

declare be_octets.simps [simp del]

definition encodeLength :: "nat \<Rightarrow> buffer" where
  "encodeLength n = (if n < 128 then [of_nat n] else of_nat (128 + length (be_octets n)) # be_octets n)"

definition tlv :: "byte \<Rightarrow> buffer \<Rightarrow> buffer" where
  "tlv tag content = tag # encodeLength (length content) @ content"

lemma be_value_append: "be_value (bs @ [b]) = be_value bs * 256 + unat b"
  by (simp add: be_value_def)

lemma be_value_be_octets [simp]: "be_value (be_octets n) = n"
proof (induction n rule: be_octets.induct)
  case (1 n)
  then show ?case by (cases "n = 0") (simp_all add: be_octets.simps [of n] be_octets.simps [of 0] be_value_append be_value_def [of "[]"])
qed

lemma length_be_octets: "n < 256 ^ k \<Longrightarrow> length (be_octets n) \<le> k"
proof (induction k arbitrary: n)
  case 0
  then show ?case by (simp add: be_octets.simps)
next
  case (Suc k)
  then have "n div 256 < 256 ^ k" by (simp add: less_mult_imp_div_less mult.commute)
  then show ?case using Suc.IH by (subst be_octets.simps) simp
qed

lemma be_octets_neq_Nil: "0 < n \<Longrightarrow> be_octets n \<noteq> []"
  by (subst be_octets.simps) simp

lemma byte_at_append [simp]: "byte_at (pre @ x # post) (int (length pre)) = Some (unat x)"
  by (simp add: byte_at_def)

lemma js_subarray_nat: "a \<le> b \<Longrightarrow> b \<le> length buf \<Longrightarrow> js_subarray buf (int a) (int b) = subarray buf a b"
  by (simp add: js_subarray_def Let_def)

lemma js_subarray_middle: "js_subarray (pre @ mid @ post) (int (length pre)) (int (length pre) + int (length mid)) = mid"
  using js_subarray_nat [of "length pre" "length pre + length mid" "pre @ mid @ post"] by (simp add: subarray_def)

lemma finish_tlv_middle:
  "finish_tlv (pre @ mid @ post) (Some t) (int (length pre)) (int (length mid))
   = Inr \<lparr> tlv_tag = Some t, tlv_constructed = bit t 5, tlv_content = mid, tlv_end = Some (int (length pre) + int (length mid)) \<rparr>"
  by (simp add: finish_tlv_def js_subarray_middle)

definition low_tag :: "byte \<Rightarrow> bool" where
  "low_tag t \<longleftrightarrow> unat t AND 0x1f \<noteq> 0x1f"

lemma long_form_octet:
  assumes "0 < k" "k \<le> 4"
  shows "bit (unat (of_nat (128 + k) :: byte)) 7" "unat (of_nat (128 + k) :: byte) AND 0x7f = k"
proof -
  have u: "unat (of_nat (128 + k) :: byte) = 128 + k" unfolding unat_of_nat_byte using assms by simp
  show "bit (unat (of_nat (128 + k) :: byte)) 7" 
  proof -
    have "(128 + k) div 128 = 1" using assms by linarith
    then show ?thesis unfolding u by (simp add: bit_iff_odd)
  qed
  have "(128 + k) AND 0x7f = (128 + k) mod 128" using take_bit_eq_mask [of 7 "128 + k"] by (simp add: mask_eq_exp_minus_1 take_bit_eq_mod)
  then show "unat (of_nat (128 + k) :: byte) AND 0x7f = k" unfolding u using assms by simp
qed

lemma readTlv_tlv:
  assumes "low_tag t" "length content < 2 ^ 31"
  shows "readTlv (pre @ tlv t content @ post) (int (length pre))
    = Inr \<lparr> tlv_tag = Some (unat t), tlv_constructed = bit (unat t) 5, tlv_content = content, tlv_end = Some (int (length pre + length (tlv t content))) \<rparr>"
proof (cases "length content < 128")
  case True
  let ?n = "of_nat (length content) :: byte"
  let ?buf = "pre @ t # ?n # content @ post"
  have len: "unat ?n = length content" using True by simp
  have at1: "byte_at ?buf (int (length pre) + 1) = Some (length content)"
    using byte_at_append [of "pre @ [t]" ?n "content @ post"] len by (simp add: add.commute)
  have top: "\<not> bit (length content) 7" using True by (simp add: bit_iff_odd)
  have "readTlv ?buf (int (length pre)) = finish_tlv ?buf (Some (unat t)) (int (length pre) + 1 + 1) (int (length content))"
    using assms(1) at1 top by (simp add: readTlv_def Let_def low_tag_def)
  also have "\<dots> = Inr \<lparr> tlv_tag = Some (unat t), tlv_constructed = bit (unat t) 5, tlv_content = content, tlv_end = Some (int (length pre) + 2 + int (length content)) \<rparr>"
    using finish_tlv_middle [of "pre @ [t, ?n]" content post "unat t"] by (simp add: add.commute)
  finally show ?thesis using True by (simp add: tlv_def encodeLength_def algebra_simps)
next
  case False
  define os where "os = be_octets (length content)"
  let ?k = "of_nat (128 + length os) :: byte"
  let ?buf = "pre @ t # ?k # os @ content @ post"
  have "0 < length content" using False by linarith
  then have k: "0 < length os" "length os \<le> 4"
    using be_octets_neq_Nil [of "length content"] length_be_octets [of "length content" 4] assms(2) by (simp_all add: os_def)
  have at1: "byte_at ?buf (int (length pre) + 1) = Some (unat ?k)"
    using byte_at_append [of "pre @ [t]" ?k "os @ content @ post"] by (simp add: add.commute)
  have sub: "subarray ?buf (nat (int (length pre) + 1 + 1)) (nat (int (length pre) + 1 + 1) + length os) = os"
    using subarray_append [of "pre @ [t, ?k]" "nat (int (length pre) + 1 + 1)" os "nat (int (length pre) + 1 + 1) + length os" "content @ post"] by simp
  have val: "length_octets os = int (length content)" using assms(2) length_octets_value [of os] by (simp add: os_def)
  have "readTlv ?buf (int (length pre)) = finish_tlv ?buf (Some (unat t)) (int (length pre) + 1 + 1 + int (length os)) (int (length content))"
    unfolding readTlv_def Let_def at1 byte_at_append option.case long_form_octet(2) [OF k] sub val
    using assms(1) long_form_octet(1) [OF k] k by (simp add: low_tag_def)
  also have "\<dots> = Inr \<lparr> tlv_tag = Some (unat t), tlv_constructed = bit (unat t) 5, tlv_content = content,
      tlv_end = Some (int (length pre) + 2 + int (length os) + int (length content)) \<rparr>"
    using finish_tlv_middle [of "pre @ [t, ?k] @ os" content post "unat t"] by (simp add: algebra_simps)
  finally show ?thesis using False by (simp add: tlv_def encodeLength_def os_def algebra_simps)
qed

text \<open>Tag and content of a value, without its place.\<close>

definition part :: "ber_tlv \<Rightarrow> nat option \<times> buffer" where
  "part x = (tlv_tag x, tlv_content x)"

definition tlv_ok :: "byte \<times> buffer \<Rightarrow> bool" where
  "tlv_ok = (\<lambda>(t, c). low_tag t \<and> length c < 2 ^ 31)"

lemma children_of_tlvs:
  assumes "list_all tlv_ok cs"
  shows "\<exists>ts. children_loop (pre @ concat (map (case_prod tlv) cs)) (Some (int (length pre))) out = Some (Inr (out @ ts))
    \<and> map part ts = map (\<lambda>(t, c). (Some (unat t), c)) cs"
  using assms
proof (induction cs arbitrary: pre out)
  case Nil
  then show ?case by (subst children_loop.simps) simp
next
  case (Cons x cs)
  obtain t c where x: "x = (t, c)" by (cases x)
  define rest where "rest = concat (map (case_prod tlv) cs)"
  define y where "y = \<lparr> tlv_tag = Some (unat t), tlv_constructed = bit (unat t) 5, tlv_content = c, tlv_end = Some (int (length pre + length (tlv t c))) \<rparr>"
  have y: "readTlv (pre @ tlv t c @ rest) (int (length pre)) = Inr y"
    using Cons.prems x readTlv_tlv [of t c pre rest] by (simp add: tlv_ok_def y_def)
  have "0 < int (length (tlv t c)) + int (length rest)" by (simp add: tlv_def)
  then have step: "children_loop (pre @ tlv t c @ rest) (Some (int (length pre))) out
      = children_loop ((pre @ tlv t c) @ rest) (Some (int (length (pre @ tlv t c)))) (out @ [y])"
    using y by (subst children_loop.simps) (simp add: y_def)
  obtain ts where ts: "children_loop ((pre @ tlv t c) @ rest) (Some (int (length (pre @ tlv t c)))) (out @ [y]) = Some (Inr ((out @ [y]) @ ts))"
      "map part ts = map (\<lambda>(t, c). (Some (unat t), c)) cs"
    using Cons.IH [of "pre @ tlv t c" "out @ [y]"] Cons.prems unfolding rest_def by auto
  moreover have "part y = (Some (unat t), c)" by (simp add: part_def y_def)
  ultimately show ?case using step x by (intro exI [of _ "y # ts"]) (simp add: rest_def)
qed

lemma readChildren_tlvs:
  assumes "list_all tlv_ok cs"
  shows "\<exists>ts. readChildren (concat (map (case_prod tlv) cs)) = Some (Inr ts) \<and> map part ts = map (\<lambda>(t, c). (Some (unat t), c)) cs"
  using children_of_tlvs [OF assms, of "[]" "[]"] by (simp add: readChildren_def)

lemma decodeDataValue_part: "part x = part y \<Longrightarrow> decodeDataValue x = decodeDataValue y"
  by (subst (1 2) decodeDataValue.simps) (simp add: part_def)

section \<open>Values\<close>

text \<open>The fewest octets, at most six, that hold an integer in two's complement.\<close>

definition fits_octets :: "int \<Rightarrow> nat \<Rightarrow> bool" where
  "fits_octets i n \<longleftrightarrow> - (2 ^ (8 * n - 1)) \<le> i \<and> i < 2 ^ (8 * n - 1)"

definition int_octets :: "int \<Rightarrow> buffer" where
  "int_octets i = (let n = hd (filter (fits_octets i) [1, 2, 3, 4, 5] @ [6]) in rev (signed_bytes n i))"

definition uint_octets :: "nat \<Rightarrow> buffer" where
  "uint_octets n = (if n = 0 then [0] else be_octets n)"

definition text_octets :: "string \<Rightarrow> buffer" where
  "text_octets s = map (\<lambda>c. of_nat (of_char c)) s"

definition bool_octet :: "bool \<Rightarrow> buffer" where
  "bool_octet b = [if b then 1 else 0]"

text \<open>The bits of an octet, the most significant first.\<close>

definition pack_octet :: "bool list \<Rightarrow> byte" where
  "pack_octet bs = horner_sum of_bool 2 (rev (bs @ replicate (8 - length bs) False))"

definition pack_msb :: "bool list \<Rightarrow> buffer" where
  "pack_msb bits = map pack_octet (chunks 8 bits)"

definition quality_bits :: "goose_quality \<Rightarrow> bool list" where
  "quality_bits q = (case q_validity q of Good \<Rightarrow> [False, False] | Invalid \<Rightarrow> [False, True] | Reserved \<Rightarrow> [True, False] | Questionable \<Rightarrow> [True, True])
     @ [q_overflow q, q_outOfRange q, q_badReference q, q_oscillatory q, q_failure q, q_oldData q, q_inconsistent q, q_inaccurate q,
        q_substituted q, q_test q, q_operatorBlocked q]"

definition utc_octets :: "nat \<Rightarrow> nat \<Rightarrow> nat \<Rightarrow> buffer" where
  "utc_octets s f q = writeUInt32BE s @ rev (le_bytes 3 f) @ [of_nat q]"

fun encode_value :: "goose_value \<Rightarrow> byte \<times> buffer" where
  "encode_value (GBoolean b) = (0x83, bool_octet b)"
| "encode_value (GInt i) = (0x85, int_octets i)"
| "encode_value (GUint n) = (0x86, uint_octets n)"
| "encode_value (GFloat x) = (0x87, 8 # writeFloatBE x)"
| "encode_value (GBitstring bits unused) = (0x84, of_nat unused # pack_msb bits)"
| "encode_value (GQuality q) = (0x84, 3 # pack_msb (quality_bits q))"
| "encode_value (GOctets b) = (0x89, b)"
| "encode_value (GVisible s) = (0x8a, text_octets s)"
| "encode_value (GUtc s f q) = (0x91, utc_octets s f q)"
| "encode_value (GStructure vs) = (0xa2, concat (map (\<lambda>v. case_prod tlv (encode_value v)) vs))"
| "encode_value (GUnknown tag raw) = (of_nat (the tag), raw)"

text \<open>The values that have an encoding: numbers in range, floats of single precision, bit strings that are no quality, tags that the parser does not know.\<close>

fun goose_value_ok :: "goose_value \<Rightarrow> bool" where
  "goose_value_ok (GInt i) = (- (2 ^ 47) \<le> i \<and> i < 2 ^ 47)"
| "goose_value_ok (GUint n) = (n < 2 ^ 48)"
| "goose_value_ok (GFloat x) = (readFloatBE (writeFloatBE x) 0 = x)"
| "goose_value_ok (GBitstring bits unused) = ((bits = [] \<or> length bits > 16) \<and> unused = (8 - length bits mod 8) mod 8)"
| "goose_value_ok (GUtc s f q) = (s < 2 ^ 32 \<and> f < 2 ^ 24 \<and> q < 256)"
| "goose_value_ok (GStructure vs) = list_all (\<lambda>v. goose_value_ok v \<and> length (snd (encode_value v)) < 2 ^ 31) vs"
| "goose_value_ok (GUnknown tag raw) = (case tag of None \<Rightarrow> False | Some t \<Rightarrow> t < 256 \<and> t AND 0x1f \<noteq> 0x1f
     \<and> t \<notin> {0x83, 0x84, 0x85, 0x86, 0x87, 0x88, 0x89, 0x8a, 0x91, 0xa1, 0xa2})"
| "goose_value_ok _ = True"

lemma be_value_Cons: "be_value (b # bs) = unat b * 256 ^ length bs + be_value bs"
proof (induction bs rule: rev_induct)
  case (snoc x bs)
  then show ?case using be_value_append [of "b # bs" x] by (simp add: be_value_append algebra_simps)
qed (simp add: be_value_def)

lemma be_value_lt: "be_value bs < 256 ^ length bs"
  using le_val_lt [of "rev bs"] by (simp add: be_value_rev)

lemma top_bit_iff: "bit (b :: byte) 7 \<longleftrightarrow> 128 \<le> unat b"
proof -
  have "bit b 7 \<longleftrightarrow> odd (unat b div 128)" 
  proof -
    have "bit b 7 \<longleftrightarrow> bit (unat b) 7" by (simp add: bit_unsigned_iff)
    also have "\<dots> \<longleftrightarrow> odd (unat b div 128)" by (simp only: bit_iff_odd) simp
    finally show ?thesis .
  qed
  moreover have "unat b div 128 = 1" if "128 \<le> unat b" using that unat_byte_lt [of b] by linarith
  ultimately show ?thesis by (cases "128 \<le> unat b") simp_all
qed

lemma top_bit_value: "c \<noteq> [] \<Longrightarrow> bit (hd c) 7 \<longleftrightarrow> 128 * 256 ^ (length c - 1) \<le> be_value c"
proof (cases c)
  case (Cons b bs)
  show ?thesis
  proof
    assume "bit (hd c) 7"
    then have "128 * 256 ^ length bs \<le> unat b * 256 ^ length bs" using Cons by (intro mult_right_mono) (simp_all add: top_bit_iff)
    then have "128 * 256 ^ length bs \<le> be_value c" 
      unfolding Cons be_value_Cons by (rule trans_le_add1)
    then show "128 * 256 ^ (length c - 1) \<le> be_value c" using Cons by simp
  next
    assume "128 * 256 ^ (length c - 1) \<le> be_value c"
    then have "128 * 256 ^ length bs \<le> unat b * 256 ^ length bs + be_value bs" using Cons by (simp add: be_value_Cons)
    moreover have "(unat b + 1) * 256 ^ length bs = unat b * 256 ^ length bs + 256 ^ length bs" by (simp add: algebra_simps)
    ultimately have "128 * 256 ^ length bs < (unat b + 1) * 256 ^ length bs" using be_value_lt [of bs] by linarith
    then have "128 < unat b + 1" by (rule mult_less_cancel2 [THEN iffD1, THEN conjunct2])
    then show "bit (hd c) 7" using Cons by (simp add: top_bit_iff)
  qed
qed simp

lemma decodeSigned_octets:
  assumes "0 < n" "n \<le> 6" "fits_octets i n"
  shows "decodeSigned (rev (signed_bytes n i)) = Inr i"
proof -
  obtain k where k: "n = Suc k" using assms(1) by (cases n) auto
  define m :: int where "m = 128 * 256 ^ k"
  have p8: "(2 :: int) ^ (8 * k) = 256 ^ k" by (simp add: power_mult)
  have m: "2 ^ (8 * n) = 2 * m" "256 ^ n = 2 * m" "2 ^ (8 * n - 1) = m" "0 < m"
    using p8 by (simp_all add: k m_def power_add)
  have i: "- m \<le> i" "i < m" using assms(3) m(3) by (simp_all add: fits_octets_def)
  define c where "c = rev (signed_bytes n i)"
  have len: "length c = n" "c \<noteq> []" using assms(1) by (auto simp: c_def k simp flip: length_0_conv)
  have v: "i mod (2 * m) = (if 0 \<le> i then i else i + 2 * m)"
  proof (cases "0 \<le> i")
    case False
    then have "(i + 2 * m) mod (2 * m) = i + 2 * m" using i by (intro mod_pos_pos_trivial) auto
    then show ?thesis using False by simp
  qed (use i in simp)
  have "int (be_value c) = i mod (2 * m)"
  proof -
    have "int (be_value c) = int (nat (i mod (2 * m)) mod 256 ^ n)" by (simp add: c_def be_value_rev signed_bytes_def le_val_le_bytes m(1))
    also have "\<dots> = i mod (2 * m)" using m by (simp add: zmod_int)
    finally show ?thesis .
  qed
  then have val: "int (be_value c) = (if 0 \<le> i then i else i + 2 * m)" using v by simp
  have "bit (hd c) 7 \<longleftrightarrow> m \<le> int (be_value c)"
  proof -
    have "bit (hd c) 7 \<longleftrightarrow> 128 * 256 ^ k \<le> be_value c" using top_bit_value [OF len(2)] len(1) k by simp
    also have "\<dots> \<longleftrightarrow> int (128 * 256 ^ k) \<le> int (be_value c)" by (rule of_nat_le_iff [symmetric])
    finally show ?thesis by (simp add: m_def)
  qed
  then have "bit (hd c) 7 \<longleftrightarrow> i < 0" using val i by auto
  then show ?thesis using val len assms(2) m(1) by (auto simp: decodeSigned_def c_def [symmetric])
qed

lemma int_octets_decode: "- (2 ^ 47) \<le> i \<Longrightarrow> i < 2 ^ 47 \<Longrightarrow> decodeSigned (int_octets i) = Inr i"
proof -
  assume i: "- (2 ^ 47) \<le> i" "i < 2 ^ 47"
  define n where "n = hd (filter (fits_octets i) [1, 2, 3, 4, 5] @ [6])"
  have "fits_octets i 6" using i by (simp add: fits_octets_def)
  then have "fits_octets i n \<and> 0 < n \<and> n \<le> 6" unfolding n_def by (auto split: if_splits)
  then show ?thesis using decodeSigned_octets [of n i] by (simp add: int_octets_def n_def)
qed

lemma uint_octets_decode: "n < 2 ^ 48 \<Longrightarrow> decodeUnsigned (uint_octets n) = Inr n"
  using length_be_octets [of n 6] by (auto simp: decodeUnsigned_def uint_octets_def be_value_def [of "[0]"])

lemma latin1_text [simp]: "latin1 (text_octets s) = s"
  by (auto simp: latin1_def text_octets_def intro!: map_idI)

lemma float_octets_decode: "readFloatBE (writeFloatBE x) 0 = x \<Longrightarrow> decodeFloat (8 # writeFloatBE x) = Inr x"
  by (simp add: decodeFloat_def readFloatBE_def readUIntBE_def)

lemma utc_octets_decode: "s < 2 ^ 32 \<Longrightarrow> f < 2 ^ 24 \<Longrightarrow> q < 256 \<Longrightarrow> decodeUtcTime (utc_octets s f q) = Inr (s, f, q)"
  by (simp add: decodeUtcTime_def utc_octets_def readUIntBE_def subarray_def be_value_rev le_val_le_bytes nth_append)

lemma bit_pack_octet: "length bs \<le> 8 \<Longrightarrow> i < length bs \<Longrightarrow> bit (pack_octet bs) (7 - i) = bs ! i"
  by (auto simp: pack_octet_def bit_horner_sum_bit_word_iff rev_nth nth_append)

lemma nth_chunks:
  "0 < k \<Longrightarrow> n < length xs \<Longrightarrow> n div k < length (chunks k xs) \<and> n mod k < length (chunks k xs ! (n div k)) \<and> chunks k xs ! (n div k) ! (n mod k) = xs ! n"
proof (induction k xs arbitrary: n rule: chunks.induct)
  case (1 k xs)
  have step: "chunks k xs = take k xs # chunks k (drop k xs)" using 1 by (intro chunks_step) auto
  show ?case
  proof (cases "n < k")
    case True
    then show ?thesis using 1(3) by (simp add: step)
  next
    case False
    have "n div k = Suc ((n - k) div k)" "n mod k = (n - k) mod k" using False 1 by (simp_all add: le_div_geq le_mod_geq)
    moreover have "xs \<noteq> []" "n - k < length xs - k" using 1(3) False by auto
    ultimately show ?thesis using 1(1) [of "n - k"] 1(2,3) False by (simp add: step)
  qed
qed

lemma bit_pack_msb: "n < length bits \<Longrightarrow> bitstring_bit (pack_msb bits) n = bits ! n"
  using nth_chunks [of 8 n bits] chunks_length_le [of "chunks 8 bits ! (n div 8)" 8 bits] bit_pack_octet [of "chunks 8 bits ! (n div 8)" "n mod 8"]
  by (simp add: bitstring_bit_def pack_msb_def)

lemma length_pack_msb [simp]: "length (pack_msb bits) = ceil_div (length bits) 8"
  by (simp add: pack_msb_def length_chunks)

lemma unused_bits: "ceil_div n 8 * 8 - (8 - n mod 8) mod 8 = n"
proof -
  have "n mod 8 < 8" by simp
  then consider "n mod 8 = 0" | "0 < n mod 8" "n mod 8 < 8" by linarith
  then show ?thesis
  proof cases
    case 1
    then show ?thesis by (auto simp: ceil_div_def elim!: dvdE)
  next
    case 2
    then have "(n mod 8 + 7) div 8 = 1" by linarith
    then have "(n + 7) div 8 = n div 8 + 1" using div_add1_eq [of n 7 8] by simp
    then have c: "ceil_div n 8 = n div 8 + 1" unfolding ceil_div_def by (simp add: add.commute)
    have u: "(8 - n mod 8) mod 8 = 8 - n mod 8" using 2 by simp
    have "(q + 1) * 8 - d = n" if "d + r = 8" "8 * q + r = n" for q d r :: nat using that by (simp add: algebra_simps)
    from this [of "8 - n mod 8" "n mod 8" "n div 8"] show ?thesis unfolding c u using 2 by simp
  qed
qed

lemma bitstring_decode:
  assumes "bits = [] \<or> length bits > 16" "unused = (8 - length bits mod 8) mod 8"
  shows "\<not> looksLikeQuality (of_nat unused # pack_msb bits)" "decode_bitstring (of_nat unused # pack_msb bits) = GBitstring bits unused"
proof -
  have "\<not> ceil_div (length bits) 8 \<le> 2" if "length bits > 16" using that by (simp add: ceil_div_def)
  then show "\<not> looksLikeQuality (of_nat unused # pack_msb bits)" using assms(1) by (auto simp: looksLikeQuality_def)
  have "unused < 256" using assms(2) by simp
  then have u: "unat (of_nat unused :: byte) = unused" by simp
  have "map (bitstring_bit (pack_msb bits)) [0..<length bits] = bits" by (rule nth_equalityI) (simp_all add: bit_pack_msb)
  then show "decode_bitstring (of_nat unused # pack_msb bits) = GBitstring bits unused"
    using unused_bits [of "length bits", folded assms(2)] by (simp add: decode_bitstring_def Let_def u del: unat_of_nat_byte)
qed

lemma quality_decode: "looksLikeQuality (3 # pack_msb (quality_bits q))" "decodeQuality (3 # pack_msb (quality_bits q)) = Inr q"
proof -
  have len: "length (quality_bits q) = 13" by (simp add: quality_bits_def split: validity.split)
  show "looksLikeQuality (3 # pack_msb (quality_bits q))" by (simp add: looksLikeQuality_def len ceil_div_def)
  define w where "w = quality_bits q"
  have b: "bitstring_bit (pack_msb w) n = w ! n" if "n < 13" for n using that by (simp add: bit_pack_msb len w_def)
  have "decodeQuality (3 # pack_msb w) = Inr q"
    by (simp add: decodeQuality_def Let_def b) (cases q; cases "q_validity q"; simp add: w_def quality_bits_def)
  then show "decodeQuality (3 # pack_msb (quality_bits q)) = Inr q" by (simp add: w_def)
qed

lemma encode_low_tag: "goose_value_ok v \<Longrightarrow> low_tag (fst (encode_value v))"
  by (cases v) (auto simp: low_tag_def split: option.splits)

definition value_tlv :: "goose_value \<Rightarrow> buffer" where
  "value_tlv v = case_prod tlv (encode_value v)"

definition enc_part :: "goose_value \<Rightarrow> nat option \<times> buffer" where
  "enc_part v = (Some (unat (fst (encode_value v))), snd (encode_value v))"

definition values_ok :: "goose_value list \<Rightarrow> bool" where
  "values_ok vs \<longleftrightarrow> list_all (\<lambda>v. goose_value_ok v \<and> length (snd (encode_value v)) < 2 ^ 31) vs"

lemma decode_members:
  assumes "values_ok vs" "\<And>v x. v \<in> set vs \<Longrightarrow> part x = enc_part v \<Longrightarrow> decodeDataValue x = Some (Inr v)"
  shows "\<exists>ts. readChildren (concat (map value_tlv vs)) = Some (Inr ts) \<and> collect (map decodeDataValue ts) = Some (Inr vs)"
proof -
  have ok: "list_all tlv_ok (map encode_value vs)"
    using assms(1) encode_low_tag by (auto simp: values_ok_def list_all_iff tlv_ok_def case_prod_beta)
  obtain ts where ts: "readChildren (concat (map value_tlv vs)) = Some (Inr ts)" "map part ts = map enc_part vs"
    using readChildren_tlvs [OF ok] by (auto simp: value_tlv_def [abs_def] enc_part_def [abs_def] comp_def case_prod_beta)
  have "map decodeDataValue ts = map (\<lambda>v. Some (Inr v)) vs"
  proof (rule nth_equalityI)
    show "length (map decodeDataValue ts) = length (map (\<lambda>v. Some (Inr v)) vs)" using ts(2) by (metis length_map)
  next
    fix i assume i: "i < length (map decodeDataValue ts)"
    then have l: "i < length ts" "i < length vs" using ts(2) by (auto dest: map_eq_imp_length_eq)
    have "part (ts ! i) = enc_part (vs ! i)" using ts(2) l by (metis nth_map)
    then show "map decodeDataValue ts ! i = map (\<lambda>v. Some (Inr v)) vs ! i" using assms(2) l by simp
  qed
  moreover have "collect (map (\<lambda>v. Some (Inr v)) vs) = (Some (Inr vs) :: (goose_error + goose_value list) option)" for vs by (induction vs) auto
  ultimately show ?thesis using ts(1) by simp
qed

lemma decode_encode_value: "goose_value_ok v \<Longrightarrow> part x = enc_part v \<Longrightarrow> decodeDataValue x = Some (Inr v)"
proof (induction v arbitrary: x)
  case (GStructure vs)
  have "values_ok vs" using GStructure.prems(1) by (simp add: values_ok_def)
  moreover have "decodeDataValue y = Some (Inr v)" if "v \<in> set vs" "part y = enc_part v" for v y
    using GStructure.IH [OF that(1) _ that(2)] GStructure.prems(1) that(1) by (simp add: list_all_iff)
  ultimately obtain ts where "readChildren (concat (map value_tlv vs)) = Some (Inr ts)" "collect (map decodeDataValue ts) = Some (Inr vs)"
    using decode_members [of vs] by blast
  moreover have "snd (encode_value (GStructure vs)) = concat (map value_tlv vs)" by (simp add: value_tlv_def [abs_def])
  ultimately show ?case using GStructure.prems(2) by (subst decodeDataValue.simps) (simp add: part_def enc_part_def)
next
  case (GBitstring bits unused)
  then show ?case using bitstring_decode [of bits unused] by (subst decodeDataValue.simps) (simp add: part_def enc_part_def)
next
  case (GUnknown tag raw)
  then show ?case by (subst decodeDataValue.simps) (auto simp: part_def enc_part_def Let_def split: option.splits)
qed (subst decodeDataValue.simps, simp add: part_def enc_part_def int_octets_decode uint_octets_decode float_octets_decode utc_octets_decode quality_decode
      bool_octet_def decodeBoolean_def)+

lemma decode_values:
  "values_ok vs \<Longrightarrow> \<exists>ts. readChildren (concat (map value_tlv vs)) = Some (Inr ts) \<and> collect (map decodeDataValue ts) = Some (Inr vs)"
  using decode_members [of vs] decode_encode_value by (simp add: values_ok_def list_all_iff)

section \<open>The PDU\<close>

definition pdu_fields :: "goose_pdu \<Rightarrow> nat \<times> nat \<times> nat \<Rightarrow> (byte \<times> buffer) list" where
  "pdu_fields p = (\<lambda>(sec, frac, q).
     [(0x80, text_octets (gocbRef p)), (0x81, uint_octets (timeAllowedToLive p)), (0x82, text_octets (datSet p)), (0x83, text_octets (goID p)),
      (0x84, utc_octets sec frac q), (0x85, uint_octets (stNum p)), (0x86, uint_octets (sqNum p)), (0x87, bool_octet (simulation p)),
      (0x88, uint_octets (confRev p)), (0x89, bool_octet (ndsCom p)), (0x8a, uint_octets (numDatSetEntries p)),
      (0xab, concat (map value_tlv (allData p)))])"

definition encode_pdu :: "goose_pdu \<Rightarrow> nat \<times> nat \<times> nat \<Rightarrow> buffer" where
  "encode_pdu p utc = tlv 0x61 (concat (map (case_prod tlv) (pdu_fields p utc)))"

text \<open>The number nearest to the exact time \<open>(sec + frac / 2 ^ 24) * 1000\<close> in milliseconds, rounded once.\<close>

definition nearest_ms :: "nat \<Rightarrow> nat \<Rightarrow> number" where
  "nearest_ms sec frac = round64 (Finite False (1000 * (sec * 2 ^ 24 + frac)) (- 24))"

definition pdu_ok :: "goose_pdu \<Rightarrow> nat \<times> nat \<times> nat \<Rightarrow> bool" where
  "pdu_ok p utc \<longleftrightarrow> list_all (\<lambda>n. n < 2 ^ 48) [timeAllowedToLive p, stNum p, sqNum p, confRev p, numDatSetEntries p]
     \<and> (case utc of (sec, frac, q) \<Rightarrow> sec < 2 ^ 32 \<and> frac < 2 ^ 24 \<and> q < 256 \<and> pdu_t p = nearest_ms sec frac)
     \<and> values_ok (allData p) \<and> length (encode_pdu p utc) < 2 ^ 31"

lemma length_tlv: "length c < length (tlv t c)"
  by (simp add: tlv_def)

lemma member_short: "(t, c) \<in> set cs \<Longrightarrow> length c < length (concat (map (case_prod tlv) cs))"
proof (induction cs)
  case (Cons x cs)
  then show ?case using length_tlv [of c t] by (auto split: prod.splits)
qed simp

lemma read_field_part: "part x = part y \<Longrightarrow> read_field x p = read_field y p"
  by (simp add: read_field_def part_def)

lemma read_fields_part: "map part xs = map part ys \<Longrightarrow> read_fields xs p = read_fields ys p"
proof (induction xs arbitrary: ys p)
  case (Cons x xs)
  then obtain y ys' where ys: "ys = y # ys'" "part x = part y" "map part xs = map part ys'" by (auto simp: Cons_eq_map_conv)
  then show ?case using Cons.IH read_field_part [of x y p] by (auto split: option.splits sum.splits)
qed simp

definition bare :: "byte \<times> buffer \<Rightarrow> ber_tlv" where
  "bare = (\<lambda>(t, c). \<lparr> tlv_tag = Some (unat t), tlv_constructed = False, tlv_content = c, tlv_end = None \<rparr>)"

text \<open>
  The parser's formula rounds four times; the products and the quotient are exact, so only the last rounding, of the sum,
  counts.
\<close>

lemma utc_ms_nearest:
  assumes "s < 2 ^ 32" "f < 2 ^ 24"
  shows "utc_ms s f = nearest_ms s f"
proof -
  have "s * 1000 < 2 ^ 53" "f < 2 ^ 53" "f * 1000 < 2 ^ 53" using assms by simp_all
  then obtain i j k where i: "round64 (Finite False (s * 1000) 0) = Finite False (s * 1000 * 2 ^ i) (0 - int i)"
    and j: "round64 (Finite False f (- 24)) = Finite False (f * 2 ^ j) (- 24 - int j)"
    and k: "round64 (Finite False (f * 1000) (- 24)) = Finite False (f * 1000 * 2 ^ k) (- 24 - int k)"
    using round64_exact [of "s * 1000" 0 False] round64_exact [of f "- 24" False] round64_exact [of "f * 1000" "- 24" False] by auto
  have n: "num_of_int (int n) = Finite False n 0" "num_of_int 1000 = Finite False 1000 0" "num_of_int 0x1000000 = Finite False (2 ^ 24) 0" for n
    by (simp_all add: num_of_int_def)
  have a: "num_mul (num_of_int (int s)) (num_of_int 1000) = Finite False (s * 1000 * 2 ^ i) (0 - int i)"
    unfolding n num_mul_finite using i by simp
  have b: "num_div (num_of_int (int f)) (num_of_int 0x1000000) = Finite False (f * 2 ^ j) (- 24 - int j)"
    unfolding n num_div_pow2 using j by simp
  have c: "num_mul (Finite False (f * 2 ^ j) (- 24 - int j)) (num_of_int 1000) = Finite False (f * 1000 * 2 ^ k) (- 24 - int k)"
  proof -
    have "round64 (Finite False (f * 1000 * 2 ^ j) (- 24 - int j)) = round64 (Finite False (f * 1000) (- 24 - int j + int j))"
      by (rule round64_shift)
    then show ?thesis unfolding n num_mul_finite using k by (simp add: mult.assoc mult.commute mult.left_commute)
  qed
  define d where "d = max i (24 + k)"
  have d: "min (0 - int i) (- 24 - int k) = - int d" by (simp add: d_def)
  have e: "nat (0 - int i - - int d) = d - i" "nat (- 24 - int k - - int d) = d - 24 - k" "i + (d - i) = d" "k + (d - 24 - k) = d - 24" "24 \<le> d"
    by (auto simp: d_def)
  have "s * 1000 * 2 ^ i * 2 ^ (d - i) + f * 1000 * 2 ^ k * 2 ^ (d - 24 - k) = 1000 * (s * 2 ^ 24 + f) * 2 ^ (d - 24)"
  proof -
    have "(2 :: nat) ^ i * 2 ^ (d - i) = 2 ^ 24 * 2 ^ (d - 24)" "(2 :: nat) ^ k * 2 ^ (d - 24 - k) = 2 ^ (d - 24)"
      unfolding power_add [symmetric] using e by simp_all
    then have "s * 1000 * 2 ^ i * 2 ^ (d - i) = 1000 * (s * 2 ^ 24) * 2 ^ (d - 24)"
      "f * 1000 * 2 ^ k * 2 ^ (d - 24 - k) = 1000 * f * 2 ^ (d - 24)"
      by (simp_all add: mult.assoc)
    then show ?thesis by (simp only: add_mult_distrib add_mult_distrib2)
  qed
  then have "utc_ms s f = round64 (Finite False (1000 * (s * 2 ^ 24 + f) * 2 ^ (d - 24)) (- int d))"
    unfolding utc_ms_def a b c num_add_positive Let_def d e by simp
  also have "\<dots> = nearest_ms s f" unfolding nearest_ms_def round64_shift using e(5) by simp
  finally show ?thesis .
qed

lemma utc_ms_decode: "s < 2 ^ 32 \<Longrightarrow> f < 2 ^ 24 \<Longrightarrow> q < 256 \<Longrightarrow> decodeUtcTimeToMs (utc_octets s f q) = Inr (nearest_ms s f)"
  using utc_octets_decode [of s f q] utc_ms_nearest [of s f] by (simp add: decodeUtcTimeToMs_def) (simp add: utc_octets_def)

lemma bool_octet_decode [simp]: "decodeBoolean (bool_octet b) = b"
  by (simp add: bool_octet_def decodeBoolean_def)

lemma fields_read:
  assumes "pdu_ok p utc"
  shows "\<exists>q. read_fields (map bare (pdu_fields p utc)) empty_pdu = Some (Inr q) \<and> finish_pdu q = Inr p"
proof -
  obtain sec frac tq where utc: "utc = (sec, frac, tq)" by (cases utc)
  obtain ts where "readChildren (concat (map value_tlv (allData p))) = Some (Inr ts)" "collect (map decodeDataValue ts) = Some (Inr (allData p))"
    using decode_values assms by (auto simp: pdu_ok_def)
  then show ?thesis
    using assms by (simp add: pdu_ok_def utc pdu_fields_def bare_def read_field_def empty_pdu_def finish_pdu_def uint_octets_decode utc_ms_decode)
qed

lemma parseGoosePdu_encode:
  assumes "pdu_ok p utc"
  shows "parseGoosePdu (encode_pdu p utc @ pad) = Some (Inr p)"
proof -
  define c where "c = concat (map (case_prod tlv) (pdu_fields p utc))"
  have small: "length c < 2 ^ 31" using assms length_tlv [of c "0x61"] by (simp add: pdu_ok_def encode_pdu_def c_def)
  have root: "readTlv (encode_pdu p utc @ pad) 0
    = Inr \<lparr> tlv_tag = Some 0x61, tlv_constructed = bit (0x61 :: nat) 5, tlv_content = c, tlv_end = Some (int (length (tlv 0x61 c))) \<rparr>"
    using readTlv_tlv [of "0x61" c "[]" pad] small by (simp add: encode_pdu_def c_def low_tag_def)
  have "list_all tlv_ok (pdu_fields p utc)"
  proof -
    have "low_tag (fst x)" if "x \<in> set (pdu_fields p utc)" for x using that by (auto simp: pdu_fields_def low_tag_def split: prod.splits)
    moreover have "length (snd x) < 2 ^ 31" if "x \<in> set (pdu_fields p utc)" for x
      using that member_short [of "fst x" "snd x" "pdu_fields p utc"] small by (simp add: c_def)
    ultimately show ?thesis by (auto simp: list_all_iff tlv_ok_def)
  qed
  then obtain ts where ts: "readChildren c = Some (Inr ts)" "map part ts = map (\<lambda>(t, c). (Some (unat t), c)) (pdu_fields p utc)"
    using readChildren_tlvs [of "pdu_fields p utc"] by (auto simp: c_def)
  have "map part ts = map part (map bare (pdu_fields p utc))" using ts(2) by (simp add: part_def bare_def comp_def case_prod_beta)
  then have "read_fields ts empty_pdu = read_fields (map bare (pdu_fields p utc)) empty_pdu" by (rule read_fields_part)
  then show ?thesis using root ts(1) fields_read [OF assms] by (auto simp: parseGoosePdu_def)
qed

section \<open>The frame\<close>

definition vlan_octets :: "(nat \<times> nat) option \<Rightarrow> buffer" where
  "vlan_octets vlan = (case vlan of None \<Rightarrow> [] | Some (vid, priority) \<Rightarrow> writeUInt16BE 0x8100 @ writeUInt16BE (priority * 8192 + vid))"

definition encode_frame ::
  "buffer \<Rightarrow> buffer \<Rightarrow> (nat \<times> nat) option \<Rightarrow> nat \<Rightarrow> nat \<Rightarrow> buffer \<Rightarrow> goose_pdu \<Rightarrow> nat \<times> nat \<times> nat \<Rightarrow> buffer \<Rightarrow> buffer" where
  "encode_frame dst src vlan app len reserved p utc pad =
     dst @ src @ vlan_octets vlan @ writeUInt16BE 0x88b8 @ writeUInt16BE app @ writeUInt16BE len @ reserved @ encode_pdu p utc @ pad"

definition mac_text :: "buffer \<Rightarrow> string" where
  "mac_text mac = join_colons (map hex_octet mac)"

lemma formatMac_middle: "length mac = 6 \<Longrightarrow> formatMac (pre @ mac @ post) (length pre) = mac_text mac"
proof -
  assume m: "length mac = 6"
  have "map (\<lambda>i. hex_octet ((pre @ mac @ post) ! (length pre + i))) [0..<6] = map hex_octet mac"
    by (rule nth_equalityI) (simp_all add: m nth_append)
  then show ?thesis by (simp only: formatMac_def mac_text_def)
qed

lemma read_be16: "length pre = off \<Longrightarrow> n < 65536 \<Longrightarrow> readUInt16BE (pre @ writeUInt16BE n @ post) off = n"
  by (simp add: readUIntBE_def le_val_le_bytes)

lemma header_read:
  assumes "length pre = off" "app < 65536" "len < 65536" "length reserved = 4" "pdu_ok p utc"
    "pre @ writeUInt16BE app @ writeUInt16BE len @ reserved @ encode_pdu p utc @ pad = frame"
  shows "parse_goose_header frame vlan 0x88b8 off
    = Some (Inr \<lparr> destMac = formatMac frame 0, srcMac = formatMac frame 6, vlanId = map_option fst vlan, vlanPriority = map_option snd vlan,
        appId = app, goose_length = len, frame_pdu = p \<rparr>)"
proof -
  have "readUInt16BE frame off = app" using read_be16 [OF assms(1,2)] assms(6) by blast
  moreover have "readUInt16BE frame (off + 2) = len"
    using read_be16 [of "pre @ writeUInt16BE app" "off + 2" len] assms(1,3,6) by (metis append.assoc length_append length_le_bytes length_rev)
  moreover have "drop (off + 8) frame = encode_pdu p utc @ pad" "off + 8 \<le> length frame" using assms(1,4,6) by auto
  ultimately show ?thesis using parseGoosePdu_encode [OF assms(5)] by (simp add: parse_goose_header_def)
qed

lemma tci_fields:
  fixes vid priority :: nat
  assumes "vid < 4096" "priority < 8"
  shows "(priority * 8192 + vid) AND 0xfff = vid" "drop_bit 13 (priority * 8192 + vid) AND 7 = priority"
proof -
  have "(priority * 8192 + vid) AND 0xfff = (priority * 8192 + vid) mod 4096"
    using take_bit_eq_mask [of 12 "priority * 8192 + vid"] by (simp add: mask_eq_exp_minus_1 take_bit_eq_mod)
  moreover have "(priority * 8192 + vid) mod 4096 = vid"
    using assms(1) mod_mult_self3 [of "2 * priority" 4096 vid] by (simp add: mult.commute)
  ultimately show "(priority * 8192 + vid) AND 0xfff = vid" by simp
  have "drop_bit 13 (priority * 8192 + vid) = priority" using assms(1) by (simp add: drop_bit_eq_div)
  moreover have "priority AND 7 = priority mod 8"
    using take_bit_eq_mask [of 3 priority] by (simp add: mask_eq_exp_minus_1 take_bit_eq_mod)
  ultimately show "drop_bit 13 (priority * 8192 + vid) AND 7 = priority" using assms(2) by simp
qed

text \<open>The parts of a frame that fit their fields.\<close>

definition frame_ok :: "buffer \<Rightarrow> buffer \<Rightarrow> (nat \<times> nat) option \<Rightarrow> nat \<Rightarrow> nat \<Rightarrow> buffer \<Rightarrow> bool" where
  "frame_ok dst src vlan app len reserved \<longleftrightarrow> length dst = 6 \<and> length src = 6 \<and> app < 65536 \<and> len < 65536 \<and> length reserved = 4
     \<and> (case vlan of None \<Rightarrow> True | Some (vid, priority) \<Rightarrow> vid < 4096 \<and> priority < 8)"

lemma frame_macs:
  assumes "length dst = 6" "length src = 6"
  shows "formatMac (dst @ src @ rest) 0 = mac_text dst" "formatMac (dst @ src @ rest) 6 = mac_text src"
  using formatMac_middle [of dst "[]"] formatMac_middle [of src dst] assms by simp_all

lemma parse_encode_frame:
  assumes "frame_ok dst src vlan app len reserved" "pdu_ok p utc"
  shows "parseGooseFrame (encode_frame dst src vlan app len reserved p utc pad)
    = Some (Inr \<lparr> destMac = mac_text dst, srcMac = mac_text src, vlanId = map_option fst vlan, vlanPriority = map_option snd vlan,
        appId = app, goose_length = len, frame_pdu = p \<rparr>)"
proof -
  define frame where "frame = encode_frame dst src vlan app len reserved p utc pad"
  note ok = assms(1) [unfolded frame_ok_def]
  have macs: "formatMac frame 0 = mac_text dst" "formatMac frame 6 = mac_text src"
    using frame_macs ok by (simp_all add: frame_def encode_frame_def)
  show ?thesis
  proof (cases vlan)
    case None
    have "readUInt16BE frame 12 = 0x88b8"
      using read_be16 [of "dst @ src" 12 "0x88b8"] ok None by (simp add: frame_def encode_frame_def vlan_octets_def)
    moreover have "14 \<le> length frame" using ok by (simp add: frame_def encode_frame_def)
    moreover have "parse_goose_header frame None 0x88b8 14
        = Some (Inr \<lparr> destMac = mac_text dst, srcMac = mac_text src, vlanId = None, vlanPriority = None, appId = app, goose_length = len, frame_pdu = p \<rparr>)"
      using header_read [of "dst @ src @ writeUInt16BE 0x88b8" 14 app len reserved p utc pad frame None] ok None assms(2) macs
      by (simp add: frame_def encode_frame_def vlan_octets_def)
    ultimately show ?thesis using None by (simp add: parseGooseFrame_def frame_def)
  next
    case (Some v)
    then obtain vid priority where v: "vlan = Some (vid, priority)" "vid < 4096" "priority < 8" using ok by (cases v) auto
    let ?tci = "priority * 8192 + vid"
    have frame: "frame = dst @ src @ writeUInt16BE 0x8100 @ writeUInt16BE ?tci @ writeUInt16BE 0x88b8 @ writeUInt16BE app @ writeUInt16BE len
        @ reserved @ encode_pdu p utc @ pad" by (simp add: frame_def encode_frame_def vlan_octets_def v)
    have "readUInt16BE frame 12 = 0x8100" using read_be16 [of "dst @ src" 12 "0x8100"] ok by (simp add: frame)
    moreover have "readUInt16BE frame 14 = ?tci" using read_be16 [of "dst @ src @ writeUInt16BE 0x8100" 14 ?tci] ok v by (simp add: frame)
    moreover have "readUInt16BE frame 16 = 0x88b8"
      using read_be16 [of "dst @ src @ writeUInt16BE 0x8100 @ writeUInt16BE ?tci" 16 "0x88b8"] ok by (simp add: frame)
    moreover have "18 \<le> length frame" using ok by (simp add: frame)
    moreover have "parse_goose_header frame (Some (vid, priority)) 0x88b8 18
        = Some (Inr \<lparr> destMac = mac_text dst, srcMac = mac_text src, vlanId = Some vid, vlanPriority = Some priority, appId = app, goose_length = len, frame_pdu = p \<rparr>)"
      using header_read [of "dst @ src @ writeUInt16BE 0x8100 @ writeUInt16BE ?tci @ writeUInt16BE 0x88b8" 18 app len reserved p utc pad frame "Some (vid, priority)"]
        ok assms(2) macs by (simp add: frame)
    ultimately show ?thesis using v tci_fields [OF v(2,3)] by (simp add: parseGooseFrame_def frame_def)
  qed
qed


definition good_quality :: goose_quality where
  "good_quality = \<lparr> q_validity = Good, q_overflow = False, q_outOfRange = False, q_badReference = False, q_oscillatory = False, q_failure = False,
     q_oldData = False, q_inconsistent = False, q_inaccurate = False, q_substituted = False, q_test = False, q_operatorBlocked = False \<rparr>"

definition sample_pdu :: goose_pdu where
  "sample_pdu = \<lparr> gocbRef = ''G'', timeAllowedToLive = 2000, datSet = ''D'', goID = ''I'', pdu_t = nearest_ms 1700000000 0, stNum = 1, sqNum = 0,
     simulation = False, confRev = 1, ndsCom = False, numDatSetEntries = 3, allData = [GBoolean True, GQuality good_quality, GStructure [GInt (- 5)]] \<rparr>"

lemma sample_pdu_ok: "pdu_ok sample_pdu (1700000000, 0, 10)"
  by (simp add: pdu_ok_def sample_pdu_def values_ok_def encode_pdu_def pdu_fields_def value_tlv_def tlv_def encodeLength_def text_octets_def
      uint_octets_def be_octets.simps bool_octet_def utc_octets_def int_octets_def fits_octets_def ceil_div_def quality_bits_def good_quality_def)

definition sample_frame :: buffer where
  "sample_frame = encode_frame [1, 12, 205, 1, 0, 1] [0, 17, 34, 51, 68, 85] (Some (10, 4)) 0x3001 90 [0, 0, 0, 0] sample_pdu (1700000000, 0, 10) [0, 0]"


end
