(* ===== verification/Goose_Subscription.thy ===== *)
theory Goose_Subscription
  imports Goose_Roundtrip
begin

text \<open>
  Validation of GOOSE frames against a subscription (\<open>protocols/iec61850-goose/subscription.ts\<close>) and the subscriber that feeds it
  (\<open>index.ts\<close>, \<open>metrics.ts\<close>): addresses, revision, simulation, shape of the dataset, state and sequence numbers, the time to live.
  Times are JavaScript numbers. The increments of the metrics and the calls of the tag sink are lists, in order. Texts of log lines and
  of rejections are left out.
\<close>

section \<open>Configuration\<close>

datatype member_type = TBoolean | TInt | TUint | TFloat | TBitstring | TQuality | TOctetstring | TVisiblestring | TUtctime | TStructure

record dataset_member =
  tagName :: string
  want_type :: member_type
  isQuality :: "bool option"

datatype simulation_policy = PReject | PAccept | PAcceptFlagged

record subscription_config =
  cfg_gocbRef :: string
  cfg_appId :: nat
  expectedDestMac :: "string option"
  expectedSrcMac :: "string option"
  dataset :: "dataset_member list"
  expectedConfRev :: "nat option"
  simulationPolicy :: simulation_policy

definition is_hex_digit :: "char \<Rightarrow> bool" where
  "is_hex_digit c = (let n = of_char c :: nat in 48 \<le> n \<and> n \<le> 57 \<or> 65 \<le> n \<and> n \<le> 70 \<or> 97 \<le> n \<and> n \<le> 102)"

definition mac_regex :: "string \<Rightarrow> bool" where
  "mac_regex s \<longleftrightarrow> length s = 17 \<and> list_all (\<lambda>i. if i mod 3 = 2 then s ! i = CHR '':'' else is_hex_digit (s ! i)) [0..<17]"

text \<open>What \<open>gooseSubscriptionConfigSchema.parse\<close> accepts.\<close>

definition config_ok :: "subscription_config \<Rightarrow> bool" where
  "config_ok c \<longleftrightarrow> cfg_gocbRef c \<noteq> [] \<and> cfg_appId c \<le> 0x3fff \<and> pred_option mac_regex (expectedDestMac c) \<and> pred_option mac_regex (expectedSrcMac c)
     \<and> dataset c \<noteq> [] \<and> list_all (\<lambda>m. tagName m \<noteq> []) (dataset c)"

section \<open>Texts\<close>

definition lower_char :: "char \<Rightarrow> char" where
  "lower_char c = (let n = of_char c :: nat in if 65 \<le> n \<and> n \<le> 90 then char_of (n + 32) else c)"

text \<open>\<open>toLowerCase()\<close> of an address that \<open>mac_regex\<close> accepts.\<close>

definition toLowerCase :: "string \<Rightarrow> string" where
  "toLowerCase s = map lower_char s"

function digits_in :: "nat \<Rightarrow> nat \<Rightarrow> string" where
  "digits_in base n = (if n < base \<or> base < 2 then [hex_char n] else digits_in base (n div base) @ [hex_char (n mod base)])"
  by pat_completeness auto
termination
  by (relation "measure snd") auto

definition padStart0 :: "nat \<Rightarrow> string \<Rightarrow> string" where
  "padStart0 w s = replicate (w - length s) CHR ''0'' @ s"

text \<open>The date of a day counted from 1970-01-01, in the proleptic Gregorian calendar.\<close>

definition civil :: "int \<Rightarrow> int \<times> int \<times> int" where
  "civil days =
     (let z = days + 719468; era = z div 146097; doe = z mod 146097;
          yoe = (doe - doe div 1460 + doe div 36524 - doe div 146096) div 365;
          doy = doe - (365 * yoe + yoe div 4 - yoe div 100); mp = (5 * doy + 2) div 153;
          m = (if mp < 10 then mp + 3 else mp - 9)
      in (yoe + era * 400 + (if m \<le> 2 then 1 else 0), m, doy - (153 * mp + 2) div 5 + 1))"

text \<open>\<open>new Date(ms).toISOString()\<close>; \<open>None\<close> is the \<open>RangeError\<close> of an invalid date.\<close>

definition iso_of_ms :: "int \<Rightarrow> string" where
  "iso_of_ms t =
     (let (y, m, d) = civil (t div 86400000); r = t mod 86400000; two = (\<lambda>i. padStart0 2 (digits_in 10 (nat i)));
          year = (if 0 \<le> y \<and> y \<le> 9999 then padStart0 4 (digits_in 10 (nat y))
                  else (if y < 0 then ''-'' else ''+'') @ padStart0 6 (digits_in 10 (nat \<bar>y\<bar>)))
      in year @ ''-'' @ two m @ ''-'' @ two d @ ''T'' @ two (r div 3600000) @ '':'' @ two (r div 60000 mod 60) @ '':''
         @ two (r div 1000 mod 60) @ ''.'' @ padStart0 3 (digits_in 10 (nat (r mod 1000))) @ ''Z'')"

definition date_toISOString :: "number \<Rightarrow> string option" where
  "date_toISOString ms =
     (case ms of
        Finite s m e \<Rightarrow> (if num_le (Finite False m e) (num_of_int 8640000000000000) then Some (iso_of_ms (trunc_finite s m e)) else None)
      | _ \<Rightarrow> None)"

section \<open>Tag updates\<close>

datatype tag_quality = TagGood | TagBad | TagUncertain
datatype goose_tag_value = VNumber number | VString string | VBoolean bool

record goose_tag_update =
  upd_tagName :: string
  upd_value :: goose_tag_value
  upd_quality :: tag_quality
  upd_timestamp :: string
  upd_gocbRef :: string
  upd_stNum :: nat
  upd_simulated :: bool

definition qualityToTagQuality :: "goose_quality \<Rightarrow> tag_quality" where
  "qualityToTagQuality q =
     (if q_validity q = Invalid \<or> q_failure q \<or> q_badReference q then TagBad
      else if q_validity q = Questionable \<or> q_validity q = Reserved \<or> q_oldData q \<or> q_outOfRange q \<or> q_overflow q \<or> q_inconsistent q
        \<or> q_inaccurate q \<or> q_oscillatory q \<or> q_substituted q \<or> q_operatorBlocked q \<or> q_test q
      then TagUncertain
      else TagGood)"

definition validity_text :: "validity \<Rightarrow> string" where
  "validity_text v = (case v of Good \<Rightarrow> ''good'' | Invalid \<Rightarrow> ''invalid'' | Reserved \<Rightarrow> ''reserved'' | Questionable \<Rightarrow> ''questionable'')"

definition bitsToString :: "bool list \<Rightarrow> string" where
  "bitsToString bits = map (\<lambda>b. if b then CHR ''1'' else CHR ''0'') bits"

text \<open>\<open>None\<close>: the tag of an unknown value is \<open>undefined\<close>, and its \<open>toString\<close> throws.\<close>

definition projectValue :: "goose_value \<Rightarrow> (goose_tag_value \<times> tag_quality) option" where
  "projectValue d =
     (case d of
        GQuality q \<Rightarrow> Some (VString (validity_text (q_validity q)), qualityToTagQuality q)
      | GBoolean b \<Rightarrow> Some (VBoolean b, TagGood)
      | GInt i \<Rightarrow> Some (VNumber (num_of_int i), TagGood)
      | GUint n \<Rightarrow> Some (VNumber (num_of_int (int n)), TagGood)
      | GFloat x \<Rightarrow> Some (VNumber x, TagGood)
      | GVisible s \<Rightarrow> Some (VString s, TagGood)
      | GBitstring bits unused \<Rightarrow> Some (VString (bitsToString bits), TagGood)
      | GOctets b \<Rightarrow> Some (VString (concat (map hex_octet b)), TagGood)
      | GUtc s f q \<Rightarrow> Some (VNumber (num_of_int (int s * 1000)), TagGood)
      | GStructure vs \<Rightarrow> Some (VString (''struct('' @ digits_in 10 (length vs) @ '')''), TagGood)
      | GUnknown tag raw \<Rightarrow> map_option (\<lambda>t. (VString (''unknown(0x'' @ digits_in 16 t @ '')''), TagUncertain)) tag)"

section \<open>Validation\<close>

datatype reject_reason = parse_error | no_subscription | mac_mismatch | app_id_mismatch | dataset_shape | stnum_regression
  | sqnum_regression | ttl_expired | conf_rev_mismatch | simulation_bit | nds_com

record subscription =
  config :: subscription_config
  lastStNum :: "nat option"
  lastSqNum :: "nat option"
  expiresAt :: "number option"

datatype validation_result =
    Accepted (updates: "goose_tag_update list") (roundTripUs: number) (stateChanged: bool) (wasStale: bool)
  | Rejected reject_reason
  | Threw

definition new_subscription :: "subscription_config \<Rightarrow> subscription option" where
  "new_subscription c = (if config_ok c then Some \<lparr> config = c, lastStNum = None, lastSqNum = None, expiresAt = None \<rparr> else None)"

definition sub_matches :: "subscription \<Rightarrow> goose_frame \<Rightarrow> bool" where
  "sub_matches s f \<longleftrightarrow> gocbRef (frame_pdu f) = cfg_gocbRef (config s) \<and> appId f = cfg_appId (config s)"

definition isStale :: "subscription \<Rightarrow> number \<Rightarrow> bool" where
  "isStale s nowMs = (case expiresAt s of None \<Rightarrow> False | Some e \<Rightarrow> num_lt e nowMs)"

definition reset_subscription :: "subscription \<Rightarrow> subscription" where
  "reset_subscription s = s \<lparr> lastStNum := None, lastSqNum := None, expiresAt := None \<rparr>"

definition value_type :: "goose_value \<Rightarrow> member_type option" where
  "value_type d =
     (case d of GBoolean _ \<Rightarrow> Some TBoolean | GInt _ \<Rightarrow> Some TInt | GUint _ \<Rightarrow> Some TUint | GFloat _ \<Rightarrow> Some TFloat
      | GBitstring _ _ \<Rightarrow> Some TBitstring | GQuality _ \<Rightarrow> Some TQuality | GOctets _ \<Rightarrow> Some TOctetstring | GVisible _ \<Rightarrow> Some TVisiblestring
      | GUtc _ _ _ \<Rightarrow> Some TUtctime | GStructure _ \<Rightarrow> Some TStructure | GUnknown _ _ \<Rightarrow> None)"

fun members_fit :: "dataset_member list \<Rightarrow> goose_value list \<Rightarrow> bool" where
  "members_fit (want # wants) (actual # actuals) =
     (if want_type want = TQuality
      then (value_type actual = Some TQuality \<or> value_type actual = Some TBitstring) \<and> members_fit wants actuals
      else value_type actual = Some (want_type want) \<and> members_fit wants actuals)"
| "members_fit _ _ = True"

definition checkDatasetShape :: "subscription_config \<Rightarrow> goose_value list \<Rightarrow> bool" where
  "checkDatasetShape c ds \<longleftrightarrow> length ds = length (dataset c) \<and> members_fit (dataset c) ds"

definition buildTagUpdates :: "subscription_config \<Rightarrow> goose_frame \<Rightarrow> number \<Rightarrow> goose_tag_update list option" where
  "buildTagUpdates c f receiveMs =
     (let pdu = frame_pdu f in
      case date_toISOString receiveMs of
        None \<Rightarrow> None
      | Some timestamp \<Rightarrow>
          those (map (\<lambda>(m, d). map_option (\<lambda>(v, q). \<lparr> upd_tagName = tagName m, upd_value = v, upd_quality = q, upd_timestamp = timestamp,
              upd_gocbRef = gocbRef pdu, upd_stNum = stNum pdu, upd_simulated = simulation pdu \<rparr>) (projectValue d))
            (zip (dataset c) (allData pdu))))"

definition max_zero :: "number \<Rightarrow> number" where
  "max_zero x = (if x = NaN then NaN else if num_lt (num_of_int 0) x then x else num_of_int 0)"

text \<open>Step 8: the state and sequence numbers.\<close>

definition sequence_error :: "subscription \<Rightarrow> goose_pdu \<Rightarrow> reject_reason option" where
  "sequence_error s p =
     (case lastStNum s of
        None \<Rightarrow> None
      | Some lastSt \<Rightarrow>
          if stNum p < lastSt \<and> \<not> (stNum p \<le> 1 \<and> lastSt \<ge> 0xfffffff0) then Some stnum_regression
          else if stNum p = lastSt
          then (case lastSqNum s of
                  None \<Rightarrow> None
                | Some lastSq \<Rightarrow>
                    if sqNum p \<le> lastSq \<and> \<not> (sqNum p = 0 \<and> lastSq \<ge> 0xfffffff0) then Some sqnum_regression else None)
          else None)"

definition validate :: "subscription \<Rightarrow> goose_frame \<Rightarrow> number \<Rightarrow> validation_result \<times> subscription" where
  "validate s f receiveMs =
     (let c = config s; pdu = frame_pdu f; wrong = (\<lambda>expected actual. case expected of None \<Rightarrow> False | Some m \<Rightarrow> actual \<noteq> toLowerCase m) in
      if wrong (expectedDestMac c) (destMac f) then (Rejected mac_mismatch, s)
      else if wrong (expectedSrcMac c) (srcMac f) then (Rejected mac_mismatch, s)
      else if appId f \<noteq> cfg_appId c then (Rejected app_id_mismatch, s)
      else if ndsCom pdu then (Rejected nds_com, s)
      else if (case expectedConfRev c of None \<Rightarrow> False | Some r \<Rightarrow> confRev pdu \<noteq> r) then (Rejected conf_rev_mismatch, s)
      else if simulation pdu \<and> simulationPolicy c = PReject then (Rejected simulation_bit, s)
      else if \<not> checkDatasetShape c (allData pdu) then (Rejected dataset_shape, s)
      else (case sequence_error s pdu of
          Some r \<Rightarrow> (Rejected r, s)
        | None \<Rightarrow>
            let s' = s \<lparr> lastStNum := Some (stNum pdu), lastSqNum := Some (sqNum pdu),
                  expiresAt := Some (num_add receiveMs (num_of_int (int (timeAllowedToLive pdu)))) \<rparr>
            in (case buildTagUpdates c f receiveMs of
                  None \<Rightarrow> (Threw, s')
                | Some us \<Rightarrow> (Accepted us (max_zero (num_mul (num_sub receiveMs (pdu_t pdu)) (num_of_int 1000)))
                                (lastStNum s \<noteq> Some (stNum pdu)) (isStale s receiveMs), s'))))"

section \<open>The subscriber\<close>

datatype metric = FramesReceived nat | FramesRejected reject_reason | RoundTrip number string | LastStNum nat string | SubscriptionsActive nat

record subscriber =
  subscriptions :: "subscription list"
  metrics :: "metric list"
  delivered :: "goose_tag_update list"

definition new_subscriber :: subscriber where
  "new_subscriber = \<lparr> subscriptions = [], metrics = [], delivered = [] \<rparr>"

definition subscribe :: "subscription_config \<Rightarrow> subscriber \<Rightarrow> subscriber option" where
  "subscribe c S = map_option (\<lambda>s. S \<lparr> subscriptions := subscriptions S @ [s],
     metrics := metrics S @ [SubscriptionsActive (length (subscriptions S) + 1)] \<rparr>) (new_subscription c)"

definition sweepStaleSubscriptions :: "number \<Rightarrow> subscriber \<Rightarrow> subscriber" where
  "sweepStaleSubscriptions nowMs S =
     (let stale = filter (\<lambda>s. isStale s nowMs) (subscriptions S)
      in S \<lparr> subscriptions := map (\<lambda>s. if isStale s nowMs then reset_subscription s else s) (subscriptions S),
             metrics := metrics S @ map (\<lambda>_. FramesRejected ttl_expired) stale \<rparr>)"

fun find_index :: "('a \<Rightarrow> bool) \<Rightarrow> 'a list \<Rightarrow> nat option" where
  "find_index P [] = None"
| "find_index P (x # xs) = (if P x then Some 0 else map_option Suc (find_index P xs))"

text \<open>The first result of \<open>handleFrame\<close> is what it returns, \<open>None\<close> when it throws; the whole is \<open>None\<close> when the parser does not return.\<close>

definition handle_parsed :: "goose_frame \<Rightarrow> number \<Rightarrow> subscriber \<Rightarrow> goose_tag_update list option \<times> subscriber" where
  "handle_parsed f receiveMs S =
     (let S = S \<lparr> metrics := metrics S @ [FramesReceived (appId f)] \<rparr> in
      case find_index (\<lambda>s. sub_matches s f) (subscriptions S) of
        None \<Rightarrow> (Some [], S \<lparr> metrics := metrics S @ [FramesRejected no_subscription] \<rparr>)
      | Some i \<Rightarrow>
          (case validate (subscriptions S ! i) f receiveMs of
             (Rejected r, s) \<Rightarrow> (Some [], S \<lparr> subscriptions := (subscriptions S)[i := s], metrics := metrics S @ [FramesRejected r] \<rparr>)
           | (Threw, s) \<Rightarrow> (None, S \<lparr> subscriptions := (subscriptions S)[i := s] \<rparr>)
           | (Accepted us rt changed stale, s) \<Rightarrow>
               (Some us, S \<lparr> subscriptions := (subscriptions S)[i := s],
                  metrics := metrics S @ [RoundTrip rt (gocbRef (frame_pdu f)), LastStNum (stNum (frame_pdu f)) (gocbRef (frame_pdu f))]
                    @ (if stale then [FramesRejected ttl_expired] else []),
                  delivered := delivered S @ us \<rparr>)))"

definition handleFrame :: "buffer \<Rightarrow> number \<Rightarrow> subscriber \<Rightarrow> (goose_tag_update list option \<times> subscriber) option" where
  "handleFrame frame receiveMs S =
     (case parseGooseFrame frame of
        None \<Rightarrow> None
      | Some (Inl e) \<Rightarrow> Some (Some [], S \<lparr> metrics := metrics S @ [FramesRejected parse_error] \<rparr>)
      | Some (Inr f) \<Rightarrow> Some (handle_parsed f receiveMs S))"

text \<open>What happens to a subscriber: frames, the watchdog, further subscriptions.\<close>

datatype goose_event = Frame buffer number | Sweep number | Subscribe subscription_config

fun goose_step :: "goose_event \<Rightarrow> subscriber \<Rightarrow> subscriber option" where
  "goose_step (Frame frame receiveMs) S = map_option snd (handleFrame frame receiveMs S)"
| "goose_step (Sweep nowMs) S = Some (sweepStaleSubscriptions nowMs S)"
| "goose_step (Subscribe c) S = Some (case subscribe c S of None \<Rightarrow> S | Some S' \<Rightarrow> S')"

fun goose_run :: "goose_event list \<Rightarrow> subscriber \<Rightarrow> subscriber option" where
  "goose_run [] S = Some S"
| "goose_run (e # es) S = (case goose_step e S of None \<Rightarrow> None | Some S' \<Rightarrow> goose_run es S')"

section \<open>What a subscription accepts\<close>

definition fits :: "dataset_member \<Rightarrow> goose_value \<Rightarrow> bool" where
  "fits m d \<longleftrightarrow> value_type d = Some (want_type m) \<or> want_type m = TQuality \<and> value_type d = Some TBitstring"

lemma members_fit_all2: "length wants = length ds \<Longrightarrow> members_fit wants ds = list_all2 fits wants ds"
  by (induction wants ds rule: list_induct2) (auto simp: fits_def)

lemma shape_all2: "checkDatasetShape c ds = list_all2 fits (dataset c) ds"
  using members_fit_all2 [of "dataset c" ds] by (auto simp: checkDatasetShape_def dest: list_all2_lengthD)

text \<open>The order of state and sequence numbers: one message may follow another if its state is later, or the state is the same and it
  is a later retransmission. Both counters wrap.\<close>

definition follows :: "nat \<times> nat \<Rightarrow> nat \<times> nat \<Rightarrow> bool" where
  "follows = (\<lambda>(st, sq) (st', sq').
     st < st' \<or> (st' < st \<and> st' \<le> 1 \<and> st \<ge> 0xfffffff0) \<or> (st = st' \<and> (sq < sq' \<or> sq' = 0 \<and> sq \<ge> 0xfffffff0)))"

definition numbers :: "goose_pdu \<Rightarrow> nat \<times> nat" where
  "numbers p = (stNum p, sqNum p)"

definition last_numbers :: "subscription \<Rightarrow> (nat \<times> nat) option" where
  "last_numbers s = (case (lastStNum s, lastSqNum s) of (Some st, Some sq) \<Rightarrow> Some (st, sq) | _ \<Rightarrow> None)"

definition sub_inv :: "subscription \<Rightarrow> bool" where
  "sub_inv s \<longleftrightarrow> config_ok (config s) \<and> (lastStNum s = None) = (lastSqNum s = None) \<and> (lastStNum s = None) = (expiresAt s = None)"

lemma sequence_follows: "sub_inv s \<Longrightarrow> sequence_error s p = None \<longleftrightarrow> (\<forall>l. last_numbers s = Some l \<longrightarrow> follows l (numbers p))"
  by (auto simp: sub_inv_def sequence_error_def last_numbers_def follows_def numbers_def split: option.splits)

definition acceptable :: "subscription_config \<Rightarrow> goose_frame \<Rightarrow> bool" where
  "acceptable c f \<longleftrightarrow> pred_option (\<lambda>m. destMac f = toLowerCase m) (expectedDestMac c) \<and> pred_option (\<lambda>m. srcMac f = toLowerCase m) (expectedSrcMac c)
     \<and> appId f = cfg_appId c \<and> \<not> ndsCom (frame_pdu f) \<and> pred_option (\<lambda>r. confRev (frame_pdu f) = r) (expectedConfRev c)
     \<and> \<not> (simulation (frame_pdu f) \<and> simulationPolicy c = PReject) \<and> list_all2 fits (dataset c) (allData (frame_pdu f))"

definition advanced :: "subscription \<Rightarrow> goose_pdu \<Rightarrow> number \<Rightarrow> subscription" where
  "advanced s p receiveMs = s \<lparr> lastStNum := Some (stNum p), lastSqNum := Some (sqNum p),
     expiresAt := Some (num_add receiveMs (num_of_int (int (timeAllowedToLive p)))) \<rparr>"

lemma validate_accepts:
  assumes "acceptable (config s) f" "sequence_error s (frame_pdu f) = None"
  shows "snd (validate s f t) = advanced s (frame_pdu f) t"
    and "fst (validate s f t) = (case buildTagUpdates (config s) f t of None \<Rightarrow> Threw
      | Some us \<Rightarrow> Accepted us (max_zero (num_mul (num_sub t (pdu_t (frame_pdu f))) (num_of_int 1000)))
          (lastStNum s \<noteq> Some (stNum (frame_pdu f))) (isStale s t))"
  using assms
  by (auto simp: validate_def acceptable_def advanced_def shape_all2 Let_def pred_option_def split: option.splits)

lemma validate_rejects:
  assumes "\<not> (acceptable (config s) f \<and> sequence_error s (frame_pdu f) = None)"
  shows "\<exists>r. validate s f t = (Rejected r, s)"
  using assms
  by (auto simp: validate_def acceptable_def shape_all2 Let_def pred_option_def split: option.splits)

lemma fits_projects: "fits m d \<Longrightarrow> projectValue d \<noteq> None"
  by (cases d) (auto simp: fits_def value_type_def projectValue_def)

lemma those_map: "(\<And>x. x \<in> set xs \<Longrightarrow> g x = Some (h x)) \<Longrightarrow> those (map g xs) = Some (map h xs)"
  by (induction xs) auto

text \<open>The update that a member of the dataset gives.\<close>

definition tag_update :: "string \<Rightarrow> goose_pdu \<Rightarrow> dataset_member \<Rightarrow> goose_value \<Rightarrow> goose_tag_update" where
  "tag_update stamp p m d = \<lparr> upd_tagName = tagName m, upd_value = fst (the (projectValue d)), upd_quality = snd (the (projectValue d)),
     upd_timestamp = stamp, upd_gocbRef = gocbRef p, upd_stNum = stNum p, upd_simulated = simulation p \<rparr>"

lemma updates_built:
  assumes "list_all2 fits (dataset c) (allData (frame_pdu f))" "date_toISOString t = Some stamp"
  shows "buildTagUpdates c f t = Some (map2 (tag_update stamp (frame_pdu f)) (dataset c) (allData (frame_pdu f)))"
proof -
  have projects: "projectValue d \<noteq> None" if "(m, d) \<in> set (zip (dataset c) (allData (frame_pdu f)))" for m d
    using assms(1) that fits_projects by (auto simp: list_all2_iff)
  show ?thesis unfolding buildTagUpdates_def Let_def assms(2) option.case
  proof (rule those_map)
    fix x assume "x \<in> set (zip (dataset c) (allData (frame_pdu f)))"
    then obtain m d where x: "x = (m, d)" "projectValue d \<noteq> None" using projects by (metis surj_pair)
    then obtain v q where "x = (m, d)" "projectValue d = Some (v, q)" by auto
    then show "(case x of (m, d) \<Rightarrow> map_option (\<lambda>(v, q). \<lparr> upd_tagName = tagName m, upd_value = v, upd_quality = q, upd_timestamp = stamp,
              upd_gocbRef = gocbRef (frame_pdu f), upd_stNum = stNum (frame_pdu f), upd_simulated = simulation (frame_pdu f) \<rparr>) (projectValue d))
        = Some (case x of (m, d) \<Rightarrow> tag_update stamp (frame_pdu f) m d)"
      by (simp add: tag_update_def)
  qed
qed

text \<open>C37: A subscription accepts a frame exactly when its addresses, APPID, revision and simulation bit are the expected ones, the publisher
  needs no commissioning, the dataset has the configured shape, and its numbers follow those accepted last. It then emits one update for each member
  and keeps the numbers and the new expiry; otherwise it gives a reason and keeps its state. The stamp must be a valid date.\<close>

theorem subscription_accepts_exactly:
  assumes "sub_inv s" "date_toISOString receiveMs = Some stamp"
  shows "if acceptable (config s) f \<and> (\<forall>l. last_numbers s = Some l \<longrightarrow> follows l (numbers (frame_pdu f)))
    then (\<exists>rt. validate s f receiveMs
            = (Accepted (map2 (tag_update stamp (frame_pdu f)) (dataset (config s)) (allData (frame_pdu f))) rt
                 (lastStNum s \<noteq> Some (stNum (frame_pdu f))) (isStale s receiveMs), advanced s (frame_pdu f) receiveMs))
    else (\<exists>r. validate s f receiveMs = (Rejected r, s))"
proof (cases "acceptable (config s) f \<and> sequence_error s (frame_pdu f) = None")
  case True
  then have "list_all2 fits (dataset (config s)) (allData (frame_pdu f))" by (simp add: acceptable_def)
  then show ?thesis
    using True validate_accepts [of s f receiveMs] updates_built [OF _ assms(2)] sequence_follows [OF assms(1)]
    by (cases "validate s f receiveMs") auto
next
  case False
  then show ?thesis using validate_rejects [of s f receiveMs] sequence_follows [OF assms(1)] by auto
qed

section \<open>Every reachable subscription is well formed\<close>

definition subscriber_inv :: "subscriber \<Rightarrow> bool" where
  "subscriber_inv S \<longleftrightarrow> list_all sub_inv (subscriptions S)"

text \<open>A step of the subscriber; a frame on which the parser does not return leaves the state it found.\<close>

definition goose_move :: "goose_event \<Rightarrow> subscriber \<Rightarrow> subscriber" where
  "goose_move e S = (case goose_step e S of None \<Rightarrow> S | Some S' \<Rightarrow> S')"

lemma validate_inv: "sub_inv s \<Longrightarrow> sub_inv (snd (validate s f t))"
proof (cases "acceptable (config s) f \<and> sequence_error s (frame_pdu f) = None")
  case True
  assume "sub_inv s"
  then show ?thesis using True validate_accepts(1) [of s f t] by (simp add: advanced_def sub_inv_def)
next
  case False
  assume "sub_inv s"
  then show ?thesis using validate_rejects [OF False, of t] by auto
qed

lemma handled_subscriptions:
  "subscriptions (snd (handle_parsed g t S)) =
     (case find_index (\<lambda>s. sub_matches s g) (subscriptions S) of
        None \<Rightarrow> subscriptions S
      | Some j \<Rightarrow> (subscriptions S)[j := snd (validate (subscriptions S ! j) g t)])"
  by (auto simp: handle_parsed_def Let_def split: option.splits prod.splits validation_result.splits)

lemma find_index_nth: "find_index P xs = Some i \<Longrightarrow> i < length xs \<and> P (xs ! i)"
  by (induction xs arbitrary: i) (auto split: if_splits)

lemma handle_parsed_inv: "subscriber_inv S \<Longrightarrow> subscriber_inv (snd (handle_parsed f t S))"
proof -
  assume inv: "subscriber_inv S"
  show ?thesis
  proof (cases "find_index (\<lambda>s. sub_matches s f) (subscriptions S)")
    case (Some j)
    then have "sub_inv (subscriptions S ! j)" using inv find_index_nth [OF Some] by (simp add: subscriber_inv_def list_all_length)
    then have "sub_inv (snd (validate (subscriptions S ! j) f t))" by (rule validate_inv)
    then show ?thesis
      using inv Some set_update_subset_insert [of "subscriptions S" j] by (auto simp: subscriber_inv_def list_all_iff handled_subscriptions)
  qed (use inv in \<open>simp add: subscriber_inv_def handled_subscriptions\<close>)
qed

lemma goose_step_inv: "subscriber_inv S \<Longrightarrow> goose_step e S = Some S' \<Longrightarrow> subscriber_inv S'"
proof (cases e)
  case (Frame b t)
  assume a: "subscriber_inv S" "goose_step e S = Some S'"
  show ?thesis
  proof (cases "\<exists>g. parseGooseFrame b = Some (Inr g)")
    case True
    then obtain g where g: "parseGooseFrame b = Some (Inr g)" by blast
    then have "S' = snd (handle_parsed g t S)" using a Frame by (auto simp: handleFrame_def)
    then show ?thesis using handle_parsed_inv [OF a(1)] by simp
  qed (use a Frame in \<open>auto simp: handleFrame_def subscriber_inv_def split: option.splits sum.splits\<close>)
next
  case (Sweep now)
  assume "subscriber_inv S" "goose_step e S = Some S'"
  then show ?thesis using Sweep
    by (auto simp: sweepStaleSubscriptions_def Let_def subscriber_inv_def list_all_iff reset_subscription_def sub_inv_def)
next
  case (Subscribe c)
  assume "subscriber_inv S" "goose_step e S = Some S'"
  then show ?thesis using Subscribe
    by (auto simp: subscribe_def new_subscription_def subscriber_inv_def sub_inv_def split: option.splits if_splits)
qed

interpretation goose: invariant_machine goose_move subscriber_inv
  by unfold_locales (auto simp: goose_move_def intro: goose_step_inv split: option.splits)

lemma reachable_subscriptions: "s \<in> set (subscriptions (fold goose_move es new_subscriber)) \<Longrightarrow> sub_inv s"
  using goose.run_inv [of new_subscriber es] by (simp add: subscriber_inv_def new_subscriber_def list_all_iff)

section \<open>Replays\<close>

lemma find_index_cong: "list_all2 (\<lambda>x y. P x = P y) xs ys \<Longrightarrow> find_index P xs = find_index P ys"
  by (induction rule: list_all2_induct) auto

lemma find_index_append: "find_index P xs = Some i \<Longrightarrow> find_index P (xs @ ys) = Some i"
  by (induction xs arbitrary: i) (auto split: if_splits)

lemma find_index_update: "P y = P (xs ! j) \<Longrightarrow> find_index P (xs[j := y]) = find_index P xs"
  by (cases "j < length xs") (auto intro!: find_index_cong simp: list_all2_conv_all_nth nth_list_update)

lemma validate_config: "config (snd (validate s f t)) = config s"
proof (cases "acceptable (config s) f \<and> sequence_error s (frame_pdu f) = None")
  case True
  then show ?thesis using validate_accepts(1) [of s f t] by (simp add: advanced_def)
next
  case False
  then obtain r where "validate s f t = (Rejected r, s)" using validate_rejects by blast
  then show ?thesis by simp
qed

text \<open>A low number is one before the last sixteen of the 32 bit counters, from which they may wrap.\<close>

definition low :: "goose_pdu \<Rightarrow> bool" where
  "low p \<longleftrightarrow> stNum p < 0xfffffff0 \<and> sqNum p < 0xfffffff0"

text \<open>The frame \<open>f\<close> or a later one is the last that its subscription accepted.\<close>

definition passed :: "goose_frame \<Rightarrow> subscriber \<Rightarrow> bool" where
  "passed f S \<longleftrightarrow> (\<exists>i s p. find_index (\<lambda>s. sub_matches s f) (subscriptions S) = Some i \<and> s = subscriptions S ! i
     \<and> lastStNum s = Some (stNum p) \<and> lastSqNum s = Some (sqNum p) \<and> low p
     \<and> (stNum (frame_pdu f) < stNum p \<or> stNum (frame_pdu f) = stNum p \<and> sqNum (frame_pdu f) \<le> sqNum p))"

lemma passed_refuses:
  assumes "passed f S"
  shows "\<exists>r. handle_parsed f t S = (Some [], S \<lparr> metrics := metrics S @ [FramesReceived (appId f), FramesRejected r] \<rparr>)"
proof -
  obtain i s p where i: "find_index (\<lambda>s. sub_matches s f) (subscriptions S) = Some i" "s = subscriptions S ! i"
    and p: "lastStNum s = Some (stNum p)" "lastSqNum s = Some (sqNum p)" "low p"
      "stNum (frame_pdu f) < stNum p \<or> stNum (frame_pdu f) = stNum p \<and> sqNum (frame_pdu f) \<le> sqNum p"
    using assms unfolding passed_def by blast
  have "sequence_error s (frame_pdu f) \<noteq> None" using p by (auto simp: sequence_error_def low_def)
  then obtain r where "validate s f t = (Rejected r, s)" using validate_rejects [of s f t] by auto
  then have "handle_parsed f t S = (Some [], S \<lparr> metrics := metrics S @ [FramesReceived (appId f), FramesRejected r] \<rparr>)"
    using i by (simp add: handle_parsed_def)
  then show ?thesis by blast
qed

lemma later_numbers:
  assumes "sequence_error s q = None" "lastStNum s = Some (stNum p)" "lastSqNum s = Some (sqNum p)" "low p"
  shows "stNum p < stNum q \<or> stNum p = stNum q \<and> sqNum p < sqNum q"
  using assms by (auto simp: sequence_error_def low_def split: if_splits)

lemma passed_frame:
  assumes "passed f S" "low (frame_pdu g)"
  shows "passed f (snd (handle_parsed g t S))"
proof -
  obtain i s p where i: "find_index (\<lambda>s. sub_matches s f) (subscriptions S) = Some i" "s = subscriptions S ! i"
    and p: "lastStNum s = Some (stNum p)" "lastSqNum s = Some (sqNum p)" "low p"
      "stNum (frame_pdu f) < stNum p \<or> stNum (frame_pdu f) = stNum p \<and> sqNum (frame_pdu f) \<le> sqNum p"
    using assms(1) unfolding passed_def by blast
  show ?thesis
  proof (cases "find_index (\<lambda>s. sub_matches s g) (subscriptions S)")
    case None
    then show ?thesis using assms(1) by (simp add: passed_def handled_subscriptions)
  next
    case (Some j)
    define s' where "s' = snd (validate (subscriptions S ! j) g t)"
    have subs: "subscriptions (snd (handle_parsed g t S)) = (subscriptions S)[j := s']" using Some by (simp add: handled_subscriptions s'_def)
    have idx: "find_index (\<lambda>s. sub_matches s f) ((subscriptions S)[j := s']) = Some i"
      using i(1) find_index_update [of "\<lambda>s. sub_matches s f" s' "subscriptions S" j] by (simp add: sub_matches_def s'_def validate_config)
    show ?thesis
    proof (cases "j = i \<and> acceptable (config s) g \<and> sequence_error s (frame_pdu g) = None")
      case True
      then have "s' = advanced s (frame_pdu g) t" using i(2) validate_accepts(1) by (simp add: s'_def)
      moreover have "i < length (subscriptions S)" using find_index_nth [OF i(1)] by simp
      moreover have "stNum p < stNum (frame_pdu g) \<or> stNum p = stNum (frame_pdu g) \<and> sqNum p < sqNum (frame_pdu g)"
        using True p later_numbers by blast
      ultimately show ?thesis
        using idx subs True p(4) assms(2) unfolding passed_def
        by (intro exI [of _ i] exI [of _ s'] exI [of _ "frame_pdu g"]) (auto simp: advanced_def)
    next
      case False
      then have "j \<noteq> i \<or> s' = s" using validate_rejects [of s g t] i(2) by (auto simp: s'_def)
      then have "(subscriptions S)[j := s'] ! i = s" 
        using find_index_nth [OF i(1)] i(2) by (cases "j = i") auto
      then show ?thesis using idx subs p unfolding passed_def by metis
    qed
  qed
qed

lemma passed_cong:
  assumes "passed f S" "list_all2 (\<lambda>s s'. sub_matches s f = sub_matches s' f) (subscriptions S) (subscriptions S')"
    "\<And>i. i < length (subscriptions S) \<Longrightarrow> sub_matches (subscriptions S ! i) f \<Longrightarrow> subscriptions S' ! i = subscriptions S ! i"
  shows "passed f S'"
proof -
  obtain i s p where i: "find_index (\<lambda>s. sub_matches s f) (subscriptions S) = Some i" "s = subscriptions S ! i"
    and p: "lastStNum s = Some (stNum p)" "lastSqNum s = Some (sqNum p)" "low p"
      "stNum (frame_pdu f) < stNum p \<or> stNum (frame_pdu f) = stNum p \<and> sqNum (frame_pdu f) \<le> sqNum p"
    using assms(1) unfolding passed_def by blast
  have "find_index (\<lambda>s. sub_matches s f) (subscriptions S') = Some i" using find_index_cong [OF assms(2)] i(1) by simp
  moreover have "subscriptions S' ! i = s" using assms(3) find_index_nth [OF i(1)] i(2) by simp
  ultimately show ?thesis using p unfolding passed_def by metis
qed

lemma passed_sweep:
  assumes "passed f S" "list_all (\<lambda>s. sub_matches s f \<longrightarrow> \<not> isStale s now) (subscriptions S)"
  shows "passed f (sweepStaleSubscriptions now S)"
  by (rule passed_cong [OF assms(1)])
    (use assms(2) in \<open>auto simp: sweepStaleSubscriptions_def Let_def list_all2_conv_all_nth list_all_length sub_matches_def reset_subscription_def\<close>)

lemma passed_subscribe: "passed f S \<Longrightarrow> subscribe c S = Some S' \<Longrightarrow> passed f S'"
proof -
  assume passed: "passed f S" and S': "subscribe c S = Some S'"
  obtain s where s: "subscriptions S' = subscriptions S @ [s]" using S' by (auto simp: subscribe_def)
  show ?thesis
    using passed find_index_append [of "\<lambda>s. sub_matches s f" "subscriptions S" _ "[s]"] find_index_nth [of "\<lambda>s. sub_matches s f" "subscriptions S"]
    unfolding passed_def s by (metis nth_append)
qed

text \<open>Until the watchdog finds the subscription of \<open>f\<close> stale, and while no counter comes near its end.\<close>

fun undisturbed :: "goose_frame \<Rightarrow> goose_event list \<Rightarrow> subscriber \<Rightarrow> bool" where
  "undisturbed f [] S = True"
| "undisturbed f (e # es) S =
     ((case e of
         Sweep now \<Rightarrow> list_all (\<lambda>s. sub_matches s f \<longrightarrow> \<not> isStale s now) (subscriptions S)
       | Frame b t \<Rightarrow> (case parseGooseFrame b of Some (Inr g) \<Rightarrow> low (frame_pdu g) | _ \<Rightarrow> True)
       | Subscribe c \<Rightarrow> True)
      \<and> (case goose_step e S of None \<Rightarrow> True | Some S' \<Rightarrow> undisturbed f es S'))"

lemma passed_step: "passed f S \<Longrightarrow> undisturbed f (e # es) S \<Longrightarrow> goose_step e S = Some S' \<Longrightarrow> passed f S'"
proof (cases e)
  case (Frame b t)
  assume a: "passed f S" "undisturbed f (e # es) S" "goose_step e S = Some S'"
  show ?thesis
  proof (cases "\<exists>g. parseGooseFrame b = Some (Inr g)")
    case True
    then obtain g where g: "parseGooseFrame b = Some (Inr g)" by blast
    then have "low (frame_pdu g)" "S' = snd (handle_parsed g t S)" using a Frame by (auto simp: handleFrame_def)
    then show ?thesis using passed_frame a(1) by simp
  next
    case False
    then have "subscriptions S' = subscriptions S" using a(3) Frame by (auto simp: handleFrame_def split: option.splits sum.splits)
    then show ?thesis using a(1) by (simp add: passed_def)
  qed
next
  case (Sweep now)
  assume "passed f S" "undisturbed f (e # es) S" "goose_step e S = Some S'"
  then show ?thesis using Sweep passed_sweep by auto
next
  case (Subscribe c)
  assume "passed f S" "undisturbed f (e # es) S" "goose_step e S = Some S'"
  then show ?thesis using Subscribe passed_subscribe by (auto split: option.splits)
qed

lemma passed_run: "passed f S \<Longrightarrow> undisturbed f es S \<Longrightarrow> goose_run es S = Some S' \<Longrightarrow> passed f S'"
proof (induction es arbitrary: S)
  case (Cons e es)
  then obtain S1 where S1: "goose_step e S = Some S1" "goose_run es S1 = Some S'" by (auto split: option.splits)
  have "passed f S1" by (rule passed_step [OF Cons.prems(1,2) S1(1)])
  then show ?case using Cons.IH [OF _ _ S1(2)] Cons.prems(2) S1(1) by simp
qed simp

lemma accepted_passed:
  assumes "handle_parsed f t S = (Some us, S1)" "us \<noteq> []" "low (frame_pdu f)"
  shows "passed f S1"
proof -
  obtain i where i: "find_index (\<lambda>s. sub_matches s f) (subscriptions S) = Some i"
    using assms(1,2) by (auto simp: handle_parsed_def Let_def split: option.splits)
  define s where "s = subscriptions S ! i"
  have acc: "acceptable (config s) f \<and> sequence_error s (frame_pdu f) = None"
  proof (rule ccontr)
    assume "\<not> ?thesis"
    then obtain r where "validate s f t = (Rejected r, s)" using validate_rejects by blast
    then show False using assms(1,2) i by (auto simp: handle_parsed_def Let_def s_def)
  qed
  have "subscriptions S1 = (subscriptions S)[i := advanced s (frame_pdu f) t]"
    using handled_subscriptions [of f t S] assms(1) i acc validate_accepts(1) [of s f t] by (simp add: s_def)
  moreover have "find_index (\<lambda>s. sub_matches s f) ((subscriptions S)[i := advanced s (frame_pdu f) t]) = Some i"
    using i by (subst find_index_update) (auto simp: sub_matches_def advanced_def s_def)
  ultimately show ?thesis
    using find_index_nth [OF i] assms(3) unfolding passed_def
    by (intro exI [of _ i] exI [of _ "advanced s (frame_pdu f) t"] exI [of _ "frame_pdu f"]) (auto simp: advanced_def)
qed

text \<open>C21: An accepted frame is not accepted again. Whatever frames, sweeps and subscriptions come after it, in whatever order, a copy of it is
  rejected, changes no subscription and gives no update, until the watchdog finds its subscription stale; no counter may be near its end.\<close>

theorem no_frame_replayed:
  assumes "handleFrame frame t S = Some (Some us, S1)" "us \<noteq> []" "parseGooseFrame frame = Some (Inr f)" "low (frame_pdu f)"
    "undisturbed f es S1" "goose_run es S1 = Some S2"
  shows "\<exists>r. handleFrame frame t' S2 = Some (Some [], S2 \<lparr> metrics := metrics S2 @ [FramesReceived (appId f), FramesRejected r] \<rparr>)"
proof -
  have "handle_parsed f t S = (Some us, S1)" using assms(1,3) by (simp add: handleFrame_def)
  then have "passed f S2" using accepted_passed assms(2,4,5,6) passed_run by blast
  then show ?thesis using passed_refuses [of f S2 t'] assms(3) by (simp add: handleFrame_def)
qed

definition sample_config :: subscription_config where
  "sample_config = \<lparr> cfg_gocbRef = ''G'', cfg_appId = 0x3001, expectedDestMac = Some ''01:0C:CD:01:00:01'', expectedSrcMac = None,
     dataset = [\<lparr> tagName = ''pos'', want_type = TBoolean, isQuality = None \<rparr>, \<lparr> tagName = ''q'', want_type = TQuality, isQuality = None \<rparr>,
       \<lparr> tagName = ''m'', want_type = TStructure, isQuality = None \<rparr>], expectedConfRev = Some 1, simulationPolicy = PAcceptFlagged \<rparr>"

definition sample_subscription :: subscription where
  "sample_subscription = \<lparr> config = sample_config, lastStNum = None, lastSqNum = None, expiresAt = None \<rparr>"

definition sample_parsed :: goose_frame where
  "sample_parsed = \<lparr> destMac = mac_text [1, 12, 205, 1, 0, 1], srcMac = mac_text [0, 17, 34, 51, 68, 85], vlanId = Some 10, vlanPriority = Some 4,
     appId = 0x3001, goose_length = 90, frame_pdu = sample_pdu \<rparr>"

lemma sample_parses: "parseGooseFrame sample_frame = Some (Inr sample_parsed)"
  unfolding sample_frame_def sample_parsed_def by (subst parse_encode_frame) (simp_all add: sample_pdu_ok frame_ok_def)

lemma sample_config_ok: "config_ok sample_config"
  by (simp add: config_ok_def sample_config_def mac_regex_def is_hex_digit_def Let_def upt_rec)

lemma sample_acceptable: "acceptable sample_config sample_parsed"
  by (simp add: acceptable_def sample_config_def sample_parsed_def sample_pdu_def mac_text_def hex_octet_def hex_char_def toLowerCase_def lower_char_def
      Let_def fits_def value_type_def char_of_def bit_0)

lemma sample_date: "date_toISOString (num_of_int 1700000000001) = Some (iso_of_ms 1700000000001)"
  by (simp add: date_toISOString_def num_of_int_def num_le_def num_lt_def num_eq_def Let_def scaled_def trunc_finite_def)

theorem subscription_accepts_exactly_witness:
  "\<exists>rt. validate sample_subscription sample_parsed (num_of_int 1700000000001)
    = (Accepted (map2 (tag_update (iso_of_ms 1700000000001) sample_pdu) (dataset sample_config) (allData sample_pdu)) rt True False,
       advanced sample_subscription sample_pdu (num_of_int 1700000000001))"
proof -
  have "sub_inv sample_subscription" by (simp add: sub_inv_def sample_subscription_def sample_config_ok)
  from subscription_accepts_exactly [OF this sample_date, of sample_parsed] sample_acceptable show ?thesis
    by (simp add: sample_subscription_def last_numbers_def isStale_def sample_parsed_def)
qed

theorem no_frame_replayed_witness:
  "\<exists>us S1 S2 r. us \<noteq> [] \<and> handleFrame sample_frame (num_of_int 1700000000001) (new_subscriber \<lparr> subscriptions := [sample_subscription] \<rparr>) = Some (Some us, S1)
     \<and> goose_run [Frame [] (num_of_int 0), Subscribe sample_config] S1 = Some S2
     \<and> handleFrame sample_frame (num_of_int 1700000000001) S2
         = Some (Some [], S2 \<lparr> metrics := metrics S2 @ [FramesReceived 0x3001, FramesRejected r] \<rparr>)"
proof -
  let ?S = "new_subscriber \<lparr> subscriptions := [sample_subscription] \<rparr>" and ?t = "num_of_int 1700000000001"
    and ?es = "[Frame [] (num_of_int 0), Subscribe sample_config]"
  define us where "us = map2 (tag_update (iso_of_ms 1700000000001) sample_pdu) (dataset sample_config) (allData sample_pdu)"
  have acc: "acceptable (config sample_subscription) sample_parsed" "sequence_error sample_subscription (frame_pdu sample_parsed) = None"
    by (simp_all add: sample_acceptable sample_subscription_def sequence_error_def)
  have "buildTagUpdates sample_config sample_parsed ?t = Some us"
    using updates_built [OF _ sample_date, of sample_config sample_parsed] sample_acceptable by (simp add: acceptable_def us_def sample_parsed_def)
  then have "\<exists>rt ch st. fst (validate sample_subscription sample_parsed ?t) = Accepted us rt ch st"
    using validate_accepts(2) [OF acc, of ?t] by (simp add: sample_subscription_def) blast
  then obtain rt ch st s where "validate sample_subscription sample_parsed ?t = (Accepted us rt ch st, s)" by (metis prod.collapse)
  then obtain S1 where S1: "handleFrame sample_frame ?t ?S = Some (Some us, S1)"
    by (auto simp: handleFrame_def sample_parses handle_parsed_def new_subscriber_def sub_matches_def sample_subscription_def sample_parsed_def
        sample_config_def sample_pdu_def)
  have empty: "parseGooseFrame [] = Some (Inl (FrameTooShort 0))" by (simp add: parseGooseFrame_def)
  obtain S2 where S2: "goose_run ?es S1 = Some S2" by (auto simp: handleFrame_def empty)
  have low: "low (frame_pdu sample_parsed)" by (simp add: low_def sample_parsed_def sample_pdu_def)
  have und: "undisturbed sample_parsed ?es S1" by (simp add: empty split: option.split)
  have ne: "us \<noteq> []" by (simp add: us_def sample_config_def sample_pdu_def)
  obtain r where "handleFrame sample_frame ?t S2
      = Some (Some [], S2 \<lparr> metrics := metrics S2 @ [FramesReceived (appId sample_parsed), FramesRejected r] \<rparr>)"
    using no_frame_replayed [OF S1 ne sample_parses low und S2] by blast
  then show ?thesis using S1 S2 ne by (auto simp: sample_parsed_def)
qed

section \<open>Policies that do not differ, bit strings that are never accepted\<close>

lemma accept_is_accept_flagged:
  "fst (validate (s \<lparr> config := c \<lparr> simulationPolicy := PAccept \<rparr> \<rparr>) f t)
   = fst (validate (s \<lparr> config := c \<lparr> simulationPolicy := PAcceptFlagged \<rparr> \<rparr>) f t)"
proof -
  have "sequence_error (s \<lparr> config := d \<rparr>) p = sequence_error s p" for d p by (simp add: sequence_error_def cong: option.case_cong if_cong)
  moreover have "isStale (s \<lparr> config := d \<rparr>) t = isStale s t" for d by (simp add: isStale_def)
  moreover have "buildTagUpdates (c \<lparr> simulationPolicy := q \<rparr>) f t = buildTagUpdates c f t" for q by (simp add: buildTagUpdates_def Let_def cong: option.case_cong)
  moreover have "checkDatasetShape (c \<lparr> simulationPolicy := q \<rparr>) ds = checkDatasetShape c ds" for q ds by (simp add: checkDatasetShape_def)
  ultimately show ?thesis
    by (cases "sequence_error s (frame_pdu f)"; cases "buildTagUpdates c f t") (simp_all add: validate_def Let_def)
qed

text \<open>A bit string of at most sixteen bits is decoded as a quality, so a member that is to be a bit string refuses it.\<close>

lemma short_bitstring_never_fits:
  assumes "tlv_tag x = Some 0x84" "looksLikeQuality (tlv_content x)" "decodeDataValue x = Some (Inr v)" "want_type m = TBitstring"
  shows "\<not> fits m v"
proof -
  obtain q where "v = GQuality q" using assms(1-3) by (subst (asm) decodeDataValue.simps) (auto simp: Let_def map_sum_def split: sum.splits)
  then show ?thesis using assms(4) by (simp add: fits_def value_type_def)
qed

end
