(* ===== verification/Goose_Pcap.thy ===== *)
theory Goose_Pcap
  imports Goose_Subscription
begin

text \<open>
  Capture files and streams (\<open>protocols/iec61850-goose/pcap.ts\<close>, \<open>pcap-stream.ts\<close>), the test of the EtherType (\<open>capture-backend.ts\<close>) and
  the replay of a file into the subscriber (\<open>pcap-backend.ts\<close>, without delays). The consumer's \<open>onHeader\<close> is an argument; its value is the
  error that it throws. The writer \<open>encodePcap\<close> is left out.
\<close>

datatype pcap_error =
    FileTooShort nat
  | IsPcapng
  | UnknownMagic nat
  | SubSecondsTooLarge nat
  | TruncatedRecordHeader
  | TruncatedPacket nat
  | RecordOverLimit nat
  | BufferOverLimit nat
  | EndedWithoutHeader nat
  | EndedMidRecord nat
  | HeaderRefused

datatype byte_order = Big | Little

record pcap_header =
  byteOrder :: byte_order
  nanosecondPrecision :: bool
  versionMajor :: nat
  versionMinor :: nat
  thisZone :: int
  sigFigs :: nat
  snapLen :: nat
  linkType :: nat

record pcap_record =
  timestampMs :: number
  seconds :: nat
  subSeconds :: nat
  capturedLength :: nat
  originalLength :: nat

record pcap_packet = pcap_record +
  pkt_data :: buffer

definition readU32 :: "buffer \<Rightarrow> nat \<Rightarrow> byte_order \<Rightarrow> nat" where
  "readU32 buf offset order = (if order = Big then readUInt32BE buf offset else readUInt32LE buf offset)"

definition readU16 :: "buffer \<Rightarrow> nat \<Rightarrow> byte_order \<Rightarrow> nat" where
  "readU16 buf offset order = (if order = Big then readUInt16BE buf offset else readUInt16LE buf offset)"

definition readI32 :: "buffer \<Rightarrow> nat \<Rightarrow> byte_order \<Rightarrow> int" where
  "readI32 buf offset order = (if order = Big then readInt32BE buf offset else readInt32LE buf offset)"

definition header_fields :: "buffer \<Rightarrow> byte_order \<Rightarrow> bool \<Rightarrow> pcap_header" where
  "header_fields buf order ns = \<lparr> byteOrder = order, nanosecondPrecision = ns, versionMajor = readU16 buf 4 order, versionMinor = readU16 buf 6 order,
     thisZone = readI32 buf 8 order, sigFigs = readU32 buf 12 order, snapLen = readU32 buf 16 order, linkType = readU32 buf 20 order \<rparr>"

definition readPcapGlobalHeader :: "buffer \<Rightarrow> pcap_error + pcap_header" where
  "readPcapGlobalHeader buf =
     (if length buf < 24 then Inl (FileTooShort (length buf))
      else
        let magicBE = readUInt32BE buf 0; magicLE = readUInt32LE buf 0 in
        if magicBE = 0xa1b2c3d4 then Inr (header_fields buf Big False)
        else if magicLE = 0xa1b2c3d4 then Inr (header_fields buf Little False)
        else if magicBE = 0xa1b23c4d then Inr (header_fields buf Big True)
        else if magicLE = 0xa1b23c4d then Inr (header_fields buf Little True)
        else if magicBE = 0x0a0d0d0a then Inl IsPcapng
        else Inl (UnknownMagic magicBE))"

definition subSecondsPerSecond :: "pcap_header \<Rightarrow> nat" where
  "subSecondsPerSecond h = (if nanosecondPrecision h then 1000000000 else 1000000)"

definition decodePcapRecordHeader :: "buffer \<Rightarrow> nat \<Rightarrow> pcap_header \<Rightarrow> pcap_error + pcap_record" where
  "decodePcapRecordHeader buf offset h =
     (let perSecond = subSecondsPerSecond h; sec = readU32 buf offset (byteOrder h); sub = readU32 buf (offset + 4) (byteOrder h) in
      if sub \<ge> perSecond then Inl (SubSecondsTooLarge sub)
      else Inr \<lparr> timestampMs = num_add (num_mul (num_of_int (int sec)) (num_of_int 1000))
                   (num_mul (num_div (num_of_int (int sub)) (num_of_int (int perSecond))) (num_of_int 1000)),
             seconds = sec, subSeconds = sub, capturedLength = readU32 buf (offset + 8) (byteOrder h),
             originalLength = readU32 buf (offset + 12) (byteOrder h) \<rparr>)"

definition make_packet :: "pcap_record \<Rightarrow> buffer \<Rightarrow> pcap_packet" where
  "make_packet r b = pcap_record.extend r \<lparr> pkt_data = b \<rparr>"

function parse_packets :: "buffer \<Rightarrow> pcap_header \<Rightarrow> nat \<Rightarrow> pcap_error + pcap_packet list" where
  "parse_packets buf h offset =
     (if offset < length buf
      then if offset + 16 > length buf then Inl TruncatedRecordHeader
           else (case decodePcapRecordHeader buf offset h of
             Inl e \<Rightarrow> Inl e
           | Inr r \<Rightarrow>
               if offset + 16 + capturedLength r > length buf then Inl (TruncatedPacket (capturedLength r))
               else (case parse_packets buf h (offset + 16 + capturedLength r) of
                 Inl e \<Rightarrow> Inl e
               | Inr ps \<Rightarrow> Inr (make_packet r (subarray buf (offset + 16) (offset + 16 + capturedLength r)) # ps)))
      else Inr [])"
  by pat_completeness auto
termination
  by (relation "measure (\<lambda>(buf, h, offset). length buf - offset)") auto

declare parse_packets.simps [simp del]

definition parsePcap :: "buffer \<Rightarrow> pcap_error + pcap_header \<times> pcap_packet list" where
  "parsePcap buf = (case readPcapGlobalHeader buf of Inl e \<Rightarrow> Inl e | Inr h \<Rightarrow> map_sum id (Pair h) (parse_packets buf h 24))"

section \<open>The stream decoder\<close>

record streamed_packet = pcap_packet +
  pkt_index :: nat
  truncated :: bool

record stream_decoder =
  maxRecordBytes :: nat
  maxBufferedBytes :: nat
  pending :: buffer
  dec_header :: "pcap_header option"
  packetIndex :: nat
  totalBytes :: nat
  failure :: "pcap_error option"

definition new_decoder :: "nat \<Rightarrow> nat \<Rightarrow> stream_decoder" where
  "new_decoder maxRec maxBuf = \<lparr> maxRecordBytes = maxRec, maxBufferedBytes = maxBuf, pending = [], dec_header = None, packetIndex = 0,
     totalBytes = 0, failure = None \<rparr>"

definition stream_packet :: "nat \<Rightarrow> pcap_packet \<Rightarrow> streamed_packet" where
  "stream_packet i p = pcap_packet.extend p \<lparr> pkt_index = i, truncated = (capturedLength p < originalLength p) \<rparr>"

function drain_records :: "pcap_header \<Rightarrow> stream_decoder \<Rightarrow> (pcap_error + streamed_packet list) \<times> stream_decoder" where
  "drain_records h d =
     (if length (pending d) < 16 then (Inr [], d)
      else (case decodePcapRecordHeader (pending d) 0 h of
        Inl e \<Rightarrow> (Inl e, d)
      | Inr r \<Rightarrow>
          if capturedLength r > maxRecordBytes d then (Inl (RecordOverLimit (capturedLength r)), d)
          else if length (pending d) < 16 + capturedLength r then (Inr [], d)
          else (case drain_records h (d \<lparr> packetIndex := packetIndex d + 1, pending := drop (16 + capturedLength r) (pending d) \<rparr>) of
            (Inl e, d') \<Rightarrow> (Inl e, d')
          | (Inr ps, d') \<Rightarrow>
              (Inr (stream_packet (packetIndex d) (make_packet r (subarray (pending d) 16 (16 + capturedLength r))) # ps), d'))))"
  by pat_completeness auto
termination
  by (relation "measure (\<lambda>(h, d). length (pending d))") auto

declare drain_records.simps [simp del]

definition drain_stream :: "(pcap_header \<Rightarrow> pcap_error option) \<Rightarrow> stream_decoder \<Rightarrow> (pcap_error + streamed_packet list) \<times> stream_decoder" where
  "drain_stream onHeader d =
     (case dec_header d of
        Some h \<Rightarrow> drain_records h d
      | None \<Rightarrow>
          if length (pending d) < 24 then (Inr [], d)
          else (case readPcapGlobalHeader (take 24 (pending d)) of
            Inl e \<Rightarrow> (Inl e, d)
          | Inr h \<Rightarrow>
              let d = d \<lparr> dec_header := Some h, pending := drop 24 (pending d) \<rparr>
              in (case onHeader h of Some e \<Rightarrow> (Inl e, d) | None \<Rightarrow> drain_records h d)))"

definition fail_stream :: "pcap_error \<Rightarrow> stream_decoder \<Rightarrow> stream_decoder" where
  "fail_stream e d = d \<lparr> failure := Some e, pending := [] \<rparr>"

definition push_chunk ::
  "(pcap_header \<Rightarrow> pcap_error option) \<Rightarrow> buffer \<Rightarrow> stream_decoder \<Rightarrow> (pcap_error + streamed_packet list) \<times> stream_decoder" where
  "push_chunk onHeader chunk d =
     (case failure d of
        Some e \<Rightarrow> (Inl e, d)
      | None \<Rightarrow>
          (case drain_stream onHeader (d \<lparr> totalBytes := totalBytes d + length chunk, pending := pending d @ chunk \<rparr>) of
             (Inl e, d) \<Rightarrow> (Inl e, fail_stream e d)
           | (Inr ps, d) \<Rightarrow>
               if length (pending d) > maxBufferedBytes d
               then (Inl (BufferOverLimit (length (pending d))), fail_stream (BufferOverLimit (length (pending d))) d)
               else (Inr ps, d)))"

definition end_stream :: "stream_decoder \<Rightarrow> pcap_error option \<times> stream_decoder" where
  "end_stream d =
     (case failure d of
        Some e \<Rightarrow> (Some e, d)
      | None \<Rightarrow>
          if dec_header d = None then (Some (EndedWithoutHeader (totalBytes d)), fail_stream (EndedWithoutHeader (totalBytes d)) d)
          else if pending d \<noteq> [] then (Some (EndedMidRecord (length (pending d))), fail_stream (EndedMidRecord (length (pending d))) d)
          else (None, d))"

text \<open>Pushing the chunks one after the other, then the end.\<close>

fun push_chunks ::
  "(pcap_header \<Rightarrow> pcap_error option) \<Rightarrow> buffer list \<Rightarrow> stream_decoder \<Rightarrow> (pcap_error + streamed_packet list) \<times> stream_decoder" where
  "push_chunks onHeader [] d = (Inr [], d)"
| "push_chunks onHeader (c # cs) d =
     (case push_chunk onHeader c d of
        (Inl e, d) \<Rightarrow> (Inl e, d)
      | (Inr ps, d) \<Rightarrow> map_prod (map_sum id ((@) ps)) id (push_chunks onHeader cs d))"

definition decode_stream ::
  "(pcap_header \<Rightarrow> pcap_error option) \<Rightarrow> nat \<Rightarrow> nat \<Rightarrow> buffer list \<Rightarrow> pcap_error + pcap_header \<times> streamed_packet list" where
  "decode_stream onHeader maxRec maxBuf cs =
     (case push_chunks onHeader cs (new_decoder maxRec maxBuf) of
        (Inl e, d) \<Rightarrow> Inl e
      | (Inr ps, d) \<Rightarrow> (case end_stream d of (Some e, d) \<Rightarrow> Inl e | (None, d) \<Rightarrow> Inr (the (dec_header d), ps)))"

section \<open>Filter and replay\<close>

definition readFrameEtherType :: "buffer \<Rightarrow> nat option" where
  "readFrameEtherType frame =
     (if length frame < 14 then None
      else let outer = readUInt16BE frame 12 in
        if outer \<noteq> 0x8100 then Some outer
        else if length frame < 18 then None
        else Some (readUInt16BE frame 16))"

definition isGooseFrame :: "buffer \<Rightarrow> bool" where
  "isGooseFrame frame \<longleftrightarrow> readFrameEtherType frame = Some 0x88b8"

text \<open>\<open>open\<close> without delays: every GOOSE frame of the file, with its recorded time. \<open>None\<close> when the file is refused.\<close>

definition replay_events :: "buffer \<Rightarrow> goose_event list option" where
  "replay_events bytes =
     (case parsePcap bytes of
        Inl e \<Rightarrow> None
      | Inr (h, ps) \<Rightarrow>
          if linkType h \<noteq> 1 then None
          else Some (map (\<lambda>p. Frame (pkt_data p) (timestampMs p)) (filter (\<lambda>p. isGooseFrame (pkt_data p)) ps)))"

lemma filter_keeps_goose: "parseGooseFrame frame = Some (Inr f) \<Longrightarrow> isGooseFrame frame"
  by (auto simp: parseGooseFrame_def parse_goose_header_def isGooseFrame_def readFrameEtherType_def Let_def split: if_splits)

section \<open>Slices do not matter\<close>

text \<open>The records of a buffer, the number of the next one and what is left.\<close>

function stream_records :: "nat \<Rightarrow> pcap_header \<Rightarrow> nat \<Rightarrow> buffer \<Rightarrow> (pcap_error + streamed_packet list) \<times> nat \<times> buffer" where
  "stream_records mx h i buf =
     (if length buf < 16 then (Inr [], i, buf)
      else (case decodePcapRecordHeader buf 0 h of
        Inl e \<Rightarrow> (Inl e, i, buf)
      | Inr r \<Rightarrow>
          if capturedLength r > mx then (Inl (RecordOverLimit (capturedLength r)), i, buf)
          else if length buf < 16 + capturedLength r then (Inr [], i, buf)
          else (case stream_records mx h (i + 1) (drop (16 + capturedLength r) buf) of
            (Inl e, x) \<Rightarrow> (Inl e, x)
          | (Inr ps, x) \<Rightarrow> (Inr (stream_packet i (make_packet r (subarray buf 16 (16 + capturedLength r))) # ps), x))))"
  by pat_completeness auto
termination
  by (relation "measure (\<lambda>(mx, h, i, buf). length buf)") auto

declare stream_records.simps [simp del]

lemma drain_records_eq:
  "drain_records h d = (case stream_records (maxRecordBytes d) h (packetIndex d) (pending d) of (r, i, b) \<Rightarrow> (r, d \<lparr> packetIndex := i, pending := b \<rparr>))"
proof (induction h d rule: drain_records.induct)
  case (1 h d)
  show ?case
    using 1
    by (subst drain_records.simps, subst stream_records.simps)
      (auto split: sum.splits prod.splits)
qed

lemma readUIntBE_prefix: "off + n \<le> length b \<Longrightarrow> readUIntBE (b @ c) off n = readUIntBE b off n"
  by (simp add: readUIntBE_def)

lemma readU32_prefix: "off + 4 \<le> length b \<Longrightarrow> readU32 (b @ c) off order = readU32 b off order"
  by (simp add: readU32_def readUIntBE_prefix readUIntLE_prefix)

lemma readU32_drop: "readU32 (drop k b) off order = readU32 b (k + off) order"
  by (simp add: readU32_def readUIntBE_def readUIntLE_def add.commute)

lemma record_header_prefix: "16 \<le> length b \<Longrightarrow> decodePcapRecordHeader (b @ c) 0 h = decodePcapRecordHeader b 0 h"
  by (simp add: decodePcapRecordHeader_def Let_def readU32_prefix)

lemma record_header_drop: "decodePcapRecordHeader (drop k b) 0 h = decodePcapRecordHeader b k h"
  by (simp add: decodePcapRecordHeader_def Let_def readU32_drop)

lemma subarray_prefix: "hi \<le> length b \<Longrightarrow> subarray (b @ c) lo hi = subarray b lo hi"
  by (simp add: subarray_def)

lemma records_append:
  "stream_records mx h i (b @ c) =
     (case stream_records mx h i b of
        (Inl e, x) \<Rightarrow> (Inl e, fst x, snd x @ c)
      | (Inr ps, j, r) \<Rightarrow> (case stream_records mx h j (r @ c) of (Inl e, x) \<Rightarrow> (Inl e, x) | (Inr qs, x) \<Rightarrow> (Inr (ps @ qs), x)))"
proof (induction mx h i b rule: stream_records.induct)
  case (1 mx h i b)
  show ?case
  proof (cases "length b < 16")
    case True
    then show ?thesis by (simp add: stream_records.simps [of mx h i b] split: prod.splits sum.splits)
  next
    case False
    then have hd: "decodePcapRecordHeader (b @ c) 0 h = decodePcapRecordHeader b 0 h" by (simp add: record_header_prefix)
    show ?thesis
    proof (cases "\<exists>r. decodePcapRecordHeader b 0 h = Inr r \<and> capturedLength r \<le> mx \<and> 16 + capturedLength r \<le> length b")
      case True
      then obtain r where r: "decodePcapRecordHeader b 0 h = Inr r" "capturedLength r \<le> mx" "16 + capturedLength r \<le> length b" by blast
      then have "stream_records mx h (i + 1) (drop (16 + capturedLength r) b @ c) =
          (case stream_records mx h (i + 1) (drop (16 + capturedLength r) b) of
             (Inl e, x) \<Rightarrow> (Inl e, fst x, snd x @ c)
           | (Inr ps, j, s) \<Rightarrow> (case stream_records mx h j (s @ c) of (Inl e, x) \<Rightarrow> (Inl e, x) | (Inr qs, x) \<Rightarrow> (Inr (ps @ qs), x)))"
        using 1 [OF False r(1)] by simp
      then show ?thesis
        using False r by (simp add: stream_records.simps [of mx h i "b @ c"] stream_records.simps [of mx h i b] hd subarray_prefix split: prod.splits sum.splits)
    next
      case stop: False
      show ?thesis
      proof (cases "decodePcapRecordHeader b 0 h")
        case (Inl e)
        then show ?thesis using False by (simp add: stream_records.simps [of mx h i "b @ c"] stream_records.simps [of mx h i b] hd)
      next
        case (Inr r)
        show ?thesis
        proof (cases "capturedLength r > mx")
          case True
          then show ?thesis using False Inr by (simp add: stream_records.simps [of mx h i "b @ c"] stream_records.simps [of mx h i b] hd)
        next
          case le: False
          then have "stream_records mx h i b = (Inr [], i, b)" using False Inr stop by (subst stream_records.simps) auto
          then show ?thesis by (simp split: prod.splits sum.splits)
        qed
      qed
    qed
  qed
qed

lemma records_rest: "stream_records mx h i b = (Inr ps, j, r) \<Longrightarrow> length r < 16 + mx"
proof (induction mx h i b arbitrary: ps j r rule: stream_records.induct)
  case (1 mx h i b)
  then show ?case by (subst (asm) (2) stream_records.simps) (auto split: if_splits sum.splits prod.splits)
qed

text \<open>What the decoder holds after it has seen the octets \<open>b\<close>, and the packets it has given, or the error.\<close>

definition held_stream :: "nat \<Rightarrow> nat \<Rightarrow> pcap_header option \<Rightarrow> nat \<Rightarrow> nat \<Rightarrow> buffer \<Rightarrow> stream_decoder" where
  "held_stream mx mb hdr i n r = \<lparr> maxRecordBytes = mx, maxBufferedBytes = mb, pending = r, dec_header = hdr, packetIndex = i, totalBytes = n, failure = None \<rparr>"

definition summary ::
  "(pcap_header \<Rightarrow> pcap_error option) \<Rightarrow> nat \<Rightarrow> nat \<Rightarrow> buffer \<Rightarrow> pcap_error + streamed_packet list \<times> stream_decoder" where
  "summary onHeader mx mb b =
     (if length b < 24 then Inr ([], held_stream mx mb None 0 (length b) b)
      else (case readPcapGlobalHeader (take 24 b) of
        Inl e \<Rightarrow> Inl e
      | Inr h \<Rightarrow> (case onHeader h of
          Some e \<Rightarrow> Inl e
        | None \<Rightarrow> (case stream_records mx h 0 (drop 24 b) of
            (Inl e, x) \<Rightarrow> Inl e
          | (Inr ps, i, r) \<Rightarrow> Inr (ps, held_stream mx mb (Some h) i (length b) r)))))"

definition outcome :: "('e + 'a) \<times> 's \<Rightarrow> 'e + 'a \<times> 's" where
  "outcome x = (case x of (Inl e, s) \<Rightarrow> Inl e | (Inr a, s) \<Rightarrow> Inr (a, s))"

definition bounds_ok :: "nat \<Rightarrow> nat \<Rightarrow> bool" where
  "bounds_ok mx mb \<longleftrightarrow> 16 + mx \<le> mb \<and> 24 \<le> mb"

lemma push_before_header:
  assumes "bounds_ok mx mb" "length b < 24"
  shows "outcome (push_chunk onHeader c (held_stream mx mb None 0 (length b) b)) = summary onHeader mx mb (b @ c)"
proof (cases "length (b @ c) < 24")
  case True
  then show ?thesis using assms by (simp add: push_chunk_def drain_stream_def summary_def held_stream_def outcome_def bounds_ok_def)
next
  case False
  have fits: "\<not> mb < length r" if "stream_records mx h 0 (drop 24 (b @ c)) = (Inr ps, i, r)" for h ps i r
    using records_rest [OF that] assms(1) by (simp add: bounds_ok_def)
  show ?thesis using False fits
    by (auto simp: push_chunk_def drain_stream_def summary_def held_stream_def outcome_def drain_records_eq Let_def split: sum.splits option.splits prod.splits)
qed

lemma push_after_header:
  assumes "bounds_ok mx mb"
  shows "outcome (push_chunk onHeader c (held_stream mx mb (Some h) i n r))
    = (case stream_records mx h i (r @ c) of (Inl e, x) \<Rightarrow> Inl e | (Inr ps, j, s) \<Rightarrow> Inr (ps, held_stream mx mb (Some h) j (n + length c) s))"
proof -
  have fits: "\<not> mb < length s" if "stream_records mx h i (r @ c) = (Inr ps, j, s)" for ps j s
    using records_rest [OF that] assms by (simp add: bounds_ok_def)
  then show ?thesis
    by (auto simp: push_chunk_def drain_stream_def held_stream_def outcome_def drain_records_eq split: sum.splits prod.splits)
qed

lemma summary_append:
  assumes "bounds_ok mx mb"
  shows "summary onHeader mx mb (b @ c) =
    (case summary onHeader mx mb b of
       Inl e \<Rightarrow> Inl e
     | Inr (ps, d) \<Rightarrow> (case outcome (push_chunk onHeader c d) of Inl e \<Rightarrow> Inl e | Inr (qs, d') \<Rightarrow> Inr (ps @ qs, d')))"
proof (cases "length b < 24")
  case True
  then show ?thesis
    using push_before_header [OF assms True, of onHeader c] by (simp add: summary_def [of _ _ _ b] split: sum.splits prod.splits)
next
  case False
  then have t: "take 24 (b @ c) = take 24 b" "drop 24 (b @ c) = drop 24 b @ c" by simp_all
  show ?thesis
  proof (cases "\<exists>h. readPcapGlobalHeader (take 24 b) = Inr h \<and> onHeader h = None")
    case True
    then obtain h where h: "readPcapGlobalHeader (take 24 b) = Inr h" "onHeader h = None" by blast
    show ?thesis
      using False h push_after_header [OF assms, of onHeader c h]
      by (simp add: summary_def t records_append [of mx h 0 "drop 24 b" c] split: prod.splits sum.splits)
  next
    case stop: False
    then show ?thesis using False by (auto simp: summary_def t split: sum.splits option.splits)
  qed
qed

lemma push_chunks_snoc:
  "outcome (push_chunks onHeader (cs @ [c]) d) =
     (case outcome (push_chunks onHeader cs d) of
        Inl e \<Rightarrow> Inl e
      | Inr (ps, d') \<Rightarrow> (case outcome (push_chunk onHeader c d') of Inl e \<Rightarrow> Inl e | Inr (qs, d'') \<Rightarrow> Inr (ps @ qs, d'')))"
proof (induction cs arbitrary: d)
  case Nil
  show ?case by (auto simp: outcome_def split: prod.splits sum.splits)
next
  case (Cons x cs)
  show ?case
  proof (cases "push_chunk onHeader x d")
    case (Pair r d1)
    show ?thesis
    proof (cases r)
      case (Inl e)
      then show ?thesis using Pair by (simp add: outcome_def)
    next
      case (Inr ps)
      then show ?thesis
        using Pair Cons [of d1] by (auto simp: outcome_def split: prod.splits sum.splits)
    qed
  qed
qed

lemma pushes_summary:
  assumes "bounds_ok mx mb"
  shows "outcome (push_chunks onHeader cs (new_decoder mx mb)) = summary onHeader mx mb (concat cs)"
proof (induction cs rule: rev_induct)
  case Nil
  show ?case by (simp add: outcome_def summary_def held_stream_def new_decoder_def)
next
  case (snoc c cs)
  then show ?case by (simp add: push_chunks_snoc summary_append [OF assms])
qed

section \<open>The stream and the file\<close>

definition numbered_packets :: "nat \<Rightarrow> pcap_packet list \<Rightarrow> streamed_packet list" where
  "numbered_packets i ps = map2 stream_packet [i..<i + length ps] ps"

lemma numbered_packets_simps [simp]: "numbered_packets i [] = []" "numbered_packets i (p # ps) = stream_packet i p # numbered_packets (Suc i) ps"
  by (simp_all add: numbered_packets_def upt_conv_Cons del: upt_Suc)

lemma capturedLength_make [simp]: "capturedLength (make_packet r b) = capturedLength r"
  by (simp add: make_packet_def pcap_record.defs)

lemma subarray_drop_shift: "subarray (drop k b) lo hi = subarray b (k + lo) (k + hi)"
  by (simp add: subarray_def add.commute)

lemma records_of_file:
  "stream_records mx h i (drop off buf) = (Inr out, j, [])
   \<longleftrightarrow> (\<exists>ps. parse_packets buf h off = Inr ps \<and> list_all (\<lambda>p. capturedLength p \<le> mx) ps \<and> out = numbered_packets i ps \<and> j = i + length ps)"
proof (induction buf h off arbitrary: i out rule: parse_packets.induct)
  case (1 buf h off)
  show ?case
  proof (cases "off < length buf \<and> off + 16 \<le> length buf")
    case False
    then show ?thesis by (subst stream_records.simps, subst parse_packets.simps) auto
  next
    case True
    show ?thesis
    proof (cases "\<exists>r. decodePcapRecordHeader buf off h = Inr r \<and> off + 16 + capturedLength r \<le> length buf")
      case False
      then show ?thesis using True
        by (subst stream_records.simps, subst parse_packets.simps) (auto simp: record_header_drop split: sum.splits)
    next
      case r_ex: True
      then obtain r where r: "decodePcapRecordHeader buf off h = Inr r" "off + 16 + capturedLength r \<le> length buf" by blast
      have d: "drop (16 + capturedLength r) (drop off buf) = drop (off + 16 + capturedLength r) buf" by (simp add: ac_simps)
      define p where "p = make_packet r (subarray buf (off + 16) (off + 16 + capturedLength r))"
      have recs: "stream_records mx h i (drop off buf) =
          (if capturedLength r > mx then (Inl (RecordOverLimit (capturedLength r)), i, drop off buf)
           else (case stream_records mx h (i + 1) (drop (off + 16 + capturedLength r) buf) of
             (Inl e, x) \<Rightarrow> (Inl e, x) | (Inr ps, x) \<Rightarrow> (Inr (stream_packet i p # ps), x)))"
      proof -
        have "\<not> length (drop off buf) < 16" "\<not> length (drop off buf) < 16 + capturedLength r" using r(2) by auto
        moreover have "make_packet r (subarray (drop off buf) 16 (16 + capturedLength r)) = p" by (simp add: subarray_drop_shift p_def add.assoc)
        moreover obtain y x where "stream_records mx h (i + 1) (drop (off + 16 + capturedLength r) buf) = (y, x)" by (metis surj_pair)
        ultimately show ?thesis using r(1) by (subst stream_records.simps, cases y) (simp_all add: record_header_drop d del: drop_drop)
      qed
      have parse: "parse_packets buf h off = (case parse_packets buf h (off + 16 + capturedLength r) of Inl e \<Rightarrow> Inl e | Inr ps \<Rightarrow> Inr (p # ps))"
        using True r by (subst parse_packets.simps) (simp add: p_def split: sum.split)
      have IH: "stream_records mx h (i + 1) (drop (off + 16 + capturedLength r) buf) = (Inr out', j, [])
          \<longleftrightarrow> (\<exists>ps. parse_packets buf h (off + 16 + capturedLength r) = Inr ps \<and> list_all (\<lambda>p. capturedLength p \<le> mx) ps
                \<and> out' = numbered_packets (i + 1) ps \<and> j = i + 1 + length ps)" for out'
        using 1 True r by simp
      show ?thesis
      proof
        assume "stream_records mx h i (drop off buf) = (Inr out, j, [])"
        then obtain out' where o: "capturedLength r \<le> mx" "out = stream_packet i p # out'"
            "stream_records mx h (i + 1) (drop (off + 16 + capturedLength r) buf) = (Inr out', j, [])"
          unfolding recs by (auto split: if_splits prod.splits sum.splits)
        then obtain ps where "parse_packets buf h (off + 16 + capturedLength r) = Inr ps" "list_all (\<lambda>p. capturedLength p \<le> mx) ps"
            "out' = numbered_packets (i + 1) ps" "j = i + 1 + length ps" using IH by blast
        then show "\<exists>ps. parse_packets buf h off = Inr ps \<and> list_all (\<lambda>p. capturedLength p \<le> mx) ps \<and> out = numbered_packets i ps \<and> j = i + length ps"
          using o parse by (intro exI [of _ "p # ps"]) (simp add: p_def)
      next
        assume "\<exists>ps. parse_packets buf h off = Inr ps \<and> list_all (\<lambda>p. capturedLength p \<le> mx) ps \<and> out = numbered_packets i ps \<and> j = i + length ps"
        then obtain ps where "parse_packets buf h (off + 16 + capturedLength r) = Inr ps" "list_all (\<lambda>p. capturedLength p \<le> mx) (p # ps)"
            "out = numbered_packets i (p # ps)" "j = i + length (p # ps)" using parse by (auto split: sum.splits)
        then show "stream_records mx h i (drop off buf) = (Inr out, j, [])" using IH [of "numbered_packets (i + 1) ps"] by (simp add: recs p_def)
      qed
    qed
  qed
qed

lemma header_take: "24 \<le> length b \<Longrightarrow> readPcapGlobalHeader (take 24 b) = readPcapGlobalHeader b"
proof -
  assume b: "24 \<le> length b"
  then have "off + n \<le> 24 \<Longrightarrow> readUIntBE (take 24 b) off n = readUIntBE b off n" "off + n \<le> 24 \<Longrightarrow> readUIntLE (take 24 b) off n = readUIntLE b off n" for off n
    by (simp_all add: readUIntBE_def readUIntLE_def drop_take min_def)
  then show ?thesis using b
    by (simp add: readPcapGlobalHeader_def Let_def header_fields_def readU16_def readU32_def readI32_def readInt32BE_def readInt32LE_def)
qed

lemma decode_stream_summary:
  assumes "bounds_ok mx mb"
  shows "decode_stream onHeader mx mb cs = Inr (h, out)
    \<longleftrightarrow> (\<exists>d. summary onHeader mx mb (concat cs) = Inr (out, d) \<and> dec_header d = Some h \<and> pending d = [] \<and> failure d = None)"
proof -
  have "decode_stream onHeader mx mb cs = Inr (h, out)
      \<longleftrightarrow> (\<exists>d. outcome (push_chunks onHeader cs (new_decoder mx mb)) = Inr (out, d) \<and> dec_header d = Some h \<and> pending d = [] \<and> failure d = None)"
    by (auto simp: decode_stream_def outcome_def end_stream_def split: prod.splits sum.splits option.splits if_splits)
  then show ?thesis by (simp add: pushes_summary [OF assms])
qed

lemma summary_complete:
  assumes "24 \<le> length b"
  shows "(\<exists>d. summary onHeader mx mb b = Inr (out, d) \<and> dec_header d = Some h \<and> pending d = [] \<and> failure d = None)
    \<longleftrightarrow> readPcapGlobalHeader b = Inr h \<and> onHeader h = None \<and> (\<exists>j. stream_records mx h 0 (drop 24 b) = (Inr out, j, []))"
proof (cases "readPcapGlobalHeader b")
  case (Inl e)
  then show ?thesis using assms by (simp add: summary_def header_take)
next
  case (Inr g)
  obtain r j rest where "stream_records mx g 0 (drop 24 b) = (r, j, rest)" by (metis surj_pair)
  then show ?thesis using assms Inr by (cases "onHeader g"; cases r) (auto simp: summary_def held_stream_def header_take)
qed

lemma parsePcap_Inr: "parsePcap b = Inr (h, ps) \<longleftrightarrow> readPcapGlobalHeader b = Inr h \<and> parse_packets b h 24 = Inr ps"
  by (auto simp: parsePcap_def map_sum_def split: sum.splits)

text \<open>C23: The stream decoder gives exactly what the parser of whole files gives, however the octets are cut into chunks: it succeeds on the
  chunks, with this header and these packets, if and only if \<open>parsePcap\<close> succeeds on their concatenation with them, the consumer accepts the
  header and no packet is longer than the limit. The buffer must hold a record of the largest size.\<close>

theorem stream_decodes_file:
  assumes "16 + mx \<le> mb" "24 \<le> mb"
  shows "decode_stream onHeader mx mb cs = Inr (h, out)
    \<longleftrightarrow> (\<exists>ps. parsePcap (concat cs) = Inr (h, ps) \<and> onHeader h = None \<and> list_all (\<lambda>p. capturedLength p \<le> mx) ps \<and> out = numbered_packets 0 ps)"
proof -
  let ?b = "concat cs"
  have ok: "bounds_ok mx mb" using assms by (simp add: bounds_ok_def)
  show ?thesis
  proof (cases "24 \<le> length ?b")
    case False
    then show ?thesis
      unfolding decode_stream_summary [OF ok] by (simp add: summary_def held_stream_def parsePcap_def readPcapGlobalHeader_def)
  next
    case True
    show ?thesis unfolding decode_stream_summary [OF ok] summary_complete [OF True] records_of_file parsePcap_Inr by auto
  qed
qed

definition sample_capture :: buffer where
  "sample_capture = [0xd4, 0xc3, 0xb2, 0xa1, 2, 0, 4, 0, 0, 0, 0, 0, 0, 0, 0, 0, 0xff, 0xff, 0, 0, 1, 0, 0, 0,
     1, 0, 0, 0, 0, 0, 0, 0, 2, 0, 0, 0, 2, 0, 0, 0, 7, 9]"

lemma sample_capture_parses: "\<exists>h p. parsePcap sample_capture = Inr (h, [p]) \<and> capturedLength p = 2 \<and> linkType h = 1"
proof -
  have h: "readPcapGlobalHeader sample_capture = Inr (header_fields sample_capture Little False)"
    by (simp add: readPcapGlobalHeader_def sample_capture_def readUIntBE_def readUIntLE_def)
  have link: "linkType (header_fields sample_capture Little False) = 1" by (simp add: header_fields_def readU32_def sample_capture_def readUIntLE_def)
  obtain r where r: "decodePcapRecordHeader sample_capture 24 (header_fields sample_capture Little False) = Inr r" "capturedLength r = 2"
    by (simp add: decodePcapRecordHeader_def Let_def header_fields_def readU32_def subSecondsPerSecond_def sample_capture_def readUIntLE_def)
  have last: "parse_packets sample_capture (header_fields sample_capture Little False) 42 = Inr []"
    by (subst parse_packets.simps) (simp add: sample_capture_def)
  have "\<exists>p. parse_packets sample_capture (header_fields sample_capture Little False) 24 = Inr [p] \<and> capturedLength p = 2"
    using r last by (subst parse_packets.simps) (simp add: sample_capture_def)
  then show ?thesis using h link by (auto simp: parsePcap_Inr)
qed

theorem stream_decodes_file_witness:
  "\<exists>h p. parsePcap sample_capture = Inr (h, [p])
     \<and> decode_stream (\<lambda>h. if linkType h = 1 then None else Some HeaderRefused) 65535 8388608 [take 10 sample_capture, drop 10 sample_capture]
       = Inr (h, [stream_packet 0 p])"
proof -
  obtain h p where hp: "parsePcap sample_capture = Inr (h, [p])" "capturedLength p = 2" "linkType h = 1" using sample_capture_parses by blast
  then show ?thesis
    using stream_decodes_file [of 65535 8388608 "\<lambda>h. if linkType h = 1 then None else Some HeaderRefused"
        "[take 10 sample_capture, drop 10 sample_capture]" h "[stream_packet 0 p]"] by simp
qed

text \<open>Once failed, a decoder stays failed with the same error, and it never holds more than the limit.\<close>

lemma failure_permanent: "failure d = Some e \<Longrightarrow> push_chunk onHeader c d = (Inl e, d) \<and> end_stream d = (Some e, d)"
  by (simp add: push_chunk_def end_stream_def)

lemma push_chunk_bounded: "push_chunk onHeader c d = (r, d') \<Longrightarrow> failure d = None \<Longrightarrow> length (pending d') \<le> maxBufferedBytes d'"
  by (auto simp: push_chunk_def fail_stream_def split: prod.splits sum.splits if_splits)

end
