(* ===== verification/Spec2Isabelle.thy ===== *)
theory Spec2Isabelle
  imports Dnp3_Server Modbus_System Event_Batcher Safety_Host Edge_Restart Goose_Pcap
begin

text \<open>
  Verification of the control path of 0xSCADA.

  The program is a SCADA gateway in TypeScript. A master station reaches the plant through two protocol servers; control
  blueprints run inside the gateway under a watchdog; events are batched into Merkle trees whose roots are anchored; an edge
  node keeps records until the upstream has them. This library models these parts from the files under \<open>src/server\<close>, proves what each promises, and composes them.

  \<^bold>\<open>Foundations.\<close>
  \<^item> \<open>Prelude\<close>: octets and buffers, little- and big-endian fields, chunks, strings, lemmas on lists and
    words; the locale \<open>invariant_machine\<close> (a step function and an invariant it keeps), interpreted by the
    event buffer, the point map, the event batcher, the safe-state controller, the safety host, the edge queue and the GOOSE subscriber.
  \<^item> \<open>JS_Number\<close>, \<open>JS_Arith\<close>: JavaScript numbers with NaN, infinities and signed zeros, conversion to 16 and 32 bit integers
    and to the octets of a float. Rounding to the 53 bit significand is part of the model.

  \<^bold>\<open>DNP3 outstation\<close> (\<open>protocols/dnp3-outstation\<close>), from the wire inwards.
  \<^item> \<open>Dnp3_Link\<close> (\<open>link-layer.ts\<close>): CRC, link header, framing. The table-driven CRC equals the bit-serial register; frames
    decode to what was encoded; a burst inside two octets of a block is detected.
  \<^item> \<open>Dnp3_Transport\<close> (\<open>transport.ts\<close>): segmentation and the reassembler. Segmenting then reassembling is the identity from any
    state; whatever is delivered is a contiguous run of segments.
  \<^item> \<open>Dnp3_Objects\<close>, \<open>Dnp3_PointMap\<close>, \<open>Dnp3_Events\<close>, \<open>Dnp3_EventObjects\<close> (\<open>app-objects.ts\<close>, \<open>point-map.ts\<close>, \<open>event-buffer.ts\<close>,
    \<open>event-objects.ts\<close>): measured values, the registry of points, the class 1/2/3 buffer and its wire form.
  \<^item> \<open>Dnp3_App\<close> (\<open>app-layer.ts\<close>): request parsing, response building, the class 0 response.
  \<^item> \<open>Dnp3_Commands\<close>, \<open>Dnp3_Controls\<close> (\<open>controls.ts\<close>): SELECT, OPERATE and direct operation with the sink of the embedder as a
    parameter. The sink is called only for an authorised, configured point, and OPERATE performs what was selected.
  \<^item> \<open>Dnp3_SecureAuth\<close> (\<open>secure-auth.ts\<close>): challenge and reply, with the HMAC as a parameter.
  \<^item> \<open>Dnp3_Outstation\<close>, \<open>Dnp3_Reporting\<close> (\<open>index.ts\<close>, \<open>session.ts\<close>): the request dispatcher. Controls need a valid reply when
    authentication is on; a reply is used once; events leave the buffer only by confirmation or counted overflow; a READ
    reports everything in finitely many fragments.
  \<^item> \<open>Dnp3_Reader\<close>, \<open>Dnp3_Server\<close> (\<open>server.ts\<close>): the octet stream reader and the TCP server with its connections, queues and
    back-pressure, as a step function over socket events. The locale \<open>application\<close> is what the server needs of its
    application, \<open>outstation_application\<close> extends it to the real dispatcher; its two interpretations give the server invariant
    and the refinement: a run of the whole server is a run of outstations, one per connection, over one shared world.

  \<^bold>\<open>Modbus TCP server\<close> (\<open>protocols/modbus-server\<close>).
  \<^item> \<open>Modbus_Codec\<close> (\<open>codec.ts\<close>), \<open>Modbus_Handlers\<close> (\<open>handlers.ts\<close>): frames, function codes and their exceptions.
  \<^item> \<open>Modbus_DataModel\<close> (\<open>data-model.ts\<close>): the interface as the locales \<open>modbus_data_model\<close> (an error leaves the state) and
    \<open>modbus_memory\<close> (what was written is read), interpreted by the in-memory model.
  \<^item> \<open>Modbus_RegisterMap\<close> (\<open>register-map.ts\<close>), \<open>Modbus_Bridge\<close> (\<open>tag-store-bridge.ts\<close>): the map from registers to tags, and the
    data model over a tag store. The locale \<open>tag_store\<close> states what the store promises; two sublocales show that the bridge
    is then a data model and a memory; the in-memory store interprets it.
  \<^item> \<open>Modbus_Server\<close> (\<open>server.ts\<close>), \<open>Modbus_System\<close> (\<open>index.ts\<close>, \<open>config.ts\<close>, \<open>peer-filter.ts\<close>): the listener with pipelining
    and per-connection order, and the assembled server. Only writable mapped tags are actuated; exceptions change nothing.

  \<^bold>\<open>Peer allowlist\<close> (\<open>protocols/peer-allowlist.ts\<close>): \<open>Peer_Allowlist\<close>. Rules of both address families, mapped addresses, and
  the refusal of lists that admit a whole family, for which the recursive cover test is shown exact.

  \<^bold>\<open>Blueprints and safety\<close> (\<open>blueprint\<close>).
  \<^item> \<open>Blueprint_Compiler\<close> (\<open>compiler.ts\<close>, \<open>types.ts\<close>): validation, linking, Kahn's order, emission. It accepts exactly the
    well-formed blueprints that have an evaluation order, and every index it emits is in range.
  \<^item> \<open>Blueprint_Runtime\<close> (\<open>runtime.ts\<close>): a scan is the unique solution of the equations of the blueprint, whatever the order in
    which its nodes are written.
  \<^item> \<open>Safe_State\<close> (\<open>safe-state.ts\<close>): the controller with all its failure paths. The locale \<open>safe_actuator\<close> is the contract of the
    actuator; \<open>Runtime_Actuator\<close> (\<open>runtime-actuator.ts\<close>) interprets it.
  \<^item> \<open>Safety_Host\<close> (\<open>watchdog.ts\<close>, \<open>registry.ts\<close>, \<open>safety-host.ts\<close>): the watchdog and the host. A reported safe state is in
    force, the watchdog trips exactly on the configured run of missed budgets, and the host arms exactly what it can actuate.

  \<^bold>\<open>Integrity\<close> (\<open>integrity/merkle.ts\<close>, \<open>kernel/event-batcher.ts\<close>): \<open>Merkle\<close>, \<open>Event_Batcher\<close>. Proofs verify, a verifying proof of
  the height of the tree binds its leaf unless the hash collides on the strings hashed, and in every interleaving of
  ingestion, timers and failing flushes no accepted event is lost or batched twice.

  \<^bold>\<open>Edge gateway\<close> (\<open>gateway/store-and-forward.ts\<close>, \<open>scaling/hash.ts\<close>).
  \<^item> \<open>Edge_Json\<close>: canonical JSON and the Merkle root; the locale \<open>collation\<close> for \<open>localeCompare\<close>, interpreted by the order of code
    units. The canonical text does not depend on the order of properties.
  \<^item> \<open>Edge_Merge\<close>: the checks of records and the resolution of conflicts. A merged configuration has the later field at each path,
    is valid again, and is the same whichever side merges.
  \<^item> \<open>Edge_Queue\<close>: the service as a machine that moves from await to await, with the chain of serialized operations, retries, start,
    shutdown and crashes. No accepted record is lost; the one interleaving of \<open>shutdown\<close> that breaks this is shown.
  \<^item> \<open>Edge_Restart\<close>: a restart always accepts the stored queue, and a cooperative upstream empties it.

  \<^bold>\<open>GOOSE subscriber\<close> (\<open>protocols/iec61850-goose\<close>).
  \<^item> \<open>Goose_Frame\<close> (\<open>frame-parser.ts\<close>, \<open>types.ts\<close>): the parser of IEC 61850 frames. Its loop over BER values is a partial function; it
    is shown to return for every frame without a negative length, and not to return for a frame with one.
  \<^item> \<open>Goose_Roundtrip\<close>: a reference encoder, whose frames the parser reads back.
  \<^item> \<open>Goose_Subscription\<close> (\<open>subscription.ts\<close>, \<open>index.ts\<close>, \<open>metrics.ts\<close>): validation and delivery. What a subscription accepts is
    characterised exactly, and an accepted frame is not accepted again.
  \<^item> \<open>Goose_Pcap\<close> (\<open>pcap.ts\<close>, \<open>pcap-stream.ts\<close>, \<open>capture-backend.ts\<close>, \<open>pcap-backend.ts\<close>): capture files, and the stream decoder,
    which gives the same packets however the stream is cut.

  \<^bold>\<open>Conventions.\<close> A class is a record and its methods are functions on it; a thrown error is a value (\<open>Inl\<close>, \<open>None\<close> or a
  datatype of the errors the code distinguishes); asynchronous code is cut at its awaits into the steps that the event
  loop may interleave. Hashes, the HMAC, the clock, identifiers, the control sink, the file system, the audit sink and the
  anchor service are arguments; where a result needs something of them it is a premise of the theorem. Loops are
  recursive functions with a termination proof, but for the loop over BER values, which may not end; no definition uses fuel. Words carry the width of the wire fields.

  \<^bold>\<open>Not modelled.\<close> HTTP routes, storage and its schema, the command line and the browser client are glue over frameworks.
  OPC UA, Sparkplug and the vendor adapters drive third-party protocol packages. The live capture of GOOSE frames, federation and upgrades, the
  integrity relayer, key stores and the anchor bridge are separate subsystems outside the control path. The reading of
  environment variables and JSON files, log and metric output, and the scheduling loops of the blueprint package
  (\<open>scheduler.ts\<close>, \<open>control-loop.ts\<close>, \<open>tick-loop.ts\<close>) are left out; the ticks they cause are the events of \<open>Safety_Host\<close>.
  So are the file format of the edge queue and its status and health getters.
\<close>

end
